(* ===== verification/Prelude.thy ===== *)
theory Prelude imports Main "HOL-Library.Word" begin

text \<open>
  What every component of the development shares: the collections that carry the
  component proofs, bytes as HOL characters, the classes of characters the C code
  tests, reachability of a step relation with its invariant rule, and the contract of
  a codec.
\<close>

unbundle bit_operations_syntax

named_theorems machine \<open>facts that turn machine words into numbers\<close>
named_theorems step_defs \<open>definitions of the handlers of a state machine\<close>

section \<open>Bytes\<close>

text \<open>
  A byte of a C buffer is a HOL \<^typ>\<open>char\<close>; \<open>uc\<close> is the cast to
  \<open>unsigned char\<close>.
\<close>

definition uc :: "char \<Rightarrow> nat" where
  "uc c = of_char c"

lemma uc_less_256 [simp]: "uc c < 256"
  by (simp add: uc_def)

lemma uc_inj [simp]: "uc a = uc b \<longleftrightarrow> a = b"
  by (simp add: uc_def)

lemma uc_Char [simp]:
  "uc (Char b0 b1 b2 b3 b4 b5 b6 b7) = of_bool b0 + 2 * (of_bool b1 + 2 * (of_bool b2 +
     2 * (of_bool b3 + 2 * (of_bool b4 + 2 * (of_bool b5 + 2 * (of_bool b6 + 2 * of_bool b7))))))"
  by (simp add: uc_def of_char_def)

lemma uc_char_of: "n < 256 \<Longrightarrow> uc (char_of n) = n"
  by (simp add: uc_def)

section \<open>Lists\<close>

lemma take_Suc_append_nth: "i < length xs \<Longrightarrow> take (Suc i) xs = take i xs @ [xs ! i]"
  by (rule take_Suc_conv_app_nth)

lemma find_index_split:
  assumes "x \<in> set xs"
  obtains ys zs where "xs = ys @ x # zs" "x \<notin> set ys"
  using split_list_first [OF assms] by blast

section \<open>Reachable states of a step relation\<close>

inductive reachable :: "('s \<Rightarrow> bool) \<Rightarrow> ('s \<Rightarrow> 's \<Rightarrow> bool) \<Rightarrow> 's \<Rightarrow> bool"
  for init :: "'s \<Rightarrow> bool" and step :: "'s \<Rightarrow> 's \<Rightarrow> bool" where
  reach_init: "init s \<Longrightarrow> reachable init step s"
| reach_step: "reachable init step s \<Longrightarrow> step s t \<Longrightarrow> reachable init step t"

text \<open>
  The contract of a system whose invariant is inductive: whoever provides the two laws
  gets the invariant in every reachable state.
\<close>

locale invariant_system =
  fixes init :: "'s \<Rightarrow> bool"
    and step :: "'s \<Rightarrow> 's \<Rightarrow> bool"
    and inv :: "'s \<Rightarrow> bool"
  assumes inv_init: "init s \<Longrightarrow> inv s"
    and inv_step: "inv s \<Longrightarrow> step s t \<Longrightarrow> inv t"
begin

lemma reachable_inv: "reachable init step s \<Longrightarrow> inv s"
  by (induction rule: reachable.induct) (auto intro: inv_init inv_step)

lemma rtranclp_inv: "step\<^sup>*\<^sup>* s t \<Longrightarrow> inv s \<Longrightarrow> inv t"
  by (induction rule: rtranclp_induct) (auto intro: inv_step)

end

section \<open>Codecs\<close>

text \<open>
  The contract of an encoder and a decoder of a prefix of a byte stream, for the items that
  are \<open>ok\<close>. What a client
  gets: a sequence of encoded items decodes to the items, and encodings are prefix free.
\<close>

locale codec =
  fixes ok :: "'a \<Rightarrow> bool"
    and enc :: "'a \<Rightarrow> 'b list"
    and dec :: "'b list \<Rightarrow> ('a \<times> 'b list) option"
  assumes dec_enc: "ok x \<Longrightarrow> dec (enc x @ rest) = Some (x, rest)"
begin

primrec dec_n :: "nat \<Rightarrow> 'b list \<Rightarrow> ('a list \<times> 'b list) option" where
  "dec_n 0 bs = Some ([], bs)"
| "dec_n (Suc n) bs =
     (case dec bs of None \<Rightarrow> None
      | Some (x, bs') \<Rightarrow> map_option (\<lambda>(xs, r). (x # xs, r)) (dec_n n bs'))"

lemma dec_n_concat: "list_all ok xs \<Longrightarrow> dec_n (length xs) (concat (map enc xs) @ rest) = Some (xs, rest)"
  by (induction xs) (auto simp: dec_enc)

lemma enc_prefix_free: "ok x \<Longrightarrow> ok y \<Longrightarrow> enc x @ r = enc y @ s \<Longrightarrow> x = y \<and> r = s"
  by (metis dec_enc option.inject prod.inject)

lemma enc_inj: "ok x \<Longrightarrow> ok y \<Longrightarrow> enc x = enc y \<Longrightarrow> x = y"
  by (metis enc_prefix_free)

end

end
