(* ===== verification/HttpTypes.thy ===== *)
theory HttpTypes imports Prelude begin

text \<open>
  The data of \<open>http_parser.h\<close> and the tables and character classes of
  \<open>http_parser.c\<close>, with the preprocessor symbol \<open>HTTP_PARSER_STRICT\<close> at its
  default, 1. Enums are datatypes with the source's constants; \<open>enum state\<close> keeps its
  numbering (\<open>state_num\<close>), which the \<open>PARSING_HEADER\<close> test compares.
\<close>

unbundle bit_operations_syntax

section \<open>Enumerations\<close>

datatype (plugins only: code size) http_method =
    HTTP_DELETE | HTTP_GET | HTTP_HEAD | HTTP_POST | HTTP_PUT
  | HTTP_CONNECT | HTTP_OPTIONS | HTTP_TRACE
  | HTTP_COPY | HTTP_LOCK | HTTP_MKCOL | HTTP_MOVE | HTTP_PROPFIND | HTTP_PROPPATCH
  | HTTP_SEARCH | HTTP_UNLOCK | HTTP_BIND | HTTP_REBIND | HTTP_UNBIND | HTTP_ACL
  | HTTP_REPORT | HTTP_MKACTIVITY | HTTP_CHECKOUT | HTTP_MERGE
  | HTTP_MSEARCH | HTTP_NOTIFY | HTTP_SUBSCRIBE | HTTP_UNSUBSCRIBE
  | HTTP_PATCH | HTTP_PURGE | HTTP_MKCALENDAR

datatype (plugins only: code size) http_parser_type = HTTP_REQUEST | HTTP_RESPONSE | HTTP_BOTH

text \<open>The bits of the 7-bit \<open>flags\<close> field.\<close>

abbreviation (input) F_CHUNKED :: "7 word" where "F_CHUNKED \<equiv> 1"
abbreviation (input) F_CONNECTION_KEEP_ALIVE :: "7 word" where "F_CONNECTION_KEEP_ALIVE \<equiv> 2"
abbreviation (input) F_CONNECTION_CLOSE :: "7 word" where "F_CONNECTION_CLOSE \<equiv> 4"
abbreviation (input) F_CONNECTION_UPGRADE :: "7 word" where "F_CONNECTION_UPGRADE \<equiv> 8"
abbreviation (input) F_TRAILING :: "7 word" where "F_TRAILING \<equiv> 16"
abbreviation (input) F_UPGRADE :: "7 word" where "F_UPGRADE \<equiv> 32"
abbreviation (input) F_SKIPBODY :: "7 word" where "F_SKIPBODY \<equiv> 64"

datatype (plugins only: code size) http_errno =
    HPE_OK
  | HPE_CB_message_begin | HPE_CB_url | HPE_CB_header_field | HPE_CB_header_value
  | HPE_CB_headers_complete | HPE_CB_body | HPE_CB_message_complete | HPE_CB_status
  | HPE_CB_chunk_header | HPE_CB_chunk_complete
  | HPE_INVALID_EOF_STATE | HPE_HEADER_OVERFLOW | HPE_CLOSED_CONNECTION
  | HPE_INVALID_VERSION | HPE_INVALID_STATUS | HPE_INVALID_METHOD | HPE_INVALID_URL
  | HPE_INVALID_HOST | HPE_INVALID_PORT | HPE_INVALID_PATH | HPE_INVALID_QUERY_STRING
  | HPE_INVALID_FRAGMENT | HPE_LF_EXPECTED | HPE_INVALID_HEADER_TOKEN
  | HPE_INVALID_CONTENT_LENGTH | HPE_INVALID_CHUNK_SIZE | HPE_INVALID_CONSTANT
  | HPE_INVALID_INTERNAL_STATE | HPE_STRICT | HPE_PAUSED | HPE_UNKNOWN

datatype (plugins only: code size) state =
    s_dead
  | s_start_req_or_res | s_res_or_resp_H | s_start_res
  | s_res_H | s_res_HT | s_res_HTT | s_res_HTTP
  | s_res_first_http_major | s_res_http_major | s_res_first_http_minor | s_res_http_minor
  | s_res_first_status_code | s_res_status_code | s_res_status_start | s_res_status
  | s_res_line_almost_done
  | s_start_req
  | s_req_method | s_req_spaces_before_url | s_req_schema | s_req_schema_slash
  | s_req_schema_slash_slash | s_req_server_start | s_req_server | s_req_server_with_at
  | s_req_path | s_req_query_string_start | s_req_query_string
  | s_req_fragment_start | s_req_fragment
  | s_req_http_start | s_req_http_H | s_req_http_HT | s_req_http_HTT | s_req_http_HTTP
  | s_req_first_http_major | s_req_http_major | s_req_first_http_minor | s_req_http_minor
  | s_req_line_almost_done
  | s_header_field_start | s_header_field | s_header_value_discard_ws
  | s_header_value_discard_ws_almost_done | s_header_value_discard_lws
  | s_header_value_start | s_header_value | s_header_value_lws
  | s_header_almost_done
  | s_chunk_size_start | s_chunk_size | s_chunk_parameters | s_chunk_size_almost_done
  | s_headers_almost_done | s_headers_done
  | s_chunk_data | s_chunk_data_almost_done | s_chunk_data_done
  | s_body_identity | s_body_identity_eof
  | s_message_done

datatype (plugins only: code size) header_states =
    h_general | h_C | h_CO | h_CON
  | h_matching_connection | h_matching_proxy_connection | h_matching_content_length
  | h_matching_transfer_encoding | h_matching_upgrade
  | h_connection | h_content_length | h_transfer_encoding | h_upgrade
  | h_matching_transfer_encoding_chunked | h_matching_connection_token_start
  | h_matching_connection_keep_alive | h_matching_connection_close
  | h_matching_connection_upgrade | h_matching_connection_token
  | h_transfer_encoding_chunked | h_connection_keep_alive | h_connection_close
  | h_connection_upgrade

datatype (plugins only: code size) http_host_state =
    s_http_host_dead | s_http_userinfo_start | s_http_userinfo | s_http_host_start
  | s_http_host_v6_start | s_http_host | s_http_host_v6 | s_http_host_v6_end
  | s_http_host_v6_zone_start | s_http_host_v6_zone | s_http_host_port_start
  | s_http_host_port

datatype (plugins only: code size) http_parser_url_fields =
    UF_SCHEMA | UF_HOST | UF_PORT | UF_PATH | UF_QUERY | UF_FRAGMENT | UF_USERINFO


section \<open>The numbering of the parser states\<close>

primrec state_num :: "state \<Rightarrow> nat" where
  "state_num s_dead = 1"
| "state_num s_start_req_or_res = 2"
| "state_num s_res_or_resp_H = 3"
| "state_num s_start_res = 4"
| "state_num s_res_H = 5"
| "state_num s_res_HT = 6"
| "state_num s_res_HTT = 7"
| "state_num s_res_HTTP = 8"
| "state_num s_res_first_http_major = 9"
| "state_num s_res_http_major = 10"
| "state_num s_res_first_http_minor = 11"
| "state_num s_res_http_minor = 12"
| "state_num s_res_first_status_code = 13"
| "state_num s_res_status_code = 14"
| "state_num s_res_status_start = 15"
| "state_num s_res_status = 16"
| "state_num s_res_line_almost_done = 17"
| "state_num s_start_req = 18"
| "state_num s_req_method = 19"
| "state_num s_req_spaces_before_url = 20"
| "state_num s_req_schema = 21"
| "state_num s_req_schema_slash = 22"
| "state_num s_req_schema_slash_slash = 23"
| "state_num s_req_server_start = 24"
| "state_num s_req_server = 25"
| "state_num s_req_server_with_at = 26"
| "state_num s_req_path = 27"
| "state_num s_req_query_string_start = 28"
| "state_num s_req_query_string = 29"
| "state_num s_req_fragment_start = 30"
| "state_num s_req_fragment = 31"
| "state_num s_req_http_start = 32"
| "state_num s_req_http_H = 33"
| "state_num s_req_http_HT = 34"
| "state_num s_req_http_HTT = 35"
| "state_num s_req_http_HTTP = 36"
| "state_num s_req_first_http_major = 37"
| "state_num s_req_http_major = 38"
| "state_num s_req_first_http_minor = 39"
| "state_num s_req_http_minor = 40"
| "state_num s_req_line_almost_done = 41"
| "state_num s_header_field_start = 42"
| "state_num s_header_field = 43"
| "state_num s_header_value_discard_ws = 44"
| "state_num s_header_value_discard_ws_almost_done = 45"
| "state_num s_header_value_discard_lws = 46"
| "state_num s_header_value_start = 47"
| "state_num s_header_value = 48"
| "state_num s_header_value_lws = 49"
| "state_num s_header_almost_done = 50"
| "state_num s_chunk_size_start = 51"
| "state_num s_chunk_size = 52"
| "state_num s_chunk_parameters = 53"
| "state_num s_chunk_size_almost_done = 54"
| "state_num s_headers_almost_done = 55"
| "state_num s_headers_done = 56"
| "state_num s_chunk_data = 57"
| "state_num s_chunk_data_almost_done = 58"
| "state_num s_chunk_data_done = 59"
| "state_num s_body_identity = 60"
| "state_num s_body_identity_eof = 61"
| "state_num s_message_done = 62"

definition PARSING_HEADER :: "state \<Rightarrow> bool" where
  "PARSING_HEADER s \<longleftrightarrow> state_num s \<le> state_num s_headers_done"

definition HTTP_MAX_HEADER_SIZE :: "32 word" where
  "HTTP_MAX_HEADER_SIZE = 80 * 1024"

definition ULLONG_MAX :: "64 word" where
  "ULLONG_MAX = -1"

section \<open>Tables\<close>

fun method_strings :: "http_method \<Rightarrow> string" where
  "method_strings HTTP_DELETE = ''DELETE''"
| "method_strings HTTP_GET = ''GET''"
| "method_strings HTTP_HEAD = ''HEAD''"
| "method_strings HTTP_POST = ''POST''"
| "method_strings HTTP_PUT = ''PUT''"
| "method_strings HTTP_CONNECT = ''CONNECT''"
| "method_strings HTTP_OPTIONS = ''OPTIONS''"
| "method_strings HTTP_TRACE = ''TRACE''"
| "method_strings HTTP_COPY = ''COPY''"
| "method_strings HTTP_LOCK = ''LOCK''"
| "method_strings HTTP_MKCOL = ''MKCOL''"
| "method_strings HTTP_MOVE = ''MOVE''"
| "method_strings HTTP_PROPFIND = ''PROPFIND''"
| "method_strings HTTP_PROPPATCH = ''PROPPATCH''"
| "method_strings HTTP_SEARCH = ''SEARCH''"
| "method_strings HTTP_UNLOCK = ''UNLOCK''"
| "method_strings HTTP_BIND = ''BIND''"
| "method_strings HTTP_REBIND = ''REBIND''"
| "method_strings HTTP_UNBIND = ''UNBIND''"
| "method_strings HTTP_ACL = ''ACL''"
| "method_strings HTTP_REPORT = ''REPORT''"
| "method_strings HTTP_MKACTIVITY = ''MKACTIVITY''"
| "method_strings HTTP_CHECKOUT = ''CHECKOUT''"
| "method_strings HTTP_MERGE = ''MERGE''"
| "method_strings HTTP_MSEARCH = ''M-SEARCH''"
| "method_strings HTTP_NOTIFY = ''NOTIFY''"
| "method_strings HTTP_SUBSCRIBE = ''SUBSCRIBE''"
| "method_strings HTTP_UNSUBSCRIBE = ''UNSUBSCRIBE''"
| "method_strings HTTP_PATCH = ''PATCH''"
| "method_strings HTTP_PURGE = ''PURGE''"
| "method_strings HTTP_MKCALENDAR = ''MKCALENDAR''"

text \<open>
  \<open>tokens[256]\<close>: the initialiser lists 128 entries, so the upper half is 0.
\<close>

definition tokens_init :: "char list" where
  "tokens_init =
    [CHR 0x00, CHR 0x00, CHR 0x00, CHR 0x00, CHR 0x00, CHR 0x00, CHR 0x00, CHR 0x00,
     CHR 0x00, CHR 0x00, CHR 0x00, CHR 0x00, CHR 0x00, CHR 0x00, CHR 0x00, CHR 0x00,
     CHR 0x00, CHR 0x00, CHR 0x00, CHR 0x00, CHR 0x00, CHR 0x00, CHR 0x00, CHR 0x00,
     CHR 0x00, CHR 0x00, CHR 0x00, CHR 0x00, CHR 0x00, CHR 0x00, CHR 0x00, CHR 0x00,
     CHR 0x00, CHR ''!'', CHR 0x00, CHR ''#'', CHR ''$'', CHR ''%'', CHR ''&'', CHR 0x27,
     CHR 0x00, CHR 0x00, CHR ''*'', CHR ''+'', CHR 0x00, CHR ''-'', CHR ''.'', CHR 0x00,
     CHR 0x30, CHR 0x31, CHR 0x32, CHR 0x33, CHR 0x34, CHR 0x35, CHR 0x36, CHR 0x37,
     CHR 0x38, CHR 0x39, CHR 0x00, CHR 0x00, CHR 0x00, CHR 0x00, CHR 0x00, CHR 0x00,
     CHR 0x00, CHR ''a'', CHR ''b'', CHR ''c'', CHR ''d'', CHR ''e'', CHR ''f'', CHR ''g'',
     CHR ''h'', CHR ''i'', CHR ''j'', CHR ''k'', CHR ''l'', CHR ''m'', CHR ''n'', CHR ''o'',
     CHR ''p'', CHR ''q'', CHR ''r'', CHR ''s'', CHR ''t'', CHR ''u'', CHR ''v'', CHR ''w'',
     CHR ''x'', CHR ''y'', CHR ''z'', CHR 0x00, CHR 0x00, CHR 0x00, CHR ''^'', CHR ''_'',
     CHR 0x60, CHR ''a'', CHR ''b'', CHR ''c'', CHR ''d'', CHR ''e'', CHR ''f'', CHR ''g'',
     CHR ''h'', CHR ''i'', CHR ''j'', CHR ''k'', CHR ''l'', CHR ''m'', CHR ''n'', CHR ''o'',
     CHR ''p'', CHR ''q'', CHR ''r'', CHR ''s'', CHR ''t'', CHR ''u'', CHR ''v'', CHR ''w'',
     CHR ''x'', CHR ''y'', CHR ''z'', CHR 0x00, CHR ''|'', CHR 0x00, CHR ''~'', CHR 0x00]"

definition tokens :: "char \<Rightarrow> char" where
  "tokens c = (if uc c < 128 then tokens_init ! uc c else CHR 0x00)"

text \<open>
  \<open>unhex[256]\<close>: again 128 entries are listed, so every byte from 128 up has the value
  0, the value of the digit 0, and not -1.
\<close>

definition unhex_init :: "int list" where
  "unhex_init =
    [-1, -1, -1, -1, -1, -1, -1, -1, -1, -1, -1, -1, -1, -1, -1, -1,
     -1, -1, -1, -1, -1, -1, -1, -1, -1, -1, -1, -1, -1, -1, -1, -1,
     -1, -1, -1, -1, -1, -1, -1, -1, -1, -1, -1, -1, -1, -1, -1, -1,
     0, 1, 2, 3, 4, 5, 6, 7, 8, 9, -1, -1, -1, -1, -1, -1,
     -1, 10, 11, 12, 13, 14, 15, -1, -1, -1, -1, -1, -1, -1, -1, -1,
     -1, -1, -1, -1, -1, -1, -1, -1, -1, -1, -1, -1, -1, -1, -1, -1,
     -1, 10, 11, 12, 13, 14, 15, -1, -1, -1, -1, -1, -1, -1, -1, -1,
     -1, -1, -1, -1, -1, -1, -1, -1, -1, -1, -1, -1, -1, -1, -1, -1]"

definition unhex :: "char \<Rightarrow> int" where
  "unhex c = (if uc c < 128 then unhex_init ! uc c else 0)"

text \<open>
  \<open>normal_url_char[32]\<close>, one bit per byte; in strict mode \<open>T(v)\<close> is 0. The
  16 entries not listed are 0.
\<close>

definition normal_url_char :: "nat list" where
  "normal_url_char =
    [0,
     0,
     0,
     0,
     2 OR 4 OR 16 OR 32 OR 64 OR 128,
     1 OR 2 OR 4 OR 8 OR 16 OR 32 OR 64 OR 128,
     1 OR 2 OR 4 OR 8 OR 16 OR 32 OR 64 OR 128,
     1 OR 2 OR 4 OR 8 OR 16 OR 32 OR 64,
     1 OR 2 OR 4 OR 8 OR 16 OR 32 OR 64 OR 128,
     1 OR 2 OR 4 OR 8 OR 16 OR 32 OR 64 OR 128,
     1 OR 2 OR 4 OR 8 OR 16 OR 32 OR 64 OR 128,
     1 OR 2 OR 4 OR 8 OR 16 OR 32 OR 64 OR 128,
     1 OR 2 OR 4 OR 8 OR 16 OR 32 OR 64 OR 128,
     1 OR 2 OR 4 OR 8 OR 16 OR 32 OR 64 OR 128,
     1 OR 2 OR 4 OR 8 OR 16 OR 32 OR 64 OR 128,
     1 OR 2 OR 4 OR 8 OR 16 OR 32 OR 64] @ replicate 16 0"

definition BIT_AT :: "nat list \<Rightarrow> nat \<Rightarrow> bool" where
  "BIT_AT a i = bit (a ! drop_bit 3 i) (i AND 7)"

section \<open>Character classes\<close>

text \<open>
  \<open>char\<close> is signed on the platform: the comparisons of a negative \<open>ch\<close> with ASCII
  constants fail on the lower bound where those of the model fail on the upper one.
  \<open>LOWER\<close> sets bit 5.
\<close>

abbreviation (input) CR :: char where "CR \<equiv> CHR 0x0D"
abbreviation (input) LF :: char where "LF \<equiv> CHR 0x0A"
abbreviation (input) HT :: char where "HT \<equiv> CHR 0x09"
abbreviation (input) FF :: char where "FF \<equiv> CHR 0x0C"
abbreviation (input) SP :: char where "SP \<equiv> CHR 0x20"
abbreviation (input) NUL :: char where "NUL \<equiv> CHR 0x00"

fun LOWER :: "char \<Rightarrow> char" where
  "LOWER (Char b0 b1 b2 b3 b4 b5 b6 b7) = Char b0 b1 b2 b3 b4 True b6 b7"

definition IS_ALPHA :: "char \<Rightarrow> bool" where
  "IS_ALPHA c \<longleftrightarrow> uc CHR ''a'' \<le> uc (LOWER c) \<and> uc (LOWER c) \<le> uc CHR ''z''"

definition IS_NUM :: "char \<Rightarrow> bool" where
  "IS_NUM c \<longleftrightarrow> uc CHR ''0'' \<le> uc c \<and> uc c \<le> uc CHR ''9''"

definition IS_ALPHANUM :: "char \<Rightarrow> bool" where
  "IS_ALPHANUM c \<longleftrightarrow> IS_ALPHA c \<or> IS_NUM c"

definition IS_HEX :: "char \<Rightarrow> bool" where
  "IS_HEX c \<longleftrightarrow> IS_NUM c \<or> (uc CHR ''a'' \<le> uc (LOWER c) \<and> uc (LOWER c) \<le> uc CHR ''f'')"

definition IS_MARK :: "char \<Rightarrow> bool" where
  "IS_MARK c \<longleftrightarrow> c \<in> {CHR ''-'', CHR ''_'', CHR ''.'', CHR ''!'', CHR ''~'', CHR ''*'',
     CHR 0x27, CHR ''('', CHR '')''}"

definition IS_USERINFO_CHAR :: "char \<Rightarrow> bool" where
  "IS_USERINFO_CHAR c \<longleftrightarrow> IS_ALPHANUM c \<or> IS_MARK c \<or>
     c \<in> {CHR ''%'', CHR '';'', CHR '':'', CHR ''&'', CHR ''='', CHR ''+'', CHR ''$'', CHR '',''}"

text \<open>In strict mode \<open>TOKEN\<close> and \<open>STRICT_TOKEN\<close> are the same table lookup.\<close>

definition TOKEN :: "char \<Rightarrow> char" where
  "TOKEN c = tokens c"

definition IS_URL_CHAR :: "char \<Rightarrow> bool" where
  "IS_URL_CHAR c \<longleftrightarrow> BIT_AT normal_url_char (uc c)"

definition IS_HOST_CHAR :: "char \<Rightarrow> bool" where
  "IS_HOST_CHAR c \<longleftrightarrow> IS_ALPHANUM c \<or> c = CHR ''.'' \<or> c = CHR ''-''"

end
