(* ===== verification/HttpUrl.thy ===== *)
theory HttpUrl imports HttpTypes begin

text \<open>
  The URL half of \<open>http_parser.c\<close>: the byte-by-byte machine \<open>parse_url_char\<close>
  shared with the message parser, and \<open>http_parser_parse_url\<close> with its host machine.
  A buffer is the list of the bytes that may be read from \<open>buf\<close> on, \<open>buflen\<close> says
  how many of them belong to the URL; a read past the end of the list is the outcome
  \<open>Url_fault\<close> and a failed \<open>assert\<close> is \<open>Url_abort\<close>.
\<close>

unbundle bit_operations_syntax

section \<open>The URL state machine\<close>

definition parse_url_char :: "state \<Rightarrow> char \<Rightarrow> state" where
  "parse_url_char s ch =
    (if ch = SP \<or> ch = CR \<or> ch = LF then s_dead
     else if ch = HT \<or> ch = FF then s_dead
     else case s of
       s_req_spaces_before_url \<Rightarrow>
         if ch = CHR ''/'' \<or> ch = CHR ''*'' then s_req_path
         else if IS_ALPHA ch then s_req_schema
         else s_dead
     | s_req_schema \<Rightarrow>
         if IS_ALPHA ch then s
         else if ch = CHR '':'' then s_req_schema_slash
         else s_dead
     | s_req_schema_slash \<Rightarrow>
         if ch = CHR ''/'' then s_req_schema_slash_slash else s_dead
     | s_req_schema_slash_slash \<Rightarrow>
         if ch = CHR ''/'' then s_req_server_start else s_dead
     | s_req_server_with_at \<Rightarrow>
         if ch = CHR ''@'' then s_dead
         else if ch = CHR ''/'' then s_req_path
         else if ch = CHR ''?'' then s_req_query_string_start
         else if IS_USERINFO_CHAR ch \<or> ch = CHR ''['' \<or> ch = CHR '']'' then s_req_server
         else s_dead
     | s_req_server_start \<Rightarrow>
         if ch = CHR ''/'' then s_req_path
         else if ch = CHR ''?'' then s_req_query_string_start
         else if ch = CHR ''@'' then s_req_server_with_at
         else if IS_USERINFO_CHAR ch \<or> ch = CHR ''['' \<or> ch = CHR '']'' then s_req_server
         else s_dead
     | s_req_server \<Rightarrow>
         if ch = CHR ''/'' then s_req_path
         else if ch = CHR ''?'' then s_req_query_string_start
         else if ch = CHR ''@'' then s_req_server_with_at
         else if IS_USERINFO_CHAR ch \<or> ch = CHR ''['' \<or> ch = CHR '']'' then s_req_server
         else s_dead
     | s_req_path \<Rightarrow>
         if IS_URL_CHAR ch then s
         else if ch = CHR ''?'' then s_req_query_string_start
         else if ch = CHR ''#'' then s_req_fragment_start
         else s_dead
     | s_req_query_string_start \<Rightarrow>
         if IS_URL_CHAR ch then s_req_query_string
         else if ch = CHR ''?'' then s_req_query_string
         else if ch = CHR ''#'' then s_req_fragment_start
         else s_dead
     | s_req_query_string \<Rightarrow>
         if IS_URL_CHAR ch then s_req_query_string
         else if ch = CHR ''?'' then s_req_query_string
         else if ch = CHR ''#'' then s_req_fragment_start
         else s_dead
     | s_req_fragment_start \<Rightarrow>
         if IS_URL_CHAR ch then s_req_fragment
         else if ch = CHR ''?'' then s_req_fragment
         else if ch = CHR ''#'' then s
         else s_dead
     | s_req_fragment \<Rightarrow>
         if IS_URL_CHAR ch then s
         else if ch = CHR ''?'' \<or> ch = CHR ''#'' then s
         else s_dead
     | _ \<Rightarrow> s_dead)"

section \<open>The host state machine\<close>

definition http_parse_host_char :: "http_host_state \<Rightarrow> char \<Rightarrow> http_host_state" where
  "http_parse_host_char s ch =
    (case s of
       s_http_userinfo \<Rightarrow>
         if ch = CHR ''@'' then s_http_host_start
         else if IS_USERINFO_CHAR ch then s_http_userinfo else s_http_host_dead
     | s_http_userinfo_start \<Rightarrow>
         if ch = CHR ''@'' then s_http_host_start
         else if IS_USERINFO_CHAR ch then s_http_userinfo else s_http_host_dead
     | s_http_host_start \<Rightarrow>
         if ch = CHR ''['' then s_http_host_v6_start
         else if IS_HOST_CHAR ch then s_http_host else s_http_host_dead
     | s_http_host \<Rightarrow>
         if IS_HOST_CHAR ch then s_http_host
         else if ch = CHR '':'' then s_http_host_port_start else s_http_host_dead
     | s_http_host_v6_end \<Rightarrow>
         if ch = CHR '':'' then s_http_host_port_start else s_http_host_dead
     | s_http_host_v6 \<Rightarrow>
         if ch = CHR '']'' then s_http_host_v6_end
         else if IS_HEX ch \<or> ch = CHR '':'' \<or> ch = CHR ''.'' then s_http_host_v6
         else if ch = CHR ''%'' then s_http_host_v6_zone_start
         else s_http_host_dead
     | s_http_host_v6_start \<Rightarrow>
         if IS_HEX ch \<or> ch = CHR '':'' \<or> ch = CHR ''.'' then s_http_host_v6
         else s_http_host_dead
     | s_http_host_v6_zone \<Rightarrow>
         if ch = CHR '']'' then s_http_host_v6_end
         else if IS_ALPHANUM ch \<or> ch = CHR ''%'' \<or> ch = CHR ''.'' \<or> ch = CHR ''-'' \<or>
              ch = CHR ''_'' \<or> ch = CHR ''~'' then s_http_host_v6_zone
         else s_http_host_dead
     | s_http_host_v6_zone_start \<Rightarrow>
         if IS_ALPHANUM ch \<or> ch = CHR ''%'' \<or> ch = CHR ''.'' \<or> ch = CHR ''-'' \<or>
            ch = CHR ''_'' \<or> ch = CHR ''~'' then s_http_host_v6_zone
         else s_http_host_dead
     | s_http_host_port \<Rightarrow>
         if IS_NUM ch then s_http_host_port else s_http_host_dead
     | s_http_host_port_start \<Rightarrow>
         if IS_NUM ch then s_http_host_port else s_http_host_dead
     | _ \<Rightarrow> s_http_host_dead)"

section \<open>The result structure\<close>

text \<open>
  \<open>struct http_parser_url\<close>: all numbers are 16 bits wide. \<open>u_off\<close> and
  \<open>u_len\<close> are the columns of \<open>field_data[UF_MAX]\<close>.
\<close>

record http_parser_url =
  u_field_set :: "16 word"
  u_port :: "16 word"
  u_off :: "http_parser_url_fields \<Rightarrow> 16 word"
  u_len :: "http_parser_url_fields \<Rightarrow> 16 word"

primrec uf_num :: "http_parser_url_fields \<Rightarrow> nat" where
  "uf_num UF_SCHEMA = 0"
| "uf_num UF_HOST = 1"
| "uf_num UF_PORT = 2"
| "uf_num UF_PATH = 3"
| "uf_num UF_QUERY = 4"
| "uf_num UF_FRAGMENT = 5"
| "uf_num UF_USERINFO = 6"

definition uf_bit :: "http_parser_url_fields \<Rightarrow> 16 word" where
  "uf_bit f = push_bit (uf_num f) 1"

definition set_off :: "http_parser_url_fields \<Rightarrow> nat \<Rightarrow> http_parser_url \<Rightarrow> http_parser_url" where
  "set_off f n u = u\<lparr>u_off := (u_off u)(f := of_nat n)\<rparr>"

definition set_len :: "http_parser_url_fields \<Rightarrow> 16 word \<Rightarrow> http_parser_url \<Rightarrow> http_parser_url" where
  "set_len f n u = u\<lparr>u_len := (u_len u)(f := n)\<rparr>"

definition inc_len :: "http_parser_url_fields \<Rightarrow> http_parser_url \<Rightarrow> http_parser_url" where
  "inc_len f u = set_len f (u_len u f + 1) u"

definition add_field :: "http_parser_url_fields \<Rightarrow> http_parser_url \<Rightarrow> http_parser_url" where
  "add_field f u = u\<lparr>u_field_set := u_field_set u OR uf_bit f\<rparr>"

definition has_field :: "http_parser_url_fields \<Rightarrow> http_parser_url \<Rightarrow> bool" where
  "has_field f u \<longleftrightarrow> u_field_set u AND uf_bit f \<noteq> 0"

datatype url_result = Url_ret int http_parser_url | Url_abort | Url_fault

section \<open>\<open>http_parse_host\<close>\<close>

text \<open>The switch on the new state, at position \<open>p\<close>.\<close>

definition host_note :: "http_host_state \<Rightarrow> http_host_state \<Rightarrow> nat \<Rightarrow> http_parser_url \<Rightarrow> http_parser_url" where
  "host_note s new_s p u =
    (case new_s of
       s_http_host \<Rightarrow>
         inc_len UF_HOST (if s \<noteq> s_http_host then set_off UF_HOST p u else u)
     | s_http_host_v6 \<Rightarrow>
         inc_len UF_HOST (if s \<noteq> s_http_host_v6 then set_off UF_HOST p u else u)
     | s_http_host_v6_zone_start \<Rightarrow> inc_len UF_HOST u
     | s_http_host_v6_zone \<Rightarrow> inc_len UF_HOST u
     | s_http_host_port \<Rightarrow>
         inc_len UF_PORT
           (if s \<noteq> s_http_host_port
            then add_field UF_PORT (set_len UF_PORT 0 (set_off UF_PORT p u)) else u)
     | s_http_userinfo \<Rightarrow>
         inc_len UF_USERINFO
           (if s \<noteq> s_http_userinfo
            then add_field UF_USERINFO (set_len UF_USERINFO 0 (set_off UF_USERINFO p u)) else u)
     | _ \<Rightarrow> u)"

text \<open>
  The loop over the bytes \<open>buf[p .. p + length cs)\<close>: \<open>None\<close> is the early
  \<open>return 1\<close>; the structure as it was then is what the caller sees.
\<close>

fun host_loop :: "http_host_state \<Rightarrow> nat \<Rightarrow> char list \<Rightarrow> http_parser_url \<Rightarrow>
    http_host_state option \<times> http_parser_url" where
  "host_loop s p [] u = (Some s, u)"
| "host_loop s p (c # cs) u =
    (let new_s = http_parse_host_char s c in
     if new_s = s_http_host_dead then (None, u)
     else host_loop new_s (Suc p) cs (host_note s new_s p u))"

definition host_bad_end :: "http_host_state \<Rightarrow> bool" where
  "host_bad_end s \<longleftrightarrow> s \<in> {s_http_host_start, s_http_host_v6_start, s_http_host_v6,
     s_http_host_v6_zone_start, s_http_host_v6_zone, s_http_host_port_start,
     s_http_userinfo, s_http_userinfo_start}"

definition http_parse_host :: "char list \<Rightarrow> http_parser_url \<Rightarrow> bool \<Rightarrow> url_result" where
  "http_parse_host buf u found_at =
    (if \<not> has_field UF_HOST u then Url_abort
     else let first = unat (u_off u UF_HOST);
              buflen = first + unat (u_len u UF_HOST);
              s = (if found_at then s_http_userinfo_start else s_http_host_start)
          in if length buf < buflen then Url_fault
             else case host_loop s first (take (buflen - first) (drop first buf))
                         (set_len UF_HOST 0 u) of
                (None, u') \<Rightarrow> Url_ret 1 u'
              | (Some s', u') \<Rightarrow> Url_ret (if host_bad_end s' then 1 else 0) u')"

section \<open>\<open>http_parser_parse_url\<close>\<close>

text \<open>
  What a URL state says about the byte just read: an error, a delimiter, or a byte of a
  field. \<open>Uk_bad\<close> is the \<open>assert(!"Unexpected state")\<close>.
\<close>

datatype url_kind = Uk_dead | Uk_skip | Uk_field http_parser_url_fields | Uk_bad

definition url_field_of :: "state \<Rightarrow> url_kind" where
  "url_field_of s =
    (case s of
       s_dead \<Rightarrow> Uk_dead
     | s_req_schema_slash \<Rightarrow> Uk_skip
     | s_req_schema_slash_slash \<Rightarrow> Uk_skip
     | s_req_server_start \<Rightarrow> Uk_skip
     | s_req_query_string_start \<Rightarrow> Uk_skip
     | s_req_fragment_start \<Rightarrow> Uk_skip
     | s_req_schema \<Rightarrow> Uk_field UF_SCHEMA
     | s_req_server_with_at \<Rightarrow> Uk_field UF_HOST
     | s_req_server \<Rightarrow> Uk_field UF_HOST
     | s_req_path \<Rightarrow> Uk_field UF_PATH
     | s_req_query_string \<Rightarrow> Uk_field UF_QUERY
     | s_req_fragment \<Rightarrow> Uk_field UF_FRAGMENT
     | _ \<Rightarrow> Uk_bad)"

text \<open>The locals of the loop: \<open>old_uf\<close> is \<open>None\<close> for \<open>UF_MAX\<close>.\<close>

record url_locals =
  ul_state :: state
  ul_old_uf :: "http_parser_url_fields option"
  ul_found_at :: bool
  ul_url :: http_parser_url

definition url_note :: "http_parser_url_fields \<Rightarrow> nat \<Rightarrow> url_locals \<Rightarrow> url_locals" where
  "url_note uf p l =
    (if ul_old_uf l = Some uf then l\<lparr>ul_url := inc_len uf (ul_url l)\<rparr>
     else l\<lparr>ul_url := add_field uf (set_len uf 1 (set_off uf p (ul_url l))),
            ul_old_uf := Some uf\<rparr>)"

fun url_loop :: "nat \<Rightarrow> char list \<Rightarrow> url_locals \<Rightarrow> url_result + url_locals" where
  "url_loop p [] l = Inr l"
| "url_loop p (c # cs) l =
    (let s = parse_url_char (ul_state l) c;
         l = l\<lparr>ul_state := s,
               ul_found_at := (ul_found_at l \<or> s = s_req_server_with_at)\<rparr>
     in case url_field_of s of
          Uk_dead \<Rightarrow> Inl (Url_ret 1 (ul_url l))
        | Uk_skip \<Rightarrow> url_loop (Suc p) cs l
        | Uk_bad \<Rightarrow> Inl Url_abort
        | Uk_field uf \<Rightarrow> url_loop (Suc p) cs (url_note uf p l))"

text \<open>
  \<open>strtoul(s, NULL, 10)\<close> of the C library on the bytes from \<open>s\<close> on: white space,
  a sign, decimal digits; the value saturates at \<open>ULONG_MAX\<close>. It stops at the first
  byte that is not a digit, so a digit string that runs to the end of the readable
  bytes is a read past them (\<open>None\<close>).
\<close>

definition is_space :: "char \<Rightarrow> bool" where
  "is_space c \<longleftrightarrow> c = SP \<or> (9 \<le> uc c \<and> uc c \<le> 13)"

definition digits_value :: "char list \<Rightarrow> nat" where
  "digits_value ds = foldl (\<lambda>v d. v * 10 + (uc d - uc CHR ''0'')) 0 ds"

definition strtoul10 :: "char list \<Rightarrow> nat option" where
  "strtoul10 s =
    (let s1 = dropWhile is_space s;
         neg = (s1 \<noteq> [] \<and> hd s1 = CHR ''-'');
         s2 = (if s1 \<noteq> [] \<and> (hd s1 = CHR ''-'' \<or> hd s1 = CHR ''+'') then tl s1 else s1);
         ds = takeWhile IS_NUM s2;
         v = digits_value ds
     in if length ds = length s2 then None
        else if v \<ge> 2 ^ 64 then Some (2 ^ 64 - 1)
        else Some (if neg then (2 ^ 64 - v) mod 2 ^ 64 else v))"

definition http_parser_parse_url ::
    "char list \<Rightarrow> nat \<Rightarrow> bool \<Rightarrow> http_parser_url \<Rightarrow> url_result" where
  "http_parser_parse_url buf buflen is_connect u =
    (if length buf < buflen then Url_fault
     else case url_loop 0 (take buflen buf)
        \<lparr>ul_state = (if is_connect then s_req_server_start else s_req_spaces_before_url),
         ul_old_uf = None, ul_found_at = False,
         ul_url = u\<lparr>u_port := 0, u_field_set := 0\<rparr>\<rparr> of
       Inl r \<Rightarrow> r
     | Inr l \<Rightarrow>
         let u1 = ul_url l in
         if has_field UF_SCHEMA u1 \<and> \<not> has_field UF_HOST u1 then Url_ret 1 u1
         else case (if has_field UF_HOST u1 then http_parse_host buf u1 (ul_found_at l)
                    else Url_ret 0 u1) of
           Url_abort \<Rightarrow> Url_abort
         | Url_fault \<Rightarrow> Url_fault
         | Url_ret r u2 \<Rightarrow>
             if r \<noteq> 0 then Url_ret 1 u2
             else if is_connect \<and> u_field_set u2 \<noteq> (uf_bit UF_HOST OR uf_bit UF_PORT)
             then Url_ret 1 u2
             else if has_field UF_PORT u2
             then (case strtoul10 (drop (unat (u_off u2 UF_PORT)) buf) of
                     None \<Rightarrow> Url_fault
                   | Some v \<Rightarrow> if v > 0xffff then Url_ret 1 u2
                               else Url_ret 0 (u2\<lparr>u_port := of_nat v\<rparr>))
             else Url_ret 0 u2)"

end
