(* ===== verification/HttpParser.thy ===== *)
theory HttpParser imports HttpUrl begin

text \<open>
  \<open>http_parser_execute\<close> and the functions around it (\<open>http_parser.c\<close>).
  The parser is the record of \<open>struct http_parser\<close> with its bit fields at their
  widths; \<open>void *data\<close> is a value of any type \<open>'d\<close>. A callback gets the
  parser (and the bytes of its data) and returns its result with the parser as it left
  it. The switch of the main loop is one definition per \<open>case\<close> label, over a record
  of the locals of \<open>http_parser_execute\<close>; how control leaves a case is a
  \<open>flow\<close>: \<open>break\<close>, \<open>REEXECUTE()\<close>, \<open>goto error\<close>, \<open>return\<close> or
  a failed \<open>assert\<close>.
\<close>

unbundle bit_operations_syntax

section \<open>The parser and its callbacks\<close>

record 'd http_parser =
  p_type :: http_parser_type
  p_flags :: "7 word"
  p_state :: state
  p_header_state :: header_states
  p_index :: "8 word"
  p_nread :: "32 word"
  p_content_length :: "64 word"
  p_http_major :: "16 word"
  p_http_minor :: "16 word"
  p_status_code :: "16 word"
  p_method :: http_method
  p_http_errno :: http_errno
  p_upgrade :: bool
  p_data :: 'd

type_synonym 'd http_cb = "'d http_parser \<Rightarrow> int \<times> 'd http_parser"
type_synonym 'd http_data_cb = "'d http_parser \<Rightarrow> char list \<Rightarrow> int \<times> 'd http_parser"

record 'd http_parser_settings =
  on_message_begin :: "'d http_cb option"
  on_url :: "'d http_data_cb option"
  on_status :: "'d http_data_cb option"
  on_header_field :: "'d http_data_cb option"
  on_header_value :: "'d http_data_cb option"
  on_headers_complete :: "'d http_cb option"
  on_body :: "'d http_data_cb option"
  on_message_complete :: "'d http_cb option"
  on_chunk_header :: "'d http_cb option"
  on_chunk_complete :: "'d http_cb option"

text \<open>
  The locals of \<open>http_parser_execute\<close>: \<open>cur_state\<close> is \<open>p_state\<close>,
  \<open>pos\<close> is \<open>p - data\<close> and a mark is an offset into \<open>data\<close> or NULL.
\<close>

record 'd ctx =
  parser :: "'d http_parser"
  cur_state :: state
  pos :: nat
  header_field_mark :: "nat option"
  header_value_mark :: "nat option"
  url_mark :: "nat option"
  body_mark :: "nat option"
  status_mark :: "nat option"

datatype 'd flow =
    Break "'d ctx"
  | Reexec "'d ctx" char
  | Fail "'d ctx"
  | Return nat "'d http_parser"
  | Abort

section \<open>The macros\<close>

definition upd :: "('d http_parser \<Rightarrow> 'd http_parser) \<Rightarrow> 'd ctx \<Rightarrow> 'd ctx" where
  "upd f c = c\<lparr>parser := f (parser c)\<rparr>"

definition SET_ERRNO :: "http_errno \<Rightarrow> 'd ctx \<Rightarrow> 'd ctx" where
  "SET_ERRNO e c = upd (p_http_errno_update (\<lambda>_. e)) c"

definition UPDATE_STATE :: "state \<Rightarrow> 'd ctx \<Rightarrow> 'd ctx" where
  "UPDATE_STATE s c = c\<lparr>cur_state := s\<rparr>"

definition fail :: "http_errno \<Rightarrow> 'd ctx \<Rightarrow> 'd flow" where
  "fail e c = Fail (SET_ERRNO e c)"

definition RETURN :: "nat \<Rightarrow> 'd ctx \<Rightarrow> 'd flow" where
  "RETURN v c = Return v ((parser c)\<lparr>p_state := cur_state c\<rparr>)"

definition STRICT_CHECK :: "bool \<Rightarrow> 'd ctx \<Rightarrow> 'd flow \<Rightarrow> 'd flow" where
  "STRICT_CHECK cond c k = (if cond then fail HPE_STRICT c else k)"

definition ASSERT :: "bool \<Rightarrow> 'd flow \<Rightarrow> 'd flow" where
  "ASSERT cond k = (if cond then k else Abort)"

definition CALLBACK_NOTIFY_AT ::
    "'d http_cb option \<Rightarrow> http_errno \<Rightarrow> nat \<Rightarrow> 'd ctx \<Rightarrow> ('d ctx \<Rightarrow> 'd flow) \<Rightarrow> 'd flow" where
  "CALLBACK_NOTIFY_AT cb e er c k =
    ASSERT (p_http_errno (parser c) = HPE_OK)
     (case cb of
        None \<Rightarrow> k c
      | Some f \<Rightarrow>
          let (r, p1) = f ((parser c)\<lparr>p_state := cur_state c\<rparr>);
              p2 = (if r \<noteq> 0 then p1\<lparr>p_http_errno := e\<rparr> else p1)
          in if p_http_errno p2 \<noteq> HPE_OK then Return er p2
             else k (c\<lparr>parser := p2, cur_state := p_state p2\<rparr>))"

definition CALLBACK_NOTIFY ::
    "'d http_cb option \<Rightarrow> http_errno \<Rightarrow> 'd ctx \<Rightarrow> ('d ctx \<Rightarrow> 'd flow) \<Rightarrow> 'd flow" where
  "CALLBACK_NOTIFY cb e c k = CALLBACK_NOTIFY_AT cb e (pos c + 1) c k"

definition CALLBACK_NOTIFY_NOADVANCE ::
    "'d http_cb option \<Rightarrow> http_errno \<Rightarrow> 'd ctx \<Rightarrow> ('d ctx \<Rightarrow> 'd flow) \<Rightarrow> 'd flow" where
  "CALLBACK_NOTIFY_NOADVANCE cb e c k = CALLBACK_NOTIFY_AT cb e (pos c) c k"

text \<open>\<open>end\<close> is the offset one past the bytes passed to the callback, \<open>mark + LEN\<close>.\<close>

definition CALLBACK_DATA_AT ::
    "char list \<Rightarrow> 'd http_data_cb option \<Rightarrow> http_errno \<Rightarrow> ('d ctx \<Rightarrow> nat option) \<Rightarrow>
     ('d ctx \<Rightarrow> 'd ctx) \<Rightarrow> nat \<Rightarrow> nat \<Rightarrow> 'd ctx \<Rightarrow> ('d ctx \<Rightarrow> 'd flow) \<Rightarrow> 'd flow" where
  "CALLBACK_DATA_AT data cb e mark clear till er c k =
    ASSERT (p_http_errno (parser c) = HPE_OK)
     (case mark c of
        None \<Rightarrow> k c
      | Some m \<Rightarrow>
          (case cb of
             None \<Rightarrow> k (clear c)
           | Some f \<Rightarrow>
               let (r, p1) = f ((parser c)\<lparr>p_state := cur_state c\<rparr>) (take (till - m) (drop m data));
                   p2 = (if r \<noteq> 0 then p1\<lparr>p_http_errno := e\<rparr> else p1)
               in if p_http_errno p2 \<noteq> HPE_OK then Return er p2
                  else k (clear (c\<lparr>parser := p2, cur_state := p_state p2\<rparr>))))"

text \<open>The five data callbacks; \<open>adv\<close> is 1 to consume the current byte, 0 not to.\<close>

definition cb_header_field where
  "cb_header_field st data adv c k = CALLBACK_DATA_AT data (on_header_field st) HPE_CB_header_field
     header_field_mark (header_field_mark_update (\<lambda>_. None)) (pos c) (pos c + adv) c k"

definition cb_header_value where
  "cb_header_value st data adv c k = CALLBACK_DATA_AT data (on_header_value st) HPE_CB_header_value
     header_value_mark (header_value_mark_update (\<lambda>_. None)) (pos c) (pos c + adv) c k"

definition cb_url where
  "cb_url st data adv c k = CALLBACK_DATA_AT data (on_url st) HPE_CB_url
     url_mark (url_mark_update (\<lambda>_. None)) (pos c) (pos c + adv) c k"

definition cb_status where
  "cb_status st data adv c k = CALLBACK_DATA_AT data (on_status st) HPE_CB_status
     status_mark (status_mark_update (\<lambda>_. None)) (pos c) (pos c + adv) c k"

text \<open>The body callback passes \<open>extra\<close> bytes beyond the position (0 or 1).\<close>

definition cb_body where
  "cb_body st data extra adv c k = CALLBACK_DATA_AT data (on_body st) HPE_CB_body
     body_mark (body_mark_update (\<lambda>_. None)) (pos c + extra) (pos c + adv) c k"

definition set_mark :: "nat \<Rightarrow> nat option \<Rightarrow> nat option" where
  "set_mark p m = (case m of None \<Rightarrow> Some p | Some q \<Rightarrow> Some q)"

definition COUNT_HEADER_SIZE :: "nat \<Rightarrow> 'd ctx \<Rightarrow> ('d ctx \<Rightarrow> 'd flow) \<Rightarrow> 'd flow" where
  "COUNT_HEADER_SIZE v c k =
    (let c = upd (\<lambda>p. p\<lparr>p_nread := p_nread p + of_nat v\<rparr>) c in
     if p_nread (parser c) > HTTP_MAX_HEADER_SIZE then fail HPE_HEADER_OVERFLOW c else k c)"

definition flag_set :: "7 word \<Rightarrow> 'd http_parser \<Rightarrow> bool" where
  "flag_set f p \<longleftrightarrow> p_flags p AND f \<noteq> 0"

definition add_flag :: "7 word \<Rightarrow> 'd http_parser \<Rightarrow> 'd http_parser" where
  "add_flag f p = p\<lparr>p_flags := p_flags p OR f\<rparr>"

section \<open>The end of a message\<close>

definition http_message_needs_eof :: "'d http_parser \<Rightarrow> bool" where
  "http_message_needs_eof p =
    (if p_type p = HTTP_REQUEST then False
     else if p_status_code p div 100 = 1 \<or> p_status_code p = 204 \<or> p_status_code p = 304 \<or>
             flag_set F_SKIPBODY p then False
     else if flag_set F_CHUNKED p \<or> p_content_length p \<noteq> ULLONG_MAX then False
     else True)"

definition http_should_keep_alive :: "'d http_parser \<Rightarrow> bool" where
  "http_should_keep_alive p =
    (if p_http_major p > 0 \<and> p_http_minor p > 0
     then (if flag_set F_CONNECTION_CLOSE p then False else \<not> http_message_needs_eof p)
     else (if \<not> flag_set F_CONNECTION_KEEP_ALIVE p then False
           else \<not> http_message_needs_eof p))"

definition start_state :: "'d http_parser \<Rightarrow> state" where
  "start_state p = (if p_type p = HTTP_REQUEST then s_start_req else s_start_res)"

definition NEW_MESSAGE :: "'d http_parser \<Rightarrow> state" where
  "NEW_MESSAGE p = (if http_should_keep_alive p then start_state p else s_dead)"

definition message_complete where
  "message_complete st c k =
     CALLBACK_NOTIFY (on_message_complete st) HPE_CB_message_complete c k"

section \<open>Start lines\<close>

definition reset_message :: "'d http_parser \<Rightarrow> 'd http_parser" where
  "reset_message p = p\<lparr>p_flags := 0, p_content_length := ULLONG_MAX\<rparr>"

definition do_dead :: "char \<Rightarrow> 'd ctx \<Rightarrow> 'd flow" where
  "do_dead ch c = (if ch = CR \<or> ch = LF then Break c else fail HPE_CLOSED_CONNECTION c)"

definition do_start_req_or_res :: "'d http_parser_settings \<Rightarrow> char \<Rightarrow> 'd ctx \<Rightarrow> 'd flow" where
  "do_start_req_or_res st ch c =
    (if ch = CR \<or> ch = LF then Break c
     else let c = upd reset_message c in
       if ch = CHR ''H'' then
         CALLBACK_NOTIFY (on_message_begin st) HPE_CB_message_begin
           (UPDATE_STATE s_res_or_resp_H c) Break
       else Reexec (UPDATE_STATE s_start_req (upd (p_type_update (\<lambda>_. HTTP_REQUEST)) c)) ch)"

definition do_res_or_resp_H :: "char \<Rightarrow> 'd ctx \<Rightarrow> 'd flow" where
  "do_res_or_resp_H ch c =
    (if ch = CHR ''T'' then
       Break (UPDATE_STATE s_res_HT (upd (p_type_update (\<lambda>_. HTTP_RESPONSE)) c))
     else if ch \<noteq> CHR ''E'' then fail HPE_INVALID_CONSTANT c
     else Break (UPDATE_STATE s_req_method
            (upd (\<lambda>p. p\<lparr>p_type := HTTP_REQUEST, p_method := HTTP_HEAD, p_index := 2\<rparr>) c)))"

definition do_start_res :: "'d http_parser_settings \<Rightarrow> char \<Rightarrow> 'd ctx \<Rightarrow> 'd flow" where
  "do_start_res st ch c =
    (let c = upd reset_message c;
         notify = (\<lambda>c. CALLBACK_NOTIFY (on_message_begin st) HPE_CB_message_begin c Break)
     in if ch = CHR ''H'' then notify (UPDATE_STATE s_res_H c)
        else if ch = CR \<or> ch = LF then notify c
        else fail HPE_INVALID_CONSTANT c)"

definition expect :: "char \<Rightarrow> state \<Rightarrow> char \<Rightarrow> 'd ctx \<Rightarrow> 'd flow" where
  "expect x s ch c = STRICT_CHECK (ch \<noteq> x) c (Break (UPDATE_STATE s c))"

definition digit16 :: "char \<Rightarrow> 16 word" where
  "digit16 ch = of_nat (uc ch - uc CHR ''0'')"

definition do_res_first_http_major :: "char \<Rightarrow> 'd ctx \<Rightarrow> 'd flow" where
  "do_res_first_http_major ch c =
    (if uc ch < uc CHR ''0'' \<or> uc ch > uc CHR ''9'' then fail HPE_INVALID_VERSION c
     else Break (UPDATE_STATE s_res_http_major (upd (p_http_major_update (\<lambda>_. digit16 ch)) c)))"

definition add_major :: "char \<Rightarrow> 'd ctx \<Rightarrow> 'd flow" where
  "add_major ch c =
    (let c = upd (\<lambda>p. p\<lparr>p_http_major := p_http_major p * 10 + digit16 ch\<rparr>) c in
     if p_http_major (parser c) > 999 then fail HPE_INVALID_VERSION c else Break c)"

definition add_minor :: "char \<Rightarrow> 'd ctx \<Rightarrow> 'd flow" where
  "add_minor ch c =
    (let c = upd (\<lambda>p. p\<lparr>p_http_minor := p_http_minor p * 10 + digit16 ch\<rparr>) c in
     if p_http_minor (parser c) > 999 then fail HPE_INVALID_VERSION c else Break c)"

definition do_res_http_major :: "char \<Rightarrow> 'd ctx \<Rightarrow> 'd flow" where
  "do_res_http_major ch c =
    (if ch = CHR ''.'' then Break (UPDATE_STATE s_res_first_http_minor c)
     else if \<not> IS_NUM ch then fail HPE_INVALID_VERSION c
     else add_major ch c)"

definition do_res_first_http_minor :: "char \<Rightarrow> 'd ctx \<Rightarrow> 'd flow" where
  "do_res_first_http_minor ch c =
    (if \<not> IS_NUM ch then fail HPE_INVALID_VERSION c
     else Break (UPDATE_STATE s_res_http_minor (upd (p_http_minor_update (\<lambda>_. digit16 ch)) c)))"

definition do_res_http_minor :: "char \<Rightarrow> 'd ctx \<Rightarrow> 'd flow" where
  "do_res_http_minor ch c =
    (if ch = SP then Break (UPDATE_STATE s_res_first_status_code c)
     else if \<not> IS_NUM ch then fail HPE_INVALID_VERSION c
     else add_minor ch c)"

definition do_res_first_status_code :: "char \<Rightarrow> 'd ctx \<Rightarrow> 'd flow" where
  "do_res_first_status_code ch c =
    (if \<not> IS_NUM ch then (if ch = SP then Break c else fail HPE_INVALID_STATUS c)
     else Break (UPDATE_STATE s_res_status_code
            (upd (p_status_code_update (\<lambda>_. digit16 ch)) c)))"

definition do_res_status_code :: "char \<Rightarrow> 'd ctx \<Rightarrow> 'd flow" where
  "do_res_status_code ch c =
    (if \<not> IS_NUM ch then
       (if ch = SP then Break (UPDATE_STATE s_res_status_start c)
        else if ch = CR then Break (UPDATE_STATE s_res_line_almost_done c)
        else if ch = LF then Break (UPDATE_STATE s_header_field_start c)
        else fail HPE_INVALID_STATUS c)
     else let c = upd (\<lambda>p. p\<lparr>p_status_code := p_status_code p * 10 + digit16 ch\<rparr>) c in
       if p_status_code (parser c) > 999 then fail HPE_INVALID_STATUS c else Break c)"

definition do_res_status_start :: "char \<Rightarrow> 'd ctx \<Rightarrow> 'd flow" where
  "do_res_status_start ch c =
    (if ch = CR then Break (UPDATE_STATE s_res_line_almost_done c)
     else if ch = LF then Break (UPDATE_STATE s_header_field_start c)
     else Break (upd (p_index_update (\<lambda>_. 0))
            (UPDATE_STATE s_res_status (c\<lparr>status_mark := set_mark (pos c) (status_mark c)\<rparr>))))"

definition do_res_status :: "'d http_parser_settings \<Rightarrow> char list \<Rightarrow> char \<Rightarrow> 'd ctx \<Rightarrow> 'd flow" where
  "do_res_status st data ch c =
    (if ch = CR then cb_status st data 1 (UPDATE_STATE s_res_line_almost_done c) Break
     else if ch = LF then cb_status st data 1 (UPDATE_STATE s_header_field_start c) Break
     else Break c)"

section \<open>The request line\<close>

definition first_method :: "char \<Rightarrow> http_method option" where
  "first_method ch =
    (if ch = CHR ''A'' then Some HTTP_ACL
     else if ch = CHR ''B'' then Some HTTP_BIND
     else if ch = CHR ''C'' then Some HTTP_CONNECT
     else if ch = CHR ''D'' then Some HTTP_DELETE
     else if ch = CHR ''G'' then Some HTTP_GET
     else if ch = CHR ''H'' then Some HTTP_HEAD
     else if ch = CHR ''L'' then Some HTTP_LOCK
     else if ch = CHR ''M'' then Some HTTP_MKCOL
     else if ch = CHR ''N'' then Some HTTP_NOTIFY
     else if ch = CHR ''O'' then Some HTTP_OPTIONS
     else if ch = CHR ''P'' then Some HTTP_POST
     else if ch = CHR ''R'' then Some HTTP_REPORT
     else if ch = CHR ''S'' then Some HTTP_SUBSCRIBE
     else if ch = CHR ''T'' then Some HTTP_TRACE
     else if ch = CHR ''U'' then Some HTTP_UNLOCK
     else None)"

definition do_start_req :: "'d http_parser_settings \<Rightarrow> char \<Rightarrow> 'd ctx \<Rightarrow> 'd flow" where
  "do_start_req st ch c =
    (if ch = CR \<or> ch = LF then Break c
     else let c = upd reset_message c in
       if \<not> IS_ALPHA ch then fail HPE_INVALID_METHOD c
       else case first_method ch of
         None \<Rightarrow> fail HPE_INVALID_METHOD
                   (upd (\<lambda>p. p\<lparr>p_method := HTTP_DELETE, p_index := 1\<rparr>) c)
       | Some m \<Rightarrow>
           CALLBACK_NOTIFY (on_message_begin st) HPE_CB_message_begin
             (UPDATE_STATE s_req_method (upd (\<lambda>p. p\<lparr>p_method := m, p_index := 1\<rparr>) c)) Break)"

text \<open>
  The byte the matcher holds at an index: the terminating NUL at the end of the string
  and \<open>None\<close> beyond it.
\<close>

definition c_str_at :: "string \<Rightarrow> nat \<Rightarrow> char option" where
  "c_str_at s i = (if i < length s then Some (s ! i) else if i = length s then Some NUL else None)"

text \<open>
  The method after a byte that is not the matcher's next one, from the index \<open>i\<close>:
  \<open>None\<close> is \<open>HPE_INVALID_METHOD\<close>.
\<close>

definition method_switch :: "http_method \<Rightarrow> nat \<Rightarrow> char \<Rightarrow> http_method option" where
  "method_switch m i ch =
    (if m = HTTP_CONNECT then
       (if i = 1 \<and> ch = CHR ''H'' then Some HTTP_CHECKOUT
        else if i = 2 \<and> ch = CHR ''P'' then Some HTTP_COPY
        else None)
     else if m = HTTP_MKCOL then
       (if i = 1 \<and> ch = CHR ''O'' then Some HTTP_MOVE
        else if i = 1 \<and> ch = CHR ''E'' then Some HTTP_MERGE
        else if i = 1 \<and> ch = CHR ''-'' then Some HTTP_MSEARCH
        else if i = 2 \<and> ch = CHR ''A'' then Some HTTP_MKACTIVITY
        else if i = 3 \<and> ch = CHR ''A'' then Some HTTP_MKCALENDAR
        else None)
     else if m = HTTP_SUBSCRIBE then
       (if i = 1 \<and> ch = CHR ''E'' then Some HTTP_SEARCH else None)
     else if m = HTTP_REPORT then
       (if i = 2 \<and> ch = CHR ''B'' then Some HTTP_REBIND else None)
     else if i = 1 \<and> m = HTTP_POST then
       (if ch = CHR ''R'' then Some HTTP_PROPFIND
        else if ch = CHR ''U'' then Some HTTP_PUT
        else if ch = CHR ''A'' then Some HTTP_PATCH
        else None)
     else if i = 2 then
       (if m = HTTP_PUT then (if ch = CHR ''R'' then Some HTTP_PURGE else None)
        else if m = HTTP_UNLOCK then
          (if ch = CHR ''S'' then Some HTTP_UNSUBSCRIBE
           else if ch = CHR ''B'' then Some HTTP_UNBIND
           else None)
        else None)
     else if i = 4 \<and> m = HTTP_PROPFIND \<and> ch = CHR ''P'' then Some HTTP_PROPPATCH
     else None)"

definition do_req_method :: "char \<Rightarrow> 'd ctx \<Rightarrow> 'd flow" where
  "do_req_method ch c =
    (if ch = NUL then fail HPE_INVALID_METHOD c
     else let m = p_method (parser c);
              i = unat (p_index (parser c));
              next_index = upd (\<lambda>p. p\<lparr>p_index := p_index p + 1\<rparr>)
          in case c_str_at (method_strings m) i of
               None \<Rightarrow> Abort
             | Some x \<Rightarrow>
                 if ch = SP \<and> x = NUL then Break (next_index (UPDATE_STATE s_req_spaces_before_url c))
                 else if ch = x then Break (next_index c)
                 else case method_switch m i ch of
                   None \<Rightarrow> fail HPE_INVALID_METHOD c
                 | Some m' \<Rightarrow> Break (next_index (upd (p_method_update (\<lambda>_. m')) c)))"

definition url_char :: "char \<Rightarrow> 'd ctx \<Rightarrow> 'd flow" where
  "url_char ch c =
    (let c = UPDATE_STATE (parse_url_char (cur_state c) ch) c in
     if cur_state c = s_dead then fail HPE_INVALID_URL c else Break c)"

definition do_req_spaces_before_url :: "char \<Rightarrow> 'd ctx \<Rightarrow> 'd flow" where
  "do_req_spaces_before_url ch c =
    (if ch = SP then Break c
     else let c = c\<lparr>url_mark := set_mark (pos c) (url_mark c)\<rparr> in
       url_char ch (if p_method (parser c) = HTTP_CONNECT
                    then UPDATE_STATE s_req_server_start c else c))"

definition do_req_schema :: "char \<Rightarrow> 'd ctx \<Rightarrow> 'd flow" where
  "do_req_schema ch c =
    (if ch = SP \<or> ch = CR \<or> ch = LF then fail HPE_INVALID_URL c else url_char ch c)"

definition do_req_url :: "'d http_parser_settings \<Rightarrow> char list \<Rightarrow> char \<Rightarrow> 'd ctx \<Rightarrow> 'd flow" where
  "do_req_url st data ch c =
    (if ch = SP then cb_url st data 1 (UPDATE_STATE s_req_http_start c) Break
     else if ch = CR \<or> ch = LF then
       cb_url st data 1
         (UPDATE_STATE (if ch = CR then s_req_line_almost_done else s_header_field_start)
           (upd (\<lambda>p. p\<lparr>p_http_major := 0, p_http_minor := 9\<rparr>) c)) Break
     else url_char ch c)"

definition do_req_http_start :: "char \<Rightarrow> 'd ctx \<Rightarrow> 'd flow" where
  "do_req_http_start ch c =
    (if ch = CHR ''H'' then Break (UPDATE_STATE s_req_http_H c)
     else if ch = SP then Break c
     else fail HPE_INVALID_CONSTANT c)"

definition do_req_first_http_major :: "char \<Rightarrow> 'd ctx \<Rightarrow> 'd flow" where
  "do_req_first_http_major ch c =
    (if uc ch < uc CHR ''1'' \<or> uc ch > uc CHR ''9'' then fail HPE_INVALID_VERSION c
     else Break (UPDATE_STATE s_req_http_major (upd (p_http_major_update (\<lambda>_. digit16 ch)) c)))"

definition do_req_http_major :: "char \<Rightarrow> 'd ctx \<Rightarrow> 'd flow" where
  "do_req_http_major ch c =
    (if ch = CHR ''.'' then Break (UPDATE_STATE s_req_first_http_minor c)
     else if \<not> IS_NUM ch then fail HPE_INVALID_VERSION c
     else add_major ch c)"

definition do_req_first_http_minor :: "char \<Rightarrow> 'd ctx \<Rightarrow> 'd flow" where
  "do_req_first_http_minor ch c =
    (if \<not> IS_NUM ch then fail HPE_INVALID_VERSION c
     else Break (UPDATE_STATE s_req_http_minor (upd (p_http_minor_update (\<lambda>_. digit16 ch)) c)))"

definition do_req_http_minor :: "char \<Rightarrow> 'd ctx \<Rightarrow> 'd flow" where
  "do_req_http_minor ch c =
    (if ch = CR then Break (UPDATE_STATE s_req_line_almost_done c)
     else if ch = LF then Break (UPDATE_STATE s_header_field_start c)
     else if \<not> IS_NUM ch then fail HPE_INVALID_VERSION c
     else add_minor ch c)"

definition do_req_line_almost_done :: "char \<Rightarrow> 'd ctx \<Rightarrow> 'd flow" where
  "do_req_line_almost_done ch c =
    (if ch \<noteq> LF then fail HPE_LF_EXPECTED c else Break (UPDATE_STATE s_header_field_start c))"

section \<open>Headers\<close>

definition do_header_field_start :: "char \<Rightarrow> 'd ctx \<Rightarrow> 'd flow" where
  "do_header_field_start ch c =
    (if ch = CR then Break (UPDATE_STATE s_headers_almost_done c)
     else if ch = LF then Reexec (UPDATE_STATE s_headers_almost_done c) ch
     else let t = TOKEN ch in
       if t = NUL then fail HPE_INVALID_HEADER_TOKEN c
       else let hs = (if t = CHR ''c'' then h_C
                      else if t = CHR ''p'' then h_matching_proxy_connection
                      else if t = CHR ''t'' then h_matching_transfer_encoding
                      else if t = CHR ''u'' then h_matching_upgrade
                      else h_general)
         in Break (UPDATE_STATE s_header_field
              (upd (\<lambda>p. p\<lparr>p_index := 0, p_header_state := hs\<rparr>)
                (c\<lparr>header_field_mark := set_mark (pos c) (header_field_mark c)\<rparr>))))"

text \<open>
  The matchers compare the byte with the constant at the incremented index; \<open>sizeof(X)\<close>
  counts the NUL, so \<open>sizeof(X)-1\<close> is the length of the constant.
\<close>

definition match_next ::
    "string \<Rightarrow> nat \<Rightarrow> char \<Rightarrow> header_states \<Rightarrow> header_states \<Rightarrow> header_states \<Rightarrow> header_states" where
  "match_next X i c stay miss hit =
    (if i > length X \<or> c_str_at X i \<noteq> Some c then miss
     else if i = length X - 1 then hit
     else stay)"

abbreviation (input) PROXY_CONNECTION :: string where "PROXY_CONNECTION \<equiv> ''proxy-connection''"
abbreviation (input) CONNECTION :: string where "CONNECTION \<equiv> ''connection''"
abbreviation (input) CONTENT_LENGTH :: string where "CONTENT_LENGTH \<equiv> ''content-length''"
abbreviation (input) TRANSFER_ENCODING :: string where "TRANSFER_ENCODING \<equiv> ''transfer-encoding''"
abbreviation (input) UPGRADE :: string where "UPGRADE \<equiv> ''upgrade''"
abbreviation (input) CHUNKED :: string where "CHUNKED \<equiv> ''chunked''"
abbreviation (input) KEEP_ALIVE :: string where "KEEP_ALIVE \<equiv> ''keep-alive''"
abbreviation (input) CLOSE :: string where "CLOSE \<equiv> ''close''"

definition set_hs :: "header_states \<Rightarrow> 'd http_parser \<Rightarrow> 'd http_parser" where
  "set_hs h p = p\<lparr>p_header_state := h\<rparr>"

definition inc_index :: "'d http_parser \<Rightarrow> 'd http_parser" where
  "inc_index p = p\<lparr>p_index := p_index p + 1\<rparr>"

definition match_field ::
    "string \<Rightarrow> header_states \<Rightarrow> char \<Rightarrow> 'd http_parser \<Rightarrow> 'd http_parser" where
  "match_field X hit t p =
    (let p = inc_index p in
     set_hs (match_next X (unat (p_index p)) t (p_header_state p) h_general hit) p)"

text \<open>
  One byte of a field name: \<open>ch\<close> the byte, \<open>t\<close> its lower-case token. \<open>None\<close> is
  the assertion on an unknown header state.
\<close>

definition header_field_char :: "char \<Rightarrow> char \<Rightarrow> 'd http_parser \<Rightarrow> 'd http_parser option" where
  "header_field_char ch t p =
    (case p_header_state p of
       h_general \<Rightarrow> Some p
     | h_C \<Rightarrow> Some (set_hs (if t = CHR ''o'' then h_CO else h_general) (inc_index p))
     | h_CO \<Rightarrow> Some (set_hs (if t = CHR ''n'' then h_CON else h_general) (inc_index p))
     | h_CON \<Rightarrow> Some (set_hs (if t = CHR ''n'' then h_matching_connection
                             else if t = CHR ''t'' then h_matching_content_length
                             else h_general) (inc_index p))
     | h_matching_connection \<Rightarrow> Some (match_field CONNECTION h_connection t p)
     | h_matching_proxy_connection \<Rightarrow> Some (match_field PROXY_CONNECTION h_connection t p)
     | h_matching_content_length \<Rightarrow> Some (match_field CONTENT_LENGTH h_content_length t p)
     | h_matching_transfer_encoding \<Rightarrow> Some (match_field TRANSFER_ENCODING h_transfer_encoding t p)
     | h_matching_upgrade \<Rightarrow> Some (match_field UPGRADE h_upgrade t p)
     | h_connection \<Rightarrow> Some (if ch \<noteq> SP then set_hs h_general p else p)
     | h_content_length \<Rightarrow> Some (if ch \<noteq> SP then set_hs h_general p else p)
     | h_transfer_encoding \<Rightarrow> Some (if ch \<noteq> SP then set_hs h_general p else p)
     | h_upgrade \<Rightarrow> Some (if ch \<noteq> SP then set_hs h_general p else p)
     | _ \<Rightarrow> None)"

text \<open>
  The inner loop over the field name, from the rest of the data: how many bytes it
  consumed, and the parser.
\<close>

fun header_field_loop :: "char list \<Rightarrow> 'd http_parser \<Rightarrow> (nat \<times> 'd http_parser) option" where
  "header_field_loop [] p = Some (0, p)"
| "header_field_loop (ch # cs) p =
    (let t = TOKEN ch in
     if t = NUL then Some (0, p)
     else case header_field_char ch t p of
       None \<Rightarrow> None
     | Some p' \<Rightarrow> map_option (\<lambda>(n, q). (Suc n, q)) (header_field_loop cs p'))"

definition do_header_field :: "'d http_parser_settings \<Rightarrow> char list \<Rightarrow> 'd ctx \<Rightarrow> 'd flow" where
  "do_header_field st data c =
    (case header_field_loop (drop (pos c) data) (parser c) of
       None \<Rightarrow> Abort
     | Some (n, p') \<Rightarrow>
         COUNT_HEADER_SIZE n (c\<lparr>parser := p', pos := pos c + n\<rparr>) (\<lambda>c.
           if pos c = length data then Break (c\<lparr>pos := pos c - 1\<rparr>)
           else if data ! pos c = CHR '':'' then
             cb_header_field st data 1 (UPDATE_STATE s_header_value_discard_ws c) Break
           else fail HPE_INVALID_HEADER_TOKEN c))"

definition do_header_value_start :: "char \<Rightarrow> 'd ctx \<Rightarrow> 'd flow" where
  "do_header_value_start ch c =
    (let c = upd (p_index_update (\<lambda>_. 0)) (UPDATE_STATE s_header_value
               (c\<lparr>header_value_mark := set_mark (pos c) (header_value_mark c)\<rparr>));
         l = LOWER ch
     in case p_header_state (parser c) of
          h_upgrade \<Rightarrow> Break (upd (set_hs h_general) (upd (add_flag F_UPGRADE) c))
        | h_transfer_encoding \<Rightarrow>
            Break (upd (set_hs (if l = CHR ''c'' then h_matching_transfer_encoding_chunked
                                else h_general)) c)
        | h_content_length \<Rightarrow>
            if \<not> IS_NUM ch then fail HPE_INVALID_CONTENT_LENGTH c
            else Break (upd (\<lambda>p. p\<lparr>p_content_length := of_nat (uc ch - uc CHR ''0'')\<rparr>) c)
        | h_connection \<Rightarrow>
            Break (upd (set_hs (if l = CHR ''k'' then h_matching_connection_keep_alive
                                else if l = CHR ''c'' then h_matching_connection_close
                                else if l = CHR ''u'' then h_matching_connection_upgrade
                                else h_matching_connection_token)) c)
        | h_matching_connection_token_start \<Rightarrow> Break c
        | _ \<Rightarrow> Break (upd (set_hs h_general) c))"

definition do_header_value_discard_ws :: "char \<Rightarrow> 'd ctx \<Rightarrow> 'd flow" where
  "do_header_value_discard_ws ch c =
    (if ch = SP \<or> ch = HT then Break c
     else if ch = CR then Break (UPDATE_STATE s_header_value_discard_ws_almost_done c)
     else if ch = LF then Break (UPDATE_STATE s_header_value_discard_lws c)
     else do_header_value_start ch c)"

definition memchr :: "char \<Rightarrow> char list \<Rightarrow> nat option" where
  "memchr x s = (let n = length (takeWhile (\<lambda>y. y \<noteq> x) s) in if n < length s then Some n else None)"

text \<open>
  How far the search of \<open>h_general\<close> moves on: to the next CR or LF among the next
  \<open>HTTP_MAX_HEADER_SIZE\<close> bytes, else to the end of the data.
\<close>

definition skip_general :: "char list \<Rightarrow> nat" where
  "skip_general cs =
    (let limit = min (length cs) (unat HTTP_MAX_HEADER_SIZE);
         p_cr = memchr CR (take limit cs);
         p_lf = memchr LF (take limit cs)
     in case p_cr of
          Some i \<Rightarrow> (case p_lf of Some j \<Rightarrow> if i \<ge> j then j else i | None \<Rightarrow> i)
        | None \<Rightarrow> (case p_lf of Some j \<Rightarrow> j | None \<Rightarrow> length cs))"

definition connection_flag :: "header_states \<Rightarrow> 'd http_parser \<Rightarrow> 'd http_parser" where
  "connection_flag h p =
    (if h = h_connection_keep_alive then add_flag F_CONNECTION_KEEP_ALIVE p
     else if h = h_connection_close then add_flag F_CONNECTION_CLOSE p
     else if h = h_connection_upgrade then add_flag F_CONNECTION_UPGRADE p
     else p)"

definition digit64 :: "char \<Rightarrow> 64 word" where
  "digit64 ch = of_nat (uc ch - uc CHR ''0'')"

text \<open>
  One byte of a header value other than CR and LF, in any state but \<open>h_general\<close>.
  \<open>Hv_bad\<close> is an invalid Content-Length, \<open>Hv_abort\<close> the assertion.
\<close>

datatype 'd hv_char = Hv_go header_states "'d http_parser" | Hv_bad | Hv_abort

definition match_value ::
    "string \<Rightarrow> header_states \<Rightarrow> header_states \<Rightarrow> header_states \<Rightarrow> char \<Rightarrow> 'd http_parser \<Rightarrow> 'd hv_char" where
  "match_value X stay miss hit l p =
    (let p = inc_index p in Hv_go (match_next X (unat (p_index p)) l stay miss hit) p)"

definition header_value_char :: "header_states \<Rightarrow> char \<Rightarrow> 'd http_parser \<Rightarrow> 'd hv_char" where
  "header_value_char h ch p =
    (let l = LOWER ch in
     case h of
       h_connection \<Rightarrow> Hv_abort
     | h_transfer_encoding \<Rightarrow> Hv_abort
     | h_content_length \<Rightarrow>
         if ch = SP then Hv_go h p
         else if \<not> IS_NUM ch then Hv_bad
         else let t = p_content_length p * 10 + digit64 ch in
           if (ULLONG_MAX - 10) div 10 < p_content_length p then Hv_bad
           else Hv_go h (p\<lparr>p_content_length := t\<rparr>)
     | h_matching_transfer_encoding_chunked \<Rightarrow>
         match_value CHUNKED h h_general h_transfer_encoding_chunked l p
     | h_matching_connection_token_start \<Rightarrow>
         Hv_go (if l = CHR ''k'' then h_matching_connection_keep_alive
                else if l = CHR ''c'' then h_matching_connection_close
                else if l = CHR ''u'' then h_matching_connection_upgrade
                else if tokens l \<noteq> NUL then h_matching_connection_token
                else if l = SP \<or> l = HT then h
                else h_general) p
     | h_matching_connection_keep_alive \<Rightarrow>
         match_value KEEP_ALIVE h h_matching_connection_token h_connection_keep_alive l p
     | h_matching_connection_close \<Rightarrow>
         match_value CLOSE h h_matching_connection_token h_connection_close l p
     | h_matching_connection_upgrade \<Rightarrow>
         match_value UPGRADE h h_matching_connection_token h_connection_upgrade l p
     | h_matching_connection_token \<Rightarrow>
         if ch = CHR '','' then Hv_go h_matching_connection_token_start (p\<lparr>p_index := 0\<rparr>)
         else Hv_go h p
     | h_transfer_encoding_chunked \<Rightarrow> Hv_go (if ch \<noteq> SP then h_general else h) p
     | h_connection_keep_alive \<Rightarrow>
         if ch = CHR '','' then
           Hv_go h_matching_connection_token_start ((connection_flag h p)\<lparr>p_index := 0\<rparr>)
         else Hv_go (if ch \<noteq> SP then h_matching_connection_token else h) p
     | h_connection_close \<Rightarrow>
         if ch = CHR '','' then
           Hv_go h_matching_connection_token_start ((connection_flag h p)\<lparr>p_index := 0\<rparr>)
         else Hv_go (if ch \<noteq> SP then h_matching_connection_token else h) p
     | h_connection_upgrade \<Rightarrow>
         if ch = CHR '','' then
           Hv_go h_matching_connection_token_start ((connection_flag h p)\<lparr>p_index := 0\<rparr>)
         else Hv_go (if ch \<noteq> SP then h_matching_connection_token else h) p
     | _ \<Rightarrow> Hv_go h_general p)"

text \<open>How the loop over a header value ends, \<open>n\<close> bytes from its start.\<close>

datatype 'd hv_end =
    Hv_cr nat header_states "'d http_parser"
  | Hv_lf nat header_states "'d http_parser"
  | Hv_more nat header_states "'d http_parser"
  | Hv_error nat header_states "'d http_parser"
  | Hv_assert

function header_value_loop ::
    "nat \<Rightarrow> char list \<Rightarrow> header_states \<Rightarrow> 'd http_parser \<Rightarrow> 'd hv_end" where
  "header_value_loop n [] h p = Hv_more n h p"
| "header_value_loop n (ch # cs) h p =
    (if ch = CR then Hv_cr n h p
     else if ch = LF then Hv_lf n h p
     else if h = h_general then
       let k = max 1 (skip_general (ch # cs))
       in header_value_loop (n + k) (drop k (ch # cs)) h p
     else case header_value_char h ch p of
       Hv_go h' p' \<Rightarrow> header_value_loop (Suc n) cs h' p'
     | Hv_bad \<Rightarrow> Hv_error n h p
     | Hv_abort \<Rightarrow> Hv_assert)"
  by pat_completeness auto
termination
  by (relation "measure (\<lambda>(n, cs, h, p). length cs)") auto

definition do_header_value :: "'d http_parser_settings \<Rightarrow> char list \<Rightarrow> char \<Rightarrow> 'd ctx \<Rightarrow> 'd flow" where
  "do_header_value st data ch c =
    (case header_value_loop 0 (drop (pos c) data) (p_header_state (parser c)) (parser c) of
       Hv_assert \<Rightarrow> Abort
     | Hv_error n h p \<Rightarrow>
         fail HPE_INVALID_CONTENT_LENGTH (c\<lparr>parser := set_hs h p, pos := pos c + n\<rparr>)
     | Hv_cr n h p \<Rightarrow>
         cb_header_value st data 1
           (UPDATE_STATE s_header_almost_done (c\<lparr>parser := set_hs h p, pos := pos c + n\<rparr>))
           (\<lambda>c. COUNT_HEADER_SIZE n (upd (set_hs h) c) Break)
     | Hv_lf n h p \<Rightarrow>
         COUNT_HEADER_SIZE n
           (UPDATE_STATE s_header_almost_done (c\<lparr>parser := p, pos := pos c + n\<rparr>))
           (\<lambda>c. cb_header_value st data 0 (upd (set_hs h) c) (\<lambda>c. Reexec c LF))
     | Hv_more n h p \<Rightarrow>
         COUNT_HEADER_SIZE n (c\<lparr>parser := set_hs h p, pos := pos c + n\<rparr>)
           (\<lambda>c. Break (c\<lparr>pos := pos c - 1\<rparr>)))"

definition do_header_almost_done :: "char \<Rightarrow> 'd ctx \<Rightarrow> 'd flow" where
  "do_header_almost_done ch c = STRICT_CHECK (ch \<noteq> LF) c (Break (UPDATE_STATE s_header_value_lws c))"

definition finish_header :: "'d http_parser \<Rightarrow> 'd http_parser" where
  "finish_header p =
    (if p_header_state p = h_transfer_encoding_chunked then add_flag F_CHUNKED p
     else connection_flag (p_header_state p) p)"

definition do_header_value_lws :: "char \<Rightarrow> 'd ctx \<Rightarrow> 'd flow" where
  "do_header_value_lws ch c =
    (if ch = SP \<or> ch = HT then Reexec (UPDATE_STATE s_header_value_start c) ch
     else Reexec (UPDATE_STATE s_header_field_start (upd finish_header c)) ch)"

definition do_header_value_discard_lws :: "'d http_parser_settings \<Rightarrow> char list \<Rightarrow> char \<Rightarrow> 'd ctx \<Rightarrow> 'd flow" where
  "do_header_value_discard_lws st data ch c =
    (if ch = SP \<or> ch = HT then Break (UPDATE_STATE s_header_value_discard_ws c)
     else let c = upd finish_header c;
              c = c\<lparr>header_value_mark := set_mark (pos c) (header_value_mark c)\<rparr>
          in cb_header_value st data 0 (UPDATE_STATE s_header_field_start c) (\<lambda>c. Reexec c ch))"

definition do_headers_almost_done :: "'d http_parser_settings \<Rightarrow> char \<Rightarrow> 'd ctx \<Rightarrow> 'd flow" where
  "do_headers_almost_done st ch c =
    STRICT_CHECK (ch \<noteq> LF) c
     (if flag_set F_TRAILING (parser c) then
        CALLBACK_NOTIFY_NOADVANCE (on_chunk_complete st) HPE_CB_chunk_complete
          (UPDATE_STATE s_message_done c) (\<lambda>c. Reexec c ch)
      else
        let c = upd (\<lambda>p. p\<lparr>p_upgrade :=
                  (p_flags p AND (F_UPGRADE OR F_CONNECTION_UPGRADE) = (F_UPGRADE OR F_CONNECTION_UPGRADE)
                   \<or> p_method p = HTTP_CONNECT)\<rparr>) (UPDATE_STATE s_headers_done c);
            go = (\<lambda>c. if p_http_errno (parser c) \<noteq> HPE_OK then RETURN (pos c) c else Reexec c ch)
        in case on_headers_complete st of
             None \<Rightarrow> go c
           | Some f \<Rightarrow>
               let (r, p) = f (parser c); c = c\<lparr>parser := p\<rparr> in
               if r = 0 then go c
               else if r = 1 then go (upd (add_flag F_SKIPBODY) c)
               else RETURN (pos c) (SET_ERRNO HPE_CB_headers_complete c))"

definition has_body :: "'d http_parser \<Rightarrow> bool" where
  "has_body p \<longleftrightarrow> flag_set F_CHUNKED p \<or>
     (p_content_length p > 0 \<and> p_content_length p \<noteq> ULLONG_MAX)"

definition new_message :: "'d ctx \<Rightarrow> 'd ctx" where
  "new_message c = UPDATE_STATE (NEW_MESSAGE (parser c)) c"

definition do_headers_done :: "'d http_parser_settings \<Rightarrow> char \<Rightarrow> 'd ctx \<Rightarrow> 'd flow" where
  "do_headers_done st ch c =
    STRICT_CHECK (ch \<noteq> LF) c
     (let c = upd (p_nread_update (\<lambda>_. 0)) c; p = parser c in
      if p_upgrade p \<and> (p_method p = HTTP_CONNECT \<or> flag_set F_SKIPBODY p \<or> \<not> has_body p)
      then message_complete st (new_message c) (\<lambda>c. RETURN (pos c + 1) c)
      else if flag_set F_SKIPBODY p then message_complete st (new_message c) Break
      else if flag_set F_CHUNKED p then Break (UPDATE_STATE s_chunk_size_start c)
      else if p_content_length p = 0 then message_complete st (new_message c) Break
      else if p_content_length p \<noteq> ULLONG_MAX then Break (UPDATE_STATE s_body_identity c)
      else if \<not> http_message_needs_eof p then message_complete st (new_message c) Break
      else Break (UPDATE_STATE s_body_identity_eof c))"

section \<open>Bodies\<close>

text \<open>
  \<open>to_read\<close> is the smaller of the content length and the bytes left; the position moves
  to the last of them.
\<close>

definition read_body :: "char list \<Rightarrow> 'd ctx \<Rightarrow> 'd ctx" where
  "read_body data c =
    (let left = length data - pos c;
         to_read = min (unat (p_content_length (parser c))) left
     in (upd (\<lambda>p. p\<lparr>p_content_length := p_content_length p - of_nat to_read\<rparr>) c)
          \<lparr>body_mark := set_mark (pos c) (body_mark c), pos := pos c + to_read - 1\<rparr>)"

definition do_body_identity :: "'d http_parser_settings \<Rightarrow> char list \<Rightarrow> char \<Rightarrow> 'd ctx \<Rightarrow> 'd flow" where
  "do_body_identity st data ch c =
    ASSERT (p_content_length (parser c) \<noteq> 0 \<and> p_content_length (parser c) \<noteq> ULLONG_MAX)
     (let c = read_body data c in
      if p_content_length (parser c) = 0 then
        cb_body st data 1 0 (UPDATE_STATE s_message_done c) (\<lambda>c. Reexec c ch)
      else Break c)"

definition do_body_identity_eof :: "char list \<Rightarrow> 'd ctx \<Rightarrow> 'd flow" where
  "do_body_identity_eof data c =
    Break (c\<lparr>body_mark := set_mark (pos c) (body_mark c), pos := length data - 1\<rparr>)"

definition do_message_done :: "'d http_parser_settings \<Rightarrow> 'd ctx \<Rightarrow> 'd flow" where
  "do_message_done st c =
    message_complete st (new_message c)
      (\<lambda>c. if p_upgrade (parser c) then RETURN (pos c + 1) c else Break c)"

definition do_chunk_size_start :: "char \<Rightarrow> 'd ctx \<Rightarrow> 'd flow" where
  "do_chunk_size_start ch c =
    ASSERT (p_nread (parser c) = 1) (ASSERT (flag_set F_CHUNKED (parser c))
     (if unhex ch = -1 then fail HPE_INVALID_CHUNK_SIZE c
      else Break (UPDATE_STATE s_chunk_size
             (upd (p_content_length_update (\<lambda>_. of_int (unhex ch))) c))))"

definition do_chunk_size :: "char \<Rightarrow> 'd ctx \<Rightarrow> 'd flow" where
  "do_chunk_size ch c =
    ASSERT (flag_set F_CHUNKED (parser c))
     (if ch = CR then Break (UPDATE_STATE s_chunk_size_almost_done c)
      else if unhex ch = -1 then
        (if ch = CHR '';'' \<or> ch = SP then Break (UPDATE_STATE s_chunk_parameters c)
         else fail HPE_INVALID_CHUNK_SIZE c)
      else let t = p_content_length (parser c) * 16 + of_int (unhex ch) in
        if (ULLONG_MAX - 16) div 16 < p_content_length (parser c)
        then fail HPE_INVALID_CONTENT_LENGTH c
        else Break (upd (p_content_length_update (\<lambda>_. t)) c))"

definition do_chunk_parameters :: "char \<Rightarrow> 'd ctx \<Rightarrow> 'd flow" where
  "do_chunk_parameters ch c =
    ASSERT (flag_set F_CHUNKED (parser c))
     (if ch = CR then Break (UPDATE_STATE s_chunk_size_almost_done c) else Break c)"

definition do_chunk_size_almost_done :: "'d http_parser_settings \<Rightarrow> char \<Rightarrow> 'd ctx \<Rightarrow> 'd flow" where
  "do_chunk_size_almost_done st ch c =
    ASSERT (flag_set F_CHUNKED (parser c)) (STRICT_CHECK (ch \<noteq> LF) c
     (let c = upd (p_nread_update (\<lambda>_. 0)) c;
          c = (if p_content_length (parser c) = 0
               then UPDATE_STATE s_header_field_start (upd (add_flag F_TRAILING) c)
               else UPDATE_STATE s_chunk_data c)
      in CALLBACK_NOTIFY (on_chunk_header st) HPE_CB_chunk_header c Break))"

definition do_chunk_data :: "char list \<Rightarrow> 'd ctx \<Rightarrow> 'd flow" where
  "do_chunk_data data c =
    ASSERT (flag_set F_CHUNKED (parser c))
     (ASSERT (p_content_length (parser c) \<noteq> 0 \<and> p_content_length (parser c) \<noteq> ULLONG_MAX)
       (let c = read_body data c in
        if p_content_length (parser c) = 0 then Break (UPDATE_STATE s_chunk_data_almost_done c)
        else Break c))"

definition do_chunk_data_almost_done :: "'d http_parser_settings \<Rightarrow> char list \<Rightarrow> char \<Rightarrow> 'd ctx \<Rightarrow> 'd flow" where
  "do_chunk_data_almost_done st data ch c =
    ASSERT (flag_set F_CHUNKED (parser c)) (ASSERT (p_content_length (parser c) = 0)
     (STRICT_CHECK (ch \<noteq> CR) c
       (cb_body st data 0 1 (UPDATE_STATE s_chunk_data_done c) Break)))"

definition do_chunk_data_done :: "'d http_parser_settings \<Rightarrow> char \<Rightarrow> 'd ctx \<Rightarrow> 'd flow" where
  "do_chunk_data_done st ch c =
    ASSERT (flag_set F_CHUNKED (parser c)) (STRICT_CHECK (ch \<noteq> LF) c
     (CALLBACK_NOTIFY (on_chunk_complete st) HPE_CB_chunk_complete
       (UPDATE_STATE s_chunk_size_start (upd (p_nread_update (\<lambda>_. 0)) c)) Break))"

section \<open>The switch and the loop\<close>

definition exec_switch :: "'d http_parser_settings \<Rightarrow> char list \<Rightarrow> char \<Rightarrow> 'd ctx \<Rightarrow> 'd flow" where
  "exec_switch st data ch c =
    (case cur_state c of
       s_dead \<Rightarrow> do_dead ch c
     | s_start_req_or_res \<Rightarrow> do_start_req_or_res st ch c
     | s_res_or_resp_H \<Rightarrow> do_res_or_resp_H ch c
     | s_start_res \<Rightarrow> do_start_res st ch c
     | s_res_H \<Rightarrow> expect CHR ''T'' s_res_HT ch c
     | s_res_HT \<Rightarrow> expect CHR ''T'' s_res_HTT ch c
     | s_res_HTT \<Rightarrow> expect CHR ''P'' s_res_HTTP ch c
     | s_res_HTTP \<Rightarrow> expect CHR ''/'' s_res_first_http_major ch c
     | s_res_first_http_major \<Rightarrow> do_res_first_http_major ch c
     | s_res_http_major \<Rightarrow> do_res_http_major ch c
     | s_res_first_http_minor \<Rightarrow> do_res_first_http_minor ch c
     | s_res_http_minor \<Rightarrow> do_res_http_minor ch c
     | s_res_first_status_code \<Rightarrow> do_res_first_status_code ch c
     | s_res_status_code \<Rightarrow> do_res_status_code ch c
     | s_res_status_start \<Rightarrow> do_res_status_start ch c
     | s_res_status \<Rightarrow> do_res_status st data ch c
     | s_res_line_almost_done \<Rightarrow> expect LF s_header_field_start ch c
     | s_start_req \<Rightarrow> do_start_req st ch c
     | s_req_method \<Rightarrow> do_req_method ch c
     | s_req_spaces_before_url \<Rightarrow> do_req_spaces_before_url ch c
     | s_req_schema \<Rightarrow> do_req_schema ch c
     | s_req_schema_slash \<Rightarrow> do_req_schema ch c
     | s_req_schema_slash_slash \<Rightarrow> do_req_schema ch c
     | s_req_server_start \<Rightarrow> do_req_schema ch c
     | s_req_server \<Rightarrow> do_req_url st data ch c
     | s_req_server_with_at \<Rightarrow> do_req_url st data ch c
     | s_req_path \<Rightarrow> do_req_url st data ch c
     | s_req_query_string_start \<Rightarrow> do_req_url st data ch c
     | s_req_query_string \<Rightarrow> do_req_url st data ch c
     | s_req_fragment_start \<Rightarrow> do_req_url st data ch c
     | s_req_fragment \<Rightarrow> do_req_url st data ch c
     | s_req_http_start \<Rightarrow> do_req_http_start ch c
     | s_req_http_H \<Rightarrow> expect CHR ''T'' s_req_http_HT ch c
     | s_req_http_HT \<Rightarrow> expect CHR ''T'' s_req_http_HTT ch c
     | s_req_http_HTT \<Rightarrow> expect CHR ''P'' s_req_http_HTTP ch c
     | s_req_http_HTTP \<Rightarrow> expect CHR ''/'' s_req_first_http_major ch c
     | s_req_first_http_major \<Rightarrow> do_req_first_http_major ch c
     | s_req_http_major \<Rightarrow> do_req_http_major ch c
     | s_req_first_http_minor \<Rightarrow> do_req_first_http_minor ch c
     | s_req_http_minor \<Rightarrow> do_req_http_minor ch c
     | s_req_line_almost_done \<Rightarrow> do_req_line_almost_done ch c
     | s_header_field_start \<Rightarrow> do_header_field_start ch c
     | s_header_field \<Rightarrow> do_header_field st data c
     | s_header_value_discard_ws \<Rightarrow> do_header_value_discard_ws ch c
     | s_header_value_discard_ws_almost_done \<Rightarrow> expect LF s_header_value_discard_lws ch c
     | s_header_value_discard_lws \<Rightarrow> do_header_value_discard_lws st data ch c
     | s_header_value_start \<Rightarrow> do_header_value_start ch c
     | s_header_value \<Rightarrow> do_header_value st data ch c
     | s_header_value_lws \<Rightarrow> do_header_value_lws ch c
     | s_header_almost_done \<Rightarrow> do_header_almost_done ch c
     | s_chunk_size_start \<Rightarrow> do_chunk_size_start ch c
     | s_chunk_size \<Rightarrow> do_chunk_size ch c
     | s_chunk_parameters \<Rightarrow> do_chunk_parameters ch c
     | s_chunk_size_almost_done \<Rightarrow> do_chunk_size_almost_done st ch c
     | s_headers_almost_done \<Rightarrow> do_headers_almost_done st ch c
     | s_headers_done \<Rightarrow> do_headers_done st ch c
     | s_chunk_data \<Rightarrow> do_chunk_data data c
     | s_chunk_data_almost_done \<Rightarrow> do_chunk_data_almost_done st data ch c
     | s_chunk_data_done \<Rightarrow> do_chunk_data_done st ch c
     | s_body_identity \<Rightarrow> do_body_identity st data ch c
     | s_body_identity_eof \<Rightarrow> do_body_identity_eof data c
     | s_message_done \<Rightarrow> do_message_done st c)"

text \<open>
  \<open>goto reexecute\<close>: a callback that keeps rewriting the state can make it go round for
  ever, so the result is an option, \<open>None\<close> for a run that does not end.
\<close>

partial_function (option) run_switch ::
    "'d http_parser_settings \<Rightarrow> char list \<Rightarrow> char \<Rightarrow> 'd ctx \<Rightarrow> 'd flow option" where
  "run_switch st data ch c =
    (case exec_switch st data ch c of
       Reexec c' ch' \<Rightarrow> run_switch st data ch' c'
     | Break c' \<Rightarrow> Some (Break c')
     | Fail c' \<Rightarrow> Some (Fail c')
     | Return v p \<Rightarrow> Some (Return v p)
     | Abort \<Rightarrow> Some Abort)"

definition loop_body :: "'d http_parser_settings \<Rightarrow> char list \<Rightarrow> 'd ctx \<Rightarrow> 'd flow option" where
  "loop_body st data c =
    (if PARSING_HEADER (cur_state c) then
       (case COUNT_HEADER_SIZE 1 c Break of
          Break c' \<Rightarrow> run_switch st data (data ! pos c) c'
        | f \<Rightarrow> Some f)
     else run_switch st data (data ! pos c) c)"

definition error_exit :: "'d ctx \<Rightarrow> 'd flow" where
  "error_exit c =
    RETURN (pos c) (if p_http_errno (parser c) = HPE_OK then SET_ERRNO HPE_UNKNOWN c else c)"

definition marks :: "'d ctx \<Rightarrow> nat" where
  "marks c = of_bool (header_field_mark c \<noteq> None) + of_bool (header_value_mark c \<noteq> None) +
     of_bool (url_mark c \<noteq> None) + of_bool (body_mark c \<noteq> None) + of_bool (status_mark c \<noteq> None)"

definition leftover_callbacks :: "'d http_parser_settings \<Rightarrow> char list \<Rightarrow> 'd ctx \<Rightarrow> 'd flow" where
  "leftover_callbacks st data c =
    ASSERT (marks c \<le> 1)
     (cb_header_field st data 0 c (\<lambda>c. cb_header_value st data 0 c (\<lambda>c. cb_url st data 0 c
       (\<lambda>c. cb_body st data 0 0 c (\<lambda>c. cb_status st data 0 c
         (\<lambda>c. RETURN (length data) c))))))"

text \<open>The \<open>for\<close> loop, from the locals at its head.\<close>

partial_function (option) exec_loop ::
    "'d http_parser_settings \<Rightarrow> char list \<Rightarrow> 'd ctx \<Rightarrow> 'd flow option" where
  "exec_loop st data c =
    (if pos c = length data then Some (leftover_callbacks st data c)
     else case loop_body st data c of
       None \<Rightarrow> None
     | Some f \<Rightarrow>
         (case f of
            Break c' \<Rightarrow> exec_loop st data (c'\<lparr>pos := pos c' + 1\<rparr>)
          | Fail c' \<Rightarrow> Some (error_exit c')
          | Return v p \<Rightarrow> Some (Return v p)
          | Reexec c' ch \<Rightarrow> Some Abort
          | Abort \<Rightarrow> Some Abort))"

declare run_switch.simps [code] exec_loop.simps [code]

definition url_states :: "state set" where
  "url_states = {s_req_path, s_req_schema, s_req_schema_slash, s_req_schema_slash_slash,
     s_req_server_start, s_req_server, s_req_server_with_at, s_req_query_string_start,
     s_req_query_string, s_req_fragment_start, s_req_fragment}"

definition init_ctx :: "'d http_parser \<Rightarrow> 'd ctx" where
  "init_ctx p =
    \<lparr>parser = p, cur_state = p_state p, pos = 0,
     header_field_mark = (if p_state p = s_header_field then Some 0 else None),
     header_value_mark = (if p_state p = s_header_value then Some 0 else None),
     url_mark = (if p_state p \<in> url_states then Some 0 else None),
     body_mark = None,
     status_mark = (if p_state p = s_res_status then Some 0 else None)\<rparr>"

definition execute_eof :: "'d http_parser_settings \<Rightarrow> 'd http_parser \<Rightarrow> 'd flow" where
  "execute_eof st p =
    (if p_state p = s_body_identity_eof then
       CALLBACK_NOTIFY_NOADVANCE (on_message_complete st) HPE_CB_message_complete (init_ctx p)
         (\<lambda>c. Return 0 (parser c))
     else if p_state p \<in> {s_dead, s_start_req_or_res, s_start_res, s_start_req} then Return 0 p
     else Return 1 (p\<lparr>p_http_errno := HPE_INVALID_EOF_STATE\<rparr>))"

text \<open>
  The result is \<open>Return n p\<close> (the bytes parsed, the parser afterwards), \<open>Abort\<close> for a
  failed assertion, and \<open>None\<close> if the call does not return.
\<close>

definition http_parser_execute ::
    "'d http_parser \<Rightarrow> 'd http_parser_settings \<Rightarrow> char list \<Rightarrow> 'd flow option" where
  "http_parser_execute p st data =
    (if p_http_errno p \<noteq> HPE_OK then Some (Return 0 p)
     else if data = [] then Some (execute_eof st p)
     else exec_loop st data (init_ctx p))"

section \<open>The rest of the interface\<close>

definition http_method_str :: "http_method \<Rightarrow> string" where
  "http_method_str m = method_strings m"

text \<open>\<open>http_strerror_tab\<close>, generated by the macro from the list of errors.\<close>

primrec http_errno_name :: "http_errno \<Rightarrow> string" where
  "http_errno_name HPE_OK = ''HPE_OK''"
| "http_errno_name HPE_CB_message_begin = ''HPE_CB_message_begin''"
| "http_errno_name HPE_CB_url = ''HPE_CB_url''"
| "http_errno_name HPE_CB_header_field = ''HPE_CB_header_field''"
| "http_errno_name HPE_CB_header_value = ''HPE_CB_header_value''"
| "http_errno_name HPE_CB_headers_complete = ''HPE_CB_headers_complete''"
| "http_errno_name HPE_CB_body = ''HPE_CB_body''"
| "http_errno_name HPE_CB_message_complete = ''HPE_CB_message_complete''"
| "http_errno_name HPE_CB_status = ''HPE_CB_status''"
| "http_errno_name HPE_CB_chunk_header = ''HPE_CB_chunk_header''"
| "http_errno_name HPE_CB_chunk_complete = ''HPE_CB_chunk_complete''"
| "http_errno_name HPE_INVALID_EOF_STATE = ''HPE_INVALID_EOF_STATE''"
| "http_errno_name HPE_HEADER_OVERFLOW = ''HPE_HEADER_OVERFLOW''"
| "http_errno_name HPE_CLOSED_CONNECTION = ''HPE_CLOSED_CONNECTION''"
| "http_errno_name HPE_INVALID_VERSION = ''HPE_INVALID_VERSION''"
| "http_errno_name HPE_INVALID_STATUS = ''HPE_INVALID_STATUS''"
| "http_errno_name HPE_INVALID_METHOD = ''HPE_INVALID_METHOD''"
| "http_errno_name HPE_INVALID_URL = ''HPE_INVALID_URL''"
| "http_errno_name HPE_INVALID_HOST = ''HPE_INVALID_HOST''"
| "http_errno_name HPE_INVALID_PORT = ''HPE_INVALID_PORT''"
| "http_errno_name HPE_INVALID_PATH = ''HPE_INVALID_PATH''"
| "http_errno_name HPE_INVALID_QUERY_STRING = ''HPE_INVALID_QUERY_STRING''"
| "http_errno_name HPE_INVALID_FRAGMENT = ''HPE_INVALID_FRAGMENT''"
| "http_errno_name HPE_LF_EXPECTED = ''HPE_LF_EXPECTED''"
| "http_errno_name HPE_INVALID_HEADER_TOKEN = ''HPE_INVALID_HEADER_TOKEN''"
| "http_errno_name HPE_INVALID_CONTENT_LENGTH = ''HPE_INVALID_CONTENT_LENGTH''"
| "http_errno_name HPE_INVALID_CHUNK_SIZE = ''HPE_INVALID_CHUNK_SIZE''"
| "http_errno_name HPE_INVALID_CONSTANT = ''HPE_INVALID_CONSTANT''"
| "http_errno_name HPE_INVALID_INTERNAL_STATE = ''HPE_INVALID_INTERNAL_STATE''"
| "http_errno_name HPE_STRICT = ''HPE_STRICT''"
| "http_errno_name HPE_PAUSED = ''HPE_PAUSED''"
| "http_errno_name HPE_UNKNOWN = ''HPE_UNKNOWN''"

primrec http_errno_description :: "http_errno \<Rightarrow> string" where
  "http_errno_description HPE_OK = ''success''"
| "http_errno_description HPE_CB_message_begin = ''the on_message_begin callback failed''"
| "http_errno_description HPE_CB_url = ''the on_url callback failed''"
| "http_errno_description HPE_CB_header_field = ''the on_header_field callback failed''"
| "http_errno_description HPE_CB_header_value = ''the on_header_value callback failed''"
| "http_errno_description HPE_CB_headers_complete = ''the on_headers_complete callback failed''"
| "http_errno_description HPE_CB_body = ''the on_body callback failed''"
| "http_errno_description HPE_CB_message_complete = ''the on_message_complete callback failed''"
| "http_errno_description HPE_CB_status = ''the on_status callback failed''"
| "http_errno_description HPE_CB_chunk_header = ''the on_chunk_header callback failed''"
| "http_errno_description HPE_CB_chunk_complete = ''the on_chunk_complete callback failed''"
| "http_errno_description HPE_INVALID_EOF_STATE = ''stream ended at an unexpected time''"
| "http_errno_description HPE_HEADER_OVERFLOW = ''too many header bytes seen; overflow detected''"
| "http_errno_description HPE_CLOSED_CONNECTION = ''data received after completed connection: close message''"
| "http_errno_description HPE_INVALID_VERSION = ''invalid HTTP version''"
| "http_errno_description HPE_INVALID_STATUS = ''invalid HTTP status code''"
| "http_errno_description HPE_INVALID_METHOD = ''invalid HTTP method''"
| "http_errno_description HPE_INVALID_URL = ''invalid URL''"
| "http_errno_description HPE_INVALID_HOST = ''invalid host''"
| "http_errno_description HPE_INVALID_PORT = ''invalid port''"
| "http_errno_description HPE_INVALID_PATH = ''invalid path''"
| "http_errno_description HPE_INVALID_QUERY_STRING = ''invalid query string''"
| "http_errno_description HPE_INVALID_FRAGMENT = ''invalid fragment''"
| "http_errno_description HPE_LF_EXPECTED = ''LF character expected''"
| "http_errno_description HPE_INVALID_HEADER_TOKEN = ''invalid character in header''"
| "http_errno_description HPE_INVALID_CONTENT_LENGTH = ''invalid character in content-length header''"
| "http_errno_description HPE_INVALID_CHUNK_SIZE = ''invalid character in chunk size header''"
| "http_errno_description HPE_INVALID_CONSTANT = ''invalid constant string''"
| "http_errno_description HPE_INVALID_INTERNAL_STATE = ''encountered unexpected internal state''"
| "http_errno_description HPE_STRICT = ''strict mode assertion failed''"
| "http_errno_description HPE_PAUSED = ''parser is paused''"
| "http_errno_description HPE_UNKNOWN = ''an unknown error occurred''"

text \<open>\<open>memset\<close> of the parser to 0 with \<open>data\<close> preserved, then the start state.\<close>

definition http_parser_init :: "'d http_parser \<Rightarrow> http_parser_type \<Rightarrow> 'd http_parser" where
  "http_parser_init p t =
    \<lparr>p_type = t, p_flags = 0,
     p_state = (if t = HTTP_REQUEST then s_start_req
                else if t = HTTP_RESPONSE then s_start_res else s_start_req_or_res),
     p_header_state = h_general, p_index = 0, p_nread = 0, p_content_length = 0,
     p_http_major = 0, p_http_minor = 0, p_status_code = 0, p_method = HTTP_DELETE,
     p_http_errno = HPE_OK, p_upgrade = False, p_data = p_data p\<rparr>"

definition http_parser_settings_init :: "'d http_parser_settings" where
  "http_parser_settings_init =
    \<lparr>on_message_begin = None, on_url = None, on_status = None, on_header_field = None,
     on_header_value = None, on_headers_complete = None, on_body = None,
     on_message_complete = None, on_chunk_header = None, on_chunk_complete = None\<rparr>"

text \<open>\<open>None\<close> is the assertion on a parser in an error state.\<close>

definition http_parser_pause :: "'d http_parser \<Rightarrow> bool \<Rightarrow> 'd http_parser option" where
  "http_parser_pause p paused =
    (if p_http_errno p = HPE_OK \<or> p_http_errno p = HPE_PAUSED
     then Some (p\<lparr>p_http_errno := (if paused then HPE_PAUSED else HPE_OK)\<rparr>) else None)"

definition http_body_is_final :: "'d http_parser \<Rightarrow> bool" where
  "http_body_is_final p \<longleftrightarrow> p_state p = s_message_done"

definition http_parser_version :: nat where
  "http_parser_version = (2 * 0x10000) OR (5 * 0x100) OR (0 * 0x1)"

end
