(* ===== verification/HttpInv.thy ===== *)
theory HttpInv imports HttpParser begin

text \<open>
  The invariant of the parser: what ties the state, the flags, the content length, the
  header state, the matcher index and the marks together. Every handler keeps it, so no
  assertion of \<open>http_parser_execute\<close> fails and every call returns, provided the
  callbacks change nothing of the parser but its error number and its \<open>data\<close>.
\<close>

section \<open>Well-behaved callbacks\<close>

definition cb_pure :: "'d http_cb option \<Rightarrow> bool" where
  "cb_pure cb \<longleftrightarrow> (\<forall>f p. cb = Some f \<longrightarrow>
     (\<exists>e d. snd (f p) = p\<lparr>p_http_errno := e, p_data := d\<rparr>))"

definition data_cb_pure :: "'d http_data_cb option \<Rightarrow> bool" where
  "data_cb_pure cb \<longleftrightarrow> (\<forall>f p bs. cb = Some f \<longrightarrow>
     (\<exists>e d. snd (f p bs) = p\<lparr>p_http_errno := e, p_data := d\<rparr>))"

definition well_behaved :: "'d http_parser_settings \<Rightarrow> bool" where
  "well_behaved st \<longleftrightarrow>
     cb_pure (on_message_begin st) \<and> data_cb_pure (on_url st) \<and> data_cb_pure (on_status st) \<and>
     data_cb_pure (on_header_field st) \<and> data_cb_pure (on_header_value st) \<and>
     cb_pure (on_headers_complete st) \<and> data_cb_pure (on_body st) \<and>
     cb_pure (on_message_complete st) \<and> cb_pure (on_chunk_header st) \<and>
     cb_pure (on_chunk_complete st)"

lemma well_behaved_settings_init: "well_behaved http_parser_settings_init"
  by (simp add: well_behaved_def http_parser_settings_init_def cb_pure_def data_cb_pure_def)

section \<open>The invariant\<close>

definition chunk_states :: "state set" where
  "chunk_states = {s_chunk_size_start, s_chunk_size, s_chunk_parameters,
     s_chunk_size_almost_done, s_chunk_data, s_chunk_data_almost_done, s_chunk_data_done}"

definition field_hs :: "header_states set" where
  "field_hs = {h_general, h_C, h_CO, h_CON, h_matching_connection,
     h_matching_proxy_connection, h_matching_content_length, h_matching_transfer_encoding,
     h_matching_upgrade, h_connection, h_content_length, h_transfer_encoding, h_upgrade}"

text \<open>\<open>n\<close> is the header byte count at \<open>s_chunk_size_start\<close>: 0 between bytes, 1 inside the switch.\<close>

definition state_inv :: "32 word \<Rightarrow> state \<Rightarrow> 'd http_parser \<Rightarrow> bool" where
  "state_inv n s p \<longleftrightarrow>
     (s \<in> chunk_states \<longrightarrow> flag_set F_CHUNKED p) \<and>
     (s = s_chunk_size_start \<longrightarrow> p_nread p = n) \<and>
     (s \<in> {s_body_identity, s_chunk_data} \<longrightarrow> p_content_length p \<noteq> 0 \<and> p_content_length p \<noteq> ULLONG_MAX) \<and>
     (s \<in> {s_chunk_size, s_chunk_parameters, s_chunk_size_almost_done} \<longrightarrow>
        p_content_length p \<noteq> ULLONG_MAX) \<and>
     (s = s_chunk_data_almost_done \<longrightarrow> p_content_length p = 0) \<and>
     (s = s_header_field \<longrightarrow> p_header_state p \<in> field_hs) \<and>
     (s = s_header_value \<longrightarrow> p_header_state p \<noteq> h_connection \<and> p_header_state p \<noteq> h_transfer_encoding) \<and>
     (s = s_req_method \<longrightarrow> unat (p_index p) \<le> length (method_strings (p_method p)))"

definition body_states :: "state set" where
  "body_states = {s_body_identity, s_body_identity_eof, s_chunk_data, s_chunk_data_almost_done}"

definition marks_inv :: "'d ctx \<Rightarrow> bool" where
  "marks_inv c \<longleftrightarrow>
     (header_field_mark c \<noteq> None \<longrightarrow> cur_state c = s_header_field) \<and>
     (header_value_mark c \<noteq> None \<longrightarrow> cur_state c = s_header_value) \<and>
     (url_mark c \<noteq> None \<longrightarrow> cur_state c \<in> url_states) \<and>
     (body_mark c \<noteq> None \<longrightarrow> cur_state c \<in> body_states) \<and>
     (status_mark c \<noteq> None \<longrightarrow> cur_state c = s_res_status)"

definition ctx_inv :: "32 word \<Rightarrow> char list \<Rightarrow> 'd ctx \<Rightarrow> bool" where
  "ctx_inv n data c \<longleftrightarrow> pos c < length data \<and> p_http_errno (parser c) = HPE_OK \<and>
     state_inv n (cur_state c) (parser c) \<and> marks_inv c"

text \<open>A parser between two calls; a paused one may go on.\<close>

definition parser_inv :: "'d http_parser \<Rightarrow> bool" where
  "parser_inv p \<longleftrightarrow> (p_http_errno p \<in> {HPE_OK, HPE_PAUSED} \<longrightarrow> state_inv 0 (p_state p) p)"

definition flow_inv :: "char list \<Rightarrow> nat \<Rightarrow> 'd flow \<Rightarrow> bool" where
  "flow_inv data q f \<longleftrightarrow>
    (case f of
       Break c \<Rightarrow> ctx_inv 0 data c \<and> q \<le> pos c
     | Reexec c ch \<Rightarrow> ctx_inv 1 data c \<and> q \<le> pos c
     | Fail c \<Rightarrow> p_http_errno (parser c) \<notin> {HPE_OK, HPE_PAUSED} \<and> pos c \<le> length data
     | Return v p \<Rightarrow> parser_inv p \<and> v \<le> length data \<and>
         (p_http_errno p = HPE_OK \<longrightarrow> p_upgrade p \<or> v = length data)
     | Abort \<Rightarrow> False)"

lemma state_inv_frame [simp]:
  "state_inv n s (p\<lparr>p_state := s'\<rparr>) = state_inv n s p"
  "state_inv n s (p\<lparr>p_data := d\<rparr>) = state_inv n s p"
  "state_inv n s (p\<lparr>p_http_errno := e\<rparr>) = state_inv n s p"
  "state_inv n s (p\<lparr>p_upgrade := u\<rparr>) = state_inv n s p"
  "state_inv n s (p\<lparr>p_http_major := j\<rparr>) = state_inv n s p"
  "state_inv n s (p\<lparr>p_http_minor := j\<rparr>) = state_inv n s p"
  "state_inv n s (p\<lparr>p_status_code := j\<rparr>) = state_inv n s p"
  "state_inv n s (p\<lparr>p_type := t\<rparr>) = state_inv n s p"
  by (simp_all add: state_inv_def flag_set_def)

lemma flow_inv_simps [simp]:
  "flow_inv data q (Break c) \<longleftrightarrow> ctx_inv 0 data c \<and> q \<le> pos c"
  "flow_inv data q (Reexec c ch) \<longleftrightarrow> ctx_inv 1 data c \<and> q \<le> pos c"
  "flow_inv data q (Fail c) \<longleftrightarrow> p_http_errno (parser c) \<notin> {HPE_OK, HPE_PAUSED} \<and> pos c \<le> length data"
  "flow_inv data q (Return v p) \<longleftrightarrow> parser_inv p \<and> v \<le> length data \<and>
         (p_http_errno p = HPE_OK \<longrightarrow> p_upgrade p \<or> v = length data)"
  "\<not> flow_inv data q Abort"
  by (simp_all add: flow_inv_def)

lemma flow_inv_fail [simp]:
  "flow_inv data q (fail e c) \<longleftrightarrow> e \<notin> {HPE_OK, HPE_PAUSED} \<and> pos c \<le> length data"
  by (simp add: fail_def SET_ERRNO_def upd_def)

text \<open>What a callback leaves: the same locals, with another \<open>state\<close> field and other data.\<close>

definition after_cb :: "state \<Rightarrow> 'd \<Rightarrow> 'd ctx \<Rightarrow> 'd ctx" where
  "after_cb s d c = c\<lparr>parser := (parser c)\<lparr>p_state := s, p_data := d\<rparr>\<rparr>"

lemma after_cb_same: "after_cb (p_state (parser c)) (p_data (parser c)) c = c"
  by (simp add: after_cb_def)

lemma after_cb_simps [simp]:
  "cur_state (after_cb s d c) = cur_state c"
  "pos (after_cb s d c) = pos c"
  "header_field_mark (after_cb s d c) = header_field_mark c"
  "header_value_mark (after_cb s d c) = header_value_mark c"
  "url_mark (after_cb s d c) = url_mark c"
  "body_mark (after_cb s d c) = body_mark c"
  "status_mark (after_cb s d c) = status_mark c"
  "parser (after_cb s d c) = (parser c)\<lparr>p_state := s, p_data := d\<rparr>"
  by (simp_all add: after_cb_def)

lemma ctx_inv_after_cb [simp]: "ctx_inv n data (after_cb s d c) = ctx_inv n data c"
  by (simp add: ctx_inv_def marks_inv_def)

lemma errno_same:
  "p_http_errno p = e \<Longrightarrow> p\<lparr>p_state := s, p_http_errno := e, p_data := d\<rparr> = p\<lparr>p_state := s, p_data := d\<rparr>"
  by (cases p) simp

lemma notify_inv:
  assumes "cb_pure cb"
    and "p_http_errno (parser c) = HPE_OK"
    and "state_inv 0 (cur_state c) (parser c)"
    and "er \<le> length data"
    and e: "e \<noteq> HPE_OK" "e \<noteq> HPE_PAUSED"
    and k: "\<And>s d. flow_inv data q (k (after_cb s d c))"
  shows "flow_inv data q (CALLBACK_NOTIFY_AT cb e er c k)"
proof (cases cb)
  case None
  then show ?thesis
    using assms(2) k [of "p_state (parser c)" "p_data (parser c)"]
    by (simp add: CALLBACK_NOTIFY_AT_def ASSERT_def after_cb_same)
next
  case (Some f)
  obtain r p1 where r: "f ((parser c)\<lparr>p_state := cur_state c\<rparr>) = (r, p1)"
    by fastforce
  obtain e1 d where p1: "p1 = (parser c)\<lparr>p_state := cur_state c, p_http_errno := e1, p_data := d\<rparr>"
    using assms(1) Some r unfolding cb_pure_def by (metis snd_conv)
  then have "e1 = HPE_OK \<Longrightarrow> c\<lparr>parser := p1\<rparr> = after_cb (cur_state c) d c"
    using assms(2) by (simp add: errno_same after_cb_def)
  then show ?thesis
    using assms(2-4) e Some r k [of "cur_state c" d]
    by (auto simp: CALLBACK_NOTIFY_AT_def ASSERT_def parser_inv_def p1 errno_same after_cb_def Let_def)
qed

lemma data_cb_inv:
  assumes "data_cb_pure cb"
    and "p_http_errno (parser c) = HPE_OK"
    and "state_inv 0 (cur_state c) (parser c)"
    and "er \<le> length data"
    and e: "e \<noteq> HPE_OK" "e \<noteq> HPE_PAUSED"
    and clear: "\<And>c. cur_state (clear c) = cur_state c" "mark c = None \<Longrightarrow> clear c = c"
    and k: "\<And>s d. flow_inv data q (k (clear (after_cb s d c)))"
  shows "flow_inv data q (CALLBACK_DATA_AT data cb e mark clear till er c k)"
proof (cases "mark c")
  case None
  then show ?thesis
    using assms(2) k [of "p_state (parser c)" "p_data (parser c)"] clear(2)
    by (simp add: CALLBACK_DATA_AT_def ASSERT_def after_cb_same)
next
  case (Some m)
  show ?thesis
  proof (cases cb)
    case None
    then show ?thesis
      using assms(2) k [of "p_state (parser c)" "p_data (parser c)"] Some
      by (simp add: CALLBACK_DATA_AT_def ASSERT_def after_cb_same)
  next
    case (Some f)
    obtain r p1 where r: "f ((parser c)\<lparr>p_state := cur_state c\<rparr>) (take (till - m) (drop m data)) = (r, p1)"
      by fastforce
    obtain e1 d where p1: "p1 = (parser c)\<lparr>p_state := cur_state c, p_http_errno := e1, p_data := d\<rparr>"
      using assms(1) Some r unfolding data_cb_pure_def by (metis snd_conv)
    then have "e1 = HPE_OK \<Longrightarrow> c\<lparr>parser := p1\<rparr> = after_cb (cur_state c) d c"
      using assms(2) by (simp add: errno_same after_cb_def)
    then show ?thesis
      using assms(2-4) e Some \<open>mark c = Some m\<close> r k [of "cur_state c" d]
      by (auto simp: CALLBACK_DATA_AT_def ASSERT_def parser_inv_def p1 errno_same after_cb_def Let_def)
  qed
qed

section \<open>Every handler keeps the invariant\<close>

lemmas inv_defs = ctx_inv_def marks_inv_def state_inv_def upd_def UPDATE_STATE_def
  STRICT_CHECK_def ASSERT_def chunk_states_def body_states_def url_states_def flag_set_def Let_def

lemma parse_url_char_states: "parse_url_char s ch \<in> insert s_dead url_states"
  by (cases s) (simp_all add: parse_url_char_def url_states_def)

lemma url_states_plain:
  "s \<in> url_states \<Longrightarrow> state_inv n s p"
  by (auto simp: url_states_def state_inv_def chunk_states_def)

lemma url_states_not:
  "s \<in> url_states \<Longrightarrow> s \<noteq> s_header_field \<and> s \<noteq> s_header_value \<and> s \<noteq> s_res_status \<and>
     s \<notin> body_states \<and> s \<noteq> s_dead"
  by (auto simp: url_states_def body_states_def)

lemma NEW_MESSAGE_states: "NEW_MESSAGE p \<in> {s_dead, s_start_req, s_start_res}"
  by (simp add: NEW_MESSAGE_def start_state_def)

lemma do_dead_inv: "ctx_inv 1 data c \<Longrightarrow> cur_state c = s_dead \<Longrightarrow> flow_inv data (pos c) (do_dead ch c)"
  by (simp add: do_dead_def inv_defs)

lemma do_res_or_resp_H_inv:
  "ctx_inv 1 data c \<Longrightarrow> cur_state c = s_res_or_resp_H \<Longrightarrow> flow_inv data (pos c) (do_res_or_resp_H ch c)"
  by (simp add: do_res_or_resp_H_def inv_defs)

lemma expect_inv:
  assumes "ctx_inv 1 data c"
    and "cur_state c \<notin> body_states \<union> url_states \<union> {s_header_field, s_header_value, s_res_status}"
    and "s \<notin> chunk_states \<union> body_states \<union> {s_header_field, s_header_value, s_req_method}"
  shows "flow_inv data (pos c) (expect x s ch c)"
proof -
  have "state_inv 0 s (parser c)"
    using assms(3) by (simp add: state_inv_def chunk_states_def body_states_def)
  moreover have "marks_inv (UPDATE_STATE s c)"
    using assms(1,2) by (simp add: ctx_inv_def marks_inv_def UPDATE_STATE_def)
  ultimately show ?thesis
    using assms(1) by (simp add: expect_def STRICT_CHECK_def ctx_inv_def UPDATE_STATE_def)
qed

lemma version_digit_inv:
  assumes "ctx_inv 1 data c" and "cur_state c \<notin> chunk_states"
  shows "flow_inv data (pos c) (add_major ch c)" "flow_inv data (pos c) (add_minor ch c)"
proof -
  have "state_inv 0 (cur_state c) (parser c)"
    using assms by (simp add: ctx_inv_def state_inv_def chunk_states_def)
  then show "flow_inv data (pos c) (add_major ch c)" "flow_inv data (pos c) (add_minor ch c)"
    using assms(1) by (simp_all add: add_major_def add_minor_def ctx_inv_def marks_inv_def upd_def Let_def)
qed

lemma do_res_first_http_major_inv:
  "ctx_inv 1 data c \<Longrightarrow> cur_state c = s_res_first_http_major \<Longrightarrow>
   flow_inv data (pos c) (do_res_first_http_major ch c)"
  by (simp add: do_res_first_http_major_def inv_defs)

lemma do_res_http_major_inv:
  "ctx_inv 1 data c \<Longrightarrow> cur_state c = s_res_http_major \<Longrightarrow>
   flow_inv data (pos c) (do_res_http_major ch c)"
  using version_digit_inv [of data c ch]
  by (simp add: do_res_http_major_def chunk_states_def) (simp add: inv_defs)

lemma do_res_first_http_minor_inv:
  "ctx_inv 1 data c \<Longrightarrow> cur_state c = s_res_first_http_minor \<Longrightarrow>
   flow_inv data (pos c) (do_res_first_http_minor ch c)"
  by (simp add: do_res_first_http_minor_def inv_defs)

lemma do_res_http_minor_inv:
  "ctx_inv 1 data c \<Longrightarrow> cur_state c = s_res_http_minor \<Longrightarrow>
   flow_inv data (pos c) (do_res_http_minor ch c)"
  using version_digit_inv [of data c ch]
  by (simp add: do_res_http_minor_def chunk_states_def) (simp add: inv_defs)

lemma do_res_first_status_code_inv:
  "ctx_inv 1 data c \<Longrightarrow> cur_state c = s_res_first_status_code \<Longrightarrow>
   flow_inv data (pos c) (do_res_first_status_code ch c)"
  by (simp add: do_res_first_status_code_def inv_defs)

lemma do_res_status_code_inv:
  "ctx_inv 1 data c \<Longrightarrow> cur_state c = s_res_status_code \<Longrightarrow>
   flow_inv data (pos c) (do_res_status_code ch c)"
  by (simp add: do_res_status_code_def inv_defs)

lemma do_res_status_start_inv:
  "ctx_inv 1 data c \<Longrightarrow> cur_state c = s_res_status_start \<Longrightarrow>
   flow_inv data (pos c) (do_res_status_start ch c)"
  by (simp add: do_res_status_start_def inv_defs)

text \<open>\<open>c\<close> may just have set the URL mark or the state of a CONNECT request.\<close>

lemma url_char_inv:
  assumes "pos c < length data" "p_http_errno (parser c) = HPE_OK"
    and "header_field_mark c = None" "header_value_mark c = None" "body_mark c = None"
      "status_mark c = None"
  shows "flow_inv data (pos c) (url_char ch c)"
proof -
  have "parse_url_char (cur_state c) ch = s_dead \<or> parse_url_char (cur_state c) ch \<in> url_states"
    using parse_url_char_states [of "cur_state c" ch] by blast
  then show ?thesis
    using assms url_states_plain [of "parse_url_char (cur_state c) ch" 0 "parser c"]
    by (auto simp: url_char_def ctx_inv_def marks_inv_def UPDATE_STATE_def Let_def dest: url_states_not)
qed

lemma url_ctx:
  assumes "ctx_inv n data c" and "cur_state c \<in> insert s_req_spaces_before_url url_states"
  shows "pos c < length data \<and> p_http_errno (parser c) = HPE_OK \<and> header_field_mark c = None \<and>
     header_value_mark c = None \<and> body_mark c = None \<and> status_mark c = None"
  using assms url_states_not [of "cur_state c"]
  by (auto simp: ctx_inv_def marks_inv_def body_states_def)

lemma do_req_spaces_before_url_inv:
  assumes "ctx_inv 1 data c" and "cur_state c = s_req_spaces_before_url"
  shows "flow_inv data (pos c) (do_req_spaces_before_url ch c)"
proof -
  let ?c = "c\<lparr>url_mark := set_mark (pos c) (url_mark c)\<rparr>"
  have "flow_inv data (pos c) (url_char ch ?c)"
    "flow_inv data (pos c) (url_char ch (UPDATE_STATE s_req_server_start ?c))"
    using url_ctx [OF assms(1)] assms(2) url_char_inv [of ?c data ch]
      url_char_inv [of "UPDATE_STATE s_req_server_start ?c" data ch]
    by (simp_all add: UPDATE_STATE_def)
  moreover have "ctx_inv 0 data c"
    using assms by (simp add: ctx_inv_def state_inv_def)
  ultimately show ?thesis
    by (simp add: do_req_spaces_before_url_def Let_def)
qed

lemma do_req_schema_inv:
  assumes "ctx_inv 1 data c"
    and "cur_state c \<in> {s_req_schema, s_req_schema_slash, s_req_schema_slash_slash, s_req_server_start}"
  shows "flow_inv data (pos c) (do_req_schema ch c)"
proof -
  have "cur_state c \<in> url_states"
    using assms(2) by (auto simp: url_states_def)
  then show ?thesis
    using url_ctx [OF assms(1)] url_char_inv [of c data ch] by (simp add: do_req_schema_def)
qed

lemma do_req_http_start_inv:
  "ctx_inv 1 data c \<Longrightarrow> cur_state c = s_req_http_start \<Longrightarrow>
   flow_inv data (pos c) (do_req_http_start ch c)"
  by (simp add: do_req_http_start_def inv_defs)

lemma do_req_first_http_major_inv:
  "ctx_inv 1 data c \<Longrightarrow> cur_state c = s_req_first_http_major \<Longrightarrow>
   flow_inv data (pos c) (do_req_first_http_major ch c)"
  by (simp add: do_req_first_http_major_def inv_defs)

lemma do_req_http_major_inv:
  "ctx_inv 1 data c \<Longrightarrow> cur_state c = s_req_http_major \<Longrightarrow>
   flow_inv data (pos c) (do_req_http_major ch c)"
  using version_digit_inv [of data c ch]
  by (simp add: do_req_http_major_def chunk_states_def) (simp add: inv_defs)

lemma do_req_first_http_minor_inv:
  "ctx_inv 1 data c \<Longrightarrow> cur_state c = s_req_first_http_minor \<Longrightarrow>
   flow_inv data (pos c) (do_req_first_http_minor ch c)"
  by (simp add: do_req_first_http_minor_def inv_defs)

lemma do_req_http_minor_inv:
  "ctx_inv 1 data c \<Longrightarrow> cur_state c = s_req_http_minor \<Longrightarrow>
   flow_inv data (pos c) (do_req_http_minor ch c)"
  using version_digit_inv [of data c ch]
  by (simp add: do_req_http_minor_def chunk_states_def) (simp add: inv_defs)

lemma do_req_line_almost_done_inv:
  "ctx_inv 1 data c \<Longrightarrow> cur_state c = s_req_line_almost_done \<Longrightarrow>
   flow_inv data (pos c) (do_req_line_almost_done ch c)"
  by (simp add: do_req_line_almost_done_def inv_defs)

subsection \<open>Handlers that call back\<close>

lemmas cb_defs = CALLBACK_NOTIFY_def CALLBACK_NOTIFY_NOADVANCE_def cb_header_field_def
  cb_header_value_def cb_url_def cb_status_def cb_body_def message_complete_def

lemma do_start_req_or_res_inv:
  assumes "well_behaved st" "ctx_inv 1 data c" "cur_state c = s_start_req_or_res"
  shows "flow_inv data (pos c) (do_start_req_or_res st ch c)"
  using assms
  by (auto simp: do_start_req_or_res_def cb_defs well_behaved_def inv_defs reset_message_def
           intro!: notify_inv)

lemma do_start_res_inv:
  assumes "well_behaved st" "ctx_inv 1 data c" "cur_state c = s_start_res"
  shows "flow_inv data (pos c) (do_start_res st ch c)"
  using assms
  by (auto simp: do_start_res_def cb_defs well_behaved_def inv_defs reset_message_def
           intro!: notify_inv)

lemma first_method_index: "1 \<le> length (method_strings m)"
  by (cases m) simp_all

lemma do_start_req_inv:
  assumes "well_behaved st" "ctx_inv 1 data c" "cur_state c = s_start_req"
  shows "flow_inv data (pos c) (do_start_req st ch c)"
  using assms first_method_index
  by (auto simp: do_start_req_def cb_defs well_behaved_def inv_defs reset_message_def
           split: option.split intro!: notify_inv)

lemma method_switch_index:
  "method_switch m i ch = Some m' \<Longrightarrow> i + 1 \<le> length (method_strings m')"
  by (auto simp: method_switch_def split: if_splits)

lemma method_strings_short: "length (method_strings m) \<le> 11"
  by (cases m) simp_all

lemma unat_inc8: "unat (w :: 8 word) < 255 \<Longrightarrow> unat (w + 1) = unat w + 1"
  by (simp add: unat_word_ariths)

lemma do_req_method_inv:
  assumes "ctx_inv 1 data c" "cur_state c = s_req_method"
  shows "flow_inv data (pos c) (do_req_method ch c)"
proof (cases "ch = NUL")
  case True
  then show ?thesis using assms by (simp add: do_req_method_def ctx_inv_def)
next
  case False
  let ?m = "p_method (parser c)" and ?i = "unat (p_index (parser c))"
  have i: "?i \<le> length (method_strings ?m)"
    using assms by (simp add: ctx_inv_def state_inv_def)
  then have inc: "unat (p_index (parser c) + 1) = ?i + 1"
    using method_strings_short [of ?m] by (intro unat_inc8) linarith
  obtain x where x: "c_str_at (method_strings ?m) ?i = Some x"
    using i by (auto simp: c_str_at_def le_less)
  have "ch = x \<Longrightarrow> ?i < length (method_strings ?m)"
    using x False by (auto simp: c_str_at_def split: if_splits)
  then show ?thesis
    using assms False x inc method_switch_index [of ?m ?i ch]
    by (auto simp: do_req_method_def inv_defs split: option.split)
qed

lemma do_res_status_inv:
  assumes "well_behaved st" "ctx_inv 1 data c" "cur_state c = s_res_status"
  shows "flow_inv data (pos c) (do_res_status st data ch c)"
  using assms
  by (auto simp: do_res_status_def cb_defs well_behaved_def inv_defs intro!: data_cb_inv)

lemma do_req_url_inv:
  assumes "well_behaved st" "ctx_inv 1 data c" "cur_state c \<in> url_states"
  shows "flow_inv data (pos c) (do_req_url st data ch c)"
proof -
  note u = url_ctx [OF assms(2)]
  have "flow_inv data (pos c) (cb_url st data 1 (UPDATE_STATE s (upd f c)) Break)"
    if "s \<in> {s_req_http_start, s_req_line_almost_done, s_header_field_start}"
      and "\<And>p. p_http_errno (f p) = p_http_errno p" for s f
    using assms(1) u assms(3) that
    by (auto simp: cb_defs well_behaved_def inv_defs intro!: data_cb_inv)
  from this [of s_req_http_start id]
    this [of s_req_line_almost_done "\<lambda>p. p\<lparr>p_http_major := 0, p_http_minor := 9\<rparr>"]
    this [of s_header_field_start "\<lambda>p. p\<lparr>p_http_major := 0, p_http_minor := 9\<rparr>"]
  show ?thesis
    using u assms(3) by (simp add: do_req_url_def upd_def url_char_inv)
qed

end
