(* ===== verification/HttpRun.thy ===== *)
theory HttpRun imports HttpInv begin

text \<open>
  The invariant through the header, body and chunk handlers, the switch and the loop:
  \<open>http_parser_execute\<close> returns, aborts nowhere, and leaves a parser that satisfies the
  invariant.
\<close>

subsection \<open>Headers\<close>

lemma count_inv:
  assumes "pos c \<le> length data"
    and "\<And>m. flow_inv data q (k (upd (p_nread_update (\<lambda>_. m)) c))"
  shows "flow_inv data q (COUNT_HEADER_SIZE v c k)"
  using assms(1) assms(2) [of "p_nread (parser c) + of_nat v"]
  by (simp add: COUNT_HEADER_SIZE_def Let_def upd_def fail_def SET_ERRNO_def)

lemma do_header_field_start_inv:
  assumes "ctx_inv 1 data c" "cur_state c = s_header_field_start"
  shows "flow_inv data (pos c) (do_header_field_start ch c)"
  using assms by (simp add: do_header_field_start_def inv_defs field_hs_def)

text \<open>What the loop over a field name changes: the index and the header state.\<close>

definition field_frame :: "'d http_parser \<Rightarrow> 'd http_parser \<Rightarrow> bool" where
  "field_frame p q \<longleftrightarrow> (\<exists>i h. q = p\<lparr>p_index := i, p_header_state := h\<rparr>)"

lemma field_frame_set [simp]: "field_frame p (p\<lparr>p_index := i, p_header_state := h\<rparr>)"
  by (auto simp: field_frame_def)

lemma field_frame_hs [simp]: "field_frame p (p\<lparr>p_header_state := h\<rparr>)"
  using field_frame_set [where p = p and i = "p_index p" and h = h] by simp

lemma field_frame_refl [simp]: "field_frame p p"
  using field_frame_hs [where p = p and h = "p_header_state p"] by simp

lemma field_frame_trans: "field_frame p q \<Longrightarrow> field_frame q r \<Longrightarrow> field_frame p r"
  unfolding field_frame_def by (auto intro: exI [of _ i for i]) blast

lemma field_frame_errno: "field_frame p q \<Longrightarrow> p_http_errno q = p_http_errno p"
  by (auto simp: field_frame_def)

lemma header_field_char_inv:
  assumes "p_header_state p \<in> field_hs"
  shows "\<exists>q. header_field_char ch t p = Some q \<and> field_frame p q \<and> p_header_state q \<in> field_hs"
  using assms
  by (cases "p_header_state p")
    (simp_all add: header_field_char_def set_hs_def inc_index_def match_field_def match_next_def
       field_hs_def Let_def)

lemma header_field_loop_inv:
  "p_header_state p \<in> field_hs \<Longrightarrow>
   \<exists>n q. header_field_loop cs p = Some (n, q) \<and> field_frame p q \<and> p_header_state q \<in> field_hs \<and>
     n \<le> length cs"
proof (induction cs arbitrary: p)
  case Nil
  then show ?case by simp
next
  case (Cons ch cs)
  show ?case
  proof (cases "TOKEN ch = NUL")
    case True
    with Cons.prems show ?thesis by simp
  next
    case False
    obtain q where q: "header_field_char ch (TOKEN ch) p = Some q" "field_frame p q"
      and h: "p_header_state q \<in> field_hs"
      using header_field_char_inv [OF Cons.prems] by blast
    from Cons.IH [OF h] False q show ?thesis
      by (auto simp: Let_def intro: field_frame_trans)
  qed
qed

lemma do_header_field_inv:
  assumes "well_behaved st" "ctx_inv 1 data c" "cur_state c = s_header_field"
  shows "flow_inv data (pos c) (do_header_field st data c)"
proof -
  have "p_header_state (parser c) \<in> field_hs"
    using assms by (simp add: ctx_inv_def state_inv_def)
  from header_field_loop_inv [OF this, of "drop (pos c) data"] obtain n q where
    l: "header_field_loop (drop (pos c) data) (parser c) = Some (n, q)"
    and f: "field_frame (parser c) q" and h: "p_header_state q \<in> field_hs"
    and n: "n \<le> length data - pos c"
    by auto
  have e: "p_http_errno q = HPE_OK" and pos: "pos c < length data"
    using field_frame_errno [OF f] assms(2) by (simp_all add: ctx_inv_def)
  show ?thesis
    unfolding do_header_field_def l option.case prod.case
  proof (rule count_inv, goal_cases)
    case 1
    then show ?case using n pos by simp
  next
    case (2 m)
    show ?case
      using assms n h e pos
      by (auto simp: cb_defs well_behaved_def inv_defs intro!: data_cb_inv)
  qed
qed

lemma do_header_value_start_inv:
  assumes "pos c < length data" "p_http_errno (parser c) = HPE_OK"
    and "header_field_mark c = None" "url_mark c = None" "body_mark c = None" "status_mark c = None"
  shows "flow_inv data (pos c) (do_header_value_start ch c)"
  using assms
  by (cases "p_header_state (parser c)")
    (simp_all add: do_header_value_start_def inv_defs set_hs_def add_flag_def)

lemma do_header_value_discard_ws_inv:
  assumes "ctx_inv 1 data c" "cur_state c = s_header_value_discard_ws"
  shows "flow_inv data (pos c) (do_header_value_discard_ws ch c)"
proof -
  have "flow_inv data (pos c) (do_header_value_start ch c)"
    using assms by (intro do_header_value_start_inv) (simp_all add: inv_defs)
  then show ?thesis
    using assms by (simp add: do_header_value_discard_ws_def) (simp add: inv_defs)
qed

text \<open>The loop over a header value: the fields it leaves alone, and where it stops.\<close>

definition value_frame :: "'d http_parser \<Rightarrow> 'd http_parser \<Rightarrow> bool" where
  "value_frame p q \<longleftrightarrow> (\<exists>i l f. q = p\<lparr>p_index := i, p_content_length := l, p_flags := f\<rparr>)"

lemma value_frame_set [simp]:
  "value_frame p (p\<lparr>p_index := i, p_content_length := l, p_flags := f\<rparr>)"
  by (auto simp: value_frame_def)

lemma value_frame_index [simp]: "value_frame p (p\<lparr>p_index := i\<rparr>)"
  using value_frame_set [where p = p and i = i and l = "p_content_length p" and f = "p_flags p"] by simp

lemma value_frame_length [simp]: "value_frame p (p\<lparr>p_content_length := l\<rparr>)"
  using value_frame_set [where p = p and i = "p_index p" and l = l and f = "p_flags p"] by simp

lemma value_frame_flags [simp]: "value_frame p (p\<lparr>p_flags := f, p_index := i\<rparr>)"
  unfolding value_frame_def
  by (rule exI [of _ i], rule exI [of _ "p_content_length p"], rule exI [of _ f]) (cases p, simp)

lemma value_frame_flags' [simp]: "value_frame p (p\<lparr>p_index := i, p_flags := f\<rparr>)"
  using value_frame_set [where p = p and i = i and l = "p_content_length p" and f = f] by simp

lemma value_frame_refl [simp]: "value_frame p p"
  using value_frame_index [where p = p and i = "p_index p"] by simp

lemma value_frame_trans: "value_frame p q \<Longrightarrow> value_frame q r \<Longrightarrow> value_frame p r"
proof -
  assume "value_frame p q" "value_frame q r"
  then obtain i l f i' l' f' where
    "r = (p\<lparr>p_index := i, p_content_length := l, p_flags := f\<rparr>)
          \<lparr>p_index := i', p_content_length := l', p_flags := f'\<rparr>"
    by (auto simp: value_frame_def)
  then show ?thesis by simp
qed

lemma value_frame_errno: "value_frame p q \<Longrightarrow> p_http_errno q = p_http_errno p"
  by (auto simp: value_frame_def)

abbreviation value_hs :: "header_states \<Rightarrow> bool" where
  "value_hs h \<equiv> h \<noteq> h_connection \<and> h \<noteq> h_transfer_encoding"

lemma header_value_char_inv:
  assumes "value_hs h"
  shows "header_value_char h ch p = Hv_bad \<or>
     (\<exists>h' q. header_value_char h ch p = Hv_go h' q \<and> value_hs h' \<and> value_frame p q)"
  using assms
  by (cases h)
    (simp_all add: header_value_char_def match_value_def match_next_def inc_index_def
       connection_flag_def add_flag_def Let_def)

fun hv_end_ok :: "nat \<Rightarrow> nat \<Rightarrow> 'd http_parser \<Rightarrow> 'd hv_end \<Rightarrow> bool" where
  "hv_end_ok n m p (Hv_cr k h q) \<longleftrightarrow> n \<le> k \<and> k < m \<and> value_hs h \<and> value_frame p q"
| "hv_end_ok n m p (Hv_lf k h q) \<longleftrightarrow> n \<le> k \<and> k < m \<and> value_hs h \<and> value_frame p q"
| "hv_end_ok n m p (Hv_more k h q) \<longleftrightarrow> n \<le> k \<and> k = m \<and> value_hs h \<and> value_frame p q"
| "hv_end_ok n m p (Hv_error k h q) \<longleftrightarrow> n \<le> k \<and> k < m \<and> value_hs h \<and> value_frame p q"
| "hv_end_ok n m p Hv_assert \<longleftrightarrow> False"

lemma hv_end_ok_mono:
  "hv_end_ok n' m q e \<Longrightarrow> n \<le> n' \<Longrightarrow> value_frame p q \<Longrightarrow> hv_end_ok n m p e"
  by (cases e) (auto intro: value_frame_trans)

lemma memchr_bound: "memchr x s = Some i \<Longrightarrow> i < length s"
  by (auto simp: memchr_def Let_def split: if_splits)

lemma skip_general_bound: "skip_general cs \<le> length cs"
  by (auto simp: skip_general_def Let_def split: option.split dest!: memchr_bound)

lemma header_value_loop_inv:
  "value_hs h \<Longrightarrow> hv_end_ok n (n + length cs) p (header_value_loop n cs h p)"
proof (induction n cs h p rule: header_value_loop.induct)
  case (1 n h p)
  then show ?case by simp
next
  case (2 n ch cs h p)
  let ?k = "max 1 (skip_general (ch # cs))"
  have k: "?k \<le> Suc (length cs)"
    using skip_general_bound [of "ch # cs"] by simp
  show ?case
  proof (cases "ch = CR \<or> ch = LF")
    case True
    with "2.prems" show ?thesis by auto
  next
    case no_eol: False
    show ?thesis
    proof (cases "h = h_general")
      case True
      then have "hv_end_ok (n + ?k) (n + Suc (length cs)) p
          (header_value_loop (n + ?k) (drop ?k (ch # cs)) h p)"
        using "2.IH"(1) [OF _ _ True refl] "2.prems" no_eol k by simp
      with True no_eol show ?thesis
        by (simp add: Let_def) (erule hv_end_ok_mono; simp)
    next
      case False
      from header_value_char_inv [OF "2.prems", of ch p] show ?thesis
      proof (elim disjE exE conjE)
        assume "header_value_char h ch p = Hv_bad"
        with False no_eol "2.prems" show ?thesis by simp
      next
        fix h' q
        assume q: "header_value_char h ch p = Hv_go h' q" "h' \<noteq> h_connection"
          "h' \<noteq> h_transfer_encoding" "value_frame p q"
        then have "hv_end_ok (Suc n) (Suc n + length cs) q (header_value_loop (Suc n) cs h' q)"
          using "2.IH"(2) [OF _ _ False q(1)] no_eol by simp
        with q(1,4) False no_eol show ?thesis
          by simp (erule hv_end_ok_mono; simp)
      qed
    qed
  qed
qed

lemma do_header_value_inv:
  assumes "well_behaved st" "ctx_inv 1 data c" "cur_state c = s_header_value"
  shows "flow_inv data (pos c) (do_header_value st data ch c)"
proof -
  let ?cs = "drop (pos c) data" and ?p = "parser c"
  have pos: "pos c < length data" and e: "p_http_errno ?p = HPE_OK"
    and hs: "value_hs (p_header_state ?p)"
    using assms by (simp_all add: ctx_inv_def state_inv_def)
  have marks: "header_field_mark c = None" "url_mark c = None" "body_mark c = None"
    "status_mark c = None"
    using assms by (simp_all add: inv_defs)
  have l: "hv_end_ok 0 (length data - pos c) ?p (header_value_loop 0 ?cs (p_header_state ?p) ?p)"
    using header_value_loop_inv [OF hs, of 0 ?cs ?p] by simp
  show ?thesis
  proof (cases "header_value_loop 0 ?cs (p_header_state ?p) ?p")
    case (Hv_cr n h p)
    with l have b: "n < length data - pos c" "p_http_errno p = HPE_OK" "value_hs h"
      using e by (auto simp: value_frame_errno)
    show ?thesis
      unfolding do_header_value_def Hv_cr hv_end.case cb_defs
      by (rule data_cb_inv)
        (use assms(1) b pos marks in
          \<open>auto simp: well_behaved_def inv_defs set_hs_def intro!: count_inv\<close>)
  next
    case (Hv_lf n h p)
    with l have b: "n < length data - pos c" "p_http_errno p = HPE_OK" "value_hs h"
      using e by (auto simp: value_frame_errno)
    show ?thesis
      unfolding do_header_value_def Hv_lf hv_end.case cb_defs
      by (rule count_inv)
        (use assms(1) b pos marks in
          \<open>auto simp: well_behaved_def inv_defs set_hs_def intro!: data_cb_inv\<close>)
  next
    case (Hv_more n h p)
    with l have b: "n = length data - pos c" "p_http_errno p = HPE_OK" "value_hs h"
      using e by (auto simp: value_frame_errno)
    show ?thesis
      unfolding do_header_value_def Hv_more hv_end.case
      by (rule count_inv)
        (use assms(3) b pos marks in \<open>auto simp: inv_defs set_hs_def\<close>)
  next
    case (Hv_error n h p)
    with l have "n < length data - pos c" by simp
    with pos Hv_error show ?thesis by (simp add: do_header_value_def)
  next
    case Hv_assert
    with l show ?thesis by simp
  qed
qed

lemma do_header_almost_done_inv:
  "ctx_inv 1 data c \<Longrightarrow> cur_state c = s_header_almost_done \<Longrightarrow>
   flow_inv data (pos c) (do_header_almost_done ch c)"
  by (simp add: do_header_almost_done_def inv_defs)

lemma finish_header_frame:
  "\<exists>f. finish_header p = p\<lparr>p_flags := f\<rparr>"
  by (auto simp: finish_header_def connection_flag_def add_flag_def intro: exI [of _ "p_flags p"])

lemma do_header_value_lws_inv:
  assumes "ctx_inv 1 data c" "cur_state c = s_header_value_lws"
  shows "flow_inv data (pos c) (do_header_value_lws ch c)"
proof -
  obtain f where "finish_header (parser c) = (parser c)\<lparr>p_flags := f\<rparr>"
    using finish_header_frame by blast
  then show ?thesis
    using assms by (simp add: do_header_value_lws_def inv_defs)
qed

lemma do_header_value_discard_lws_inv:
  assumes "well_behaved st" "ctx_inv 1 data c" "cur_state c = s_header_value_discard_lws"
  shows "flow_inv data (pos c) (do_header_value_discard_lws st data ch c)"
proof -
  obtain f where "finish_header (parser c) = (parser c)\<lparr>p_flags := f\<rparr>"
    using finish_header_frame by blast
  then show ?thesis
    using assms
    by (auto simp: do_header_value_discard_lws_def cb_defs well_behaved_def inv_defs set_mark_def
             intro!: data_cb_inv)
qed

subsection \<open>The end of the headers\<close>

lemma RETURN_inv:
  assumes "state_inv 0 (cur_state c) (parser c)" "v \<le> length data"
    and "p_http_errno (parser c) = HPE_OK \<Longrightarrow> p_upgrade (parser c) \<or> v = length data"
  shows "flow_inv data q (RETURN v c)"
  using assms by (simp add: RETURN_def parser_inv_def)

lemma STRICT_CHECK_inv:
  "pos c \<le> length data \<Longrightarrow> (\<not> b \<Longrightarrow> flow_inv data q k) \<Longrightarrow> flow_inv data q (STRICT_CHECK b c k)"
  by (simp add: STRICT_CHECK_def)

lemma flow_inv_if:
  "(b \<Longrightarrow> flow_inv data q x) \<Longrightarrow> (\<not> b \<Longrightarrow> flow_inv data q y) \<Longrightarrow> flow_inv data q (if b then x else y)"
  by simp

lemma do_headers_almost_done_inv:
  assumes wb: "well_behaved st" and c: "ctx_inv 1 data c" and s: "cur_state c = s_headers_almost_done"
  shows "flow_inv data (pos c) (do_headers_almost_done st ch c)"
proof -
  define up where "up = (\<lambda>p :: 'a http_parser. p\<lparr>p_upgrade :=
      (p_flags p AND (F_UPGRADE OR F_CONNECTION_UPGRADE) = (F_UPGRADE OR F_CONNECTION_UPGRADE)
       \<or> p_method p = HTTP_CONNECT)\<rparr>)"
  define go where "go = (\<lambda>c :: 'a ctx. if p_http_errno (parser c) \<noteq> HPE_OK then RETURN (pos c) c
      else Reexec c ch)"
  let ?c = "upd up (UPDATE_STATE s_headers_done c)"
  have b: "pos c < length data" "header_field_mark c = None" "header_value_mark c = None"
    "url_mark c = None" "body_mark c = None" "status_mark c = None" "p_http_errno (parser c) = HPE_OK"
    using c s by (simp_all add: inv_defs)
  have go: "flow_inv data (pos c) (go (c\<lparr>cur_state := s_headers_done, parser := p\<rparr>))" for p
    using b by (auto simp: go_def inv_defs intro!: RETURN_inv)
  have "flow_inv data (pos c)
      (case on_headers_complete st of
         None \<Rightarrow> go ?c
       | Some f \<Rightarrow>
           let (r, p) = f (parser ?c); c = ?c\<lparr>parser := p\<rparr> in
           if r = 0 then go c
           else if r = 1 then go (upd (add_flag F_SKIPBODY) c)
           else RETURN (pos c) (SET_ERRNO HPE_CB_headers_complete c))"
    using go b
    by (auto simp: upd_def UPDATE_STATE_def SET_ERRNO_def Let_def inv_defs split: option.split prod.split
             intro!: RETURN_inv)
  moreover have "flow_inv data (pos c)
      (CALLBACK_NOTIFY_NOADVANCE (on_chunk_complete st) HPE_CB_chunk_complete
          (UPDATE_STATE s_message_done c) (\<lambda>c. Reexec c ch))"
    using wb b by (auto simp: cb_defs well_behaved_def inv_defs intro!: notify_inv)
  ultimately show ?thesis
    using b(1) unfolding do_headers_almost_done_def up_def go_def Let_def
    by (intro STRICT_CHECK_inv flow_inv_if) simp_all
qed

lemma new_state_inv: "state_inv n (NEW_MESSAGE p) q"
  using NEW_MESSAGE_states [of p]
  by (auto simp: state_inv_def chunk_states_def)

lemma new_message_inv:
  assumes "well_behaved st" "pos c < length data" "p_http_errno (parser c) = HPE_OK" "marks c = 0"
    and k: "\<And>s d. flow_inv data q (k (after_cb s d (new_message c)))"
  shows "flow_inv data q (message_complete st (new_message c) k)"
  unfolding cb_defs
  by (rule notify_inv)
    (use assms new_state_inv [of 0 "parser c" "parser c"] in
      \<open>auto simp: well_behaved_def new_message_def UPDATE_STATE_def Let_def\<close>)

lemma new_message_ctx:
  "pos c < length data \<Longrightarrow> p_http_errno (parser c) = HPE_OK \<Longrightarrow> marks c = 0 \<Longrightarrow>
   ctx_inv n data (new_message c)"
  by (simp add: ctx_inv_def marks_inv_def new_message_def UPDATE_STATE_def new_state_inv marks_def)

lemma do_headers_done_inv:
  assumes wb: "well_behaved st" and c: "ctx_inv 1 data c" and s: "cur_state c = s_headers_done"
  shows "flow_inv data (pos c) (do_headers_done st ch c)"
proof -
  let ?c = "upd (p_nread_update (\<lambda>_. 0)) c"
  have b: "pos c < length data" "header_field_mark c = None" "header_value_mark c = None"
    "url_mark c = None" "body_mark c = None" "status_mark c = None" "p_http_errno (parser c) = HPE_OK"
    using c s by (simp_all add: inv_defs)
  have m: "marks ?c = 0" and b': "pos ?c < length data" "p_http_errno (parser ?c) = HPE_OK"
    using b by (simp_all add: marks_def upd_def)
  note ctx = new_message_ctx [OF b' m]
  have ret: "flow_inv data (pos c) (message_complete st (new_message ?c) (\<lambda>c. RETURN (pos c + 1) c))"
    if "p_upgrade (parser ?c)"
    by (rule new_message_inv [OF wb b' m])
      (use b that ctx [of 0] in \<open>auto simp: new_message_def upd_def UPDATE_STATE_def Let_def ctx_inv_def
          intro!: RETURN_inv\<close>)
  have go: "flow_inv data (pos c) (message_complete st (new_message ?c) Break)"
    by (rule new_message_inv [OF wb b' m])
      (use b ctx [of 0] in \<open>simp add: new_message_def upd_def UPDATE_STATE_def\<close>)
  have st: "flow_inv data (pos c) (Break (UPDATE_STATE s ?c))"
    if "s = s_chunk_size_start \<and> flag_set F_CHUNKED (parser c) \<or>
        s = s_body_identity \<and> p_content_length (parser c) \<noteq> 0 \<and> p_content_length (parser c) \<noteq> ULLONG_MAX \<or>
        s = s_body_identity_eof" for s
    using that b by (auto simp: inv_defs)
  show ?thesis
    using ret go st b
    by (simp add: do_headers_done_def STRICT_CHECK_def Let_def) (simp add: upd_def flag_set_def)
qed

end
