(* ===== verification/HttpExec.thy ===== *)
theory HttpExec imports HttpRun begin

text \<open>
  The invariant through the body and chunk handlers, the switch and the loop: with
  callbacks that leave the parser alone \<open>http_parser_execute\<close> returns, fails no
  assertion, consumes no more than it was given and leaves a parser that satisfies the
  invariant.
\<close>

section \<open>Bodies and chunks\<close>

lemma read_body_length:
  fixes l :: "64 word"
  assumes "k = min (unat l) left"
  shows "l - of_nat k = 0 \<longleftrightarrow> unat l \<le> left"
    and "l \<noteq> ULLONG_MAX \<Longrightarrow> l - of_nat k \<noteq> ULLONG_MAX"
proof -
  have l: "unat l < 2 ^ 64"
    by (rule less_le_trans [OF unsigned_less]) simp
  have u: "unat (l - of_nat k) = unat l - k"
  proof -
    have "unat (of_nat k :: 64 word) = k"
      using assms l by (simp add: unat_of_nat min_less_iff_disj)
    moreover from this have "of_nat k \<le> l"
      using assms by (simp add: word_le_nat_alt)
    ultimately show ?thesis by (simp add: unat_sub)
  qed
  show "l - of_nat k = 0 \<longleftrightarrow> unat l \<le> left"
    using u assms by (auto simp: unat_eq_zero [symmetric])
  show "l - of_nat k \<noteq> ULLONG_MAX" if "l \<noteq> ULLONG_MAX"
  proof
    assume "l - of_nat k = ULLONG_MAX"
    then have "unat l - k = unat ULLONG_MAX" using u by simp
    moreover have "unat l \<le> unat ULLONG_MAX"
      by (metis ULLONG_MAX_def word_le_nat_alt word_n1_ge)
    ultimately have "unat l = unat ULLONG_MAX" by linarith
    with that show False using unsigned_word_eqI by blast
  qed
qed

lemma read_body_simps [simp]:
  "cur_state (read_body data c) = cur_state c"
  "header_field_mark (read_body data c) = header_field_mark c"
  "header_value_mark (read_body data c) = header_value_mark c"
  "url_mark (read_body data c) = url_mark c"
  "status_mark (read_body data c) = status_mark c"
  "p_http_errno (parser (read_body data c)) = p_http_errno (parser c)"
  "p_flags (parser (read_body data c)) = p_flags (parser c)"
  by (simp_all add: read_body_def Let_def upd_def)

lemma read_body_pos:
  assumes "pos c < length data" "p_content_length (parser c) \<noteq> 0"
  shows "pos c \<le> pos (read_body data c) \<and> pos (read_body data c) < length data"
proof -
  have "0 < min (unat (p_content_length (parser c))) (length data - pos c)"
    using assms by (simp add: unat_gt_0)
  moreover have "pos (read_body data c) =
      pos c + min (unat (p_content_length (parser c))) (length data - pos c) - 1"
    by (simp add: read_body_def Let_def)
  ultimately show ?thesis
    using assms(1) by linarith
qed

lemma read_body_content_length:
  "p_content_length (parser c) \<noteq> ULLONG_MAX \<Longrightarrow> p_content_length (parser (read_body data c)) \<noteq> ULLONG_MAX"
  using read_body_length(2) [OF refl] by (simp add: read_body_def Let_def upd_def)

lemma do_body_identity_inv:
  assumes "well_behaved st" "ctx_inv 1 data c" "cur_state c = s_body_identity"
  shows "flow_inv data (pos c) (do_body_identity st data ch c)"
proof -
  let ?r = "read_body data c"
  have l: "p_content_length (parser c) \<noteq> 0" "p_content_length (parser c) \<noteq> ULLONG_MAX"
    using assms by (simp_all add: inv_defs)
  note pos = read_body_pos [OF _ l(1), of data] and len = read_body_content_length [OF l(2), of data]
  have stop: "flow_inv data (pos c) (Break ?r)" if "p_content_length (parser ?r) \<noteq> 0"
    using assms pos len that by (simp add: ctx_inv_def marks_inv_def state_inv_def chunk_states_def body_states_def)
  have stop': "flow_inv data (pos c) (cb_body st data 1 0 (UPDATE_STATE s_message_done ?r) (\<lambda>c. Reexec c ch))"
    unfolding cb_defs
    by (rule data_cb_inv)
      (use assms pos in \<open>auto simp: well_behaved_def inv_defs\<close>)
  show ?thesis
    using l stop stop' by (simp add: do_body_identity_def ASSERT_def Let_def)
qed

lemma do_body_identity_eof_inv:
  "ctx_inv 1 data c \<Longrightarrow> cur_state c = s_body_identity_eof \<Longrightarrow>
   flow_inv data (pos c) (do_body_identity_eof data c)"
  by (auto simp: do_body_identity_eof_def inv_defs)

lemma marks_inv_after_cb [simp]: "marks_inv (after_cb s d c) = marks_inv c"
  by (simp add: marks_inv_def)

lemma do_message_done_inv:
  assumes wb: "well_behaved st" and c: "ctx_inv 1 data c" and s: "cur_state c = s_message_done"
  shows "flow_inv data (pos c) (do_message_done st c)"
  unfolding do_message_done_def
proof (rule new_message_inv [OF wb], goal_cases)
  case 1
  show ?case using c by (simp add: ctx_inv_def)
next
  case 2
  show ?case using c by (simp add: ctx_inv_def)
next
  case 3
  then show m: ?case using c s by (simp add: inv_defs marks_def)
next
  case (4 s' d)
  have m: "marks c = 0"
    using c s by (simp add: inv_defs marks_def)
  have "ctx_inv 0 data (new_message c)"
    by (rule new_message_ctx) (use c m in \<open>simp_all add: ctx_inv_def\<close>)
  then show ?case
    by (auto simp: ctx_inv_def new_message_def UPDATE_STATE_def intro!: RETURN_inv)
qed

lemma unhex_range: "unhex ch \<noteq> -1 \<Longrightarrow> 0 \<le> unhex ch \<and> unhex ch < 16"
proof -
  have "list_all (\<lambda>x. x = -1 \<or> 0 \<le> x \<and> x < 16) unhex_init" "length unhex_init = 128"
    by (simp_all add: unhex_init_def)
  then show "unhex ch \<noteq> -1 \<Longrightarrow> 0 \<le> unhex ch \<and> unhex ch < 16"
    by (auto simp: unhex_def list_all_length)
qed

text \<open>The two overflow checks: the next digit neither wraps nor reaches \<open>ULLONG_MAX\<close>.\<close>

lemma unat_ULLONG_MAX: "unat ULLONG_MAX = 2 ^ 64 - 1"
  by (simp add: ULLONG_MAX_def unsigned_minus_1_eq_mask mask_eq_exp_minus_1)

lemma accumulate_hex:
  fixes l :: "64 word"
  assumes "\<not> (ULLONG_MAX - 16) div 16 < l" "d < 16"
  shows "unat (l * 16 + of_nat d) = unat l * 16 + d" "l * 16 + of_nat d \<noteq> ULLONG_MAX"
proof -
  have "unat l \<le> (2 ^ 64 - 17) div 16"
    using assms(1) by (simp add: ULLONG_MAX_def not_less word_le_nat_alt unat_div_distrib)
  then have b: "unat l * 16 + d < 2 ^ 64 - 1"
    using assms(2) by simp
  show u: "unat (l * 16 + of_nat d) = unat l * 16 + d"
    using b assms(2) by (simp add: unat_word_ariths unat_of_nat)
  show "l * 16 + of_nat d \<noteq> ULLONG_MAX"
    using u b by (metis unat_ULLONG_MAX less_irrefl)
qed

lemma accumulate_dec:
  fixes l :: "64 word"
  assumes "\<not> (ULLONG_MAX - 10) div 10 < l" "d < 10"
  shows "unat (l * 10 + of_nat d) = unat l * 10 + d" "l * 10 + of_nat d \<noteq> ULLONG_MAX"
proof -
  have "unat l \<le> (2 ^ 64 - 11) div 10"
    using assms(1) by (simp add: ULLONG_MAX_def not_less word_le_nat_alt unat_div_distrib)
  then have b: "unat l * 10 + d < 2 ^ 64 - 1"
    using assms(2) by simp
  show u: "unat (l * 10 + of_nat d) = unat l * 10 + d"
    using b assms(2) by (simp add: unat_word_ariths unat_of_nat)
  show "l * 10 + of_nat d \<noteq> ULLONG_MAX"
    using u b by (metis unat_ULLONG_MAX less_irrefl)
qed

lemma do_chunk_size_start_inv:
  assumes "ctx_inv 1 data c" "cur_state c = s_chunk_size_start"
  shows "flow_inv data (pos c) (do_chunk_size_start ch c)"
proof (cases "unhex ch = -1")
  case True
  with assms show ?thesis by (simp add: do_chunk_size_start_def inv_defs)
next
  case False
  then obtain d where d: "unhex ch = int d" "d < 16"
    using unhex_range [of ch] by (metis nat_int nat_less_iff nonneg_int_cases of_nat_numeral)
  then have "(of_nat d :: 64 word) \<noteq> ULLONG_MAX"
    using accumulate_hex(2) [of 0 d] by (simp add: ULLONG_MAX_def)
  with assms d show ?thesis by (simp add: do_chunk_size_start_def inv_defs)
qed

lemma do_chunk_size_inv:
  assumes "ctx_inv 1 data c" "cur_state c = s_chunk_size"
  shows "flow_inv data (pos c) (do_chunk_size ch c)"
proof (cases "ch = CR \<or> unhex ch = -1 \<or> (ULLONG_MAX - 16) div 16 < p_content_length (parser c)")
  case True
  with assms show ?thesis by (auto simp add: do_chunk_size_def inv_defs)
next
  case False
  then obtain d where d: "unhex ch = int d" "d < 16"
    using unhex_range [of ch] by (metis nat_int nat_less_iff nonneg_int_cases of_nat_numeral)
  with False accumulate_hex(2) [of "p_content_length (parser c)" d] assms show ?thesis
    by (simp add: do_chunk_size_def inv_defs)
qed

lemma do_chunk_parameters_inv:
  "ctx_inv 1 data c \<Longrightarrow> cur_state c = s_chunk_parameters \<Longrightarrow>
   flow_inv data (pos c) (do_chunk_parameters ch c)"
  by (simp add: do_chunk_parameters_def inv_defs)

lemma add_flag_keeps: "flag_set f p \<Longrightarrow> flag_set f (add_flag g p)"
  by (simp add: flag_set_def add_flag_def bit.conj_disj_distrib2 or_eq_0_iff)

lemma do_chunk_size_almost_done_inv:
  assumes "well_behaved st" "ctx_inv 1 data c" "cur_state c = s_chunk_size_almost_done"
  shows "flow_inv data (pos c) (do_chunk_size_almost_done st ch c)"
  using assms
  by (auto simp: do_chunk_size_almost_done_def cb_defs well_behaved_def inv_defs add_flag_def
           intro!: notify_inv)

lemma do_chunk_data_inv:
  assumes "ctx_inv 1 data c" "cur_state c = s_chunk_data"
  shows "flow_inv data (pos c) (do_chunk_data data c)"
proof -
  let ?r = "read_body data c"
  have l: "p_content_length (parser c) \<noteq> 0" "p_content_length (parser c) \<noteq> ULLONG_MAX"
    and f: "flag_set F_CHUNKED (parser c)" and f': "flag_set F_CHUNKED (parser ?r)"
    using assms by (simp_all add: inv_defs)
  note pos = read_body_pos [OF _ l(1), of data] and len = read_body_content_length [OF l(2), of data]
  show ?thesis
  proof (cases "p_content_length (parser ?r) = 0")
    case True
    with assms pos f f' l show ?thesis
      by (simp add: do_chunk_data_def inv_defs)
  next
    case False
    with assms pos f f' l len show ?thesis
      by (simp add: do_chunk_data_def inv_defs)
  qed
qed

lemma do_chunk_data_almost_done_inv:
  assumes "well_behaved st" "ctx_inv 1 data c" "cur_state c = s_chunk_data_almost_done"
  shows "flow_inv data (pos c) (do_chunk_data_almost_done st data ch c)"
  using assms
  by (auto simp: do_chunk_data_almost_done_def cb_defs well_behaved_def inv_defs intro!: data_cb_inv)

lemma do_chunk_data_done_inv:
  assumes "well_behaved st" "ctx_inv 1 data c" "cur_state c = s_chunk_data_done"
  shows "flow_inv data (pos c) (do_chunk_data_done st ch c)"
  using assms
  by (auto simp: do_chunk_data_done_def cb_defs well_behaved_def inv_defs intro!: notify_inv)

end
