(* ===== verification/HttpLoop.thy ===== *)
theory HttpLoop imports HttpExec begin

text \<open>
  The switch, the \<open>REEXECUTE()\<close> chain and the loop of \<open>http_parser_execute\<close>: a
  rank on the states bounds the chain, the bytes left bound the loop.
\<close>

section \<open>The switch\<close>

lemma exec_switch_inv:
  assumes "well_behaved st" "ctx_inv 1 data c"
  shows "flow_inv data (pos c) (exec_switch st data ch c)"
proof -
  note wb = assms(1) and c = assms(2)
  note e = expect_inv [OF c]
  have url: "cur_state c \<in> url_states \<Longrightarrow> flow_inv data (pos c) (do_req_url st data ch c)"
    using do_req_url_inv [OF wb c] .
  have ws: "flow_inv data (pos c) (do_header_value_start ch c)" if "cur_state c = s_header_value_start"
    using c that by (intro do_header_value_start_inv) (simp_all add: inv_defs)
  show ?thesis
    by (cases "cur_state c")
      (simp_all add: exec_switch_def wb c e url ws url_states_def chunk_states_def body_states_def
        do_dead_inv do_start_req_or_res_inv do_res_or_resp_H_inv do_start_res_inv
        do_res_first_http_major_inv do_res_http_major_inv do_res_first_http_minor_inv
        do_res_http_minor_inv do_res_first_status_code_inv do_res_status_code_inv
        do_res_status_start_inv do_res_status_inv do_start_req_inv do_req_method_inv
        do_req_spaces_before_url_inv do_req_schema_inv do_req_http_start_inv
        do_req_first_http_major_inv do_req_http_major_inv do_req_first_http_minor_inv
        do_req_http_minor_inv do_req_line_almost_done_inv do_header_field_start_inv
        do_header_field_inv do_header_value_discard_ws_inv do_header_value_discard_lws_inv
        do_header_value_inv do_header_value_lws_inv do_header_almost_done_inv
        do_chunk_size_start_inv do_chunk_size_inv do_chunk_parameters_inv
        do_chunk_size_almost_done_inv do_headers_almost_done_inv do_headers_done_inv
        do_chunk_data_inv do_chunk_data_almost_done_inv do_chunk_data_done_inv
        do_body_identity_inv do_body_identity_eof_inv do_message_done_inv)
qed

section \<open>The chain of re-executions\<close>

definition rank :: "state \<Rightarrow> nat" where
  "rank s = (if s = s_header_value_lws \<or> s = s_header_value_discard_lws then 3
     else if s = s_header_field_start then 2
     else if s \<in> {s_start_req_or_res, s_headers_almost_done, s_header_value, s_body_identity} then 1
     else 0)"

definition drops :: "nat \<Rightarrow> 'd flow \<Rightarrow> bool" where
  "drops r f \<longleftrightarrow> (case f of Reexec c ch \<Rightarrow> rank (cur_state c) < r | _ \<Rightarrow> True)"

lemma drops_simps [simp]:
  "drops r (Break c)" "drops r (Fail c)" "drops r (Return v p)" "drops r Abort"
  "drops r (fail e c)" "drops r (RETURN v c)"
  "drops r (Reexec c ch) \<longleftrightarrow> rank (cur_state c) < r"
  by (simp_all add: drops_def fail_def RETURN_def)

lemma drops_if: "(b \<Longrightarrow> drops r x) \<Longrightarrow> (\<not> b \<Longrightarrow> drops r y) \<Longrightarrow> drops r (if b then x else y)"
  by simp

lemma drops_check: "drops r k \<Longrightarrow> drops r (STRICT_CHECK b c k)" "drops r k \<Longrightarrow> drops r (ASSERT b k)"
  by (simp_all add: STRICT_CHECK_def ASSERT_def)

lemma drops_count: "(\<And>c'. cur_state c' = cur_state c \<Longrightarrow> drops r (k c')) \<Longrightarrow> drops r (COUNT_HEADER_SIZE v c k)"
  by (simp add: COUNT_HEADER_SIZE_def Let_def upd_def)

lemma drops_notify:
  assumes "cb_pure cb" "\<And>c'. cur_state c' = cur_state c \<Longrightarrow> drops r (k c')"
  shows "drops r (CALLBACK_NOTIFY_AT cb e er c k)"
proof (cases cb)
  case None
  then show ?thesis
    using assms(2) [of c] by (simp add: CALLBACK_NOTIFY_AT_def ASSERT_def)
next
  case (Some f)
  obtain n p1 where f: "f ((parser c)\<lparr>p_state := cur_state c\<rparr>) = (n, p1)"
    by fastforce
  obtain e1 d where "p1 = (parser c)\<lparr>p_state := cur_state c, p_http_errno := e1, p_data := d\<rparr>"
    using assms(1) Some f unfolding cb_pure_def by (metis snd_conv)
  then have "p_state p1 = cur_state c" by simp
  then show ?thesis
    using Some f assms(2) by (simp add: CALLBACK_NOTIFY_AT_def ASSERT_def Let_def)
qed

lemma drops_data:
  assumes "data_cb_pure cb" "\<And>c'. cur_state c' = cur_state c \<Longrightarrow> drops r (k c')"
    and "\<And>c. cur_state (clear c) = cur_state c"
  shows "drops r (CALLBACK_DATA_AT data cb e mark clear till er c k)"
proof (cases "mark c = None \<or> cb = None")
  case True
  then show ?thesis
    using assms(2) [of c] assms(2) [of "clear c"] assms(3)
    by (auto simp: CALLBACK_DATA_AT_def ASSERT_def split: option.split)
next
  case False
  then obtain m f where s: "mark c = Some m" "cb = Some f" by auto
  obtain n p1 where f: "f ((parser c)\<lparr>p_state := cur_state c\<rparr>) (take (till - m) (drop m data)) = (n, p1)"
    by fastforce
  obtain e1 d where "p1 = (parser c)\<lparr>p_state := cur_state c, p_http_errno := e1, p_data := d\<rparr>"
    using assms(1) s f unfolding data_cb_pure_def by (metis snd_conv)
  then have "p_state p1 = cur_state c" by simp
  then show ?thesis
    using s f assms(2,3) by (simp add: CALLBACK_DATA_AT_def ASSERT_def Let_def)
qed

lemmas drops_rules = drops_if drops_check drops_count drops_notify drops_data

lemma exec_switch_drops:
  assumes wb: "well_behaved st"
  shows "drops (rank (cur_state c)) (exec_switch st data ch c)"
proof -
  have cb: "cb_pure (on_message_begin st)" "data_cb_pure (on_url st)" "data_cb_pure (on_status st)"
    "data_cb_pure (on_header_field st)" "data_cb_pure (on_header_value st)"
    "data_cb_pure (on_body st)" "cb_pure (on_message_complete st)" "cb_pure (on_chunk_header st)"
    "cb_pure (on_chunk_complete st)"
    using wb by (simp_all add: well_behaved_def)
  have 1: "drops r (do_dead ch c)" "drops r (do_res_or_resp_H ch c)" "drops r (do_start_res st ch c)"
    "drops r (expect x s ch c)" "drops r (add_major ch c)" "drops r (add_minor ch c)"
    "drops r (do_res_first_http_major ch c)" "drops r (do_res_first_http_minor ch c)"
    "drops r (do_res_first_status_code ch c)"
    "drops r (do_res_status_code ch c)" "drops r (do_res_status_start ch c)"
    "drops r (do_res_status st data ch c)" "drops r (url_char ch c)"
    "drops r (do_req_http_start ch c)" "drops r (do_req_first_http_major ch c)"
    "drops r (do_req_first_http_minor ch c)" "drops r (do_req_line_almost_done ch c)"
    for r s x and c :: "'a ctx"
    unfolding do_dead_def do_res_or_resp_H_def do_start_res_def expect_def add_major_def add_minor_def
      do_res_first_http_major_def do_res_first_http_minor_def do_res_first_status_code_def
      do_res_status_code_def do_res_status_start_def do_res_status_def url_char_def
      do_req_http_start_def do_req_first_http_major_def do_req_first_http_minor_def
      do_req_line_almost_done_def cb_defs Let_def
    by (intro drops_rules cb drops_simps; simp)+
  have 2: "drops r (do_res_http_major ch c)" "drops r (do_res_http_minor ch c)"
    "drops r (do_start_req st ch c)" "drops r (do_req_method ch c)"
    "drops r (do_req_spaces_before_url ch c)" "drops r (do_req_schema ch c)"
    "drops r (do_req_url st data ch c)" "drops r (do_req_http_major ch c)"
    "drops r (do_req_http_minor ch c)"
    "drops r (do_header_field st data c)" "drops r (do_header_value_start ch c)"
    "drops r (do_header_almost_done ch c)" "drops r (do_chunk_size_start ch c)"
    "drops r (do_chunk_size ch c)" "drops r (do_chunk_parameters ch c)" "drops r (do_chunk_data data c)"
    for r and c :: "'a ctx"
    by (auto simp: do_res_http_major_def do_res_http_minor_def do_start_req_def do_req_method_def
        do_req_spaces_before_url_def do_req_schema_def do_req_url_def do_req_http_major_def
        do_req_http_minor_def do_header_field_def do_header_value_start_def do_header_almost_done_def
        do_chunk_size_start_def do_chunk_size_def do_chunk_parameters_def do_chunk_data_def
        cb_defs Let_def 1 cb intro!: drops_check drops_count drops_notify drops_data
        split: option.split header_states.split)
  have ws: "drops r (do_header_value_discard_ws ch c)" for r and c :: "'a ctx"
    by (simp add: do_header_value_discard_ws_def 2)
  have 3: "drops r (do_chunk_size_almost_done st ch c)"
    "drops r (do_headers_done st ch c)" "drops r (do_chunk_data_almost_done st data ch c)"
    "drops r (do_chunk_data_done st ch c)" "drops r (do_body_identity_eof data c)"
    "drops r (do_message_done st c)"
    for r and c :: "'a ctx"
    unfolding do_chunk_size_almost_done_def do_headers_done_def do_chunk_data_almost_done_def
      do_chunk_data_done_def do_body_identity_eof_def do_message_done_def cb_defs Let_def
    by (intro drops_rules cb drops_simps; simp)+
  have 4: "drops 1 (do_start_req_or_res st ch c)" "drops 2 (do_header_field_start ch c)"
    "drops 1 (do_header_value st data ch c)" "drops 3 (do_header_value_lws ch c)"
    "drops 3 (do_header_value_discard_lws st data ch c)" "drops 1 (do_body_identity st data ch c)"
    for c :: "'a ctx"
    by (auto simp: do_start_req_or_res_def do_header_field_start_def do_header_value_def
        do_header_value_lws_def do_header_value_discard_lws_def do_body_identity_def
        cb_defs Let_def cb rank_def UPDATE_STATE_def upd_def
        intro!: drops_check drops_count drops_notify drops_data split: hv_end.split)
  have 5: "drops 1 (do_headers_almost_done st ch c)" for c :: "'a ctx"
    by (auto simp: do_headers_almost_done_def cb_defs Let_def cb rank_def UPDATE_STATE_def upd_def
        intro!: drops_check drops_notify split: option.split prod.split)
  show ?thesis
    by (cases "cur_state c")
      (simp_all add: exec_switch_def rank_def 1 2 ws 3 4 5 del: One_nat_def)
qed

section \<open>The loop\<close>

text \<open>The run of a whole byte: it ends, and not with a re-execution.\<close>

lemma flow_inv_mono: "flow_inv data q f \<Longrightarrow> q' \<le> q \<Longrightarrow> flow_inv data q' f"
  by (cases f) simp_all

lemma run_switch_inv:
  assumes wb: "well_behaved st"
  shows "ctx_inv 1 data c \<Longrightarrow> \<exists>f. run_switch st data ch c = Some f \<and> flow_inv data (pos c) f \<and>
    (\<forall>c' ch'. f \<noteq> Reexec c' ch')"
proof (induction "rank (cur_state c)" arbitrary: c ch rule: less_induct)
  case less
  note inv = exec_switch_inv [OF wb less.prems, of ch] and dr = exec_switch_drops [OF wb, of c data ch]
  show ?case
  proof (cases "exec_switch st data ch c")
    case (Reexec c' ch')
    then have "rank (cur_state c') < rank (cur_state c)" "ctx_inv 1 data c'" "pos c \<le> pos c'"
      using inv dr by simp_all
    then obtain f where "run_switch st data ch' c' = Some f" "flow_inv data (pos c') f"
      "\<forall>c' ch'. f \<noteq> Reexec c' ch'"
      using less.hyps by blast
    with Reexec \<open>pos c \<le> pos c'\<close> show ?thesis
      by (subst run_switch.simps) (auto intro: flow_inv_mono)
  qed (use inv in \<open>subst run_switch.simps, simp\<close>)+
qed

definition loop_inv :: "char list \<Rightarrow> 'd ctx \<Rightarrow> bool" where
  "loop_inv data c \<longleftrightarrow> pos c \<le> length data \<and> p_http_errno (parser c) = HPE_OK \<and>
     state_inv 0 (cur_state c) (parser c) \<and> marks_inv c"

lemma loop_inv_ctx: "loop_inv data c \<Longrightarrow> pos c \<noteq> length data \<Longrightarrow> ctx_inv 0 data c"
  by (simp add: loop_inv_def ctx_inv_def)

lemma loop_body_inv:
  assumes wb: "well_behaved st" and c: "ctx_inv 0 data c"
  shows "\<exists>f. loop_body st data c = Some f \<and> flow_inv data (pos c) f \<and> (\<forall>c' ch'. f \<noteq> Reexec c' ch')"
proof (cases "PARSING_HEADER (cur_state c)")
  case True
  let ?c = "upd (\<lambda>p. p\<lparr>p_nread := p_nread p + 1\<rparr>) c"
  have "ctx_inv 1 data ?c"
    using c by (simp add: ctx_inv_def marks_inv_def state_inv_def upd_def flag_set_def)
  then obtain f where "run_switch st data (data ! pos c) ?c = Some f" "flow_inv data (pos ?c) f"
    "\<forall>c' ch'. f \<noteq> Reexec c' ch'"
    using run_switch_inv [OF wb] by blast
  moreover have "pos ?c = pos c" by (simp add: upd_def)
  moreover have "pos c \<le> length data" using c by (simp add: ctx_inv_def)
  ultimately show ?thesis
    using True by (auto simp: loop_body_def COUNT_HEADER_SIZE_def Let_def fail_def SET_ERRNO_def upd_def)
next
  case False
  have "cur_state c \<noteq> s_chunk_size_start"
    using False by (auto simp: PARSING_HEADER_def)
  then have "ctx_inv 1 data c"
    using c by (simp add: ctx_inv_def state_inv_def)
  then show ?thesis
    using run_switch_inv [OF wb, of data c "data ! pos c"] False by (simp add: loop_body_def)
qed

lemma marks_le_1: "marks_inv c \<Longrightarrow> marks c \<le> 1"
  by (cases "cur_state c") (simp_all add: marks_inv_def marks_def url_states_def body_states_def)

lemma leftover_inv:
  assumes wb: "well_behaved st" and c: "loop_inv data c" and p: "pos c = length data"
  shows "flow_inv data q (leftover_callbacks st data c)"
proof -
  have m: "marks c \<le> 1"
    using c marks_le_1 by (auto simp: loop_inv_def)
  have e: "p_http_errno (parser c) = HPE_OK" and s: "state_inv 0 (cur_state c) (parser c)"
    using c by (simp_all add: loop_inv_def)
  have "flow_inv data q (cb_header_field st data 0 c (\<lambda>c. cb_header_value st data 0 c (\<lambda>c. cb_url st data 0 c
       (\<lambda>c. cb_body st data 0 0 c (\<lambda>c. cb_status st data 0 c (\<lambda>c. RETURN (length data) c))))))"
    unfolding cb_defs
    by (intro data_cb_inv RETURN_inv) (use wb e s p in \<open>simp_all add: well_behaved_def\<close>)
  with m show ?thesis
    by (simp add: leftover_callbacks_def ASSERT_def)
qed

lemma error_exit_inv:
  assumes "p_http_errno (parser c) \<notin> {HPE_OK, HPE_PAUSED}" "pos c \<le> length data"
  shows "flow_inv data q (error_exit c)"
  using assms by (simp add: error_exit_def RETURN_def parser_inv_def)

definition result_inv :: "char list \<Rightarrow> 'd flow \<Rightarrow> bool" where
  "result_inv data f \<longleftrightarrow> flow_inv data 0 f \<and> (\<exists>n p. f = Return n p)"

text \<open>A run that only returns or fails an assertion.\<close>

fun quiet :: "'d flow \<Rightarrow> bool" where
  "quiet (Return v p) = True"
| "quiet Abort = True"
| "quiet f = False"

lemma quiet_simps: "quiet (RETURN v c)" "quiet Abort"
  by (simp_all add: RETURN_def)

lemma quiet_ASSERT: "quiet k \<Longrightarrow> quiet (ASSERT b k)"
  by (simp add: ASSERT_def)

lemma quiet_notify: "(\<And>c. quiet (k c)) \<Longrightarrow> quiet (CALLBACK_NOTIFY_AT cb e er c k)"
  by (simp add: CALLBACK_NOTIFY_AT_def ASSERT_def Let_def split: option.split prod.split)

lemma quiet_data: "(\<And>c. quiet (k c)) \<Longrightarrow> quiet (CALLBACK_DATA_AT data cb e mark clear till er c k)"
  by (simp add: CALLBACK_DATA_AT_def ASSERT_def Let_def split: option.split prod.split)

lemma leftover_return:
  assumes wb: "well_behaved st" and c: "loop_inv data c" and p: "pos c = length data"
  shows "\<exists>n p. leftover_callbacks st data c = Return n p"
proof -
  have "quiet (leftover_callbacks st data c)"
    unfolding leftover_callbacks_def cb_defs
    by (intro quiet_data quiet_ASSERT quiet_simps)
  then show ?thesis
    using leftover_inv [OF assms, of 0] by (cases "leftover_callbacks st data c") simp_all
qed

lemma exec_loop_inv:
  assumes wb: "well_behaved st"
  shows "loop_inv data c \<Longrightarrow> \<exists>f. exec_loop st data c = Some f \<and> result_inv data f"
proof (induction "length data - pos c" arbitrary: c rule: less_induct)
  case less
  show ?case
  proof (cases "pos c = length data")
    case True
    then show ?thesis
      using leftover_inv [OF wb less.prems True] leftover_return [OF wb less.prems True]
      by (subst exec_loop.simps) (simp add: result_inv_def)
  next
    case False
    note ctx = loop_inv_ctx [OF less.prems False]
    obtain f where f: "loop_body st data c = Some f" "flow_inv data (pos c) f"
      "\<forall>c' ch'. f \<noteq> Reexec c' ch'"
      using loop_body_inv [OF wb ctx] by blast
    show ?thesis
    proof (cases f)
      case (Break c')
      then have c': "ctx_inv 0 data c'" "pos c \<le> pos c'"
        using f(2) by simp_all
      have "loop_inv data (c'\<lparr>pos := pos c' + 1\<rparr>)"
        using c'(1) by (simp add: loop_inv_def ctx_inv_def marks_inv_def)
      moreover have "length data - pos (c'\<lparr>pos := pos c' + 1\<rparr>) < length data - pos c"
      proof -
        have "pos c' < length data" using c'(1) by (simp add: ctx_inv_def)
        then show ?thesis using c'(2) by (simp add: diff_less_mono2 less_Suc_eq_le)
      qed
      ultimately show ?thesis
        using less.hyps [of "c'\<lparr>pos := pos c' + 1\<rparr>"] f(1) Break False
        by (subst exec_loop.simps) simp
    next
      case (Fail c')
      then show ?thesis
        using f False error_exit_inv [of c' data 0]
        by (subst exec_loop.simps) (simp add: result_inv_def error_exit_def RETURN_def)
    next
      case (Return v p)
      then show ?thesis
        using f False by (subst exec_loop.simps) (simp add: result_inv_def)
    qed (use f in simp_all)
  qed
qed

section \<open>The parser\<close>

lemma init_ctx_inv:
  assumes "data \<noteq> []" "p_http_errno p = HPE_OK" "parser_inv p"
  shows "loop_inv data (init_ctx p)"
  using assms by (simp add: init_ctx_def loop_inv_def parser_inv_def marks_inv_def)

lemma execute_eof_inv:
  assumes "well_behaved st" "p_http_errno p = HPE_OK" "parser_inv p"
  shows "\<exists>n p'. execute_eof st p = Return n p' \<and> parser_inv p' \<and> n \<le> 1"
proof (cases "p_state p = s_body_identity_eof")
  case True
  have s: "state_inv 0 s_body_identity_eof q" for q :: "'a http_parser"
    by (simp add: state_inv_def chunk_states_def)
  show ?thesis
  proof (cases "on_message_complete st")
    case None
    then show ?thesis
      using True assms by (simp add: execute_eof_def cb_defs CALLBACK_NOTIFY_AT_def ASSERT_def init_ctx_def)
  next
    case (Some f)
    obtain r p1 where f: "f p = (r, p1)" by fastforce
    have "p\<lparr>p_state := s_body_identity_eof\<rparr> = p"
      using True by (cases p) simp
    with f have f': "f (p\<lparr>p_state := s_body_identity_eof\<rparr>) = (r, p1)" by metis
    have "cb_pure (Some f)"
      using assms(1) Some by (simp add: well_behaved_def)
    then obtain e1 d where "p1 = p\<lparr>p_http_errno := e1, p_data := d\<rparr>"
      using f unfolding cb_pure_def by (metis snd_conv)
    then have "parser_inv (p1\<lparr>p_http_errno := e\<rparr>)" "parser_inv p1" for e
      using True s by (simp_all add: parser_inv_def)
    then show ?thesis
      using True assms(2) Some f'
      by (simp add: execute_eof_def cb_defs CALLBACK_NOTIFY_AT_def ASSERT_def init_ctx_def Let_def)
  qed
next
  case False
  then show ?thesis
    using assms(3) by (simp add: execute_eof_def parser_inv_def)
qed

lemma execute_inv:
  assumes "well_behaved st" "parser_inv p"
  shows "\<exists>n p'. http_parser_execute p st data = Some (Return n p') \<and> parser_inv p' \<and>
     n \<le> max 1 (length data) \<and>
     (data \<noteq> [] \<and> p_http_errno p = HPE_OK \<and> p_http_errno p' = HPE_OK \<longrightarrow>
        p_upgrade p' \<or> n = length data)"
proof (cases "p_http_errno p = HPE_OK")
  case False
  then show ?thesis using assms(2) by (simp add: http_parser_execute_def)
next
  case True
  show ?thesis
  proof (cases "data = []")
    case nil: True
    then show ?thesis
      using execute_eof_inv [OF assms(1) True assms(2)] True
      by (auto simp: http_parser_execute_def)
  next
    case False
    obtain f where "exec_loop st data (init_ctx p) = Some f" "result_inv data f"
      using exec_loop_inv [OF assms(1) init_ctx_inv [OF False True assms(2)]] by blast
    then show ?thesis
      using True False by (auto simp: http_parser_execute_def result_inv_def)
  qed
qed

lemma http_parser_init_inv: "parser_inv (http_parser_init p t)"
  by (simp add: parser_inv_def http_parser_init_def state_inv_def chunk_states_def)

lemma http_parser_pause_inv:
  "parser_inv p \<Longrightarrow> http_parser_pause p b = Some p' \<Longrightarrow> parser_inv p'"
  by (auto simp: parser_inv_def http_parser_pause_def split: if_splits)

end
