(* ===== verification/HttpBounds.thy ===== *)
theory HttpBounds imports HttpLoop begin

text \<open>
  The numbers the parser keeps stay in bounds: the header byte count at most
  \<open>HTTP_MAX_HEADER_SIZE\<close>, the version numbers and the status code at most 999. Then the
  calls a program may make on a parser, as a transition system with these bounds and the
  invariant of the handlers.
\<close>

section \<open>Bounds\<close>

definition bounded :: "'d http_parser \<Rightarrow> bool" where
  "bounded p \<longleftrightarrow> p_nread p \<le> HTTP_MAX_HEADER_SIZE \<and> p_http_major p \<le> 999 \<and>
     p_http_minor p \<le> 999 \<and> p_status_code p \<le> 999"

definition live_bounded :: "'d http_parser \<Rightarrow> bool" where
  "live_bounded p \<longleftrightarrow> (p_http_errno p \<in> {HPE_OK, HPE_PAUSED} \<longrightarrow> bounded p)"

definition keeps :: "'d flow \<Rightarrow> bool" where
  "keeps f \<longleftrightarrow>
    (case f of
       Break c \<Rightarrow> bounded (parser c)
     | Reexec c ch \<Rightarrow> bounded (parser c)
     | Fail c \<Rightarrow> p_http_errno (parser c) \<notin> {HPE_OK, HPE_PAUSED}
     | Return v p \<Rightarrow> live_bounded p
     | Abort \<Rightarrow> True)"

lemma keeps_simps [simp]:
  "keeps (Break c) \<longleftrightarrow> bounded (parser c)"
  "keeps (Reexec c ch) \<longleftrightarrow> bounded (parser c)"
  "keeps (Fail c) \<longleftrightarrow> p_http_errno (parser c) \<notin> {HPE_OK, HPE_PAUSED}"
  "keeps (Return v p) \<longleftrightarrow> live_bounded p"
  "keeps Abort"
  "keeps (fail e c) \<longleftrightarrow> e \<notin> {HPE_OK, HPE_PAUSED}"
  by (simp_all add: keeps_def fail_def SET_ERRNO_def upd_def)

lemma bounded_frame [simp]:
  "bounded (p\<lparr>p_state := s\<rparr>) = bounded p"
  "bounded (p\<lparr>p_data := d\<rparr>) = bounded p"
  "bounded (p\<lparr>p_http_errno := e\<rparr>) = bounded p"
  "bounded (p\<lparr>p_upgrade := u\<rparr>) = bounded p"
  "bounded (p\<lparr>p_type := t\<rparr>) = bounded p"
  "bounded (p\<lparr>p_flags := f\<rparr>) = bounded p"
  "bounded (p\<lparr>p_header_state := h\<rparr>) = bounded p"
  "bounded (p\<lparr>p_index := i\<rparr>) = bounded p"
  "bounded (p\<lparr>p_content_length := l\<rparr>) = bounded p"
  "bounded (p\<lparr>p_method := m\<rparr>) = bounded p"
  by (simp_all add: bounded_def)

lemma bounded_reset [simp]:
  "bounded (reset_message p) = bounded p"
  "bounded (add_flag f p) = bounded p"
  "bounded (set_hs h p) = bounded p"
  "bounded (finish_header p) = bounded p"
  "bounded p \<Longrightarrow> bounded (p\<lparr>p_nread := 0\<rparr>)"
  "bounded p \<Longrightarrow> bounded (p\<lparr>p_http_major := 0, p_http_minor := 9\<rparr>)"
  by (simp_all add: reset_message_def add_flag_def set_hs_def finish_header_def connection_flag_def)
    (simp_all add: bounded_def)

lemma bounded_live: "bounded p \<Longrightarrow> live_bounded p"
  by (simp add: live_bounded_def)

lemma keeps_check:
  "(\<not> b \<Longrightarrow> keeps k) \<Longrightarrow> keeps (STRICT_CHECK b c k)" "keeps k \<Longrightarrow> keeps (ASSERT b k)"
  by (simp_all add: STRICT_CHECK_def ASSERT_def)

lemma keeps_if: "(b \<Longrightarrow> keeps x) \<Longrightarrow> (\<not> b \<Longrightarrow> keeps y) \<Longrightarrow> keeps (if b then x else y)"
  by simp

lemma keeps_RETURN: "bounded (parser c) \<or> p_http_errno (parser c) \<notin> {HPE_OK, HPE_PAUSED} \<Longrightarrow> keeps (RETURN v c)"
  by (auto simp: RETURN_def live_bounded_def)

lemma keeps_count:
  assumes "bounded (parser c)" "\<And>c'. bounded (parser c') \<Longrightarrow> keeps (k c')"
  shows "keeps (COUNT_HEADER_SIZE v c k)"
  using assms by (simp add: COUNT_HEADER_SIZE_def Let_def upd_def bounded_def)

lemma keeps_notify:
  assumes "cb_pure cb" "bounded (parser c)" "\<And>c'. bounded (parser c') \<Longrightarrow> keeps (k c')"
  shows "keeps (CALLBACK_NOTIFY_AT cb e er c k)"
proof (cases cb)
  case None
  then show ?thesis
    using assms(2,3) by (simp add: CALLBACK_NOTIFY_AT_def ASSERT_def)
next
  case (Some f)
  obtain n p1 where f: "f ((parser c)\<lparr>p_state := cur_state c\<rparr>) = (n, p1)"
    by fastforce
  obtain e1 d where "p1 = (parser c)\<lparr>p_state := cur_state c, p_http_errno := e1, p_data := d\<rparr>"
    using assms(1) Some f unfolding cb_pure_def by (metis snd_conv)
  then have "bounded p1" using assms(2) by simp
  then show ?thesis
    using Some f assms(3) by (simp add: CALLBACK_NOTIFY_AT_def ASSERT_def Let_def bounded_live)
qed

lemma keeps_data:
  assumes "data_cb_pure cb" "bounded (parser c)" "\<And>c'. bounded (parser c') \<Longrightarrow> keeps (k c')"
    and "\<And>c. parser (clear c) = parser c"
  shows "keeps (CALLBACK_DATA_AT data cb e mark clear till er c k)"
proof (cases "mark c = None \<or> cb = None")
  case True
  then show ?thesis
    using assms(2-4) by (auto simp: CALLBACK_DATA_AT_def ASSERT_def split: option.split)
next
  case False
  then obtain m f where s: "mark c = Some m" "cb = Some f" by auto
  obtain n p1 where f: "f ((parser c)\<lparr>p_state := cur_state c\<rparr>) (take (till - m) (drop m data)) = (n, p1)"
    by fastforce
  obtain e1 d where "p1 = (parser c)\<lparr>p_state := cur_state c, p_http_errno := e1, p_data := d\<rparr>"
    using assms(1) s f unfolding data_cb_pure_def by (metis snd_conv)
  then have "bounded p1" using assms(2) by simp
  then show ?thesis
    using s f assms(3,4) by (simp add: CALLBACK_DATA_AT_def ASSERT_def Let_def bounded_live)
qed

lemma unat_digit16: "unat (digit16 ch) = uc ch - 48"
proof -
  have "uc ch - 48 < 256" by (rule le_less_trans [OF diff_le_self uc_less_256])
  then have "uc ch - 48 < 2 ^ 16" by simp
  then show "unat (digit16 ch) = uc ch - 48"
    by (simp add: digit16_def unat_of_nat del: of_nat_diff)
qed

lemma digit16_bound: "digit16 ch \<le> 999"
  using le_less_trans [OF diff_le_self uc_less_256, of ch 48]
  by (simp add: word_le_nat_alt unat_digit16)

lemma bounded_digit:
  "bounded p \<Longrightarrow> bounded (p\<lparr>p_http_major := digit16 ch\<rparr>)"
  "bounded p \<Longrightarrow> bounded (p\<lparr>p_http_minor := digit16 ch\<rparr>)"
  "bounded p \<Longrightarrow> bounded (p\<lparr>p_status_code := digit16 ch\<rparr>)"
  "bounded p \<Longrightarrow> \<not> w > 999 \<Longrightarrow> bounded (p\<lparr>p_http_major := w\<rparr>)"
  "bounded p \<Longrightarrow> \<not> w > 999 \<Longrightarrow> bounded (p\<lparr>p_http_minor := w\<rparr>)"
  "bounded p \<Longrightarrow> \<not> w > 999 \<Longrightarrow> bounded (p\<lparr>p_status_code := w\<rparr>)"
  using digit16_bound by (simp_all add: bounded_def)

lemmas keeps_rules = keeps_if keeps_check keeps_count keeps_notify keeps_data keeps_RETURN

lemma header_field_loop_bounded:
  assumes "p_header_state p \<in> field_hs" "bounded p" "header_field_loop cs p = Some (n, q)"
  shows "bounded q"
  using header_field_loop_inv [OF assms(1), of cs] assms(2,3) by (auto simp: field_frame_def)

lemma header_value_loop_bounded:
  assumes "value_hs (p_header_state p)" "bounded p"
    and "header_value_loop 0 cs (p_header_state p) p \<in> {Hv_cr n h q, Hv_lf n h q, Hv_more n h q}"
  shows "bounded q"
  using header_value_loop_inv [OF assms(1), of 0 cs p] assms(2,3) by (auto simp: value_frame_def)

lemma exec_switch_keeps:
  assumes wb: "well_behaved st" and c: "ctx_inv 1 data c" and b: "bounded (parser c)"
  shows "keeps (exec_switch st data ch c)"
proof -
  have cb: "cb_pure (on_message_begin st)" "data_cb_pure (on_url st)" "data_cb_pure (on_status st)"
    "data_cb_pure (on_header_field st)" "data_cb_pure (on_header_value st)"
    "data_cb_pure (on_body st)" "cb_pure (on_message_complete st)" "cb_pure (on_chunk_header st)"
    "cb_pure (on_chunk_complete st)" "cb_pure (on_headers_complete st)"
    using wb by (simp_all add: well_behaved_def)
  have 1: "keeps (do_dead ch c)" "keeps (do_res_or_resp_H ch c)" "keeps (do_start_res st ch c)"
    "keeps (expect x s ch c)" "keeps (add_major ch c)" "keeps (add_minor ch c)"
    "keeps (do_res_first_http_major ch c)" "keeps (do_res_first_http_minor ch c)"
    "keeps (do_res_first_status_code ch c)"
    "keeps (do_res_status_code ch c)" "keeps (do_res_status_start ch c)"
    "keeps (do_res_status st data ch c)" "keeps (url_char ch c)"
    "keeps (do_req_http_start ch c)" "keeps (do_req_first_http_major ch c)"
    "keeps (do_req_first_http_minor ch c)" "keeps (do_req_line_almost_done ch c)"
    "keeps (do_start_req_or_res st ch c)"
    if b: "bounded (parser c)" for s x and c :: "'a ctx"
    unfolding do_dead_def do_res_or_resp_H_def do_start_res_def expect_def add_major_def add_minor_def
      do_res_first_http_major_def do_res_first_http_minor_def do_res_first_status_code_def
      do_res_status_code_def do_res_status_start_def do_res_status_def url_char_def
      do_req_http_start_def do_req_first_http_major_def do_req_first_http_minor_def
      do_req_line_almost_done_def do_start_req_or_res_def cb_defs Let_def
    by ((intro keeps_rules cb)?; use b in
        \<open>simp add: upd_def UPDATE_STATE_def bounded_digit\<close>)+
  have 2: "keeps (do_res_http_major ch c)" "keeps (do_res_http_minor ch c)"
    "keeps (do_start_req st ch c)" "keeps (do_req_method ch c)"
    "keeps (do_req_spaces_before_url ch c)" "keeps (do_req_schema ch c)"
    "keeps (do_req_url st data ch c)" "keeps (do_req_http_major ch c)"
    "keeps (do_req_http_minor ch c)" "keeps (do_header_value_start ch c)"
    "keeps (do_header_almost_done ch c)" "keeps (do_chunk_size_start ch c)"
    "keeps (do_chunk_size ch c)" "keeps (do_chunk_parameters ch c)" "keeps (do_chunk_data data c)"
    "keeps (do_header_field_start ch c)" "keeps (do_header_value_lws ch c)"
    if b: "bounded (parser c)" for c :: "'a ctx"
    using b
    by (auto simp: do_res_http_major_def do_res_http_minor_def do_start_req_def do_req_method_def
        do_req_spaces_before_url_def do_req_schema_def do_req_url_def do_req_http_major_def
        do_req_http_minor_def do_header_value_start_def do_header_almost_done_def
        do_chunk_size_start_def do_chunk_size_def do_chunk_parameters_def do_chunk_data_def
        do_header_field_start_def do_header_value_lws_def read_body_def
        cb_defs Let_def 1 cb upd_def UPDATE_STATE_def intro!: keeps_check keeps_count keeps_notify keeps_data
        split: option.split header_states.split)
  have 3: "keeps (do_chunk_size_almost_done st ch c)"
    "keeps (do_headers_done st ch c)" "keeps (do_chunk_data_almost_done st data ch c)"
    "keeps (do_chunk_data_done st ch c)" "keeps (do_body_identity_eof data c)"
    "keeps (do_message_done st c)" "keeps (do_body_identity st data ch c)"
    "keeps (do_header_value_discard_ws ch c)" "keeps (do_header_value_discard_lws st data ch c)"
    if b: "bounded (parser c)" for c :: "'a ctx"
    unfolding do_chunk_size_almost_done_def do_headers_done_def do_chunk_data_almost_done_def
      do_chunk_data_done_def do_body_identity_eof_def do_message_done_def do_body_identity_def
      do_header_value_discard_ws_def do_header_value_discard_lws_def cb_defs Let_def
    by ((intro keeps_rules cb)?; use b in
        \<open>simp add: upd_def UPDATE_STATE_def new_message_def read_body_def Let_def 2\<close>)+
  have 4: "keeps (do_headers_almost_done st ch c)"
    if b: "bounded (parser c)" for c :: "'a ctx"
  proof -
    have f: "bounded (snd (f p))" if "on_headers_complete st = Some f" "bounded p" for f p
      using cb(10) that unfolding cb_pure_def by (metis bounded_frame(2,3))
    have go: "keeps (if p_http_errno (parser c) \<noteq> HPE_OK then RETURN (pos c) c else Reexec c ch)"
      if "bounded (parser c)" for c :: "'a ctx"
      using that by (simp add: keeps_RETURN)
    have "keeps (case on_headers_complete st of
         None \<Rightarrow> if p_http_errno (parser c) \<noteq> HPE_OK then RETURN (pos c) c else Reexec c ch
       | Some f \<Rightarrow> case f (parser c) of (r, p) \<Rightarrow>
           if r = 0 then if p_http_errno (parser (c\<lparr>parser := p\<rparr>)) \<noteq> HPE_OK
             then RETURN (pos (c\<lparr>parser := p\<rparr>)) (c\<lparr>parser := p\<rparr>) else Reexec (c\<lparr>parser := p\<rparr>) ch
           else if r = 1 then
             if p_http_errno (parser (upd (add_flag F_SKIPBODY) (c\<lparr>parser := p\<rparr>))) \<noteq> HPE_OK
             then RETURN (pos (upd (add_flag F_SKIPBODY) (c\<lparr>parser := p\<rparr>)))
                    (upd (add_flag F_SKIPBODY) (c\<lparr>parser := p\<rparr>))
             else Reexec (upd (add_flag F_SKIPBODY) (c\<lparr>parser := p\<rparr>)) ch
           else RETURN (pos (c\<lparr>parser := p\<rparr>)) (SET_ERRNO HPE_CB_headers_complete (c\<lparr>parser := p\<rparr>)))"
      if b: "bounded (parser c)" for c :: "'a ctx"
    proof (cases "on_headers_complete st")
      case None
      then show ?thesis using go [OF b] by simp
    next
      case (Some g)
      obtain r p where "g (parser c) = (r, p)" by fastforce
      with f [OF Some b] have p: "bounded p" "g (parser c) = (r, p)" by simp_all
      then show ?thesis
        unfolding Some option.case p(2) prod.case
        by (intro keeps_if) (simp_all add: keeps_RETURN upd_def SET_ERRNO_def)
    qed
    note hc = this
    show ?thesis
      unfolding do_headers_almost_done_def cb_defs Let_def
      by (intro keeps_check keeps_if keeps_notify cb hc)
        (use b in \<open>simp_all add: upd_def UPDATE_STATE_def\<close>)
  qed
  have 5: "keeps (do_header_field st data c)" if "cur_state c = s_header_field"
    using that c b header_field_loop_bounded [of "parser c" "drop (pos c) data"]
    by (auto simp: do_header_field_def ctx_inv_def state_inv_def cb_defs cb UPDATE_STATE_def
        split: option.split intro!: keeps_count keeps_data)
  have 6: "keeps (do_header_value st data ch c)" if "cur_state c = s_header_value"
    using that c b header_value_loop_bounded [of "parser c" "drop (pos c) data"]
    by (auto simp: do_header_value_def ctx_inv_def state_inv_def cb_defs cb UPDATE_STATE_def upd_def
        split: hv_end.split intro!: keeps_count keeps_data)
  show ?thesis
    using b by (cases "cur_state c") (simp_all add: exec_switch_def 1 2 3 4 5 6)
qed

section \<open>The loop\<close>

lemma run_switch_keeps:
  assumes wb: "well_behaved st"
  shows "ctx_inv 1 data c \<Longrightarrow> bounded (parser c) \<Longrightarrow> run_switch st data ch c = Some f \<Longrightarrow> keeps f"
proof (induction "rank (cur_state c)" arbitrary: c ch rule: less_induct)
  case less
  note k = exec_switch_keeps [OF wb less.prems(1,2), of ch]
    and inv = exec_switch_inv [OF wb less.prems(1), of ch] and dr = exec_switch_drops [OF wb, of c data ch]
  show ?case
  proof (cases "exec_switch st data ch c")
    case (Reexec c' ch')
    then have "run_switch st data ch' c' = Some f"
      using less.prems(3) by (subst (asm) run_switch.simps) simp
    then show ?thesis
      using less.hyps [of c' ch'] k inv dr Reexec by simp
  qed (use k less.prems(3) in \<open>subst (asm) run_switch.simps, auto\<close>)+
qed

lemma loop_body_keeps:
  assumes wb: "well_behaved st" and c: "ctx_inv 0 data c" and b: "bounded (parser c)"
    and f: "loop_body st data c = Some f"
  shows "keeps f"
proof (cases "PARSING_HEADER (cur_state c)")
  case True
  let ?c = "upd (\<lambda>p. p\<lparr>p_nread := p_nread p + 1\<rparr>) c"
  show ?thesis
  proof (cases "p_nread (parser ?c) > HTTP_MAX_HEADER_SIZE")
    case False
    have "ctx_inv 1 data ?c" "bounded (parser ?c)"
      using c b False by (simp_all add: ctx_inv_def marks_inv_def state_inv_def upd_def flag_set_def bounded_def)
    moreover have "run_switch st data (data ! pos c) ?c = Some f"
      using f True False by (simp add: loop_body_def COUNT_HEADER_SIZE_def Let_def upd_def)
    ultimately show ?thesis using run_switch_keeps [OF wb] by blast
  next
    case over: True
    then show ?thesis
      using f True by (auto simp: loop_body_def COUNT_HEADER_SIZE_def Let_def fail_def SET_ERRNO_def upd_def)
  qed
next
  case False
  have "cur_state c \<noteq> s_chunk_size_start"
    using False by (auto simp: PARSING_HEADER_def)
  then have "ctx_inv 1 data c"
    using c by (simp add: ctx_inv_def state_inv_def)
  then show ?thesis
    using run_switch_keeps [OF wb, of data c "data ! pos c"] b f False by (simp add: loop_body_def)
qed

lemma leftover_keeps:
  assumes wb: "well_behaved st" and b: "bounded (parser c)"
  shows "keeps (leftover_callbacks st data c)"
  unfolding leftover_callbacks_def cb_defs
  by (intro keeps_check keeps_data keeps_RETURN) (use wb b in \<open>simp_all add: well_behaved_def\<close>)

lemma exec_loop_keeps:
  assumes wb: "well_behaved st"
  shows "loop_inv data c \<Longrightarrow> bounded (parser c) \<Longrightarrow> exec_loop st data c = Some (Return n p) \<Longrightarrow> live_bounded p"
proof (induction "length data - pos c" arbitrary: c rule: less_induct)
  case less
  show ?case
  proof (cases "pos c = length data")
    case True
    then show ?thesis
      using leftover_keeps [OF wb less.prems(2), of data] less.prems(3)
      by (subst (asm) exec_loop.simps) simp
  next
    case False
    note ctx = loop_inv_ctx [OF less.prems(1) False]
    obtain f where f: "loop_body st data c = Some f" "flow_inv data (pos c) f"
      using loop_body_inv [OF wb ctx] by blast
    note k = loop_body_keeps [OF wb ctx less.prems(2) f(1)]
    show ?thesis
    proof (cases f)
      case (Break c')
      then have c': "ctx_inv 0 data c'" "pos c \<le> pos c'"
        using f(2) by simp_all
      have "loop_inv data (c'\<lparr>pos := pos c' + 1\<rparr>)" "pos c' < length data"
        using c'(1) by (simp_all add: loop_inv_def ctx_inv_def marks_inv_def)
      moreover have "exec_loop st data (c'\<lparr>pos := pos c' + 1\<rparr>) = Some (Return n p)"
        using less.prems(3) f(1) Break False by (subst (asm) exec_loop.simps) simp
      ultimately show ?thesis
        using less.hyps [of "c'\<lparr>pos := pos c' + 1\<rparr>"] k Break c'(2)
        by (simp add: diff_less_mono2 less_Suc_eq_le)
    next
      case (Fail c')
      then show ?thesis
        using k less.prems(3) f(1) False
        by (subst (asm) exec_loop.simps) (auto simp: error_exit_def RETURN_def live_bounded_def)
    qed (use k less.prems(3) f(1) False in \<open>subst (asm) exec_loop.simps, simp\<close>)+
  qed
qed

lemma execute_keeps:
  assumes wb: "well_behaved st" and p: "parser_inv p" "live_bounded p"
    and r: "http_parser_execute p st data = Some (Return n p')"
  shows "live_bounded p'"
proof (cases "p_http_errno p = HPE_OK")
  case False
  then show ?thesis using r p by (simp add: http_parser_execute_def)
next
  case True
  then have b: "bounded p" using p(2) by (simp add: live_bounded_def)
  show ?thesis
  proof (cases "data = []")
    case nil: True
    have "keeps (execute_eof st p)"
      unfolding execute_eof_def cb_defs
      by (intro keeps_if keeps_notify)
        (use wb b in \<open>simp_all add: well_behaved_def init_ctx_def bounded_live live_bounded_def\<close>)
    then show ?thesis using r True nil by (simp add: http_parser_execute_def)
  next
    case False
    then show ?thesis
      using exec_loop_keeps [OF wb init_ctx_inv [OF False True p(1)]] b r True
      by (simp add: http_parser_execute_def init_ctx_def)
  qed
qed

section \<open>The calls on a parser\<close>

text \<open>
  One call on a parser: bytes or the end of the stream with callbacks that leave the
  parser alone, a pause or its end, or a new initialisation.
\<close>

inductive parser_step :: "'d http_parser \<Rightarrow> 'd http_parser \<Rightarrow> bool" where
  step_execute: "well_behaved st \<Longrightarrow> http_parser_execute p st data = Some (Return n p') \<Longrightarrow> parser_step p p'"
| step_pause: "http_parser_pause p paused = Some p' \<Longrightarrow> parser_step p p'"
| step_init: "parser_step p (http_parser_init p t)"

inductive_cases parser_step_cases: "parser_step p p'"

definition fresh :: "'d http_parser \<Rightarrow> bool" where
  "fresh p \<longleftrightarrow> (\<exists>q t. p = http_parser_init q t)"

definition good :: "'d http_parser \<Rightarrow> bool" where
  "good p \<longleftrightarrow> parser_inv p \<and> live_bounded p"

lemma good_init: "good (http_parser_init p t)"
  by (simp add: good_def http_parser_init_inv live_bounded_def bounded_def)
    (simp add: http_parser_init_def)

lemma good_step: "good p \<Longrightarrow> parser_step p p' \<Longrightarrow> good p'"
proof (erule parser_step_cases)
  fix st data n
  assume "good p" "well_behaved st" "http_parser_execute p st data = Some (Return n p')"
  then show "good p'"
    using execute_inv [of st p data] execute_keeps [of st p data n p'] by (auto simp: good_def)
next
  fix paused
  assume "good p" "http_parser_pause p paused = Some p'"
  then show "good p'"
    using http_parser_pause_inv [of p paused p']
    by (auto simp: good_def http_parser_pause_def live_bounded_def split: if_splits)
qed (simp add: good_init)

interpretation http: invariant_system fresh parser_step good
  by unfold_locales (auto simp: fresh_def good_init good_step)

end
