(* ===== verification/HttpLog.thy ===== *)
theory HttpLog imports HttpBounds begin

text \<open>
  How the loop goes on: \<open>goes st data c c'\<close> says that the loop at the locals \<open>c\<close>
  does what it does at the locals \<open>c'\<close>, whatever the header byte count, as long as
  the bytes between them fit the limit. With it, callbacks that log what they are given.
\<close>

section \<open>Callbacks that log\<close>

datatype event =
    Message_begin
  | Url string
  | Status string
  | Header_field string
  | Header_value string
  | Headers_complete
  | Body string
  | Message_complete
  | Chunk_header "64 word"
  | Chunk_complete

definition log_event :: "event \<Rightarrow> event list http_parser \<Rightarrow> int \<times> event list http_parser" where
  "log_event e p = (0, p\<lparr>p_data := p_data p @ [e]\<rparr>)"

definition log_settings :: "event list http_parser_settings" where
  "log_settings =
    \<lparr>on_message_begin = Some (log_event Message_begin),
     on_url = Some (\<lambda>p s. log_event (Url s) p),
     on_status = Some (\<lambda>p s. log_event (Status s) p),
     on_header_field = Some (\<lambda>p s. log_event (Header_field s) p),
     on_header_value = Some (\<lambda>p s. log_event (Header_value s) p),
     on_headers_complete = Some (log_event Headers_complete),
     on_body = Some (\<lambda>p s. log_event (Body s) p),
     on_message_complete = Some (log_event Message_complete),
     on_chunk_header = Some (\<lambda>p. log_event (Chunk_header (p_content_length p)) p),
     on_chunk_complete = Some (log_event Chunk_complete)\<rparr>"

lemma log_settings_simps [simp]:
  "on_message_begin log_settings = Some (log_event Message_begin)"
  "on_url log_settings = Some (\<lambda>p s. log_event (Url s) p)"
  "on_status log_settings = Some (\<lambda>p s. log_event (Status s) p)"
  "on_header_field log_settings = Some (\<lambda>p s. log_event (Header_field s) p)"
  "on_header_value log_settings = Some (\<lambda>p s. log_event (Header_value s) p)"
  "on_headers_complete log_settings = Some (log_event Headers_complete)"
  "on_body log_settings = Some (\<lambda>p s. log_event (Body s) p)"
  "on_message_complete log_settings = Some (log_event Message_complete)"
  "on_chunk_header log_settings = Some (\<lambda>p. log_event (Chunk_header (p_content_length p)) p)"
  "on_chunk_complete log_settings = Some (log_event Chunk_complete)"
  by (simp_all add: log_settings_def)

lemma log_settings_well_behaved: "well_behaved log_settings"
proof -
  have "\<exists>e' d. snd (log_event e p) = p\<lparr>p_http_errno := e', p_data := d\<rparr>" for e p
    by (rule exI [of _ "p_http_errno p"], rule exI [of _ "p_data p @ [e]"])
      (cases p, simp add: log_event_def)
  then show ?thesis
    by (simp add: well_behaved_def cb_pure_def data_cb_pure_def)
qed

section \<open>The step of one byte\<close>

definition set_nread :: "32 word \<Rightarrow> 'd ctx \<Rightarrow> 'd ctx" where
  "set_nread n c = c\<lparr>parser := (parser c)\<lparr>p_nread := n\<rparr>\<rparr>"

lemma set_nread_simps [simp]:
  "cur_state (set_nread n c) = cur_state c"
  "pos (set_nread n c) = pos c"
  "header_field_mark (set_nread n c) = header_field_mark c"
  "header_value_mark (set_nread n c) = header_value_mark c"
  "url_mark (set_nread n c) = url_mark c"
  "body_mark (set_nread n c) = body_mark c"
  "status_mark (set_nread n c) = status_mark c"
  "parser (set_nread n c) = (parser c)\<lparr>p_nread := n\<rparr>"
  "set_nread n (set_nread m c) = set_nread n c"
  by (simp_all add: set_nread_def)

lemma set_nread_pos: "(set_nread n c)\<lparr>pos := k\<rparr> = set_nread n (c\<lparr>pos := k\<rparr>)"
  by (simp add: set_nread_def)

lemma set_nread_same: "set_nread (p_nread (parser c)) c = c"
  by (simp add: set_nread_def)

definition header_limit :: nat where
  "header_limit = unat HTTP_MAX_HEADER_SIZE"

lemma header_limit_eq: "header_limit = 81920"
  by (simp add: header_limit_def HTTP_MAX_HEADER_SIZE_def)

definition goes :: "'d http_parser_settings \<Rightarrow> char list \<Rightarrow> 'd ctx \<Rightarrow> 'd ctx \<Rightarrow> bool" where
  "goes st data c c' \<longleftrightarrow> pos c \<le> pos c' \<and>
     (\<forall>n. unat n + (pos c' - pos c) \<le> header_limit \<longrightarrow>
       (\<exists>n'. unat n' \<le> unat n + (pos c' - pos c) \<and>
         exec_loop st data (set_nread n c) = exec_loop st data (set_nread n' c')))"

lemma goes_refl: "goes st data c c"
  by (auto simp: goes_def)

lemma goes_trans [trans]:
  assumes "goes st data c c1" "goes st data c1 c2"
  shows "goes st data c c2"
proof -
  have pos: "pos c \<le> pos c1" "pos c1 \<le> pos c2"
    using assms by (simp_all add: goes_def)
  have "\<exists>n'. unat n' \<le> unat n + (pos c2 - pos c) \<and>
      exec_loop st data (set_nread n c) = exec_loop st data (set_nread n' c2)"
    if n: "unat n + (pos c2 - pos c) \<le> header_limit" for n
  proof -
    have "unat n + (pos c1 - pos c) \<le> header_limit" using n pos by linarith
    then obtain n1 where n1: "unat n1 \<le> unat n + (pos c1 - pos c)"
      "exec_loop st data (set_nread n c) = exec_loop st data (set_nread n1 c1)"
      using assms(1) by (auto simp: goes_def)
    then have "unat n1 + (pos c2 - pos c1) \<le> header_limit" using n pos by linarith
    then obtain n2 where "unat n2 \<le> unat n1 + (pos c2 - pos c1)"
      "exec_loop st data (set_nread n1 c1) = exec_loop st data (set_nread n2 c2)"
      using assms(2) by (auto simp: goes_def)
    with n1 pos show ?thesis by (intro exI [of _ n2]) simp
  qed
  with pos show ?thesis by (auto simp: goes_def)
qed

lemma unat_plus_small:
  fixes n :: "32 word"
  assumes "unat n + k \<le> header_limit"
  shows "unat (n + of_nat k) = unat n + k"
proof -
  have "unat n + k < 2 ^ 32"
    using assms by (simp add: header_limit_eq)
  then show ?thesis
    by (simp add: unat_word_ariths unat_of_nat)
qed

lemma nread_ok: "unat n + k \<le> header_limit \<Longrightarrow> \<not> n + of_nat k > HTTP_MAX_HEADER_SIZE"
  using unat_plus_small [of n k] by (simp add: header_limit_def word_less_nat_alt not_less)

lemma loop_unfold:
  assumes "pos c < length data" "loop_body st data c = Some (Break c')"
  shows "exec_loop st data c = exec_loop st data (c'\<lparr>pos := pos c' + 1\<rparr>)"
  using assms by (subst exec_loop.simps) simp

text \<open>One byte whose handler breaks, and counts no more bytes than it moves over.\<close>

lemma goes_count:
  assumes k: "pos c < length data" "pos c \<le> pos c'"
    and e: "\<And>n. unat n + (pos c' - pos c) \<le> header_limit \<Longrightarrow>
      \<exists>n'. unat n' \<le> unat n + (pos c' - pos c) \<and>
        run_switch st data (data ! pos c) (set_nread n c) = Some (Break (set_nread n' c'))"
  shows "goes st data c (c'\<lparr>pos := pos c' + 1\<rparr>)"
  unfolding goes_def
proof (intro conjI allI impI)
  show "pos c \<le> pos (c'\<lparr>pos := pos c' + 1\<rparr>)" using k(2) by simp
  fix n :: "32 word"
  assume n: "unat n + (pos (c'\<lparr>pos := pos c' + 1\<rparr>) - pos c) \<le> header_limit"
  define m where "m = (if PARSING_HEADER (cur_state c) then n + 1 else n)"
  have n1: "unat n + 1 \<le> header_limit" using n k(2) by simp
  have m: "unat m \<le> unat n + 1"
    using unat_plus_small [OF n1] by (simp add: m_def)
  then have "unat m + (pos c' - pos c) \<le> header_limit" using n k(2) by simp
  from e [OF this] obtain n' where n': "unat n' \<le> unat m + (pos c' - pos c)"
    "run_switch st data (data ! pos c) (set_nread m c) = Some (Break (set_nread n' c'))"
    by blast
  have "loop_body st data (set_nread n c) = Some (Break (set_nread n' c'))"
    using nread_ok [OF n1] n'(2)
    by (simp add: loop_body_def m_def COUNT_HEADER_SIZE_def Let_def upd_def set_nread_def split: if_splits)
  from loop_unfold [OF _ this] k(1) have "exec_loop st data (set_nread n c) =
      exec_loop st data (set_nread n' (c'\<lparr>pos := pos c' + 1\<rparr>))"
    by (simp add: set_nread_pos)
  then show "\<exists>n'. unat n' \<le> unat n + (pos (c'\<lparr>pos := pos c' + 1\<rparr>) - pos c) \<and>
      exec_loop st data (set_nread n c) = exec_loop st data (set_nread n' (c'\<lparr>pos := pos c' + 1\<rparr>))"
    using n'(1) m k(2) by (intro exI [of _ n']) simp
qed

lemma goes_step:
  assumes "pos c < length data" "pos c \<le> pos c'"
    and "\<And>n. run_switch st data (data ! pos c) (set_nread n c) = Some (Break (set_nread n c'))"
  shows "goes st data c (c'\<lparr>pos := pos c' + 1\<rparr>)"
  by (rule goes_count [OF assms(1,2)]) (use assms(3) trans_le_add1 in blast)

lemma run_switch_Break:
  "exec_switch st data ch c = Break c' \<Longrightarrow> run_switch st data ch c = Some (Break c')"
  by (subst run_switch.simps) simp

lemma run_switch_Reexec:
  "exec_switch st data ch c = Reexec c' ch' \<Longrightarrow> run_switch st data ch c = run_switch st data ch' c'"
  by (subst run_switch.simps) simp

text \<open>The locals with no mark set.\<close>

definition at :: "'d http_parser \<Rightarrow> state \<Rightarrow> nat \<Rightarrow> 'd ctx" where
  "at p s k = \<lparr>parser = p, cur_state = s, pos = k, header_field_mark = None,
     header_value_mark = None, url_mark = None, body_mark = None, status_mark = None\<rparr>"

lemma at_simps [simp]:
  "parser (at p s k) = p" "cur_state (at p s k) = s" "pos (at p s k) = k"
  "header_field_mark (at p s k) = None" "header_value_mark (at p s k) = None"
  "url_mark (at p s k) = None" "body_mark (at p s k) = None" "status_mark (at p s k) = None"
  "(at p s k)\<lparr>pos := k'\<rparr> = at p s k'" "(at p s k)\<lparr>cur_state := s'\<rparr> = at p s' k"
  "(at p s k)\<lparr>parser := p'\<rparr> = at p' s k" "set_nread n (at p s k) = at (p\<lparr>p_nread := n\<rparr>) s k"
  by (simp_all add: at_def set_nread_def)

text \<open>What follows the position: the bytes \<open>bs\<close> are next.\<close>

definition next_bytes :: "char list \<Rightarrow> nat \<Rightarrow> char list \<Rightarrow> bool" where
  "next_bytes data k bs \<longleftrightarrow> (\<exists>rest. drop k data = bs @ rest)"

lemma next_bytes_Cons:
  "next_bytes data k (b # bs) \<longleftrightarrow> k < length data \<and> data ! k = b \<and> next_bytes data (Suc k) bs"
proof (cases "k < length data")
  case True
  then show ?thesis
    unfolding next_bytes_def by (subst Cons_nth_drop_Suc [symmetric, OF True]) auto
next
  case False
  then show ?thesis by (simp add: next_bytes_def)
qed

lemma next_bytes_Nil [simp]: "next_bytes data k []"
  by (simp add: next_bytes_def)

lemma next_bytes_append:
  "next_bytes data k (bs @ cs) \<longleftrightarrow> next_bytes data k bs \<and> next_bytes data (k + length bs) cs"
  by (induction bs arbitrary: k) (auto simp: next_bytes_Cons)

lemma next_bytes_take: "next_bytes data k bs \<Longrightarrow> take (length bs) (drop k data) = bs"
  by (auto simp: next_bytes_def)

end
