(* ===== verification/HttpRequest.thy ===== *)
theory HttpRequest imports HttpLog begin

text \<open>
  The request line: the method recogniser is right for every method and for no other
  word, and a printed request line is read back.
\<close>

section \<open>Methods\<close>

text \<open>
  Two methods whose names agree on the first \<open>i\<close> bytes, in the order the recogniser
  goes from one to the next.
\<close>

lemma method_switch_prefix:
  assumes "method_switch m i ch = Some m'"
  shows "take (Suc i) (method_strings m') = take i (method_strings m) @ [ch]"
  using assms by (auto simp: method_switch_def split: if_splits)

lemma first_method_prefix: "first_method ch = Some m \<Longrightarrow> take 1 (method_strings m) = [ch]"
  by (auto simp: first_method_def split: if_splits)

text \<open>The recogniser as an automaton: the method and the index after a byte.\<close>

definition method_byte :: "http_method \<times> nat \<Rightarrow> char \<Rightarrow> (http_method \<times> nat) option" where
  "method_byte mi ch =
    (let m = fst mi; i = snd mi in
     if ch = NUL then None
     else if c_str_at (method_strings m) i = Some ch then Some (m, Suc i)
     else map_option (\<lambda>m'. (m', Suc i)) (method_switch m i ch))"

fun method_run :: "http_method \<times> nat \<Rightarrow> char list \<Rightarrow> (http_method \<times> nat) option" where
  "method_run mi [] = Some mi"
| "method_run mi (ch # cs) = Option.bind (method_byte mi ch) (\<lambda>mi. method_run mi cs)"

text \<open>The words of the table are the paths of the automaton.\<close>

definition method_word :: "char list \<Rightarrow> (http_method \<times> nat) option" where
  "method_word w =
    (case w of [] \<Rightarrow> None
     | ch # cs \<Rightarrow> if IS_ALPHA ch then Option.bind (first_method ch) (\<lambda>m. method_run (m, 1) cs) else None)"

lemma method_word_complete: "method_word (method_strings m) = Some (m, length (method_strings m))"
  by (cases m) (simp_all add: method_word_def first_method_def method_byte_def c_str_at_def
      method_switch_def IS_ALPHA_def)

lemma method_byte_prefix:
  assumes "method_byte (m, i) ch = Some (m', i')" "i \<le> length (method_strings m)"
  shows "i' = Suc i \<and> i' \<le> length (method_strings m') \<and>
    take i' (method_strings m') = take i (method_strings m) @ [ch]"
proof (cases "c_str_at (method_strings m) i = Some ch")
  case True
  then have "i < length (method_strings m)" "method_strings m ! i = ch" "m' = m" "i' = Suc i"
    using assms by (auto simp: method_byte_def c_str_at_def Let_def split: if_splits)
  then show ?thesis by (simp add: take_Suc_append_nth)
next
  case False
  then obtain "method_switch m i ch = Some m'" "i' = Suc i"
    using assms by (auto simp: method_byte_def Let_def split: if_splits)
  then show ?thesis
    using method_switch_prefix [of m i ch m'] method_switch_index [of m i ch m'] by simp
qed

lemma method_run_prefix:
  "method_run (m, i) cs = Some (m', i') \<Longrightarrow> i \<le> length (method_strings m) \<Longrightarrow>
   i' \<le> length (method_strings m') \<and> take i' (method_strings m') = take i (method_strings m) @ cs"
proof (induction cs arbitrary: m i)
  case Nil
  then show ?case by simp
next
  case (Cons ch cs)
  then obtain m1 i1 where m1: "method_byte (m, i) ch = Some (m1, i1)" "method_run (m1, i1) cs = Some (m', i')"
    by (auto simp: bind_eq_Some_conv)
  with Cons.IH [of m1 i1] method_byte_prefix [of m i ch m1 i1] Cons.prems(2) show ?case
    by simp
qed

lemma method_word_sound:
  assumes "method_word w = Some (m, i)"
  shows "i = length w \<and> i \<le> length (method_strings m) \<and> take i (method_strings m) = w"
proof -
  obtain ch cs m0 where w: "w = ch # cs" "first_method ch = Some m0" "method_run (m0, 1) cs = Some (m, i)"
    using assms by (auto simp: method_word_def bind_eq_Some_conv split: list.splits if_splits)
  have "i \<le> length (method_strings m)" "take i (method_strings m) = w"
    using method_run_prefix [OF w(3)] first_method_index [of m0] first_method_prefix [OF w(2)] w(1)
    by simp_all
  then show ?thesis by (metis length_take min.absorb2)
qed

text \<open>The handlers follow the automaton.\<close>

definition began :: "event list http_parser \<Rightarrow> http_method \<Rightarrow> nat \<Rightarrow> event list http_parser" where
  "began p m i = (reset_message p)\<lparr>p_method := m, p_index := of_nat i, p_state := s_req_method,
     p_data := p_data p @ [Message_begin]\<rparr>"

lemma began_simps [simp]:
  "p_method (began p m i) = m" "p_index (began p m i) = of_nat i"
  "p_http_errno (began p m i) = p_http_errno p"
  "(began p m i)\<lparr>p_method := m'\<rparr> = began p m' i" "(began p m i)\<lparr>p_index := of_nat j\<rparr> = began p m j"
  "p_data (began p m i) = p_data p @ [Message_begin]"
  by (simp_all add: began_def reset_message_def)

lemma start_req_first:
  assumes "IS_ALPHA ch" "first_method ch = Some m" "p_http_errno p = HPE_OK"
    and "next_bytes data k [ch]"
  shows "goes log_settings data (at p s_start_req k) (at (began p m 1) s_req_method (Suc k))"
proof -
  have nl: "ch \<noteq> CR" "ch \<noteq> LF" using assms(1) by (auto simp: IS_ALPHA_def)
  have "goes log_settings data (at p s_start_req k)
      ((at (began p m 1) s_req_method k)\<lparr>pos := pos (at (began p m 1) s_req_method k) + 1\<rparr>)"
    by (rule goes_step; (rule run_switch_Break)?)
      (use assms nl in \<open>simp_all add: next_bytes_Cons exec_switch_def do_start_req_def
        CALLBACK_NOTIFY_def CALLBACK_NOTIFY_AT_def ASSERT_def log_event_def Let_def
        upd_def UPDATE_STATE_def reset_message_def began_def at_def\<close>)
  then show ?thesis by simp
qed

lemma method_byte_SP: "method_byte (m, i) SP = None"
proof -
  have "SP \<notin> set (method_strings m)" by (cases m) simp_all
  then have "c_str_at (method_strings m) i \<noteq> Some SP" 
    by (simp add: c_str_at_def) (metis nth_mem)
  then show ?thesis by (simp add: method_byte_def method_switch_def Let_def)
qed

lemma of_nat_Suc8: "i < 255 \<Longrightarrow> (of_nat i + 1 :: 8 word) = of_nat (Suc i)"
  by simp

lemma req_method_byte:
  assumes "method_byte (m, i) ch = Some (m', i')" "i \<le> length (method_strings m)"
    and "p_http_errno p = HPE_OK" "next_bytes data k [ch]"
  shows "goes st data (at (began p m i) s_req_method k) (at (began p m' i') s_req_method (Suc k))"
proof -
  have i: "i < 255" using assms(2) method_strings_short [of m] by linarith
  then have u: "unat (of_nat i :: 8 word) = i" by (simp add: unat_of_nat)
  have sp: "ch \<noteq> SP" using assms(1) method_byte_SP by auto
  have ch: "ch \<noteq> NUL" and nx: "c_str_at (method_strings m) i \<noteq> None"
    using assms(1,2) by (auto simp: method_byte_def c_str_at_def)
  obtain x where x: "c_str_at (method_strings m) i = Some x"
    using nx by blast
  have "goes st data (at (began p m i) s_req_method k)
      ((at (began p m' i') s_req_method k)\<lparr>pos := pos (at (began p m' i') s_req_method k) + 1\<rparr>)"
    by (rule goes_step; (rule run_switch_Break)?)
      (use assms sp ch x u i in \<open>auto simp: next_bytes_Cons exec_switch_def do_req_method_def
        method_byte_def Let_def upd_def at_def began_def reset_message_def split: if_splits\<close>)
  then show ?thesis by simp
qed

lemma req_method_run:
  "method_run (m, i) cs = Some (m', i') \<Longrightarrow> i \<le> length (method_strings m) \<Longrightarrow>
   p_http_errno p = HPE_OK \<Longrightarrow> next_bytes data k cs \<Longrightarrow>
   goes st data (at (began p m i) s_req_method k) (at (began p m' i') s_req_method (k + length cs))"
proof (induction cs arbitrary: m i k)
  case Nil
  then show ?case by (simp add: goes_refl)
next
  case (Cons ch cs)
  then obtain m1 i1 where m1: "method_byte (m, i) ch = Some (m1, i1)" "method_run (m1, i1) cs = Some (m', i')"
    by (auto simp: bind_eq_Some_conv)
  have "next_bytes data k [ch]" "next_bytes data (Suc k) cs"
    using Cons.prems(4) by (simp_all add: next_bytes_Cons)
  note b = this and le = method_byte_prefix [OF m1(1) Cons.prems(2)]
  have "goes st data (at (began p m i) s_req_method k) (at (began p m1 i1) s_req_method (Suc k))"
    by (rule req_method_byte [OF m1(1) Cons.prems(2,3) b(1)])
  also have "goes st data (at (began p m1 i1) s_req_method (Suc k))
      (at (began p m' i') s_req_method (Suc k + length cs))"
    using le by (intro Cons.IH [OF m1(2) _ Cons.prems(3) b(2)]) simp
  finally show ?case by simp
qed

lemma goes_method:
  assumes "p_http_errno p = HPE_OK" "next_bytes data k (method_strings m @ [SP])"
  shows "goes log_settings data (at p s_start_req k)
    (at (began p m (length (method_strings m) + 1)) s_req_spaces_before_url
       (k + length (method_strings m) + 1))"
proof -
  let ?w = "method_strings m" and ?i = "length (method_strings m)"
  obtain ch cs m0 where w: "?w = ch # cs" "IS_ALPHA ch" "first_method ch = Some m0"
    "method_run (m0, 1) cs = Some (m, ?i)"
    using method_word_complete [of m]
    by (auto simp: method_word_def bind_eq_Some_conv split: list.splits if_splits)
  have b: "next_bytes data k [ch]" "next_bytes data (Suc k) cs" "next_bytes data (k + ?i) [SP]"
    using assms(2) by (simp_all add: w(1) next_bytes_append next_bytes_Cons)
  have "goes log_settings data (at p s_start_req k) (at (began p m0 1) s_req_method (Suc k))"
    by (rule start_req_first) (use w assms b in simp_all)
  also have "goes log_settings data (at (began p m0 1) s_req_method (Suc k))
      (at (began p m ?i) s_req_method (Suc k + length cs))"
    by (rule req_method_run) (use w assms b first_method_index in simp_all)
  also have "Suc k + length cs = k + ?i" using w(1) by simp
  also have "goes log_settings data (at (began p m ?i) s_req_method (k + ?i))
      ((at (began p m (?i + 1)) s_req_spaces_before_url (k + ?i))
        \<lparr>pos := pos (at (began p m (?i + 1)) s_req_spaces_before_url (k + ?i)) + 1\<rparr>)"
  proof (rule goes_step; (rule run_switch_Break)?)
    have "?i < 255" using method_strings_short [of m] by linarith
    then have "unat (of_nat ?i :: 8 word) = ?i" by (simp add: unat_of_nat)
    then show "exec_switch log_settings data (data ! pos (at (began p m ?i) s_req_method (k + ?i)))
        (set_nread n (at (began p m ?i) s_req_method (k + ?i))) =
        Break (set_nread n (at (began p m (?i + 1)) s_req_spaces_before_url (k + ?i)))" for n
      using b(3) assms(1)
      by (simp add: next_bytes_Cons exec_switch_def do_req_method_def c_str_at_def Let_def upd_def
          UPDATE_STATE_def at_def began_def reset_message_def)
  qed (use b(3) in \<open>simp_all add: next_bytes_Cons\<close>)
  finally show ?thesis by simp
qed

section \<open>The URL\<close>

text \<open>The machine over a whole URL, and where the message parser accepts a space after it.\<close>

definition url_scan :: "state \<Rightarrow> char list \<Rightarrow> state" where
  "url_scan s cs = fold (\<lambda>ch s. parse_url_char s ch) cs s"

definition url_start :: "http_method \<Rightarrow> state" where
  "url_start m = (if m = HTTP_CONNECT then s_req_server_start else s_req_spaces_before_url)"

definition url_final :: "state set" where
  "url_final = {s_req_server, s_req_server_with_at, s_req_path, s_req_query_string_start,
     s_req_query_string, s_req_fragment_start, s_req_fragment}"

definition valid_url :: "http_method \<Rightarrow> char list \<Rightarrow> bool" where
  "valid_url m u \<longleftrightarrow> u \<noteq> [] \<and> url_scan (url_start m) u \<in> url_final"

lemma parse_url_char_dead: "parse_url_char s_dead ch = s_dead"
  by (simp add: parse_url_char_def)

lemma url_scan_dead: "url_scan s_dead cs = s_dead"
  by (induction cs) (simp_all add: url_scan_def parse_url_char_dead)

lemma url_scan_Cons: "url_scan s (ch # cs) = url_scan (parse_url_char s ch) cs"
  by (simp add: url_scan_def)

lemma parse_url_char_space:
  "ch \<in> {SP, CR, LF} \<Longrightarrow> parse_url_char s ch = s_dead"
  by (auto simp: parse_url_char_def)

lemma url_final_url: "url_final \<subseteq> url_states"
  by (simp add: url_final_def url_states_def)

definition in_url :: "'d http_parser \<Rightarrow> state \<Rightarrow> nat \<Rightarrow> nat \<Rightarrow> 'd ctx" where
  "in_url p s k0 k = (at p s k)\<lparr>url_mark := Some k0\<rparr>"

lemma in_url_simps [simp]:
  "parser (in_url p s k0 k) = p" "cur_state (in_url p s k0 k) = s" "pos (in_url p s k0 k) = k"
  "(in_url p s k0 k)\<lparr>pos := k'\<rparr> = in_url p s k0 k'" "url_mark (in_url p s k0 k) = Some k0"
  by (simp_all add: in_url_def at_def)

lemma url_switch:
  assumes "s \<in> url_states" "ch \<notin> {SP, CR, LF}" "cur_state c = s"
  shows "exec_switch st data ch c = url_char ch c"
proof -
  have "s \<in> {s_req_schema, s_req_schema_slash, s_req_schema_slash_slash, s_req_server_start,
      s_req_server, s_req_server_with_at, s_req_path, s_req_query_string_start, s_req_query_string,
      s_req_fragment_start, s_req_fragment}"
    using assms(1) by (auto simp: url_states_def)
  with assms(2,3) show ?thesis
    by (elim insertE; simp add: exec_switch_def do_req_schema_def do_req_url_def)
qed

lemma url_final_switch:
  assumes "s \<in> url_final" "cur_state c = s"
  shows "exec_switch st data SP c = cb_url st data 1 (UPDATE_STATE s_req_http_start c) Break"
  using assms unfolding url_final_def
  by (elim insertE; simp add: exec_switch_def do_req_url_def)

lemma goes_url_byte:
  assumes "s \<in> url_states" "parse_url_char s ch \<noteq> s_dead" "next_bytes data k [ch]"
  shows "goes st data (in_url p s k0 k) (in_url p (parse_url_char s ch) k0 (Suc k))"
proof -
  have ch: "ch \<notin> {SP, CR, LF}" using assms(2) parse_url_char_space by blast
  have "goes st data (in_url p s k0 k) ((in_url p (parse_url_char s ch) k0 k)
      \<lparr>pos := pos (in_url p (parse_url_char s ch) k0 k) + 1\<rparr>)"
    by (rule goes_step; (rule run_switch_Break)?)
      (use assms in \<open>simp_all add: next_bytes_Cons url_switch [OF assms(1) ch] url_char_def
        UPDATE_STATE_def Let_def\<close>, simp add: in_url_def at_def set_nread_def)
  then show ?thesis by simp
qed

lemma goes_url_scan:
  "s \<in> url_states \<Longrightarrow> url_scan s cs \<noteq> s_dead \<Longrightarrow> next_bytes data k cs \<Longrightarrow>
   goes st data (in_url p s k0 k) (in_url p (url_scan s cs) k0 (k + length cs))"
proof (induction cs arbitrary: s k)
  case Nil
  then show ?case by (simp add: goes_refl url_scan_def)
next
  case (Cons ch cs)
  have nd: "parse_url_char s ch \<noteq> s_dead"
    using Cons.prems(2) by (auto simp: url_scan_Cons url_scan_dead)
  then have u: "parse_url_char s ch \<in> url_states"
    using parse_url_char_states [of s ch] by blast
  have b: "next_bytes data k [ch]" "next_bytes data (Suc k) cs"
    using Cons.prems(3) by (simp_all add: next_bytes_Cons)
  have "goes st data (in_url p s k0 k) (in_url p (parse_url_char s ch) k0 (Suc k))"
    by (rule goes_url_byte [OF Cons.prems(1) nd b(1)])
  also have "goes st data (in_url p (parse_url_char s ch) k0 (Suc k))
      (in_url p (url_scan (parse_url_char s ch) cs) k0 (Suc k + length cs))"
    using Cons.prems(2) by (intro Cons.IH [OF u _ b(2)]) (simp add: url_scan_Cons)
  finally show ?case by (simp add: url_scan_Cons)
qed

lemma goes_url_first:
  assumes "parse_url_char (url_start (p_method p)) ch \<noteq> s_dead" "next_bytes data k [ch]"
  shows "goes st data (at p s_req_spaces_before_url k)
    (in_url p (parse_url_char (url_start (p_method p)) ch) k (Suc k))"
proof -
  let ?s = "parse_url_char (url_start (p_method p)) ch"
  have ch: "ch \<noteq> SP" using assms(1) parse_url_char_space by blast
  have "goes st data (at p s_req_spaces_before_url k)
      ((in_url p ?s k k)\<lparr>pos := pos (in_url p ?s k k) + 1\<rparr>)"
    by (rule goes_step; (rule run_switch_Break)?)
      (use assms ch in \<open>simp_all add: next_bytes_Cons exec_switch_def do_req_spaces_before_url_def
        url_char_def UPDATE_STATE_def Let_def set_mark_def url_start_def\<close>,
       auto simp: in_url_def at_def set_nread_def)
  then show ?thesis by simp
qed

lemma goes_url:
  assumes u: "valid_url (p_method p) u" and e: "p_http_errno p = HPE_OK"
    and b: "next_bytes data k (u @ [SP])"
  shows "goes log_settings data (at p s_req_spaces_before_url k)
    (at (p\<lparr>p_state := s_req_http_start, p_data := p_data p @ [Url u]\<rparr>) s_req_http_start
      (k + length u + 1))"
proof -
  let ?s = "url_scan (url_start (p_method p)) u"
  obtain ch cs where cs: "u = ch # cs" using u by (cases u) (auto simp: valid_url_def)
  have fin: "?s \<in> url_final" using u by (simp add: valid_url_def)
  then have "?s \<noteq> s_dead" by (auto simp: url_final_def)
  then have nd: "parse_url_char (url_start (p_method p)) ch \<noteq> s_dead"
    by (auto simp: cs url_scan_Cons url_scan_dead)
  then have st: "parse_url_char (url_start (p_method p)) ch \<in> url_states"
    using parse_url_char_states [of "url_start (p_method p)" ch] by blast
  have b': "next_bytes data k [ch]" "next_bytes data (Suc k) cs" "next_bytes data (k + length u) [SP]"
    "next_bytes data k u"
    using b by (simp_all add: cs next_bytes_append next_bytes_Cons)
  have "goes log_settings data (at p s_req_spaces_before_url k)
      (in_url p (parse_url_char (url_start (p_method p)) ch) k (Suc k))"
    by (rule goes_url_first [OF nd b'(1)])
  also have "goes log_settings data (in_url p (parse_url_char (url_start (p_method p)) ch) k (Suc k))
      (in_url p (url_scan (parse_url_char (url_start (p_method p)) ch) cs) k (Suc k + length cs))"
    using \<open>?s \<noteq> s_dead\<close> by (intro goes_url_scan [OF st _ b'(2)]) (simp add: cs url_scan_Cons)
  also have "Suc k + length cs = k + length u" by (simp add: cs)
  also have "url_scan (parse_url_char (url_start (p_method p)) ch) cs = ?s"
    by (simp add: cs url_scan_Cons)
  also have "goes log_settings data (in_url p ?s k (k + length u))
      ((at (p\<lparr>p_state := s_req_http_start, p_data := p_data p @ [Url u]\<rparr>) s_req_http_start
        (k + length u))\<lparr>pos := pos (at (p\<lparr>p_state := s_req_http_start, p_data := p_data p @ [Url u]\<rparr>)
          s_req_http_start (k + length u)) + 1\<rparr>)"
    by (rule goes_step; (rule run_switch_Break)?)
      (use b'(3) e next_bytes_take [OF b'(4)] in \<open>simp_all add: next_bytes_Cons url_final_switch [OF fin]
        cb_url_def CALLBACK_DATA_AT_def ASSERT_def log_event_def UPDATE_STATE_def Let_def\<close>,
       auto simp: in_url_def at_def set_nread_def)
  finally show ?thesis by simp
qed

section \<open>Numbers\<close>

fun decimal :: "nat \<Rightarrow> string" where
  "decimal n = (if n < 10 then [char_of (48 + n)] else decimal (n div 10) @ [char_of (48 + n mod 10)])"

declare decimal.simps [simp del]

lemma uc_digit: "(d :: nat) < 10 \<Longrightarrow> uc (char_of (48 + d)) = 48 + d"
  by (simp add: uc_char_of)

lemma IS_NUM_digit: "(d :: nat) < 10 \<Longrightarrow> IS_NUM (char_of (48 + d))"
  by (simp add: IS_NUM_def uc_digit)

lemma decimal_nonempty [simp]: "decimal n \<noteq> []"
  by (subst decimal.simps) simp

lemma decimal_nums: "\<forall>c \<in> set (decimal n). IS_NUM c"
  by (induction n rule: decimal.induct) (subst decimal.simps, auto simp: IS_NUM_digit)

lemma digits_value_snoc: "digits_value (ds @ [d]) = digits_value ds * 10 + (uc d - 48)"
  by (simp add: digits_value_def)

lemma digits_value_decimal: "digits_value (decimal n) = n"
  by (induction n rule: decimal.induct)
    (subst decimal.simps, auto simp: digits_value_snoc uc_digit, simp add: digits_value_def uc_digit)

lemma digit16_char: "(d :: nat) < 10 \<Longrightarrow> digit16 (char_of (48 + d)) = of_nat d"
  by (simp add: digit16_def uc_digit)

section \<open>The version\<close>

lemma goes_break:
  assumes "next_bytes data k [ch]"
    and "\<And>n. exec_switch st data ch (at (p\<lparr>p_nread := n\<rparr>) s k) = Break (at (p'\<lparr>p_nread := n\<rparr>) s' k)"
  shows "goes st data (at p s k) (at p' s' (Suc k))"
  using goes_step [of "at p s k" data "at p' s' k" st] assms
  by (simp add: next_bytes_Cons run_switch_Break)

lemmas simple_step = exec_switch_def expect_def STRICT_CHECK_def UPDATE_STATE_def upd_def

lemma goes_http:
  assumes "next_bytes data k ''HTTP/''"
  shows "goes st data (at p s_req_http_start k) (at p s_req_first_http_major (Suc (Suc (Suc (Suc (Suc k))))))"
proof -
  have b: "next_bytes data k [CHR ''H'']" "next_bytes data (Suc k) [CHR ''T'']"
    "next_bytes data (Suc (Suc k)) [CHR ''T'']" "next_bytes data (Suc (Suc (Suc k))) [CHR ''P'']"
    "next_bytes data (Suc (Suc (Suc (Suc k)))) [CHR ''/'']"
    using assms by (simp_all add: next_bytes_Cons)
  have "goes st data (at p s_req_http_start k) (at p s_req_http_H (Suc k))"
    by (rule goes_break [OF b(1)]) (simp add: simple_step do_req_http_start_def)
  also have "goes st data (at p s_req_http_H (Suc k)) (at p s_req_http_HT (Suc (Suc k)))"
    by (rule goes_break [OF b(2)]) (simp add: simple_step)
  also have "goes st data (at p s_req_http_HT (Suc (Suc k))) (at p s_req_http_HTT (Suc (Suc (Suc k))))"
    by (rule goes_break [OF b(3)]) (simp add: simple_step)
  also have "goes st data (at p s_req_http_HTT (Suc (Suc (Suc k))))
      (at p s_req_http_HTTP (Suc (Suc (Suc (Suc k)))))"
    by (rule goes_break [OF b(4)]) (simp add: simple_step)
  also have "goes st data (at p s_req_http_HTTP (Suc (Suc (Suc (Suc k)))))
      (at p s_req_first_http_major (Suc (Suc (Suc (Suc (Suc k))))))"
    by (rule goes_break [OF b(5)]) (simp add: simple_step)
  finally show ?thesis .
qed

lemma decimal_small: "n < 10 \<Longrightarrow> decimal n = [char_of (48 + n)]"
  by (subst decimal.simps) simp

lemma decimal_large: "\<not> n < 10 \<Longrightarrow> decimal n = decimal (n div 10) @ [char_of (48 + n mod 10)]"
  by (subst decimal.simps) simp

lemma of_nat_div_mod: "of_nat (n div 10) * 10 + of_nat (n mod 10) = (of_nat n :: 16 word)"
  by (metis div_mult_mod_eq of_nat_add of_nat_mult of_nat_numeral)

lemma of_nat_999: "n \<le> 999 \<Longrightarrow> \<not> 999 < (of_nat n :: 16 word)"
  by (simp add: word_less_nat_alt unat_of_nat)

lemma digit_bytes:
  assumes "(d :: nat) < 10"
  shows "char_of (48 + d) \<noteq> CHR ''.''" "char_of (48 + d) \<noteq> SP" "char_of (48 + d) \<noteq> CR"
    "char_of (48 + d) \<noteq> LF"
proof -
  have u: "uc c = 48 + d" if "char_of (48 + d) = c" for c
    using uc_digit [OF assms] that by simp
  show "char_of (48 + d) \<noteq> CHR ''.''" "char_of (48 + d) \<noteq> SP" "char_of (48 + d) \<noteq> CR"
    "char_of (48 + d) \<noteq> LF"
    using u [of "CHR ''.''"] u [of SP] u [of CR] u [of LF] by auto
qed

lemma goes_major:
  "1 \<le> n \<Longrightarrow> n \<le> 999 \<Longrightarrow> next_bytes data k (decimal n) \<Longrightarrow>
   goes st data (at p s_req_first_http_major k)
     (at (p\<lparr>p_http_major := of_nat n\<rparr>) s_req_http_major (k + length (decimal n)))"
proof (induction n rule: decimal.induct)
  case (1 n)
  show ?case
  proof (cases "n < 10")
    case True
    then have b: "next_bytes data k [char_of (48 + n)]"
      using "1.prems" by (simp add: decimal_small)
    have "goes st data (at p s_req_first_http_major k)
        (at (p\<lparr>p_http_major := of_nat n\<rparr>) s_req_http_major (Suc k))"
      by (rule goes_break [OF b])
        (use True "1.prems" in \<open>simp add: simple_step do_req_first_http_major_def uc_digit digit16_char\<close>)
    then show ?thesis using True by (simp add: decimal_small)
  next
    case False
    let ?k = "k + length (decimal (n div 10))"
    have b: "next_bytes data k (decimal (n div 10))" "next_bytes data ?k [char_of (48 + n mod 10)]"
      using "1.prems"(3) False by (simp_all add: decimal_large next_bytes_append)
    have "goes st data (at p s_req_first_http_major k)
        (at (p\<lparr>p_http_major := of_nat (n div 10)\<rparr>) s_req_http_major ?k)"
      using "1.IH" [OF False] "1.prems" False b(1) by simp
    also have "goes st data (at (p\<lparr>p_http_major := of_nat (n div 10)\<rparr>) s_req_http_major ?k)
        (at (p\<lparr>p_http_major := of_nat n\<rparr>) s_req_http_major (Suc ?k))"
      by (rule goes_break [OF b(2)])
        (use of_nat_999 "1.prems"(2) in \<open>simp add: simple_step do_req_http_major_def add_major_def
          Let_def IS_NUM_digit digit_bytes digit16_char of_nat_div_mod\<close>)
    finally show ?thesis using False by (simp add: decimal_large)
  qed
qed

lemma goes_minor:
  "n \<le> 999 \<Longrightarrow> next_bytes data k (decimal n) \<Longrightarrow>
   goes st data (at p s_req_first_http_minor k)
     (at (p\<lparr>p_http_minor := of_nat n\<rparr>) s_req_http_minor (k + length (decimal n)))"
proof (induction n rule: decimal.induct)
  case (1 n)
  show ?case
  proof (cases "n < 10")
    case True
    then have b: "next_bytes data k [char_of (48 + n)]"
      using "1.prems" by (simp add: decimal_small)
    have "goes st data (at p s_req_first_http_minor k)
        (at (p\<lparr>p_http_minor := of_nat n\<rparr>) s_req_http_minor (Suc k))"
      by (rule goes_break [OF b])
        (use True in \<open>simp add: simple_step do_req_first_http_minor_def IS_NUM_digit digit16_char\<close>)
    then show ?thesis using True by (simp add: decimal_small)
  next
    case False
    let ?k = "k + length (decimal (n div 10))"
    have b: "next_bytes data k (decimal (n div 10))" "next_bytes data ?k [char_of (48 + n mod 10)]"
      using "1.prems"(2) False by (simp_all add: decimal_large next_bytes_append)
    have "goes st data (at p s_req_first_http_minor k)
        (at (p\<lparr>p_http_minor := of_nat (n div 10)\<rparr>) s_req_http_minor ?k)"
      using "1.IH" [OF False] "1.prems" b(1) by simp
    also have "goes st data (at (p\<lparr>p_http_minor := of_nat (n div 10)\<rparr>) s_req_http_minor ?k)
        (at (p\<lparr>p_http_minor := of_nat n\<rparr>) s_req_http_minor (Suc ?k))"
      by (rule goes_break [OF b(2)])
        (use of_nat_999 "1.prems"(1) in \<open>simp add: simple_step do_req_http_minor_def add_minor_def
          Let_def IS_NUM_digit digit_bytes digit16_char of_nat_div_mod\<close>)
    finally show ?thesis using False by (simp add: decimal_large)
  qed
qed

text \<open>The whole line, from the state between messages to the first header.\<close>

definition request_line :: "http_method \<Rightarrow> string \<Rightarrow> nat \<Rightarrow> nat \<Rightarrow> string" where
  "request_line m u major minor = method_strings m @ [SP] @ u @ [SP] @ ''HTTP/'' @ decimal major @
     ''.'' @ decimal minor @ [CR, LF]"

definition got_line :: "event list http_parser \<Rightarrow> http_method \<Rightarrow> string \<Rightarrow> nat \<Rightarrow> nat \<Rightarrow>
    event list http_parser" where
  "got_line p m u major minor = (reset_message p)
     \<lparr>p_method := m, p_index := of_nat (length (method_strings m) + 1), p_state := s_req_http_start,
      p_data := p_data p @ [Message_begin, Url u],
      p_http_major := of_nat major, p_http_minor := of_nat minor\<rparr>"

lemma goes_request_line:
  assumes e: "p_http_errno p = HPE_OK" and u: "valid_url m u"
    and v: "1 \<le> major" "major \<le> 999" "minor \<le> 999"
    and b: "next_bytes data k (request_line m u major minor)"
  shows "goes log_settings data (at p s_start_req k)
    (at (got_line p m u major minor) s_header_field_start
      (k + length (request_line m u major minor)))"
proof -
  define k1 where "k1 = k + length (method_strings m) + 1"
  define k2 where "k2 = k1 + length u + 1"
  define k3 where "k3 = Suc (Suc (Suc (Suc (Suc k2))))"
  define k4 where "k4 = k3 + length (decimal major)"
  define k5 where "k5 = Suc k4 + length (decimal minor)"
  let ?p1 = "began p m (length (method_strings m) + 1)"
  let ?p2 = "?p1\<lparr>p_state := s_req_http_start, p_data := p_data ?p1 @ [Url u]\<rparr>"
  let ?p3 = "?p2\<lparr>p_http_major := of_nat major\<rparr>"
  let ?p4 = "?p3\<lparr>p_http_minor := of_nat minor\<rparr>"
  have n: "next_bytes data k (method_strings m @ [SP])" "next_bytes data k1 (u @ [SP])"
    "next_bytes data k2 ''HTTP/''" "next_bytes data k3 (decimal major)" "next_bytes data k4 ''.''"
    "next_bytes data (Suc k4) (decimal minor)" "next_bytes data k5 [CR]" "next_bytes data (Suc k5) [LF]"
    using b by (simp_all add: request_line_def next_bytes_append next_bytes_Cons
        k1_def k2_def k3_def k4_def k5_def ac_simps)
  have "goes log_settings data (at p s_start_req k) (at ?p1 s_req_spaces_before_url k1)"
    using goes_method [OF e n(1)] by (simp add: k1_def)
  also have "goes log_settings data (at ?p1 s_req_spaces_before_url k1) (at ?p2 s_req_http_start k2)"
    using goes_url [of ?p1 u data k1] u e n(2) by (simp add: k2_def)
  also have "goes log_settings data (at ?p2 s_req_http_start k2) (at ?p2 s_req_first_http_major k3)"
    using goes_http [OF n(3)] by (simp add: k3_def)
  also have "goes log_settings data (at ?p2 s_req_first_http_major k3) (at ?p3 s_req_http_major k4)"
    using goes_major [OF v(1,2) n(4)] by (simp add: k4_def)
  also have "goes log_settings data (at ?p3 s_req_http_major k4) (at ?p3 s_req_first_http_minor (Suc k4))"
    by (rule goes_break [OF n(5)]) (simp add: simple_step do_req_http_major_def)
  also have "goes log_settings data (at ?p3 s_req_first_http_minor (Suc k4)) (at ?p4 s_req_http_minor k5)"
    using goes_minor [OF v(3) n(6)] by (simp add: k5_def)
  also have "goes log_settings data (at ?p4 s_req_http_minor k5) (at ?p4 s_req_line_almost_done (Suc k5))"
    by (rule goes_break [OF n(7)]) (simp add: simple_step do_req_http_minor_def)
  also have "goes log_settings data (at ?p4 s_req_line_almost_done (Suc k5))
      (at ?p4 s_header_field_start (Suc (Suc k5)))"
    by (rule goes_break [OF n(8)]) (simp add: simple_step do_req_line_almost_done_def)
  also have "Suc (Suc k5) = k + length (request_line m u major minor)"
    by (simp add: k1_def k2_def k3_def k4_def k5_def request_line_def)
  also have "?p4 = got_line p m u major minor"
    by (simp add: began_def got_line_def)
  finally show ?thesis .
qed

end
