(* ===== verification/HttpHeaders.thy ===== *)
theory HttpHeaders imports HttpRequest begin

text \<open>
  Header lines: a printed header comes back as its field and its value, a
  \<open>Content-Length\<close> also as the number it denotes, checked against overflow.
\<close>

section \<open>Field names\<close>

definition token_string :: "string \<Rightarrow> bool" where
  "token_string s \<longleftrightarrow> s \<noteq> [] \<and> (\<forall>c \<in> set s. TOKEN c \<noteq> NUL)"

definition field_start_hs :: "char \<Rightarrow> header_states" where
  "field_start_hs c = (let t = TOKEN c in
     if t = CHR ''c'' then h_C
     else if t = CHR ''p'' then h_matching_proxy_connection
     else if t = CHR ''t'' then h_matching_transfer_encoding
     else if t = CHR ''u'' then h_matching_upgrade
     else h_general)"

lemma TOKEN_special: "TOKEN CR = NUL" "TOKEN LF = NUL" "TOKEN CHR '':'' = NUL" "TOKEN SP = NUL" "TOKEN HT = NUL"
  by (simp_all add: TOKEN_def tokens_def tokens_init_def)

lemma header_field_loop_stop:
  "\<forall>x \<in> set cs. TOKEN x \<noteq> NUL \<Longrightarrow> TOKEN c = NUL \<Longrightarrow>
   header_field_loop (cs @ c # rest) p = header_field_loop cs p"
proof (induction cs arbitrary: p)
  case (Cons x cs)
  have "header_field_loop (cs @ c # rest) q = header_field_loop cs q" for q :: "'a http_parser"
    using Cons by simp
  then show ?case using Cons.prems by (simp add: Let_def split: option.split)
qed simp

lemma header_field_loop_general:
  "\<forall>x \<in> set cs. TOKEN x \<noteq> NUL \<Longrightarrow> p_header_state p = h_general \<Longrightarrow>
   header_field_loop cs p = Some (length cs, p)"
  by (induction cs) (simp_all add: Let_def header_field_char_def)

definition in_field :: "'d http_parser \<Rightarrow> nat \<Rightarrow> nat \<Rightarrow> 'd ctx" where
  "in_field p k0 k = (at p s_header_field k)\<lparr>header_field_mark := Some k0\<rparr>"

lemma in_field_simps [simp]:
  "parser (in_field p k0 k) = p" "cur_state (in_field p k0 k) = s_header_field"
  "pos (in_field p k0 k) = k" "(in_field p k0 k)\<lparr>pos := k'\<rparr> = in_field p k0 k'"
  "header_field_mark (in_field p k0 k) = Some k0"
  "set_nread n (in_field p k0 k) = in_field (p\<lparr>p_nread := n\<rparr>) k0 k"
  by (simp_all add: in_field_def at_def set_nread_def)

lemma goes_field_first:
  assumes "TOKEN c \<noteq> NUL" "next_bytes data k [c]"
  shows "goes st data (at p s_header_field_start k)
    (in_field (p\<lparr>p_index := 0, p_header_state := field_start_hs c\<rparr>) k (Suc k))"
proof -
  let ?c = "in_field (p\<lparr>p_index := 0, p_header_state := field_start_hs c\<rparr>) k k"
  have c: "c \<noteq> CR" "c \<noteq> LF" using assms(1) TOKEN_special by auto
  have "goes st data (at p s_header_field_start k) (?c\<lparr>pos := pos ?c + 1\<rparr>)"
    by (rule goes_step; (rule run_switch_Break)?)
      (use assms c in \<open>simp_all add: next_bytes_Cons exec_switch_def do_header_field_start_def
        Let_def set_mark_def field_start_hs_def upd_def UPDATE_STATE_def at_def in_field_def\<close>)
  then show ?thesis by simp
qed

lemma goes_field:
  assumes name: "token_string name" "name = c # cs" and e: "p_http_errno p = HPE_OK"
    and loop: "\<And>n. header_field_loop cs (p\<lparr>p_index := 0, p_header_state := field_start_hs c, p_nread := n\<rparr>) =
      Some (length cs, p\<lparr>p_index := i, p_header_state := h, p_nread := n\<rparr>)"
    and b: "next_bytes data k (name @ '':'')"
  shows "goes log_settings data (at p s_header_field_start k)
    (at (p\<lparr>p_index := i, p_header_state := h, p_state := s_header_value_discard_ws,
         p_data := p_data p @ [Header_field name]\<rparr>) s_header_value_discard_ws (k + length name + 1))"
proof -
  let ?p0 = "p\<lparr>p_index := 0, p_header_state := field_start_hs c\<rparr>"
  let ?p1 = "p\<lparr>p_index := i, p_header_state := h\<rparr>"
  let ?p2 = "?p1\<lparr>p_state := s_header_value_discard_ws, p_data := p_data p @ [Header_field name]\<rparr>"
  let ?k = "k + length name"
  have b': "next_bytes data k [c]" "next_bytes data k name" "next_bytes data ?k '':''"
    using b name(2) by (simp_all add: next_bytes_append next_bytes_Cons)
  have t: "TOKEN c \<noteq> NUL" "\<forall>x \<in> set cs. TOKEN x \<noteq> NUL"
    using name by (simp_all add: token_string_def)
  have "next_bytes data (Suc k) (cs @ '':'')"
    using b name(2) by (simp add: next_bytes_append next_bytes_Cons)
  then obtain rest where d: "drop (Suc k) data = cs @ CHR '':'' # rest"
    by (auto simp: next_bytes_def)
  have k: "?k = Suc (k + length cs)" "?k < length data" "data ! ?k = CHR '':''" "Suc k \<le> ?k"
    using b'(3) name(2) by (simp_all add: next_bytes_Cons)
  have tk: "take (Suc (length cs)) (drop k data) = name"
    using next_bytes_take [OF b'(2)] name(2) by simp
  have hl: "header_field_loop (drop (Suc k) data) (?p0\<lparr>p_nread := n\<rparr>) =
      Some (length cs, ?p1\<lparr>p_nread := n\<rparr>)" for n
    unfolding d by (subst header_field_loop_stop [OF t(2) TOKEN_special(3)]) (use loop [of n] in simp)
  have "goes log_settings data (at p s_header_field_start k) (in_field ?p0 k (Suc k))"
    by (rule goes_field_first [OF t(1) b'(1)])
  also have "goes log_settings data (in_field ?p0 k (Suc k))
      ((at ?p2 s_header_value_discard_ws ?k)\<lparr>pos := pos (at ?p2 s_header_value_discard_ws ?k) + 1\<rparr>)"
  proof (rule goes_count, goal_cases)
    case (3 n)
    have n: "unat n + length cs \<le> header_limit" using 3 name(2) by simp
    have "run_switch log_settings data (data ! pos (in_field ?p0 k (Suc k))) (set_nread n (in_field ?p0 k (Suc k)))
        = Some (Break (set_nread (n + of_nat (length cs)) (at ?p2 s_header_value_discard_ws ?k)))"
    proof (rule run_switch_Break)
      show "exec_switch log_settings data (data ! pos (in_field ?p0 k (Suc k)))
          (set_nread n (in_field ?p0 k (Suc k))) =
        Break (set_nread (n + of_nat (length cs)) (at ?p2 s_header_value_discard_ws ?k))"
        using hl [of n] k(2,3) nread_ok [OF n] e tk unfolding k(1)
        by (simp add: exec_switch_def do_header_field_def COUNT_HEADER_SIZE_def Let_def upd_def
            cb_header_field_def CALLBACK_DATA_AT_def ASSERT_def log_event_def UPDATE_STATE_def)
          (simp add: in_field_def at_def)
    qed
    then show ?case
      using unat_plus_small [OF n] name(2) by (intro exI [of _ "n + of_nat (length cs)"]) simp
  qed (use k b name(2) in \<open>simp_all add: next_bytes_append next_bytes_Cons\<close>)
  finally show ?thesis by simp
qed

section \<open>Values\<close>

definition value_bytes :: "string \<Rightarrow> bool" where
  "value_bytes v \<longleftrightarrow> v \<noteq> [] \<and> hd v \<noteq> SP \<and> hd v \<noteq> HT \<and> CR \<notin> set v \<and> LF \<notin> set v"

definition in_value :: "'d http_parser \<Rightarrow> nat \<Rightarrow> nat \<Rightarrow> 'd ctx" where
  "in_value p k0 k = (at p s_header_value k)\<lparr>header_value_mark := Some k0\<rparr>"

lemma in_value_simps [simp]:
  "parser (in_value p k0 k) = p" "cur_state (in_value p k0 k) = s_header_value"
  "pos (in_value p k0 k) = k" "(in_value p k0 k)\<lparr>pos := k'\<rparr> = in_value p k0 k'"
  "header_value_mark (in_value p k0 k) = Some k0"
  "set_nread n (in_value p k0 k) = in_value (p\<lparr>p_nread := n\<rparr>) k0 k"
  by (simp_all add: in_value_def at_def set_nread_def)

text \<open>
  From the colon to the start of the next line, given what the loop over the value makes
  of the parser the first byte leaves.
\<close>

lemma goes_value:
  assumes v: "value_bytes v" "v = c # cs" and e: "p_http_errno p = HPE_OK"
    and first: "\<And>n k. do_header_value_start c (at (p\<lparr>p_nread := n\<rparr>) s k) = Break (in_value (p1\<lparr>p_nread := n\<rparr>) k k)"
    and s: "s = s_header_value_discard_ws"
    and e1: "p_http_errno p1 = HPE_OK" and d1: "p_data p1 = p_data p"
    and loop: "\<And>n rest. header_value_loop 0 (cs @ CR # rest) (p_header_state p1) (p1\<lparr>p_nread := n\<rparr>) =
      Hv_cr (length cs) h (p2\<lparr>p_nread := n\<rparr>)"
    and e2: "p_http_errno p2 = HPE_OK" and d2: "p_data p2 = p_data p"
    and b: "next_bytes data k ([SP] @ v @ [CR, LF])"
  shows "goes log_settings data (at p s k)
    (at (p2\<lparr>p_header_state := h, p_state := s_header_almost_done, p_data := p_data p @ [Header_value v]\<rparr>)
      s_header_value_lws (k + length v + 3))"
proof -
  let ?k = "Suc k + length v"
  let ?p3 = "p2\<lparr>p_header_state := h, p_state := s_header_almost_done, p_data := p_data p @ [Header_value v]\<rparr>"
  have b': "next_bytes data k [SP]" "next_bytes data (Suc k) [c]" "next_bytes data (Suc k) v"
    "next_bytes data ?k [CR]" "next_bytes data (Suc ?k) [LF]"
    using b v(2) by (simp_all add: next_bytes_append next_bytes_Cons)
  have "next_bytes data (Suc (Suc k)) (cs @ [CR])"
    using b v(2) by (simp add: next_bytes_append next_bytes_Cons)
  then obtain rest where d: "drop (Suc (Suc k)) data = cs @ CR # rest"
    by (auto simp: next_bytes_def)
  have c: "c \<noteq> SP" "c \<noteq> HT" "c \<noteq> CR" "c \<noteq> LF"
    using v by (auto simp: value_bytes_def)
  have k: "Suc (Suc k) + length cs = ?k" "?k < length data" "data ! ?k = CR"
    using b'(4) v(2) by (simp_all add: next_bytes_Cons)
  have k2: "Suc (Suc k) < length data" using k by linarith
  have "goes log_settings data (at p s k) (at p s (Suc k))"
    by (rule goes_break [OF b'(1)]) (simp add: exec_switch_def do_header_value_discard_ws_def s)
  also have "goes log_settings data (at p s (Suc k)) ((in_value p1 (Suc k) (Suc k))
      \<lparr>pos := pos (in_value p1 (Suc k) (Suc k)) + 1\<rparr>)"
    by (rule goes_step; (rule run_switch_Break)?)
      (use b'(2) c first s in \<open>simp_all add: next_bytes_Cons exec_switch_def do_header_value_discard_ws_def\<close>)
  also have "goes log_settings data ((in_value p1 (Suc k) (Suc k))\<lparr>pos := pos (in_value p1 (Suc k) (Suc k)) + 1\<rparr>)
      ((at ?p3 s_header_almost_done ?k)\<lparr>pos := pos (at ?p3 s_header_almost_done ?k) + 1\<rparr>)"
  proof (rule goes_count, goal_cases)
    case (3 n)
    have n: "unat n + length cs \<le> header_limit" using 3 v(2) by simp
    let ?c = "set_nread n ((in_value p1 (Suc k) (Suc k))\<lparr>pos := pos (in_value p1 (Suc k) (Suc k)) + 1\<rparr>)"
    have "run_switch log_settings data (data ! pos ?c) ?c
        = Some (Break (set_nread (n + of_nat (length cs)) (at ?p3 s_header_almost_done ?k)))"
    proof (rule run_switch_Break)
      show "exec_switch log_settings data (data ! pos ?c) ?c =
        Break (set_nread (n + of_nat (length cs)) (at ?p3 s_header_almost_done ?k))"
        using loop [where n = n and rest = rest] d k nread_ok [OF n] e2 d2 next_bytes_take [OF b'(3)]
        by (simp add: exec_switch_def do_header_value_def COUNT_HEADER_SIZE_def Let_def upd_def set_hs_def
            cb_header_value_def CALLBACK_DATA_AT_def ASSERT_def log_event_def UPDATE_STATE_def)
          (simp add: in_value_def at_def)
    qed
    then show ?case
      using unat_plus_small [OF n] v(2) by (intro exI [of _ "n + of_nat (length cs)"]) simp
  qed (use k k2 v(2) in simp_all)
  also have "(at ?p3 s_header_almost_done ?k)\<lparr>pos := pos (at ?p3 s_header_almost_done ?k) + 1\<rparr> =
      at ?p3 s_header_almost_done (Suc ?k)"
    by simp
  also have "goes log_settings data (at ?p3 s_header_almost_done (Suc ?k)) (at ?p3 s_header_value_lws (Suc (Suc ?k)))"
    by (rule goes_break [OF b'(5)]) (simp add: simple_step do_header_almost_done_def)
  finally show ?thesis by (simp add: eval_nat_numeral)
qed

section \<open>Header lines\<close>

definition header_line :: "string \<times> string \<Rightarrow> string" where
  "header_line h = fst h @ '':'' @ [SP] @ snd h @ [CR, LF]"

definition header_events :: "string \<times> string \<Rightarrow> event list" where
  "header_events h = [Header_field (fst h), Header_value (snd h)]"

text \<open>A header the parser gives no meaning to, by the first letter of its name.\<close>

definition plain_header :: "string \<times> string \<Rightarrow> bool" where
  "plain_header h \<longleftrightarrow> token_string (fst h) \<and> field_start_hs (hd (fst h)) = h_general \<and>
     value_bytes (snd h) \<and> length (snd h) \<le> header_limit"

lemma takeWhile_miss: "x \<notin> set ys \<Longrightarrow> takeWhile (\<lambda>y. y \<noteq> x) (ys @ zs) = ys @ takeWhile (\<lambda>y. y \<noteq> x) zs"
  by (rule takeWhile_append2) auto

lemma memchr_hit: "x \<notin> set ys \<Longrightarrow> memchr x (ys @ x # zs) = Some (length ys)"
  by (simp add: memchr_def Let_def takeWhile_miss)

lemma memchr_after: "x \<notin> set ys \<Longrightarrow> memchr x (ys @ zs) = map_option (\<lambda>i. length ys + i) (memchr x zs)"
  by (simp add: memchr_def Let_def takeWhile_miss)

lemma skip_general_line:
  assumes "CR \<notin> set ys" "LF \<notin> set ys" "length ys < header_limit"
  shows "skip_general (ys @ CR # rest) = length ys"
proof -
  let ?l = "min (length (ys @ CR # rest)) (unat HTTP_MAX_HEADER_SIZE)"
  obtain l where l: "?l - length ys = Suc l"
    using assms(3) by (cases "?l - length ys") (simp_all add: header_limit_def)
  have t: "take ?l (ys @ CR # rest) = ys @ CR # take l rest"
    using l by (simp add: take_append)
  show ?thesis
    unfolding skip_general_def Let_def t
    using memchr_hit [OF assms(1), of "take l rest"] memchr_after [OF assms(2), of "CR # take l rest"]
    by (auto split: option.split)
qed

lemma header_value_loop_general:
  assumes "CR \<notin> set ys" "LF \<notin> set ys" "length ys < header_limit"
  shows "header_value_loop n (ys @ CR # rest) h_general p = Hv_cr (n + length ys) h_general p"
proof (cases ys)
  case Nil
  then show ?thesis by simp
next
  case (Cons y zs)
  have "skip_general (y # zs @ CR # rest) = Suc (length zs)"
    using skip_general_line [OF assms, of rest] Cons by simp
  then show ?thesis
    using assms(1,2) by (auto simp: Cons Let_def)
qed

text \<open>The state after a header line is the start of the next one.\<close>

lemma finish_general [simp]: "p_header_state p = h_general \<Longrightarrow> finish_header p = p"
  by (simp add: finish_header_def connection_flag_def)

lemma finish_header_nread: "finish_header (p\<lparr>p_nread := n\<rparr>) = (finish_header p)\<lparr>p_nread := n\<rparr>"
  by (simp add: finish_header_def connection_flag_def add_flag_def)

lemma goes_next_line:
  assumes "goes st data (at (finish_header p) s_header_field_start k) c'" "k < pos c'"
    and "next_bytes data k [ch]" "ch \<noteq> SP" "ch \<noteq> HT"
  shows "goes st data (at p s_header_value_lws k) c'"
proof -
  have eq: "run_switch st data ch (at (p\<lparr>p_nread := n\<rparr>) s_header_value_lws k) =
      run_switch st data ch (at ((finish_header p)\<lparr>p_nread := n\<rparr>) s_header_field_start k)" for n
    by (rule run_switch_Reexec)
      (use assms in \<open>simp add: exec_switch_def do_header_value_lws_def upd_def UPDATE_STATE_def
        finish_header_nread\<close>)
  have "exec_loop st data (at (p\<lparr>p_nread := n\<rparr>) s_header_value_lws k) =
      exec_loop st data (at ((finish_header p)\<lparr>p_nread := n\<rparr>) s_header_field_start k)"
    if n: "unat n + (pos c' - k) \<le> header_limit" for n
  proof -
    have "unat n + 1 \<le> header_limit" using n assms(2) by simp
    note ok = nread_ok [OF this]
    have "loop_body st data (at (p\<lparr>p_nread := n\<rparr>) s_header_value_lws k) =
        loop_body st data (at ((finish_header p)\<lparr>p_nread := n\<rparr>) s_header_field_start k)"
      using eq [of "n + 1"] assms(3) ok
      by (simp add: loop_body_def PARSING_HEADER_def COUNT_HEADER_SIZE_def Let_def upd_def next_bytes_Cons)
    then show ?thesis
      using assms(3) by (subst (1 2) exec_loop.simps) (simp add: next_bytes_Cons)
  qed
  with assms(1) show ?thesis
    unfolding goes_def at_simps by metis
qed

text \<open>One plain header, from the start of its line to the end of it.\<close>

definition plain_done :: "string \<times> string \<Rightarrow> event list http_parser \<Rightarrow> event list http_parser" where
  "plain_done h p = p\<lparr>p_index := 0, p_header_state := h_general, p_state := s_header_almost_done,
     p_data := p_data p @ header_events h\<rparr>"

lemma goes_plain_header:
  assumes h: "plain_header h" and e: "p_http_errno p = HPE_OK" and b: "next_bytes data k (header_line h)"
  shows "goes log_settings data (at p s_header_field_start k)
    (at (plain_done h p) s_header_value_lws (k + length (header_line h)))"
proof -
  obtain name v where hv: "h = (name, v)" by fastforce
  obtain c cs where n: "name = c # cs"
    using h hv by (cases name) (auto simp: plain_header_def token_string_def)
  obtain d ds where v: "v = d # ds"
    using h hv by (cases v) (auto simp: plain_header_def value_bytes_def)
  have name: "token_string name" "field_start_hs c = h_general"
    and val: "value_bytes v" "length ds < header_limit" "CR \<notin> set ds" "LF \<notin> set ds"
    using h hv n v by (simp_all add: plain_header_def value_bytes_def)
  let ?k = "k + length name + 1"
  let ?p1 = "p\<lparr>p_index := 0, p_header_state := h_general, p_state := s_header_value_discard_ws,
         p_data := p_data p @ [Header_field name]\<rparr>"
  have b': "next_bytes data k (name @ '':'')" "next_bytes data ?k ([SP] @ v @ [CR, LF])"
    using b by (simp_all add: hv header_line_def next_bytes_append next_bytes_Cons)
  have "goes log_settings data (at p s_header_field_start k) (at ?p1 s_header_value_discard_ws ?k)"
  proof (rule goes_field [OF name(1) n e])
    show "header_field_loop cs (p\<lparr>p_index := 0, p_header_state := field_start_hs c, p_nread := n\<rparr>) =
        Some (length cs, p\<lparr>p_index := 0, p_header_state := h_general, p_nread := n\<rparr>)" for n
      unfolding name(2) by (rule header_field_loop_general) (use name(1) n in \<open>simp_all add: token_string_def\<close>)
  qed (rule b')
  also have "goes log_settings data (at ?p1 s_header_value_discard_ws ?k)
      (at (?p1\<lparr>p_header_state := h_general, p_state := s_header_almost_done,
        p_data := p_data ?p1 @ [Header_value v]\<rparr>) s_header_value_lws (?k + length v + 3))"
  proof (rule goes_value [OF val(1) v, where ?p1.0 = ?p1])
    show "do_header_value_start d (at (?p1\<lparr>p_nread := n\<rparr>) s_header_value_discard_ws k) =
        Break (in_value (?p1\<lparr>p_nread := n\<rparr>) k k)" for n k
      by (simp add: do_header_value_start_def Let_def upd_def UPDATE_STATE_def set_mark_def set_hs_def
          in_value_def at_def)
    show "header_value_loop 0 (ds @ CR # rest) (p_header_state ?p1) (?p1\<lparr>p_nread := n\<rparr>) =
        Hv_cr (length ds) h_general (?p1\<lparr>p_nread := n\<rparr>)" for n rest
      using header_value_loop_general [OF val(3,4,2), of 0 rest] by simp
  qed (use e b' in simp_all)
  also have "?k + length v + 3 = k + length (header_line h)"
    by (simp add: hv header_line_def)
  also have "?p1\<lparr>p_header_state := h_general, p_state := s_header_almost_done,
        p_data := p_data ?p1 @ [Header_value v]\<rparr> = plain_done h p"
    by (simp add: plain_done_def header_events_def hv)
  finally show ?thesis .
qed

section \<open>Content-Length\<close>

text \<open>
  The largest number the overflow check lets through, 2 ^ 64 - 7: each digit is taken
  when the number so far is at most (2 ^ 64 - 11) div 10.
\<close>

definition max_content_length :: nat where
  "max_content_length = 18446744073709551609"

definition digits_from :: "nat \<Rightarrow> string \<Rightarrow> nat" where
  "digits_from v ds = foldl (\<lambda>v d. v * 10 + (uc d - 48)) v ds"

lemma digits_from_simps [simp]:
  "digits_from v [] = v" "digits_from v (d # ds) = digits_from (v * 10 + (uc d - 48)) ds"
  by (simp_all add: digits_from_def)

lemma digits_from_ge: "v \<le> digits_from v ds"
proof (induction ds arbitrary: v)
  case (Cons d ds)
  show ?case using Cons.IH [of "v * 10 + (uc d - 48)"] by simp
qed simp

lemma digits_from_value: "digits_from 0 ds = digits_value ds"
  by (simp add: digits_from_def digits_value_def)

lemma digit64_of_nat: "digit64 d = of_nat (uc d - 48)"
  by (simp add: digit64_def)

lemma content_length_check:
  fixes v :: nat
  assumes "v \<le> max_content_length"
  shows "(ULLONG_MAX - 10) div 10 < (of_nat v :: 64 word) \<longleftrightarrow> 1844674407370955160 < v"
proof -
  have "unat (of_nat v :: 64 word) = v"
    using assms by (simp add: unat_of_nat max_content_length_def)
  moreover have "unat ((ULLONG_MAX - 10) div 10) = 1844674407370955160"
    by (simp add: ULLONG_MAX_def unat_div_distrib)
  ultimately show ?thesis by (simp add: word_less_nat_alt)
qed

lemma IS_NUM_plain: "IS_NUM d \<Longrightarrow> d \<noteq> CR \<and> d \<noteq> LF \<and> d \<noteq> SP \<and> d \<noteq> HT"
  by (auto simp: IS_NUM_def)

lemma content_length_char:
  assumes "IS_NUM d" "p_content_length p = of_nat v" "v \<le> max_content_length"
  shows "header_value_char h_content_length d p =
    (if v \<le> 1844674407370955160
     then Hv_go h_content_length (p\<lparr>p_content_length := of_nat (v * 10 + (uc d - 48))\<rparr>) else Hv_bad)"
  using assms IS_NUM_plain [of d] content_length_check [OF assms(3)]
  by (simp add: header_value_char_def Let_def digit64_of_nat not_less del: of_nat_diff)

lemma content_length_loop:
  "\<forall>d \<in> set ds. IS_NUM d \<Longrightarrow> p_content_length p = of_nat v \<Longrightarrow> v \<le> max_content_length \<Longrightarrow>
   digits_from v ds \<le> max_content_length \<Longrightarrow>
   header_value_loop n (ds @ CR # rest) h_content_length p =
     Hv_cr (n + length ds) h_content_length (p\<lparr>p_content_length := of_nat (digits_from v ds)\<rparr>)"
proof (induction ds arbitrary: n v p)
  case Nil
  then show ?case by simp
next
  case (Cons d ds)
  let ?v = "v * 10 + (uc d - 48)"
  have v: "?v \<le> max_content_length"
    using Cons.prems(4) digits_from_ge [of ?v ds] by simp
  then have "v \<le> 1844674407370955160" by (simp add: max_content_length_def)
  then have go: "header_value_char h_content_length d p = Hv_go h_content_length (p\<lparr>p_content_length := of_nat ?v\<rparr>)"
    using content_length_char [of d p v] Cons.prems by simp
  have "header_value_loop (Suc n) (ds @ CR # rest) h_content_length (p\<lparr>p_content_length := of_nat ?v\<rparr>) =
      Hv_cr (Suc n + length ds) h_content_length (p\<lparr>p_content_length := of_nat ?v\<rparr>
        \<lparr>p_content_length := of_nat (digits_from ?v ds)\<rparr>)"
    by (rule Cons.IH) (use Cons.prems v in simp_all)
  then show ?case
    using go IS_NUM_plain [of d] Cons.prems(1) by simp
qed

lemma content_length_overflow:
  "\<forall>d \<in> set ds. IS_NUM d \<Longrightarrow> p_content_length p = of_nat v \<Longrightarrow> v \<le> max_content_length \<Longrightarrow>
   max_content_length < digits_from v ds \<Longrightarrow>
   \<exists>k q. header_value_loop n (ds @ rest) h_content_length p = Hv_error (n + k) h_content_length q \<and> k < length ds"
proof (induction ds arbitrary: n v p)
  case Nil
  then show ?case by simp
next
  case (Cons d ds)
  let ?v = "v * 10 + (uc d - 48)"
  show ?case
  proof (cases "v \<le> 1844674407370955160")
    case True
    have "uc d \<le> 57" using Cons.prems(1) by (simp add: IS_NUM_def)
    then have v: "?v \<le> max_content_length" using True by (simp add: max_content_length_def)
    have go: "header_value_char h_content_length d p = Hv_go h_content_length (p\<lparr>p_content_length := of_nat ?v\<rparr>)"
      using content_length_char [of d p v] Cons.prems True by simp
    obtain k q where "header_value_loop (Suc n) (ds @ rest) h_content_length (p\<lparr>p_content_length := of_nat ?v\<rparr>) =
        Hv_error (Suc n + k) h_content_length q" "k < length ds"
      using Cons.IH [of "p\<lparr>p_content_length := of_nat ?v\<rparr>" ?v "Suc n"] Cons.prems v by auto
    then show ?thesis
      using go IS_NUM_plain [of d] Cons.prems(1) by (intro exI [of _ "Suc k"] exI [of _ q]) simp
  next
    case False
    then show ?thesis
      using content_length_char [of d p v] Cons.prems IS_NUM_plain [of d] by (intro exI [of _ 0] exI [of _ p]) simp
  qed
qed

definition length_done :: "nat \<Rightarrow> event list http_parser \<Rightarrow> event list http_parser" where
  "length_done l p = p\<lparr>p_index := 0, p_header_state := h_content_length, p_content_length := of_nat l,
     p_state := s_header_almost_done, p_data := p_data p @ header_events (''Content-Length'', decimal l)\<rparr>"

lemma content_length_name:
  "header_field_loop ''ontent-Length'' (p\<lparr>p_index := 0, p_header_state := h_C, p_nread := n\<rparr>) =
    Some (13, p\<lparr>p_index := 13, p_header_state := h_content_length, p_nread := n\<rparr>)"
  by (simp add: Let_def TOKEN_def tokens_def tokens_init_def header_field_char_def set_hs_def inc_index_def
      match_field_def match_next_def c_str_at_def)

lemma token_content_length: "token_string ''Content-Length''" "field_start_hs CHR ''C'' = h_C"
  by (simp_all add: token_string_def field_start_hs_def TOKEN_def tokens_def tokens_init_def)

lemma goes_content_length:
  assumes l: "l \<le> max_content_length" and e: "p_http_errno p = HPE_OK"
    and b: "next_bytes data k (header_line (''Content-Length'', decimal l))"
  shows "goes log_settings data (at p s_header_field_start k)
    (at (length_done l p) s_header_value_lws (k + length (header_line (''Content-Length'', decimal l))))"
proof -
  let ?name = "''Content-Length''" and ?v = "decimal l"
  obtain d ds where v: "?v = d # ds" by (cases ?v) auto
  have nums: "IS_NUM d" "\<forall>d \<in> set ds. IS_NUM d" "\<forall>d \<in> set ?v. IS_NUM d"
    using decimal_nums [of l] v by simp_all
  have val: "value_bytes ?v"
    using nums v IS_NUM_plain unfolding value_bytes_def by (metis list.sel(1) decimal_nonempty)
  have dv: "digits_from (uc d - 48) ds = l"
    using digits_value_decimal [of l] digits_from_value [of ?v] v by simp
  have small: "uc d - 48 \<le> max_content_length"
    using digits_from_ge [of "uc d - 48" ds] dv l by simp
  let ?k = "k + length ?name + 1"
  let ?p1 = "p\<lparr>p_index := 13, p_header_state := h_content_length, p_state := s_header_value_discard_ws,
         p_data := p_data p @ [Header_field ?name]\<rparr>"
  let ?p2 = "?p1\<lparr>p_index := 0, p_content_length := of_nat (uc d - 48)\<rparr>"
  let ?p3 = "?p1\<lparr>p_index := 0, p_content_length := of_nat l\<rparr>"
  have b': "next_bytes data k (?name @ '':'')" "next_bytes data ?k ([SP] @ ?v @ [CR, LF])"
    using b by (simp_all add: header_line_def next_bytes_append next_bytes_Cons)
  have "goes log_settings data (at p s_header_field_start k) (at ?p1 s_header_value_discard_ws ?k)"
    by (rule goes_field [OF token_content_length(1) refl e])
      (use b' in \<open>simp_all only: token_content_length(2) content_length_name, simp\<close>)
  also have "goes log_settings data (at ?p1 s_header_value_discard_ws ?k)
      (at (?p3\<lparr>p_header_state := h_content_length, p_state := s_header_almost_done,
        p_data := p_data ?p1 @ [Header_value ?v]\<rparr>) s_header_value_lws (?k + length ?v + 3))"
  proof (rule goes_value [OF val v, where ?p1.0 = ?p2])
    show "do_header_value_start d (at (?p1\<lparr>p_nread := n\<rparr>) s_header_value_discard_ws k) =
        Break (in_value (?p2\<lparr>p_nread := n\<rparr>) k k)" for n k
      using nums(1)
      by (simp add: do_header_value_start_def Let_def upd_def UPDATE_STATE_def set_mark_def
          in_value_def at_def del: of_nat_diff)
    show "header_value_loop 0 (ds @ CR # rest) (p_header_state ?p2) (?p2\<lparr>p_nread := n\<rparr>) =
        Hv_cr (length ds) h_content_length (?p3\<lparr>p_nread := n\<rparr>)" for n rest
      using content_length_loop [of ds "?p2\<lparr>p_nread := n\<rparr>" "uc d - 48" 0 rest] nums(2) small dv l
      by (simp del: of_nat_diff)
  qed (use e b' in simp_all)
  also have "?k + length ?v + 3 = k + length (header_line (?name, ?v))"
    by (simp add: header_line_def)
  also have "?p3\<lparr>p_header_state := h_content_length, p_state := s_header_almost_done,
        p_data := p_data ?p1 @ [Header_value ?v]\<rparr> = length_done l p"
    by (simp add: length_done_def header_events_def)
  finally show ?thesis .
qed

end
