(* ===== verification/HttpMessage.thy ===== *)
theory HttpMessage imports HttpHeaders begin

text \<open>
  Whole requests: the empty line, the body counted by \<open>Content-Length\<close>, and the round
  trip from a printed request to the events of its parts.
\<close>

section \<open>A list of headers\<close>

definition headers_done :: "(string \<times> string) list \<Rightarrow> event list http_parser \<Rightarrow> event list http_parser" where
  "headers_done hs p = fold plain_done hs p"

text \<open>
  Between two header lines the parser waits in \<open>s_header_field_start\<close> (after the start
  line) or in \<open>s_header_value_lws\<close>.
\<close>

definition waits :: "state \<Rightarrow> event list http_parser \<Rightarrow> bool" where
  "waits s p \<longleftrightarrow> s = s_header_field_start \<or>
     s = s_header_value_lws \<and> p_header_state p \<in> {h_general, h_content_length}"

lemma waits_goes:
  assumes "waits s p" "goes st data (at p s_header_field_start k) c'" "k < pos c'"
    and "next_bytes data k [ch]" "ch \<noteq> SP" "ch \<noteq> HT"
  shows "goes st data (at p s k) c'"
proof -
  have "s = s_header_value_lws \<Longrightarrow> finish_header p = p"
    using assms(1) by (auto simp: waits_def finish_header_def connection_flag_def)
  then show ?thesis
    using assms goes_next_line [of st data p k c' ch] by (auto simp: waits_def)
qed

lemma header_line_first:
  assumes "token_string (fst h)"
  shows "\<exists>ch r. header_line h = ch # r \<and> ch \<noteq> SP \<and> ch \<noteq> HT"
  using assms TOKEN_special by (cases "fst h") (auto simp: header_line_def token_string_def)

lemma plain_done_errno [simp]: "p_http_errno (plain_done h p) = p_http_errno p"
  by (simp add: plain_done_def)

lemma goes_plain_headers:
  "\<forall>h \<in> set hs. plain_header h \<Longrightarrow> p_http_errno p = HPE_OK \<Longrightarrow> waits s p \<Longrightarrow>
   next_bytes data k (concat (map header_line hs)) \<Longrightarrow>
   \<exists>s'. waits s' (headers_done hs p) \<and>
     goes log_settings data (at p s k) (at (headers_done hs p) s' (k + length (concat (map header_line hs))))"
proof (induction hs arbitrary: p s k)
  case Nil
  then show ?case by (auto simp: headers_done_def intro: goes_refl)
next
  case (Cons h hs)
  let ?k = "k + length (header_line h)"
  have b: "next_bytes data k (header_line h)" "next_bytes data ?k (concat (map header_line hs))"
    using Cons.prems(4) by (simp_all add: next_bytes_append)
  obtain ch r where ch: "header_line h = ch # r" "ch \<noteq> SP" "ch \<noteq> HT"
    using header_line_first [of h] Cons.prems(1) by (auto simp: plain_header_def)
  have "goes log_settings data (at p s_header_field_start k) (at (plain_done h p) s_header_value_lws ?k)"
    using goes_plain_header [OF _ Cons.prems(2) b(1)] Cons.prems(1) by simp
  then have 1: "goes log_settings data (at p s k) (at (plain_done h p) s_header_value_lws ?k)"
    by (rule waits_goes [OF Cons.prems(3)]) (use b(1) ch in \<open>auto simp: next_bytes_Cons\<close>)
  have "waits s_header_value_lws (plain_done h p)"
    by (simp add: waits_def plain_done_def)
  then obtain s' where "waits s' (headers_done hs (plain_done h p))"
    "goes log_settings data (at (plain_done h p) s_header_value_lws ?k)
      (at (headers_done hs (plain_done h p)) s' (?k + length (concat (map header_line hs))))"
    using Cons.IH [OF _ _ _ b(2), of "plain_done h p"] Cons.prems by auto
  with 1 show ?case
    by (auto simp: headers_done_def add.assoc intro: goes_trans)
qed

section \<open>The empty line\<close>

text \<open>A request with no upgrade: what the parser does with its body after the headers.\<close>

definition plain_request :: "event list http_parser \<Rightarrow> bool" where
  "plain_request p \<longleftrightarrow> p_type p = HTTP_REQUEST \<and> p_flags p = 0 \<and> p_method p \<noteq> HTTP_CONNECT \<and>
     p_http_errno p = HPE_OK"

definition has_length :: "event list http_parser \<Rightarrow> bool" where
  "has_length p \<longleftrightarrow> p_content_length p \<noteq> 0 \<and> p_content_length p \<noteq> ULLONG_MAX"

definition completed :: "event list http_parser \<Rightarrow> event list http_parser" where
  "completed p = p\<lparr>p_upgrade := False, p_state := NEW_MESSAGE p,
     p_data := p_data p @ [Headers_complete, Message_complete]\<rparr>"

definition in_body :: "event list http_parser \<Rightarrow> event list http_parser" where
  "in_body p = p\<lparr>p_upgrade := False, p_data := p_data p @ [Headers_complete]\<rparr>"

lemma NEW_MESSAGE_frame [simp]:
  "NEW_MESSAGE (p\<lparr>p_nread := n\<rparr>) = NEW_MESSAGE p"
  "NEW_MESSAGE (p\<lparr>p_nread := n, p_content_length := l\<rparr>) = NEW_MESSAGE (p\<lparr>p_content_length := l\<rparr>)"
  "NEW_MESSAGE (p\<lparr>p_upgrade := u\<rparr>) = NEW_MESSAGE p"
  "NEW_MESSAGE (p\<lparr>p_data := d\<rparr>) = NEW_MESSAGE p"
  "NEW_MESSAGE (p\<lparr>p_state := s\<rparr>) = NEW_MESSAGE p"
  by (simp_all add: NEW_MESSAGE_def http_should_keep_alive_def http_message_needs_eof_def flag_set_def
      start_state_def)

lemma headers_end_switch:
  assumes r: "plain_request p" and s: "cur_state c = s_headers_almost_done" and p: "parser c = p"
  shows "exec_switch log_settings data LF c =
    Reexec (c\<lparr>parser := in_body p, cur_state := s_headers_done\<rparr>) LF"
  using assms
  by (simp add: exec_switch_def do_headers_almost_done_def STRICT_CHECK_def plain_request_def flag_set_def
      UPDATE_STATE_def upd_def log_event_def in_body_def Let_def)

lemma needs_no_eof: "p_type p = HTTP_REQUEST \<Longrightarrow> \<not> http_message_needs_eof p"
  by (simp add: http_message_needs_eof_def)

lemma headers_done_switch:
  assumes r: "plain_request p"
  shows "exec_switch log_settings data LF (at (in_body p) s_headers_done k) =
    (if has_length p then Break (at ((in_body p)\<lparr>p_nread := 0\<rparr>) s_body_identity k)
     else Break (at ((completed p)\<lparr>p_nread := 0\<rparr>) (NEW_MESSAGE p) k))"
  using r
  by (simp add: exec_switch_def do_headers_done_def STRICT_CHECK_def plain_request_def flag_set_def
      has_body_def Let_def message_complete_def CALLBACK_NOTIFY_def CALLBACK_NOTIFY_AT_def ASSERT_def
      new_message_def UPDATE_STATE_def upd_def log_event_def in_body_def completed_def has_length_def
      needs_no_eof)

lemma body_nread:
  "has_length (p\<lparr>p_nread := n\<rparr>) = has_length p"
  "(in_body (p\<lparr>p_nread := n\<rparr>))\<lparr>p_nread := m\<rparr> = (in_body p)\<lparr>p_nread := m\<rparr>"
  "(completed (p\<lparr>p_nread := n\<rparr>))\<lparr>p_nread := m\<rparr> = (completed p)\<lparr>p_nread := m\<rparr>"
  by (simp_all add: has_length_def in_body_def completed_def)

lemma goes_headers_cr:
  assumes w: "waits s p" and b: "next_bytes data k [CR]"
  shows "goes st data (at p s k) (at p s_headers_almost_done (Suc k))"
proof -
  have "goes st data (at p s_header_field_start k) (at p s_headers_almost_done (Suc k))"
    by (rule goes_break [OF b]) (simp add: simple_step do_header_field_start_def)
  then show ?thesis
    by (rule waits_goes [OF w, where ch = CR]) (use b in simp_all)
qed

text \<open>The last byte of the head resets the header byte count.\<close>

lemma headers_end_loop:
  assumes r: "plain_request p" and b: "next_bytes data k [LF]" and n: "unat n + 1 \<le> header_limit"
  shows "exec_loop log_settings data (at (p\<lparr>p_nread := n\<rparr>) s_headers_almost_done k) =
    exec_loop log_settings data (set_nread 0 (if has_length p then at (in_body p) s_body_identity (Suc k)
     else at (completed p) (NEW_MESSAGE p) (Suc k)))"
proof -
  let ?d = "if has_length p then at (in_body p) s_body_identity k else at (completed p) (NEW_MESSAGE p) k"
  have r': "plain_request (p\<lparr>p_nread := m\<rparr>)" for m using r by (simp add: plain_request_def)
  have "run_switch log_settings data LF (at (p\<lparr>p_nread := n + 1\<rparr>) s_headers_almost_done k) =
      run_switch log_settings data LF (at (in_body (p\<lparr>p_nread := n + 1\<rparr>)) s_headers_done k)"
    by (rule run_switch_Reexec) (simp add: headers_end_switch [OF r'])
  also have "\<dots> = Some (Break (set_nread 0 ?d))"
    by (rule run_switch_Break) (simp add: headers_done_switch [OF r'] body_nread)
  finally have "loop_body log_settings data (at (p\<lparr>p_nread := n\<rparr>) s_headers_almost_done k) =
      Some (Break (set_nread 0 ?d))"
    using b nread_ok [OF n]
    by (simp add: loop_body_def PARSING_HEADER_def COUNT_HEADER_SIZE_def Let_def upd_def next_bytes_Cons)
  from loop_unfold [OF _ this] b show ?thesis by (simp add: next_bytes_Cons)
qed

section \<open>The body\<close>

definition got_body :: "string \<Rightarrow> event list http_parser \<Rightarrow> event list http_parser" where
  "got_body body p = p\<lparr>p_content_length := 0, p_state := NEW_MESSAGE (p\<lparr>p_content_length := 0\<rparr>),
     p_data := p_data p @ [Body body, Message_complete]\<rparr>"

lemma body_length_word:
  assumes "0 < n" "n \<le> max_content_length"
  shows "(of_nat n :: 64 word) \<noteq> 0" "(of_nat n :: 64 word) \<noteq> ULLONG_MAX" "unat (of_nat n :: 64 word) = n"
proof -
  show u: "unat (of_nat n :: 64 word) = n"
    using assms(2) by (simp add: unat_of_nat max_content_length_def)
  show "(of_nat n :: 64 word) \<noteq> 0"
    using u assms(1) by (metis less_irrefl unat_0)
  show "(of_nat n :: 64 word) \<noteq> ULLONG_MAX"
    using u assms(2) unat_ULLONG_MAX by (auto simp: max_content_length_def)
qed

lemma body_loop:
  assumes l: "p_content_length p = of_nat (length body)" "body \<noteq> []" "length body \<le> max_content_length"
    and e: "p_http_errno p = HPE_OK" "\<not> p_upgrade p"
    and b: "next_bytes data k body"
  shows "exec_loop log_settings data (at (p\<lparr>p_nread := n\<rparr>) s_body_identity k) =
    exec_loop log_settings data (at ((got_body body p)\<lparr>p_nread := n\<rparr>)
      (NEW_MESSAGE (p\<lparr>p_content_length := 0\<rparr>)) (k + length body))"
proof -
  let ?n = "length body"
  let ?c = "at (got_body body p) (NEW_MESSAGE (p\<lparr>p_content_length := 0\<rparr>)) (k + ?n - 1)"
  have "0 < ?n" using l(2) by simp
  note nz = body_length_word(1) [OF this l(3)] and nm = body_length_word(2) [OF this l(3)]
    and u = body_length_word(3) [OF this l(3)]
  have k: "?n \<le> length data - k" "k < length data"
  proof -
    obtain rest where "drop k data = body @ rest" using b by (auto simp: next_bytes_def)
    then have "length data - k = ?n + length rest" by (metis length_append length_drop)
    moreover have "0 < ?n" using l(2) by simp
    ultimately show "?n \<le> length data - k" "k < length data" by linarith+
  qed
  have pos: "k + ?n - 1 + 1 = k + ?n" using l(2) by (cases body) simp_all
  have m: "min ?n (length data - k) = ?n" using k(1) by simp
  let ?p0 = "p\<lparr>p_nread := n, p_content_length := 0, p_state := s_message_done, p_data := p_data p @ [Body body]\<rparr>"
  have "run_switch log_settings data (data ! k) (at (p\<lparr>p_nread := n\<rparr>) s_body_identity k) =
      run_switch log_settings data (data ! k) (at ?p0 s_message_done (k + ?n - 1))"
    by (rule run_switch_Reexec)
      (use l(1) e u m nz nm pos next_bytes_take [OF b] in
        \<open>simp add: exec_switch_def do_body_identity_def ASSERT_def read_body_def Let_def upd_def
          cb_body_def CALLBACK_DATA_AT_def UPDATE_STATE_def set_mark_def log_event_def\<close>)
  also have "\<dots> = Some (Break (set_nread n ?c))"
    by (rule run_switch_Break)
      (use e in \<open>simp add: exec_switch_def do_message_done_def message_complete_def CALLBACK_NOTIFY_def
        CALLBACK_NOTIFY_AT_def ASSERT_def new_message_def UPDATE_STATE_def log_event_def Let_def got_body_def\<close>)
  finally have "loop_body log_settings data (at (p\<lparr>p_nread := n\<rparr>) s_body_identity k) =
      Some (Break (set_nread n ?c))"
    by (simp add: loop_body_def PARSING_HEADER_def)
  from loop_unfold [OF _ this] k pos show ?thesis by simp
qed

section \<open>A request\<close>

record request =
  r_method :: http_method
  r_url :: string
  r_major :: nat
  r_minor :: nat
  r_headers :: "(string \<times> string) list"
  r_body :: string

definition length_header :: "string \<Rightarrow> (string \<times> string) list" where
  "length_header body = (if body = [] then [] else [(''Content-Length'', decimal (length body))])"

definition print_head :: "request \<Rightarrow> string" where
  "print_head r = request_line (r_method r) (r_url r) (r_major r) (r_minor r) @
     concat (map header_line (r_headers r)) @ concat (map header_line (length_header (r_body r))) @ [CR, LF]"

definition print_request :: "request \<Rightarrow> string" where
  "print_request r = print_head r @ r_body r"

definition request_events :: "request \<Rightarrow> event list" where
  "request_events r = [Message_begin, Url (r_url r)] @ concat (map header_events (r_headers r)) @
     concat (map header_events (length_header (r_body r))) @ [Headers_complete] @
     (if r_body r = [] then [] else [Body (r_body r)]) @ [Message_complete]"

definition valid_request :: "request \<Rightarrow> bool" where
  "valid_request r \<longleftrightarrow> r_method r \<noteq> HTTP_CONNECT \<and> valid_url (r_method r) (r_url r) \<and>
     1 \<le> r_major r \<and> r_major r \<le> 999 \<and> r_minor r \<le> 999 \<and> (\<forall>h \<in> set (r_headers r). plain_header h) \<and>
     length (r_body r) \<le> max_content_length \<and> length (print_head r) \<le> header_limit"

lemma headers_done_frame:
  "p_type (headers_done hs p) = p_type p" "p_flags (headers_done hs p) = p_flags p"
  "p_method (headers_done hs p) = p_method p" "p_http_errno (headers_done hs p) = p_http_errno p"
  "p_content_length (headers_done hs p) = p_content_length p"
  "p_http_major (headers_done hs p) = p_http_major p" "p_http_minor (headers_done hs p) = p_http_minor p"
  "p_data (headers_done hs p) = p_data p @ concat (map header_events hs)"
  unfolding headers_done_def by (induction hs arbitrary: p) (simp_all add: plain_done_def)

definition length_line_done :: "string \<Rightarrow> event list http_parser \<Rightarrow> event list http_parser" where
  "length_line_done body p = (if body = [] then p else length_done (length body) p)"

lemma goes_length_header:
  assumes w: "waits s p" and e: "p_http_errno p = HPE_OK" and l: "length body \<le> max_content_length"
    and b: "next_bytes data k (concat (map header_line (length_header body)))"
  shows "\<exists>s'. waits s' (length_line_done body p) \<and>
    goes log_settings data (at p s k) (at (length_line_done body p) s'
      (k + length (concat (map header_line (length_header body)))))"
proof (cases "body = []")
  case True
  then show ?thesis using w by (auto simp: length_line_done_def length_header_def intro: goes_refl)
next
  case False
  let ?h = "(''Content-Length'', decimal (length body))"
  have b': "next_bytes data k (header_line ?h)" using b False by (simp add: length_header_def)
  have "goes log_settings data (at p s_header_field_start k)
      (at (length_done (length body) p) s_header_value_lws (k + length (header_line ?h)))"
    by (rule goes_content_length [OF l e b'])
  then have "goes log_settings data (at p s k)
      (at (length_done (length body) p) s_header_value_lws (k + length (header_line ?h)))"
    by (rule waits_goes [OF w, where ch = "CHR ''C''"])
      (use b' in \<open>simp_all add: header_line_def next_bytes_Cons\<close>)
  moreover have "waits s_header_value_lws (length_done (length body) p)"
    by (simp add: waits_def length_done_def)
  ultimately show ?thesis using False by (auto simp: length_line_done_def length_header_def)
qed

text \<open>What a request leaves: its events, and the state between messages.\<close>

definition request_done :: "request \<Rightarrow> event list http_parser \<Rightarrow> event list http_parser \<Rightarrow> bool" where
  "request_done r p q \<longleftrightarrow> p_data q = p_data p @ request_events r \<and> p_method q = r_method r \<and>
     p_http_major q = of_nat (r_major r) \<and> p_http_minor q = of_nat (r_minor r) \<and>
     p_type q = HTTP_REQUEST \<and> p_http_errno q = HPE_OK \<and> \<not> p_upgrade q \<and> p_nread q = 0 \<and>
     p_state q = (if r_minor r = 0 then s_dead else s_start_req)"

lemma new_message_state:
  assumes "p_type p = HTTP_REQUEST" "p_flags p = 0" "p_http_major p = of_nat major" "p_http_minor p = of_nat minor"
    and "1 \<le> major" "major \<le> 999" "minor \<le> 999"
  shows "NEW_MESSAGE p = (if minor = 0 then s_dead else s_start_req)"
proof -
  have "unat (of_nat major :: 16 word) = major" "unat (of_nat minor :: 16 word) = minor"
    using assms(6,7) by (simp_all add: unat_of_nat)
  then have "(0 :: 16 word) < of_nat major" "(0 :: 16 word) < of_nat minor \<longleftrightarrow> 0 < minor"
    using assms(5) by (simp_all add: word_less_nat_alt)
  then show ?thesis
    using assms(1-4) by (simp add: NEW_MESSAGE_def http_should_keep_alive_def flag_set_def needs_no_eof
        start_state_def)
qed

definition head_done :: "request \<Rightarrow> event list http_parser \<Rightarrow> event list http_parser" where
  "head_done r p = length_line_done (r_body r)
     (headers_done (r_headers r) (got_line p (r_method r) (r_url r) (r_major r) (r_minor r)))"

lemma head_done_frame:
  "p_type (head_done r p) = p_type p" "p_flags (head_done r p) = 0"
  "p_method (head_done r p) = r_method r" "p_http_errno (head_done r p) = p_http_errno p"
  "p_content_length (head_done r p) = (if r_body r = [] then ULLONG_MAX else of_nat (length (r_body r)))"
  "p_http_major (head_done r p) = of_nat (r_major r)" "p_http_minor (head_done r p) = of_nat (r_minor r)"
  "p_data (head_done r p) = p_data p @ [Message_begin, Url (r_url r)] @
     concat (map header_events (r_headers r)) @ concat (map header_events (length_header (r_body r)))"
  by (simp_all add: head_done_def length_line_done_def length_done_def headers_done_frame got_line_def
      reset_message_def length_header_def)

lemma goes_head:
  assumes v: "valid_request r" and e: "p_http_errno p = HPE_OK" and b: "next_bytes data k (print_head r)"
  shows "goes log_settings data (at p s_start_req k)
    (at (head_done r p) s_headers_almost_done (k + length (print_head r) - 1))"
proof -
  let ?line = "request_line (r_method r) (r_url r) (r_major r) (r_minor r)"
  let ?hs = "concat (map header_line (r_headers r))"
  let ?ls = "concat (map header_line (length_header (r_body r)))"
  let ?p1 = "got_line p (r_method r) (r_url r) (r_major r) (r_minor r)"
  let ?p2 = "headers_done (r_headers r) ?p1"
  let ?k1 = "k + length ?line"
  let ?k2 = "?k1 + length ?hs"
  let ?k3 = "?k2 + length ?ls"
  have b': "next_bytes data k ?line" "next_bytes data ?k1 ?hs" "next_bytes data ?k2 ?ls"
    "next_bytes data ?k3 [CR]"
    using b by (simp_all add: print_head_def next_bytes_append next_bytes_Cons add.assoc)
  have e1: "p_http_errno ?p1 = HPE_OK" "p_http_errno ?p2 = HPE_OK"
    using e by (simp_all add: headers_done_frame got_line_def reset_message_def)
  have w1: "waits s_header_field_start ?p1" by (simp add: waits_def)
  have "\<forall>h \<in> set (r_headers r). plain_header h" using v by (simp add: valid_request_def)
  from goes_plain_headers [OF this e1(1) w1 b'(2)] obtain s1 where s1: "waits s1 ?p2"
    "goes log_settings data (at ?p1 s_header_field_start ?k1) (at ?p2 s1 ?k2)"
    by blast
  have "length (r_body r) \<le> max_content_length" using v by (simp add: valid_request_def)
  from goes_length_header [OF s1(1) e1(2) this b'(3)] obtain s2 where s2: "waits s2 (head_done r p)"
    "goes log_settings data (at ?p2 s1 ?k2) (at (head_done r p) s2 ?k3)"
    unfolding head_done_def by blast
  have "goes log_settings data (at p s_start_req k) (at ?p1 s_header_field_start ?k1)"
    by (rule goes_request_line) (use v e b' in \<open>simp_all add: valid_request_def\<close>)
  also note s1(2)
  also note s2(2)
  also note goes_headers_cr [OF s2(1) b'(4), of log_settings]
  also have "Suc ?k3 = k + length (print_head r) - 1"
    by (simp add: print_head_def)
  finally show ?thesis .
qed

lemma goesD:
  "goes st data c c' \<Longrightarrow> unat n + (pos c' - pos c) \<le> header_limit \<Longrightarrow>
   \<exists>n'. unat n' \<le> unat n + (pos c' - pos c) \<and>
     exec_loop st data (set_nread n c) = exec_loop st data (set_nread n' c')"
  unfolding goes_def by blast

lemma request_loop:
  assumes v: "valid_request r" and p: "p_type p = HTTP_REQUEST" "p_http_errno p = HPE_OK" "p_nread p = 0"
    and b: "next_bytes data k (print_request r)"
  shows "\<exists>q. request_done r p q \<and>
    exec_loop log_settings data (at p s_start_req k) =
      exec_loop log_settings data (at q (p_state q) (k + length (print_request r)))"
proof -
  let ?h = "head_done r p" and ?k = "k + length (print_head r)"
  have b': "next_bytes data k (print_head r)" "next_bytes data ?k (r_body r)"
    using b by (simp_all add: print_request_def next_bytes_append)
  have len: "length (print_head r) = Suc (length (print_head r) - 1)" "length (print_head r) \<le> header_limit"
    using v by (simp_all add: print_head_def valid_request_def)
  have lf: "next_bytes data (?k - 1) [LF]"
    using b'(1) by (simp add: print_head_def next_bytes_append next_bytes_Cons add.assoc)
  have pr: "plain_request ?h"
    using v p by (simp add: plain_request_def head_done_frame valid_request_def)
  have nm1: "NEW_MESSAGE ?h = (if r_minor r = 0 then s_dead else s_start_req)"
    by (rule new_message_state [where major = "r_major r"])
      (use v p in \<open>simp_all add: head_done_frame valid_request_def\<close>)
  have nm2: "NEW_MESSAGE ((in_body ?h)\<lparr>p_content_length := 0\<rparr>) =
      (if r_minor r = 0 then s_dead else s_start_req)"
    by (rule new_message_state [where major = "r_major r"])
      (use v p in \<open>simp_all add: head_done_frame valid_request_def in_body_def\<close>)
  obtain n where n: "unat n \<le> length (print_head r) - 1"
    "exec_loop log_settings data (at p s_start_req k) =
       exec_loop log_settings data (at (?h\<lparr>p_nread := n\<rparr>) s_headers_almost_done (?k - 1))"
  proof -
    have p0: "p\<lparr>p_nread := 0\<rparr> = p" using p(3) by (cases p) simp
    have "unat (0 :: 32 word) + (pos (at ?h s_headers_almost_done (?k - 1)) - pos (at p s_start_req k)) \<le> header_limit"
      using len by simp
    from goesD [OF goes_head [OF v p(2) b'(1)] this] show ?thesis
      using that p0 by auto
  qed
  have "unat n + 1 \<le> header_limit" using n(1) len by linarith
  note loop = n(2) [unfolded headers_end_loop [OF pr lf this]]
  have k: "Suc (?k - 1) = ?k" using len(1) by linarith
  show ?thesis
  proof (cases "r_body r = []")
    case True
    let ?q = "(completed ?h)\<lparr>p_nread := 0\<rparr>"
    have "\<not> has_length ?h" using True by (simp add: has_length_def head_done_frame)
    then have "exec_loop log_settings data (at p s_start_req k) =
        exec_loop log_settings data (at ?q (p_state ?q) (k + length (print_request r)))"
      using loop True unfolding k by (simp add: print_request_def completed_def)
    moreover have "request_done r p ?q"
      using v p True nm1
      by (simp add: request_done_def completed_def head_done_frame request_events_def valid_request_def)
    ultimately show ?thesis by blast
  next
    case False
    let ?q = "(got_body (r_body r) (in_body ?h))\<lparr>p_nread := 0\<rparr>"
    have bl: "length (r_body r) \<le> max_content_length" using v by (simp add: valid_request_def)
    have "has_length ?h"
      using body_length_word [of "length (r_body r)"] bl False by (simp add: has_length_def head_done_frame)
    then have "exec_loop log_settings data (at p s_start_req k) =
        exec_loop log_settings data (at ((in_body ?h)\<lparr>p_nread := 0\<rparr>) s_body_identity ?k)"
      using loop unfolding k by simp
    also have "\<dots> = exec_loop log_settings data (at ?q (NEW_MESSAGE ((in_body ?h)\<lparr>p_content_length := 0\<rparr>))
        (?k + length (r_body r)))"
      by (rule body_loop) (use False bl p b'(2) in \<open>simp_all add: in_body_def head_done_frame\<close>)
    also have "\<dots> = exec_loop log_settings data (at ?q (p_state ?q) (k + length (print_request r)))"
      by (simp add: got_body_def print_request_def add.assoc)
    finally have "exec_loop log_settings data (at p s_start_req k) =
        exec_loop log_settings data (at ?q (p_state ?q) (k + length (print_request r)))" .
    moreover have "request_done r p ?q"
      using v p False nm2
      by (simp add: request_done_def got_body_def in_body_def head_done_frame request_events_def valid_request_def)
    ultimately show ?thesis by blast
  qed
qed

text \<open>Pipelined requests, one after the other in one buffer.\<close>

definition between :: "event list http_parser \<Rightarrow> bool" where
  "between p \<longleftrightarrow> p_type p = HTTP_REQUEST \<and> p_http_errno p = HPE_OK \<and> p_nread p = 0 \<and>
     p_state p = s_start_req"

lemma requests_loop:
  "\<forall>r \<in> set rs. valid_request r \<and> 0 < r_minor r \<Longrightarrow> between p \<Longrightarrow>
   next_bytes data k (concat (map print_request rs)) \<Longrightarrow>
   \<exists>q. between q \<and> p_data q = p_data p @ concat (map request_events rs) \<and>
     exec_loop log_settings data (at p s_start_req k) =
       exec_loop log_settings data (at q s_start_req (k + length (concat (map print_request rs))))"
proof (induction rs arbitrary: p k)
  case Nil
  then show ?case by (intro exI [of _ p]) simp
next
  case (Cons r rs)
  have b: "next_bytes data k (print_request r)"
    "next_bytes data (k + length (print_request r)) (concat (map print_request rs))"
    using Cons.prems(3) by (simp_all add: next_bytes_append)
  obtain q where q: "request_done r p q" "exec_loop log_settings data (at p s_start_req k) =
      exec_loop log_settings data (at q (p_state q) (k + length (print_request r)))"
    using request_loop [OF _ _ _ _ b(1), of p] Cons.prems(1,2) by (auto simp: between_def)
  have "between q" "p_state q = s_start_req"
    using q(1) Cons.prems(1) by (simp_all add: request_done_def between_def)
  then obtain q' where "between q'" "p_data q' = p_data q @ concat (map request_events rs)"
    "exec_loop log_settings data (at q s_start_req (k + length (print_request r))) =
       exec_loop log_settings data (at q' s_start_req (k + length (print_request r) +
         length (concat (map print_request rs))))"
    using Cons.IH [OF _ _ b(2), of q] Cons.prems(1) by auto
  with q \<open>p_state q = s_start_req\<close> show ?case
    by (intro exI [of _ q']) (simp add: request_done_def add.assoc)
qed

lemma loop_end: "exec_loop st data (at p s (length data)) = Some (Return (length data) (p\<lparr>p_state := s\<rparr>))"
  if "p_http_errno p = HPE_OK"
  using that
  by (subst exec_loop.simps) (simp add: leftover_callbacks_def marks_def ASSERT_def cb_defs
      CALLBACK_DATA_AT_def RETURN_def)

lemma init_at:
  "p_state p = s_start_req \<Longrightarrow> init_ctx p = at p s_start_req 0"
  by (simp add: init_ctx_def at_def url_states_def)

lemma next_bytes_all: "next_bytes data 0 data"
  by (simp add: next_bytes_def)

end
