(* ===== verification/HttpMethod.thy ===== *)
theory HttpMethod imports HttpMessage begin

text \<open>
  The method recogniser rejects what is not in the table: with the acceptance lemma of the
  request line, a word is read as a method exactly when it is that method's name.
\<close>

section \<open>Errors\<close>

text \<open>One byte whose handler goes to \<open>error\<close>.\<close>

lemma loop_fail:
  assumes k: "pos c < length data" and n: "unat n + 1 \<le> header_limit"
    and s: "PARSING_HEADER (cur_state c)" and e: "e \<noteq> HPE_OK"
    and f: "exec_switch st data (data ! pos c) (set_nread (n + 1) c) = fail e c'"
  shows "\<exists>q. exec_loop st data (set_nread n c) = Some (Return (pos c') q) \<and> p_http_errno q = e"
proof -
  have "run_switch st data (data ! pos c) (set_nread (n + 1) c) = Some (fail e c')"
    using f by (subst run_switch.simps) (simp add: fail_def)
  then have "loop_body st data (set_nread n c) = Some (fail e c')"
    using s nread_ok [OF n]
    by (simp add: loop_body_def COUNT_HEADER_SIZE_def Let_def upd_def set_nread_def)
  then show ?thesis
    using k e by (subst exec_loop.simps) (simp add: fail_def error_exit_def RETURN_def SET_ERRNO_def upd_def)
qed

definition rejects :: "'d http_parser_settings \<Rightarrow> char list \<Rightarrow> 'd ctx \<Rightarrow> http_errno \<Rightarrow> nat \<Rightarrow> bool" where
  "rejects st data c e l \<longleftrightarrow> (\<forall>n. unat n + l \<le> header_limit \<longrightarrow>
     (\<exists>m q. exec_loop st data (set_nread n c) = Some (Return m q) \<and> p_http_errno q = e))"

lemma rejects_mono: "rejects st data c e l \<Longrightarrow> l \<le> l' \<Longrightarrow> rejects st data c e l'"
  by (simp add: rejects_def)

lemma goes_rejects:
  assumes g: "goes st data c c'" and r: "rejects st data c' e l"
  shows "rejects st data c e (pos c' - pos c + l)"
  unfolding rejects_def
proof (intro allI impI)
  fix n :: "32 word"
  assume n: "unat n + (pos c' - pos c + l) \<le> header_limit"
  then obtain n' where "unat n' \<le> unat n + (pos c' - pos c)"
    "exec_loop st data (set_nread n c) = exec_loop st data (set_nread n' c')"
    using goesD [OF g, of n] by auto
  then show "\<exists>m q. exec_loop st data (set_nread n c) = Some (Return m q) \<and> p_http_errno q = e"
    using r n by (auto simp: rejects_def)
qed

lemma rejects_at:
  assumes "next_bytes data k [ch]" "PARSING_HEADER s" "e \<noteq> HPE_OK"
    and "\<And>n. \<exists>c'. exec_switch st data ch (at (p\<lparr>p_nread := n\<rparr>) s k) = fail e c'"
  shows "rejects st data (at p s k) e 1"
  unfolding rejects_def
proof (intro allI impI)
  fix n :: "32 word"
  assume n: "unat n + 1 \<le> header_limit"
  obtain c' where "exec_switch st data ch (at (p\<lparr>p_nread := n + 1\<rparr>) s k) = fail e c'"
    using assms(4) by blast
  then show "\<exists>m q. exec_loop st data (set_nread n (at p s k)) = Some (Return m q) \<and> p_http_errno q = e"
    using loop_fail [of "at p s k" data n e st c'] n assms(1-3) by (auto simp: next_bytes_Cons)
qed

section \<open>Words that are not methods\<close>

lemma method_bytes: "x \<in> set (method_strings m) \<Longrightarrow> x \<noteq> NUL"
  by (cases m) auto

lemma c_str_at_NUL: "c_str_at (method_strings m) i = Some NUL \<Longrightarrow> i = length (method_strings m)"
  using method_bytes [of "method_strings m ! i" m] by (auto simp: c_str_at_def split: if_splits)

lemma method_byte_rejects:
  assumes "method_byte (m, i) ch = None" "i \<le> length (method_strings m)"
    and "ch = SP \<longrightarrow> i < length (method_strings m)" "next_bytes data k [ch]"
  shows "rejects st data (at (began p m i) s_req_method k) HPE_INVALID_METHOD 1"
proof (rule rejects_at [OF assms(4)])
  have i: "i < 255" using assms(2) method_strings_short [of m] by linarith
  then have u: "unat (of_nat i :: 8 word) = i" by (simp add: unat_of_nat)
  obtain x where x: "c_str_at (method_strings m) i = Some x"
    using assms(2) by (auto simp: c_str_at_def le_less)
  have "ch = SP \<Longrightarrow> x \<noteq> NUL"
    using c_str_at_NUL [of m i] x assms(3) by auto
  then show "\<exists>c'. exec_switch st data ch (at (began p m i\<lparr>p_nread := n\<rparr>) s_req_method k) =
      fail HPE_INVALID_METHOD c'" for n
    using assms(1) x u
    by (auto simp: exec_switch_def do_req_method_def method_byte_def Let_def split: if_splits option.split)
qed (simp_all add: PARSING_HEADER_def)

lemma method_run_rejects:
  "method_run (m, i) cs = None \<Longrightarrow> i \<le> length (method_strings m) \<Longrightarrow> SP \<notin> set cs \<Longrightarrow>
   p_http_errno p = HPE_OK \<Longrightarrow> next_bytes data k cs \<Longrightarrow>
   rejects st data (at (began p m i) s_req_method k) HPE_INVALID_METHOD (length cs)"
proof (induction cs arbitrary: m i k)
  case Nil
  then show ?case by simp
next
  case (Cons ch cs)
  have b: "next_bytes data k [ch]" "next_bytes data (Suc k) cs"
    using Cons.prems(5) by (simp_all add: next_bytes_Cons)
  show ?case
  proof (cases "method_byte (m, i) ch")
    case None
    then have "rejects st data (at (began p m i) s_req_method k) HPE_INVALID_METHOD 1"
      using method_byte_rejects [OF None Cons.prems(2) _ b(1)] Cons.prems(3) by auto
    then show ?thesis by (rule rejects_mono) simp
  next
    case (Some mi)
    obtain m1 i1 where mi: "mi = (m1, i1)" by fastforce
    note s = Some [unfolded mi] and le = method_byte_prefix [OF Some [unfolded mi] Cons.prems(2)]
    have "rejects st data (at (began p m1 i1) s_req_method (Suc k)) HPE_INVALID_METHOD (length cs)"
      by (rule Cons.IH) (use Cons.prems s le b in simp_all)
    from goes_rejects [OF req_method_byte [OF s Cons.prems(2,4) b(1)] this] show ?thesis
      by simp
  qed
qed

lemma start_req_rejects:
  assumes "\<not> IS_ALPHA ch \<or> first_method ch = None" "ch \<noteq> CR" "ch \<noteq> LF" "next_bytes data k [ch]"
  shows "rejects st data (at p s_start_req k) HPE_INVALID_METHOD 1"
  by (rule rejects_at [OF assms(4)])
    (use assms in \<open>auto simp: PARSING_HEADER_def exec_switch_def do_start_req_def Let_def\<close>)

text \<open>A word followed by a space that is no method's name.\<close>

lemma word_rejects:
  assumes w: "w \<noteq> []" "SP \<notin> set w" "hd w \<noteq> CR" "hd w \<noteq> LF" "\<forall>m. w \<noteq> method_strings m"
    and p: "p_http_errno p = HPE_OK" and b: "next_bytes data k (w @ [SP])"
  shows "rejects log_settings data (at p s_start_req k) HPE_INVALID_METHOD (length w + 1)"
proof -
  obtain ch cs where cs: "w = ch # cs" using w(1) by (cases w) auto
  have b': "next_bytes data k [ch]" "next_bytes data (Suc k) cs" "next_bytes data (Suc k + length cs) [SP]"
    using b by (simp_all add: cs next_bytes_append next_bytes_Cons)
  show ?thesis
  proof (cases "\<not> IS_ALPHA ch \<or> first_method ch = None")
    case True
    have "rejects log_settings data (at p s_start_req k) HPE_INVALID_METHOD 1"
      by (rule start_req_rejects [OF True _ _ b'(1)]) (use w(3,4) cs in simp_all)
    then show ?thesis by (rule rejects_mono) simp
  next
    case False
    then obtain m0 where m0: "IS_ALPHA ch" "first_method ch = Some m0" by auto
    have g: "goes log_settings data (at p s_start_req k) (at (began p m0 1) s_req_method (Suc k))"
      by (rule start_req_first [OF m0 p b'(1)])
    have "rejects log_settings data (at (began p m0 1) s_req_method (Suc k)) HPE_INVALID_METHOD (length cs + 1)"
    proof (cases "method_run (m0, 1) cs")
      case None
      have "rejects log_settings data (at (began p m0 1) s_req_method (Suc k)) HPE_INVALID_METHOD (length cs)"
        by (rule method_run_rejects [OF None first_method_index _ p b'(2)]) (use w(2) cs in simp)
      then show ?thesis by (rule rejects_mono) simp
    next
      case (Some mi)
      obtain m i where mi: "mi = (m, i)" by fastforce
      note r = Some [unfolded mi]
      have "method_word w = Some (m, i)" using r m0 cs by (simp add: method_word_def)
      from method_word_sound [OF this] have i: "i = length w" "i \<le> length (method_strings m)"
        "take i (method_strings m) = w" by blast+
      then have "i < length (method_strings m)" using w(5) by (cases "i = length (method_strings m)") auto
      from method_byte_rejects [OF method_byte_SP i(2) _ b'(3)] this
      have "rejects log_settings data (at (began p m i) s_req_method (Suc k + length cs)) HPE_INVALID_METHOD 1"
        by simp
      from goes_rejects [OF req_method_run [OF r first_method_index p b'(2)] this] show ?thesis
        by simp
    qed
    from goes_rejects [OF g this] show ?thesis by (simp add: cs)
  qed
qed

end
