(* ===== verification/HttpProps.thy ===== *)
theory HttpProps imports HttpMethod begin

text \<open>
  The properties of the message parser, each an instance of the lemmas of the theories
  before it, with witnesses at concrete inputs.
\<close>

text \<open>A parser as the witnesses use it.\<close>

definition blank :: "event list http_parser" where
  "blank = \<lparr>p_type = HTTP_BOTH, p_flags = 0, p_state = s_dead, p_header_state = h_general,
     p_index = 0, p_nread = 0, p_content_length = 0, p_http_major = 0, p_http_minor = 0,
     p_status_code = 0, p_method = HTTP_DELETE, p_http_errno = HPE_OK, p_upgrade = False, p_data = []\<rparr>"

lemma fresh_init: "fresh (http_parser_init p t)"
  by (auto simp: fresh_def)

lemma fresh_reachable: "reachable fresh parser_step (http_parser_init p t)"
  by (rule reach_init) (rule fresh_init)

lemma between_init: "between (http_parser_init p HTTP_REQUEST)"
  by (simp add: between_def http_parser_init_def)

section \<open>Safety\<close>

text \<open>C11. Whatever calls were made before, with whatever bytes, a call of
  \<open>http_parser_execute\<close> whose callbacks leave the parser alone returns: it neither runs
  for ever nor fails an assertion. It reports no more bytes than it was given (1 for the
  end of the stream in the middle of a message), and with no error and no upgrade it has
  consumed them all.\<close>

theorem execute_returns:
  assumes "reachable fresh parser_step p" "well_behaved st"
  shows "\<exists>n p'. http_parser_execute p st data = Some (Return n p') \<and> n \<le> max 1 (length data) \<and>
     (data \<noteq> [] \<and> p_http_errno p = HPE_OK \<and> p_http_errno p' = HPE_OK \<longrightarrow>
        p_upgrade p' \<or> n = length data)"
proof -
  have "parser_inv p"
    using http.reachable_inv [OF assms(1)] by (simp add: good_def)
  from execute_inv [OF assms(2) this] show ?thesis by blast
qed

theorem execute_returns_witness:
  "reachable fresh parser_step (http_parser_init blank HTTP_BOTH) \<and> well_behaved log_settings \<and>
   (\<exists>n p'. http_parser_execute (http_parser_init blank HTTP_BOTH) log_settings ''HTTP/1.1'' =
      Some (Return n p') \<and> n \<le> max 1 (length ''HTTP/1.1''))"
  using execute_returns [OF fresh_reachable log_settings_well_behaved, of blank HTTP_BOTH "''HTTP/1.1''"]
    fresh_reachable [of blank HTTP_BOTH] log_settings_well_behaved by blast

text \<open>C12. In every reachable parser without an error the header byte count is at most
  \<open>HTTP_MAX_HEADER_SIZE\<close>, the version numbers and the status code are at most 999, the
  matcher stands inside the method's name, and a body or chunk in progress has a length
  that is neither 0 nor \<open>ULLONG_MAX\<close>.\<close>

theorem parser_bounds:
  assumes "reachable fresh parser_step p" "p_http_errno p \<in> {HPE_OK, HPE_PAUSED}"
  shows "p_nread p \<le> 81920 \<and> p_http_major p \<le> 999 \<and> p_http_minor p \<le> 999 \<and> p_status_code p \<le> 999 \<and>
    (p_state p = s_req_method \<longrightarrow> unat (p_index p) \<le> length (method_strings (p_method p))) \<and>
    (p_state p \<in> {s_body_identity, s_chunk_data} \<longrightarrow>
       p_content_length p \<noteq> 0 \<and> p_content_length p \<noteq> ULLONG_MAX)"
proof -
  have "bounded p" "state_inv 0 (p_state p) p"
    using http.reachable_inv [OF assms(1)] assms(2) by (auto simp: good_def live_bounded_def parser_inv_def)
  then show ?thesis
    by (simp add: bounded_def state_inv_def HTTP_MAX_HEADER_SIZE_def)
qed

theorem parser_bounds_witness:
  "\<exists>p :: event list http_parser. reachable fresh parser_step p \<and> p_http_errno p = HPE_PAUSED \<and>
     p_nread p \<le> 81920 \<and> p_status_code p \<le> 999"
proof -
  let ?p = "http_parser_init blank HTTP_REQUEST\<lparr>p_http_errno := HPE_PAUSED\<rparr>"
  have "parser_step (http_parser_init blank HTTP_REQUEST) ?p"
    by (rule step_pause [where paused = True]) (simp add: http_parser_pause_def http_parser_init_def)
  then have r: "reachable fresh parser_step ?p"
    by (rule reach_step [OF fresh_reachable])
  then show ?thesis
    using parser_bounds [of ?p] by (intro exI [of _ ?p]) simp
qed

section \<open>Requests\<close>

text \<open>C1. Any number of requests printed one after the other into one buffer come back as
  their events, in order: the method line, every header, the body counted by its
  \<open>Content-Length\<close>, and the end of each message. Every byte is consumed and the
  parser is ready for the next request.\<close>

theorem pipelined_requests:
  assumes "between p" "rs \<noteq> []" "\<forall>r \<in> set rs. valid_request r \<and> 0 < r_minor r"
  shows "\<exists>q. http_parser_execute p log_settings (concat (map print_request rs)) =
       Some (Return (length (concat (map print_request rs))) q) \<and>
     between q \<and> p_data q = p_data p @ concat (map request_events rs)"
proof -
  let ?data = "concat (map print_request rs)"
  have ne: "?data \<noteq> []"
    using assms(2) by (cases rs) (auto simp: print_request_def print_head_def)
  obtain q where q: "between q" "p_data q = p_data p @ concat (map request_events rs)"
    "exec_loop log_settings ?data (at p s_start_req 0) =
       exec_loop log_settings ?data (at q s_start_req (length ?data))"
    using requests_loop [OF assms(3,1) next_bytes_all] by auto
  have "q\<lparr>p_state := s_start_req\<rparr> = q" using q(1) by (cases q) (simp add: between_def)
  then have "exec_loop log_settings ?data (at q s_start_req (length ?data)) = Some (Return (length ?data) q)"
    using loop_end [of q log_settings ?data s_start_req] q(1) by (simp add: between_def)
  then show ?thesis
    using ne q assms(1) by (auto simp: http_parser_execute_def between_def init_at)
qed

definition sample_request :: request where
  "sample_request = \<lparr>r_method = HTTP_POST, r_url = ''/a?b'', r_major = 1, r_minor = 1,
     r_headers = [(''Host'', ''x'')], r_body = ''hi''\<rparr>"

lemma sample_valid: "valid_request sample_request \<and> 0 < r_minor sample_request"
proof -
  have "length (print_head sample_request) \<le> 100"
    by (simp add: sample_request_def print_head_def request_line_def header_line_def length_header_def
        decimal.simps)
  moreover have "IS_URL_CHAR CHR ''a''" "IS_URL_CHAR CHR ''b''" "\<not> IS_URL_CHAR CHR ''?''"
    by (simp_all add: IS_URL_CHAR_def BIT_AT_def normal_url_char_def)
  then have "valid_url HTTP_POST ''/a?b''"
    by (simp add: valid_url_def url_scan_def url_start_def parse_url_char_def url_final_def)
  moreover have "plain_header (''Host'', ''x'')"
    by (simp add: plain_header_def token_string_def field_start_hs_def value_bytes_def TOKEN_def
        tokens_def tokens_init_def header_limit_eq)
  ultimately show ?thesis
    by (simp add: valid_request_def sample_request_def max_content_length_def header_limit_eq)
qed

theorem pipelined_requests_witness:
  "between (http_parser_init blank HTTP_REQUEST) \<and> valid_request sample_request \<and>
   (\<exists>n q. http_parser_execute (http_parser_init blank HTTP_REQUEST) log_settings
        (concat (map print_request [sample_request, sample_request])) = Some (Return n q) \<and>
      p_data q = request_events sample_request @ request_events sample_request)"
proof -
  have "p_data (http_parser_init blank HTTP_REQUEST) = []"
    by (simp add: http_parser_init_def blank_def)
  then show ?thesis
    using pipelined_requests [of "http_parser_init blank HTTP_REQUEST" "[sample_request, sample_request]"]
      sample_valid between_init [of blank] by auto
qed

text \<open>A single printed request: besides its events the parser holds its method and its
  version, and after an HTTP/1.0 request, which does not ask for keep-alive, it accepts no
  further message.\<close>

theorem request_roundtrip:
  assumes "between p" "valid_request r"
  shows "\<exists>q. http_parser_execute p log_settings (print_request r) =
       Some (Return (length (print_request r)) q) \<and> request_done r p q"
proof -
  have ne: "print_request r \<noteq> []"
    by (auto simp: print_request_def print_head_def)
  obtain q where q: "request_done r p q" "exec_loop log_settings (print_request r) (at p s_start_req 0) =
      exec_loop log_settings (print_request r) (at q (p_state q) (length (print_request r)))"
    using request_loop [OF assms(2) _ _ _ next_bytes_all, of p] assms(1) by (auto simp: between_def)
  have "q\<lparr>p_state := p_state q\<rparr> = q" by simp
  then have "exec_loop log_settings (print_request r) (at q (p_state q) (length (print_request r))) =
      Some (Return (length (print_request r)) q)"
    using loop_end [of q log_settings "print_request r" "p_state q"] q(1) by (simp add: request_done_def)
  then show ?thesis
    using ne q assms(1) by (auto simp: http_parser_execute_def between_def init_at)
qed

theorem request_roundtrip_witness:
  "between (http_parser_init blank HTTP_REQUEST) \<and> valid_request sample_request \<and>
   (\<exists>n q. http_parser_execute (http_parser_init blank HTTP_REQUEST) log_settings (print_request sample_request) =
      Some (Return n q) \<and> p_method q = HTTP_POST \<and> p_http_minor q = 1 \<and> p_state q = s_start_req)"
proof -
  obtain q where "http_parser_execute (http_parser_init blank HTTP_REQUEST) log_settings (print_request sample_request) =
      Some (Return (length (print_request sample_request)) q)"
    "request_done sample_request (http_parser_init blank HTTP_REQUEST) q"
    using request_roundtrip [of "http_parser_init blank HTTP_REQUEST" sample_request]
      sample_valid between_init [of blank] by auto
  moreover from this(2) have "p_method q = HTTP_POST \<and> p_http_minor q = 1 \<and> p_state q = s_start_req"
    by (simp add: request_done_def sample_request_def)
  ultimately show ?thesis using sample_valid between_init [of blank] by blast
qed

text \<open>C14. The recogniser of the request method is exact: a word before a space, not starting
  with a line end, leads to the URL with method \<open>m\<close> if and only if it is the name of
  \<open>m\<close> in the table; any other word ends in \<open>HPE_INVALID_METHOD\<close>.\<close>

theorem method_exact:
  assumes p: "between p" and w: "w \<noteq> []" "SP \<notin> set w" "hd w \<noteq> CR" "hd w \<noteq> LF" "length w < header_limit"
  shows "\<exists>n q. http_parser_execute p log_settings (w @ [SP]) = Some (Return n q) \<and>
    (if \<exists>m. w = method_strings m
     then p_http_errno q = HPE_OK \<and> p_state q = s_req_spaces_before_url \<and> w = method_strings (p_method q)
     else p_http_errno q = HPE_INVALID_METHOD)"
proof (cases "\<exists>m. w = method_strings m")
  case True
  then obtain m where m: "w = method_strings m" by blast
  let ?data = "w @ [SP]"
  have e: "p_http_errno p = HPE_OK" "p\<lparr>p_nread := 0\<rparr> = p"
    using p by (cases p; simp add: between_def)+
  have g: "goes log_settings ?data (at p s_start_req 0) (at (began p m (length w + 1)) s_req_spaces_before_url (length ?data))"
    using goes_method [OF e(1), of ?data 0 m] next_bytes_all [of ?data] m by simp
  obtain n where "exec_loop log_settings ?data (at p s_start_req 0) =
      exec_loop log_settings ?data (at ((began p m (length w + 1))\<lparr>p_nread := n\<rparr>) s_req_spaces_before_url (length ?data))"
    using goesD [OF g, of 0] w(5) e(2) by auto
  also have "\<dots> = Some (Return (length ?data)
      ((began p m (length w + 1))\<lparr>p_nread := n, p_state := s_req_spaces_before_url\<rparr>))"
    by (rule loop_end) (simp add: e(1))
  finally show ?thesis
    using True p m e(1) by (auto simp: http_parser_execute_def between_def init_at)
next
  case False
  have e: "p_http_errno p = HPE_OK" "p\<lparr>p_nread := 0\<rparr> = p"
    using p by (cases p; simp add: between_def)+
  have "rejects log_settings (w @ [SP]) (at p s_start_req 0) HPE_INVALID_METHOD (length w + 1)"
    by (rule word_rejects) (use w False e next_bytes_all [of "w @ [SP]"] in auto)
  then obtain n q where "exec_loop log_settings (w @ [SP]) (at p s_start_req 0) = Some (Return n q)"
    "p_http_errno q = HPE_INVALID_METHOD"
    using w(5) e(2) unfolding rejects_def by (metis Suc_eq_plus1 Suc_leI add_0 at_simps(12) unat_0)
  then show ?thesis
    using False p by (auto simp: http_parser_execute_def between_def init_at)
qed

theorem method_exact_witness:
  "\<exists>n q. http_parser_execute (http_parser_init blank HTTP_REQUEST) log_settings ''M-SEARCH '' = Some (Return n q) \<and>
     p_state q = s_req_spaces_before_url \<and> ''M-SEARCH'' = method_strings (p_method q)"
proof -
  have ex: "\<exists>m. ''M-SEARCH'' = method_strings m"
    by (rule exI [of _ HTTP_MSEARCH]) simp
  have "length ''M-SEARCH'' < header_limit" by (simp add: header_limit_eq)
  with method_exact [OF between_init, of "''M-SEARCH''" blank] show ?thesis
    unfolding if_P [OF ex] by auto
qed

section \<open>Content-Length\<close>

text \<open>C19. The digits of a \<open>Content-Length\<close> value are read exactly: a number up to
  2 ^ 64 - 7 becomes the content length, with no wrap and never the value
  \<open>ULLONG_MAX\<close> that stands for no length; any larger number is
  \<open>HPE_INVALID_CONTENT_LENGTH\<close> before the line ends.\<close>

theorem content_length_exact:
  assumes "ds \<noteq> []" "\<forall>d \<in> set ds. IS_NUM d" "p_content_length p = of_nat (uc (hd ds) - 48)"
  shows "if digits_value ds \<le> 18446744073709551609
     then header_value_loop n (tl ds @ CR # rest) h_content_length p =
        Hv_cr (n + length (tl ds)) h_content_length (p\<lparr>p_content_length := of_nat (digits_value ds)\<rparr>) \<and>
        unat (of_nat (digits_value ds) :: 64 word) = digits_value ds \<and>
        of_nat (digits_value ds) \<noteq> ULLONG_MAX
     else \<exists>k q. header_value_loop n (tl ds @ CR # rest) h_content_length p = Hv_error (n + k) h_content_length q \<and>
        k < length (tl ds)"
proof -
  obtain d cs where ds: "ds = d # cs" using assms(1) by (cases ds) auto
  have v: "digits_from (uc d - 48) cs = digits_value ds"
    by (simp add: ds flip: digits_from_value)
  have "uc d \<le> 57" using assms(2) ds by (simp add: IS_NUM_def)
  then have small: "uc d - 48 \<le> max_content_length" by (simp add: max_content_length_def)
  show ?thesis
  proof (cases "digits_value ds \<le> max_content_length")
    case True
    have "unat (of_nat (digits_value ds) :: 64 word) = digits_value ds"
      using True by (simp add: unat_of_nat max_content_length_def)
    moreover have "of_nat (digits_value ds) \<noteq> ULLONG_MAX"
      using calculation True unat_ULLONG_MAX by (auto simp: max_content_length_def)
    ultimately show ?thesis
      using content_length_loop [of cs p "uc d - 48" n rest] assms(2,3) True small v ds
      by (simp add: max_content_length_def)
  next
    case False
    then show ?thesis
      using content_length_overflow [of cs p "uc d - 48" n "CR # rest"] assms(2,3) small v ds
      by (simp add: max_content_length_def)
  qed
qed

theorem content_length_exact_witness:
  "header_value_loop 0 (''2'' @ [CR, LF]) h_content_length (blank\<lparr>p_content_length := 4\<rparr>) =
     Hv_cr 1 h_content_length (blank\<lparr>p_content_length := 42\<rparr>)"
  using content_length_exact [of "''42''" "blank\<lparr>p_content_length := 4\<rparr>" 0 "[LF]"]
  by (simp add: IS_NUM_def digits_value_def)

end
