(* ===== verification/WorkQueue.thy ===== *)
theory WorkQueue imports Prelude begin

text \<open>
  The worker pool of \<open>workqueue.c\<close>: the linked lists of its macros over an explicit
  store, and the threads as a system whose steps are the statements between two
  synchronisation points. A scheduler picks the thread that moves, so the reachable states
  are the interleavings of the program.
\<close>

section \<open>The linked lists\<close>

record link =
  prev_of :: "nat option"
  next_of :: "nat option"

type_synonym links = "nat \<Rightarrow> link"

definition LL_ADD :: "nat \<Rightarrow> links \<times> nat option \<Rightarrow> links \<times> nat option" where
  "LL_ADD item hl =
    (let (h, lst) = hl in (h(item := \<lparr>prev_of = None, next_of = lst\<rparr>), Some item))"

text \<open>The four statements in order; the third reads the links the first two may have written.\<close>

definition LL_REMOVE :: "nat \<Rightarrow> links \<times> nat option \<Rightarrow> links \<times> nat option" where
  "LL_REMOVE item hl =
    (let (h, lst) = hl;
         h = (case prev_of (h item) of None \<Rightarrow> h
              | Some p \<Rightarrow> h(p := (h p)\<lparr>next_of := next_of (h item)\<rparr>));
         h = (case next_of (h item) of None \<Rightarrow> h
              | Some n \<Rightarrow> h(n := (h n)\<lparr>prev_of := prev_of (h item)\<rparr>));
         lst = (if lst = Some item then next_of (h item) else lst)
     in (h(item := \<lparr>prev_of = None, next_of = None\<rparr>), lst))"

text \<open>The list a head stands for: the items in the order of the \<open>next\<close> pointers.\<close>

fun chain :: "links \<Rightarrow> nat option \<Rightarrow> nat list \<Rightarrow> bool" where
  "chain h l [] \<longleftrightarrow> l = None"
| "chain h l (x # xs) \<longleftrightarrow> l = Some x \<and> chain h (next_of (h x)) xs"

lemma chain_frame:
  "(\<And>x. x \<in> set xs \<Longrightarrow> next_of (h' x) = next_of (h x)) \<Longrightarrow> chain h' l xs = chain h l xs"
  by (induction xs arbitrary: l) auto

lemma chain_functional: "chain h l xs \<Longrightarrow> chain h l ys \<Longrightarrow> xs = ys"
proof (induction xs arbitrary: l ys)
  case Nil
  then show ?case by (cases ys) auto
next
  case (Cons x xs)
  then show ?case by (cases ys) auto
qed

lemma chain_add:
  assumes "chain h l xs" "x \<notin> set xs" "LL_ADD x (h, l) = (h', l')"
  shows "chain h' l' (x # xs)"
proof -
  have h: "h' = h(x := \<lparr>prev_of = None, next_of = l\<rparr>)" "l' = Some x"
    using assms(3) by (auto simp: LL_ADD_def)
  have "next_of (h' y) = next_of (h y)" if "y \<in> set xs" for y
    using that assms(2) h by auto
  then have "chain h' l xs"
    using assms(1) chain_frame [of xs h' h l] by simp
  then show ?thesis by (simp add: h)
qed

text \<open>
  The items of the lists have no predecessor: \<open>LL_ADD\<close> never sets one, and
  \<open>LL_REMOVE\<close> of the head gives the new head the head's.
\<close>

definition no_prev :: "links \<Rightarrow> nat list \<Rightarrow> bool" where
  "no_prev h xs \<longleftrightarrow> (\<forall>x \<in> set xs. prev_of (h x) = None)"

definition unlink_next :: "nat \<Rightarrow> links \<Rightarrow> links" where
  "unlink_next x h = (case next_of (h x) of None \<Rightarrow> h | Some n \<Rightarrow> h(n := (h n)\<lparr>prev_of := None\<rparr>))"

lemma unlink_next_simps [simp]:
  "next_of (unlink_next x h y) = next_of (h y)"
  "prev_of (h y) = None \<Longrightarrow> prev_of (unlink_next x h y) = None"
  by (simp_all add: unlink_next_def split: option.split)

lemma LL_REMOVE_no_prev:
  "prev_of (h x) = None \<Longrightarrow> LL_REMOVE x (h, l) =
    ((unlink_next x h)(x := \<lparr>prev_of = None, next_of = None\<rparr>), if l = Some x then next_of (h x) else l)"
  by (cases "next_of (h x)") (auto simp: LL_REMOVE_def unlink_next_def Let_def)

lemma chain_remove_head:
  assumes "chain h l (x # xs)" "distinct (x # xs)" "no_prev h (x # xs)" "LL_REMOVE x (h, l) = (h', l')"
  shows "chain h' l' xs" "no_prev h' xs"
proof -
  have l: "l = Some x" and p: "prev_of (h x) = None" and c: "chain h (next_of (h x)) xs"
    using assms(1,3) by (simp_all add: no_prev_def)
  have h': "h' = (unlink_next x h)(x := \<lparr>prev_of = None, next_of = None\<rparr>)" "l' = next_of (h x)"
    using assms(4) LL_REMOVE_no_prev [where h = h and x = x, OF p] l by auto
  have "next_of (h' y) = next_of (h y)" if "y \<in> set xs" for y
    using that assms(2) by (auto simp: h'(1))
  then show "chain h' l' xs"
    using chain_frame [of xs h' h "next_of (h x)"] c by (simp add: h'(2))
  show "no_prev h' xs"
    using assms(2,3) by (auto simp: no_prev_def h'(1))
qed

lemma no_prev_add: "no_prev h xs \<Longrightarrow> LL_ADD x (h, l) = (h', l') \<Longrightarrow> no_prev h' (x # xs)"
  by (auto simp: no_prev_def LL_ADD_def)

text \<open>An item in the middle is not unlinked: the list ends at it instead.\<close>

lemma chain_remove_middle:
  assumes "chain h l (xs @ y # ys)" "xs \<noteq> []" "distinct (xs @ y # ys)" "no_prev h (xs @ y # ys)"
    and "LL_REMOVE y (h, l) = (h', l')"
  shows "chain h' l' (xs @ [y])"
proof -
  have p: "prev_of (h y) = None" using assms(4) by (simp add: no_prev_def)
  obtain x zs where x: "xs = x # zs" using assms(2) by (cases xs) auto
  then have l: "l = Some x" "x \<noteq> y" using assms(1,3) by auto
  have h': "h' = (unlink_next y h)(y := \<lparr>prev_of = None, next_of = None\<rparr>)" "l' = l"
    using assms(5) LL_REMOVE_no_prev [where h = h and x = y, OF p] l by auto
  have "chain h' k (us @ [y])" if "chain h k (us @ y # ys)" "y \<notin> set us" for k us
    using that by (induction us arbitrary: k) (auto simp: h'(1))
  then show ?thesis using assms(1,3) h'(2) by auto
qed

text \<open>
  What the queue asks of the list: a representation of a list of items where an item not
  in it can be put in front and the first can be taken.
\<close>

locale stack =
  fixes rep :: "'q \<Rightarrow> 'a list \<Rightarrow> bool"
    and push :: "'a \<Rightarrow> 'q \<Rightarrow> 'q"
    and pop :: "'a \<Rightarrow> 'q \<Rightarrow> 'q"
  assumes rep_push: "rep q xs \<Longrightarrow> x \<notin> set xs \<Longrightarrow> rep (push x q) (x # xs)"
    and rep_pop: "rep q (x # xs) \<Longrightarrow> rep (pop x q) xs"
    and rep_distinct: "rep q xs \<Longrightarrow> distinct xs"
    and rep_fun: "rep q xs \<Longrightarrow> rep q ys \<Longrightarrow> xs = ys"
begin

lemma rep_pushes: "rep q xs \<Longrightarrow> distinct (rev ys @ xs) \<Longrightarrow> rep (fold push ys q) (rev ys @ xs)"
proof (induction ys arbitrary: q xs)
  case (Cons y ys)
  have "rep (fold push ys (push y q)) (rev ys @ (y # xs))"
    by (rule Cons.IH) (use Cons.prems rep_push in auto)
  then show ?case by simp
qed simp

lemma rep_pops: "rep q (ys @ xs) \<Longrightarrow> rep (fold pop ys q) xs"
  by (induction ys arbitrary: q) (auto dest: rep_pop)

text \<open>The items come back last in, first out.\<close>

lemma lifo: "rep q xs \<Longrightarrow> distinct (rev ys @ xs) \<Longrightarrow> rep (fold pop (rev ys) (fold push ys q)) xs"
  using rep_pops rep_pushes by blast

end

definition job_list :: "links \<times> nat option \<Rightarrow> nat list \<Rightarrow> bool" where
  "job_list q xs \<longleftrightarrow> chain (fst q) (snd q) xs \<and> no_prev (fst q) xs \<and> distinct xs"

lemma job_list_add: "job_list q xs \<Longrightarrow> x \<notin> set xs \<Longrightarrow> job_list (LL_ADD x q) (x # xs)"
  using chain_add [of "fst q" "snd q" xs x] no_prev_add [of "fst q" xs x "snd q"]
  by (cases q; cases "LL_ADD x q") (auto simp: job_list_def)

lemma job_list_remove: "job_list q (x # xs) \<Longrightarrow> job_list (LL_REMOVE x q) xs"
  using chain_remove_head [of "fst q" "snd q" x xs]
  by (cases q; cases "LL_REMOVE x q") (auto simp: job_list_def)

interpretation jobs: stack job_list LL_ADD LL_REMOVE
  by unfold_locales (auto simp: job_list_add job_list_remove, auto simp: job_list_def intro: chain_functional)

section \<open>The threads\<close>

text \<open>
  Where a worker is in \<open>worker_function\<close>. The states from \<open>W_loop\<close> to
  \<open>W_got\<close> hold the mutex; so do \<open>W_exit\<close> and \<open>W_gone\<close>, since the
  \<open>break\<close> leaves the loop without the unlock. \<open>W_none\<close> is a worker not yet created.
\<close>

datatype worker_pc =
    W_none
  | W_start
  | W_loop
  | W_waiting
  | W_woken
  | W_after
  | W_got "nat option"
  | W_run nat
  | W_exit
  | W_gone

text \<open>
  Where the thread that owns the queue is: in \<open>workqueue_init\<close> with so many workers
  to go, in \<open>workqueue_add_job\<close> or in \<open>workqueue_shutdown\<close>. A signal handler
  runs on top of what it interrupts.
\<close>

datatype main_pc =
    M_idle
  | M_init nat
  | M_link nat nat
  | M_add_lock nat
  | M_add_link nat
  | M_add_unlock
  | M_scan "nat option"
  | M_next nat
  | M_shut_lock
  | M_shut_clear
  | M_shut_unlock

datatype tid = Main | Worker nat

record sys =
  jobs_mutex :: "tid option"
  waiting_jobs :: "nat option"
  workers :: "nat option"
  job_links :: links
  worker_links :: links
  terminate :: "nat \<Rightarrow> bool"
  allocated :: "nat \<Rightarrow> bool"
  pc :: "nat \<Rightarrow> worker_pc"
  created :: "nat list"
  main :: main_pc
  interrupted :: "main_pc option"
  added :: "nat list"
  finished :: "nat list"
  init_failed :: bool
  fault :: bool

text \<open>
  One statement of a worker between two scheduling points, \<open>None\<close> when it cannot
  move: it waits for the mutex or for the condition. \<open>finished\<close> records the jobs
  whose function has been called.
\<close>

definition set_pc :: "nat \<Rightarrow> worker_pc \<Rightarrow> sys \<Rightarrow> sys" where
  "set_pc w p s = s\<lparr>pc := (pc s)(w := p)\<rparr>"

definition lock :: "tid \<Rightarrow> (sys \<Rightarrow> sys) \<Rightarrow> sys \<Rightarrow> sys option" where
  "lock t k s = (if jobs_mutex s = None then Some (k (s\<lparr>jobs_mutex := Some t\<rparr>)) else None)"

definition unlock :: "sys \<Rightarrow> sys" where
  "unlock s = s\<lparr>jobs_mutex := None\<rparr>"

definition take_job :: "nat \<Rightarrow> sys \<Rightarrow> sys" where
  "take_job w s =
    (case waiting_jobs s of
       None \<Rightarrow> set_pc w (W_got None) s
     | Some j \<Rightarrow>
         let (h, l) = LL_REMOVE j (job_links s, waiting_jobs s)
         in set_pc w (W_got (Some j)) (s\<lparr>job_links := h, waiting_jobs := l\<rparr>))"

definition worker_function :: "nat \<Rightarrow> sys \<Rightarrow> sys option" where
  "worker_function w s =
    (case pc s w of
       W_none \<Rightarrow> None
     | W_start \<Rightarrow> lock (Worker w) (set_pc w W_loop) s
     | W_loop \<Rightarrow>
         Some (if waiting_jobs s = None
               then (if terminate s w then set_pc w W_after s else set_pc w W_waiting (unlock s))
               else set_pc w W_after s)
     | W_waiting \<Rightarrow> None
     | W_woken \<Rightarrow> lock (Worker w) (set_pc w W_loop) s
     | W_after \<Rightarrow> Some (if terminate s w then set_pc w W_exit s else take_job w s)
     | W_got None \<Rightarrow> Some (set_pc w W_start (unlock s))
     | W_got (Some j) \<Rightarrow> Some (set_pc w (W_run j) (unlock s))
     | W_run j \<Rightarrow> Some (set_pc w W_start (s\<lparr>finished := j # finished s\<rparr>))
     | W_exit \<Rightarrow> Some (set_pc w W_gone (s\<lparr>allocated := (allocated s)(w := False)\<rparr>))
     | W_gone \<Rightarrow> None)"

text \<open>
  \<open>pthread_cond_signal\<close> wakes a waiting worker \<open>w\<close> if there is one (see \<open>main_step\<close>), \<open>broadcast\<close>
  wakes all.
\<close>

definition wake :: "nat \<Rightarrow> sys \<Rightarrow> sys" where
  "wake w s = (if pc s w = W_waiting then set_pc w W_woken s else s)"

definition broadcast :: "sys \<Rightarrow> sys" where
  "broadcast s = s\<lparr>pc := (\<lambda>w. if pc s w = W_waiting then W_woken else pc s w)\<rparr>"

text \<open>The end of a call: the handler returns to what it interrupted.\<close>

definition return_from :: "sys \<Rightarrow> sys" where
  "return_from s =
    (case interrupted s of None \<Rightarrow> s\<lparr>main := M_idle\<rparr> | Some p \<Rightarrow> s\<lparr>main := p, interrupted := None\<rparr>)"

text \<open>
  The choices that are not the program's: which worker moves or wakes, what
  \<open>malloc\<close> returns and whether \<open>pthread_create\<close> succeeds, which worker a
  signal on the condition wakes, and which call is made next. A worker freed while
  \<open>workqueue_shutdown\<close> stands at it is a use after free: \<open>fault\<close>.
\<close>

datatype choice =
    Move nat
  | Spurious nat
  | Call_init nat
  | Call_add nat
  | Call_shutdown
  | Signal
  | Malloc_ok nat
  | Malloc_fail
  | Create_fail
  | Step nat

definition main_step :: "nat \<Rightarrow> sys \<Rightarrow> sys option" where
  "main_step w s =
    (case main s of
       M_idle \<Rightarrow> None
     | M_init n \<Rightarrow> (if n = 0 then Some (return_from s) else None)
     | M_link n a \<Rightarrow>
         (let (h, l) = LL_ADD a (worker_links s, workers s)
          in Some (s\<lparr>worker_links := h, workers := l, main := M_init n\<rparr>))
     | M_add_lock j \<Rightarrow> lock Main (\<lambda>s. s\<lparr>main := M_add_link j\<rparr>) s
     | M_add_link j \<Rightarrow>
         (let (h, l) = LL_ADD j (job_links s, waiting_jobs s)
          in if pc s w = W_waiting \<or> list_all (\<lambda>v. pc s v \<noteq> W_waiting) (created s)
             then Some (wake w (s\<lparr>job_links := h, waiting_jobs := l, main := M_add_unlock\<rparr>))
             else None)
     | M_add_unlock \<Rightarrow> Some (return_from (unlock s))
     | M_scan None \<Rightarrow> Some (s\<lparr>main := M_shut_lock\<rparr>)
     | M_scan (Some a) \<Rightarrow>
         Some (s\<lparr>terminate := (terminate s)(a := True), fault := (fault s \<or> \<not> allocated s a),
                 main := M_next a\<rparr>)
     | M_next a \<Rightarrow>
         Some (s\<lparr>fault := (fault s \<or> \<not> allocated s a), main := M_scan (next_of (worker_links s a))\<rparr>)
     | M_shut_lock \<Rightarrow> lock Main (\<lambda>s. s\<lparr>main := M_shut_clear\<rparr>) s
     | M_shut_clear \<Rightarrow>
         Some (broadcast (s\<lparr>workers := None, waiting_jobs := None, main := M_shut_unlock\<rparr>))
     | M_shut_unlock \<Rightarrow> Some (return_from (unlock s)))"

text \<open>
  \<open>workqueue_init\<close> clears the queue and makes its mutex anew. The program calls it once, before there
  are workers, when the lists are empty and the mutex is free as they are in \<open>wq_start\<close>; the guard of
  \<open>Call_init\<close> says so, and a queue initialised again is not modelled.
\<close>

definition step :: "choice \<Rightarrow> sys \<Rightarrow> sys option" where
  "step ch s =
    (case ch of
       Move w \<Rightarrow> worker_function w s
     | Spurious w \<Rightarrow> if pc s w = W_waiting then Some (set_pc w W_woken s) else None
     | Call_init n \<Rightarrow>
         if main s = M_idle \<and> interrupted s = None \<and> workers s = None \<and> created s = [] \<and> added s = []
         then Some (s\<lparr>main := M_init (max 1 n)\<rparr>) else None
     | Call_add j \<Rightarrow>
         if main s = M_idle \<and> interrupted s = None \<and> j \<notin> set (added s)
         then Some (s\<lparr>main := M_add_lock j, added := j # added s\<rparr>) else None
     | Call_shutdown \<Rightarrow>
         if main s = M_idle then Some (s\<lparr>main := M_scan (workers s)\<rparr>) else None
     | Signal \<Rightarrow>
         if interrupted s = None
         then Some (s\<lparr>main := M_scan (workers s),
                      interrupted := (if main s = M_idle then None else Some (main s))\<rparr>)
         else None
     | Malloc_ok a \<Rightarrow>
         (case main s of
            M_init (Suc n) \<Rightarrow>
              if allocated s a \<or> pc s a \<noteq> W_none then None
              else Some (s\<lparr>allocated := (allocated s)(a := True), terminate := (terminate s)(a := False),
                          pc := (pc s)(a := W_start), created := a # created s, main := M_link n a\<rparr>)
          | _ \<Rightarrow> None)
     | Malloc_fail \<Rightarrow>
         (case main s of M_init (Suc n) \<Rightarrow> Some (return_from (s\<lparr>init_failed := True\<rparr>)) | _ \<Rightarrow> None)
     | Create_fail \<Rightarrow>
         (case main s of M_init (Suc n) \<Rightarrow> Some (return_from (s\<lparr>init_failed := True\<rparr>)) | _ \<Rightarrow> None)
     | Step w \<Rightarrow> main_step w s)"

section \<open>Reachable states\<close>

inductive wq_step :: "sys \<Rightarrow> sys \<Rightarrow> bool" where
  wq_step: "step ch s = Some t \<Longrightarrow> wq_step s t"

definition wq_start :: sys where
  "wq_start = \<lparr>jobs_mutex = None, waiting_jobs = None, workers = None,
     job_links = (\<lambda>_. \<lparr>prev_of = None, next_of = None\<rparr>), worker_links = (\<lambda>_. \<lparr>prev_of = None, next_of = None\<rparr>),
     terminate = (\<lambda>_. False), allocated = (\<lambda>_. False), pc = (\<lambda>_. W_none), created = [], main = M_idle,
     interrupted = None, added = [], finished = [], init_failed = False, fault = False\<rparr>"

text \<open>A run under a schedule.\<close>

fun run :: "choice list \<Rightarrow> sys \<Rightarrow> sys option" where
  "run [] s = Some s"
| "run (ch # chs) s = (case step ch s of None \<Rightarrow> None | Some t \<Rightarrow> run chs t)"

lemma run_steps: "run chs s = Some t \<Longrightarrow> wq_step\<^sup>*\<^sup>* s t"
proof (induction chs arbitrary: s)
  case (Cons ch chs)
  then show ?case
    by (auto split: option.splits intro: converse_rtranclp_into_rtranclp wq_step)
qed simp

definition critical :: "worker_pc \<Rightarrow> bool" where
  "critical p = (case p of W_loop \<Rightarrow> True | W_after \<Rightarrow> True | W_got j \<Rightarrow> True | W_exit \<Rightarrow> True
     | W_gone \<Rightarrow> True | _ \<Rightarrow> False)"

definition main_critical :: "main_pc \<Rightarrow> bool" where
  "main_critical p = (case p of M_add_link j \<Rightarrow> True | M_add_unlock \<Rightarrow> True | M_shut_clear \<Rightarrow> True
     | M_shut_unlock \<Rightarrow> True | _ \<Rightarrow> False)"

definition in_shutdown :: "main_pc \<Rightarrow> bool" where
  "in_shutdown p = (case p of M_scan c \<Rightarrow> True | M_next a \<Rightarrow> True | M_shut_lock \<Rightarrow> True
     | M_shut_clear \<Rightarrow> True | M_shut_unlock \<Rightarrow> True | _ \<Rightarrow> False)"

text \<open>Mutual exclusion: the owner of the mutex is the one thread in a critical section.\<close>

definition mutex_inv :: "sys \<Rightarrow> bool" where
  "mutex_inv s \<longleftrightarrow>
     (\<forall>w. critical (pc s w) \<longleftrightarrow> jobs_mutex s = Some (Worker w)) \<and>
     (main_critical (main s) \<or> (\<exists>p. interrupted s = Some p \<and> main_critical p) \<longleftrightarrow> jobs_mutex s = Some Main) \<and>
     (main_critical (main s) \<longrightarrow> (\<forall>p. interrupted s = Some p \<longrightarrow> \<not> main_critical p)) \<and>
     (interrupted s \<noteq> None \<longrightarrow> in_shutdown (main s))"

lemma critical_simps [simp]:
  "\<not> critical W_none" "\<not> critical W_start" "critical W_loop" "\<not> critical W_waiting" "\<not> critical W_woken"
  "critical W_after" "critical (W_got j)" "\<not> critical (W_run i)" "critical W_exit" "critical W_gone"
  by (simp_all add: critical_def)

lemma main_critical_simps [simp]:
  "\<not> main_critical M_idle" "\<not> main_critical (M_init n)" "\<not> main_critical (M_link n a)"
  "\<not> main_critical (M_add_lock j)" "main_critical (M_add_link j)" "main_critical M_add_unlock"
  "\<not> main_critical (M_scan c)" "\<not> main_critical (M_next a)" "\<not> main_critical M_shut_lock"
  "main_critical M_shut_clear" "main_critical M_shut_unlock"
  by (simp_all add: main_critical_def)

lemma in_shutdown_simps [simp]:
  "\<not> in_shutdown M_idle" "\<not> in_shutdown (M_init n)" "\<not> in_shutdown (M_link n a)"
  "\<not> in_shutdown (M_add_lock j)" "\<not> in_shutdown (M_add_link j)" "\<not> in_shutdown M_add_unlock"
  "in_shutdown (M_scan c)" "in_shutdown (M_next a)" "in_shutdown M_shut_lock"
  "in_shutdown M_shut_clear" "in_shutdown M_shut_unlock"
  by (simp_all add: in_shutdown_def)

lemmas wq_defs = step_def worker_function_def main_step_def lock_def unlock_def set_pc_def take_job_def
  wake_def broadcast_def return_from_def

lemma mutex_inv_frame [simp]:
  "mutex_inv (s\<lparr>waiting_jobs := l\<rparr>) = mutex_inv s"
  "mutex_inv (s\<lparr>workers := l\<rparr>) = mutex_inv s"
  "mutex_inv (s\<lparr>job_links := h\<rparr>) = mutex_inv s"
  "mutex_inv (s\<lparr>worker_links := h\<rparr>) = mutex_inv s"
  "mutex_inv (s\<lparr>terminate := b\<rparr>) = mutex_inv s"
  "mutex_inv (s\<lparr>allocated := b\<rparr>) = mutex_inv s"
  "mutex_inv (s\<lparr>added := js\<rparr>) = mutex_inv s"
  "mutex_inv (s\<lparr>finished := js\<rparr>) = mutex_inv s"
  "mutex_inv (s\<lparr>init_failed := c\<rparr>) = mutex_inv s"
  "mutex_inv (s\<lparr>fault := c\<rparr>) = mutex_inv s"
  by (simp_all add: mutex_inv_def)

lemma set_pc_simps [simp]:
  "pc (set_pc w p s) = (pc s)(w := p)" "jobs_mutex (set_pc w p s) = jobs_mutex s"
  "main (set_pc w p s) = main s" "interrupted (set_pc w p s) = interrupted s"
  "waiting_jobs (set_pc w p s) = waiting_jobs s" "job_links (set_pc w p s) = job_links s"
  "added (set_pc w p s) = added s" "finished (set_pc w p s) = finished s"
  "terminate (set_pc w p s) = terminate s"
  by (simp_all add: set_pc_def)

lemma mutex_keep: "mutex_inv s \<Longrightarrow> critical p = critical (pc s w) \<Longrightarrow> mutex_inv (set_pc w p s)"
  by (simp add: mutex_inv_def set_pc_def)

lemma mutex_acquire:
  "mutex_inv s \<Longrightarrow> jobs_mutex s = None \<Longrightarrow> critical p \<Longrightarrow>
   mutex_inv (set_pc w p (s\<lparr>jobs_mutex := Some (Worker w)\<rparr>))"
  by (simp add: mutex_inv_def set_pc_def)

lemma mutex_release:
  assumes "mutex_inv s" "critical (pc s w)" "\<not> critical p"
  shows "mutex_inv (set_pc w p (unlock s))"
proof -
  have "jobs_mutex s = Some (Worker w)" using assms(1,2) by (simp add: mutex_inv_def)
  then show ?thesis using assms by (auto simp: mutex_inv_def set_pc_def unlock_def)
qed

lemma take_job_mutex: "mutex_inv s \<Longrightarrow> critical (pc s w) \<Longrightarrow> mutex_inv (take_job w s)"
  by (auto simp: take_job_def intro!: mutex_keep split: option.split prod.split)

lemma mutex_worker:
  assumes m: "mutex_inv s" and t: "worker_function w s = Some t"
  shows "mutex_inv t"
proof (cases "pc s w")
  case (W_got j)
  then have "mutex_inv (set_pc w W_start (unlock s))" "mutex_inv (set_pc w (W_run i) (unlock s))" for i
    using mutex_release [OF m] by simp_all
  with W_got t show ?thesis by (auto simp: worker_function_def split: option.splits)
next
  case W_loop
  then have "mutex_inv (set_pc w W_waiting (unlock s))" "mutex_inv (set_pc w W_after s)"
    using mutex_release [OF m] mutex_keep [OF m] by simp_all
  with W_loop t show ?thesis by (auto simp: worker_function_def split: if_splits)
next
  case W_after
  then have "mutex_inv (take_job w s)" "mutex_inv (set_pc w W_exit s)"
    using take_job_mutex [OF m] mutex_keep [OF m] by simp_all
  with W_after t show ?thesis by (auto simp: worker_function_def split: if_splits)
qed (use t m mutex_acquire [OF m] mutex_keep in \<open>auto simp: worker_function_def lock_def split: if_splits\<close>)

lemma mutex_wake: "mutex_inv s \<Longrightarrow> mutex_inv (wake w s)"
  by (simp add: wake_def mutex_keep)

lemma mutex_broadcast: "mutex_inv s \<Longrightarrow> mutex_inv (broadcast s)"
  unfolding broadcast_def mutex_inv_def by simp (metis critical_simps(4))

lemma mutex_main:
  assumes "mutex_inv s" "main_step w s = Some t"
  shows "mutex_inv t"
  using assms
  by (cases "main s")
    (auto simp: main_step_def lock_def unlock_def return_from_def mutex_inv_def wake_def broadcast_def
       split: if_splits option.splits prod.splits)

text \<open>A new worker and a call change no owner.\<close>

lemma mutex_call:
  assumes "mutex_inv s" "\<not> main_critical (main s)" "\<not> main_critical m" "interrupted s \<noteq> None \<longrightarrow> in_shutdown m"
  shows "mutex_inv (s\<lparr>main := m\<rparr>)"
  using assms by (simp add: mutex_inv_def)

lemma mutex_return: "mutex_inv s \<Longrightarrow> \<not> main_critical (main s) \<Longrightarrow> mutex_inv (return_from s)"
  by (auto simp: mutex_inv_def return_from_def split: option.split)

lemma mutex_signal:
  "mutex_inv s \<Longrightarrow> interrupted s = None \<Longrightarrow>
   mutex_inv (s\<lparr>main := M_scan c, interrupted := (if main s = M_idle then None else Some (main s))\<rparr>)"
  by (auto simp: mutex_inv_def)

lemma mutex_step:
  assumes m: "mutex_inv s" and t: "step ch s = Some t"
  shows "mutex_inv t"
proof (cases ch)
  case (Malloc_ok a)
  then obtain n where n: "main s = M_init (Suc n)" "pc s a = W_none"
    "t = s\<lparr>allocated := (allocated s)(a := True), terminate := (terminate s)(a := False),
           pc := (pc s)(a := W_start), created := a # created s, main := M_link n a\<rparr>"
    using t by (auto simp: step_def split: main_pc.splits nat.splits if_splits)
  have "mutex_inv (set_pc a W_start s)" by (rule mutex_keep [OF m]) (simp add: n)
  moreover have "interrupted s = None" using m n(1) by (auto simp: mutex_inv_def)
  ultimately show ?thesis using n by (simp add: mutex_inv_def)
next
  case Malloc_fail
  then show ?thesis
    using t m by (auto simp: step_def intro!: mutex_return split: main_pc.splits nat.splits)
next
  case Create_fail
  then show ?thesis
    using t m by (auto simp: step_def intro!: mutex_return split: main_pc.splits nat.splits)
next
  case (Move w)
  then show ?thesis using t mutex_worker [OF m] by (simp add: step_def)
next
  case (Spurious w)
  then show ?thesis using t mutex_keep [OF m, of W_woken w] by (simp add: step_def split: if_splits)
next
  case (Call_init n)
  then show ?thesis using t m by (auto simp: step_def intro!: mutex_call split: if_splits)
next
  case (Call_add j)
  then show ?thesis using t m by (auto simp: step_def intro!: mutex_call split: if_splits)
next
  case Call_shutdown
  then show ?thesis using t m by (auto simp: step_def intro!: mutex_call split: if_splits)
next
  case Signal
  show ?thesis
  proof (cases "interrupted s = None")
    case True
    then have "t = s\<lparr>main := M_scan (workers s), interrupted := (if main s = M_idle then None else Some (main s))\<rparr>"
      using t Signal by (simp add: step_def)
    then show ?thesis using mutex_signal [OF m True] by blast
  qed (use t Signal in \<open>auto simp: step_def\<close>)
next
  case (Step w)
  then show ?thesis using t mutex_main [OF m] by (simp add: step_def)
qed

text \<open>
  Where the jobs are: every added job is on its way into the list, in it, held by one
  worker, finished or dropped by a shutdown, and in one of these places only.
\<close>

definition holds :: "worker_pc \<Rightarrow> nat option" where
  "holds p = (case p of W_got j \<Rightarrow> j | W_run j \<Rightarrow> Some j | _ \<Rightarrow> None)"

lemma holds_simps [simp]:
  "holds W_none = None" "holds W_start = None" "holds W_loop = None" "holds W_waiting = None"
  "holds W_woken = None" "holds W_after = None" "holds (W_got j) = j" "holds (W_run i) = Some i"
  "holds W_exit = None" "holds W_gone = None"
  by (simp_all add: holds_def)

definition adding :: "main_pc \<Rightarrow> nat option" where
  "adding p = (case p of M_add_lock j \<Rightarrow> Some j | M_add_link j \<Rightarrow> Some j | _ \<Rightarrow> None)"

lemma adding_simps [simp]:
  "adding M_idle = None" "adding (M_init n) = None" "adding (M_link n a) = None"
  "adding (M_add_lock j) = Some j" "adding (M_add_link j) = Some j" "adding M_add_unlock = None"
  "adding (M_scan c) = None" "adding (M_next a) = None" "adding M_shut_lock = None"
  "adding M_shut_clear = None" "adding M_shut_unlock = None"
  by (simp_all add: adding_def)

lemma in_shutdown_adding: "in_shutdown p \<Longrightarrow> adding p = None"
  by (cases p) simp_all

definition inflight :: "main_pc option \<Rightarrow> main_pc \<Rightarrow> nat option" where
  "inflight i m = (case i of None \<Rightarrow> adding m | Some p \<Rightarrow> adding p)"

definition places :: "nat list \<Rightarrow> nat list \<Rightarrow> (nat \<Rightarrow> nat option) \<Rightarrow> nat option \<Rightarrow> nat list \<Rightarrow> bool" where
  "places xs fs hold new js \<longleftrightarrow>
     distinct (xs @ fs) \<and> set xs \<union> set fs \<subseteq> set js \<and>
     (\<forall>w j. hold w = Some j \<longrightarrow> j \<in> set js \<and> j \<notin> set xs \<and> j \<notin> set fs) \<and>
     (\<forall>w w' j. hold w = Some j \<longrightarrow> hold w' = Some j \<longrightarrow> w = w') \<and>
     (\<forall>j. new = Some j \<longrightarrow> j \<in> set js \<and> j \<notin> set xs \<and> j \<notin> set fs \<and> (\<forall>w. hold w \<noteq> Some j))"

lemma places_take:
  "places (x # xs) fs hold new js \<Longrightarrow> hold w = None \<Longrightarrow> places xs fs (hold(w := Some x)) new js"
  by (auto simp: places_def)

lemma places_finish:
  "places xs fs hold new js \<Longrightarrow> hold w = Some j \<Longrightarrow> places xs (j # fs) (hold(w := None)) new js"
  by (auto simp: places_def)

lemma places_link: "places xs fs hold (Some j) js \<Longrightarrow> places (j # xs) fs hold None js"
  by (auto simp: places_def)

lemma places_new: "places xs fs hold new js \<Longrightarrow> j \<notin> set js \<Longrightarrow> places xs fs hold (Some j) (j # js)"
  by (auto simp: places_def)

lemma places_drop: "places xs fs hold new js \<Longrightarrow> places [] fs hold new js"
  by (auto simp: places_def)

lemma places_none: "places xs fs hold new js \<Longrightarrow> places xs fs hold None js"
  by (auto simp: places_def)

definition job_inv :: "sys \<Rightarrow> bool" where
  "job_inv s \<longleftrightarrow> (\<exists>xs. job_list (job_links s, waiting_jobs s) xs \<and>
     places xs (finished s) (\<lambda>w. holds (pc s w)) (inflight (interrupted s) (main s)) (added s))"

lemma job_inv_set_pc:
  assumes "job_inv s" "holds p = holds (pc s w)"
  shows "job_inv (set_pc w p s)"
proof -
  have "(\<lambda>v. holds (pc (set_pc w p s) v)) = (\<lambda>v. holds (pc s v))"
    using assms(2) by (auto simp: fun_eq_iff)
  then show ?thesis using assms(1) by (simp add: job_inv_def)
qed

lemma job_inv_frame [simp]:
  "job_inv (s\<lparr>jobs_mutex := m\<rparr>) = job_inv s" "job_inv (s\<lparr>workers := l\<rparr>) = job_inv s"
  "job_inv (s\<lparr>worker_links := h\<rparr>) = job_inv s" "job_inv (s\<lparr>terminate := b\<rparr>) = job_inv s"
  "job_inv (s\<lparr>allocated := b\<rparr>) = job_inv s" "job_inv (s\<lparr>init_failed := c\<rparr>) = job_inv s"
  "job_inv (s\<lparr>fault := c\<rparr>) = job_inv s"
  by (simp_all add: job_inv_def)

lemma job_inv_take:
  assumes "job_inv s" "pc s w = W_after"
  shows "job_inv (take_job w s)"
proof (cases "waiting_jobs s")
  case None
  then show ?thesis
    using job_inv_set_pc [OF assms(1), of "W_got None" w] assms(2) by (simp add: take_job_def)
next
  case (Some j)
  obtain xs where xs: "job_list (job_links s, waiting_jobs s) xs"
    "places xs (finished s) (\<lambda>w. holds (pc s w)) (inflight (interrupted s) (main s)) (added s)"
    using assms(1) by (auto simp: job_inv_def)
  then obtain ys where ys: "xs = j # ys"
    using Some by (cases xs) (auto simp: job_list_def)
  obtain h l where r: "LL_REMOVE j (job_links s, waiting_jobs s) = (h, l)" by fastforce
  have "job_list (h, l) ys"
    using jobs.rep_pop [of "(job_links s, waiting_jobs s)" j ys] xs(1) ys r by simp
  moreover have "places ys (finished s) ((\<lambda>w. holds (pc s w))(w := Some j)) (inflight (interrupted s) (main s)) (added s)"
    by (rule places_take) (use xs(2) ys assms(2) in simp_all)
  moreover have "(\<lambda>v. holds (((pc s)(w := W_got (Some j))) v)) = (\<lambda>w. holds (pc s w))(w := Some j)"
    by (auto simp: fun_eq_iff)
  ultimately show ?thesis
    using r Some by (auto simp: take_job_def job_inv_def set_pc_def)
qed

lemma job_inv_finish:
  assumes "job_inv s" "pc s w = W_run j"
  shows "job_inv (set_pc w W_start (s\<lparr>finished := j # finished s\<rparr>))"
proof -
  obtain xs where xs: "job_list (job_links s, waiting_jobs s) xs"
    "places xs (finished s) (\<lambda>w. holds (pc s w)) (inflight (interrupted s) (main s)) (added s)"
    using assms(1) by (auto simp: job_inv_def)
  have "places xs (j # finished s) ((\<lambda>w. holds (pc s w))(w := None)) (inflight (interrupted s) (main s)) (added s)"
    by (rule places_finish) (use xs(2) assms(2) in simp_all)
  moreover have "(\<lambda>v. holds (((pc s)(w := W_start)) v)) = (\<lambda>w. holds (pc s w))(w := None)"
    by (auto simp: fun_eq_iff)
  ultimately show ?thesis
    using xs(1) by (auto simp: job_inv_def set_pc_def)
qed

lemma job_worker:
  assumes j: "job_inv s" and t: "worker_function w s = Some t"
  shows "job_inv t"
proof (cases "pc s w")
  case (W_got i)
  then have "job_inv (set_pc w W_start (unlock s))" if "i = None"
    using job_inv_set_pc [of "unlock s" W_start w] j that by (simp add: unlock_def)
  moreover have "job_inv (set_pc w (W_run k) (unlock s))" if "i = Some k" for k
    using job_inv_set_pc [of "unlock s" "W_run k" w] j that W_got by (simp add: unlock_def)
  ultimately show ?thesis using W_got t by (auto simp: worker_function_def split: option.splits)
next
  case (W_run i)
  then show ?thesis using t job_inv_finish [OF j W_run] by (simp add: worker_function_def)
next
  case W_after
  then show ?thesis
    using t job_inv_take [OF j W_after] job_inv_set_pc [OF j, of W_exit w]
    by (auto simp: worker_function_def split: if_splits)
next
  case W_exit
  then show ?thesis
    using t job_inv_set_pc [of "s\<lparr>allocated := (allocated s)(w := False)\<rparr>" W_gone w] j
    by (simp add: worker_function_def)
next
  case W_loop
  then show ?thesis
    using t j job_inv_set_pc [of "unlock s" W_waiting w] job_inv_set_pc [OF j, of W_after w]
    by (auto simp: worker_function_def unlock_def split: if_splits)
next
  case W_start
  then show ?thesis
    using t j job_inv_set_pc [of "s\<lparr>jobs_mutex := Some (Worker w)\<rparr>" W_loop w]
    by (auto simp: worker_function_def lock_def split: if_splits)
next
  case W_woken
  then show ?thesis
    using t j job_inv_set_pc [of "s\<lparr>jobs_mutex := Some (Worker w)\<rparr>" W_loop w]
    by (auto simp: worker_function_def lock_def split: if_splits)
qed (use t in \<open>simp_all add: worker_function_def\<close>)

lemma job_inv_pcs:
  assumes "job_inv s" "\<And>w. holds (f w) = holds (pc s w)"
  shows "job_inv (s\<lparr>pc := f\<rparr>)"
  using assms by (simp add: job_inv_def)

lemma job_inv_main:
  assumes "job_inv s" "inflight i m = inflight (interrupted s) (main s)"
  shows "job_inv (s\<lparr>main := m, interrupted := i\<rparr>)"
  using assms by (simp add: job_inv_def)

lemma job_inv_main1:
  assumes "job_inv s" "inflight (interrupted s) m = inflight (interrupted s) (main s)"
  shows "job_inv (s\<lparr>main := m\<rparr>)"
  using assms by (simp add: job_inv_def)

lemma job_inv_return:
  assumes "job_inv s" "adding (main s) = None"
  shows "job_inv (return_from s)"
  using assms by (auto simp: return_from_def job_inv_def inflight_def split: option.splits)

lemma job_inv_wake: "job_inv s \<Longrightarrow> job_inv (wake w s)"
  by (auto simp: wake_def intro: job_inv_set_pc)

lemma job_inv_link:
  assumes "job_inv s" "main s = M_add_link j" "interrupted s = None"
    and "LL_ADD j (job_links s, waiting_jobs s) = (h, l)"
  shows "job_inv (s\<lparr>job_links := h, waiting_jobs := l, main := M_add_unlock\<rparr>)"
proof -
  obtain xs where xs: "job_list (job_links s, waiting_jobs s) xs"
    "places xs (finished s) (\<lambda>w. holds (pc s w)) (Some j) (added s)"
    using assms(1-3) by (auto simp: job_inv_def inflight_def)
  have new: "j \<notin> set xs" using xs(2) by (simp add: places_def)
  have "job_list (h, l) (j # xs)"
    using jobs.rep_push [OF xs(1) new] assms(4) by simp
  moreover note places_link [OF xs(2)]
  ultimately show ?thesis using assms(3) by (auto simp: job_inv_def inflight_def)
qed

lemma job_inv_clear:
  assumes "job_inv s" "main s = M_shut_clear"
  shows "job_inv (broadcast (s\<lparr>workers := None, waiting_jobs := None, main := M_shut_unlock\<rparr>))"
proof -
  obtain xs where "places xs (finished s) (\<lambda>w. holds (pc s w)) (inflight (interrupted s) (main s)) (added s)"
    using assms(1) by (auto simp: job_inv_def)
  then have "places [] (finished s) (\<lambda>w. holds (pc s w)) (inflight (interrupted s) M_shut_unlock) (added s)"
    using places_drop assms(2) by (simp add: inflight_def split: option.splits)
  moreover have "job_list (job_links s, None) []"
    by (simp add: job_list_def no_prev_def)
  ultimately have "job_inv (s\<lparr>workers := None, waiting_jobs := None, main := M_shut_unlock\<rparr>)"
    by (auto simp: job_inv_def)
  then show ?thesis
    unfolding broadcast_def by (rule job_inv_pcs) simp
qed

lemma job_main:
  assumes j: "job_inv s" and m: "mutex_inv s" and t: "main_step w s = Some t"
  shows "job_inv t"
proof (cases "main s")
  case (M_add_link i)
  then have "interrupted s = None" using m by (auto simp: mutex_inv_def)
  then show ?thesis
    using t M_add_link job_inv_link [OF j M_add_link] job_inv_wake
    by (auto simp: main_step_def split: prod.splits if_splits)
next
  case (M_add_lock i)
  then have "interrupted s = None" using m by (auto simp: mutex_inv_def)
  then show ?thesis
    using t M_add_lock j by (auto simp: main_step_def lock_def job_inv_def inflight_def split: if_splits)
next
  case M_shut_clear
  then show ?thesis using t job_inv_clear [OF j] by (simp add: main_step_def)
next
  case (M_init n)
  then show ?thesis using t j by (auto simp: main_step_def intro: job_inv_return split: if_splits)
next
  case M_add_unlock
  then show ?thesis using t j by (auto simp: main_step_def unlock_def intro: job_inv_return)
next
  case M_shut_unlock
  then show ?thesis using t j by (auto simp: main_step_def unlock_def intro: job_inv_return)
next
  case (M_scan c)
  then show ?thesis
    using t j by (cases c) (auto simp: main_step_def inflight_def intro!: job_inv_main1 split: option.splits)
next
  case (M_next a)
  then show ?thesis
    using t j by (auto simp: main_step_def inflight_def intro!: job_inv_main1 split: option.splits)
next
  case M_shut_lock
  then show ?thesis
    using t j by (auto simp: main_step_def lock_def inflight_def intro!: job_inv_main1 split: if_splits option.splits)
next
  case (M_link n a)
  then show ?thesis
    using t j by (auto simp: main_step_def inflight_def intro!: job_inv_main1 split: prod.splits option.splits)
qed (use t in \<open>simp add: main_step_def\<close>)

lemma job_step:
  assumes j: "job_inv s" and m: "mutex_inv s" and t: "step ch s = Some t"
  shows "job_inv t"
proof (cases ch)
  case (Move w)
  then show ?thesis using t job_worker [OF j] by (simp add: step_def)
next
  case (Spurious w)
  then show ?thesis using t job_inv_set_pc [OF j, of W_woken w] by (auto simp: step_def split: if_splits)
next
  case (Call_init n)
  then show ?thesis using t j by (auto simp: step_def inflight_def intro!: job_inv_main1 split: if_splits)
next
  case (Call_add i)
  then have t': "t = s\<lparr>main := M_add_lock i, added := i # added s\<rparr>" "i \<notin> set (added s)" "interrupted s = None"
    using t by (auto simp: step_def split: if_splits)
  obtain xs where "job_list (job_links s, waiting_jobs s) xs"
    "places xs (finished s) (\<lambda>w. holds (pc s w)) (inflight (interrupted s) (main s)) (added s)"
    using j by (auto simp: job_inv_def)
  with places_new t'(2,3) show ?thesis unfolding t'(1) by (auto simp: job_inv_def inflight_def)
next
  case Call_shutdown
  then show ?thesis
    using t j by (auto simp: step_def inflight_def intro!: job_inv_main1 split: if_splits option.splits)
next
  case Signal
  then show ?thesis
    using t j by (auto simp: step_def inflight_def intro!: job_inv_main split: if_splits)
next
  case (Malloc_ok a)
  then obtain n where n: "main s = M_init (Suc n)" "pc s a = W_none"
    "t = s\<lparr>allocated := (allocated s)(a := True), terminate := (terminate s)(a := False),
           pc := (pc s)(a := W_start), created := a # created s, main := M_link n a\<rparr>"
    using t by (auto simp: step_def split: main_pc.splits nat.splits if_splits)
  have "job_inv (s\<lparr>pc := (pc s)(a := W_start)\<rparr>)"
    by (rule job_inv_pcs [OF j]) (simp add: n(2))
  moreover have "interrupted s = None" using m n(1) by (auto simp: mutex_inv_def)
  ultimately show ?thesis using n(1) unfolding n(3) by (simp add: job_inv_def inflight_def)
next
  case Malloc_fail
  then show ?thesis using t j by (auto simp: step_def intro!: job_inv_return split: main_pc.splits nat.splits)
next
  case Create_fail
  then show ?thesis using t j by (auto simp: step_def intro!: job_inv_return split: main_pc.splits nat.splits)
next
  case (Step w)
  then show ?thesis using t job_main [OF j m] by (simp add: step_def)
qed

definition wq_inv :: "sys \<Rightarrow> bool" where
  "wq_inv s \<longleftrightarrow> mutex_inv s \<and> job_inv s"

lemma wq_inv_start: "wq_inv wq_start"
  by (simp add: wq_inv_def mutex_inv_def job_inv_def wq_start_def inflight_def places_def job_list_def
      no_prev_def)

lemma wq_inv_step: "wq_inv s \<Longrightarrow> wq_step s t \<Longrightarrow> wq_inv t"
  by (auto simp: wq_inv_def elim!: wq_step.cases intro: mutex_step job_step)

interpretation wq: invariant_system "\<lambda>s. s = wq_start" wq_step wq_inv
  by unfold_locales (auto simp: wq_inv_start wq_inv_step)

section \<open>A worker that terminates\<close>

definition terminated :: "worker_pc \<Rightarrow> bool" where
  "terminated p \<longleftrightarrow> p = W_exit \<or> p = W_gone"

lemma terminated_critical: "terminated p \<Longrightarrow> critical p"
  by (auto simp: terminated_def)

text \<open>What stays as it is once the worker \<open>w\<close> has left its loop with the mutex.\<close>

definition frozen :: "nat \<Rightarrow> sys \<Rightarrow> sys \<Rightarrow> bool" where
  "frozen w s t \<longleftrightarrow> terminated (pc t w) \<and> waiting_jobs t = waiting_jobs s \<and> job_links t = job_links s \<and>
     (\<forall>v j. pc t v = W_run j \<longrightarrow> pc s v = W_run j) \<and>
     set (finished t) \<subseteq> set (finished s) \<union> {j. \<exists>v. pc s v = W_run j}"

lemma frozen_refl: "terminated (pc s w) \<Longrightarrow> frozen w s s"
  by (simp add: frozen_def)

lemma frozen_trans: "frozen w s t \<Longrightarrow> frozen w t u \<Longrightarrow> frozen w s u"
proof -
  assume f: "frozen w s t" "frozen w t u"
  have "set (finished u) \<subseteq> set (finished s) \<union> {j. \<exists>v. pc s v = W_run j}"
    using f unfolding frozen_def by blast
  with f show ?thesis by (simp add: frozen_def)
qed

lemma frozen_worker:
  assumes m: "mutex_inv s" and w: "terminated (pc s w)" and t: "worker_function v s = Some t"
  shows "frozen w s t"
proof -
  have o: "jobs_mutex s = Some (Worker w)"
    using m terminated_critical [OF w] by (simp add: mutex_inv_def)
  have nc: "v \<noteq> w \<Longrightarrow> \<not> critical (pc s v)"
    using m o by (auto simp: mutex_inv_def)
  show ?thesis
  proof (cases "v = w")
    case True
    then show ?thesis
      using w t by (auto simp: terminated_def worker_function_def frozen_def split: if_splits)
  next
    case False
    then show ?thesis
      using nc w t o
      by (cases "pc s v") (auto simp: worker_function_def lock_def frozen_def split: if_splits)
  qed
qed

lemma frozen_main:
  assumes m: "mutex_inv s" and w: "terminated (pc s w)" and t: "main_step v s = Some t"
  shows "frozen w s t"
proof -
  have o: "jobs_mutex s = Some (Worker w)"
    using m terminated_critical [OF w] by (simp add: mutex_inv_def)
  then have nc: "\<not> main_critical (main s)"
    using m by (auto simp: mutex_inv_def)
  then show ?thesis
    using w t o
    by (cases "main s")
      (auto simp: main_step_def lock_def return_from_def frozen_def split: option.splits if_splits prod.splits)
qed

lemma frozen_step:
  assumes m: "mutex_inv s" and w: "terminated (pc s w)" and t: "step ch s = Some t"
  shows "frozen w s t"
proof (cases ch)
  case (Move v)
  then show ?thesis using t frozen_worker [OF m w] by (simp add: step_def)
next
  case (Step v)
  then show ?thesis using t frozen_main [OF m w] by (simp add: step_def)
next
  case (Malloc_ok a)
  then have "pc s a = W_none" "waiting_jobs t = waiting_jobs s" "job_links t = job_links s"
    "finished t = finished s" "pc t = (pc s)(a := W_start)"
    using t by (auto simp: step_def split: main_pc.splits nat.splits if_splits)
  then show ?thesis using w by (auto simp: frozen_def terminated_def)
qed (use w t in \<open>auto simp: step_def frozen_def terminated_def return_from_def
      split: if_splits main_pc.splits nat.splits option.splits\<close>)

lemma frozen_run:
  "wq_step\<^sup>*\<^sup>* s t \<Longrightarrow> wq_inv s \<Longrightarrow> terminated (pc s w) \<Longrightarrow> frozen w s t"
proof (induction rule: rtranclp_induct)
  case base
  then show ?case by (simp add: frozen_refl)
next
  case (step t u)
  then have f: "frozen w s t" and m: "mutex_inv t"
    using wq.rtranclp_inv by (auto simp: wq_inv_def)
  then have "terminated (pc t w)" by (simp add: frozen_def)
  then have "frozen w t u"
    using step.hyps(2) frozen_step [OF m] by (auto elim: wq_step.cases)
  with f show ?case by (rule frozen_trans)
qed

section \<open>Properties\<close>

text \<open>C13. In every interleaving of the workers, the owner of the queue and a signal
  handler, the mutex has one owner, each added job is called at most once, no job is called
  that was not added, and no job is held by two workers or waits while it is held or done.\<close>

theorem jobs_run_once:
  assumes "reachable (\<lambda>s. s = wq_start) wq_step s"
  shows "distinct (finished s) \<and> set (finished s) \<subseteq> set (added s) \<and>
    (\<forall>v w. critical (pc s v) \<longrightarrow> critical (pc s w) \<longrightarrow> v = w) \<and>
    (\<forall>v w j. holds (pc s v) = Some j \<longrightarrow> holds (pc s w) = Some j \<longrightarrow> v = w) \<and>
    (\<exists>xs. job_list (job_links s, waiting_jobs s) xs \<and>
      (\<forall>j \<in> set xs. j \<in> set (added s) \<and> j \<notin> set (finished s) \<and> (\<forall>w. holds (pc s w) \<noteq> Some j)))"
proof -
  have m: "mutex_inv s" and "job_inv s"
    using wq.reachable_inv [OF assms] by (simp_all add: wq_inv_def)
  then obtain xs where xs: "job_list (job_links s, waiting_jobs s) xs"
    "places xs (finished s) (\<lambda>w. holds (pc s w)) (inflight (interrupted s) (main s)) (added s)"
    by (auto simp: job_inv_def)
  have "critical (pc s v) \<Longrightarrow> critical (pc s w) \<Longrightarrow> v = w" for v w
    using m by (auto simp: mutex_inv_def)
  moreover have "holds (pc s v) = Some j \<Longrightarrow> holds (pc s w) = Some j \<Longrightarrow> v = w" for v w j
    using xs(2) by (auto simp: places_def)
  moreover have "j \<in> set (added s) \<and> j \<notin> set (finished s) \<and> (\<forall>w. holds (pc s w) \<noteq> Some j)"
    if "j \<in> set xs" for j
    using xs(2) that by (auto simp: places_def)
  ultimately show ?thesis using xs unfolding places_def by auto
qed

text \<open>A run in which a worker takes a job and calls it.\<close>

definition one_job :: "choice list" where
  "one_job = [Call_init 1, Malloc_ok 1, Step 0, Step 0, Call_add 7, Step 0, Step 0, Step 0,
     Move 1, Move 1, Move 1, Move 1, Move 1]"

lemma run_reachable: "run chs wq_start = Some t \<Longrightarrow> reachable (\<lambda>s. s = wq_start) wq_step t"
proof -
  have "wq_step\<^sup>*\<^sup>* s t \<Longrightarrow> reachable (\<lambda>s. s = wq_start) wq_step s \<Longrightarrow> reachable (\<lambda>s. s = wq_start) wq_step t" for s t
    by (induction rule: rtranclp_induct) (auto intro: reach_step)
  then show "run chs wq_start = Some t \<Longrightarrow> reachable (\<lambda>s. s = wq_start) wq_step t"
    using run_steps [of chs wq_start t] reach_init [of "\<lambda>s. s = wq_start"] by blast
qed

theorem jobs_run_once_witness:
  "\<exists>s. reachable (\<lambda>s. s = wq_start) wq_step s \<and> finished s = [7] \<and> distinct (finished s)"
proof -
  obtain t where t: "run one_job wq_start = Some t" "finished t = [7]"
    by (simp add: one_job_def wq_start_def wq_defs LL_ADD_def LL_REMOVE_def)
  from run_reachable [OF t(1)] jobs_run_once [OF run_reachable [OF t(1)]] t(2) show ?thesis by blast
qed

text \<open>C37. A worker that terminates leaves its loop without unlocking. From then on the
  mutex is its own for ever: no other worker ever terminates, nothing is added to or taken
  from the waiting jobs, and the only jobs still called are those already running.\<close>

theorem terminated_worker_deadlocks:
  assumes "reachable (\<lambda>s. s = wq_start) wq_step s" "terminated (pc s w)" "wq_step\<^sup>*\<^sup>* s t"
  shows "jobs_mutex t = Some (Worker w) \<and> (\<forall>v. v \<noteq> w \<longrightarrow> \<not> terminated (pc t v)) \<and>
    waiting_jobs t = waiting_jobs s \<and>
    set (finished t) \<subseteq> set (finished s) \<union> {j. \<exists>v. pc s v = W_run j}"
proof -
  have "wq_inv s" by (rule wq.reachable_inv [OF assms(1)])
  then have f: "frozen w s t" and m: "mutex_inv t"
    using frozen_run [OF assms(3) _ assms(2)] wq.rtranclp_inv [OF assms(3)] by (simp_all add: wq_inv_def)
  have "critical (pc t w)"
    using f terminated_critical by (simp add: frozen_def)
  then have o: "jobs_mutex t = Some (Worker w)"
    using m by (simp add: mutex_inv_def)
  have "\<not> terminated (pc t v)" if "v \<noteq> w" for v
    using m o that terminated_critical [of "pc t v"] by (auto simp: mutex_inv_def)
  with f o show ?thesis by (simp add: frozen_def)
qed

text \<open>Two workers, a shutdown, and the first of them leaves.\<close>

definition shutdown_run :: "choice list" where
  "shutdown_run = [Call_init 2, Malloc_ok 1, Step 0, Malloc_ok 2, Step 0, Step 0, Call_shutdown,
     Step 0, Move 2, Move 2, Move 2, Move 2]"

theorem terminated_worker_deadlocks_witness:
  "\<exists>s. reachable (\<lambda>s. s = wq_start) wq_step s \<and> terminated (pc s 2) \<and> jobs_mutex s = Some (Worker 2) \<and>
     \<not> terminated (pc s 1) \<and> terminate s 2"
proof -
  obtain t where t: "run shutdown_run wq_start = Some t" "pc t 2 = W_gone" "terminate t 2"
    by (simp add: shutdown_run_def wq_start_def wq_defs LL_ADD_def)
  then have "terminated (pc t 2)" by (simp add: terminated_def)
  from t(3) this run_reachable [OF t(1)] terminated_worker_deadlocks [OF run_reachable [OF t(1)] this rtranclp.rtrancl_refl]
  show ?thesis by auto
qed

text \<open>C40. The traversal of \<open>workqueue_shutdown\<close> holds no lock, so a worker it has
  just told to terminate can free itself before the traversal reads its \<open>next\<close>
  pointer: there is a run of the program that uses freed memory.\<close>

theorem shutdown_use_after_free:
  "\<exists>s t. reachable (\<lambda>s. s = wq_start) wq_step s \<and> \<not> fault s \<and> main s = M_next 2 \<and> \<not> allocated s 2 \<and>
     main_step 0 s = Some t \<and> fault t"
proof -
  obtain s where s: "run shutdown_run wq_start = Some s" "\<not> fault s" "main s = M_next 2" "\<not> allocated s 2"
    by (simp add: shutdown_run_def wq_start_def wq_defs LL_ADD_def)
  then have "main_step 0 s = Some (s\<lparr>fault := True, main := M_scan (next_of (worker_links s 2))\<rparr>)"
    by (simp add: main_step_def)
  with s run_reachable [OF s(1)] show ?thesis
    by (intro exI [of _ s] exI [of _ "s\<lparr>fault := True, main := M_scan (next_of (worker_links s 2))\<rparr>"]) simp
qed

text \<open>The list macros as the program uses them: jobs added to a list come back in the
  opposite order, and the list is left as it was.\<close>

theorem job_list_lifo:
  assumes "job_list q xs" "distinct (rev ys @ xs)"
  shows "job_list (fold LL_ADD ys q) (rev ys @ xs) \<and>
    job_list (fold LL_REMOVE (rev ys) (fold LL_ADD ys q)) xs"
  using jobs.rep_pushes [OF assms] jobs.lifo [OF assms] by blast

theorem job_list_lifo_witness:
  "job_list (fold LL_ADD [3, 5] (\<lambda>_. \<lparr>prev_of = None, next_of = None\<rparr>, None)) [5, 3]"
  using job_list_lifo [of "(\<lambda>_. \<lparr>prev_of = None, next_of = None\<rparr>, None)" "[]" "[3, 5]"]
  by (simp add: job_list_def no_prev_def)

text \<open>\<open>LL_REMOVE\<close> of an item that is not the head does not unlink it:
  \<open>LL_ADD\<close> never sets the predecessor of the old head, so the items after the removed
  one are lost and the removed one stays, as the last.\<close>

theorem remove_not_head:
  assumes "job_list (h, l) (xs @ y # ys)" "xs \<noteq> []" "LL_REMOVE y (h, l) = (h', l')"
  shows "chain h' l' (xs @ [y])"
  using assms by (intro chain_remove_middle [of h l xs y ys]) (simp_all add: job_list_def)

theorem remove_not_head_witness:
  "\<exists>h l h' l'. job_list (h, l) [5, 4, 3] \<and> LL_REMOVE 4 (h, l) = (h', l') \<and> chain h' l' [5, 4]"
proof -
  let ?q = "fold LL_ADD [3, 4, 5] (\<lambda>_. \<lparr>prev_of = None, next_of = None\<rparr>, None)"
  have q: "job_list (fst ?q, snd ?q) ([5] @ 4 # [3])"
    by (simp add: job_list_def no_prev_def LL_ADD_def)
  obtain h' l' where r: "LL_REMOVE 4 (fst ?q, snd ?q) = (h', l')" by fastforce
  from remove_not_head [OF q _ r] have "chain h' l' [5, 4]" by simp
  with q r show ?thesis
    by (intro exI [of _ "fst ?q"] exI [of _ "snd ?q"] exI [of _ h'] exI [of _ l']) simp
qed

end
