(* ===== verification/Database.thy ===== *)
theory Database imports Prelude begin

text \<open>
  The database manager of \<open>dbmanager.cpp\<close>: the SQL it sends and what it concludes from the
  answers. The MySQL client library is a parameter: whether a connection can be made, and
  for each SQL text either a failure or a result set.
\<close>

section \<open>The client library and the manager\<close>

text \<open>A result set: the number of columns, and the rows.\<close>

record result_set =
  field_count :: nat
  result_rows :: "string list list"

record mysql =
  my_connects :: bool
  my_query :: "string \<Rightarrow> result_set option"

definition initDB :: "mysql \<Rightarrow> bool option" where
  "initDB M = (if my_connects M then Some True else None)"

text \<open>
  The loop of \<open>executeSQL\<close> over the rows: at most as many rounds as there are columns, left
  at the end of the rows; each row is printed field by field. \<open>None\<close> is the \<open>exit\<close>.
\<close>

definition print_row :: "string list \<Rightarrow> string" where
  "print_row r = concat (map (\<lambda>f. f @ '' '') r) @ [CHR 0x0A]"

fun print_rows :: "nat \<Rightarrow> string list list \<Rightarrow> string" where
  "print_rows 0 rows = []"
| "print_rows (Suc i) [] = []"
| "print_rows (Suc i) (r # rows) = print_row r @ print_rows i rows"

definition executeSQL :: "mysql \<Rightarrow> string \<Rightarrow> (bool \<times> string) option" where
  "executeSQL M sql =
    (case my_query M sql of
       None \<Rightarrow> None
     | Some res \<Rightarrow> Some (True, print_rows (field_count res) (result_rows res)))"

definition register_sql :: "string \<Rightarrow> string \<Rightarrow> string" where
  "register_sql user_login user_pass =
    ''insert into jt_users (user_login,user_pass,user_registered) values ('' @ user_login @ '','' @
    user_pass @ '',now())''"

definition user_register_func :: "mysql \<Rightarrow> string \<Rightarrow> string \<Rightarrow> bool" where
  "user_register_func M user_login user_pass =
    (case my_query M (register_sql user_login user_pass) of None \<Rightarrow> False | Some _ \<Rightarrow> True)"

definition login_sql :: "string \<Rightarrow> string \<Rightarrow> string" where
  "login_sql user_login user_pass =
    ''select * from jt_users where user_login = '' @ user_login @ '' and user_pass = '' @ user_pass"

definition user_login_func :: "mysql \<Rightarrow> string \<Rightarrow> string \<Rightarrow> bool" where
  "user_login_func M user_login user_pass =
    (case my_query M (login_sql user_login user_pass) of
       None \<Rightarrow> False
     | Some res \<Rightarrow> (if field_count res = 0 then False else True))"

section \<open>What the answers depend on\<close>

lemma print_rows_take: "print_rows n rows = concat (map print_row (take n rows))"
  by (induction n rows rule: print_rows.induct) auto

text \<open>The same library with other rows in the tables: each answer keeps its columns.\<close>

definition same_columns :: "mysql \<Rightarrow> mysql \<Rightarrow> bool" where
  "same_columns M M' \<longleftrightarrow>
    (\<forall>q. map_option field_count (my_query M q) = map_option field_count (my_query M' q))"

lemma same_columnsD:
  assumes "same_columns M M'"
  shows "my_query M q = None \<and> my_query M' q = None \<or>
    (\<exists>r r'. my_query M q = Some r \<and> my_query M' q = Some r' \<and> field_count r = field_count r')"
  using assms unfolding same_columns_def
  by (cases "my_query M q"; cases "my_query M' q") (auto dest: spec[of _ q])

lemma user_login_func_cong:
  "same_columns M M' \<Longrightarrow> user_login_func M u p = user_login_func M' u p"
  using same_columnsD[of M M' "login_sql u p"] by (auto simp: user_login_func_def)

lemma login_sql_shift:
  "login_sql (u @ '' and user_pass = '' @ v) p = login_sql u (v @ '' and user_pass = '' @ p)"
  by (simp add: login_sql_def)

text \<open>
  The answer of a login depends only on whether the query runs and has columns, never on
  the rows it selects: a library with no rows at all answers every login as a library
  with the rows of the account does.
\<close>

theorem login_ignores_rows:
  assumes "\<And>q. my_query M q = map_option (\<lambda>r. r\<lparr>result_rows := rows q\<rparr>) (my_query M' q)"
  shows "user_login_func M user pass = user_login_func M' user pass"
proof (rule user_login_func_cong)
  show "same_columns M M'"
    unfolding same_columns_def by (simp add: assms option.map_comp comp_def)
qed

definition sample_mysql :: "string list list \<Rightarrow> mysql" where
  "sample_mysql rows =
    \<lparr>my_connects = True, my_query = (\<lambda>_. Some \<lparr>field_count = 3, result_rows = rows\<rparr>)\<rparr>"

theorem login_ignores_rows_witness:
  "user_login_func (sample_mysql []) ''1'' ''2'' = user_login_func (sample_mysql [[''7'', ''1'', ''2'']]) ''1'' ''2''
    \<and> user_login_func (sample_mysql []) ''1'' ''2''"
proof (rule conjI)
  show "user_login_func (sample_mysql []) ''1'' ''2'' = user_login_func (sample_mysql [[''7'', ''1'', ''2'']]) ''1'' ''2''"
    by (rule login_ignores_rows[where rows = "\<lambda>_. []"]) (simp add: sample_mysql_def)
  show "user_login_func (sample_mysql []) ''1'' ''2''"
    by (simp add: user_login_func_def sample_mysql_def)
qed

text \<open>
  The two arguments of a login are not kept apart in the SQL: a name that carries the text
  of the second condition and a password that carries it give the same query, and so the
  same answer.
\<close>

theorem login_sql_ambiguous:
  "user_login_func M (u @ '' and user_pass = '' @ v) p =
    user_login_func M u (v @ '' and user_pass = '' @ p)"
  by (simp only: user_login_func_def login_sql_shift)

text \<open>
  \<open>executeSQL\<close> prints at most as many rows of an answer as the answer has columns, in
  order; it returns exactly when the query runs.
\<close>

theorem executeSQL_rows:
  "executeSQL M sql =
    map_option (\<lambda>res. (True, concat (map print_row (take (field_count res) (result_rows res)))))
      (my_query M sql)"
  by (simp add: executeSQL_def print_rows_take split: option.split)

end
