(* ===== verification/Server.thy ===== *)
theory Server imports Database begin

text \<open>
  The server of \<open>server_threaded.c\<close>: what a connection acquires and releases, and what
  the read callback answers. libevent, the JSON library, the database and the operating
  system are parameters; a function returns the calls it makes on them in order.
\<close>

unbundle bit_operations_syntax

section \<open>Sockets and clients\<close>

text \<open>\<open>fcntl(fd, ...)\<close> is a function of the command, as the two calls see it.\<close>

datatype fcntl_cmd = F_GETFL | F_SETFL int

definition O_NONBLOCK :: int where
  "O_NONBLOCK = 2048"

definition setnonblock :: "(fcntl_cmd \<Rightarrow> int) \<Rightarrow> int" where
  "setnonblock fcntl =
    (let flags = fcntl F_GETFL in
     if flags < 0 then flags
     else let flags = flags OR O_NONBLOCK in
       if fcntl (F_SETFL flags) < 0 then -1 else 0)"

text \<open>The resources of a connection, and the log of their acquisition and release.\<close>

datatype resource = R_fd int | R_client | R_output | R_evbase | R_bufev | R_job | R_queue

datatype action = Acquire resource | Release resource

record client =
  c_fd :: int
  c_evbase :: bool
  c_buf_ev :: bool
  c_output :: bool

definition closeClient :: "client \<Rightarrow> client \<times> action list" where
  "closeClient c = (if c_fd c \<ge> 0 then (c\<lparr>c_fd := -1\<rparr>, [Release (R_fd (c_fd c))]) else (c, []))"

definition closeAndFreeClient :: "client \<Rightarrow> action list" where
  "closeAndFreeClient c =
    (let (c, a) = closeClient c in
     a @ (if c_buf_ev c then [Release R_bufev] else []) @
     (if c_evbase c then [Release R_evbase] else []) @
     (if c_output c then [Release R_output] else []) @
     [Release R_client])"

text \<open>
  What the system answers to the calls of \<open>on_accept\<close>: the descriptor or a negative
  number, the flags calls, and whether each allocation succeeds.
\<close>

record accept_env =
  e_accept :: int
  e_fcntl :: "fcntl_cmd \<Rightarrow> int"
  e_client :: bool
  e_output :: bool
  e_evbase :: bool
  e_bufev :: bool
  e_job :: bool

text \<open>The actions, and the client whose job is put in the work queue if all went well.\<close>

definition on_accept :: "accept_env \<Rightarrow> action list \<times> client option" where
  "on_accept e =
    (let fd = e_accept e in
     if fd < 0 then ([], None)
     else if setnonblock (e_fcntl e) < 0 then ([Acquire (R_fd fd), Release (R_fd fd)], None)
     else if \<not> e_client e then ([Acquire (R_fd fd), Release (R_fd fd)], None)
     else
       let c = \<lparr>c_fd = fd, c_evbase = False, c_buf_ev = False, c_output = False\<rparr>;
           a = [Acquire (R_fd fd), Acquire R_client]
       in if \<not> e_output e then (a @ closeAndFreeClient c, None)
       else let c = c\<lparr>c_output := True\<rparr>; a = a @ [Acquire R_output]
       in if \<not> e_evbase e then (a @ closeAndFreeClient c, None)
       else let c = c\<lparr>c_evbase := True\<rparr>; a = a @ [Acquire R_evbase]
       in if \<not> e_bufev e then (a @ closeAndFreeClient c, None)
       else let c = c\<lparr>c_buf_ev := True\<rparr>; a = a @ [Acquire R_bufev]
       in if \<not> e_job e then (a @ closeAndFreeClient c, None)
       else (a @ [Acquire R_job], Some c))"

section \<open>The read callback\<close>

definition BUF_MAX_SIZE :: nat where
  "BUF_MAX_SIZE = 4096"

text \<open>
  The JSON library: a parser, the lookup of a member, the test for null and the conversion
  to a string; the last two fail (\<open>None\<close>, an exception or a failed assertion) on values
  of the wrong kind. The writer gets the members set in the reply, in order. The parser
  gives a value, refuses the text, or writes where it must not.
\<close>

datatype item = J_int int | J_str string

datatype 'j parsed = Parsed 'j | Unparsed | Corrupts

record 'j json_lib =
  j_parse :: "string \<Rightarrow> 'j parsed"
  j_get :: "'j \<Rightarrow> string \<Rightarrow> 'j option"
  j_isNull :: "'j \<Rightarrow> bool"
  j_asString :: "'j \<Rightarrow> string option"
  j_write :: "(string \<times> item) list \<Rightarrow> string"

text \<open>
  The outcome of the parsing part: an access outside the 4096-byte array or outside an array
  of the parser, an exception of the JSON library, the \<open>exit\<close> of a database that cannot be
  reached, or the members of the reply.
\<close>

datatype read_result = Overflow | Corrupted | Throws | Exits | Reply "(string \<times> item) list"

text \<open>
  \<open>data\<close> as a C string: the zeroed array with the bytes of the input buffer copied over
  its start, up to the first NUL. \<open>None\<close> is a copy or a scan past the end.
\<close>

definition buffer_string :: "char list \<Rightarrow> string option" where
  "buffer_string input =
    (if length input > BUF_MAX_SIZE then None
     else let data = input @ replicate (BUF_MAX_SIZE - length input) (CHR 0x00);
              s = takeWhile (\<lambda>c. c \<noteq> CHR 0x00) data
          in if length s = length data then None else Some s)"

definition get_string :: "'j json_lib \<Rightarrow> 'j \<Rightarrow> string \<Rightarrow> string option" where
  "get_string J v k = Option.bind (j_get J v k) (j_asString J)"

definition error_reply :: "int \<Rightarrow> string \<Rightarrow> (string \<times> item) list" where
  "error_reply n d = [(''error_code'', J_int n), (''error_desc'', J_str d)]"

definition call_db :: "'j json_lib \<Rightarrow> 'j \<Rightarrow> string \<Rightarrow> string \<Rightarrow> (string \<Rightarrow> string \<Rightarrow> bool) \<Rightarrow> int \<Rightarrow> string \<Rightarrow> read_result" where
  "call_db J v k1 k2 f n d =
    (case (get_string J v k1, get_string J v k2) of
       (Some x, Some y) \<Rightarrow> Reply (if f x y then [(''error_code'', J_int 0)] else error_reply n d)
     | _ \<Rightarrow> Throws)"

definition read_reply :: "'j json_lib \<Rightarrow> mysql \<Rightarrow> char list \<Rightarrow> read_result" where
  "read_reply J D input =
    (case buffer_string input of
       None \<Rightarrow> Overflow
     | Some sdata \<Rightarrow>
         (case j_parse J sdata of
            Corrupts \<Rightarrow> Corrupted
          | Unparsed \<Rightarrow> Reply (error_reply (-11) ''Error:json data parse.'')
          | Parsed v \<Rightarrow>
              (case j_get J v ''FunctionName'' of
                 None \<Rightarrow> Throws
               | Some fn \<Rightarrow>
                   if j_isNull J fn then Reply (error_reply (-11) ''Error:json data parse.'')
                   else if initDB D = None then Exits
                   else (case j_asString J fn of
                      None \<Rightarrow> Throws
                    | Some name \<Rightarrow>
                        if name = ''register'' then
                          call_db J v ''PhoneNO'' ''Pwd'' (user_register_func D) (-111)
                            ''register failed,maybe user_login duplicate.''
                        else if name = ''login'' then
                          call_db J v ''User_login'' ''User_pass'' (user_login_func D) (-121)
                            ''login failed,maybe the account or password mistake.''
                        else Reply []))))"

text \<open>
  The whole callback: the bytes sent, and the client, whose descriptor is closed when the
  write fails. \<open>None\<close> when the thread does not come back.
\<close>

definition buffered_on_read ::
    "'j json_lib \<Rightarrow> mysql \<Rightarrow> char list \<Rightarrow> bool \<Rightarrow> client \<Rightarrow> (string \<times> client \<times> action list) option" where
  "buffered_on_read J D input write_ok c =
    (case read_reply J D input of
       Reply r \<Rightarrow>
         let (c', a) = (if write_ok then (c, []) else closeClient c) in Some (j_write J r, c', a)
     | _ \<Rightarrow> None)"

definition buffered_on_write :: "client \<Rightarrow> client \<times> action list" where
  "buffered_on_write c = (c, [])"

definition buffered_on_error :: "client \<Rightarrow> client \<times> action list" where
  "buffered_on_error c = closeClient c"

section \<open>The job of a connection\<close>

text \<open>
  \<open>event_base_dispatch\<close> calls the callbacks of the client for as long as it has events:
  any sequence of them. \<open>None\<close> is a read that does not come back.
\<close>

datatype callback = On_read "char list" bool | On_write | On_error

fun dispatch :: "'j json_lib \<Rightarrow> mysql \<Rightarrow> callback list \<Rightarrow> client \<Rightarrow> (client \<times> action list) option" where
  "dispatch J D [] c = Some (c, [])"
| "dispatch J D (cb # cbs) c =
    (case (case cb of
             On_read input ok \<Rightarrow> map_option snd (buffered_on_read J D input ok c)
           | On_write \<Rightarrow> Some (buffered_on_write c)
           | On_error \<Rightarrow> Some (buffered_on_error c)) of
       None \<Rightarrow> None
     | Some (c', a) \<Rightarrow> map_option (\<lambda>(c'', b). (c'', a @ b)) (dispatch J D cbs c'))"

definition server_job_function ::
    "'j json_lib \<Rightarrow> mysql \<Rightarrow> callback list \<Rightarrow> client \<Rightarrow> action list option" where
  "server_job_function J D cbs c =
    map_option (\<lambda>(c', a). a @ closeAndFreeClient c' @ [Release R_job]) (dispatch J D cbs c)"


section \<open>Running and killing the server\<close>

text \<open>
  What the system answers to the calls of \<open>runServer\<close>. \<open>err\<close> ends the process; the listening
  event base is the resource \<open>R_evbase\<close>, the work queue with its threads \<open>R_queue\<close>.
\<close>

record run_env =
  s_socket :: int
  s_bind :: int
  s_listen :: int
  s_fcntl :: "fcntl_cmd \<Rightarrow> int"
  s_base :: bool
  s_queue :: int

datatype run_result = Err | Return int

definition runServer :: "run_env \<Rightarrow> run_result \<times> action list" where
  "runServer e =
    (let sockfd = s_socket e in
     if sockfd < 0 then (Err, [])
     else let a = [Acquire (R_fd sockfd)]
     in if s_bind e < 0 then (Err, a)
     else if s_listen e < 0 then (Err, a)
     else if setnonblock (s_fcntl e) < 0 then (Err, a)
     else if \<not> s_base e then (Return 1, a @ [Release (R_fd sockfd)])
     else let a = a @ [Acquire R_evbase, Acquire R_queue]
     in if s_queue e \<noteq> 0 then (Return 1, a @ [Release (R_fd sockfd), Release R_queue])
     else (Return 0, a @ [Release R_evbase, Release (R_fd sockfd)]))"

text \<open>\<open>killServer\<close>, and the handler of \<open>SIGINT\<close> and \<open>SIGTERM\<close> that calls it.\<close>

definition killServer :: "action list" where
  "killServer = [Release R_queue]"

definition sighandler :: "int \<Rightarrow> action list" where
  "sighandler signal = killServer"

section \<open>Accounting\<close>

text \<open>
  Following a log from what is held before: an acquisition is of something not held, a
  release of something held; an event base is freed after the bufferevent that uses it, a
  client after everything its pointers reach. \<open>None\<close> is a leak of a pointer, a double
  release or a release out of order.
\<close>

fun in_order :: "resource \<Rightarrow> resource set \<Rightarrow> bool" where
  "in_order R_evbase S = (R_bufev \<notin> S)"
| "in_order R_client S = (R_bufev \<notin> S \<and> R_evbase \<notin> S \<and> R_output \<notin> S)"
| "in_order _ S = True"

fun track :: "resource set \<Rightarrow> action list \<Rightarrow> resource set option" where
  "track S [] = Some S"
| "track S (Acquire r # as) = (if r \<in> S then None else track (insert r S) as)"
| "track S (Release r # as) =
    (if r \<in> S \<and> in_order r (S - {r}) then track (S - {r}) as else None)"

lemma track_append: "track S (a @ b) = Option.bind (track S a) (\<lambda>S'. track S' b)"
  by (induction S a rule: track.induct) auto

text \<open>What a client holds, with its job or without.\<close>

definition client_holds :: "client \<Rightarrow> resource set" where
  "client_holds c =
    (if c_fd c \<ge> 0 then {R_fd (c_fd c)} else {}) \<union> (if c_buf_ev c then {R_bufev} else {}) \<union>
    (if c_evbase c then {R_evbase} else {}) \<union> (if c_output c then {R_output} else {}) \<union> {R_client}"

lemma track_closeClient:
  assumes "closeClient c = (c', a)" and "J \<subseteq> {R_job}"
  shows "track (client_holds c \<union> J) a = Some (client_holds c' \<union> J)"
  using assms by (auto simp: closeClient_def client_holds_def split: if_splits)

lemma track_closeAndFreeClient:
  assumes "J \<subseteq> {R_job}"
  shows "track (client_holds c \<union> J) (closeAndFreeClient c) = Some J"
proof -
  obtain c' a where c: "closeClient c = (c', a)" by fastforce
  have f: "c_fd c' < 0"
    using c by (auto simp: closeClient_def split: if_splits)
  have "track (client_holds c' \<union> J)
      ((if c_buf_ev c' then [Release R_bufev] else []) @ (if c_evbase c' then [Release R_evbase] else []) @
       (if c_output c' then [Release R_output] else []) @ [Release R_client]) = Some J"
    using assms f by (cases "c_buf_ev c'"; cases "c_evbase c'"; cases "c_output c'")
      (auto simp: client_holds_def)
  then show ?thesis
    by (simp add: closeAndFreeClient_def c track_append track_closeClient[OF c assms])
qed

lemma track_dispatch:
  assumes "dispatch J D cbs c = Some (c', a)"
  shows "track (client_holds c \<union> {R_job}) a = Some (client_holds c' \<union> {R_job})"
  using assms
proof (induction cbs arbitrary: c a)
  case (Cons cb cbs)
  obtain c1 a1 c2 b where 1: "(case cb of
             On_read input ok \<Rightarrow> map_option snd (buffered_on_read J D input ok c)
           | On_write \<Rightarrow> Some (buffered_on_write c)
           | On_error \<Rightarrow> Some (buffered_on_error c)) = Some (c1, a1)"
    and 2: "dispatch J D cbs c1 = Some (c2, b)" and 3: "c' = c2" "a = a1 @ b"
    using Cons.prems by (auto split: option.splits prod.splits)
  have "(c1, a1) = (c, []) \<or> (c1, a1) = closeClient c"
    using 1 by (auto simp: buffered_on_read_def buffered_on_write_def buffered_on_error_def
      split: callback.splits read_result.splits if_splits)
  then have "track (client_holds c \<union> {R_job}) a1 = Some (client_holds c1 \<union> {R_job})"
    using track_closeClient[of c c1 a1 "{R_job}"] by auto
  then show ?case
    using Cons.IH[OF 2[folded 3(1)]] by (simp add: 3(2) track_append)
qed auto

lemma track_server_job:
  assumes "server_job_function J D cbs c = Some b"
  shows "track (client_holds c \<union> {R_job}) b = Some {}"
proof -
  obtain c' a where d: "dispatch J D cbs c = Some (c', a)"
    and b: "b = a @ closeAndFreeClient c' @ [Release R_job]"
    using assms by (auto simp: server_job_function_def)
  show ?thesis
    by (simp add: b track_append track_dispatch[OF d, simplified]
      track_closeAndFreeClient[of "{R_job}", simplified])
qed

lemma on_accept_track:
  assumes "on_accept e = (a, oc)"
  shows "track {} a = Some (case oc of None \<Rightarrow> {} | Some c \<Rightarrow> client_holds c \<union> {R_job})"
  using assms
  unfolding on_accept_def Let_def
  by (auto simp: client_holds_def closeAndFreeClient_def closeClient_def split: if_splits)


section \<open>The string in the buffer\<close>

lemma takeWhile_zeros:
  "takeWhile (\<lambda>c. c \<noteq> CHR 0x00) (xs @ replicate n (CHR 0x00)) = takeWhile (\<lambda>c. c \<noteq> CHR 0x00) xs"
  by (induction xs) (auto simp: takeWhile_replicate)

lemma length_takeWhile_eq: "length (takeWhile P xs) = length xs \<longleftrightarrow> (\<forall>x\<in>set xs. P x)"
proof (induction xs)
  case (Cons x xs)
  then show ?case
    using length_takeWhile_le[of P xs] by auto
qed simp

lemma buffer_string_alt:
  "buffer_string input =
    (if length input > 4096 \<or> length input = 4096 \<and> CHR 0x00 \<notin> set input then None
     else Some (takeWhile (\<lambda>c. c \<noteq> CHR 0x00) input))"
proof -
  let ?s = "takeWhile (\<lambda>c. c \<noteq> CHR 0x00) input"
  have len: "length ?s = length input \<longleftrightarrow> CHR 0x00 \<notin> set input" "length ?s \<le> length input"
    by (auto simp: length_takeWhile_eq length_takeWhile_le)
  have "buffer_string input =
    (if length input > 4096 then None
     else if length ?s = length input + (4096 - length input) then None else Some ?s)"
    by (simp only: buffer_string_def BUF_MAX_SIZE_def Let_def takeWhile_zeros length_append length_replicate)
  also have "\<dots> = (if length input > 4096 \<or> length input = 4096 \<and> CHR 0x00 \<notin> set input then None else Some ?s)"
    using len by auto
  finally show ?thesis .
qed

lemma read_reply_Overflow: "read_reply J D input = Overflow \<longleftrightarrow> buffer_string input = None"
  by (auto simp: read_reply_def call_db_def split: option.splits parsed.splits)

lemma takeWhile_until: "CHR 0x00 \<notin> set s \<Longrightarrow> takeWhile (\<lambda>c. c \<noteq> CHR 0x00) (s @ CHR 0x00 # t) = s"
  by (induction s) auto

section \<open>Properties\<close>

text \<open>
  C20. Every connection gives back what it took: if \<open>on_accept\<close> fails at any point nothing is
  left held; if it queues a job, then for all callbacks that the job's event loop runs and
  that come back, accepting and serving together release each resource exactly once, none
  before the ones that depend on it, and leave nothing held.
\<close>

theorem connection_balanced:
  assumes "on_accept e = (a, oc)"
  shows "case oc of
      None \<Rightarrow> track {} a = Some {}
    | Some c \<Rightarrow> (\<forall>b. server_job_function J D cbs c = Some b \<longrightarrow> track {} (a @ b) = Some {})"
  using on_accept_track[OF assms] track_server_job[of J D cbs]
  by (auto simp: track_append split: option.split)

definition sample_env :: accept_env where
  "sample_env = \<lparr>e_accept = 5, e_fcntl = (\<lambda>_. 0), e_client = True, e_output = True, e_evbase = True,
    e_bufev = True, e_job = True\<rparr>"

definition sample_client :: client where
  "sample_client = \<lparr>c_fd = 5, c_evbase = True, c_buf_ev = True, c_output = True\<rparr>"

definition sample_json :: "string json_lib" where
  "sample_json = \<lparr>j_parse = Parsed, j_get = (\<lambda>v k. if k = ''FunctionName'' then Some v else Some ''1''),
    j_isNull = (\<lambda>v. v = []), j_asString = Some, j_write = (\<lambda>_. ''ok'')\<rparr>"

lemma sample_accept:
  "on_accept sample_env =
    ([Acquire (R_fd 5), Acquire R_client, Acquire R_output, Acquire R_evbase, Acquire R_bufev, Acquire R_job],
     Some sample_client)"
  by (simp add: on_accept_def sample_env_def sample_client_def setnonblock_def Let_def O_NONBLOCK_def)

theorem connection_balanced_witness:
  "\<exists>b. server_job_function sample_json (sample_mysql []) [On_read ''login'' False, On_write, On_error] sample_client = Some b \<and>
     track {} ([Acquire (R_fd 5), Acquire R_client, Acquire R_output, Acquire R_evbase, Acquire R_bufev, Acquire R_job] @ b)
       = Some {}"
proof -
  have "\<exists>b. server_job_function sample_json (sample_mysql []) [On_read ''login'' False, On_write, On_error] sample_client = Some b"
    by (simp add: server_job_function_def buffered_on_read_def read_reply_def buffer_string_alt sample_json_def
      sample_mysql_def initDB_def call_db_def get_string_def buffered_on_write_def buffered_on_error_def closeClient_def
      split: prod.split)
  then show ?thesis
    using connection_balanced[OF sample_accept, of sample_json "sample_mysql []" "[On_read ''login'' False, On_write, On_error]"]
    by auto
qed

text \<open>
  C39. The read callback leaves its 4096-byte array exactly when more than 4096 bytes are
  waiting, or 4096 with no NUL among them: neither length is checked.
\<close>

theorem read_overflow:
  "read_reply J D input = Overflow \<longleftrightarrow>
    length input > 4096 \<or> length input = 4096 \<and> CHR 0x00 \<notin> set input"
  by (simp add: read_reply_Overflow buffer_string_alt)

text \<open>What follows a NUL in the input is not looked at.\<close>

theorem read_stops_at_nul:
  assumes "length s + length t < 4096" and "CHR 0x00 \<notin> set s"
  shows "read_reply J D (s @ CHR 0x00 # t) = read_reply J D s"
proof -
  have "buffer_string (s @ CHR 0x00 # t) = Some s" "buffer_string s = Some s"
    using assms by (auto simp: buffer_string_alt takeWhile_until takeWhile_eq_all_conv)
  then show ?thesis
    by (simp add: read_reply_def)
qed

theorem read_stops_at_nul_witness:
  "read_reply sample_json (sample_mysql []) (''login'' @ CHR 0x00 # ''xyz'') =
    read_reply sample_json (sample_mysql []) ''login''"
  by (rule read_stops_at_nul) simp_all

text \<open>
  What \<open>runServer\<close> leaves held when it returns: nothing if the event base cannot be made,
  the event base if the work queue cannot, and after a normal run the work queue, which
  the signal handler gives back.
\<close>

theorem runServer_held:
  assumes "runServer e = (Return n, a)"
  shows "track {} a = Some (if n = 0 then {R_queue} else if s_base e then {R_evbase} else {}) \<and>
    (n = 0 \<longrightarrow> track {} (a @ sighandler sig) = Some {})"
  using assms
  by (auto simp: runServer_def sighandler_def killServer_def Let_def split: if_splits)

theorem runServer_held_witness:
  "track {} (snd (runServer \<lparr>s_socket = 3, s_bind = 0, s_listen = 0, s_fcntl = (\<lambda>_. 0), s_base = True, s_queue = 1\<rparr>))
    = Some {R_evbase}"
proof -
  let ?e = "\<lparr>s_socket = 3, s_bind = 0, s_listen = 0, s_fcntl = (\<lambda>_. 0), s_base = True, s_queue = 1\<rparr>"
  have "runServer ?e = (Return 1, snd (runServer ?e))"
    by (simp add: runServer_def setnonblock_def Let_def O_NONBLOCK_def)
  from runServer_held[OF this] show ?thesis
    by simp
qed

end
