(* ===== verification/PublicFunction.thy ===== *)
theory PublicFunction imports Prelude begin

text \<open>
  The helpers of \<open>public_function.cpp\<close>: the block check character, the CRC-32, the packing
  of hexadecimal digits and the two-byte form of a number. Bytes are \<open>8 word\<close>, \<open>unsigned
  int\<close> is \<open>32 word\<close> and \<open>unsigned long\<close> is \<open>64 word\<close>; an access outside a buffer is \<open>None\<close>.
\<close>

unbundle bit_operations_syntax

type_synonym byte = "8 word"

section \<open>The block check character\<close>

function bcc_loop :: "byte list \<Rightarrow> int \<Rightarrow> nat \<Rightarrow> byte \<Rightarrow> byte option" where
  "bcc_loop data len i bcc =
    (if int i < len then
       (if i < length data then bcc_loop data len (i + 1) (bcc XOR data ! i) else None)
     else Some bcc)"
  by pat_completeness auto
termination
  by (relation "measure (\<lambda>(data, len, i, bcc). nat (len - int i))") auto

declare bcc_loop.simps [simp del]

definition get_bcc_data :: "byte list \<Rightarrow> int \<Rightarrow> byte option" where
  "get_bcc_data data len = bcc_loop data len 0 0"

section \<open>The CRC\<close>

text \<open>The four bytes are promoted to \<open>int\<close> before they are shifted.\<close>

definition byte_int :: "byte \<Rightarrow> byte \<Rightarrow> byte \<Rightarrow> byte \<Rightarrow> 64 word" where
  "byte_int b0 b1 b2 b3 =
    (let num = ucast b3 AND 0xFF;
         num = num OR ucast (push_bit 8 (ucast b2 :: 32 word) AND 0xFF00);
         num = num OR ucast (push_bit 16 (ucast b1 :: 32 word) AND 0xFF0000);
         num = num OR ucast (push_bit 24 (ucast b0 :: 32 word) AND 0xFF000000)
     in num)"

text \<open>The inner loop: \<open>n\<close> more rounds.\<close>

fun crc_bits :: "nat \<Rightarrow> 32 word \<Rightarrow> 32 word \<Rightarrow> 32 word" where
  "crc_bits 0 crc temp = crc"
| "crc_bits (Suc n) crc temp =
    crc_bits n
      (if (crc XOR temp) AND 0x80000000 \<noteq> 0 then 0x04C11DB7 XOR push_bit 1 crc else push_bit 1 crc)
      (push_bit 1 temp)"

text \<open>A byte \<open>0xcd\<close> of the last word is cleared in the caller's buffer.\<close>

definition clear_cd :: "byte list \<Rightarrow> nat \<Rightarrow> byte list" where
  "clear_cd buf p = (if buf ! p = 0xcd then buf[p := 0] else buf)"

definition clear_word :: "byte list \<Rightarrow> nat \<Rightarrow> byte list" where
  "clear_word buf i =
    clear_cd (clear_cd (clear_cd (clear_cd buf (i * 4)) (i * 4 + 1)) (i * 4 + 2)) (i * 4 + 3)"

text \<open>The CRC, and the buffer as it is left.\<close>

function crc_loop :: "byte list \<Rightarrow> nat \<Rightarrow> nat \<Rightarrow> 32 word \<Rightarrow> (32 word \<times> byte list) option" where
  "crc_loop buf len i crc =
    (if i < len then
       (if i * 4 + 3 < length buf then
          let buf = (if i = len - 1 then clear_word buf i else buf);
              temp = ucast (byte_int (buf ! (i * 4)) (buf ! (i * 4 + 1)) (buf ! (i * 4 + 2)) (buf ! (i * 4 + 3)))
          in crc_loop buf len (i + 1) (crc_bits 32 crc temp)
        else None)
     else Some (crc, buf))"
  by pat_completeness auto
termination
  by (relation "measure (\<lambda>(buf, len, i, crc). len - i)") auto

declare crc_loop.simps [simp del]

definition GenerateCRC32 :: "byte list \<Rightarrow> nat \<Rightarrow> (64 word \<times> byte list) option" where
  "GenerateCRC32 DataBuf len = map_option (\<lambda>(crc, buf). (ucast crc, buf)) (crc_loop DataBuf len 0 0xFFFFFFFF)"

section \<open>Hexadecimal digits\<close>

definition tohex :: "byte \<Rightarrow> byte" where
  "tohex b =
    (if b > 0x2f \<and> b < 0x3a then b - 0x30
     else if b = of_char CHR ''a'' \<or> b = of_char CHR ''A'' then 0xA
     else if b = of_char CHR ''b'' \<or> b = of_char CHR ''B'' then 0xB
     else if b = of_char CHR ''c'' \<or> b = of_char CHR ''C'' then 0xC
     else if b = of_char CHR ''d'' \<or> b = of_char CHR ''D'' \<or> b = of_char CHR ''='' then 0xD
     else if b = of_char CHR ''e'' \<or> b = of_char CHR ''E'' then 0xE
     else if b = of_char CHR ''f'' \<or> b = of_char CHR ''F'' then 0xF
     else 0)"

text \<open>\<open>k\<close> and \<open>m\<close> are bytes and wrap; the input is what the pointer \<open>b\<close> still reaches.\<close>

function bcd_loop :: "byte \<Rightarrow> byte \<Rightarrow> int \<Rightarrow> byte list \<Rightarrow> byte list \<Rightarrow> byte list option" where
  "bcd_loop k m len b outbuf =
    (if uint k < len then
       (case b of
          x # y # b' \<Rightarrow>
            let i = push_bit 4 (tohex x) OR tohex y in
            if unat m < length outbuf then bcd_loop (k + 1 + 1) (m + 1) len b' (outbuf[unat m := i])
            else None
        | _ \<Rightarrow> None)
     else Some outbuf)"
  by pat_completeness auto
termination
  by (relation "measure (\<lambda>(k, m, len, b, outbuf). length b)") auto

declare bcd_loop.simps [simp del]

definition AsciiStrToBcd :: "byte list \<Rightarrow> byte list \<Rightarrow> int \<Rightarrow> byte list option" where
  "AsciiStrToBcd outbuf b len = bcd_loop 0 0 (if len mod 2 \<noteq> 0 then len + 1 else len) b outbuf"

section \<open>Two bytes of a number\<close>

definition DecTo2Hex :: "int \<Rightarrow> byte \<times> byte" where
  "DecTo2Hex dec = (word_of_int (drop_bit 8 dec AND 0xFF), word_of_int (dec AND 0xFF))"


section \<open>Facts on the block check character\<close>

lemma bcc_loop_foldl:
  "i \<le> n \<Longrightarrow> n \<le> length data \<Longrightarrow> bcc_loop data (int n) i bcc = Some (foldl (XOR) bcc (drop i (take n data)))"
proof (induction "n - i" arbitrary: i bcc)
  case 0
  then show ?case by (subst bcc_loop.simps) simp
next
  case (Suc d)
  then have i: "i < n" "i < length data" by simp_all
  then have "drop i (take n data) = data ! i # drop (Suc i) (take n data)"
    using Cons_nth_drop_Suc[of i "take n data"] by simp
  moreover have "bcc_loop data (int n) (Suc i) (bcc XOR data ! i) =
      Some (foldl (XOR) (bcc XOR data ! i) (drop (Suc i) (take n data)))"
    by (rule Suc(1)) (use Suc i in simp_all)
  ultimately show ?case
    using i by (subst bcc_loop.simps) simp
qed

lemma get_bcc_data_foldl:
  "n \<le> length data \<Longrightarrow> get_bcc_data data (int n) = Some (foldl (XOR) 0 (take n data))"
  by (simp add: get_bcc_data_def bcc_loop_foldl)

lemma foldl_xor: "foldl (XOR) (a XOR b) xs = a XOR foldl (XOR) b (xs :: byte list)"
  by (induction xs arbitrary: b) (simp_all add: xor.assoc)

lemma foldl_xor_0: "foldl (XOR) a xs = a XOR foldl (XOR) 0 (xs :: byte list)"
  using foldl_xor[of a 0 xs] by simp

lemma foldl_xor_update:
  assumes "i < length xs"
  shows "foldl (XOR) 0 (xs[i := b]) = foldl (XOR) 0 (xs :: byte list) XOR xs ! i XOR b"
proof -
  obtain p a q where xs: "xs = p @ a # q" and p: "length p = i"
    using assms id_take_nth_drop[of i xs] by (metis length_take min.absorb4)
  have "foldl (XOR) 0 (p @ c # q) = foldl (XOR) 0 p XOR c XOR foldl (XOR) 0 q" for c
    using foldl_xor_0[of "foldl (XOR) 0 p XOR c" q] by (simp add: xor.assoc)
  then show ?thesis
    using p unfolding xs by (simp add: nth_append list_update_append xor.assoc xor.commute xor.left_commute)
qed

section \<open>Facts on the CRC\<close>

text \<open>One round on the difference of the register and the word.\<close>

definition crc_shift :: "32 word \<Rightarrow> 32 word" where
  "crc_shift x = (if x AND 0x80000000 \<noteq> 0 then 0x04C11DB7 XOR push_bit 1 x else push_bit 1 x)"

lemma push_bit_xor_word: "push_bit n (a XOR b) = push_bit n a XOR push_bit n (b :: 32 word)"
  by (rule bit_word_eqI) (auto simp: bit_simps)

lemma crc_bits_shift:
  "crc_bits n crc temp XOR push_bit n temp = (crc_shift ^^ n) (crc XOR temp)"
proof (induction n arbitrary: crc temp)
  case (Suc n)
  have "crc_bits (Suc n) crc temp XOR push_bit (Suc n) temp
    = (crc_shift ^^ n) ((if (crc XOR temp) AND 0x80000000 \<noteq> 0 then 0x04C11DB7 XOR push_bit 1 crc else push_bit 1 crc) XOR push_bit 1 temp)"
    using Suc.IH[of _ "push_bit 1 temp"] by (simp add: push_bit_push_bit add.commute)
  also have "\<dots> = (crc_shift ^^ n) (crc_shift (crc XOR temp))"
    by (simp add: crc_shift_def push_bit_xor_word xor.assoc)
  finally show ?case
    by (simp add: funpow_swap1)
qed simp

lemma push_bit_32: "push_bit 32 (w :: 32 word) = 0"
  by (rule bit_word_eqI) (simp add: bit_simps)

lemma crc_bits_word: "crc_bits 32 crc temp = (crc_shift ^^ 32) (crc XOR temp)"
  using crc_bits_shift[of 32 crc temp] by (simp add: push_bit_32)

lemma top_bit: "(x :: 32 word) AND 0x80000000 \<noteq> 0 \<longleftrightarrow> bit x 31"
proof -
  have "x AND 0x80000000 = (if bit x 31 then 0x80000000 else 0)"
  proof (rule bit_word_eqI)
    fix n assume "n < LENGTH(32)"
    have "(0x80000000 :: 32 word) = push_bit 31 1" by simp
    then have "bit (0x80000000 :: 32 word) n \<longleftrightarrow> n = 31"
      using \<open>n < LENGTH(32)\<close> by (simp only: bit_push_bit_iff bit_1_iff) auto
    then show "bit (x AND 0x80000000) n = bit (if bit x 31 then 0x80000000 else 0 :: 32 word) n"
      by (auto simp: bit_simps)
  qed
  then show ?thesis by simp
qed

lemma bit_shl1: "bit (push_bit 1 (x :: 32 word)) n \<longleftrightarrow> 0 < n \<and> n < 32 \<and> bit x (n - 1)"
  by (simp only: bit_push_bit_iff) auto

lemma bit_0_crc_shift: "bit (crc_shift x) 0 \<longleftrightarrow> bit x 31"
proof -
  have "bit (0x04C11DB7 :: 32 word) 0" by simp
  then show ?thesis
    by (simp only: crc_shift_def top_bit if_distrib[of "\<lambda>w. bit w 0"] bit_xor_iff bit_shl1) simp
qed

lemma crc_shift_inj: "crc_shift x = crc_shift y \<Longrightarrow> x = y"
proof -
  assume eq: "crc_shift x = crc_shift y"
  then have top: "bit x 31 = bit y 31"
    using bit_0_crc_shift[of x] bit_0_crc_shift[of y] by simp
  have cancel: "a = b" if "w XOR a = w XOR b" for a b w :: "32 word"
    using arg_cong[OF that, of "(XOR) w"] by (simp flip: xor.assoc)
  have "push_bit 1 x = push_bit 1 y"
    using eq top unfolding crc_shift_def top_bit by (auto dest: cancel split: if_splits)
  then have low: "bit x n = bit y n" if "n < 31" for n
    using that bit_shl1[of x "Suc n"] bit_shl1[of y "Suc n"] by simp
  show "x = y"
  proof (rule bit_word_eqI)
    fix n assume "n < LENGTH(32)"
    then show "bit x n = bit y n"
      using low[of n] top by (cases "n = 31") auto
  qed
qed

lemma crc_shift_0: "(crc_shift ^^ n) 0 = 0"
  by (induction n) (simp_all add: crc_shift_def)

lemma crc_shift_funpow_inj: "inj (crc_shift ^^ n)"
  by (rule inj_fn) (auto intro: injI crc_shift_inj)

lemma crc_bits_inj: "crc_bits 32 c t = crc_bits 32 c' t' \<longleftrightarrow> c XOR t = c' XOR t'"
  unfolding crc_bits_word by (rule inj_eq[OF crc_shift_funpow_inj])

text \<open>The words of a buffer, and the register after them.\<close>

definition word_at :: "byte list \<Rightarrow> nat \<Rightarrow> 32 word" where
  "word_at buf i = ucast (byte_int (buf ! (i * 4)) (buf ! (i * 4 + 1)) (buf ! (i * 4 + 2)) (buf ! (i * 4 + 3)))"

definition crc_words :: "32 word \<Rightarrow> 32 word list \<Rightarrow> 32 word" where
  "crc_words c ws = foldl (\<lambda>c w. crc_bits 32 c w) c ws"

definition cleaned :: "byte list \<Rightarrow> nat \<Rightarrow> byte list" where
  "cleaned buf len = (if len = 0 then buf else clear_word buf (len - 1))"

text \<open>The bits of a word from the first byte, highest bit first.\<close>

lemma masks:
  "(0xFF :: 64 word) = mask 8" "(0xFF00 :: 32 word) = push_bit 8 (mask 8)"
  "(0xFF0000 :: 32 word) = push_bit 16 (mask 8)" "(0xFF000000 :: 32 word) = push_bit 24 (mask 8)"
  by (simp_all add: mask_eq_exp_minus_1)

lemma bit_word:
  assumes "n < 32"
  shows "bit (ucast (byte_int b0 b1 b2 b3) :: 32 word) n \<longleftrightarrow>
    (if n < 8 then bit b3 n else if n < 16 then bit b2 (n - 8)
     else if n < 24 then bit b1 (n - 16) else bit b0 (n - 24))"
proof -
  have small: "\<not> bit (b :: byte) m" if "8 \<le> m" for b m
    using that bit_imp_le_length[of b m] by auto
  show ?thesis
    using assms small unfolding byte_int_def Let_def masks
    by (simp only: bit_or_iff bit_and_iff bit_unsigned_iff bit_push_bit_iff bit_mask_iff) auto
qed

definition byte_bits :: "byte \<Rightarrow> bool list" where
  "byte_bits b = map (bit b) [7, 6, 5, 4, 3, 2, 1, 0]"

lemma word_bits:
  "map (\<lambda>j. bit (ucast (byte_int b0 b1 b2 b3) :: 32 word) (31 - j)) [0..<32] =
    byte_bits b0 @ byte_bits b1 @ byte_bits b2 @ byte_bits b3"
  by (simp add: upt_rec bit_word byte_bits_def)

text \<open>The CRC as a shift register fed with one bit at a time.\<close>

definition feed :: "32 word \<Rightarrow> bool \<Rightarrow> 32 word" where
  "feed crc b = (if bit crc 31 \<noteq> b then 0x04C11DB7 XOR push_bit 1 crc else push_bit 1 crc)"

lemma crc_bits_feed:
  "n \<le> 32 \<Longrightarrow> crc_bits n crc temp = foldl feed crc (map (\<lambda>j. bit temp (31 - j)) [0..<n])"
proof (induction n arbitrary: crc temp)
  case (Suc n)
  have "map (\<lambda>j. bit (push_bit 1 temp) (31 - j)) [0..<n] = map ((\<lambda>j. bit temp (31 - j)) \<circ> Suc) [0..<n]"
    using Suc.prems by (intro map_cong refl) (simp only: bit_shl1, auto)
  also have "\<dots> = map (\<lambda>j. bit temp (31 - j)) [Suc 0..<Suc n]"
    by (simp only: map_Suc_upt[symmetric] map_map)
  finally have shift: "map (\<lambda>j. bit (push_bit 1 temp) (31 - j)) [0..<n] = map (\<lambda>j. bit temp (31 - j)) [Suc 0..<Suc n]" .
  have "(crc XOR temp) AND 0x80000000 \<noteq> 0 \<longleftrightarrow> bit crc 31 \<noteq> bit temp 31"
    by (simp add: top_bit bit_xor_iff)
  then have "crc_bits (Suc n) crc temp = crc_bits n (feed crc (bit temp 31)) (push_bit 1 temp)"
    by (simp only: crc_bits.simps feed_def)
  also have "\<dots> = foldl feed (feed crc (bit temp 31)) (map (\<lambda>j. bit (push_bit 1 temp) (31 - j)) [0..<n])"
    by (rule Suc.IH) (use Suc.prems in simp)
  finally have "crc_bits (Suc n) crc temp =
    foldl feed (feed crc (bit temp 31)) (map (\<lambda>j. bit (push_bit 1 temp) (31 - j)) [0..<n])" .
  moreover have "[0..<Suc n] = 0 # [Suc 0..<Suc n]"
    by (simp add: upt_conv_Cons del: upt_Suc)
  ultimately show ?case
    by (simp only: shift list.map foldl.simps) simp
qed simp

section \<open>Facts on whole buffers\<close>

lemma length_clear_cd [simp]: "length (clear_cd buf p) = length buf"
  by (simp add: clear_cd_def)

lemma length_clear_word [simp]: "length (clear_word buf i) = length buf"
  by (simp add: clear_word_def)

lemma length_cleaned [simp]: "length (cleaned buf len) = length buf"
  by (simp add: cleaned_def)

lemma clear_cd_nth: "p < length buf \<Longrightarrow> clear_cd buf p ! q = (if q = p \<and> buf ! p = 0xcd then 0 else buf ! q)"
  by (auto simp: clear_cd_def nth_list_update)

lemma clear_word_nth:
  assumes "i * 4 + 3 < length buf"
  shows "clear_word buf i ! q = (if i * 4 \<le> q \<and> q < i * 4 + 4 \<and> buf ! q = 0xcd then 0 else buf ! q)"
proof -
  have "i * 4 \<le> q \<and> q < i * 4 + 4 \<longleftrightarrow> q = i * 4 \<or> q = i * 4 + 1 \<or> q = i * 4 + 2 \<or> q = i * 4 + 3"
    by auto
  then show ?thesis
    using assms by (auto simp: clear_word_def clear_cd_nth)
qed

lemma cleaned_nth:
  assumes "len * 4 \<le> length buf"
  shows "cleaned buf len ! q =
    (if 4 * (len - 1) \<le> q \<and> q < 4 * len \<and> buf ! q = 0xcd then 0 else buf ! q)"
proof (cases len)
  case (Suc k)
  then have k: "k * 4 + 3 < length buf" using assms by simp
  show ?thesis
    using Suc by (auto simp: cleaned_def clear_word_nth[OF k])
qed (simp add: cleaned_def)

lemma word_at_clear: "i < k \<Longrightarrow> k * 4 + 3 < length buf \<Longrightarrow> word_at (clear_word buf k) i = word_at buf i"
  by (simp add: word_at_def clear_word_nth)

lemma crc_loop_words:
  assumes "i \<le> len" and "len * 4 \<le> length buf"
  shows "crc_loop buf len i crc =
    Some (crc_words crc (map (word_at (cleaned buf len)) [i..<len]), if i < len then cleaned buf len else buf)"
  using assms
proof (induction "len - i" arbitrary: i crc buf)
  case 0
  then show ?case by (subst crc_loop.simps) (simp add: crc_words_def)
next
  case (Suc d)
  then have i: "i < len" "i * 4 + 3 < length buf" by simp_all
  then have up: "[i..<len] = i # [Suc i..<len]" by (simp add: upt_conv_Cons)
  show ?case
  proof (cases "i = len - 1")
    case True
    then have e: "len = Suc i" using i by simp
    have end_loop: "crc_loop b (Suc i) (Suc i) c = Some (c, b)" for b c
      by (subst crc_loop.simps) simp
    show ?thesis
      using i(2) unfolding e by (subst crc_loop.simps)
        (simp add: end_loop crc_words_def word_at_def cleaned_def Let_def)
  next
    case False
    have "crc_loop buf len i crc = crc_loop buf len (Suc i) (crc_bits 32 crc (word_at buf i))"
      using i False by (subst crc_loop.simps) (simp add: Let_def word_at_def)
    also have "word_at buf i = word_at (cleaned buf len) i"
      using i False Suc.prems by (simp add: cleaned_def word_at_clear)
    finally have step: "crc_loop buf len i crc =
      crc_loop buf len (Suc i) (crc_bits 32 crc (word_at (cleaned buf len) i))" .
    have "Suc i < len" using i False by simp
    with step show ?thesis
      using Suc(1)[of "Suc i" buf "crc_bits 32 crc (word_at (cleaned buf len) i)"] Suc(2-) i False
      by (simp add: up crc_words_def)
  qed
qed

lemma GenerateCRC32_words:
  assumes "len * 4 \<le> length buf"
  shows "GenerateCRC32 buf len =
    Some (ucast (crc_words 0xFFFFFFFF (map (word_at (cleaned buf len)) [0..<len])), cleaned buf len)"
  using crc_loop_words[of 0 len buf "0xFFFFFFFF"] assms
  by (simp add: GenerateCRC32_def cleaned_def)


lemma take_4_Suc:
  assumes "4 * n + 3 < length b"
  shows "take (4 * Suc n) b = take (4 * n) b @ [b ! (n * 4), b ! (n * 4 + 1), b ! (n * 4 + 2), b ! (n * 4 + 3)]"
proof -
  have "4 * Suc n = Suc (Suc (Suc (Suc (n * 4))))" by simp
  then show ?thesis
    using assms by (simp only: take_Suc_append_nth) (simp add: take_Suc_append_nth mult.commute numeral_3_eq_3)
qed

lemma crc_words_bytes:
  "4 * len \<le> length b \<Longrightarrow>
    crc_words c (map (word_at b) [0..<len]) = foldl feed c (concat (map byte_bits (take (4 * len) b)))"
proof (induction len)
  case (Suc n)
  have "crc_words c (map (word_at b) [0..<Suc n]) = crc_bits 32 (crc_words c (map (word_at b) [0..<n])) (word_at b n)"
    by (simp add: crc_words_def)
  also have "\<dots> = foldl feed (crc_words c (map (word_at b) [0..<n]))
      (byte_bits (b ! (n * 4)) @ byte_bits (b ! (n * 4 + 1)) @ byte_bits (b ! (n * 4 + 2)) @ byte_bits (b ! (n * 4 + 3)))"
    unfolding word_bits[symmetric] word_at_def by (rule crc_bits_feed) simp
  also have "\<dots> = foldl feed c (concat (map byte_bits (take (4 * Suc n) b)))"
    using Suc take_4_Suc[of n b] by simp
  finally show ?case .
qed (simp add: crc_words_def)

lemma xor_cancel_right: "a XOR w = b XOR w \<longleftrightarrow> a = (b :: 32 word)"
proof
  assume "a XOR w = b XOR w"
  then have "(a XOR w) XOR w = (b XOR w) XOR w" by (rule arg_cong)
  then show "a = b" by (simp add: xor.assoc)
qed simp

lemma xor_cancel: "a XOR w = b XOR w \<longleftrightarrow> a = (b :: 32 word)" "w XOR a = w XOR b \<longleftrightarrow> a = (b :: 32 word)"
  using xor_cancel_right by (simp_all only: xor.commute[of w])

lemma byte_eqI: "(\<And>n. n < 8 \<Longrightarrow> bit a n = bit (b :: byte) n) \<Longrightarrow> a = b"
  by (rule bit_word_eqI) simp

lemma byte_int_inj:
  assumes "(ucast (byte_int a0 a1 a2 a3) :: 32 word) = ucast (byte_int b0 b1 b2 b3)"
  shows "a0 = b0 \<and> a1 = b1 \<and> a2 = b2 \<and> a3 = b3"
proof -
  have bits: "bit (ucast (byte_int a0 a1 a2 a3) :: 32 word) n = bit (ucast (byte_int b0 b1 b2 b3) :: 32 word) n" for n
    using assms by simp
  have "bit a3 n = bit b3 n" if "n < 8" for n using that bits[of n] by (simp add: bit_word)
  moreover have "bit a2 n = bit b2 n" if "n < 8" for n using that bits[of "n + 8"] by (simp add: bit_word)
  moreover have "bit a1 n = bit b1 n" if "n < 8" for n using that bits[of "n + 16"] by (simp add: bit_word)
  moreover have "bit a0 n = bit b0 n" if "n < 8" for n using that bits[of "n + 24"] by (simp add: bit_word)
  ultimately show ?thesis
    by (simp add: byte_eqI)
qed

text \<open>A change of the register is carried through the words that follow.\<close>

lemma crc_words_inj: "crc_words c ws = crc_words c' ws \<longleftrightarrow> c = c'"
proof (induction ws arbitrary: c c')
  case (Cons w ws)
  have "crc_bits 32 c w = crc_bits 32 c' w \<longleftrightarrow> c = c'"
    by (simp only: crc_bits_inj xor_cancel)
  then show ?case
    using Cons.IH by (simp add: crc_words_def)
qed (simp add: crc_words_def)

lemma crc_words_append: "crc_words c (xs @ ys) = crc_words (crc_words c xs) ys"
  by (simp add: crc_words_def)

lemma crc_words_change:
  assumes "w \<noteq> w'"
  shows "crc_words c (xs @ w # ys) \<noteq> crc_words c (xs @ w' # ys)"
proof
  assume "crc_words c (xs @ w # ys) = crc_words c (xs @ w' # ys)"
  then have "crc_words (crc_bits 32 (crc_words c xs) w) ys = crc_words (crc_bits 32 (crc_words c xs) w') ys"
    by (simp add: crc_words_def)
  then have "crc_bits 32 (crc_words c xs) w = crc_bits 32 (crc_words c xs) w'"
    by (simp only: crc_words_inj)
  then show False
    using assms by (simp only: crc_bits_inj xor_cancel)
qed

lemma crc_words_own: "crc_words c [c] = 0"
  by (simp add: crc_words_def crc_bits_word crc_shift_0)

lemma cleaned_same: "len * 4 \<le> length buf \<Longrightarrow> q < 4 * (len - 1) \<Longrightarrow> cleaned buf len ! q = buf ! q"
  by (simp add: cleaned_nth)

lemma ucast_64_inj: "ucast x = (ucast y :: 64 word) \<Longrightarrow> x = (y :: 32 word)"
proof (rule bit_word_eqI)
  fix n assume "ucast x = (ucast y :: 64 word)" "n < LENGTH(32)"
  then show "bit x n = bit y n"
    using bit_unsigned_iff[where 'a = "64 word", of x n] bit_unsigned_iff[where 'a = "64 word", of y n] by simp
qed

lemma ucast_back: "ucast (ucast x :: 64 word) = (x :: 32 word)"
  by (rule bit_word_eqI) (simp only: bit_unsigned_iff, auto)

lemma split_words:
  assumes "k < len"
  shows "map f [0..<len] = map f [0..<k] @ f k # map f [Suc k..<len]"
proof -
  have "[0..<len] = [0..<k] @ [k..<len]"
    using upt_add_eq_append[of 0 k "len - k"] assms by simp
  then show ?thesis
    using assms by (simp add: upt_conv_Cons)
qed

section \<open>Facts on hexadecimal digits\<close>

definition hex_char :: "nat \<Rightarrow> byte" where
  "hex_char n = (if n < 10 then word_of_nat (0x30 + n) else word_of_nat (0x41 + (n - 10)))"

text \<open>The digits of bytes, high half first.\<close>

definition hex_string :: "byte list \<Rightarrow> byte list" where
  "hex_string bs = concat (map (\<lambda>b. [hex_char (unat b div 16), hex_char (unat b mod 16)]) bs)"

lemma tohex_hex_char: "n < 16 \<Longrightarrow> tohex (hex_char n) = word_of_nat n"
proof -
  have "\<forall>n \<in> set [0..<16]. tohex (hex_char n) = word_of_nat n"
    by (simp add: upt_rec tohex_def hex_char_def)
  then show "n < 16 \<Longrightarrow> tohex (hex_char n) = word_of_nat n" by simp
qed

lemma nibbles: "push_bit 4 (word_of_nat (unat b div 16)) OR word_of_nat (unat b mod 16) = (b :: byte)"
proof -
  have "unat b div 16 = unat (drop_bit 4 b)" "unat b mod 16 = unat (take_bit 4 b)"
    by (simp_all add: drop_bit_eq_div take_bit_eq_mod unat_div unat_mod)
  then have "push_bit 4 (word_of_nat (unat b div 16)) OR word_of_nat (unat b mod 16) =
      push_bit 4 (drop_bit 4 b) OR take_bit 4 b"
    by simp
  also have "\<dots> = b"
    by (rule bit_word_eqI) (auto simp: bit_simps)
  finally show ?thesis .
qed


lemma hex_string_Cons:
  "hex_string (b # bs) = hex_char (unat b div 16) # hex_char (unat b mod 16) # hex_string bs"
  by (simp add: hex_string_def)

lemma loop_k: "j \<le> 127 \<Longrightarrow> uint (word_of_nat (2 * j) :: byte) = int (2 * j)"
  by (subst unsigned_of_nat) (simp add: take_bit_nat_eq_self)

lemma bcd_loop_pack:
  assumes "j + length bs \<le> 127" and "j + length bs \<le> length out" and "0 \<le> e"
  shows "bcd_loop (word_of_nat (2 * j)) (word_of_nat j) (2 * int (j + length bs) + e) (hex_string bs @ rest) out
    = bcd_loop (word_of_nat (2 * (j + length bs))) (word_of_nat (j + length bs)) (2 * int (j + length bs) + e) rest
        (take j out @ bs @ drop (j + length bs) out)"
  using assms
proof (induction bs arbitrary: j out)
  case Nil
  then show ?case
    by (simp add: hex_string_def)
next
  case (Cons b bs)
  have j: "j \<le> 126" "j < length out" using Cons.prems by simp_all
  have nib: "unat b div 16 < 16"
    using unsigned_less[where 'a = nat, of b] by simp
  have w1: "unat (word_of_nat j :: byte) = j"
    using j by (simp add: unat_of_nat)
  have w2: "uint (word_of_nat (2 * j) :: byte) = int (2 * j)"
    using j by (intro loop_k) simp
  have w3: "(word_of_nat (2 * j) :: byte) + 1 + 1 = word_of_nat (2 * Suc j)" "(word_of_nat j :: byte) + 1 = word_of_nat (Suc j)"
    by simp_all
  have step: "bcd_loop (word_of_nat (2 * j)) (word_of_nat j) (2 * int (j + length (b # bs)) + e) (hex_string (b # bs) @ rest) out
    = bcd_loop (word_of_nat (2 * Suc j)) (word_of_nat (Suc j)) (2 * int (Suc j + length bs) + e) (hex_string bs @ rest) (out[j := b])"
    using j assms(3) by (subst bcd_loop.simps) (simp only: w1 w2 w3, simp add: hex_string_Cons tohex_hex_char nib nibbles Let_def)
  note Cons.IH[of "Suc j" "out[j := b]"]
  moreover have "take (Suc j) (out[j := b]) = take j out @ [b]"
    using j by (simp add: take_Suc_append_nth)
  ultimately show ?case
    using step Cons.prems by simp
qed

lemma AsciiStrToBcd_pack:
  assumes "length bs \<le> 127" and "length bs \<le> length out" and "e = 0 \<or> e = 1"
  shows "AsciiStrToBcd out (hex_string bs @ rest) (2 * int (length bs) + e) =
    bcd_loop (word_of_nat (2 * length bs)) (word_of_nat (length bs)) (2 * int (length bs) + 2 * e) rest
      (bs @ drop (length bs) out)"
  using bcd_loop_pack[of 0 bs out "2 * e" rest] assms by (auto simp: AsciiStrToBcd_def add.commute)

lemma bcd_loop_long:
  assumes "256 \<le> len"
  shows "bcd_loop k m len b outbuf = None"
  using assms
proof (induction k m len b outbuf rule: bcd_loop.induct)
  case (1 k m len b outbuf)
  have "uint k < len"
    using unsigned_less[where 'a = int, of k] 1(2) by simp
  then show ?case
    using 1 by (subst bcd_loop.simps) (auto split: list.splits simp: Let_def)
qed

section \<open>Properties\<close>

text \<open>
  The block check character is the exclusive or of the bytes: changing one byte changes it
  by the difference, so every such change is seen, and a block followed by its check
  character has check character 0.
\<close>

theorem bcc_detects:
  assumes "i < length data" and "get_bcc_data data (int (length data)) = Some c"
  shows "get_bcc_data (data[i := b]) (int (length data)) = Some (c XOR data ! i XOR b) \<and>
    (b \<noteq> data ! i \<longrightarrow> get_bcc_data (data[i := b]) (int (length data)) \<noteq> Some c) \<and>
    get_bcc_data (data @ [c]) (int (length data) + 1) = Some 0"
proof -
  have c: "c = foldl (XOR) 0 data"
    using assms get_bcc_data_foldl[of "length data" data] by simp
  have upd: "get_bcc_data (data[i := b]) (int (length data)) = Some (c XOR data ! i XOR b)"
    using get_bcc_data_foldl[of "length data" "data[i := b]"] foldl_xor_update[OF assms(1), of b] by (simp add: c)
  have "b = data ! i" if "c XOR (data ! i XOR b) = c"
  proof -
    have "c XOR (c XOR (data ! i XOR b)) = c XOR c" using that by simp
    then have "data ! i XOR (data ! i XOR b) = data ! i" by (simp flip: xor.assoc)
    then show ?thesis by (simp flip: xor.assoc)
  qed
  moreover have "get_bcc_data (data @ [c]) (int (length data) + 1) = Some 0"
    using get_bcc_data_foldl[of "Suc (length data)" "data @ [c]"] by (simp add: c add.commute)
  ultimately show ?thesis
    using upd by (auto simp: xor.assoc)
qed

lemma sample_bcc: "get_bcc_data [1, 2, 4] (int (length [1 :: byte, 2, 4])) = Some 7"
  by (subst get_bcc_data_foldl) simp_all

theorem bcc_detects_witness:
  "get_bcc_data ([1, 2, 4][1 := 3]) 3 = Some 6 \<and> get_bcc_data ([1, 2, 4] @ [7]) 4 = Some 0"
  using bcc_detects[OF _ sample_bcc, of 1 3] by simp

text \<open>
  C21. \<open>GenerateCRC32\<close> is the bit-serial CRC-32 with polynomial \<open>0x04C11DB7\<close>, the register
  starting with all ones and fed with the bits of the buffer, highest bit of each byte
  first; the buffer is left with the \<open>0xcd\<close> bytes of its last word cleared.
\<close>

theorem crc_is_shift_register:
  assumes "4 * len \<le> length buf"
  shows "GenerateCRC32 buf len =
    Some (ucast (foldl feed 0xFFFFFFFF (concat (map byte_bits (take (4 * len) (cleaned buf len))))), cleaned buf len)"
  using assms by (simp add: GenerateCRC32_words crc_words_bytes)

theorem crc_is_shift_register_witness:
  "GenerateCRC32 [1, 2, 3, 0xcd] 1 =
    Some (ucast (foldl feed 0xFFFFFFFF (concat (map byte_bits (take (4 * 1) (cleaned [1, 2, 3, 0xcd] 1))))), [1, 2, 3, 0])"
  by (subst crc_is_shift_register) (simp_all add: cleaned_def clear_word_def clear_cd_def)

text \<open>
  The CRC sees every change that stays within one 32-bit word other than the last.
\<close>

theorem crc_detects_word:
  assumes "4 * len \<le> length buf" and "k < len - 1" and "length buf' = length buf"
    and "\<And>q. q < 4 * k \<or> 4 * k + 4 \<le> q \<Longrightarrow> buf' ! q = buf ! q"
    and "4 * k \<le> q" "q < 4 * k + 4" "buf' ! q \<noteq> buf ! q"
    and "GenerateCRC32 buf len = Some (c, b)" and "GenerateCRC32 buf' len = Some (c', b')"
  shows "c \<noteq> c'"
proof -
  have k: "k < len" using assms(2) by simp
  have fit: "len * 4 \<le> length buf" "len * 4 \<le> length buf'" using assms(1,3) by simp_all
  have same: "cleaned buf' len ! p = cleaned buf len ! p" if "p < 4 * k \<or> 4 * k + 4 \<le> p" for p
    by (simp add: cleaned_nth[OF fit(1)] cleaned_nth[OF fit(2)] assms(4)[OF that])
  have other: "word_at (cleaned buf' len) i = word_at (cleaned buf len) i" if "i \<noteq> k" for i
  proof -
    have far: "i * 4 + d < 4 * k \<or> 4 * k + 4 \<le> i * 4 + d" if "d < 4" for d
      using that \<open>i \<noteq> k\<close> by presburger
    show ?thesis
      using same[OF far[of 0]] same[OF far[of 1]] same[OF far[of 2]] same[OF far[of 3]]
      by (simp add: word_at_def)
  qed
  have clean_k: "cleaned buf len ! p = buf ! p" "cleaned buf' len ! p = buf' ! p" if "p < 4 * k + 4" for p
    using that assms(2) by (auto intro!: cleaned_same fit)
  have "q = k * 4 \<or> q = k * 4 + 1 \<or> q = k * 4 + 2 \<or> q = k * 4 + 3"
    using assms(5,6) by auto
  then have "word_at (cleaned buf' len) k \<noteq> word_at (cleaned buf len) k"
    unfolding word_at_def using assms(7) by (auto dest!: byte_int_inj simp: clean_k)
  moreover have maps: "map (word_at (cleaned buf' len)) [0..<k] = map (word_at (cleaned buf len)) [0..<k]"
    "map (word_at (cleaned buf' len)) [Suc k..<len] = map (word_at (cleaned buf len)) [Suc k..<len]"
    by (auto simp: other)
  ultimately have "crc_words 0xFFFFFFFF (map (word_at (cleaned buf len)) [0..<len])
      \<noteq> crc_words 0xFFFFFFFF (map (word_at (cleaned buf' len)) [0..<len])"
    unfolding split_words[OF k] maps by (intro crc_words_change) simp
  then show ?thesis
    using assms(8,9) ucast_64_inj by (auto simp: GenerateCRC32_words fit)
qed


lemma sample_crc_Some:
  "\<exists>c b. GenerateCRC32 [1, 2, 3, 4, 5, 6, 7, 8] 2 = Some (c, b)"
  "\<exists>c b. GenerateCRC32 [1, 2, 0xcd, 4, 5, 6, 7, 8] 2 = Some (c, b)"
  by (simp_all add: GenerateCRC32_words)

theorem crc_detects_word_witness:
  "map_option fst (GenerateCRC32 [1, 2, 3, 4, 5, 6, 7, 8] 2) \<noteq> map_option fst (GenerateCRC32 [1, 2, 0xcd, 4, 5, 6, 7, 8] 2)"
proof -
  let ?a = "[1, 2, 3, 4, 5, 6, 7, 8] :: byte list" and ?b = "[1, 2, 0xcd, 4, 5, 6, 7, 8] :: byte list"
  obtain c b c' b' where r: "GenerateCRC32 ?a 2 = Some (c, b)" "GenerateCRC32 ?b 2 = Some (c', b')"
    using sample_crc_Some by blast
  have "?b ! q = ?a ! q" if "q < 4 * 0 \<or> 4 * 0 + 4 \<le> q" for q
  proof -
    obtain n where "q = Suc (Suc (Suc (Suc n)))"
      using \<open>q < 4 * 0 \<or> 4 * 0 + 4 \<le> q\<close> by (auto dest!: le_Suc_ex)
    then show ?thesis by simp
  qed
  then have "c \<noteq> c'"
    by (intro crc_detects_word[OF _ _ _ _ _ _ _ r, of 0 2]) simp_all
  then show ?thesis
    by (simp add: r)
qed

text \<open>
  The residue: when the four bytes of the CRC, highest first, follow the buffer that
  \<open>GenerateCRC32\<close> left, and none of them is \<open>0xcd\<close>, the CRC of the whole is 0.
\<close>

theorem crc_residue:
  assumes "length buf = 4 * len" and "GenerateCRC32 buf len = Some (c, buf')"
    and "ucast (byte_int b0 b1 b2 b3) = (ucast c :: 32 word)" and "0xcd \<notin> {b0, b1, b2, b3}"
  shows "GenerateCRC32 (buf' @ [b0, b1, b2, b3]) (len + 1) = Some (0, buf' @ [b0, b1, b2, b3])"
proof -
  let ?n = "buf' @ [b0, b1, b2, b3]"
  have fit: "len * 4 \<le> length buf" "(len + 1) * 4 \<le> length ?n" and len': "length buf' = 4 * len"
    using assms(1,2) by (auto simp: GenerateCRC32_words)
  have c: "ucast c = crc_words 0xFFFFFFFF (map (word_at buf') [0..<len])" and buf': "buf' = cleaned buf len"
    using assms(2) by (auto simp: GenerateCRC32_words fit ucast_back)
  have last: "?n ! (4 * len) = b0" "?n ! (4 * len + 1) = b1" "?n ! (4 * len + 2) = b2" "?n ! (4 * len + 3) = b3"
    using len' by (simp_all add: nth_append)
  have "cleaned ?n (len + 1) ! q = ?n ! q" if "q < length ?n" for q
  proof (cases "q < 4 * len")
    case False
    then have "q = 4 * len \<or> q = 4 * len + 1 \<or> q = 4 * len + 2 \<or> q = 4 * len + 3"
      using that len' by auto
    then have "?n ! q \<noteq> 0xcd" using last assms(4) by auto
    then show ?thesis by (simp only: cleaned_nth[OF fit(2)]) simp
  next
    case True
    then show ?thesis by (simp only: cleaned_nth[OF fit(2)]) simp
  qed
  then have cl: "cleaned ?n (len + 1) = ?n"
    by (intro nth_equalityI) simp_all
  have init: "map (word_at ?n) [0..<len] = map (word_at buf') [0..<len]"
    using len' by (auto simp: word_at_def nth_append)
  have "word_at ?n len = ucast c"
    using last assms(3) by (simp add: word_at_def mult.commute)
  then have own: "word_at ?n len = ucast c" .
  have "crc_words 0xFFFFFFFF (map (word_at ?n) [0..<len + 1]) =
      crc_words (crc_words 0xFFFFFFFF (map (word_at ?n) [0..<len])) [word_at ?n len]"
    by (simp add: crc_words_append)
  also have "\<dots> = crc_words (ucast c) [ucast c]"
    by (simp only: init own c[symmetric])
  finally have "crc_words 0xFFFFFFFF (map (word_at ?n) [0..<len + 1]) = 0"
    by (simp only: crc_words_own)
  then show ?thesis
    by (simp only: GenerateCRC32_words[OF fit(2)] cl) simp
qed

lemma sample_crc: "GenerateCRC32 [1, 2, 3, 5] 1 = Some (2113284730, [1, 2, 3, 5])"
  by code_simp

theorem crc_residue_witness:
  "GenerateCRC32 [1, 2, 3, 5, 125, 246, 42, 122] 2 = Some (0, [1, 2, 3, 5, 125, 246, 42, 122])"
  using crc_residue[OF _ sample_crc, of 125 246 42 122, unfolded one_add_one]
  by (simp add: byte_int_def Let_def)

text \<open>
  A \<open>0xcd\<close> in the last word and a 0 in its place have the same CRC.
\<close>

theorem crc_cd_collision:
  assumes "4 * len \<le> length buf" and "4 * (len - 1) \<le> q" "q < 4 * len" and "buf ! q = 0xcd"
  shows "GenerateCRC32 (buf[q := 0]) len = GenerateCRC32 buf len"
proof -
  have fit: "len * 4 \<le> length buf" "len * 4 \<le> length (buf[q := 0])" using assms(1) by simp_all
  have "cleaned (buf[q := 0]) len = cleaned buf len"
    using assms fit by (intro nth_equalityI) (auto simp: cleaned_nth[OF fit(1)] cleaned_nth[OF fit(2)] nth_list_update)
  then show ?thesis
    by (simp add: GenerateCRC32_words[OF fit(1)] GenerateCRC32_words[OF fit(2)])
qed

theorem crc_cd_collision_witness:
  "GenerateCRC32 [7, 0] 0 = GenerateCRC32 [7, 0] 0 \<and>
    GenerateCRC32 [1, 2, 0, 4] 1 = GenerateCRC32 [1, 2, 0xcd, 4] 1"
  using crc_cd_collision[of 1 "[1, 2, 0xcd, 4]" 2] by simp


text \<open>
  The hexadecimal digits of at most 127 bytes are packed back into the bytes, at the start
  of the output buffer.
\<close>

theorem bcd_roundtrip:
  assumes "length bs \<le> 127" and "length bs \<le> length out"
  shows "AsciiStrToBcd out (hex_string bs @ rest) (2 * int (length bs)) = Some (bs @ drop (length bs) out)"
proof -
  have "bcd_loop (word_of_nat (2 * length bs)) m (2 * int (length bs)) r ob = Some ob" for m r ob
    using loop_k[OF assms(1)] by (subst bcd_loop.simps) simp
  then show ?thesis
    using AsciiStrToBcd_pack[OF assms, of 0 rest] by simp
qed

theorem bcd_roundtrip_witness:
  "AsciiStrToBcd [0, 0, 9] (hex_string [0x12, 0xAF] @ [0x30]) (2 * int (length [0x12 :: byte, 0xAF])) =
    Some ([0x12, 0xAF] @ drop (length [0x12 :: byte, 0xAF]) [0, 0, 9])"
  by (rule bcd_roundtrip) simp_all

text \<open>
  For a length above 254 the loop never meets its end, because its counter is a byte: the
  function always runs out of its buffers, however large they are.
\<close>

theorem bcd_runs_away:
  assumes "255 \<le> len"
  shows "AsciiStrToBcd outbuf b len = None"
proof -
  have "256 \<le> (if len mod 2 \<noteq> 0 then len + 1 else len)"
    using assms by (cases "len = 255") auto
  then show ?thesis
    unfolding AsciiStrToBcd_def by (rule bcd_loop_long)
qed

theorem bcd_runs_away_witness:
  "AsciiStrToBcd (replicate 200 0) (replicate 1000 0x30) 255 = None"
  by (rule bcd_runs_away) simp

text \<open>
  For an odd length the digit after the last one is read as well, and is the low half of the
  last byte; a buffer that ends with the digits is left.
\<close>

theorem bcd_odd_reads_on:
  assumes "length bs \<le> 126" and "length bs < length out"
  shows "AsciiStrToBcd out (hex_string bs @ [x]) (2 * int (length bs) + 1) = None \<and>
    AsciiStrToBcd out (hex_string bs @ [x, y]) (2 * int (length bs) + 1) =
      Some (bs @ (push_bit 4 (tohex x) OR tohex y) # drop (Suc (length bs)) out)"
proof -
  let ?n = "length bs"
  have w: "uint (word_of_nat (2 * ?n) :: byte) = int (2 * ?n)" "uint (word_of_nat (2 * Suc ?n) :: byte) = int (2 * Suc ?n)"
    "unat (word_of_nat ?n :: byte) = ?n"
    using assms loop_k[of ?n] loop_k[of "Suc ?n"] by (simp_all only:) (simp_all add: unat_of_nat)
  have end_loop: "bcd_loop (word_of_nat (2 * Suc ?n)) m (2 * int ?n + 2) b ob = Some ob" for m b ob
    using w(2) by (subst bcd_loop.simps) simp
  have w3: "(word_of_nat (2 * ?n) :: byte) + 1 + 1 = word_of_nat (2 * Suc ?n)"
    by simp
  have upd: "(bs @ drop ?n out)[?n := v] = bs @ v # drop (Suc ?n) out" for v
    using assms(2) by (simp add: list_update_append flip: Cons_nth_drop_Suc)
  have "bcd_loop (word_of_nat (2 * ?n)) (word_of_nat ?n) (2 * int ?n + 2) [x, y] (bs @ drop ?n out) =
    bcd_loop (word_of_nat (2 * Suc ?n)) (word_of_nat ?n + 1) (2 * int ?n + 2) []
      (bs @ (push_bit 4 (tohex x) OR tohex y) # drop (Suc ?n) out)"
    using assms by (subst bcd_loop.simps) (simp only: w w3, simp add: Let_def upd)
  also note end_loop
  finally have "bcd_loop (word_of_nat (2 * ?n)) (word_of_nat ?n) (2 * int ?n + 2) [x, y] (bs @ drop ?n out) =
    Some (bs @ (push_bit 4 (tohex x) OR tohex y) # drop (Suc ?n) out)" .
  moreover have "bcd_loop (word_of_nat (2 * ?n)) (word_of_nat ?n) (2 * int ?n + 2) [x] (bs @ drop ?n out) = None"
    by (subst bcd_loop.simps) (simp only: w, simp)
  ultimately show ?thesis
    using AsciiStrToBcd_pack[of bs out 1] assms by simp
qed

theorem bcd_odd_reads_on_witness:
  "AsciiStrToBcd [0, 0] (hex_string [0x12] @ [0x33]) (2 * int (length [0x12 :: byte]) + 1) = None"
  using bcd_odd_reads_on[where bs = "[0x12]" and out = "[0, 0]" and x = 51 and y = 0] by simp

text \<open>The two bytes hold the number modulo 65536, the higher first, also when it is negative.\<close>

theorem DecTo2Hex_value:
  "uint (fst (DecTo2Hex dec)) * 256 + uint (snd (DecTo2Hex dec)) = dec mod 65536"
proof -
  have "uint (word_of_int (x AND 0xFF) :: byte) = x mod 256" for x
  proof -
    have "x AND 0xFF = take_bit 8 x" by (simp add: take_bit_eq_mask mask_eq_exp_minus_1)
    then show ?thesis by (simp add: unsigned_of_int take_bit_eq_mod)
  qed
  then have "uint (fst (DecTo2Hex dec)) * 256 + uint (snd (DecTo2Hex dec)) = 256 * (dec div 256 mod 256) + dec mod 256"
    by (simp add: DecTo2Hex_def drop_bit_eq_div)
  also have "\<dots> = dec mod (256 * 256)"
    by (rule zmod_zmult2_eq[symmetric]) simp
  finally show ?thesis by simp
qed

end
