(* ===== verification/Tagging.thy ===== *)
theory Tagging imports Prelude begin

text \<open>
  The tagged wire format of \<open>event_tagging.c\<close>. An event buffer is the list of its bytes:
  \<open>evbuffer_add\<close> appends, \<open>evbuffer_drain\<close> drops, and a pulled-up buffer is read by index.
  Numbers are encoded by nibbles, tags by groups of seven bits.
\<close>

unbundle bit_operations_syntax

type_synonym octet = "8 word"

text \<open>
  Why a call fails: \<open>-1\<close>, a read past the bytes that were pulled up (and the shift of an \<open>int\<close> past
  its width that goes with it), or a payload length of
  2 ^ 31 and more, which the \<open>int\<close> it is returned in makes negative.
\<close>

datatype fault = Minus_one | Overread | Negative_length

text \<open>A call that reads a buffer: the buffer as it is left, and the result.\<close>

type_synonym 'a reading = "octet list \<times> (fault + 'a)"

definition and_then :: "'a reading \<Rightarrow> (octet list \<Rightarrow> 'a \<Rightarrow> 'b reading) \<Rightarrow> 'b reading" where
  "and_then r k = (case r of (b, Inl f) \<Rightarrow> (b, Inl f) | (b, Inr x) \<Rightarrow> k b x)"

lemma and_then_simps [simp]:
  "and_then (b, Inl f) k = (b, Inl f)" "and_then (b, Inr x) k = k b x"
  by (simp_all add: and_then_def)

section \<open>Integers\<close>

text \<open>
  \<open>ENCODE_INT_INTERNAL\<close> at any width: nibble \<open>off\<close> is the low half of a byte when \<open>off\<close> is odd
  and the high half when it is even; \<open>off\<close> counts from 1.
\<close>

definition put_nibble :: "octet list \<Rightarrow> nat \<Rightarrow> octet \<Rightarrow> octet list" where
  "put_nibble data off v =
    (let d = data ! (off div 2) in
     if odd off then data[off div 2 := (d AND 0xf0) OR (v AND 0x0f)]
     else data[off div 2 := (d AND 0x0f) OR push_bit 4 (v AND 0x0f)])"

lemma unat_drop_bit: "unat (drop_bit n (w :: 'a::len word)) = unat w div 2 ^ n"
  unfolding unsigned_drop_bit_eq by (simp add: drop_bit_eq_div take_bit_nat_eq_self)

lemma unat_drop_bit_less: "(w :: 'a::len word) \<noteq> 0 \<Longrightarrow> unat (drop_bit (numeral k) w) < unat w"
proof -
  assume "w \<noteq> 0"
  then have "0 < unat w" by (simp add: unat_gt_0)
  then show ?thesis
    unfolding unat_drop_bit by (intro div_less_dividend one_less_power) simp_all
qed

function encode_loop :: "'a::len word \<Rightarrow> nat \<Rightarrow> octet list \<Rightarrow> nat \<times> octet list" where
  "encode_loop number off data =
    (if number \<noteq> 0 then encode_loop (drop_bit 4 number) (off + 1) (put_nibble data off (ucast number))
     else (off, data))"
  by pat_completeness auto
termination
  by (relation "measure (\<lambda>(number, off, data). unat number)") (auto simp: unat_drop_bit_less)

declare encode_loop.simps [simp del]

definition encode_int :: "'a::len word \<Rightarrow> octet list" where
  "encode_int number =
    (let (off, data) = encode_loop number 1 (replicate (LENGTH('a) div 8 + 1) 0);
         nibbles = (if off > 2 then off - 2 else 0);
         data = data[0 := (data ! 0 AND 0x0f) OR push_bit 4 (of_nat nibbles AND 0x0f)]
     in take ((off + 1) div 2) data)"

definition encode_int_internal :: "32 word \<Rightarrow> octet list" where
  "encode_int_internal = encode_int"

definition encode_int64_internal :: "64 word \<Rightarrow> octet list" where
  "encode_int64_internal = encode_int"

definition evtag_encode_int :: "octet list \<Rightarrow> 32 word \<Rightarrow> octet list" where
  "evtag_encode_int evbuf number = evbuf @ encode_int_internal number"

definition evtag_encode_int64 :: "octet list \<Rightarrow> 64 word \<Rightarrow> octet list" where
  "evtag_encode_int64 evbuf number = evbuf @ encode_int64_internal number"

text \<open>\<open>DECODE_INT_INTERNAL\<close>: the number and the bytes it takes, or \<open>None\<close> for -1.\<close>

fun decode_loop :: "octet list \<Rightarrow> nat \<Rightarrow> 'a::len word \<Rightarrow> 'a word" where
  "decode_loop data 0 number = number"
| "decode_loop data (Suc n) number =
    (let nibbles = Suc n; number = push_bit 4 number;
         number = number OR (if odd nibbles then ucast (data ! (nibbles div 2) AND 0x0f)
                             else ucast (drop_bit 4 (data ! (nibbles div 2) AND 0xf0)))
     in decode_loop data n number)"

definition decode_int :: "nat \<Rightarrow> octet list \<Rightarrow> nat \<Rightarrow> ('a::len word \<times> nat) option" where
  "decode_int maxnibbles evbuf offset =
    (let len = int (length evbuf) - int offset in
     if len \<le> 0 then None
     else let data = drop offset evbuf;
              nibbles = unat (drop_bit 4 (data ! 0 AND 0xf0)) + 1
          in if nibbles > maxnibbles \<or> int (nibbles div 2) + 1 > len then None
             else Some (decode_loop data nibbles 0, nibbles div 2 + 1))"

definition decode_int_internal :: "octet list \<Rightarrow> nat \<Rightarrow> (32 word \<times> nat) option" where
  "decode_int_internal = decode_int 8"

definition decode_int64_internal :: "octet list \<Rightarrow> nat \<Rightarrow> (64 word \<times> nat) option" where
  "decode_int64_internal = decode_int 16"

definition evtag_decode_int :: "octet list \<Rightarrow> 32 word reading" where
  "evtag_decode_int evbuf =
    (case decode_int_internal evbuf 0 of
       None \<Rightarrow> (evbuf, Inl Minus_one) | Some (number, res) \<Rightarrow> (drop res evbuf, Inr number))"

definition evtag_decode_int64 :: "octet list \<Rightarrow> 64 word reading" where
  "evtag_decode_int64 evbuf =
    (case decode_int64_internal evbuf 0 of
       None \<Rightarrow> (evbuf, Inl Minus_one) | Some (number, res) \<Rightarrow> (drop res evbuf, Inr number))"

section \<open>Tags\<close>

function encode_tag_loop :: "32 word \<Rightarrow> octet list" where
  "encode_tag_loop tag =
    (let lower = ucast (tag AND 0x7f); tag' = drop_bit 7 tag in
     if tag' \<noteq> 0 then (lower OR 0x80) # encode_tag_loop tag' else [lower])"
  by pat_completeness auto
termination
proof (relation "measure unat")
  fix tag lower tag' assume "tag' = drop_bit 7 (tag :: 32 word)" "tag' \<noteq> 0"
  then have "tag \<noteq> 0" by auto
  then show "(tag', tag) \<in> measure unat"
    unfolding in_measure \<open>tag' = _\<close> by (rule unat_drop_bit_less)
qed simp

declare encode_tag_loop.simps [simp del]

definition evtag_encode_tag :: "octet list \<Rightarrow> 32 word \<Rightarrow> octet list" where
  "evtag_encode_tag evbuf tag = evbuf @ encode_tag_loop tag"

text \<open>
  The loop over the bytes: at most five are pulled up, but the loop is bounded by the length
  of the buffer only. A sixth byte has no defined result wherever the bytes lie: it is read past the five
  that were pulled up, and where the first chain holds more than those, so that the program reads on,
  its value, an \<open>int\<close> of 32 bits, is shifted by 35 or more. Both are the outcome \<open>Overread\<close>.
\<close>

function decode_tag_loop :: "octet list \<Rightarrow> nat \<Rightarrow> nat \<Rightarrow> 32 word \<Rightarrow> fault + 32 word \<times> nat" where
  "decode_tag_loop evbuf count shift number =
    (if count < length evbuf then
       if count \<ge> 5 then Inl Overread
       else let lower = evbuf ! count;
                number = number OR push_bit shift (ucast (lower AND 0x7f))
            in if lower AND 0x80 = 0 then Inr (number, count + 1)
               else decode_tag_loop evbuf (count + 1) (shift + 7) number
     else Inl Minus_one)"
  by pat_completeness auto
termination
  by (relation "measure (\<lambda>(evbuf, count, shift, number). length evbuf - count)") auto

declare decode_tag_loop.simps [simp del]

definition decode_tag_internal :: "octet list \<Rightarrow> bool \<Rightarrow> (32 word \<times> nat) reading" where
  "decode_tag_internal evbuf dodrain =
    (case decode_tag_loop evbuf 0 0 0 of
       Inl f \<Rightarrow> (evbuf, Inl f)
     | Inr (number, count) \<Rightarrow> ((if dodrain then drop count evbuf else evbuf), Inr (number, count)))"

definition evtag_decode_tag :: "octet list \<Rightarrow> (32 word \<times> nat) reading" where
  "evtag_decode_tag evbuf = decode_tag_internal evbuf True"

section \<open>Marshalling\<close>

definition evtag_marshal :: "octet list \<Rightarrow> 32 word \<Rightarrow> octet list \<Rightarrow> octet list" where
  "evtag_marshal evbuf tag data =
    evtag_encode_int (evtag_encode_tag evbuf tag) (of_nat (length data)) @ data"

text \<open>The source buffer is emptied into the target.\<close>

definition evtag_marshal_buffer :: "octet list \<Rightarrow> 32 word \<Rightarrow> octet list \<Rightarrow> octet list \<times> octet list" where
  "evtag_marshal_buffer evbuf tag data =
    (evtag_encode_int (evtag_encode_tag evbuf tag) (of_nat (length data)) @ data, [])"

definition evtag_marshal_int :: "octet list \<Rightarrow> 32 word \<Rightarrow> 32 word \<Rightarrow> octet list" where
  "evtag_marshal_int evbuf tag integer =
    (let data = encode_int_internal integer in
     evtag_encode_int (evtag_encode_tag evbuf tag) (of_nat (length data)) @ data)"

definition evtag_marshal_int64 :: "octet list \<Rightarrow> 32 word \<Rightarrow> 64 word \<Rightarrow> octet list" where
  "evtag_marshal_int64 evbuf tag integer =
    (let data = encode_int64_internal integer in
     evtag_encode_int (evtag_encode_tag evbuf tag) (of_nat (length data)) @ data)"

text \<open>A C string is its bytes before the NUL.\<close>

definition evtag_marshal_string :: "octet list \<Rightarrow> 32 word \<Rightarrow> octet list \<Rightarrow> octet list" where
  "evtag_marshal_string buf tag s = evtag_marshal buf tag (takeWhile (\<lambda>c. c \<noteq> 0) s)"

record timeval =
  tv_sec :: "64 word"
  tv_usec :: "64 word"

definition evtag_marshal_timeval :: "octet list \<Rightarrow> 32 word \<Rightarrow> timeval \<Rightarrow> octet list" where
  "evtag_marshal_timeval evbuf tag tv =
    evtag_marshal evbuf tag (encode_int_internal (ucast (tv_sec tv)) @ encode_int_internal (ucast (tv_usec tv)))"

section \<open>Unmarshalling\<close>

definition evtag_peek :: "octet list \<Rightarrow> (32 word \<times> nat) reading" where
  "evtag_peek evbuf = decode_tag_internal evbuf False"

definition evtag_peek_length :: "octet list \<Rightarrow> 32 word reading" where
  "evtag_peek_length evbuf =
    and_then (decode_tag_internal evbuf False) (\<lambda>evbuf (_, len).
      case decode_int_internal evbuf len of
        None \<Rightarrow> (evbuf, Inl Minus_one)
      | Some (plength, res) \<Rightarrow> (evbuf, Inr (plength + of_nat (res + len))))"

definition evtag_payload_length :: "octet list \<Rightarrow> 32 word reading" where
  "evtag_payload_length evbuf =
    and_then (decode_tag_internal evbuf False) (\<lambda>evbuf (_, len).
      case decode_int_internal evbuf len of
        None \<Rightarrow> (evbuf, Inl Minus_one)
      | Some (plength, res) \<Rightarrow> (evbuf, Inr plength))"

text \<open>The tag and the length; the length is returned as an \<open>int\<close>.\<close>

definition evtag_unmarshal_header :: "octet list \<Rightarrow> (32 word \<times> nat) reading" where
  "evtag_unmarshal_header evbuf =
    and_then (decode_tag_internal evbuf True) (\<lambda>evbuf (tag, _).
    and_then (evtag_decode_int evbuf) (\<lambda>evbuf len.
      if length evbuf < unat len then (evbuf, Inl Minus_one)
      else if sint len < 0 then (evbuf, Inl Negative_length)
      else (evbuf, Inr (tag, unat len))))"

definition evtag_consume :: "octet list \<Rightarrow> unit reading" where
  "evtag_consume evbuf =
    and_then (evtag_unmarshal_header evbuf) (\<lambda>evbuf (_, len). (drop len evbuf, Inr ()))"

text \<open>The tag, and what is appended to \<open>dst\<close>.\<close>

definition evtag_unmarshal :: "octet list \<Rightarrow> octet list \<Rightarrow> (32 word \<times> octet list) reading" where
  "evtag_unmarshal src dst =
    and_then (evtag_unmarshal_header src) (\<lambda>src (tag, len).
      (drop len src, Inr (tag, dst @ take len src)))"

definition unmarshal_int :: "(octet list \<Rightarrow> nat \<Rightarrow> ('a \<times> nat) option) \<Rightarrow> octet list \<Rightarrow> 32 word \<Rightarrow> ('a \<times> nat) reading" where
  "unmarshal_int decode evbuf need_tag =
    and_then (decode_tag_internal evbuf True) (\<lambda>evbuf (tag, _).
      if need_tag \<noteq> tag then (evbuf, Inl Minus_one)
      else and_then (evtag_decode_int evbuf) (\<lambda>evbuf len.
        if length evbuf < unat len then (evbuf, Inl Minus_one)
        else let result = decode evbuf 0; evbuf = drop (unat len) evbuf in
          case result of
            None \<Rightarrow> (evbuf, Inl Minus_one)
          | Some (integer, result) \<Rightarrow>
              if result > unat len then (evbuf, Inl Minus_one) else (evbuf, Inr (integer, result))))"

definition evtag_unmarshal_int :: "octet list \<Rightarrow> 32 word \<Rightarrow> (32 word \<times> nat) reading" where
  "evtag_unmarshal_int = unmarshal_int decode_int_internal"

definition evtag_unmarshal_int64 :: "octet list \<Rightarrow> 32 word \<Rightarrow> (64 word \<times> nat) reading" where
  "evtag_unmarshal_int64 = unmarshal_int decode_int64_internal"

definition evtag_unmarshal_fixed :: "octet list \<Rightarrow> 32 word \<Rightarrow> nat \<Rightarrow> octet list reading" where
  "evtag_unmarshal_fixed src need_tag len =
    and_then (evtag_unmarshal_header src) (\<lambda>src (tag, tag_len).
      if tag \<noteq> need_tag then (src, Inl Minus_one)
      else if tag_len \<noteq> len then (src, Inl Minus_one)
      else (drop len src, Inr (take len src)))"

text \<open>The allocation is the parameter \<open>malloc_ok\<close>; the string is followed by a NUL.\<close>

definition evtag_unmarshal_string :: "bool \<Rightarrow> octet list \<Rightarrow> 32 word \<Rightarrow> octet list reading" where
  "evtag_unmarshal_string malloc_ok evbuf need_tag =
    and_then (evtag_unmarshal_header evbuf) (\<lambda>evbuf (tag, tag_len).
      if tag \<noteq> need_tag then (evbuf, Inl Minus_one)
      else if \<not> malloc_ok then (evbuf, Inl Minus_one)
      else (drop tag_len evbuf, Inr (take tag_len evbuf @ [0])))"

definition evtag_unmarshal_timeval :: "octet list \<Rightarrow> 32 word \<Rightarrow> timeval reading" where
  "evtag_unmarshal_timeval evbuf need_tag =
    and_then (evtag_unmarshal_header evbuf) (\<lambda>evbuf (tag, len).
      (drop len evbuf,
       if tag \<noteq> need_tag then Inl Minus_one
       else case decode_int_internal evbuf 0 of
         None \<Rightarrow> Inl Minus_one
       | Some (sec, offset) \<Rightarrow>
           (case decode_int_internal evbuf offset of
              None \<Rightarrow> Inl Minus_one
            | Some (usec, offset2) \<Rightarrow>
                if offset + offset2 > len then Inl Minus_one
                else Inr \<lparr>tv_sec = ucast sec, tv_usec = ucast usec\<rparr>)))"


section \<open>Nibbles\<close>

definition get_nibble :: "octet list \<Rightarrow> nat \<Rightarrow> octet" where
  "get_nibble data off =
    (if odd off then data ! (off div 2) AND 0x0f else drop_bit 4 (data ! (off div 2) AND 0xf0))"

lemma masks_8: "(0x0f :: octet) = mask 4" "(0xf0 :: octet) = push_bit 4 (mask 4)"
  by (simp_all add: mask_eq_exp_minus_1)

lemma nibble_halves:
  fixes d v :: octet
  shows "((d AND 0xf0) OR (v AND 0x0f)) AND 0x0f = v AND 0x0f"
    and "((d AND 0xf0) OR (v AND 0x0f)) AND 0xf0 = d AND 0xf0"
    and "((d AND 0x0f) OR push_bit 4 (v AND 0x0f)) AND 0x0f = d AND 0x0f"
    and "drop_bit 4 (((d AND 0x0f) OR push_bit 4 (v AND 0x0f)) AND 0xf0) = v AND 0x0f"
    and "((d AND 0x0f) OR (push_bit 4 v AND 0xf0)) AND 0x0f = d AND 0x0f"
    and "drop_bit 4 (push_bit 4 v) AND 0x0f = v AND 0x0f"
  unfolding masks_8
  by (rule bit_word_eqI; simp only: bit_or_iff bit_and_iff bit_push_bit_iff bit_drop_bit_eq bit_mask_iff comp_apply; auto)+

lemma length_put_nibble [simp]: "length (put_nibble data off v) = length data"
  by (simp add: put_nibble_def Let_def)

lemma get_put_nibble:
  assumes "off div 2 < length data"
  shows "get_nibble (put_nibble data off v) k = (if k = off then v AND 0x0f else get_nibble data k)"
proof (cases "k div 2 = off div 2")
  case True
  then have "odd k = odd off \<longleftrightarrow> k = off" by (metis odd_two_times_div_two_succ even_two_times_div_two)
  then show ?thesis
    using assms True by (auto simp: get_nibble_def put_nibble_def Let_def nibble_halves)
next
  case False
  then show ?thesis
    by (auto simp: get_nibble_def put_nibble_def Let_def)
qed

text \<open>The digits of a number in base 16, lowest first.\<close>

lemma drop_bit_4: "unat (drop_bit 4 w) = unat w div 16"
  using unat_drop_bit[of 4 w] by simp

text \<open>What the encoding loop leaves: the nibbles of the number from \<open>off\<close> on, others as before.\<close>

fun hex_digits :: "nat \<Rightarrow> nat" where
  "hex_digits n = (if n = 0 then 0 else Suc (hex_digits (n div 16)))"

declare hex_digits.simps [simp del]

lemma hex_digits_bound: "n < 16 ^ k \<Longrightarrow> hex_digits n \<le> k"
proof (induction k arbitrary: n)
  case 0
  then show ?case by (subst hex_digits.simps) simp
next
  case (Suc k)
  then have "n div 16 < 16 ^ k" by (simp add: div_less_iff_less_mult mult.commute)
  then show ?case
    using Suc.IH by (subst hex_digits.simps) auto
qed

lemma low_nibble: "ucast (w :: 'a::len word) AND 0x0f = (of_nat (unat w mod 16) :: octet)"
proof -
  have "unat w mod 16 = take_bit 4 (unat w)"
    by (simp add: take_bit_eq_mod)
  then show ?thesis
    by (simp only: masks_8 take_bit_eq_mask[symmetric] of_nat_take_bit of_nat_unat)
qed

lemma small_nibble: "m < 16 \<Longrightarrow> of_nat m AND 0x0f = (of_nat m :: octet)"
  by (simp only: masks_8 take_bit_eq_mask[symmetric] of_nat_take_bit[symmetric]) (simp add: take_bit_nat_eq_self)

lemma encode_loop_spec:
  fixes number :: "'a::len word"
  assumes "4 \<le> LENGTH('a)" and "encode_loop number off data = (off', data')"
    and "off + hex_digits (unat number) \<le> 2 * length data"
  shows "off' = off + hex_digits (unat number) \<and> length data' = length data \<and>
    (\<forall>k. get_nibble data' k =
      (if off \<le> k \<and> k < off' then of_nat (unat number div 16 ^ (k - off) mod 16) else get_nibble data k))"
  using assms(2,3)
proof (induction number off data rule: encode_loop.induct)
  case (1 number off data)
  show ?case
  proof (cases "number = 0")
    case True
    then show ?thesis
      using "1.prems" by (auto simp: encode_loop.simps[of 0 off data] hex_digits.simps[of 0])
  next
    case False
    then have pos: "unat number \<noteq> 0" by (simp add: unat_eq_0)
    have digits: "hex_digits (unat number) = Suc (hex_digits (unat (drop_bit 4 number)))"
      using pos by (subst hex_digits.simps) (simp only: drop_bit_4, simp)
    let ?data = "put_nibble data off (ucast number)"
    have rec: "encode_loop (drop_bit 4 number) (off + 1) ?data = (off', data')"
      using "1.prems"(1) False by (subst (asm) encode_loop.simps) simp
    have "off + 1 + hex_digits (unat (drop_bit 4 number)) \<le> 2 * length ?data"
      using "1.prems"(2) digits by simp
    from "1.IH"[OF False rec this]
    have IH: "off' = off + 1 + hex_digits (unat (drop_bit 4 number))" "length data' = length data"
      "get_nibble data' k = (if off + 1 \<le> k \<and> k < off'
         then of_nat (unat (drop_bit 4 number) div 16 ^ (k - (off + 1)) mod 16) else get_nibble ?data k)" for k
      by auto
    have fits: "off div 2 < length data"
      using "1.prems"(2) digits by auto
    note low = low_nibble[of number]
    have "get_nibble data' k =
      (if off \<le> k \<and> k < off' then of_nat (unat number div 16 ^ (k - off) mod 16) else get_nibble data k)" for k
    proof (cases "off + 1 \<le> k \<and> k < off'")
      case True
      then have "unat (drop_bit 4 number) div 16 ^ (k - (off + 1)) = unat number div 16 ^ (k - off)"
        by (simp only: drop_bit_4 flip: div_mult2_eq power_Suc) (simp add: Suc_diff_Suc)
      then show ?thesis using True IH(3)[of k] by simp
    next
      case False
      then show ?thesis
        using IH(1) IH(3)[of k] get_put_nibble[OF fits, of "ucast number" k] low by auto
    qed
    then show ?thesis
      using IH(1,2) digits by simp
  qed
qed


lemma hex_digits_pow: "n < 16 ^ hex_digits n"
proof (induction n rule: hex_digits.induct)
  case (1 n)
  then show ?case
    by (subst hex_digits.simps) (auto simp: div_less_iff_less_mult mult.commute)
qed

lemma append_nibble:
  assumes "m < 16"
  shows "push_bit 4 (of_nat a) OR of_nat m = (of_nat (16 * a + m) :: 'a::len word)"
proof -
  have "push_bit 4 a OR m = push_bit 4 a + m"
  proof (rule disjunctive_add_eq_or[symmetric], rule bit_eqI)
    fix n
    have "take_bit 4 m = m" using assms by (simp add: take_bit_nat_eq_self)
    then have "bit m n \<Longrightarrow> n < 4" by (metis bit_take_bit_iff)
    then show "bit (push_bit 4 a AND m) n \<longleftrightarrow> bit 0 n" by (auto simp: bit_simps)
  qed
  also have "\<dots> = 16 * a + m" by (simp add: push_bit_eq_mult)
  finally show ?thesis
    by (simp only: push_bit_of_nat flip: of_nat_or_eq)
qed

lemma ucast_nibble: "ucast (of_nat (m mod 16) :: octet) = (of_nat (m mod 16) :: 'a::len word)"
proof -
  have "take_bit 8 (m mod 16) = m mod 16" by (simp add: take_bit_nat_eq_self order_less_trans[of _ 16])
  then show ?thesis by (simp add: unsigned_of_nat)
qed

lemma decode_loop_step:
  "decode_loop data (Suc n) number = decode_loop data n (push_bit 4 number OR ucast (get_nibble data (Suc n)))"
  by (simp add: get_nibble_def Let_def)

declare decode_loop.simps(2) [simp del]

lemma decode_loop_spec:
  assumes "\<And>k. 1 \<le> k \<Longrightarrow> k \<le> n \<Longrightarrow> get_nibble data k = of_nat (N div 16 ^ (k - 1) mod 16)"
  shows "decode_loop data n (of_nat (N div 16 ^ n)) = (of_nat N :: 'a::len word)"
  using assms
proof (induction n)
  case (Suc n)
  have "(of_nat (N div 16 ^ n mod 16) :: octet) = get_nibble data (Suc n)"
    using Suc.prems[of "Suc n"] by simp
  then have nib: "ucast (get_nibble data (Suc n)) = (of_nat (N div 16 ^ n mod 16) :: 'a word)"
    by (simp add: ucast_nibble flip: \<open>_ = get_nibble data (Suc n)\<close>)
  have "16 * (N div 16 ^ Suc n) + N div 16 ^ n mod 16 = N div 16 ^ n"
    by (simp add: div_mult2_eq mult.commute[of 16 "16 ^ n"])
  then have "decode_loop data (Suc n) (of_nat (N div 16 ^ Suc n)) = decode_loop data n (of_nat (N div 16 ^ n) :: 'a word)"
    by (simp only: decode_loop_step nib) (simp only: append_nibble mod_less_divisor zero_less_numeral)
  also have "\<dots> = of_nat N"
    using Suc by simp
  finally show ?case .
qed simp


section \<open>Round trips of integers and tags\<close>

lemma get_nibble_0: "data \<noteq> [] \<Longrightarrow> drop_bit 4 (data ! 0 AND 0xf0) = get_nibble data 0"
  by (simp add: get_nibble_def)

text \<open>The encoded bytes: the nibble count, less one, in nibble 0, then the nibbles.\<close>

lemma encode_int_spec:
  fixes number :: "'a::len word"
  assumes "LENGTH('a) = 32 \<or> LENGTH('a) = 64"
  defines "n \<equiv> max 1 (hex_digits (unat number))"
  shows "length (encode_int number) = n div 2 + 1 \<and> n \<le> LENGTH('a) div 4 \<and>
    get_nibble (encode_int number) 0 = of_nat (n - 1) \<and>
    (\<forall>k. 1 \<le> k \<and> k \<le> n \<longrightarrow> get_nibble (encode_int number) k = of_nat (unat number div 16 ^ (k - 1) mod 16))"
proof -
  have "unat number < 2 ^ LENGTH('a)" by simp
  also have "(2 :: nat) ^ LENGTH('a) = 16 ^ (LENGTH('a) div 4)"
    using assms(1) by auto
  finally have hd: "hex_digits (unat number) \<le> LENGTH('a) div 4"
    by (rule hex_digits_bound)
  define zeros :: "octet list" where "zeros = replicate (LENGTH('a) div 8 + 1) 0"
  have z: "length zeros = LENGTH('a) div 8 + 1" by (simp add: zeros_def)
  obtain off data where e: "encode_loop number 1 zeros = (off, data)"
    by fastforce
  have "4 \<le> LENGTH('a)" "1 + hex_digits (unat number) \<le> 2 * length zeros"
    using hd assms(1) by (auto simp: z)
  from encode_loop_spec[OF this(1) e this(2)]
  have loop: "off = 1 + hex_digits (unat number)" "length data = LENGTH('a) div 8 + 1"
    "get_nibble data k = (if 1 \<le> k \<and> k < off then of_nat (unat number div 16 ^ (k - 1) mod 16)
       else get_nibble zeros k)" for k
    by (simp_all add: z)
  have nib: "(if off > 2 then off - 2 else 0) = n - 1" "(off + 1) div 2 = n div 2 + 1"
    unfolding loop(1) n_def by (auto simp: max_def)
  let ?out = "put_nibble data 0 (of_nat (n - 1))"
  have out: "encode_int number = take (n div 2 + 1) ?out"
    unfolding encode_int_def zeros_def[symmetric] e Let_def case_prod_conv nib by (simp add: put_nibble_def)
  have n: "n \<le> LENGTH('a) div 4" using hd assms(1) by (auto simp: n_def)
  have len: "n div 2 + 1 \<le> length ?out" using n assms(1) loop(2) by auto
  have get: "get_nibble (take m xs) k = get_nibble xs k" if "k div 2 < m" for m k xs
    using that by (simp add: get_nibble_def)
  have "get_nibble (encode_int number) 0 = of_nat (n - 1) AND 0x0f"
    unfolding out using loop(2) by (subst get) (auto simp: get_put_nibble)
  also have "\<dots> = of_nat (n - 1)"
    using n assms(1) by (intro small_nibble) auto
  finally have 0: "get_nibble (encode_int number) 0 = of_nat (n - 1)" .
  have "get_nibble (encode_int number) k = of_nat (unat number div 16 ^ (k - 1) mod 16)" if "1 \<le> k" "k \<le> n" for k
  proof -
    have "get_nibble (encode_int number) k = get_nibble data k"
      unfolding out using that loop(2) by (subst get) (auto simp: get_put_nibble div_le_mono less_Suc_eq_le)
    also have "\<dots> = of_nat (unat number div 16 ^ (k - 1) mod 16)"
    proof (cases "k < off")
      case True
      then show ?thesis using loop(3)[of k] that by simp
    next
      case False
      then have "hex_digits (unat number) = 0" "k = 1"
        using that loop(1) by (auto simp: n_def)
      then have "unat number = 0" "k = 1" using hex_digits_pow[of "unat number"] by simp_all
      moreover have "get_nibble zeros 1 = 0"
        by (simp add: get_nibble_def zeros_def)
      ultimately show ?thesis using loop(3)[of k] False by simp
    qed
    finally show ?thesis .
  qed
  then show ?thesis
    using 0 n len out by simp
qed

lemma decode_encode:
  fixes number :: "'a::len word"
  assumes "LENGTH('a) = 32 \<or> LENGTH('a) = 64"
  shows "decode_int (LENGTH('a) div 4) (p @ encode_int number @ rest) (length p) = Some (number, length (encode_int number))"
proof -
  define n where "n = max 1 (hex_digits (unat number))"
  have spec: "length (encode_int number) = n div 2 + 1" "n \<le> LENGTH('a) div 4"
    "get_nibble (encode_int number) 0 = of_nat (n - 1)"
    "\<And>k. 1 \<le> k \<Longrightarrow> k \<le> n \<Longrightarrow> get_nibble (encode_int number) k = of_nat (unat number div 16 ^ (k - 1) mod 16)"
    using encode_int_spec[OF assms, of number] unfolding n_def by auto
  let ?data = "encode_int number @ rest"
  have get: "get_nibble ?data k = get_nibble (encode_int number) k" if "k \<le> n" for k
    using that spec(1) by (simp add: get_nibble_def nth_append div_le_mono less_Suc_eq_le)
  have "unat (drop_bit 4 (?data ! 0 AND 0xf0)) = unat (of_nat (n - 1) :: octet)"
    using get[of 0] spec(3) by (simp only: get_nibble_0[symmetric]) (simp add: get_nibble_def)
  also have "n - 1 < 256" using spec(2) assms by auto
  then have "unat (of_nat (n - 1) :: octet) = n - 1"
    by (simp add: unat_of_nat)
  finally have nibbles: "unat (drop_bit 4 (?data ! 0 AND 0xf0)) + 1 = n"
    by (simp add: n_def)
  have "unat number < 16 ^ n"
    using hex_digits_pow[of "unat number"] unfolding n_def
    by (rule order_less_le_trans) simp
  have "decode_loop ?data n (of_nat (unat number div 16 ^ n)) = (of_nat (unat number) :: 'a word)"
    using spec(4) get by (intro decode_loop_spec) simp
  then have "decode_loop ?data n (0 :: 'a word) = number"
    using \<open>unat number < 16 ^ n\<close> by simp
  then show ?thesis
    using spec(1,2) nibbles by (simp add: decode_int_def Let_def)
qed


lemma decode_encode_int_internal:
  "decode_int_internal (p @ encode_int_internal number @ rest) (length p) = Some (number, length (encode_int_internal number))"
  using decode_encode[of p number rest] by (simp add: decode_int_internal_def encode_int_internal_def)

lemma decode_encode_int64_internal:
  "decode_int64_internal (p @ encode_int64_internal number @ rest) (length p) =
    Some (number, length (encode_int64_internal number))"
  using decode_encode[of p number rest] by (simp add: decode_int64_internal_def encode_int64_internal_def)

lemma evtag_decode_encode_int: "evtag_decode_int (encode_int_internal number @ rest) = (rest, Inr number)"
  using decode_encode_int_internal[of "[]" number rest] by (simp add: evtag_decode_int_def)

lemma evtag_decode_encode_int64: "evtag_decode_int64 (encode_int64_internal number @ rest) = (rest, Inr number)"
  using decode_encode_int64_internal[of "[]" number rest] by (simp add: evtag_decode_int64_def)

lemma tag_masks: "(0x7f :: 32 word) = mask 7" "(0x7f :: octet) = mask 7" "(0x80 :: octet) = push_bit 7 1"
  by (simp_all add: mask_eq_exp_minus_1)

lemma tag_low:
  "ucast ((ucast (t AND 0x7f) OR 0x80 :: octet) AND 0x7f) = (t AND 0x7f :: 32 word)"
  "ucast ((ucast (t AND 0x7f) :: octet) AND 0x7f) = (t AND 0x7f :: 32 word)"
  unfolding tag_masks
  by (rule bit_word_eqI; simp only: bit_or_iff bit_and_iff bit_push_bit_iff bit_unsigned_iff bit_mask_iff bit_1_iff; auto)+

lemma tag_high:
  "(ucast (t AND 0x7f :: 32 word) OR 0x80 :: octet) AND 0x80 \<noteq> 0"
  "(ucast (t AND 0x7f :: 32 word) :: octet) AND 0x80 = 0"
proof -
  have "bit ((ucast (t AND 0x7f) OR 0x80 :: octet) AND 0x80) 7"
    unfolding tag_masks by (simp only: bit_or_iff bit_and_iff bit_push_bit_iff bit_1_iff) simp
  then show "(ucast (t AND 0x7f :: 32 word) OR 0x80 :: octet) AND 0x80 \<noteq> 0" by fastforce
  show "(ucast (t AND 0x7f :: 32 word) :: octet) AND 0x80 = 0"
    unfolding tag_masks
    by (rule bit_word_eqI; simp only: bit_or_iff bit_and_iff bit_push_bit_iff bit_unsigned_iff bit_mask_iff bit_1_iff; auto)
qed

lemma tag_join:
  "acc OR push_bit s (t AND 0x7f) OR push_bit (s + 7) (drop_bit 7 t) = acc OR push_bit s (t :: 32 word)"
proof (rule bit_word_eqI)
  fix n assume "n < LENGTH(32)"
  have "7 + (n - (s + 7)) = n - s" if "s + 7 \<le> n" using that by simp
  then show "bit (acc OR push_bit s (t AND 0x7f) OR push_bit (s + 7) (drop_bit 7 t)) n = bit (acc OR push_bit s t) n"
    unfolding tag_masks
    by (cases "s + 7 \<le> n") (simp_all only: bit_or_iff bit_and_iff bit_push_bit_iff bit_drop_bit_eq bit_mask_iff comp_apply, auto)
qed

lemma tag_last: "drop_bit 7 t = 0 \<Longrightarrow> t AND 0x7f = (t :: 32 word)"
  unfolding tag_masks by (simp add: take_bit_eq_self_iff_drop_bit_eq_0 flip: take_bit_eq_mask)

lemma decode_tag_loop_encode:
  assumes "unat t * 2 ^ (7 * length p) < 2 ^ 32" and "length p \<le> 4"
  shows "decode_tag_loop (p @ encode_tag_loop t @ rest) (length p) (7 * length p) acc =
    Inr (acc OR push_bit (7 * length p) t, length p + length (encode_tag_loop t))"
  using assms
proof (induction t arbitrary: p acc rule: encode_tag_loop.induct)
  case (1 t)
  show ?case
  proof (cases "drop_bit 7 t = 0")
    case True
    then have e: "encode_tag_loop t = [ucast (t AND 0x7f)]"
      by (subst encode_tag_loop.simps) (simp add: Let_def)
    show ?thesis
      unfolding e using 1(3)
      by (subst decode_tag_loop.simps)
        (simp only: Let_def append_Cons append_Nil nth_append_length tag_high tag_low,
          simp only: tag_last[OF True], simp)
  next
    case False
    then have e: "encode_tag_loop t = (ucast (t AND 0x7f) OR 0x80) # encode_tag_loop (drop_bit 7 t)"
      by (subst encode_tag_loop.simps) (simp add: Let_def)
    let ?q = "p @ [ucast (t AND 0x7f) OR 0x80]"
    have "unat (drop_bit 7 t) * 128 \<le> unat t"
      unfolding unat_drop_bit by simp
    then have "unat (drop_bit 7 t) * 128 * 2 ^ (7 * length p) \<le> unat t * 2 ^ (7 * length p)"
      by (rule mult_le_mono1)
    then have bound: "unat (drop_bit 7 t) * 2 ^ (7 * length ?q) < 2 ^ 32"
    proof -
      have "unat (drop_bit 7 t) * 2 ^ (7 * length ?q) = unat (drop_bit 7 t) * 128 * 2 ^ (7 * length p)"
        by (simp add: power_add)
      then show ?thesis
        using \<open>unat (drop_bit 7 t) * 128 * 2 ^ (7 * length p) \<le> _\<close> 1(2) by linarith
    qed
    moreover have "length ?q \<le> 4"
    proof (rule ccontr)
      assume "\<not> length ?q \<le> 4"
      then have "length ?q = 5" using 1(3) by simp
      moreover have "unat (drop_bit 7 t) \<noteq> 0" using False by (simp only: unat_eq_0 not_False_eq_True)
      ultimately show False using bound by simp
    qed
    ultimately have IH: "decode_tag_loop (?q @ encode_tag_loop (drop_bit 7 t) @ rest) (length ?q) (7 * length ?q) acc' =
        Inr (acc' OR push_bit (7 * length ?q) (drop_bit 7 t), length ?q + length (encode_tag_loop (drop_bit 7 t)))" for acc'
      using 1(1)[OF refl refl False] by blast
    have "decode_tag_loop (p @ encode_tag_loop t @ rest) (length p) (7 * length p) acc =
      decode_tag_loop (?q @ encode_tag_loop (drop_bit 7 t) @ rest) (length ?q) (7 * length ?q)
        (acc OR push_bit (7 * length p) (t AND 0x7f))"
      unfolding e using 1(3)
      by (subst decode_tag_loop.simps) (simp only: Let_def, simp add: nth_append tag_high tag_low add.commute[of "7 * length p"])
    also note IH
    finally show ?thesis
      by (simp add: e tag_join[of acc "7 * length p" t, symmetric] add.commute or.assoc)
  qed
qed


lemma decode_encode_tag: "decode_tag_internal (encode_tag_loop t @ rest) drain =
    ((if drain then rest else encode_tag_loop t @ rest), Inr (t, length (encode_tag_loop t)))"
proof -
  have "unat t < 2 ^ 32" using unsigned_less[of t] by simp
  then have "decode_tag_loop (encode_tag_loop t @ rest) 0 0 0 = Inr (t, length (encode_tag_loop t))"
    using decode_tag_loop_encode[of t "[]" rest 0] by simp
  then show ?thesis by (simp add: decode_tag_internal_def)
qed

text \<open>The codecs: integers of both widths, tags, and tagged payloads shorter than 2 ^ 31.\<close>

definition reads :: "'a reading \<Rightarrow> ('a \<times> octet list) option" where
  "reads r = (case r of (b, Inl _) \<Rightarrow> None | (b, Inr x) \<Rightarrow> Some (x, b))"

definition payload_ok :: "32 word \<times> octet list \<Rightarrow> bool" where
  "payload_ok x \<longleftrightarrow> length (snd x) < 2 ^ 31"

definition marshal :: "32 word \<times> octet list \<Rightarrow> octet list" where
  "marshal x = evtag_marshal [] (fst x) (snd x)"

definition unmarshal :: "octet list \<Rightarrow> ((32 word \<times> octet list) \<times> octet list) option" where
  "unmarshal b = reads (evtag_unmarshal b [])"

lemma unmarshal_header:
  assumes "length data < 2 ^ 31"
  shows "evtag_unmarshal_header (encode_tag_loop tag @ encode_int_internal (of_nat (length data)) @ data @ rest) =
    (data @ rest, Inr (tag, length data))"
proof -
  have len: "unat (of_nat (length data) :: 32 word) = length data"
    using assms by (simp add: unat_of_nat)
  have "sint (of_nat (length data) :: 32 word) = int (length data)"
    using assms by (simp add: signed_of_nat signed_take_bit_int_eq_self)
  then show ?thesis
    using len by (simp add: evtag_unmarshal_header_def decode_encode_tag evtag_decode_encode_int)
qed

lemma evtag_marshal_alt:
  "evtag_marshal b tag data = b @ encode_tag_loop tag @ encode_int_internal (of_nat (length data)) @ data"
  by (simp add: evtag_marshal_def evtag_encode_int_def evtag_encode_tag_def)

lemma unmarshal_marshal: "payload_ok x \<Longrightarrow> unmarshal (marshal x @ rest) = Some (x, rest)"
  by (cases x) (simp add: unmarshal_def marshal_def payload_ok_def evtag_marshal_alt evtag_unmarshal_def
    unmarshal_header reads_def)

interpretation ints: codec "\<lambda>_. True" encode_int_internal "\<lambda>b. reads (evtag_decode_int b)"
  by unfold_locales (simp add: evtag_decode_encode_int reads_def)

interpretation ints64: codec "\<lambda>_. True" encode_int64_internal "\<lambda>b. reads (evtag_decode_int64 b)"
  by unfold_locales (simp add: evtag_decode_encode_int64 reads_def)

interpretation tags: codec "\<lambda>_. True" encode_tag_loop "\<lambda>b. map_option (\<lambda>((t, n), r). (t, r)) (reads (evtag_decode_tag b))"
  by unfold_locales (simp add: evtag_decode_tag_def decode_encode_tag reads_def)

interpretation records: codec payload_ok marshal unmarshal
  by unfold_locales (rule unmarshal_marshal)


lemma decode_int_truncated:
  fixes number :: "'a::len word"
  assumes "LENGTH('a) = 32 \<or> LENGTH('a) = 64" and "k < length (encode_int number)"
  shows "(decode_int m (take k (encode_int number)) 0 :: ('a word \<times> nat) option) = None"
proof (cases "k = 0")
  case False
  define n where "n = max 1 (hex_digits (unat number))"
  have spec: "length (encode_int number) = n div 2 + 1" "n \<le> LENGTH('a) div 4"
    "get_nibble (encode_int number) 0 = of_nat (n - 1)"
    using encode_int_spec[OF assms(1), of number] unfolding n_def by auto
  have "n - 1 < 256" using spec(2) assms(1) by auto
  then have "unat (get_nibble (encode_int number) 0) = n - 1"
    using spec(3) by (simp add: unat_of_nat)
  moreover have "get_nibble (encode_int number) 0 = drop_bit 4 (take k (encode_int number) ! 0 AND 0xf0)"
    using False by (simp add: get_nibble_def)
  ultimately have nibbles: "unat (drop_bit 4 (take k (encode_int number) ! 0 AND 0xf0)) + 1 = n"
    by (simp only:) (simp add: n_def)
  show ?thesis
    using assms(2) spec(1) by (simp only: decode_int_def Let_def drop_0 nibbles) simp
qed (simp add: decode_int_def)

lemma length_encode_int:
  fixes number :: "'a::len word"
  assumes "LENGTH('a) = 32 \<or> LENGTH('a) = 64"
  shows "length (encode_int number) \<le> LENGTH('a) div 8 + 1"
proof -
  define n where "n = max 1 (hex_digits (unat number))"
  have "length (encode_int number) = n div 2 + 1" "n \<le> LENGTH('a) div 4"
    using encode_int_spec[OF assms, of number] unfolding n_def by auto
  then show ?thesis using assms by auto
qed

lemma unmarshal_marshal_int:
  "evtag_unmarshal_int (evtag_marshal_int [] tag n @ rest) tag = (rest, Inr (n, length (encode_int_internal n)))"
  "evtag_unmarshal_int64 (evtag_marshal_int64 [] tag m @ rest) tag = (rest, Inr (m, length (encode_int64_internal m)))"
proof -
  have l: "length (encode_int_internal n) < 2 ^ 32" "length (encode_int64_internal m) < 2 ^ 32"
    using length_encode_int[of n] length_encode_int[of m] by (simp_all add: encode_int_internal_def encode_int64_internal_def)
  show "evtag_unmarshal_int (evtag_marshal_int [] tag n @ rest) tag = (rest, Inr (n, length (encode_int_internal n)))"
    using l decode_encode_int_internal[of "[]" n rest]
    by (simp add: evtag_unmarshal_int_def unmarshal_int_def evtag_marshal_int_def Let_def evtag_encode_int_def
      evtag_encode_tag_def decode_encode_tag evtag_decode_encode_int unat_of_nat)
  show "evtag_unmarshal_int64 (evtag_marshal_int64 [] tag m @ rest) tag = (rest, Inr (m, length (encode_int64_internal m)))"
    using l decode_encode_int64_internal[of "[]" m rest]
    by (simp add: evtag_unmarshal_int64_def unmarshal_int_def evtag_marshal_int64_def Let_def evtag_encode_int_def
      evtag_encode_tag_def decode_encode_tag evtag_decode_encode_int unat_of_nat)
qed

lemma unmarshal_marshal_timeval:
  "evtag_unmarshal_timeval (evtag_marshal_timeval [] tag tv @ rest) tag =
    (rest, Inr \<lparr>tv_sec = ucast (ucast (tv_sec tv) :: 32 word), tv_usec = ucast (ucast (tv_usec tv) :: 32 word)\<rparr>)"
proof -
  let ?s = "encode_int_internal (ucast (tv_sec tv))" and ?u = "encode_int_internal (ucast (tv_usec tv))"
  have "length (?s @ ?u) < 2 ^ 31"
    using length_encode_int[of "ucast (tv_sec tv) :: 32 word"] length_encode_int[of "ucast (tv_usec tv) :: 32 word"]
    by (simp add: encode_int_internal_def)
  from unmarshal_header[OF this, of tag rest] show ?thesis
    using decode_encode_int_internal[of "[]" _ "?u @ rest"] decode_encode_int_internal[of ?s _ rest]
    by (simp add: evtag_unmarshal_timeval_def evtag_marshal_timeval_def evtag_marshal_alt)
qed

section \<open>Properties\<close>

text \<open>
  C32. Any list of tagged payloads, each shorter than 2 ^ 31 bytes, marshalled one after the other
  is unmarshalled record by record, tags and payloads, up to the bytes that follow.
\<close>

theorem tagged_records_roundtrip:
  assumes "list_all payload_ok rs"
  shows "records.dec_n (length rs) (concat (map marshal rs) @ rest) = Some (rs, rest)"
  using assms by (rule records.dec_n_concat)

theorem tagged_records_roundtrip_witness:
  "records.dec_n (length [(7 :: 32 word, [1 :: octet, 2]), (0x166, [])]) (concat (map marshal [(7, [1, 2]), (0x166, [])]) @ [9]) =
    Some ([(7, [1, 2]), (0x166, [])], [9])"
  by (rule tagged_records_roundtrip) (simp add: payload_ok_def)

text \<open>
  Integers of 32 and 64 bits are read back from their encoding, bare or as tagged values; a
  time value comes back with its seconds and microseconds modulo 2 ^ 32; and an encoding that
  is cut short is refused with the buffer untouched.
\<close>

theorem tagged_integers_roundtrip:
  "evtag_decode_int (evtag_encode_int [] n @ rest) = (rest, Inr n) \<and>
   evtag_decode_int64 (evtag_encode_int64 [] m @ rest) = (rest, Inr m) \<and>
   evtag_unmarshal_int (evtag_marshal_int [] tag n @ rest) tag = (rest, Inr (n, length (encode_int_internal n))) \<and>
   evtag_unmarshal_int64 (evtag_marshal_int64 [] tag m @ rest) tag = (rest, Inr (m, length (encode_int64_internal m))) \<and>
   evtag_unmarshal_timeval (evtag_marshal_timeval [] tag tv @ rest) tag =
     (rest, Inr \<lparr>tv_sec = ucast (ucast (tv_sec tv) :: 32 word), tv_usec = ucast (ucast (tv_usec tv) :: 32 word)\<rparr>)"
  by (simp add: evtag_encode_int_def evtag_encode_int64_def evtag_decode_encode_int evtag_decode_encode_int64
    unmarshal_marshal_int unmarshal_marshal_timeval)

text \<open>An integer encoding that is cut short anywhere is refused and nothing is consumed.\<close>

theorem truncated_integer_refused:
  assumes "k < length (encode_int_internal n)" and "k' < length (encode_int64_internal m)"
  shows "evtag_decode_int (take k (encode_int_internal n)) = (take k (encode_int_internal n), Inl Minus_one) \<and>
    evtag_decode_int64 (take k' (encode_int64_internal m)) = (take k' (encode_int64_internal m), Inl Minus_one)"
  using assms decode_int_truncated[of k n 8] decode_int_truncated[of k' m 16]
  by (simp add: evtag_decode_int_def evtag_decode_int64_def decode_int_internal_def decode_int64_internal_def
    encode_int_internal_def encode_int64_internal_def)

theorem truncated_integer_refused_witness:
  "evtag_decode_int (take 0 (encode_int_internal 300)) = (take 0 (encode_int_internal 300), Inl Minus_one)"
proof -
  have "0 < length (encode_int_internal 300)" "0 < length (encode_int64_internal 1)"
    using encode_int_spec[of "300 :: 32 word"] encode_int_spec[of "1 :: 64 word"]
    by (simp_all add: encode_int_internal_def encode_int64_internal_def)
  from truncated_integer_refused[OF this] show ?thesis by simp
qed

text \<open>
  C36. A tag whose first five bytes all ask for another, in a buffer with a sixth, is read past the
  five bytes that were pulled up.
\<close>

theorem long_tag_overread:
  assumes "length b \<ge> 6" and "\<forall>i < 5. b ! i AND 0x80 \<noteq> 0"
  shows "evtag_decode_tag b = (b, Inl Overread)"
proof -
  have step: "decode_tag_loop b i s acc = decode_tag_loop b (Suc i) (s + 7) (acc OR push_bit s (ucast (b ! i AND 0x7f)))"
    if "i < 5" for i s acc
    using that assms by (subst decode_tag_loop.simps) (simp add: Let_def)
  have "decode_tag_loop b 5 s acc = Inl Overread" for s acc
    using assms(1) by (subst decode_tag_loop.simps) simp
  then have "decode_tag_loop b 0 0 0 = Inl Overread"
    by (simp add: step numeral_nat)
  then show ?thesis
    by (simp add: evtag_decode_tag_def decode_tag_internal_def)
qed

theorem long_tag_overread_witness:
  "evtag_decode_tag [0x80, 0x80, 0x80, 0x80, 0x80, 0, 0] = ([0x80, 0x80, 0x80, 0x80, 0x80, 0, 0], Inl Overread)"
proof (rule long_tag_overread)
  have "i = 0 \<or> i = 1 \<or> i = 2 \<or> i = 3 \<or> i = 4" if "i < 5" for i :: nat
    using that by auto
  then show "\<forall>i < 5. [0x80, 0x80, 0x80, 0x80, 0x80, 0, 0 :: octet] ! i AND 0x80 \<noteq> 0"
    by fastforce
qed simp

end
