(* ===== verification/MinHeap.thy ===== *)
theory MinHeap imports Prelude "HOL-Library.Multiset" begin

text \<open>
  The timer heap of \<open>minheap-internal.h\<close>: a binary heap of events in an array, each event
  with the index it stands at. Events are addresses, their timeouts a function that the
  operations do not change. The counters are natural numbers: an array of 2 ^ 32 pointers is
  not reached.
\<close>

section \<open>The operations\<close>

record timeout =
  t_sec :: int
  t_usec :: int

type_synonym timeouts = "nat \<Rightarrow> timeout"

definition min_heap_elem_greater :: "timeouts \<Rightarrow> nat \<Rightarrow> nat \<Rightarrow> bool" where
  "min_heap_elem_greater tm a b =
    (if t_sec (tm a) = t_sec (tm b) then t_usec (tm a) > t_usec (tm b) else t_sec (tm a) > t_sec (tm b))"

text \<open>
  The array has \<open>a\<close> slots, of which \<open>n\<close> are in use. \<open>idx\<close> is the field \<open>min_heap_idx\<close> of
  every event.
\<close>

record min_heap =
  hp :: "nat list"
  hn :: nat
  ha :: nat
  idx :: "nat \<Rightarrow> int"

definition min_heap_ctor :: "(nat \<Rightarrow> int) \<Rightarrow> min_heap" where
  "min_heap_ctor ix = \<lparr>hp = [], hn = 0, ha = 0, idx = ix\<rparr>"

definition min_heap_elem_init :: "min_heap \<Rightarrow> nat \<Rightarrow> min_heap" where
  "min_heap_elem_init s e = s\<lparr>idx := (idx s)(e := -1)\<rparr>"

definition min_heap_empty :: "min_heap \<Rightarrow> bool" where
  "min_heap_empty s \<longleftrightarrow> hn s = 0"

definition min_heap_size :: "min_heap \<Rightarrow> nat" where
  "min_heap_size s = hn s"

definition min_heap_top :: "min_heap \<Rightarrow> nat option" where
  "min_heap_top s = (if hn s \<noteq> 0 then Some (hp s ! 0) else None)"

definition min_heap_elt_is_top :: "min_heap \<Rightarrow> nat \<Rightarrow> bool" where
  "min_heap_elt_is_top s e \<longleftrightarrow> idx s e = 0"

text \<open>\<open>realloc\<close> keeps the slots; what the new ones hold is not read before it is written.\<close>

definition min_heap_reserve :: "bool \<Rightarrow> min_heap \<Rightarrow> nat \<Rightarrow> min_heap option" where
  "min_heap_reserve realloc_ok s n =
    (if ha s < n then
       let a = (if ha s \<noteq> 0 then ha s * 2 else 8);
           a = (if a < n then n else a)
       in if \<not> realloc_ok then None
          else Some (s\<lparr>hp := hp s @ replicate (a - ha s) 0, ha := a\<rparr>)
     else Some s)"

text \<open>\<open>(s->p[i] = e)->min_heap_idx = i\<close>\<close>

definition put :: "nat \<Rightarrow> nat \<Rightarrow> min_heap \<Rightarrow> min_heap" where
  "put i e s = s\<lparr>hp := (hp s)[i := e], idx := (idx s)(e := int i)\<rparr>"

function min_heap_shift_up :: "timeouts \<Rightarrow> min_heap \<Rightarrow> nat \<Rightarrow> nat \<Rightarrow> min_heap" where
  "min_heap_shift_up tm s hole e =
    (let parent = (hole - 1) div 2 in
     if hole \<noteq> 0 \<and> min_heap_elem_greater tm (hp s ! parent) e
     then min_heap_shift_up tm (put hole (hp s ! parent) s) parent e
     else put hole e s)"
  by pat_completeness auto
termination
  by (relation "measure (\<lambda>(tm, s, hole, e). hole)") auto

function min_heap_shift_down :: "timeouts \<Rightarrow> min_heap \<Rightarrow> nat \<Rightarrow> nat \<Rightarrow> min_heap" where
  "min_heap_shift_down tm s hole e =
    (let min_child = 2 * (hole + 1) in
     if min_child \<le> hn s then
       let min_child = min_child -
             (if min_child = hn s \<or> min_heap_elem_greater tm (hp s ! min_child) (hp s ! (min_child - 1)) then 1 else 0)
       in if \<not> min_heap_elem_greater tm e (hp s ! min_child) then put hole e s
          else min_heap_shift_down tm (put hole (hp s ! min_child) s) min_child e
     else put hole e s)"
  by pat_completeness auto
termination
  by (relation "measure (\<lambda>(tm, s, hole, e). hn s - hole)") (auto simp: put_def)

declare min_heap_shift_up.simps [simp del] min_heap_shift_down.simps [simp del]

text \<open>\<open>None\<close> is the result -1 of a failed allocation.\<close>

definition min_heap_push :: "timeouts \<Rightarrow> bool \<Rightarrow> nat \<Rightarrow> min_heap \<Rightarrow> min_heap option" where
  "min_heap_push tm realloc_ok e s =
    (case min_heap_reserve realloc_ok s (hn s + 1) of
       None \<Rightarrow> None
     | Some s \<Rightarrow> Some (min_heap_shift_up tm (s\<lparr>hn := hn s + 1\<rparr>) (hn s) e))"

definition min_heap_pop :: "timeouts \<Rightarrow> min_heap \<Rightarrow> nat option \<times> min_heap" where
  "min_heap_pop tm s =
    (if hn s \<noteq> 0 then
       let e = hp s ! 0;
           s = s\<lparr>hn := hn s - 1\<rparr>;
           s = min_heap_shift_down tm s 0 (hp s ! hn s)
       in (Some e, s\<lparr>idx := (idx s)(e := -1)\<rparr>)
     else (None, s))"

definition min_heap_erase :: "timeouts \<Rightarrow> nat \<Rightarrow> min_heap \<Rightarrow> bool \<times> min_heap" where
  "min_heap_erase tm e s =
    (if idx s e \<noteq> -1 then
       let s = s\<lparr>hn := hn s - 1\<rparr>;
           last = hp s ! hn s;
           i = nat (idx s e);
           parent = (i - 1) div 2;
           s = (if i > 0 \<and> min_heap_elem_greater tm (hp s ! parent) last
                then min_heap_shift_up tm s i last else min_heap_shift_down tm s i last)
       in (True, s\<lparr>idx := (idx s)(e := -1)\<rparr>)
     else (False, s))"

section \<open>The order of events\<close>

definition le :: "timeouts \<Rightarrow> nat \<Rightarrow> nat \<Rightarrow> bool" where
  "le tm a b \<longleftrightarrow> \<not> min_heap_elem_greater tm a b"

lemma le_refl [simp]: "le tm a a"
  by (simp add: le_def min_heap_elem_greater_def)

lemma greater_irrefl [simp]: "\<not> min_heap_elem_greater tm a a"
  by (simp add: min_heap_elem_greater_def)

lemma le_trans: "le tm a b \<Longrightarrow> le tm b c \<Longrightarrow> le tm a c"
  by (auto simp: le_def min_heap_elem_greater_def split: if_splits)

lemma le_total: "le tm a b \<or> le tm b a"
  by (auto simp: le_def min_heap_elem_greater_def split: if_splits)

lemma greater_le: "min_heap_elem_greater tm a b \<Longrightarrow> le tm b a"
  using le_total[of tm a b] by (auto simp: le_def)

section \<open>Sifting on lists\<close>

text \<open>
  The array in use with the element put in the hole is a list; a step of a loop swaps two
  places of it.
\<close>

definition swap :: "nat \<Rightarrow> nat \<Rightarrow> nat list \<Rightarrow> nat list" where
  "swap i j xs = xs[i := xs ! j, j := xs ! i]"

lemma length_swap [simp]: "length (swap i j xs) = length xs"
  by (simp add: swap_def)

lemma mset_swap_list: "i < length xs \<Longrightarrow> j < length xs \<Longrightarrow> mset (swap i j xs) = mset xs"
  by (simp add: swap_def mset_swap)

lemma nth_swap: "i < length xs \<Longrightarrow> j < length xs \<Longrightarrow>
    swap i j xs ! k = (if k = j then xs ! i else if k = i then xs ! j else xs ! k)"
  by (auto simp: swap_def nth_list_update)

abbreviation par :: "nat \<Rightarrow> nat" where
  "par i \<equiv> (i - 1) div 2"

definition heap :: "timeouts \<Rightarrow> nat list \<Rightarrow> bool" where
  "heap tm xs \<longleftrightarrow> (\<forall>j. 0 < j \<and> j < length xs \<longrightarrow> le tm (xs ! par j) (xs ! j))"

text \<open>The order but for one place against its parent, or against its children.\<close>

definition heap_up :: "timeouts \<Rightarrow> nat \<Rightarrow> nat list \<Rightarrow> bool" where
  "heap_up tm i xs \<longleftrightarrow> (\<forall>j. 0 < j \<and> j < length xs \<longrightarrow>
    (j \<noteq> i \<longrightarrow> le tm (xs ! par j) (xs ! j)) \<and> (par j = i \<and> 0 < i \<longrightarrow> le tm (xs ! par i) (xs ! j)))"

definition heap_down :: "timeouts \<Rightarrow> nat \<Rightarrow> nat list \<Rightarrow> bool" where
  "heap_down tm i xs \<longleftrightarrow> (\<forall>j. 0 < j \<and> j < length xs \<longrightarrow>
    (par j \<noteq> i \<longrightarrow> le tm (xs ! par j) (xs ! j)) \<and> (par j = i \<and> 0 < i \<longrightarrow> le tm (xs ! par i) (xs ! j)))"

function sift_up :: "timeouts \<Rightarrow> nat \<Rightarrow> nat list \<Rightarrow> nat list" where
  "sift_up tm i xs =
    (if i \<noteq> 0 \<and> min_heap_elem_greater tm (xs ! par i) (xs ! i) then sift_up tm (par i) (swap i (par i) xs) else xs)"
  by pat_completeness auto
termination
  by (relation "measure (\<lambda>(tm, i, xs). i)") auto

function sift_down :: "timeouts \<Rightarrow> nat \<Rightarrow> nat list \<Rightarrow> nat list" where
  "sift_down tm i xs =
    (let c = 2 * (i + 1) in
     if c \<le> length xs then
       let c = c - (if c = length xs \<or> min_heap_elem_greater tm (xs ! c) (xs ! (c - 1)) then 1 else 0)
       in if min_heap_elem_greater tm (xs ! i) (xs ! c) then sift_down tm c (swap i c xs) else xs
     else xs)"
  by pat_completeness auto
termination
  by (relation "measure (\<lambda>(tm, i, xs). length xs - i)") auto

declare sift_up.simps [simp del] sift_down.simps [simp del]


lemma heap_up_step:
  assumes i: "0 < i" "i < length xs" and h: "heap_up tm i xs" and g: "min_heap_elem_greater tm (xs ! par i) (xs ! i)"
  shows "heap_up tm (par i) (swap i (par i) xs)"
proof -
  have p: "par i < length xs" "par i < i" using i by auto
  have one: "le tm (xs ! par j) (xs ! j)" if "0 < j" "j < length xs" "j \<noteq> i" for j
    using h that by (auto simp: heap_up_def)
  have two: "le tm (xs ! par i) (xs ! j)" if "0 < j" "j < length xs" "par j = i" for j
    using h i that by (auto simp: heap_up_def)
  have down: "le tm (xs ! i) (xs ! par i)" using g by (rule greater_le)
  note nth = nth_swap[OF i(2) p(1)]
  show ?thesis
    unfolding heap_up_def length_swap
  proof (intro allI impI conjI)
    fix j assume j: "0 < j \<and> j < length xs" and ne: "j \<noteq> par i"
    have "par j < j" using j by auto
    consider "j = i" | "j \<noteq> i" "par j = i" | "j \<noteq> i" "par j = par i" | "j \<noteq> i" "par j \<noteq> i" "par j \<noteq> par i" by blast
    then show "le tm (swap i (par i) xs ! par j) (swap i (par i) xs ! j)"
    proof cases
      case 1
      then show ?thesis using down p by (simp add: nth del: One_nat_def)
    next
      case 2
      then show ?thesis using two[of j] j ne p by (simp add: nth del: One_nat_def)
    next
      case 3
      then have "le tm (xs ! par i) (xs ! j)" using one[of j] j by simp
      then have "le tm (xs ! i) (xs ! j)" by (rule le_trans[OF down])
      then show ?thesis using 3 ne p by (simp add: nth del: One_nat_def)
    next
      case 4
      then show ?thesis using one[of j] j ne by (simp add: nth del: One_nat_def)
    qed
  next
    fix j assume j: "0 < j \<and> j < length xs" and c: "par j = par i \<and> 0 < par i"
    have "par x < x" if "0 < x" for x using that by auto
    then have "par (par i) < par i" using c by blast
    then have q: "par (par i) \<noteq> i" "par (par i) \<noteq> par i" using p by linarith+
    have up: "le tm (xs ! par (par i)) (xs ! par i)" using one[of "par i"] c p by simp
    have ne: "j \<noteq> par i" using c q by auto
    have "le tm (xs ! par (par i)) (xs ! j)" if "j \<noteq> i"
      using one[of j] j c that by (intro le_trans[OF up]) simp
    then show "le tm (swap i (par i) xs ! par (par i)) (swap i (par i) xs ! j)"
      using up ne q by (cases "j = i") (simp_all add: nth del: One_nat_def)
  qed
qed

lemma sift_up_spec:
  assumes "i < length xs" and "heap_up tm i xs"
  shows "heap tm (sift_up tm i xs) \<and> mset (sift_up tm i xs) = mset xs"
  using assms
proof (induction tm i xs rule: sift_up.induct)
  case (1 tm i xs)
  show ?case
  proof (cases "i \<noteq> 0 \<and> min_heap_elem_greater tm (xs ! par i) (xs ! i)")
    case True
    then have "heap_up tm (par i) (swap i (par i) xs)" "par i < length (swap i (par i) xs)"
      using heap_up_step[of i xs tm] "1.prems" by auto
    then show ?thesis
      using "1.IH"[OF True] True "1.prems"(1) by (subst (1 2) sift_up.simps) (simp add: mset_swap_list)
  next
    case False
    then have "heap tm xs"
      using "1.prems"(2) by (auto simp: heap_def heap_up_def le_def)
    then show ?thesis
      using False by (subst (1 2) sift_up.simps) auto
  qed
qed

text \<open>The smaller of the two children.\<close>

definition min_child :: "timeouts \<Rightarrow> nat \<Rightarrow> nat list \<Rightarrow> nat" where
  "min_child tm i xs =
    (let c = 2 * (i + 1) in
     c - (if c = length xs \<or> min_heap_elem_greater tm (xs ! c) (xs ! (c - 1)) then 1 else 0))"

lemma min_child:
  assumes "2 * (i + 1) \<le> length xs"
  shows "min_child tm i xs < length xs" "par (min_child tm i xs) = i" "0 < min_child tm i xs"
    and "\<And>j. 0 < j \<Longrightarrow> j < length xs \<Longrightarrow> par j = i \<Longrightarrow> le tm (xs ! min_child tm i xs) (xs ! j)"
proof -
  show "min_child tm i xs < length xs" "par (min_child tm i xs) = i" "0 < min_child tm i xs"
    using assms by (auto simp: min_child_def Let_def)
  fix j assume "0 < j" "j < length xs" "par j = i"
  then have j: "j = 2 * i + 1 \<or> j = 2 * (i + 1)" by auto
  then show "le tm (xs ! min_child tm i xs) (xs ! j)"
    using \<open>j < length xs\<close> greater_le[of tm "xs ! (2 * (i + 1))" "xs ! (2 * i + 1)"]
    by (auto simp: min_child_def Let_def le_def)
qed

lemma heap_down_step:
  assumes i: "2 * (i + 1) \<le> length xs" and h: "heap_down tm i xs"
    and g: "min_heap_elem_greater tm (xs ! i) (xs ! min_child tm i xs)"
  shows "heap_down tm (min_child tm i xs) (swap i (min_child tm i xs) xs)"
proof -
  define c where "c = min_child tm i xs"
  note mc = min_child[OF i, where tm = tm, folded c_def]
  have c: "c < length xs" "par c = i" "0 < c" "i < length xs" "i < c" using mc(1-3) i by auto
  have one: "le tm (xs ! par j) (xs ! j)" if "0 < j" "j < length xs" "par j \<noteq> i" for j
    using h that by (auto simp: heap_down_def)
  have two: "0 < i \<Longrightarrow> le tm (xs ! par i) (xs ! c)"
    using h c by (auto simp: heap_down_def)
  have down: "le tm (xs ! c) (xs ! i)" using g by (simp add: c_def greater_le)
  note nth = nth_swap[OF c(4) c(1)]
  show ?thesis
    unfolding heap_down_def length_swap c_def[symmetric]
  proof (intro allI impI conjI)
    fix j assume j: "0 < j \<and> j < length xs" and ne: "par j \<noteq> c"
    have "par j < j" using j by auto
    consider "j = c" | "j \<noteq> c" "par j = i" | "j = i" | "j \<noteq> i" "j \<noteq> c" "par j \<noteq> i" by blast
    then show "le tm (swap i c xs ! par j) (swap i c xs ! j)"
    proof cases
      case 1
      then show ?thesis using down c by (simp add: nth)
    next
      case 2
      then show ?thesis using mc(4)[of j] j c \<open>par j < j\<close> by (auto simp: nth)
    next
      case 3
      then show ?thesis using two j c ne \<open>par j < j\<close> by (auto simp: nth)
    next
      case 4
      then show ?thesis using one[of j] j ne by (simp add: nth)
    qed
  next
    fix j assume j: "0 < j \<and> j < length xs" and k: "par j = c \<and> 0 < c"
    have "par j < j" using j by auto
    then have "j \<noteq> i" "j \<noteq> c" using k c by auto
    then show "le tm (swap i c xs ! par c) (swap i c xs ! j)"
      using one[of j] j k c by (simp add: nth)
  qed
qed

lemma sift_down_min_child:
  "sift_down tm i xs =
    (if 2 * (i + 1) \<le> length xs \<and> min_heap_elem_greater tm (xs ! i) (xs ! min_child tm i xs)
     then sift_down tm (min_child tm i xs) (swap i (min_child tm i xs) xs) else xs)"
  by (subst sift_down.simps) (simp only: min_child_def Let_def, simp)

lemma sift_down_spec:
  assumes "i < length xs" and "heap_down tm i xs"
  shows "heap tm (sift_down tm i xs) \<and> mset (sift_down tm i xs) = mset xs"
  using assms
proof (induction "length xs - i" arbitrary: i xs rule: less_induct)
  case less
  let ?c = "min_child tm i xs"
  show ?case
  proof (cases "2 * (i + 1) \<le> length xs \<and> min_heap_elem_greater tm (xs ! i) (xs ! ?c)")
    case True
    then have c: "?c < length xs" "i < ?c"
      using min_child(1-3)[of i xs tm] by auto
    have "heap_down tm ?c (swap i ?c xs)"
      using True less.prems by (intro heap_down_step) auto
    then have "heap tm (sift_down tm ?c (swap i ?c xs)) \<and> mset (sift_down tm ?c (swap i ?c xs)) = mset xs"
      using less.hyps[of "swap i ?c xs" ?c] c less.prems(1) by (simp add: mset_swap_list)
    then show ?thesis
      using True by (subst (1 2) sift_down_min_child) simp
  next
    case False
    have "le tm (xs ! par j) (xs ! j)" if j: "0 < j" "j < length xs" for j
    proof (cases "par j = i")
      case True
      then have "2 * (i + 1) \<le> length xs" using j by auto
      then show ?thesis
        using False min_child(4)[of i xs j tm] j True le_trans[of tm "xs ! i" "xs ! ?c" "xs ! j"] by (auto simp: le_def)
    qed (use less.prems(2) j in \<open>auto simp: heap_down_def\<close>)
    then have "heap tm xs" by (simp add: heap_def)
    then show ?thesis
      using False by (subst (1 2) sift_down_min_child) auto
  qed
qed


section \<open>The loops sift\<close>

definition els :: "min_heap \<Rightarrow> nat list" where
  "els s = take (hn s) (hp s)"

text \<open>Each event of the list knows its index, but for the one at the hole.\<close>

definition indexed :: "nat option \<Rightarrow> nat list \<Rightarrow> (nat \<Rightarrow> int) \<Rightarrow> bool" where
  "indexed hole xs ix \<longleftrightarrow> distinct xs \<and> (\<forall>j < length xs. Some j \<noteq> hole \<longrightarrow> ix (xs ! j) = int j)"

lemma els_put: "i < hn s \<Longrightarrow> els (put i e s) = (els s)[i := e]"
  by (simp add: els_def put_def take_update_swap)

lemma put_sel [simp]: "hn (put i e s) = hn s" "ha (put i e s) = ha s" "length (hp (put i e s)) = length (hp s)"
  "idx (put i e s) = (idx s)(e := int i)"
  by (simp_all add: put_def)

lemma indexed_put:
  assumes "i < length xs" and "indexed (Some i) (xs[i := e]) ix"
  shows "indexed None (xs[i := e]) (ix(e := int i))"
proof -
  have "xs ! j \<noteq> e" if "j < length xs" "j \<noteq> i" for j
    using assms that nth_eq_iff_index_eq[of "xs[i := e]" i j] by (simp add: indexed_def)
  then show ?thesis
    using assms by (auto simp: indexed_def nth_list_update)
qed

lemma indexed_swap:
  assumes "i < length xs" "k < length xs" "i \<noteq> k" and "indexed (Some i) (xs[i := e]) ix"
  shows "indexed (Some k) (xs[i := xs ! k, k := e]) (ix(xs ! k := int i))"
proof -
  have eq: "xs[i := xs ! k, k := e] = swap i k (xs[i := e])"
    using assms(1-3) by (simp add: swap_def)
  have "distinct (swap i k (xs[i := e]))"
    using assms mset_eq_imp_distinct_iff[OF mset_swap_list[of i "xs[i := e]" k]] by (simp add: indexed_def)
  moreover have "(ix(xs ! k := int i)) (swap i k (xs[i := e]) ! j) = int j" if "j < length xs" "j \<noteq> k" for j
  proof (cases "j = i")
    case False
    then have "xs ! j \<noteq> xs ! k"
      using assms that nth_eq_iff_index_eq[of "xs[i := e]" j k] by (simp add: indexed_def)
    then show ?thesis
      using assms that False by (simp add: indexed_def nth_swap)
  qed (use assms that in \<open>simp add: nth_swap\<close>)
  ultimately show ?thesis
    by (simp add: eq indexed_def)
qed

definition holds_after :: "nat list \<Rightarrow> min_heap \<Rightarrow> min_heap \<Rightarrow> nat list \<Rightarrow> bool" where
  "holds_after xs s s' ys \<longleftrightarrow> els s' = ys \<and> hn s' = hn s \<and> ha s' = ha s \<and> length (hp s') = length (hp s) \<and>
    indexed None ys (idx s') \<and> (\<forall>x. x \<notin> set xs \<longrightarrow> idx s' x = idx s x)"

lemma holds_after_put:
  assumes "i < hn s" "hn s \<le> length (hp s)" and "indexed (Some i) ((els s)[i := e]) (idx s)"
  shows "holds_after ((els s)[i := e]) s (put i e s) ((els s)[i := e])"
proof -
  have "i < length (els s)" using assms by (simp add: els_def)
  then have "indexed None ((els s)[i := e]) (idx (put i e s))" and "e \<in> set ((els s)[i := e])"
    using indexed_put[OF _ assms(3)] by (simp_all add: set_update_memI)
  then show ?thesis
    using assms(1) by (auto simp: holds_after_def els_put)
qed

text \<open>One step: the element at \<open>k\<close> moves into the hole \<open>i\<close>, and the hole to \<open>k\<close>.\<close>

lemma holds_after_step:
  assumes "i < hn s" "k < hn s" "i \<noteq> k" "hn s \<le> length (hp s)"
    and "indexed (Some i) ((els s)[i := e]) (idx s)"
  defines "s1 \<equiv> put i (hp s ! k) s"
  shows "(els s1)[k := e] = swap i k ((els s)[i := e])"
    and "indexed (Some k) ((els s1)[k := e]) (idx s1)"
    and "holds_after ((els s1)[k := e]) s1 s' ys \<Longrightarrow> holds_after ((els s)[i := e]) s s' ys"
proof -
  have k: "hp s ! k = els s ! k" and l: "i < length (els s)" "k < length (els s)"
    using assms by (simp_all add: els_def)
  have e1: "els s1 = (els s)[i := els s ! k]"
    using assms(1) by (simp add: s1_def els_put k)
  show sw: "(els s1)[k := e] = swap i k ((els s)[i := e])"
    using l assms(3) by (simp add: e1 swap_def)
  show "indexed (Some k) ((els s1)[k := e]) (idx s1)"
    using indexed_swap[OF l assms(3,5)] by (simp add: e1) (simp add: s1_def k)
  have sets: "set ((els s1)[k := e]) = set ((els s)[i := e])"
    unfolding sw using l by (metis length_list_update mset_swap_list set_mset_mset)
  have "els s ! k \<in> set ((els s)[i := e])"
    using l assms(3) by (metis length_list_update nth_list_update_neq nth_mem)
  then show "holds_after ((els s1)[k := e]) s1 s' ys \<Longrightarrow> holds_after ((els s)[i := e]) s s' ys"
    unfolding holds_after_def sets by (auto simp: s1_def k)
qed

lemma shift_up_sift:
  assumes "i < hn s" "hn s \<le> length (hp s)" and "indexed (Some i) ((els s)[i := e]) (idx s)"
  shows "holds_after ((els s)[i := e]) s (min_heap_shift_up tm s i e) (sift_up tm i ((els s)[i := e]))"
  using assms
proof (induction tm s i e rule: min_heap_shift_up.induct)
  case (1 tm s i e)
  let ?xs = "(els s)[i := e]"
  have l: "i < length (els s)" using "1.prems" by (simp add: els_def)
  have p: "i \<noteq> 0 \<Longrightarrow> par i \<noteq> i \<and> par i < hn s" using "1.prems"(1) by auto
  have nth: "?xs ! i = e" "i \<noteq> 0 \<Longrightarrow> ?xs ! par i = hp s ! par i"
    using l p "1.prems" by (auto simp: els_def nth_list_update)
  show ?case
  proof (cases "i \<noteq> 0 \<and> min_heap_elem_greater tm (hp s ! par i) e")
    case True
    let ?s1 = "put i (hp s ! par i) s"
    have pp: "par i < hn s" "i \<noteq> par i" using p True by auto
    note step = holds_after_step[OF "1.prems"(1) pp "1.prems"(2,3)]
    have "holds_after ((els ?s1)[par i := e]) ?s1 (min_heap_shift_up tm ?s1 (par i) e) (sift_up tm (par i) ((els ?s1)[par i := e]))"
      by (rule "1.IH"[OF refl True _ _ step(2)]) (use pp "1.prems" in simp_all)
    then have "holds_after ?xs s (min_heap_shift_up tm ?s1 (par i) e) (sift_up tm (par i) ((els ?s1)[par i := e]))"
      by (rule step(3))
    moreover note step(1)
    ultimately show ?thesis
      using True nth by (subst min_heap_shift_up.simps, subst sift_up.simps) (simp only: Let_def, simp)
  next
    case False
    then show ?thesis
      using holds_after_put[OF "1.prems"] nth
      by (subst min_heap_shift_up.simps, subst sift_up.simps) (simp only: Let_def, auto)
  qed
qed


lemma shift_down_sift:
  assumes "i < hn s" "hn s \<le> length (hp s)" and "indexed (Some i) ((els s)[i := e]) (idx s)"
  shows "holds_after ((els s)[i := e]) s (min_heap_shift_down tm s i e) (sift_down tm i ((els s)[i := e]))"
  using assms
proof (induction "hn s - i" arbitrary: i s rule: less_induct)
  case less
  let ?xs = "(els s)[i := e]"
  let ?c = "min_child tm i ?xs"
  have l: "length ?xs = hn s" "i < length (els s)" using less.prems by (simp_all add: els_def)
  have nth: "?xs ! i = e" "\<And>j. j < hn s \<Longrightarrow> j \<noteq> i \<Longrightarrow> ?xs ! j = hp s ! j"
    using l less.prems by (auto simp: els_def nth_list_update)
  have child: "2 * (i + 1) - (if 2 * (i + 1) = hn s \<or> min_heap_elem_greater tm (hp s ! (2 * (i + 1))) (hp s ! (2 * (i + 1) - 1)) then 1 else 0) = ?c"
    if "2 * (i + 1) \<le> hn s"
  proof (cases "2 * (i + 1) = hn s")
    case True
    then show ?thesis by (simp only: min_child_def Let_def l) simp
  next
    case False
    then have "2 * (i + 1) < hn s" "2 * (i + 1) \<noteq> i" "2 * (i + 1) - 1 < hn s" "2 * (i + 1) - 1 \<noteq> i"
      using that by auto
    then have "?xs ! (2 * (i + 1)) = hp s ! (2 * (i + 1))" "?xs ! (2 * (i + 1) - 1) = hp s ! (2 * (i + 1) - 1)"
      using nth(2)[of "2 * (i + 1)"] nth(2)[of "2 * (i + 1) - 1"] by blast+
    then show ?thesis by (simp only: min_child_def Let_def l)
  qed
  have shift: "min_heap_shift_down tm s i e =
    (if 2 * (i + 1) \<le> hn s \<and> min_heap_elem_greater tm e (hp s ! ?c)
     then min_heap_shift_down tm (put i (hp s ! ?c) s) ?c e else put i e s)"
    using child by (subst min_heap_shift_down.simps) (simp only: Let_def, simp)
  show ?case
  proof (cases "2 * (i + 1) \<le> hn s \<and> min_heap_elem_greater tm e (hp s ! ?c)")
    case True
    let ?s1 = "put i (hp s ! ?c) s"
    have c: "?c < hn s" "i \<noteq> ?c" "i < ?c"
      using min_child(1-3)[of i ?xs tm] True l by auto
    note step = holds_after_step[OF less.prems(1) c(1,2) less.prems(2,3)]
    have "holds_after ((els ?s1)[?c := e]) ?s1 (min_heap_shift_down tm ?s1 ?c e) (sift_down tm ?c ((els ?s1)[?c := e]))"
      by (rule less.hyps[OF _ _ _ step(2)]) (use c less.prems in simp_all)
    then have "holds_after ?xs s (min_heap_shift_down tm ?s1 ?c e) (sift_down tm ?c (swap i ?c ?xs))"
      unfolding step(1)[symmetric] by (rule step(3))
    moreover have "sift_down tm i ?xs = sift_down tm ?c (swap i ?c ?xs)"
      using True nth c l by (subst sift_down_min_child) simp
    ultimately show ?thesis
      using True shift by simp
  next
    case False
    then have "sift_down tm i ?xs = ?xs"
      using nth(1) nth(2)[of ?c] l min_child(1-3)[of i ?xs tm] by (subst sift_down_min_child) auto
    then show ?thesis
      unfolding shift if_not_P[OF False] using holds_after_put[OF less.prems] by (simp only:)
  qed
qed

section \<open>The invariant and the operations\<close>

definition heap_inv :: "timeouts \<Rightarrow> min_heap \<Rightarrow> bool" where
  "heap_inv tm s \<longleftrightarrow> hn s \<le> ha s \<and> length (hp s) = ha s \<and> heap tm (els s) \<and> indexed None (els s) (idx s) \<and>
    (\<forall>x. x \<notin> set (els s) \<longrightarrow> idx s x = -1)"

definition events :: "min_heap \<Rightarrow> nat set" where
  "events s = set (els s)"

lemma heap_inv_ctor: "heap_inv tm (min_heap_ctor (\<lambda>_. -1))"
  by (simp add: heap_inv_def min_heap_ctor_def els_def heap_def indexed_def)

lemma length_els: "heap_inv tm s \<Longrightarrow> length (els s) = hn s"
  by (simp add: heap_inv_def els_def)

lemma distinct_els: "heap_inv tm s \<Longrightarrow> distinct (els s)"
  by (simp add: heap_inv_def indexed_def)

lemma idx_els: "heap_inv tm s \<Longrightarrow> x \<in> set (els s) \<Longrightarrow> idx s x \<ge> 0 \<and> nat (idx s x) < hn s \<and> els s ! nat (idx s x) = x"
proof -
  assume inv: "heap_inv tm s" and "x \<in> set (els s)"
  then obtain j where "j < hn s" "els s ! j = x"
    by (metis in_set_conv_nth length_els)
  moreover have "idx s (els s ! j) = int j"
    using inv \<open>j < hn s\<close> length_els[OF inv] by (simp add: heap_inv_def indexed_def)
  ultimately show ?thesis by auto
qed

lemma idx_iff: "heap_inv tm s \<Longrightarrow> idx s x = -1 \<longleftrightarrow> x \<notin> events s"
  using idx_els[of tm s x] by (auto simp: heap_inv_def events_def)

text \<open>The first event is the least.\<close>

lemma heap_least:
  assumes "heap tm xs" "j < length xs"
  shows "le tm (xs ! 0) (xs ! j)"
  using assms(2)
proof (induction j rule: less_induct)
  case (less j)
  show ?case
  proof (cases "j = 0")
    case False
    then have "par j < j" by auto
    then show ?thesis
      using less False assms(1) le_trans[of tm "xs ! 0" "xs ! par j" "xs ! j"] by (auto simp: heap_def)
  qed simp
qed

lemma reserve_inv:
  assumes "heap_inv tm s" "min_heap_reserve r s n = Some s'"
  shows "heap_inv tm s' \<and> els s' = els s \<and> hn s' = hn s \<and> idx s' = idx s \<and> n \<le> ha s'"
  using assms
  by (auto simp: min_heap_reserve_def Let_def heap_inv_def els_def split: if_splits)

lemma push_inv:
  assumes inv: "heap_inv tm s" and e: "e \<notin> events s" and p: "min_heap_push tm r e s = Some s'"
  shows "heap_inv tm s' \<and> mset (els s') = add_mset e (mset (els s))"
proof -
  obtain s0 where r: "min_heap_reserve r s (hn s + 1) = Some s0"
    and s': "s' = min_heap_shift_up tm (s0\<lparr>hn := hn s0 + 1\<rparr>) (hn s0) e"
    using p by (auto simp: min_heap_push_def split: option.splits)
  have s0: "heap_inv tm s0" "els s0 = els s" "hn s0 = hn s" "idx s0 = idx s" "hn s + 1 \<le> ha s0"
    using reserve_inv[OF inv r] by auto
  let ?s1 = "s0\<lparr>hn := hn s0 + 1\<rparr>"
  have len0: "length (els s0) = hn s0" using s0(1) by (rule length_els)
  have "els ?s1 = els s0 @ [hp s0 ! hn s0]"
    using s0 by (simp add: els_def heap_inv_def take_Suc_conv_app_nth)
  then have view: "(els ?s1)[hn s0 := e] = els s @ [e]"
    using list_update_length[of "els s0" "hp s0 ! hn s0" "[]" e] by (simp only: len0) (simp only: s0(2))
  have len: "length (els s) = hn s" using inv by (rule length_els)
  have ind: "indexed (Some (hn s0)) (els s @ [e]) (idx s)"
    using inv e len s0 by (auto simp: indexed_def heap_inv_def events_def nth_append)
  have "heap_up tm (hn s) (els s @ [e])"
    using inv len by (auto simp: heap_up_def heap_def heap_inv_def nth_append)
  then have sift: "heap tm (sift_up tm (hn s) (els s @ [e]))" "mset (sift_up tm (hn s) (els s @ [e])) = mset (els s @ [e])"
    using sift_up_spec[of "hn s" "els s @ [e]" tm] len by auto
  have "holds_after (els s @ [e]) ?s1 s' (sift_up tm (hn s) (els s @ [e]))"
    using shift_up_sift[of "hn s0" ?s1 e tm] s0 ind unfolding s' view by (simp add: heap_inv_def)
  then have h: "els s' = sift_up tm (hn s) (els s @ [e])" "hn s' = hn s + 1" "ha s' = ha s0" "length (hp s') = length (hp s0)"
    "indexed None (els s') (idx s')" "\<And>x. x \<notin> set (els s @ [e]) \<Longrightarrow> idx s' x = idx s x"
    using s0 by (auto simp: holds_after_def)
  have "set (els s') = set (els s @ [e])"
    using sift(2) h(1) by (metis set_mset_mset)
  then show ?thesis
    using h s0 sift inv by (auto simp: heap_inv_def)
qed


text \<open>
  Taking an event out: the last one fills its place, unless it is the last itself; then the
  place is sifted up or down.
\<close>

lemma heap_butlast: "heap tm (xs @ [y]) \<Longrightarrow> heap tm xs"
  by (force simp: heap_def nth_append split: if_splits)

lemma fill_hole:
  assumes h: "heap tm (xs @ [y])" and i: "i < length xs"
  shows "if 0 < i \<and> min_heap_elem_greater tm (xs ! par i) y
    then heap_up tm i (xs[i := y]) else heap_down tm i (xs[i := y])"
proof -
  have one: "le tm (xs ! par j) (xs ! j)" if "0 < j" "j < length xs" for j
    using heap_butlast[OF h] that by (simp add: heap_def)
  have lt: "par j < j" if "0 < j" for j using that by auto
  have grand: "le tm (xs ! par i) (xs ! j)" if "0 < j" "j < length xs" "par j = i" "0 < i" for j
    using one[of i] one[of j] that le_trans[of tm "xs ! par i" "xs ! i" "xs ! j"] i by simp
  show ?thesis
  proof (cases "0 < i \<and> min_heap_elem_greater tm (xs ! par i) y")
    case True
    then have y: "le tm y (xs ! par i)" by (simp add: greater_le)
    have "heap_up tm i (xs[i := y])"
      unfolding heap_up_def length_list_update
    proof (intro allI impI conjI)
      fix j assume j: "0 < j \<and> j < length xs" and "j \<noteq> i"
      then show "le tm (xs[i := y] ! par j) (xs[i := y] ! j)"
        using one[of j] le_trans[OF y grand[of j]] i True by (cases "par j = i") auto
    next
      fix j assume "0 < j \<and> j < length xs" "par j = i \<and> 0 < i"
      then show "le tm (xs[i := y] ! par i) (xs[i := y] ! j)"
        using grand[of j] lt[of i] lt[of j] by auto
    qed
    then show ?thesis using True by simp
  next
    case False
    have "heap_down tm i (xs[i := y])"
      unfolding heap_down_def length_list_update
    proof (intro allI impI conjI)
      fix j assume j: "0 < j \<and> j < length xs" and "par j \<noteq> i"
      then show "le tm (xs[i := y] ! par j) (xs[i := y] ! j)"
        using one[of j] i False by (cases "j = i") (auto simp: le_def)
    next
      fix j assume "0 < j \<and> j < length xs" "par j = i \<and> 0 < i"
      then show "le tm (xs[i := y] ! par i) (xs[i := y] ! j)"
        using grand[of j] lt[of i] lt[of j] by auto
    qed
    then show ?thesis unfolding if_not_P[OF False] .
  qed
qed

definition take_out :: "timeouts \<Rightarrow> nat \<Rightarrow> min_heap \<Rightarrow> min_heap" where
  "take_out tm i s =
    (let s = s\<lparr>hn := hn s - 1\<rparr>; last = hp s ! hn s in
     if i > 0 \<and> min_heap_elem_greater tm (hp s ! par i) last
     then min_heap_shift_up tm s i last else min_heap_shift_down tm s i last)"

lemma take_out_middle:
  assumes h: "heap tm (els s1 @ [y])" and d: "distinct (els s1 @ [y])" and i: "i < hn s1" and l: "hn s1 \<le> length (hp s1)"
    and ix: "\<forall>j < hn s1. idx s1 (els s1 ! j) = int j" and e: "e = els s1 ! i"
    and s2: "s2 = (if i > 0 \<and> min_heap_elem_greater tm (hp s1 ! par i) y
      then min_heap_shift_up tm s1 i y else min_heap_shift_down tm s1 i y)"
  shows "heap tm (els s2) \<and> mset (els s2) + {#e#} = mset (els s1 @ [y]) \<and> indexed None (els s2) (idx s2) \<and>
    hn s2 = hn s1 \<and> ha s2 = ha s1 \<and> length (hp s2) = length (hp s1) \<and>
    (\<forall>x. x \<notin> set (els s1 @ [y]) \<longrightarrow> idx s2 x = idx s1 x)"
proof -
  let ?xs = "(els s1)[i := y]"
  have len: "length (els s1) = hn s1" using l by (simp add: els_def)
  have il: "i < length (els s1)" "i < length ?xs" using i len by simp_all
  have par: "hp s1 ! par i = els s1 ! par i" using i by (simp add: els_def)
  have m: "mset ?xs + {#e#} = mset (els s1 @ [y])"
    using il(1) by (simp add: mset_update e)
  then have "mset (e # ?xs) = mset (els s1 @ [y])" by simp
  then have dist: "distinct ?xs" and sub: "set ?xs \<subseteq> set (els s1 @ [y])"
    using d by (metis distinct.simps(2) mset_eq_imp_distinct_iff) (metis mset_eq_setD set_subset_Cons \<open>mset (e # ?xs) = mset (els s1 @ [y])\<close>)
  have ind: "indexed (Some i) ?xs (idx s1)"
    using dist ix len by (auto simp: indexed_def)
  define ys where "ys = (if 0 < i \<and> min_heap_elem_greater tm (els s1 ! par i) y then sift_up tm i ?xs else sift_down tm i ?xs)"
  have ys: "heap tm ys \<and> mset ys = mset ?xs"
    using fill_hole[OF h il(1)] sift_up_spec[OF il(2)] sift_down_spec[OF il(2)] by (auto simp: ys_def)
  have "holds_after ?xs s1 s2 ys"
    using shift_up_sift[OF i l ind, of tm] shift_down_sift[OF i l ind, of tm] unfolding s2 ys_def par by auto
  then show ?thesis
    using ys m sub by (auto simp: holds_after_def)
qed

lemma take_out_inv:
  assumes inv: "heap_inv tm s" and i: "i < hn s"
  defines "e \<equiv> els s ! i"
  defines "t \<equiv> (take_out tm i s)\<lparr>idx := (idx (take_out tm i s))(e := -1)\<rparr>"
  shows "heap_inv tm t \<and> mset (els t) + {#e#} = mset (els s) \<and> hn t + 1 = hn s"
proof -
  let ?s1 = "s\<lparr>hn := hn s - 1\<rparr>" and ?y = "hp s ! (hn s - 1)"
  have l: "hn s - 1 < length (hp s)" and cap: "hn s \<le> ha s" "length (hp s) = ha s"
    using inv i by (auto simp: heap_inv_def)
  have split: "els s = els ?s1 @ [?y]"
    using i l by (cases "hn s") (simp_all add: els_def take_Suc_conv_app_nth)
  have h: "heap tm (els ?s1 @ [?y])" and d: "distinct (els ?s1 @ [?y])"
    unfolding split[symmetric] using inv distinct_els[OF inv] by (simp_all add: heap_inv_def)
  have len: "length (els ?s1) = hn s - 1" using l by (simp add: els_def)
  have ix: "\<forall>j < hn s. idx s (els s ! j) = int j"
    using inv length_els[OF inv] by (simp add: heap_inv_def indexed_def)
  have out: "\<forall>x. x \<notin> set (els s) \<longrightarrow> idx s x = -1" using inv by (simp add: heap_inv_def)
  let ?s2 = "take_out tm i s"
  have res: "heap tm (els ?s2) \<and> mset (els ?s2) + {#e#} = mset (els s) \<and> indexed None (els ?s2) ((idx ?s2)(e := -1)) \<and>
    hn ?s2 = hn s - 1 \<and> ha ?s2 = ha s \<and> length (hp ?s2) = length (hp s) \<and>
    (\<forall>x. x \<notin> set (els s) \<longrightarrow> idx ?s2 x = -1)"
  proof (cases "i < hn s - 1")
    case True
    have e: "e = els ?s1 ! i" using True len by (simp add: e_def split nth_append)
    have "idx ?s1 (els ?s1 ! j) = int j" if "j < hn ?s1" for j
      using ix[rule_format, of j] that len by (simp add: split nth_append)
    then have mid: "heap tm (els ?s2) \<and> mset (els ?s2) + {#e#} = mset (els s) \<and> indexed None (els ?s2) (idx ?s2) \<and>
        hn ?s2 = hn ?s1 \<and> ha ?s2 = ha ?s1 \<and> length (hp ?s2) = length (hp ?s1) \<and>
        (\<forall>x. x \<notin> set (els s) \<longrightarrow> idx ?s2 x = idx ?s1 x)"
      unfolding split using True l e
      by (intro take_out_middle[OF h d]) (auto simp: take_out_def Let_def)
    then have "mset (e # els ?s2) = mset (els s)" by simp
    then have "e \<notin> set (els ?s2)"
      using distinct_els[OF inv] by (metis distinct.simps(2) mset_eq_imp_distinct_iff)
    then have "indexed None (els ?s2) ((idx ?s2)(e := -1))"
      using mid by (auto simp: indexed_def)
    then show ?thesis using mid out by auto
  next
    case False
    then have ii: "i = hn s - 1" using i by simp
    then have e: "e = ?y" using len by (simp add: e_def split nth_append)
    have "\<not> (0 < i \<and> min_heap_elem_greater tm (hp s ! par i) ?y)"
    proof
      assume a: "0 < i \<and> min_heap_elem_greater tm (hp s ! par i) ?y"
      then have "par i < i" by auto
      then have "hp s ! par i = els s ! par i" using i by (simp add: els_def)
      moreover have "le tm (els s ! par i) (els s ! i)"
        using inv a i length_els[OF inv] by (auto simp: heap_inv_def heap_def)
      ultimately show False
        using a e by (simp add: le_def e_def)
    qed
    then have "?s2 = min_heap_shift_down tm ?s1 i ?y"
      by (auto simp: take_out_def Let_def)
    also have "\<dots> = put i ?y ?s1"
      by (subst min_heap_shift_down.simps) (simp add: Let_def ii)
    finally have "?s2 = put i ?y ?s1" .
    then have s2: "els ?s2 = els ?s1" "idx ?s2 = (idx s)(?y := int i)" "hn ?s2 = hn s - 1" "ha ?s2 = ha s"
      "length (hp ?s2) = length (hp s)"
      by (simp_all add: els_def put_def ii)
    have "idx s (els ?s1 ! j) = int j \<and> els ?s1 ! j \<noteq> e" if "j < hn s - 1" for j
    proof
      show "idx s (els ?s1 ! j) = int j" using ix[rule_format, of j] that len by (simp add: split nth_append)
      have "els ?s1 ! j \<in> set (els ?s1)" using that len by simp
      then show "els ?s1 ! j \<noteq> e" using d e by auto
    qed
    then have "indexed None (els ?s1) ((idx ?s2)(e := -1))"
      using d len e s2(2) by (simp add: indexed_def)
    then show ?thesis
      using s2 heap_butlast[OF h] out e by (auto simp: split)
  qed
  have "mset (e # els ?s2) = mset (els s)" using res by simp
  then have set: "set (els s) = insert e (set (els ?s2))"
    by (metis list.simps(15) mset_eq_setD)
  have t: "els t = els ?s2" "hn t = hn ?s2" "ha t = ha ?s2" "hp t = hp ?s2" "idx t = (idx ?s2)(e := -1)"
    by (simp_all add: t_def els_def)
  have "idx t x = -1" if "x \<notin> set (els t)" for x
    using that res set by (cases "x = e") (auto simp: t)
  then show ?thesis
    using res cap i by (auto simp: heap_inv_def t)
qed


lemma pop_take_out:
  "min_heap_pop tm s = (if hn s \<noteq> 0 then
     (Some (hp s ! 0), (take_out tm 0 s)\<lparr>idx := (idx (take_out tm 0 s))(hp s ! 0 := -1)\<rparr>) else (None, s))"
  by (simp add: min_heap_pop_def take_out_def Let_def)

lemma erase_take_out:
  "min_heap_erase tm e s = (if idx s e \<noteq> -1 then
     (True, (take_out tm (nat (idx s e)) s)\<lparr>idx := (idx (take_out tm (nat (idx s e)) s))(e := -1)\<rparr>) else (False, s))"
  by (simp add: min_heap_erase_def take_out_def Let_def)

lemma pop_inv:
  assumes inv: "heap_inv tm s" and ne: "hn s \<noteq> 0"
  shows "\<exists>e s'. min_heap_pop tm s = (Some e, s') \<and> heap_inv tm s' \<and> mset (els s') + {#e#} = mset (els s) \<and>
    hn s' + 1 = hn s \<and> (\<forall>x \<in> events s. le tm e x)"
proof -
  have e: "hp s ! 0 = els s ! 0" using ne by (simp add: els_def)
  have "le tm (els s ! 0) x" if "x \<in> events s" for x
    using that inv heap_least[of tm "els s"] by (auto simp: events_def in_set_conv_nth heap_inv_def)
  then show ?thesis
    using take_out_inv[OF inv, of 0] ne unfolding pop_take_out e by auto
qed

lemma erase_inv:
  assumes inv: "heap_inv tm s" and e: "e \<in> events s"
  shows "\<exists>s'. min_heap_erase tm e s = (True, s') \<and> heap_inv tm s' \<and> mset (els s') + {#e#} = mset (els s)"
proof -
  have i: "nat (idx s e) < hn s" "els s ! nat (idx s e) = e" and "idx s e \<noteq> -1"
    using idx_els[OF inv, of e] e by (auto simp: events_def)
  then show ?thesis
    using take_out_inv[OF inv i(1)] unfolding erase_take_out i(2) by auto
qed

section \<open>The contract of a priority queue\<close>

text \<open>
  What the event loop asks of its timers: items are put in, any item can be taken out, and
  the top is one that none comes before. A client that takes items off the top until the
  queue is empty gets them in order.
\<close>

locale priority_queue =
  fixes inv :: "'s \<Rightarrow> bool"
    and contents :: "'s \<Rightarrow> 'e multiset"
    and before :: "'e \<Rightarrow> 'e \<Rightarrow> bool"
    and insert_item :: "'e \<Rightarrow> 's \<Rightarrow> 's option"
    and delete_item :: "'e \<Rightarrow> 's \<Rightarrow> 's"
    and pop_item :: "'s \<Rightarrow> 'e option \<times> 's"
  assumes before_trans: "before x y \<Longrightarrow> before y z \<Longrightarrow> before x z"
    and inv_insert: "inv s \<Longrightarrow> x \<notin># contents s \<Longrightarrow> insert_item x s = Some s' \<Longrightarrow>
      inv s' \<and> contents s' = add_mset x (contents s)"
    and inv_delete: "inv s \<Longrightarrow> x \<in># contents s \<Longrightarrow> inv (delete_item x s) \<and> contents (delete_item x s) = contents s - {#x#}"
    and inv_pop: "inv s \<Longrightarrow> contents s \<noteq> {#} \<Longrightarrow> \<exists>x s'. pop_item s = (Some x, s') \<and> inv s' \<and>
      contents s' = contents s - {#x#} \<and> x \<in># contents s \<and> (\<forall>y \<in># contents s. before x y)"
begin

primrec drain :: "nat \<Rightarrow> 's \<Rightarrow> 'e list \<times> 's" where
  "drain 0 s = ([], s)"
| "drain (Suc n) s =
    (case pop_item s of (None, s') \<Rightarrow> ([], s') | (Some x, s') \<Rightarrow> (let (xs, t) = drain n s' in (x # xs, t)))"

lemma drain_sorted:
  "inv s \<Longrightarrow> size (contents s) = n \<Longrightarrow> drain n s = (xs, t) \<Longrightarrow>
    mset xs = contents s \<and> sorted_wrt before xs \<and> inv t \<and> contents t = {#}"
proof (induction n arbitrary: s xs)
  case (Suc n)
  then have "contents s \<noteq> {#}" by auto
  from inv_pop[OF Suc.prems(1) this] obtain x s' where p: "pop_item s = (Some x, s')" "inv s'"
    "contents s' = contents s - {#x#}" "x \<in># contents s" "\<forall>y \<in># contents s. before x y" by blast
  then have "size (contents s') = n" using Suc.prems(2) by (simp add: size_Diff_singleton)
  moreover obtain ys where ys: "drain n s' = (ys, t)" "xs = x # ys"
    using Suc.prems(3) p(1) by (auto split: prod.splits)
  ultimately have IH: "mset ys = contents s'" "sorted_wrt before ys" "inv t" "contents t = {#}"
    using Suc.IH[OF p(2) _ ys(1)] by auto
  have "before x y" if "y \<in> set ys" for y
    using that p(3,5) IH(1) by (metis in_diffD set_mset_mset)
  then show ?case
    using IH ys(2) p(3,4) by simp
qed auto

primrec fill :: "'e list \<Rightarrow> 's \<Rightarrow> 's option" where
  "fill [] s = Some s"
| "fill (x # xs) s = (case insert_item x s of None \<Rightarrow> None | Some s' \<Rightarrow> fill xs s')"

lemma fill_contents:
  "inv s \<Longrightarrow> distinct xs \<Longrightarrow> set xs \<inter> set_mset (contents s) = {} \<Longrightarrow> fill xs s = Some s' \<Longrightarrow>
    inv s' \<and> contents s' = contents s + mset xs"
proof (induction xs arbitrary: s)
  case (Cons x xs)
  obtain s1 where s1: "insert_item x s = Some s1" "fill xs s1 = Some s'"
    using Cons.prems(4) by (auto split: option.splits)
  then have "inv s1" "contents s1 = add_mset x (contents s)"
    using inv_insert[of s x s1] Cons.prems by auto
  then show ?case
    using Cons.IH[OF _ _ _ s1(2)] Cons.prems by auto
qed auto

end

interpretation timers: priority_queue "heap_inv tm" "\<lambda>s. mset (els s)" "le tm"
    "min_heap_push tm True" "\<lambda>e s. snd (min_heap_erase tm e s)" "min_heap_pop tm" for tm
proof unfold_locales
  show "heap_inv tm s' \<and> mset (els s') = add_mset x (mset (els s))"
    if "heap_inv tm s" "x \<notin># mset (els s)" "min_heap_push tm True x s = Some s'" for s x s'
    using push_inv[of tm s x True s'] that by (simp add: events_def)
  show "heap_inv tm (snd (min_heap_erase tm x s)) \<and> mset (els (snd (min_heap_erase tm x s))) = mset (els s) - {#x#}"
    if "heap_inv tm s" "x \<in># mset (els s)" for s x
    using erase_inv[of tm s x] that by (auto simp: events_def) (metis add_mset_remove_trivial)
  show "\<exists>x s'. min_heap_pop tm s = (Some x, s') \<and> heap_inv tm s' \<and> mset (els s') = mset (els s) - {#x#} \<and>
      x \<in># mset (els s) \<and> (\<forall>y \<in># mset (els s). le tm x y)"
    if "heap_inv tm s" "mset (els s) \<noteq> {#}" for s
  proof -
    have "hn s \<noteq> 0" using that length_els[OF that(1)] by (metis length_0_conv mset_zero_iff)
    from pop_inv[OF that(1) this] obtain e s' where p: "min_heap_pop tm s = (Some e, s')" "heap_inv tm s'"
      "mset (els s') + {#e#} = mset (els s)" "\<forall>x \<in> events s. le tm e x" by blast
    then have "mset (els s') = mset (els s) - {#e#}" "e \<in># mset (els s)"
      by (metis add_mset_add_single add_mset_remove_trivial) (metis p(3) union_single_eq_member add_mset_add_single)
    then show ?thesis using p by (auto simp: events_def)
  qed
qed (rule le_trans)


section \<open>Properties\<close>

text \<open>
  C28. Every operation keeps the heap: the order of the array, distinct events, each event in it
  knowing its index and every other one -1. A push adds its event unless the allocation
  fails, a pop takes out an event that none comes before, an erase takes out exactly the
  event it names, wherever it stands, and does nothing for an event that is not in the heap.
\<close>

theorem heap_operations:
  assumes "heap_inv tm s"
  shows "(e \<notin> events s \<longrightarrow> (case min_heap_push tm r e s of
        None \<Rightarrow> \<not> r \<and> ha s = hn s
      | Some s' \<Rightarrow> heap_inv tm s' \<and> mset (els s') = add_mset e (mset (els s)))) \<and>
    (case min_heap_pop tm s of
        (None, s') \<Rightarrow> min_heap_empty s \<and> s' = s
      | (Some x, s') \<Rightarrow> heap_inv tm s' \<and> add_mset x (mset (els s')) = mset (els s) \<and> (\<forall>y \<in> events s. le tm x y)) \<and>
    (case min_heap_erase tm e s of
        (True, s') \<Rightarrow> e \<in> events s \<and> heap_inv tm s' \<and> add_mset e (mset (els s')) = mset (els s)
      | (False, s') \<Rightarrow> e \<notin> events s \<and> s' = s)"
proof (intro conjI impI)
  assume e: "e \<notin> events s"
  have cap: "hn s \<le> ha s" using assms by (simp add: heap_inv_def)
  show "case min_heap_push tm r e s of None \<Rightarrow> \<not> r \<and> ha s = hn s
      | Some s' \<Rightarrow> heap_inv tm s' \<and> mset (els s') = add_mset e (mset (els s))"
    using push_inv[OF assms e] cap
    by (auto simp: min_heap_push_def min_heap_reserve_def Let_def split: option.split if_splits)
next
  show "case min_heap_pop tm s of (None, s') \<Rightarrow> min_heap_empty s \<and> s' = s
      | (Some x, s') \<Rightarrow> heap_inv tm s' \<and> add_mset x (mset (els s')) = mset (els s) \<and> (\<forall>y \<in> events s. le tm x y)"
    using pop_inv[OF assms] by (cases "hn s = 0") (auto simp: pop_take_out min_heap_empty_def)
next
  show "case min_heap_erase tm e s of (True, s') \<Rightarrow> e \<in> events s \<and> heap_inv tm s' \<and> add_mset e (mset (els s')) = mset (els s)
      | (False, s') \<Rightarrow> e \<notin> events s \<and> s' = s"
    using erase_inv[OF assms, of e] idx_iff[OF assms, of e]
    by (cases "e \<in> events s") (auto simp: min_heap_erase_def)
qed

definition sample_timeouts :: timeouts where
  "sample_timeouts e = \<lparr>t_sec = int (10 - e), t_usec = 0\<rparr>"

theorem heap_operations_witness:
  "\<exists>s. min_heap_push sample_timeouts True 3 (min_heap_ctor (\<lambda>_. -1)) = Some s \<and> events s = {3} \<and>
    fst (min_heap_erase sample_timeouts 3 s)"
proof -
  have new: "events (min_heap_ctor (\<lambda>_. -1)) = {}"
    by (simp add: events_def els_def min_heap_ctor_def)
  obtain s where s: "min_heap_push sample_timeouts True 3 (min_heap_ctor (\<lambda>_. -1)) = Some s"
    by (simp add: min_heap_push_def min_heap_reserve_def Let_def min_heap_ctor_def)
  have "heap_inv sample_timeouts s" "mset (els s) = {#3#}"
    using heap_operations[OF heap_inv_ctor, where tm = sample_timeouts and e = 3 and r = True] s new
    by (auto simp: els_def min_heap_ctor_def)
  then have ev: "events s = {3}" and "heap_inv sample_timeouts s"
    by (simp_all add: events_def flip: set_mset_mset)
  then have "fst (min_heap_erase sample_timeouts 3 s)"
    using heap_operations[where tm = sample_timeouts and s = s and e = 3 and r = True] by (auto split: prod.splits bool.splits)
  then show ?thesis using s ev by blast
qed

text \<open>
  C29. Timers pushed in any order into a new heap and popped until it is empty come out in the
  order of their timeouts, each once.
\<close>

theorem timers_sorted:
  assumes "distinct es" and "timers.fill tm es (min_heap_ctor (\<lambda>_. -1)) = Some s"
    and "timers.drain tm (length es) s = (xs, t)"
  shows "mset xs = mset es \<and> sorted_wrt (le tm) xs \<and> min_heap_empty t"
proof -
  have 0: "mset (els (min_heap_ctor (\<lambda>_. -1))) = {#}"
    by (simp add: els_def min_heap_ctor_def)
  have s: "heap_inv tm s" "mset (els s) = mset es"
    using timers.fill_contents[OF heap_inv_ctor assms(1) _ assms(2)] 0 by auto
  then have xs: "mset xs = mset es" "sorted_wrt (le tm) xs" "heap_inv tm t" "mset (els t) = {#}"
    using timers.drain_sorted[OF s(1) _ assms(3)] by auto
  then show ?thesis
    using length_els[OF xs(3)] by (simp add: min_heap_empty_def)
qed

theorem timers_sorted_witness:
  "\<exists>s xs t. timers.fill sample_timeouts [4, 9, 1, 7] (min_heap_ctor (\<lambda>_. -1)) = Some s \<and>
    timers.drain sample_timeouts (length [4, 9, 1, 7 :: nat]) s = (xs, t) \<and> mset xs = mset [4, 9, 1, 7] \<and> sorted_wrt (le sample_timeouts) xs"
proof -
  have "min_heap_push tm True e s \<noteq> None" for tm e s
    by (simp add: min_heap_push_def min_heap_reserve_def Let_def)
  then have "timers.fill tm xs s \<noteq> None" for tm xs s
    by (induction xs arbitrary: s) (auto split: option.split)
  then obtain s where s: "timers.fill sample_timeouts [4, 9, 1, 7] (min_heap_ctor (\<lambda>_. -1)) = Some s"
    by blast
  obtain xs t where d: "timers.drain sample_timeouts (length [4, 9, 1, 7 :: nat]) s = (xs, t)"
    by fastforce
  have "distinct [4, 9, 1, 7 :: nat]" by simp
  from timers_sorted[OF this s d] s d show ?thesis by blast
qed

end
