(* ===== verification/JsonValue.thy ===== *)
theory JsonValue imports Prelude "HOL-Library.Char_ord" "HOL-Library.List_Lexorder" begin

text \<open>
  The values of jsoncpp (\<open>json_value.cpp\<close>): the tagged union \<open>Json::Value\<close>, the keys of its
  maps, and its operations. A failed assertion and a thrown exception are both \<open>None\<close>; a
  reference that an operation returns is given with the value as it is after the call.
  Comments attached to values are not modelled. Doubles are a type parameter.
\<close>

unbundle bit_operations_syntax

section \<open>C strings\<close>

text \<open>The characters that a \<open>char *\<close> reaches, and \<open>strcmp\<close> of two such strings.\<close>

definition c_str :: "string \<Rightarrow> string" where
  "c_str s = takeWhile (\<lambda>c. c \<noteq> CHR 0x00) s"

fun strcmp :: "string \<Rightarrow> string \<Rightarrow> int" where
  "strcmp [] [] = 0"
| "strcmp [] (y # ys) = - int (uc y)"
| "strcmp (x # xs) [] = int (uc x)"
| "strcmp (x # xs) (y # ys) = (if x = y then strcmp xs ys else int (uc x) - int (uc y))"

definition nul_free :: "string \<Rightarrow> bool" where
  "nul_free s \<longleftrightarrow> CHR 0x00 \<notin> set s"

lemma nul_free_simps [simp]:
  "nul_free []" "nul_free (c # s) \<longleftrightarrow> c \<noteq> CHR 0x00 \<and> nul_free s"
  "nul_free (s @ t) \<longleftrightarrow> nul_free s \<and> nul_free t"
  by (auto simp: nul_free_def)

lemma c_str_nul_free [simp]: "nul_free s \<Longrightarrow> c_str s = s"
  by (induction s) (auto simp: c_str_def)

lemma nul_free_c_str [simp]: "nul_free (c_str s)"
  by (auto simp: nul_free_def c_str_def dest: set_takeWhileD)

lemma uc_eq_0: "uc c = 0 \<longleftrightarrow> c = CHR 0x00"
  using uc_inj[of c "CHR 0x00"] by simp

lemma uc_pos [simp]: "c \<noteq> CHR 0x00 \<Longrightarrow> 0 < uc c"
  using uc_eq_0[of c] by simp

lemma less_char_uc: "a < b \<longleftrightarrow> uc a < uc b"
  by (simp add: less_char_def uc_def)

text \<open>\<open>strcmp\<close> is the lexicographic order of the bytes.\<close>

lemma strcmp_less: "nul_free s \<Longrightarrow> nul_free t \<Longrightarrow> strcmp s t < 0 \<longleftrightarrow> s < t"
  by (induction s t rule: strcmp.induct) (auto simp: less_char_uc)

lemma strcmp_eq: "nul_free s \<Longrightarrow> nul_free t \<Longrightarrow> strcmp s t = 0 \<longleftrightarrow> s = t"
  by (induction s t rule: strcmp.induct) auto

section \<open>The keys of a map\<close>

text \<open>
  \<open>CZString\<close>: an index of an array or the name of a member. One map holds keys of one kind
  only; the order puts indices before names, to be total.
\<close>

datatype (discs_sels) czstring = Index int | Cstr string

instantiation czstring :: linorder
begin

fun less_czstring :: "czstring \<Rightarrow> czstring \<Rightarrow> bool" where
  "Index i < Index j \<longleftrightarrow> i < j"
| "Index i < Cstr t \<longleftrightarrow> True"
| "Cstr s < Index j \<longleftrightarrow> False"
| "Cstr s < Cstr t \<longleftrightarrow> s < t"

definition less_eq_czstring :: "czstring \<Rightarrow> czstring \<Rightarrow> bool" where
  "a \<le> b \<longleftrightarrow> a = b \<or> a < (b :: czstring)"

instance
proof
  fix a b c :: czstring
  show "a < b \<longleftrightarrow> a \<le> b \<and> \<not> b \<le> a"
    by (cases a; cases b) (auto simp: less_eq_czstring_def)
  show "a \<le> a" by (simp add: less_eq_czstring_def)
  show "a \<le> b \<Longrightarrow> b \<le> c \<Longrightarrow> a \<le> c"
    by (cases a; cases b; cases c) (auto simp: less_eq_czstring_def)
  show "a \<le> b \<Longrightarrow> b \<le> a \<Longrightarrow> a = b"
    by (cases a; cases b) (auto simp: less_eq_czstring_def)
  show "a \<le> b \<or> b \<le> a"
    by (cases a; cases b) (auto simp: less_eq_czstring_def)
qed

end

text \<open>The comparison as the code has it, on keys of one kind.\<close>

fun czstring_less :: "czstring \<Rightarrow> czstring \<Rightarrow> bool" where
  "czstring_less (Cstr s) (Cstr t) = (strcmp s t < 0)"
| "czstring_less (Index i) (Index j) = (i < j)"
| "czstring_less _ _ = False"

fun key_ok :: "czstring \<Rightarrow> bool" where
  "key_ok (Index i) = True"
| "key_ok (Cstr s) = nul_free s"

lemma czstring_less_order:
  "key_ok a \<Longrightarrow> key_ok b \<Longrightarrow> is_Index a = is_Index b \<Longrightarrow> czstring_less a b \<longleftrightarrow> a < b"
  by (cases a; cases b) (auto simp: strcmp_less)

section \<open>Ordered maps\<close>

text \<open>
  \<open>std::map\<close> as the list of its pairs in the order of the keys: the insertion at the place
  that \<open>lower_bound\<close> finds, which also overwrites through the reference of a present key.
\<close>

fun map_put :: "'k::linorder \<Rightarrow> 'v \<Rightarrow> ('k \<times> 'v) list \<Rightarrow> ('k \<times> 'v) list" where
  "map_put k x [] = [(k, x)]"
| "map_put k x (p # m) =
    (if fst p < k then p # map_put k x m
     else if fst p = k then (k, x) # m
     else (k, x) # p # m)"

definition map_erase :: "'k \<Rightarrow> ('k \<times> 'v) list \<Rightarrow> ('k \<times> 'v) list" where
  "map_erase k m = filter (\<lambda>p. fst p \<noteq> k) m"

abbreviation ordered :: "('k::linorder \<times> 'v) list \<Rightarrow> bool" where
  "ordered m \<equiv> sorted_wrt (<) (map fst m)"

lemma map_of_map_put: "ordered m \<Longrightarrow> map_of (map_put k x m) = (map_of m)(k \<mapsto> x)"
proof (induction m)
  case (Cons p m)
  have "fst p \<noteq> k \<and> k < fst p \<Longrightarrow> map_of m k = None"
    using Cons.prems by (force simp: map_of_eq_None_iff)
  with Cons show ?case
    by (cases p) (auto simp: fun_eq_iff)
qed simp

lemma fst_map_put: "fst ` set (map_put k x m) = insert k (fst ` set m)"
  by (induction m) (auto split: if_splits)

lemma ordered_map_put: "ordered m \<Longrightarrow> ordered (map_put k x m)"
proof (induction m)
  case (Cons p m)
  then show ?case
    using fst_map_put[of k x m] by (cases p) force
qed simp

lemma map_put_last: "\<forall>p\<in>set m. fst p < k \<Longrightarrow> map_put k x m = m @ [(k, x)]"
  by (induction m) auto

lemma map_of_map_erase: "map_of (map_erase k m) = (map_of m)(k := None)"
  by (induction m) (auto simp: map_erase_def fun_eq_iff)

lemma ordered_map_erase: "ordered m \<Longrightarrow> ordered (map_erase k m)"
  by (induction m) (auto simp: map_erase_def)

text \<open>The contract of a map, as the values rely on it.\<close>

locale finite_map =
  fixes lookup :: "'m \<Rightarrow> 'k \<Rightarrow> 'v option"
    and put :: "'k \<Rightarrow> 'v \<Rightarrow> 'm \<Rightarrow> 'm"
    and erase :: "'k \<Rightarrow> 'm \<Rightarrow> 'm"
    and fresh :: 'm
    and good :: "'m \<Rightarrow> bool"
  assumes good_fresh: "good fresh"
    and lookup_fresh: "lookup fresh k = None"
    and good_put: "good m \<Longrightarrow> good (put k x m)"
    and lookup_put: "good m \<Longrightarrow> lookup (put k x m) = (lookup m)(k \<mapsto> x)"
    and good_erase: "good m \<Longrightarrow> good (erase k m)"
    and lookup_erase: "good m \<Longrightarrow> lookup (erase k m) = (lookup m)(k := None)"
begin

lemma get_put: "good m \<Longrightarrow> lookup (put k x m) k' = (if k' = k then Some x else lookup m k')"
  by (simp add: lookup_put)

lemma put_same: "good m \<Longrightarrow> lookup m k = Some x \<Longrightarrow> lookup (put k x m) = lookup m"
  by (auto simp: lookup_put)

lemma erase_put: "good m \<Longrightarrow> lookup (erase k (put k x m)) = lookup (erase k m)"
  by (simp add: lookup_erase lookup_put good_put)

lemma put_put:
  "good m \<Longrightarrow> lookup (put k x (put k y m)) = lookup (put k x m)"
  by (simp add: lookup_put good_put)

text \<open>What a reader gets that inserts members one after the other.\<close>

lemma fold_put: "good m \<Longrightarrow>
    good (fold (\<lambda>(k, x). put k x) ps m) \<and> lookup (fold (\<lambda>(k, x). put k x) ps m) = lookup m ++ map_of (rev ps)"
  by (induction ps arbitrary: m) (auto simp: lookup_put good_put map_add_def fun_eq_iff split: option.split)

end

interpretation members: finite_map map_of map_put map_erase "[]" "\<lambda>m. ordered m"
  by unfold_locales (simp_all add: map_of_map_put ordered_map_put map_of_map_erase ordered_map_erase)

section \<open>Values\<close>

text \<open>
  The operations on doubles that the library uses: the constant zero, the conversions from
  and to integers, the comparisons, \<open>sscanf\<close> and \<open>sprintf\<close> of one number.
\<close>

record 'd doubles =
  d_zero :: 'd
  d_of_int :: "int \<Rightarrow> 'd"
  d_trunc :: "'d \<Rightarrow> int"
  d_less :: "'d \<Rightarrow> 'd \<Rightarrow> bool"
  d_le :: "'d \<Rightarrow> 'd \<Rightarrow> bool"
  d_eq :: "'d \<Rightarrow> 'd \<Rightarrow> bool"
  d_scan :: "string \<Rightarrow> 'd option"
  d_print :: "'d \<Rightarrow> string"

text \<open>A string value may hold the null pointer, as \<open>Value( stringValue )\<close> makes it.\<close>

datatype 'd jvalue =
    nullValue
  | intValue "32 word"
  | uintValue "32 word"
  | realValue 'd
  | stringValue "string option"
  | booleanValue bool
  | arrayValue "(czstring \<times> 'd jvalue) list"
  | objectValue "(czstring \<times> 'd jvalue) list"

datatype value_type =
  T_null | T_int | T_uint | T_real | T_string | T_boolean | T_array | T_object

fun vtype :: "'d jvalue \<Rightarrow> value_type" where
  "vtype nullValue = T_null"
| "vtype (intValue _) = T_int"
| "vtype (uintValue _) = T_uint"
| "vtype (realValue _) = T_real"
| "vtype (stringValue _) = T_string"
| "vtype (booleanValue _) = T_boolean"
| "vtype (arrayValue _) = T_array"
| "vtype (objectValue _) = T_object"

text \<open>\<open>Value( ValueType )\<close>.\<close>

fun new_value :: "'d doubles \<Rightarrow> value_type \<Rightarrow> 'd jvalue" where
  "new_value D T_null = nullValue"
| "new_value D T_int = intValue 0"
| "new_value D T_uint = uintValue 0"
| "new_value D T_real = realValue (d_zero D)"
| "new_value D T_string = stringValue None"
| "new_value D T_boolean = booleanValue False"
| "new_value D T_array = arrayValue []"
| "new_value D T_object = objectValue []"

definition minInt :: "32 word" where "minInt = NOT (- 1 div 2)"
definition maxInt :: "32 word" where "maxInt = - 1 div 2"
definition maxUInt :: "32 word" where "maxUInt = - 1"

lemma sint_minInt: "sint minInt = - 2147483648" and sint_maxInt: "sint maxInt = 2147483647"
  and uint_maxInt: "uint maxInt = 2147483647" and uint_maxUInt: "uint maxUInt = 4294967295"
  by (simp_all add: minInt_def maxInt_def maxUInt_def unsigned_minus_1_eq_mask mask_eq_exp_minus_1)

subsection \<open>Conversions\<close>

fun asCString :: "'d jvalue \<Rightarrow> string option option" where
  "asCString (stringValue s) = Some s"
| "asCString _ = None"

fun asString :: "'d jvalue \<Rightarrow> string option" where
  "asString nullValue = Some []"
| "asString (stringValue s) = Some (case s of Some t \<Rightarrow> c_str t | None \<Rightarrow> [])"
| "asString (booleanValue b) = Some (if b then ''true'' else ''false'')"
| "asString _ = None"

fun asInt :: "'d doubles \<Rightarrow> 'd jvalue \<Rightarrow> 32 word option" where
  "asInt D nullValue = Some 0"
| "asInt D (intValue i) = Some i"
| "asInt D (uintValue u) = (if u < maxInt then Some u else None)"
| "asInt D (realValue r) =
    (if d_le D (d_of_int D (sint minInt)) r \<and> d_le D r (d_of_int D (sint maxInt))
     then Some (word_of_int (d_trunc D r)) else None)"
| "asInt D (booleanValue b) = Some (if b then 1 else 0)"
| "asInt D _ = None"

fun asUInt :: "'d doubles \<Rightarrow> 'd jvalue \<Rightarrow> 32 word option" where
  "asUInt D nullValue = Some 0"
| "asUInt D (intValue i) = (if sint i \<ge> 0 then Some i else None)"
| "asUInt D (uintValue u) = Some u"
| "asUInt D (realValue r) =
    (if d_le D (d_of_int D 0) r \<and> d_le D r (d_of_int D (uint maxUInt))
     then Some (word_of_int (d_trunc D r)) else None)"
| "asUInt D (booleanValue b) = Some (if b then 1 else 0)"
| "asUInt D _ = None"

fun asDouble :: "'d doubles \<Rightarrow> 'd jvalue \<Rightarrow> 'd option" where
  "asDouble D nullValue = Some (d_zero D)"
| "asDouble D (intValue i) = Some (d_of_int D (sint i))"
| "asDouble D (uintValue u) = Some (d_of_int D (uint u))"
| "asDouble D (realValue r) = Some r"
| "asDouble D (booleanValue b) = Some (d_of_int D (if b then 1 else 0))"
| "asDouble D _ = None"

fun asBool :: "'d doubles \<Rightarrow> 'd jvalue \<Rightarrow> bool" where
  "asBool D nullValue = False"
| "asBool D (intValue i) = (i \<noteq> 0)"
| "asBool D (uintValue u) = (u \<noteq> 0)"
| "asBool D (realValue r) = (\<not> d_eq D r (d_zero D))"
| "asBool D (booleanValue b) = b"
| "asBool D (stringValue s) = (case s of Some t \<Rightarrow> c_str t \<noteq> [] | None \<Rightarrow> False)"
| "asBool D (arrayValue m) = (m \<noteq> [])"
| "asBool D (objectValue m) = (m \<noteq> [])"

fun isConvertibleTo :: "'d doubles \<Rightarrow> 'd jvalue \<Rightarrow> value_type \<Rightarrow> bool" where
  "isConvertibleTo D nullValue t = True"
| "isConvertibleTo D (intValue i) t =
    (t = T_null \<and> i = 0 \<or> t = T_int \<or> t = T_uint \<and> sint i \<ge> 0 \<or> t = T_real \<or> t = T_string \<or> t = T_boolean)"
| "isConvertibleTo D (uintValue u) t =
    (t = T_null \<and> u = 0 \<or> t = T_int \<and> u \<le> maxInt \<or> t = T_uint \<or> t = T_real \<or> t = T_string \<or> t = T_boolean)"
| "isConvertibleTo D (realValue r) t =
    (t = T_null \<and> d_eq D r (d_zero D)
     \<or> t = T_int \<and> d_le D (d_of_int D (sint minInt)) r \<and> d_le D r (d_of_int D (sint maxInt))
     \<or> t = T_uint \<and> d_le D (d_of_int D 0) r \<and> d_le D r (d_of_int D (uint maxUInt))
     \<or> t = T_real \<or> t = T_string \<or> t = T_boolean)"
| "isConvertibleTo D (booleanValue b) t =
    (t = T_null \<and> b = False \<or> t = T_int \<or> t = T_uint \<or> t = T_real \<or> t = T_string \<or> t = T_boolean)"
| "isConvertibleTo D (stringValue s) t =
    (t = T_string \<or> t = T_null \<and> (case s of Some x \<Rightarrow> c_str x = [] | None \<Rightarrow> True))"
| "isConvertibleTo D (arrayValue m) t = (t = T_array \<or> t = T_null \<and> m = [])"
| "isConvertibleTo D (objectValue m) t = (t = T_object \<or> t = T_null \<and> m = [])"

subsection \<open>Predicates\<close>

definition isNull :: "'d jvalue \<Rightarrow> bool" where "isNull v \<longleftrightarrow> vtype v = T_null"
definition isBool :: "'d jvalue \<Rightarrow> bool" where "isBool v \<longleftrightarrow> vtype v = T_boolean"
definition isInt :: "'d jvalue \<Rightarrow> bool" where "isInt v \<longleftrightarrow> vtype v = T_int"
definition isUInt :: "'d jvalue \<Rightarrow> bool" where "isUInt v \<longleftrightarrow> vtype v = T_uint"
definition isIntegral :: "'d jvalue \<Rightarrow> bool" where
  "isIntegral v \<longleftrightarrow> vtype v = T_int \<or> vtype v = T_uint \<or> vtype v = T_boolean"
definition isDouble :: "'d jvalue \<Rightarrow> bool" where "isDouble v \<longleftrightarrow> vtype v = T_real"
definition isNumeric :: "'d jvalue \<Rightarrow> bool" where "isNumeric v \<longleftrightarrow> isIntegral v \<or> isDouble v"
definition isString :: "'d jvalue \<Rightarrow> bool" where "isString v \<longleftrightarrow> vtype v = T_string"
definition isArray :: "'d jvalue \<Rightarrow> bool" where "isArray v \<longleftrightarrow> vtype v = T_null \<or> vtype v = T_array"
definition isObject :: "'d jvalue \<Rightarrow> bool" where "isObject v \<longleftrightarrow> vtype v = T_null \<or> vtype v = T_object"

subsection \<open>Arrays and objects\<close>

fun vsize :: "'d jvalue \<Rightarrow> 32 word" where
  "vsize (arrayValue m) = (if m = [] then 0 else (case fst (last m) of Index i \<Rightarrow> word_of_int (i + 1) | Cstr _ \<Rightarrow> 0))"
| "vsize (objectValue m) = word_of_nat (length m)"
| "vsize _ = 0"

definition vempty :: "'d jvalue \<Rightarrow> bool" where
  "vempty v = (if isNull v \<or> isArray v \<or> isObject v then vsize v = 0 else False)"

fun clear :: "'d jvalue \<Rightarrow> 'd jvalue option" where
  "clear nullValue = Some nullValue"
| "clear (arrayValue m) = Some (arrayValue [])"
| "clear (objectValue m) = Some (objectValue [])"
| "clear _ = None"

definition ikey :: "32 word \<Rightarrow> czstring" where "ikey i = Index (sint i)"
definition skey :: "string \<Rightarrow> czstring" where "skey k = Cstr (c_str k)"

text \<open>The reference a map gives, inserting a null value under a key it does not have.\<close>

definition resolve :: "czstring \<Rightarrow> (czstring \<times> 'd jvalue) list \<Rightarrow> 'd jvalue \<times> (czstring \<times> 'd jvalue) list" where
  "resolve k m = (case map_of m k of Some x \<Rightarrow> (x, m) | None \<Rightarrow> (nullValue, map_put k nullValue m))"

text \<open>The non-constant \<open>operator[]\<close>: the element, and the value that now has it.\<close>

fun index_ref :: "32 word \<Rightarrow> 'd jvalue \<Rightarrow> ('d jvalue \<times> 'd jvalue) option" where
  "index_ref i nullValue = Some (map_prod id arrayValue (resolve (ikey i) []))"
| "index_ref i (arrayValue m) = Some (map_prod id arrayValue (resolve (ikey i) m))"
| "index_ref i _ = None"

fun resolveReference :: "string \<Rightarrow> 'd jvalue \<Rightarrow> ('d jvalue \<times> 'd jvalue) option" where
  "resolveReference k nullValue = Some (map_prod id objectValue (resolve (skey k) []))"
| "resolveReference k (objectValue m) = Some (map_prod id objectValue (resolve (skey k) m))"
| "resolveReference k _ = None"

text \<open>An assignment through the reference to the element under a key.\<close>

fun store_key :: "czstring \<Rightarrow> 'd jvalue \<Rightarrow> 'd jvalue \<Rightarrow> 'd jvalue" where
  "store_key k x (arrayValue m) = arrayValue (map_put k x m)"
| "store_key k x (objectValue m) = objectValue (map_put k x m)"
| "store_key k x v = v"

text \<open>
  The constant \<open>operator[]\<close>: the element, or \<open>None\<close> for the address of the static null
  value, which \<open>get\<close> and \<open>isMember\<close> tell from an element that is null.
\<close>

fun index_find :: "32 word \<Rightarrow> 'd jvalue \<Rightarrow> 'd jvalue option option" where
  "index_find i nullValue = Some None"
| "index_find i (arrayValue m) = Some (map_of m (ikey i))"
| "index_find i _ = None"

fun member_find :: "string \<Rightarrow> 'd jvalue \<Rightarrow> 'd jvalue option option" where
  "member_find k nullValue = Some None"
| "member_find k (objectValue m) = Some (map_of m (skey k))"
| "member_find k _ = None"

definition or_null :: "'d jvalue option \<Rightarrow> 'd jvalue" where
  "or_null x = (case x of Some v \<Rightarrow> v | None \<Rightarrow> nullValue)"

definition get_index :: "32 word \<Rightarrow> 'd jvalue \<Rightarrow> 'd jvalue \<Rightarrow> 'd jvalue option" where
  "get_index i dflt v = map_option (\<lambda>x. case x of Some y \<Rightarrow> y | None \<Rightarrow> dflt) (index_find i v)"

definition get_member :: "string \<Rightarrow> 'd jvalue \<Rightarrow> 'd jvalue \<Rightarrow> 'd jvalue option" where
  "get_member k dflt v = map_option (\<lambda>x. case x of Some y \<Rightarrow> y | None \<Rightarrow> dflt) (member_find k v)"

definition isValidIndex :: "32 word \<Rightarrow> 'd jvalue \<Rightarrow> bool" where
  "isValidIndex i v \<longleftrightarrow> i < vsize v"

definition isMember :: "string \<Rightarrow> 'd jvalue \<Rightarrow> bool option" where
  "isMember k v = map_option (\<lambda>x. x \<noteq> None) (member_find k v)"

definition append_value :: "'d jvalue \<Rightarrow> 'd jvalue \<Rightarrow> 'd jvalue option" where
  "append_value x v = map_option (\<lambda>(_, v'). store_key (ikey (vsize v)) x v') (index_ref (vsize v) v)"

text \<open>The member removed, null if there was none, and the value without it.\<close>

fun removeMember :: "string \<Rightarrow> 'd jvalue \<Rightarrow> ('d jvalue \<times> 'd jvalue) option" where
  "removeMember k nullValue = Some (nullValue, nullValue)"
| "removeMember k (objectValue m) =
    Some (case map_of m (skey k) of
        None \<Rightarrow> (nullValue, objectValue m)
      | Some old \<Rightarrow> (old, objectValue (map_erase (skey k) m)))"
| "removeMember k _ = None"

fun getMemberNames :: "'d jvalue \<Rightarrow> string list option" where
  "getMemberNames nullValue = Some []"
| "getMemberNames (objectValue m) = Some (map (\<lambda>p. case fst p of Cstr s \<Rightarrow> s | Index _ \<Rightarrow> []) m)"
| "getMemberNames _ = None"

text \<open>\<open>resize\<close>, with the assertion that ends the branch that shrinks the array.\<close>

fun erase_from :: "32 word \<Rightarrow> nat \<Rightarrow> (czstring \<times> 'd jvalue) list \<Rightarrow> (czstring \<times> 'd jvalue) list" where
  "erase_from i 0 m = m"
| "erase_from i (Suc n) m = erase_from (i + 1) n (map_erase (ikey i) m)"

definition resize_array :: "32 word \<Rightarrow> (czstring \<times> 'd jvalue) list \<Rightarrow> 'd jvalue option" where
  "resize_array newSize m =
    (let oldSize = vsize (arrayValue m) in
     if newSize = 0 then clear (arrayValue m)
     else if newSize > oldSize then map_option snd (index_ref (newSize - 1) (arrayValue m))
     else let v = arrayValue (erase_from newSize (unat oldSize - unat newSize) m) in
       if vsize v = newSize then Some v else None)"

fun resize :: "32 word \<Rightarrow> 'd jvalue \<Rightarrow> 'd jvalue option" where
  "resize newSize nullValue = resize_array newSize []"
| "resize newSize (arrayValue m) = resize_array newSize m"
| "resize newSize _ = None"

subsection \<open>Comparison\<close>

fun type_number :: "value_type \<Rightarrow> int" where
  "type_number T_null = 0" | "type_number T_int = 1" | "type_number T_uint = 2" | "type_number T_real = 3"
| "type_number T_string = 4" | "type_number T_boolean = 5" | "type_number T_array = 6"
| "type_number T_object = 7"

definition string_less :: "string option \<Rightarrow> string option \<Rightarrow> bool" where
  "string_less a b \<longleftrightarrow> a = None \<and> b \<noteq> None
     \<or> (case (b, a) of (Some t, Some s) \<Rightarrow> strcmp (c_str s) (c_str t) < 0 | _ \<Rightarrow> False)"

definition string_eq :: "string option \<Rightarrow> string option \<Rightarrow> bool" where
  "string_eq a b \<longleftrightarrow> a = b
     \<or> (case (b, a) of (Some t, Some s) \<Rightarrow> strcmp (c_str s) (c_str t) = 0 | _ \<Rightarrow> False)"

text \<open>
  \<open>operator<\<close> with the comparison of two maps, which is that of the sequences of their
  pairs; \<open>operator==\<close> with the equality of two maps of the same length.
\<close>

function value_less :: "'d doubles \<Rightarrow> 'd jvalue \<Rightarrow> 'd jvalue \<Rightarrow> bool"
and members_less :: "'d doubles \<Rightarrow> (czstring \<times> 'd jvalue) list \<Rightarrow> (czstring \<times> 'd jvalue) list \<Rightarrow> bool" where
  "value_less D nullValue b = (type_number T_null < type_number (vtype b))"
| "value_less D (intValue i) b = (case b of intValue j \<Rightarrow> sint i < sint j | _ \<Rightarrow> type_number T_int < type_number (vtype b))"
| "value_less D (uintValue i) b = (case b of uintValue j \<Rightarrow> i < j | _ \<Rightarrow> type_number T_uint < type_number (vtype b))"
| "value_less D (realValue r) b = (case b of realValue q \<Rightarrow> d_less D r q | _ \<Rightarrow> type_number T_real < type_number (vtype b))"
| "value_less D (booleanValue p) b = (case b of booleanValue q \<Rightarrow> \<not> p \<and> q | _ \<Rightarrow> type_number T_boolean < type_number (vtype b))"
| "value_less D (stringValue s) b = (case b of stringValue t \<Rightarrow> string_less s t | _ \<Rightarrow> type_number T_string < type_number (vtype b))"
| "value_less D (arrayValue m) b =
    (case b of arrayValue n \<Rightarrow>
        if length m \<noteq> length n then length m < length n else members_less D m n
      | _ \<Rightarrow> type_number T_array < type_number (vtype b))"
| "value_less D (objectValue m) b =
    (case b of objectValue n \<Rightarrow>
        if length m \<noteq> length n then length m < length n else members_less D m n
      | _ \<Rightarrow> type_number T_object < type_number (vtype b))"
| "members_less D [] [] = False"
| "members_less D [] (q # n) = True"
| "members_less D (p # m) [] = False"
| "members_less D ((k, x) # m) ((l, y) # n) =
    (if czstring_less k l \<or> \<not> czstring_less l k \<and> value_less D x y then True
     else if czstring_less l k \<or> \<not> czstring_less k l \<and> value_less D y x then False
     else members_less D m n)"
  by pat_completeness auto

termination value_less
  by (relation "measure (case_sum (\<lambda>(D, a, b). size a + size b)
      (\<lambda>(D, m, n). size_list (size_prod (\<lambda>_. 0) size) m + size_list (size_prod (\<lambda>_. 0) size) n))") auto

fun czstring_eq :: "czstring \<Rightarrow> czstring \<Rightarrow> bool" where
  "czstring_eq (Cstr s) (Cstr t) = (strcmp s t = 0)"
| "czstring_eq (Index i) (Index j) = (i = j)"
| "czstring_eq _ _ = False"

fun value_eq :: "'d doubles \<Rightarrow> 'd jvalue \<Rightarrow> 'd jvalue \<Rightarrow> bool"
and members_eq :: "'d doubles \<Rightarrow> (czstring \<times> 'd jvalue) list \<Rightarrow> (czstring \<times> 'd jvalue) list \<Rightarrow> bool" where
  "value_eq D nullValue b = (vtype b = T_null)"
| "value_eq D (intValue i) b = (case b of intValue j \<Rightarrow> i = j | _ \<Rightarrow> False)"
| "value_eq D (uintValue i) b = (case b of uintValue j \<Rightarrow> i = j | _ \<Rightarrow> False)"
| "value_eq D (realValue r) b = (case b of realValue q \<Rightarrow> d_eq D r q | _ \<Rightarrow> False)"
| "value_eq D (booleanValue p) b = (case b of booleanValue q \<Rightarrow> p = q | _ \<Rightarrow> False)"
| "value_eq D (stringValue s) b = (case b of stringValue t \<Rightarrow> string_eq s t | _ \<Rightarrow> False)"
| "value_eq D (arrayValue m) b = (case b of arrayValue n \<Rightarrow> length m = length n \<and> members_eq D m n | _ \<Rightarrow> False)"
| "value_eq D (objectValue m) b = (case b of objectValue n \<Rightarrow> length m = length n \<and> members_eq D m n | _ \<Rightarrow> False)"
| "members_eq D [] n = True"
| "members_eq D m [] = True"
| "members_eq D ((k, x) # m) ((l, y) # n) = (czstring_eq k l \<and> value_eq D x y \<and> members_eq D m n)"

end
