(* ===== verification/JsonReader.thy ===== *)
theory JsonReader imports JsonValue begin

text \<open>
  The reader of jsoncpp (\<open>json_reader.cpp\<close>): tokens, numbers, strings with their escapes,
  values, and the recovery from errors. \<open>current_\<close> is the suffix of the document that is
  left; the document is a \<open>std::string\<close>, so a look at its end sees a NUL. The texts of the
  errors and the comments attached to values are not modelled.
\<close>

unbundle bit_operations_syntax

section \<open>Tokens\<close>

datatype token_type =
  tokenEndOfStream | tokenObjectBegin | tokenObjectEnd | tokenArrayBegin | tokenArrayEnd
| tokenString | tokenNumber | tokenTrue | tokenFalse | tokenNull | tokenArraySeparator
| tokenMemberSeparator | tokenComment | tokenError

record features =
  allowComments :: bool
  strictRoot :: bool

definition Features_all :: features where
  "Features_all = \<lparr>allowComments = True, strictRoot = False\<rparr>"

definition Features_strictMode :: features where
  "Features_strictMode = \<lparr>allowComments = False, strictRoot = True\<rparr>"

fun getNextChar :: "string \<Rightarrow> char \<times> string" where
  "getNextChar [] = (CHR 0x00, [])"
| "getNextChar (c # s) = (c, s)"

fun peek :: "string \<Rightarrow> char" where
  "peek [] = CHR 0x00"
| "peek (c # s) = c"

definition json_space :: "char \<Rightarrow> bool" where
  "json_space c \<longleftrightarrow> c = CHR 0x20 \<or> c = CHR 0x09 \<or> c = CHR 0x0D \<or> c = CHR 0x0A"

fun skipSpaces :: "string \<Rightarrow> string" where
  "skipSpaces [] = []"
| "skipSpaces (c # s) = (if json_space c then skipSpaces s else c # s)"

definition match :: "string \<Rightarrow> string \<Rightarrow> bool \<times> string" where
  "match pattern s =
    (if length s < length pattern then (False, s)
     else if take (length pattern) s \<noteq> pattern then (False, s)
     else (True, drop (length pattern) s))"

fun readCStyleComment_loop :: "string \<Rightarrow> string" where
  "readCStyleComment_loop [] = []"
| "readCStyleComment_loop (c # s) = (if c = CHR ''*'' \<and> peek s = CHR ''/'' then s else readCStyleComment_loop s)"

definition readCStyleComment :: "string \<Rightarrow> bool \<times> string" where
  "readCStyleComment s = (let (c, s') = getNextChar (readCStyleComment_loop s) in (c = CHR ''/'', s'))"

fun readCppStyleComment :: "string \<Rightarrow> bool \<times> string" where
  "readCppStyleComment [] = (True, [])"
| "readCppStyleComment (c # s) = (if c = CHR 0x0D \<or> c = CHR 0x0A then (True, s) else readCppStyleComment s)"

definition readComment :: "string \<Rightarrow> bool \<times> string" where
  "readComment s =
    (let (c, s1) = getNextChar s in
     if c = CHR ''*'' then readCStyleComment s1
     else if c = CHR ''/'' then readCppStyleComment s1
     else (False, s1))"

definition is_digit :: "char \<Rightarrow> bool" where
  "is_digit c \<longleftrightarrow> uc c \<ge> 48 \<and> uc c \<le> 57"

definition number_char :: "char \<Rightarrow> bool" where
  "number_char c \<longleftrightarrow> is_digit c \<or> c = CHR ''.'' \<or> c = CHR ''e'' \<or> c = CHR ''E'' \<or> c = CHR ''+'' \<or> c = CHR ''-''"

fun readNumber :: "string \<Rightarrow> string" where
  "readNumber [] = []"
| "readNumber (c # s) = (if number_char c then readNumber s else c # s)"

text \<open>\<open>c\<close> is the character read last.\<close>

fun readString_loop :: "char \<Rightarrow> string \<Rightarrow> bool \<times> string" where
  "readString_loop c [] = (c = CHR 0x22, [])"
| "readString_loop c (x # s) =
    (if x = CHR 0x5C then readString_loop x (drop 1 s)
     else if x = CHR 0x22 then (True, s)
     else readString_loop x s)"

definition readString :: "string \<Rightarrow> bool \<times> string" where
  "readString s = readString_loop (CHR 0x00) s"

definition if_ok :: "token_type \<Rightarrow> bool \<times> string \<Rightarrow> token_type \<times> string" where
  "if_ok ty r = (if fst r then ty else tokenError, snd r)"

text \<open>The switch of \<open>readToken\<close> on the first character of a token, which is consumed.\<close>

definition token_switch :: "char \<Rightarrow> string \<Rightarrow> token_type \<times> string" where
  "token_switch c s =
    (if c = CHR ''{'' then (tokenObjectBegin, s)
     else if c = CHR ''}'' then (tokenObjectEnd, s)
     else if c = CHR ''['' then (tokenArrayBegin, s)
     else if c = CHR '']'' then (tokenArrayEnd, s)
     else if c = CHR 0x22 then if_ok tokenString (readString s)
     else if c = CHR ''/'' then if_ok tokenComment (readComment s)
     else if is_digit c \<or> c = CHR ''-'' then (tokenNumber, readNumber s)
     else if c = CHR ''t'' then if_ok tokenTrue (match ''rue'' s)
     else if c = CHR ''f'' then if_ok tokenFalse (match ''alse'' s)
     else if c = CHR ''n'' then if_ok tokenNull (match ''ull'' s)
     else if c = CHR '','' then (tokenArraySeparator, s)
     else if c = CHR '':'' then (tokenMemberSeparator, s)
     else if c = CHR 0x00 then (tokenEndOfStream, s)
     else (tokenError, s))"

text \<open>The type of the token, its characters from \<open>start_\<close> to \<open>end_\<close>, and what is left.\<close>

definition readToken :: "string \<Rightarrow> token_type \<times> string \<times> string" where
  "readToken s =
    (let start = skipSpaces s; (c, s1) = getNextChar start; (ty, s2) = token_switch c s1
     in (ty, take (length start - length s2) start, s2))"

subsection \<open>Tokens consume\<close>

lemma length_skipSpaces [simp]: "length (skipSpaces s) \<le> length s"
  by (induction s) auto

lemma length_match: "match p s = (b, s') \<Longrightarrow> length s' \<le> length s"
  by (auto simp: match_def split: if_splits)

lemma length_readCStyleComment_loop: "length (readCStyleComment_loop s) \<le> length s"
  by (induction s) auto

lemma length_getNextChar: "getNextChar s = (c, s') \<Longrightarrow> length s' \<le> length s"
  by (cases s) auto

lemma length_readCppStyleComment: "length (snd (readCppStyleComment s)) \<le> length s"
  by (induction s) auto

lemma length_readComment: "length (snd (readComment s)) \<le> length s"
proof -
  obtain c s1 where 1: "getNextChar s = (c, s1)" by fastforce
  obtain d s2 where 2: "getNextChar (readCStyleComment_loop s1) = (d, s2)" by fastforce
  show ?thesis
    using length_getNextChar[OF 1] length_getNextChar[OF 2] length_readCStyleComment_loop[of s1]
      length_readCppStyleComment[of s1]
    by (simp add: readComment_def readCStyleComment_def 1 2)
qed

lemma length_readNumber: "length (readNumber s) \<le> length s"
  by (induction s) auto

lemma length_readString_loop: "length (snd (readString_loop c s)) \<le> length s"
  by (induction c s rule: readString_loop.induct) (auto intro: le_trans)

lemma length_token_switch: "length (snd (token_switch c s)) \<le> length s"
  using length_readString_loop[of "CHR 0x00" s] length_readComment[of s] length_readNumber[of s]
  by (simp add: token_switch_def if_ok_def readString_def match_def)

lemma token_switch_end: "fst (token_switch (CHR 0x00) s) = tokenEndOfStream"
  by (simp add: token_switch_def is_digit_def)

text \<open>Every token but the end of the stream takes at least one character.\<close>

lemma readToken_length:
  assumes "readToken s = (ty, t, s')"
  shows "length s' \<le> length s" "ty \<noteq> tokenEndOfStream \<Longrightarrow> length s' < length s"
proof -
  obtain c s1 where 1: "getNextChar (skipSpaces s) = (c, s1)" by fastforce
  have 2: "token_switch c s1 = (ty, s')"
    using assms by (auto simp: readToken_def Let_def 1 split: prod.splits)
  have le: "length s' \<le> length s1"
    using length_token_switch[of c s1] by (simp add: 2)
  show "length s' \<le> length s"
    using le length_getNextChar[OF 1] length_skipSpaces[of s] by linarith
  show "length s' < length s" if "ty \<noteq> tokenEndOfStream"
  proof (cases "skipSpaces s")
    case Nil
    then show ?thesis using 1 2 that token_switch_end[of "[]"] by simp
  next
    case (Cons d r)
    then show ?thesis using 1 le length_skipSpaces[of s] by simp
  qed
qed

text \<open>The next token that is no comment.\<close>

function skip_comments :: "string \<Rightarrow> token_type \<times> string \<times> string" where
  "skip_comments s =
    (case readToken s of (ty, t, s') \<Rightarrow> if ty = tokenComment then skip_comments s' else (ty, t, s'))"
  by pat_completeness auto

termination
  by (relation "measure length") (auto dest: readToken_length(2)[OF sym])

declare skip_comments.simps [simp del]

definition skipCommentTokens :: "features \<Rightarrow> string \<Rightarrow> token_type \<times> string \<times> string" where
  "skipCommentTokens F s = (if allowComments F then skip_comments s else readToken s)"

lemma skip_comments_length:
  "skip_comments s = (ty, t, s') \<Longrightarrow> length s' \<le> length s \<and> (ty \<noteq> tokenEndOfStream \<longrightarrow> length s' < length s)"
proof (induction s rule: skip_comments.induct)
  case (1 s)
  obtain ty1 t1 s1 where r: "readToken s = (ty1, t1, s1)" by (metis prod_cases3)
  show ?case
    using 1 readToken_length[OF r] by (cases "ty1 = tokenComment") (force simp: r skip_comments.simps[of s])+
qed

lemma skipCommentTokens_length:
  assumes "skipCommentTokens F s = (ty, t, s')"
  shows "length s' \<le> length s" "ty \<noteq> tokenEndOfStream \<Longrightarrow> length s' < length s"
  using assms skip_comments_length readToken_length by (auto simp: skipCommentTokens_def split: if_splits)

section \<open>Recovery\<close>

text \<open>\<open>recoverFromError\<close> skips to a token of the given type, or to the end.\<close>

function recoverFromError :: "token_type \<Rightarrow> string \<Rightarrow> string" where
  "recoverFromError ty s =
    (case readToken s of (ty', t, s') \<Rightarrow>
       if ty' = ty \<or> ty' = tokenEndOfStream then s' else recoverFromError ty s')"
  by pat_completeness auto

termination
  by (relation "measure (length \<circ> snd)") (auto dest: readToken_length(2)[OF sym])

declare recoverFromError.simps [simp del]

lemma recoverFromError_length: "length (recoverFromError ty s) \<le> length s"
proof (induction ty s rule: recoverFromError.induct)
  case (1 ty s)
  obtain ty1 t1 s1 where r: "readToken s = (ty1, t1, s1)" by (metis prod_cases3)
  have "length (recoverFromError ty s1) \<le> length s1" if "ty1 \<noteq> ty" "ty1 \<noteq> tokenEndOfStream"
    using 1 that by (auto simp: r)
  then show ?case
    using readToken_length(1)[OF r] by (auto simp: r recoverFromError.simps[of ty s])
qed

section \<open>Numbers\<close>

text \<open>
  Decoding a token gives a value or an error; \<open>Smashed\<close> is a write outside the buffer of 32
  characters on the stack.
\<close>

datatype 'd decoded = Decoded "'d jvalue" | Refused | Smashed

definition decodeDouble :: "'d doubles \<Rightarrow> string \<Rightarrow> 'd decoded" where
  "decodeDouble D t =
    (let bufferSize = 32 in
     if length t \<le> bufferSize \<and> \<not> length t < bufferSize then Smashed
     else (case d_scan D t of None \<Rightarrow> Refused | Some r \<Rightarrow> Decoded (realValue r)))"

text \<open>The loop over the digits: a number, an error, or a number left to \<open>decodeDouble\<close>.\<close>

datatype scanned = Number "32 word" | Not_a_number | Too_long

fun scan_digits :: "32 word \<Rightarrow> 32 word \<Rightarrow> string \<Rightarrow> scanned" where
  "scan_digits threshold n [] = Number n"
| "scan_digits threshold n (c # s) =
    (if uc c < 48 \<or> uc c > 57 then Not_a_number
     else if n \<ge> threshold then Too_long
     else scan_digits threshold (n * 10 + word_of_nat (uc c - 48)) s)"

definition looks_double :: "string \<Rightarrow> bool" where
  "looks_double t \<longleftrightarrow>
    list_ex (\<lambda>c. c = CHR ''.'' \<or> c = CHR ''e'' \<or> c = CHR ''E'' \<or> c = CHR ''+'') t \<or> list_ex (\<lambda>c. c = CHR ''-'') (tl t)"

definition decodeNumber :: "'d doubles \<Rightarrow> string \<Rightarrow> 'd decoded" where
  "decodeNumber D t =
    (if looks_double t then decodeDouble D t
     else
       let isNegative = (peek t = CHR ''-'');
           current = (if isNegative then tl t else t);
           threshold = (if isNegative then - minInt else maxUInt) div 10
       in case scan_digits threshold 0 current of
          Not_a_number \<Rightarrow> Refused
        | Too_long \<Rightarrow> decodeDouble D t
        | Number n \<Rightarrow>
            if isNegative then Decoded (intValue (- n))
            else if n \<le> maxInt then Decoded (intValue n)
            else Decoded (uintValue n))"

section \<open>Strings\<close>

definition codePointToUTF8 :: "32 word \<Rightarrow> string" where
  "codePointToUTF8 cp =
    (let ch = (\<lambda>w :: 32 word. char_of (unat w)) in
     if cp \<le> 0x7F then [ch cp]
     else if cp \<le> 0x7FF then
       [ch (0xC0 OR (0x1F AND drop_bit 6 cp)), ch (0x80 OR (0x3F AND cp))]
     else if cp \<le> 0xFFFF then
       [ch (0xE0 OR (0xF AND drop_bit 12 cp)), ch (0x80 OR (0x3F AND drop_bit 6 cp)), ch (0x80 OR (0x3F AND cp))]
     else if cp \<le> 0x10FFFF then
       [ch (0xF0 OR (0x7 AND drop_bit 18 cp)), ch (0x80 OR (0x3F AND drop_bit 12 cp)),
        ch (0x80 OR (0x3F AND drop_bit 6 cp)), ch (0x80 OR (0x3F AND cp))]
     else [])"

definition hex_digit :: "char \<Rightarrow> nat option" where
  "hex_digit c =
    (if uc c \<ge> 48 \<and> uc c \<le> 57 then Some (uc c - 48)
     else if uc c \<ge> 97 \<and> uc c \<le> 102 then Some (uc c - 97 + 10)
     else if uc c \<ge> 65 \<and> uc c \<le> 70 then Some (uc c - 65 + 10)
     else None)"

fun hex_loop :: "nat \<Rightarrow> 32 word \<Rightarrow> string \<Rightarrow> (32 word \<times> string) option" where
  "hex_loop 0 unicode s = Some (unicode, s)"
| "hex_loop (Suc n) unicode [] = None"
| "hex_loop (Suc n) unicode (c # s) =
    (case hex_digit c of None \<Rightarrow> None | Some d \<Rightarrow> hex_loop n (unicode * 16 + word_of_nat d) s)"

definition decodeUnicodeEscapeSequence :: "string \<Rightarrow> (32 word \<times> string) option" where
  "decodeUnicodeEscapeSequence s = (if length s < 4 then None else hex_loop 4 0 s)"

definition decodeUnicodeCodePoint :: "string \<Rightarrow> (32 word \<times> string) option" where
  "decodeUnicodeCodePoint s =
    (case decodeUnicodeEscapeSequence s of
       None \<Rightarrow> None
     | Some (unicode, s1) \<Rightarrow>
         if unicode \<ge> 0xD800 \<and> unicode \<le> 0xDBFF then
           if length s1 < 6 then None
           else if s1 ! 0 = CHR 0x5C \<and> s1 ! 1 = CHR ''u'' then
             (case decodeUnicodeEscapeSequence (drop 2 s1) of
                None \<Rightarrow> None
              | Some (surrogatePair, s2) \<Rightarrow>
                  Some (0x10000 + push_bit 10 (unicode AND 0x3FF) + (surrogatePair AND 0x3FF), s2))
           else None
         else Some (unicode, s1))"

lemma hex_loop_length: "hex_loop n u s = Some (v, s') \<Longrightarrow> length s' \<le> length s"
  by (induction n u s rule: hex_loop.induct) (auto split: option.splits)

lemma decodeUnicodeEscapeSequence_length:
  "decodeUnicodeEscapeSequence s = Some (v, s') \<Longrightarrow> length s' \<le> length s"
  by (auto simp: decodeUnicodeEscapeSequence_def dest: hex_loop_length split: if_splits)

lemma decodeUnicodeCodePoint_length: "decodeUnicodeCodePoint s = Some (v, s') \<Longrightarrow> length s' \<le> length s"
  by (force simp: decodeUnicodeCodePoint_def dest!: decodeUnicodeEscapeSequence_length
    split: option.splits prod.splits if_splits)

definition escape_char :: "char \<Rightarrow> char option" where
  "escape_char e =
    (if e = CHR 0x22 then Some (CHR 0x22)
     else if e = CHR ''/'' then Some (CHR ''/'')
     else if e = CHR 0x5C then Some (CHR 0x5C)
     else if e = CHR ''b'' then Some (CHR 0x08)
     else if e = CHR ''f'' then Some (CHR 0x0C)
     else if e = CHR ''n'' then Some (CHR 0x0A)
     else if e = CHR ''r'' then Some (CHR 0x0D)
     else if e = CHR ''t'' then Some (CHR 0x09)
     else None)"

text \<open>The loop of \<open>decodeString\<close> over the characters between the quotes.\<close>

function decode_chars :: "string \<Rightarrow> string \<Rightarrow> string option" where
  "decode_chars decoded [] = Some decoded"
| "decode_chars decoded (c # s) =
    (if c = CHR 0x22 then Some decoded
     else if c = CHR 0x5C then
       (case s of
          [] \<Rightarrow> None
        | e # s1 \<Rightarrow>
            if e = CHR ''u'' then
              (case decodeUnicodeCodePoint s1 of
                 None \<Rightarrow> None
               | Some (unicode, s2) \<Rightarrow> decode_chars (decoded @ codePointToUTF8 unicode) s2)
            else (case escape_char e of None \<Rightarrow> None | Some x \<Rightarrow> decode_chars (decoded @ [x]) s1))
     else decode_chars (decoded @ [c]) s)"
  by pat_completeness auto

termination
  by (relation "measure (length \<circ> snd)") (auto dest!: decodeUnicodeCodePoint_length)

definition decodeString :: "string \<Rightarrow> string option" where
  "decodeString t = decode_chars [] (butlast (tl t))"

section \<open>Values\<close>

text \<open>
  What reading a value ends in: the result of the function with the value that the reference
  then holds and the suffix that is left. \<open>No_fuel\<close> is the end of the recursion bound.
\<close>

datatype 'd reading = Read bool "'d jvalue" string | Smash | No_fuel

text \<open>
  \<open>readValue\<close>, with the functions that read an object and an array as arguments; \<open>v\<close> is
  what the reference held before.
\<close>

definition readValue_step :: "'d doubles \<Rightarrow> features \<Rightarrow>
    (string \<Rightarrow> (czstring \<times> 'd jvalue) list \<Rightarrow> string \<Rightarrow> 'd reading) \<Rightarrow>
    (32 word \<Rightarrow> (czstring \<times> 'd jvalue) list \<Rightarrow> string \<Rightarrow> 'd reading) \<Rightarrow> 'd jvalue \<Rightarrow> string \<Rightarrow> 'd reading" where
  "readValue_step D F object array v s =
    (case skipCommentTokens F s of (ty, t, s1) \<Rightarrow>
       (case ty of
          tokenObjectBegin \<Rightarrow> object [] [] s1
        | tokenArrayBegin \<Rightarrow>
            (let s2 = skipSpaces s1 in
             if peek s2 = CHR '']'' then (case readToken s2 of (_, _, s3) \<Rightarrow> Read True (arrayValue []) s3)
             else array 0 [] s2)
        | tokenNumber \<Rightarrow>
            (case decodeNumber D t of
               Decoded x \<Rightarrow> Read True x s1 | Refused \<Rightarrow> Read False v s1 | Smashed \<Rightarrow> Smash)
        | tokenString \<Rightarrow>
            (case decodeString t of
               Some x \<Rightarrow> Read True (stringValue (Some (c_str x))) s1 | None \<Rightarrow> Read False v s1)
        | tokenTrue \<Rightarrow> Read True (booleanValue True) s1
        | tokenFalse \<Rightarrow> Read True (booleanValue False) s1
        | tokenNull \<Rightarrow> Read True nullValue s1
        | _ \<Rightarrow> Read False v s1))"

text \<open>
  An iteration of the loop of \<open>readObject\<close>, from the name of the last member and the members
  so far; \<open>value\<close> reads the value of the member, \<open>again\<close> is the next iteration.
\<close>

definition after_member :: "(string \<Rightarrow> 'd reading) \<Rightarrow> (czstring \<times> 'd jvalue) list \<Rightarrow> string \<Rightarrow> 'd reading" where
  "after_member again m s =
    (case readToken s of (comma, t, s1) \<Rightarrow>
       if comma \<noteq> tokenObjectEnd \<and> comma \<noteq> tokenArraySeparator \<and> comma \<noteq> tokenComment then
         Read False (objectValue m) (recoverFromError tokenObjectEnd s1)
       else (case (if comma = tokenComment then skip_comments s1 else (comma, t, s1)) of
         (comma', _, s2) \<Rightarrow> if comma' = tokenObjectEnd then Read True (objectValue m) s2 else again s2))"

definition readObject_step :: "('d jvalue \<Rightarrow> string \<Rightarrow> 'd reading) \<Rightarrow>
    (string \<Rightarrow> (czstring \<times> 'd jvalue) list \<Rightarrow> string \<Rightarrow> 'd reading) \<Rightarrow>
    string \<Rightarrow> (czstring \<times> 'd jvalue) list \<Rightarrow> string \<Rightarrow> 'd reading" where
  "readObject_step value again name m s =
    (case skip_comments s of (ty, t, s1) \<Rightarrow>
       if ty = tokenObjectEnd \<and> name = [] then Read True (objectValue m) s1
       else if ty \<noteq> tokenString then Read False (objectValue m) (recoverFromError tokenObjectEnd s1)
       else (case decodeString t of
          None \<Rightarrow> Read False (objectValue m) (recoverFromError tokenObjectEnd s1)
        | Some name \<Rightarrow>
            (case readToken s1 of (colon, _, s2) \<Rightarrow>
               if colon \<noteq> tokenMemberSeparator then
                 Read False (objectValue m) (recoverFromError tokenObjectEnd s2)
               else (case resolve (skey name) m of (old, m1) \<Rightarrow>
                 (case value old s2 of
                    Read ok x s3 \<Rightarrow>
                      (let m2 = map_put (skey name) x m1 in
                       if ok then after_member (again name m2) m2 s3
                       else Read False (objectValue m2) (recoverFromError tokenObjectEnd s3))
                  | r \<Rightarrow> r)))))"

text \<open>An iteration of the loop of \<open>readArray\<close>, from the next index and the elements so far.\<close>

definition readArray_step :: "('d jvalue \<Rightarrow> string \<Rightarrow> 'd reading) \<Rightarrow>
    (32 word \<Rightarrow> (czstring \<times> 'd jvalue) list \<Rightarrow> string \<Rightarrow> 'd reading) \<Rightarrow>
    32 word \<Rightarrow> (czstring \<times> 'd jvalue) list \<Rightarrow> string \<Rightarrow> 'd reading" where
  "readArray_step value again index m s =
    (case resolve (ikey index) m of (old, m1) \<Rightarrow>
       (case value old s of
          Read ok x s1 \<Rightarrow>
            (let m2 = map_put (ikey index) x m1 in
             if \<not> ok then Read False (arrayValue m2) (recoverFromError tokenArrayEnd s1)
             else (case skip_comments s1 of (ty, _, s2) \<Rightarrow>
               let badTokenType = (ty = tokenArraySeparator \<and> ty = tokenArrayEnd) in
               if badTokenType then Read False (arrayValue m2) (recoverFromError tokenArrayEnd s2)
               else if ty = tokenArrayEnd then Read True (arrayValue m2) s2
               else again (index + 1) m2 s2))
        | r \<Rightarrow> r))"

text \<open>The three functions as they call each other, to the depth of a bound.\<close>

fun readValue :: "'d doubles \<Rightarrow> features \<Rightarrow> nat \<Rightarrow> 'd jvalue \<Rightarrow> string \<Rightarrow> 'd reading"
and readObject :: "'d doubles \<Rightarrow> features \<Rightarrow> nat \<Rightarrow> string \<Rightarrow> (czstring \<times> 'd jvalue) list \<Rightarrow> string \<Rightarrow> 'd reading"
and readArray :: "'d doubles \<Rightarrow> features \<Rightarrow> nat \<Rightarrow> 32 word \<Rightarrow> (czstring \<times> 'd jvalue) list \<Rightarrow> string \<Rightarrow> 'd reading"
where
  "readValue D F 0 v s = No_fuel"
| "readValue D F (Suc n) v s = readValue_step D F (readObject D F n) (readArray D F n) v s"
| "readObject D F 0 name m s = No_fuel"
| "readObject D F (Suc n) name m s = readObject_step (readValue D F n) (readObject D F n) name m s"
| "readArray D F 0 index m s = No_fuel"
| "readArray D F (Suc n) index m s = readArray_step (readValue D F n) (readArray D F n) index m s"

text \<open>
  \<open>parse\<close> of a document into \<open>root\<close>, with a bound on the recursion that is enough for it.
\<close>

definition parse :: "'d doubles \<Rightarrow> features \<Rightarrow> string \<Rightarrow> 'd jvalue \<Rightarrow> 'd reading" where
  "parse D F document root =
    (case readValue D F (2 * length document + 1) root document of
       Read successful v s1 \<Rightarrow>
         (case skipCommentTokens F s1 of (_, _, s2) \<Rightarrow>
            if strictRoot F \<and> \<not> isArray v \<and> \<not> isObject v then Read False v s2
            else Read successful v s2)
     | r \<Rightarrow> r)"

end
