(* ===== verification/JsonWriter.thy ===== *)
theory JsonWriter imports JsonValue begin

text \<open>
  The fast writer of jsoncpp (\<open>json_writer.cpp\<close>): numbers, quoted strings and values. Texts
  are built from the end of a buffer by \<open>uintToString\<close>, and by appending elsewhere.
\<close>

unbundle bit_operations_syntax

section \<open>Numbers and booleans\<close>

lemma word_div_10_less: "(n :: 32 word) div 10 \<noteq> 0 \<Longrightarrow> unat (n div 10) < unat n"
  by (simp add: unat_div word_unat_eq_iff)

text \<open>The loop writes the digits before \<open>current\<close>, the lowest first.\<close>

function digits_before :: "32 word \<Rightarrow> string \<Rightarrow> string" where
  "digits_before n current =
    (let current = char_of (unat (n mod 10) + 48) # current; n = n div 10 in
     if n \<noteq> 0 then digits_before n current else current)"
  by pat_completeness auto

termination
  by (relation "measure (unat \<circ> fst)") (auto simp: word_div_10_less)

declare digits_before.simps [simp del]

definition uintToString :: "32 word \<Rightarrow> string" where
  "uintToString n = digits_before n []"

definition valueToString_int :: "32 word \<Rightarrow> string" where
  "valueToString_int n =
    (let isNegative = sint n < 0; n = (if isNegative then - n else n)
     in (if isNegative then [CHR ''-''] else []) @ uintToString n)"

definition valueToString_uint :: "32 word \<Rightarrow> string" where
  "valueToString_uint n = uintToString n"

definition valueToString_bool :: "bool \<Rightarrow> string" where
  "valueToString_bool b = (if b then ''true'' else ''false'')"

text \<open>
  A double: what \<open>sprintf\<close> gives, without its last zeroes if only digits follow the point,
  keeping one character after the last that is not zero. The first loop stops at the first
  character of the buffer, the second runs down over the digits.
\<close>

fun back_over_zeros :: "string \<Rightarrow> nat \<Rightarrow> nat" where
  "back_over_zeros buffer 0 = 0"
| "back_over_zeros buffer (Suc ch) =
    (if buffer ! Suc ch = CHR ''0'' then back_over_zeros buffer ch else Suc ch)"

fun digits_to_point :: "string \<Rightarrow> nat \<Rightarrow> bool" where
  "digits_to_point buffer 0 = (buffer ! 0 = CHR ''.'')"
| "digits_to_point buffer (Suc ch) =
    (if 48 \<le> uc (buffer ! Suc ch) \<and> uc (buffer ! Suc ch) \<le> 57 then digits_to_point buffer ch
     else buffer ! Suc ch = CHR ''.'')"

definition valueToString_double :: "'d doubles \<Rightarrow> 'd \<Rightarrow> string" where
  "valueToString_double D r =
    (let buffer = d_print D r; ch = length buffer - 1 in
     if buffer ! ch \<noteq> CHR ''0'' then buffer
     else let last_nonzero = back_over_zeros buffer ch in
       if digits_to_point buffer last_nonzero then take (last_nonzero + 2) buffer else buffer)"

section \<open>Strings\<close>

text \<open>A \<open>char\<close> is signed: the bytes from 128 on are negative.\<close>

definition isControlCharacter :: "char \<Rightarrow> bool" where
  "isControlCharacter c \<longleftrightarrow> uc c < 128 \<and> uc c > 0 \<and> uc c \<le> 0x1F"

definition containsControlCharacter :: "string \<Rightarrow> bool" where
  "containsControlCharacter str \<longleftrightarrow> list_ex isControlCharacter (c_str str)"

definition upper_hex :: "nat \<Rightarrow> char" where
  "upper_hex d = char_of (if d < 10 then 48 + d else 55 + d)"

definition escaped :: "char \<Rightarrow> string" where
  "escaped c =
    (if c = CHR 0x22 then [CHR 0x5C, CHR 0x22]
     else if c = CHR 0x5C then [CHR 0x5C, CHR 0x5C]
     else if c = CHR 0x08 then [CHR 0x5C, CHR ''b'']
     else if c = CHR 0x0C then [CHR 0x5C, CHR ''f'']
     else if c = CHR 0x0A then [CHR 0x5C, CHR ''n'']
     else if c = CHR 0x0D then [CHR 0x5C, CHR ''r'']
     else if c = CHR 0x09 then [CHR 0x5C, CHR ''t'']
     else if isControlCharacter c then
       [CHR 0x5C, CHR ''u'', CHR ''0'', CHR ''0'', upper_hex (uc c div 16), upper_hex (uc c mod 16)]
     else [c])"

definition special_chars :: string where
  "special_chars = [CHR 0x22, CHR 0x5C, CHR 0x08, CHR 0x0C, CHR 0x0A, CHR 0x0D, CHR 0x09]"

definition valueToQuotedString :: "string \<Rightarrow> string" where
  "valueToQuotedString value =
    (let s = c_str value in
     if \<not> list_ex (\<lambda>c. c \<in> set special_chars) s \<and> \<not> containsControlCharacter s
     then [CHR 0x22] @ s @ [CHR 0x22]
     else [CHR 0x22] @ concat (map escaped s) @ [CHR 0x22])"

text \<open>The walk would have given the same in the first case.\<close>

lemma escaped_plain:
  "c \<notin> set special_chars \<Longrightarrow> \<not> isControlCharacter c \<Longrightarrow> escaped c = [c]"
  by (auto simp: escaped_def special_chars_def)

lemma concat_escaped_plain:
  "\<forall>c\<in>set s. c \<notin> set special_chars \<and> \<not> isControlCharacter c \<Longrightarrow> concat (map escaped s) = s"
  by (induction s) (simp_all add: escaped_plain)

lemma valueToQuotedString_alt:
  "valueToQuotedString s = [CHR 0x22] @ concat (map escaped (c_str s)) @ [CHR 0x22]"
  by (auto simp: valueToQuotedString_def containsControlCharacter_def list_ex_iff concat_escaped_plain Let_def)

section \<open>Values\<close>

text \<open>The items of an array or an object, with a comma before all but the first.\<close>

fun with_commas :: "bool \<Rightarrow> string option list \<Rightarrow> string option" where
  "with_commas first [] = Some []"
| "with_commas first (None # ts) = None"
| "with_commas first (Some t # ts) =
    map_option (\<lambda>r. (if first then [] else '','') @ t @ r) (with_commas False ts)"

text \<open>
  \<open>writeValue\<close> gives the text appended to the document. The elements of an array are read
  by their index below the size, a missing one as null, and the members of an object by
  their names; the texts of all of them are computed first here. \<open>None\<close> stands for the null
  pointer handed to \<open>valueToQuotedString\<close>.
\<close>

definition array_texts :: "32 word \<Rightarrow> (czstring \<times> string option) list \<Rightarrow> string option list" where
  "array_texts n texts =
    map (\<lambda>i. case map_of texts (Index (int i)) of Some t \<Rightarrow> t | None \<Rightarrow> Some ''null'') [0..<nat (sint n)]"

definition member_texts :: "bool \<Rightarrow> string list \<Rightarrow> (czstring \<times> string option) list \<Rightarrow> string option list" where
  "member_texts yaml names texts =
    map (\<lambda>name. map_option (\<lambda>t. valueToQuotedString name @ (if yaml then '': '' else '':'') @ t)
        (case map_of texts (skey name) of Some t \<Rightarrow> t | None \<Rightarrow> Some ''null'')) names"

fun writeValue :: "'d doubles \<Rightarrow> bool \<Rightarrow> 'd jvalue \<Rightarrow> string option" where
  "writeValue D yaml nullValue = Some ''null''"
| "writeValue D yaml (intValue i) = Some (valueToString_int i)"
| "writeValue D yaml (uintValue u) = Some (valueToString_uint u)"
| "writeValue D yaml (realValue r) = Some (valueToString_double D r)"
| "writeValue D yaml (stringValue s) = map_option valueToQuotedString s"
| "writeValue D yaml (booleanValue b) = Some (valueToString_bool b)"
| "writeValue D yaml (arrayValue m) =
    map_option (\<lambda>t. ''['' @ t @ '']'')
      (with_commas True (array_texts (vsize (arrayValue m)) (map (\<lambda>p. (fst p, writeValue D yaml (snd p))) m)))"
| "writeValue D yaml (objectValue m) =
    (case getMemberNames (objectValue m) of
       None \<Rightarrow> None
     | Some names \<Rightarrow>
         map_option (\<lambda>t. ''{'' @ t @ ''}'')
           (with_commas True (member_texts yaml names (map (\<lambda>p. (fst p, writeValue D yaml (snd p))) m))))"

text \<open>\<open>FastWriter::write\<close>, and without the compatibility with YAML.\<close>

definition FastWriter_write :: "'d doubles \<Rightarrow> bool \<Rightarrow> 'd jvalue \<Rightarrow> string option" where
  "FastWriter_write D yaml root = map_option (\<lambda>t. t @ [CHR 0x0A]) (writeValue D yaml root)"

end
