(* ===== verification/JsonRound.thy ===== *)
theory JsonRound imports JsonReader JsonWriter begin

text \<open>
  What the fast writer writes, the reader reads back: first the tokens, numbers and quoted
  strings, then the values.
\<close>

unbundle bit_operations_syntax

section \<open>Numbers\<close>

fun decimal :: "nat \<Rightarrow> string" where
  "decimal n = (if n < 10 then [char_of (n + 48)] else decimal (n div 10) @ [char_of (n mod 10 + 48)])"

declare decimal.simps [simp del]

lemma uc_decimal_digit: "n < 10 \<Longrightarrow> uc (char_of (n + 48)) = n + 48"
  by (simp add: uc_char_of)

lemma digits_before_decimal: "digits_before n current = decimal (unat n) @ current"
proof (induction n current rule: digits_before.induct)
  case (1 n current)
  have u: "unat (n mod 10) = unat n mod 10" "unat (n div 10) = unat n div 10"
    by (simp_all add: unat_mod unat_div)
  have z: "n div 10 = 0 \<longleftrightarrow> unat n < 10"
    by (simp add: word_unat_eq_iff u(2) div_eq_0_iff)
  show ?case
    using 1 by (auto simp: digits_before.simps[of n] decimal.simps[of "unat n"] u z Let_def)
qed

lemma decimal_digits: "\<forall>c\<in>set (decimal n). is_digit c"
proof (induction n rule: decimal.induct)
  case (1 n)
  then show ?case
    by (auto simp: decimal.simps[of n] is_digit_def uc_decimal_digit split: if_splits)
qed

lemma decimal_not_Nil [simp]: "decimal n \<noteq> []"
  by (simp add: decimal.simps[of n])

lemma length_decimal: "n < 10 ^ k \<Longrightarrow> 0 < k \<Longrightarrow> length (decimal n) \<le> k"
proof (induction n arbitrary: k rule: decimal.induct)
  case (1 n)
  show ?case
  proof (cases "n < 10")
    case False
    then obtain j where "k = Suc j" "0 < j"
      using 1(2,3) by (cases k; cases "k - 1") auto
    with 1 False have "length (decimal (n div 10)) \<le> j"
      by (intro 1(1)) (auto simp: div_less_iff_less_mult)
    then show ?thesis using False \<open>k = Suc j\<close> by (simp add: decimal.simps[of n])
  qed (use 1 in \<open>simp add: decimal.simps[of n]\<close>)
qed

lemma scan_digits_append:
  "scan_digits th n (s @ t) = (case scan_digits th n s of Number m \<Rightarrow> scan_digits th m t | r \<Rightarrow> r)"
  by (induction th n s rule: scan_digits.induct) auto

lemma scan_digits_decimal:
  fixes th :: "32 word"
  assumes "n < 2 ^ 32" "0 < th"
  shows "scan_digits th 0 (decimal n) = (if n < 10 \<or> n div 10 < unat th then Number (word_of_nat n) else Too_long)"
  using assms
proof (induction n rule: decimal.induct)
  case (1 n)
  have d: "uc (char_of (n mod 10 + 48)) = n mod 10 + 48"
    by (simp add: uc_decimal_digit)
  show ?case
  proof (cases "n < 10")
    case True
    then show ?thesis
      using 1(3) by (simp add: decimal.simps[of n] uc_decimal_digit)
  next
    case False
    have IH: "scan_digits th 0 (decimal (n div 10)) =
        (if n div 10 < 10 \<or> n div 10 div 10 < unat th then Number (word_of_nat (n div 10)) else Too_long)"
      using 1 False by auto
    have small: "unat (word_of_nat (n div 10) :: 32 word) = n div 10"
      using 1(2) by (simp add: unat_of_nat take_bit_nat_eq_self)
    have num: "(word_of_nat (n div 10) * 10 + word_of_nat (n mod 10) :: 32 word) = word_of_nat n"
      by (metis (no_types, lifting) div_mult_mod_eq of_nat_add of_nat_mult of_nat_numeral)
    have ge: "th \<le> word_of_nat (n div 10) \<longleftrightarrow> unat th \<le> n div 10"
      by (simp add: word_le_nat_alt small)
    have mono: "n div 10 < unat th \<Longrightarrow> n div 10 div 10 < unat th"
      by linarith
    show ?thesis
      using False mono by (auto simp: decimal.simps[of n] scan_digits_append IH d ge num)
  qed
qed

lemma digit_no_sign:
  "is_digit c \<Longrightarrow> c \<noteq> CHR ''.'' \<and> c \<noteq> CHR ''e'' \<and> c \<noteq> CHR ''E'' \<and> c \<noteq> CHR ''+'' \<and> c \<noteq> CHR ''-''"
  by (auto simp: is_digit_def)

lemma looks_double_decimal: "\<not> looks_double (decimal n)" "\<not> looks_double (CHR ''-'' # decimal n)"
  using decimal_digits[of n] digit_no_sign list.set_sel(2)[OF decimal_not_Nil, of _ n]
  unfolding looks_double_def list_ex_iff by auto

lemma peek_decimal: "is_digit (peek (decimal n))"
  using decimal_digits[of n] by (cases "decimal n") auto

lemma peek_decimal_minus [simp]: "peek (decimal n) \<noteq> CHR ''-''"
  using peek_decimal[of n] by (auto simp: is_digit_def)

lemma unat_thresholds: "unat (maxUInt div 10) = 429496729" "unat ((- minInt) div 10) = 214748364"
proof -
  have "unat maxUInt = 4294967295" "unat (- minInt) = 2147483648"
    by (simp_all add: maxUInt_def minInt_def unsigned_minus_1_eq_mask mask_eq_exp_minus_1)
  then show "unat (maxUInt div 10) = 429496729" "unat ((- minInt) div 10) = 214748364"
    by (simp_all add: unat_div)
qed

lemma scan_uint:
  assumes "unat th = k" "0 < k"
  shows "scan_digits th 0 (decimal (unat (u :: 32 word))) =
    (if unat u < 10 \<or> unat u div 10 < k then Number u else Too_long)"
proof -
  have "0 < th" using assms by (simp add: word_less_nat_alt)
  moreover have "unat u < 2 ^ 32"
    using unsigned_less[of u] by simp
  ultimately show ?thesis
    by (simp add: scan_digits_decimal assms(1))
qed

lemma sint_bounds: "- 2147483648 \<le> sint (i :: 32 word)" "sint (i :: 32 word) < 2147483648"
  by (simp_all add: sint_uint signed_take_bit_int_greater_eq_minus_exp[of 31, simplified]
      signed_take_bit_int_less_exp[of 31, simplified])

lemma uint_of_sint: "0 \<le> k \<Longrightarrow> k < 4294967296 \<Longrightarrow> uint (word_of_int k :: 32 word) = k"
  by (simp add: uint_word_of_int)

lemma unat_minus_sint:
  assumes "sint (i :: 32 word) < 0"
  shows "int (unat (- i)) = - sint i"
proof -
  have "uint (word_of_int (- sint i) :: 32 word) = - sint i"
    using assms sint_bounds[of i] by (intro uint_of_sint) auto
  then show ?thesis by simp
qed

lemma le_maxInt:
  assumes "sint (i :: 32 word) \<ge> 0"
  shows "i \<le> maxInt \<and> int (unat i) = sint i \<and> sint i < 2147483648"
proof -
  have "uint (word_of_int (sint i) :: 32 word) = sint i"
    using assms sint_bounds[of i] by (intro uint_of_sint) auto
  then show ?thesis
    using sint_bounds[of i] by (simp add: word_le_def uint_maxInt)
qed

lemma decodeNumber_minus:
  "decodeNumber D (CHR ''-'' # decimal n) =
    (case scan_digits (- minInt div 10) 0 (decimal n) of
       Not_a_number \<Rightarrow> Refused | Too_long \<Rightarrow> decodeDouble D (CHR ''-'' # decimal n)
     | Number k \<Rightarrow> Decoded (intValue (- k)))"
  by (simp add: decodeNumber_def looks_double_decimal split: scanned.split)

lemma decodeNumber_plain:
  "decodeNumber D (decimal n) =
    (case scan_digits (maxUInt div 10) 0 (decimal n) of
       Not_a_number \<Rightarrow> Refused | Too_long \<Rightarrow> decodeDouble D (decimal n)
     | Number k \<Rightarrow> Decoded (if k \<le> maxInt then intValue k else uintValue k))"
  by (simp add: decodeNumber_def looks_double_decimal split: scanned.split)

lemma decode_uint:
  "decodeNumber D (valueToString_uint u) =
    (if uint u < 4294967290 then Decoded (if u \<le> maxInt then intValue u else uintValue u)
     else decodeDouble D (valueToString_uint u))"
proof -
  have "n < 10 \<or> n div 10 < 429496729 \<longleftrightarrow> int n < 4294967290" for n
    by linarith
  then have "unat u < 10 \<or> unat u div 10 < 429496729 \<longleftrightarrow> uint u < 4294967290"
    unfolding uint_nat by blast
  then have "scan_digits (maxUInt div 10) 0 (decimal (unat u)) = (if uint u < 4294967290 then Number u else Too_long)"
    by (simp only: scan_uint[OF unat_thresholds(1)] zero_less_numeral)
  then show ?thesis
    by (simp add: valueToString_uint_def uintToString_def digits_before_decimal decodeNumber_plain)
qed

lemma decode_int:
  "decodeNumber D (valueToString_int i) =
    (if sint i > - 2147483640 then Decoded (intValue i) else decodeDouble D (valueToString_int i))"
proof (cases "sint i < 0")
  case True
  have "n < 10 \<or> n div 10 < 214748364 \<longleftrightarrow> - 2147483640 < - int n" for n
    by linarith
  then have "unat (- i) < 10 \<or> unat (- i) div 10 < 214748364 \<longleftrightarrow> - 2147483640 < - int (unat (- i))"
    by blast
  then have "unat (- i) < 10 \<or> unat (- i) div 10 < 214748364 \<longleftrightarrow> - 2147483640 < sint i"
    unfolding unat_minus_sint[OF True] by simp
  then have "scan_digits (- minInt div 10) 0 (decimal (unat (- i))) =
      (if sint i > - 2147483640 then Number (- i) else Too_long)"
    by (simp only: scan_uint[OF unat_thresholds(2)] zero_less_numeral)
  then show ?thesis
    using True by (simp add: valueToString_int_def uintToString_def digits_before_decimal decodeNumber_minus)
next
  case False
  then have i: "i \<le> maxInt" "int (unat i) = sint i" "sint i < 2147483648"
    using le_maxInt[of i] by auto
  have "int n < 2147483648 \<Longrightarrow> n < 10 \<or> n div 10 < 429496729" for n
    by linarith
  then have "unat i < 10 \<or> unat i div 10 < 429496729"
    using i by metis
  then have "scan_digits (maxUInt div 10) 0 (decimal (unat i)) = Number i"
    by (simp only: scan_uint[OF unat_thresholds(1)] zero_less_numeral if_True)
  moreover have "sint i > - 2147483640"
    using False by linarith
  moreover have "valueToString_int i = decimal (unat i)"
    using False by (simp add: valueToString_int_def uintToString_def digits_before_decimal)
  ultimately show ?thesis
    by (simp add: i(1) decodeNumber_plain)
qed

lemma number_char_decimal: "\<forall>c\<in>set (decimal n). number_char c"
  using decimal_digits by (auto simp: number_char_def)

section \<open>Tokens\<close>

text \<open>What may follow a value: the characters that end a number.\<close>

definition stops :: "string \<Rightarrow> bool" where
  "stops rest \<longleftrightarrow> rest = [] \<or> \<not> number_char (hd rest)"

lemma readNumber_stops: "\<forall>c\<in>set t. number_char c \<Longrightarrow> stops rest \<Longrightarrow> readNumber (t @ rest) = rest"
  by (induction t) (cases rest; auto simp: stops_def)+

lemma readToken_switch:
  assumes "\<not> json_space c" "token_switch c (t @ rest) = (ty, rest)"
  shows "readToken ((c # t) @ rest) = (ty, c # t, rest)"
  using assms by (simp add: readToken_def)

lemma skipCommentTokens_eq:
  "readToken s = (ty, t, s') \<Longrightarrow> ty \<noteq> tokenComment \<Longrightarrow> skip_comments s = (ty, t, s') \<and> skipCommentTokens F s = (ty, t, s')"
  by (simp add: skip_comments.simps[of s] skipCommentTokens_def)

lemma number_start:
  assumes "is_digit c \<or> c = CHR ''-''"
  shows "\<not> json_space c" "token_switch c s = (tokenNumber, readNumber s)"
proof -
  have "c \<noteq> CHR ''{''" "c \<noteq> CHR ''}''" "c \<noteq> CHR ''[''" "c \<noteq> CHR '']''" "c \<noteq> CHR 0x22" "c \<noteq> CHR ''/''"
    "c \<noteq> CHR 0x20" "c \<noteq> CHR 0x09" "c \<noteq> CHR 0x0D" "c \<noteq> CHR 0x0A"
    using assms by (auto simp: is_digit_def)
  then show "\<not> json_space c" "token_switch c s = (tokenNumber, readNumber s)"
    using assms by (simp_all add: json_space_def token_switch_def)
qed

lemma readToken_number:
  assumes "is_digit c \<or> c = CHR ''-''" "\<forall>c\<in>set t. number_char c" "stops rest"
  shows "readToken ((c # t) @ rest) = (tokenNumber, c # t, rest)"
  using assms by (intro readToken_switch) (auto simp: number_start readNumber_stops)

text \<open>A quoted string is one token, and its characters decode to the string.\<close>

lemma uc_upper_hex: "d < 16 \<Longrightarrow> uc (upper_hex d) = (if d < 10 then 48 + d else 55 + d)"
  by (simp add: upper_hex_def uc_char_of)

lemma upper_hex_plain: "d < 16 \<Longrightarrow> upper_hex d \<noteq> CHR 0x22 \<and> upper_hex d \<noteq> CHR 0x5C"
proof -
  assume "d < 16"
  then have "uc (upper_hex d) \<noteq> uc (CHR 0x22)" "uc (upper_hex d) \<noteq> uc (CHR 0x5C)"
    by (auto simp: uc_upper_hex)
  then show ?thesis by metis
qed

lemma hex_digit_upper: "d < 16 \<Longrightarrow> hex_digit (upper_hex d) = Some d"
  by (simp add: hex_digit_def uc_upper_hex)

lemma readString_escaped:
  "readString_loop x (concat (map escaped s) @ CHR 0x22 # rest) = (True, rest)"
proof (induction s arbitrary: x)
  case (Cons c s)
  have "uc c div 16 < 16" "uc c mod 16 < 16"
    using uc_less_256[of c] by linarith+
  then have h: "upper_hex (uc c div 16) \<noteq> CHR 0x22 \<and> upper_hex (uc c div 16) \<noteq> CHR 0x5C"
    "upper_hex (uc c mod 16) \<noteq> CHR 0x22 \<and> upper_hex (uc c mod 16) \<noteq> CHR 0x5C"
    using upper_hex_plain by blast+
  show ?case
    using Cons h by (simp add: escaped_def)
qed simp

lemma decode_hex_digits:
  assumes "hex_digit a = Some i" "hex_digit b = Some j" "hex_digit c = Some k" "hex_digit d = Some l"
  shows "decodeUnicodeEscapeSequence (a # b # c # d # s) =
    Some (((word_of_nat i * 16 + word_of_nat j) * 16 + word_of_nat k) * 16 + word_of_nat l, s)"
proof -
  have "(4 :: nat) = Suc (Suc (Suc (Suc 0)))" by simp
  then show ?thesis
    by (simp only: decodeUnicodeEscapeSequence_def) (simp add: assms)
qed

lemma decode_escape_u:
  assumes "uc c < 128"
  shows "decodeUnicodeCodePoint (CHR ''0'' # CHR ''0'' # upper_hex (uc c div 16) # upper_hex (uc c mod 16) # s)
    = Some (word_of_nat (uc c), s)"
proof -
  have "uc c div 16 < 16" "uc c mod 16 < 16"
    using assms by auto
  moreover have "(word_of_nat (uc c div 16) * 16 + word_of_nat (uc c mod 16) :: 32 word) = word_of_nat (uc c)"
    by (metis div_mult_mod_eq of_nat_add of_nat_mult of_nat_numeral)
  moreover have "hex_digit (CHR ''0'') = Some 0"
    by (simp add: hex_digit_def)
  ultimately have "decodeUnicodeEscapeSequence
      (CHR ''0'' # CHR ''0'' # upper_hex (uc c div 16) # upper_hex (uc c mod 16) # s) = Some (word_of_nat (uc c), s)"
    using decode_hex_digits[OF _ _ hex_digit_upper hex_digit_upper] by simp
  moreover have "\<not> (0xD800 :: 32 word) \<le> word_of_nat (uc c)"
    using assms by (simp add: word_le_nat_alt unat_of_nat take_bit_nat_eq_self)
  ultimately show ?thesis
    by (simp add: decodeUnicodeCodePoint_def)
qed

lemma utf8_ascii: "uc c < 128 \<Longrightarrow> codePointToUTF8 (word_of_nat (uc c)) = [c]"
  by (simp add: codePointToUTF8_def word_le_nat_alt unat_of_nat take_bit_nat_eq_self uc_def)

lemma decode_escaped: "decode_chars d (concat (map escaped s)) = Some (d @ s)"
proof (induction s arbitrary: d)
  case (Cons c s)
  show ?case
    using Cons by (auto simp: escaped_def escape_char_def isControlCharacter_def decode_escape_u utf8_ascii)
qed simp

lemma quoted_token:
  assumes "nul_free s"
  shows "readToken (valueToQuotedString s @ rest) = (tokenString, valueToQuotedString s, rest)"
    and "decodeString (valueToQuotedString s) = Some s"
  using assms readToken_switch[of "CHR 0x22" "concat (map escaped s) @ [CHR 0x22]" rest tokenString]
  by (auto simp: valueToQuotedString_alt decodeString_def decode_escaped butlast_append json_space_def
      token_switch_def readString_def if_ok_def readString_escaped is_digit_def)

lemma quoted_start: "peek (valueToQuotedString s) = CHR 0x22" "valueToQuotedString s \<noteq> []"
  by (simp_all add: valueToQuotedString_alt)

lemma readToken_punctuation:
  "readToken (CHR ''{'' # s) = (tokenObjectBegin, ''{'', s)"
  "readToken (CHR ''}'' # s) = (tokenObjectEnd, ''}'', s)"
  "readToken (CHR ''['' # s) = (tokenArrayBegin, ''['', s)"
  "readToken (CHR '']'' # s) = (tokenArrayEnd, '']'', s)"
  "readToken (CHR '','' # s) = (tokenArraySeparator, '','', s)"
  "readToken (CHR '':'' # s) = (tokenMemberSeparator, '':'', s)"
  by (simp_all add: readToken_def token_switch_def json_space_def is_digit_def)

lemma readToken_space: "readToken (CHR 0x20 # s) = readToken s"
  by (simp add: readToken_def json_space_def)

lemma readToken_words:
  "readToken (''true'' @ s) = (tokenTrue, ''true'', s)"
  "readToken (''false'' @ s) = (tokenFalse, ''false'', s)"
  "readToken (''null'' @ s) = (tokenNull, ''null'', s)"
  by (simp_all add: readToken_def token_switch_def json_space_def is_digit_def match_def if_ok_def)

section \<open>Values that are written and read\<close>

text \<open>
  The texts of doubles that read back are left to the C library; whole numbers read back
  within the bounds of \<open>decode_int\<close> and \<open>decode_uint\<close>; an array has no holes.
\<close>

definition real_text :: "'d doubles \<Rightarrow> 'd \<Rightarrow> bool" where
  "real_text D r \<longleftrightarrow>
    (let t = valueToString_double D r in
     t \<noteq> [] \<and> (is_digit (hd t) \<or> hd t = CHR ''-'') \<and> list_all number_char t \<and> looks_double t
     \<and> length t \<noteq> 32 \<and> d_scan D t = Some r)"

fun writable :: "'d doubles \<Rightarrow> 'd jvalue \<Rightarrow> bool" where
  "writable D nullValue = True"
| "writable D (intValue i) = (sint i > - 2147483640)"
| "writable D (uintValue u) = (maxInt < u \<and> uint u < 4294967290)"
| "writable D (realValue r) = real_text D r"
| "writable D (stringValue s) = (case s of Some t \<Rightarrow> nul_free t | None \<Rightarrow> False)"
| "writable D (booleanValue b) = True"
| "writable D (arrayValue m) =
    (map fst m = map (\<lambda>i. Index (int i)) [0..<length m] \<and> length m < 2 ^ 31 \<and> list_all (\<lambda>p. writable D (snd p)) m)"
| "writable D (objectValue m) =
    (ordered m \<and> list_all (\<lambda>p. \<not> is_Index (fst p) \<and> key_ok (fst p)) m \<and> list_all (\<lambda>p. writable D (snd p)) m)"

text \<open>
  What is shown of every writable value: it has a text, which does not start with a space or
  a closing bracket, and reading the text in front of something that ends it gives the value.
\<close>

definition reads_back :: "'d doubles \<Rightarrow> bool \<Rightarrow> 'd jvalue \<Rightarrow> bool" where
  "reads_back D yaml v \<longleftrightarrow>
    (\<exists>t. writeValue D yaml v = Some t \<and> \<not> json_space (peek t) \<and> t \<noteq> [] \<and> peek t \<noteq> CHR '']'' \<and>
      (\<forall>F n v0 rest. stops rest \<longrightarrow> 2 * length (t @ rest) + 1 \<le> n \<longrightarrow>
        readValue D F n v0 (t @ rest) = Read True v rest))"

definition text_of :: "'d doubles \<Rightarrow> bool \<Rightarrow> 'd jvalue \<Rightarrow> string" where
  "text_of D yaml v = the (writeValue D yaml v)"

lemma reads_backD:
  assumes "reads_back D yaml v"
  shows "writeValue D yaml v = Some (text_of D yaml v)" "\<not> json_space (peek (text_of D yaml v))"
    "text_of D yaml v \<noteq> []" "peek (text_of D yaml v) \<noteq> CHR '']''"
    "stops rest \<Longrightarrow> 2 * length (text_of D yaml v @ rest) + 1 \<le> n \<Longrightarrow>
       readValue D F n v0 (text_of D yaml v @ rest) = Read True v rest"
  using assms by (auto simp: reads_back_def text_of_def)

text \<open>A value that is one token.\<close>

lemma reads_back_token:
  assumes "writeValue D yaml v = Some t" "t \<noteq> []" "\<not> json_space (peek t)" "peek t \<noteq> CHR '']''"
    and "\<And>rest. stops rest \<Longrightarrow> readToken (t @ rest) = (ty, t, rest)" "ty \<noteq> tokenComment"
    and "\<And>F f g v0 s rest. skipCommentTokens F s = (ty, t, rest) \<Longrightarrow> readValue_step D F f g v0 s = Read True v rest"
  shows "reads_back D yaml v"
proof -
  have "readValue D F n v0 (t @ rest) = Read True v rest" if "stops rest" "2 * length (t @ rest) + 1 \<le> n" for F n v0 rest
    using that assms(5)[OF that(1)] assms(6,7) skipCommentTokens_eq[of "t @ rest" ty t rest]
    by (cases n) auto
  then show ?thesis
    unfolding reads_back_def using assms(1-4) by blast
qed

lemma number_token:
  assumes "t \<noteq> []" "is_digit (hd t) \<or> hd t = CHR ''-''" "list_all number_char t"
  shows "\<not> json_space (peek t)" "peek t \<noteq> CHR '']''"
    "stops rest \<Longrightarrow> readToken (t @ rest) = (tokenNumber, t, rest)"
proof -
  obtain c s where t: "t = c # s" using assms(1) by (cases t) auto
  show "\<not> json_space (peek t)" "peek t \<noteq> CHR '']''"
    "stops rest \<Longrightarrow> readToken (t @ rest) = (tokenNumber, t, rest)"
    using assms number_start(1)[of c] readToken_number[of c s rest] by (auto simp: t list_all_iff is_digit_def)
qed

lemma reads_back_number:
  assumes "writeValue D yaml v = Some t" "t \<noteq> []" "is_digit (hd t) \<or> hd t = CHR ''-''" "list_all number_char t"
    and "decodeNumber D t = Decoded v"
  shows "reads_back D yaml v"
  by (rule reads_back_token[OF assms(1,2) number_token[OF assms(2-4)]])
    (simp_all add: readValue_step_def assms(5))

lemma decimal_text: "list_all number_char (decimal n)" "is_digit (hd (decimal n))"
  using number_char_decimal[of n] peek_decimal[of n] by (auto simp: list_all_iff) (cases "decimal n"; auto)

lemma int_text: "valueToString_int i = (if sint i < 0 then CHR ''-'' # decimal (unat (- i)) else decimal (unat i))"
  by (simp add: valueToString_int_def uintToString_def digits_before_decimal)

lemma number_text:
  "valueToString_int i \<noteq> []" "list_all number_char (valueToString_int i)"
  "is_digit (hd (valueToString_int i)) \<or> hd (valueToString_int i) = CHR ''-''"
  "valueToString_uint u \<noteq> []" "list_all number_char (valueToString_uint u)"
  "is_digit (hd (valueToString_uint u)) \<or> hd (valueToString_uint u) = CHR ''-''"
  by (auto simp: int_text valueToString_uint_def uintToString_def digits_before_decimal decimal_text number_char_def)

lemma reads_back_int: "sint i > - 2147483640 \<Longrightarrow> reads_back D yaml (intValue i)"
  by (rule reads_back_number[of _ _ _ "valueToString_int i"]) (simp_all add: decode_int number_text)

lemma reads_back_uint: "maxInt < u \<Longrightarrow> uint u < 4294967290 \<Longrightarrow> reads_back D yaml (uintValue u)"
  by (rule reads_back_number[of _ _ _ "valueToString_uint u"]) (simp_all add: decode_uint number_text)

lemma reads_back_real: "real_text D r \<Longrightarrow> reads_back D yaml (realValue r)"
  by (rule reads_back_number[of _ _ _ "valueToString_double D r"])
    (auto simp: real_text_def Let_def decodeNumber_def decodeDouble_def)

lemma reads_back_string:
  assumes "nul_free s"
  shows "reads_back D yaml (stringValue (Some s))"
proof (rule reads_back_token)
  show "readToken (valueToQuotedString s @ rest) = (tokenString, valueToQuotedString s, rest)" for rest
    by (rule quoted_token(1)[OF assms])
  show "writeValue D yaml (stringValue (Some s)) = Some (valueToQuotedString s)" by simp
qed (simp_all add: readValue_step_def quoted_token(2) assms quoted_start json_space_def)

lemma reads_back_constants: "reads_back D yaml nullValue" "reads_back D yaml (booleanValue b)"
proof -
  show "reads_back D yaml nullValue"
  proof (rule reads_back_token)
    show "readToken (''null'' @ rest) = (tokenNull, ''null'', rest)" for rest
      by (rule readToken_words)
  qed (simp_all add: readValue_step_def json_space_def)
  have "reads_back D yaml (booleanValue True)"
  proof (rule reads_back_token)
    show "readToken (''true'' @ rest) = (tokenTrue, ''true'', rest)" for rest
      by (rule readToken_words)
  qed (simp_all add: readValue_step_def json_space_def valueToString_bool_def)
  moreover have "reads_back D yaml (booleanValue False)"
  proof (rule reads_back_token)
    show "readToken (''false'' @ rest) = (tokenFalse, ''false'', rest)" for rest
      by (rule readToken_words)
  qed (simp_all add: readValue_step_def json_space_def valueToString_bool_def)
  ultimately show "reads_back D yaml (booleanValue b)"
    by (cases b) simp_all
qed

section \<open>Arrays and objects\<close>

fun joined :: "bool \<Rightarrow> string list \<Rightarrow> string" where
  "joined first [] = []"
| "joined first (t # ts) = (if first then [] else '','') @ t @ joined False ts"

lemma with_commas_Some: "with_commas first (map Some ts) = Some (joined first ts)"
  by (induction ts arbitrary: first) auto

lemma joined_Cons: "joined False ts = (if ts = [] then [] else CHR '','' # joined True ts)"
  by (cases ts) auto

lemma stops_simps [simp]: "stops []" "stops (CHR '','' # s)" "stops (CHR '']'' # s)" "stops (CHR ''}'' # s)"
  "stops (CHR 0x0A # s)"
  by (simp_all add: stops_def number_char_def is_digit_def)

text \<open>The elements that are left, in front of the closing bracket.\<close>

definition indexed :: "'d jvalue list \<Rightarrow> (czstring \<times> 'd jvalue) list" where
  "indexed xs = zip (map (\<lambda>i. Index (int i)) [0..<length xs]) xs"

lemma indexed_snoc: "indexed (xs @ [x]) = indexed xs @ [(Index (int (length xs)), x)]"
  by (simp add: indexed_def)

lemma fst_indexed: "p \<in> set (indexed xs) \<Longrightarrow> fst p < Index (int (length xs))"
  by (auto simp: indexed_def set_zip)

lemma ikey_of_nat: "k < 2 ^ 31 \<Longrightarrow> ikey (word_of_nat k) = Index (int k)"
  by (simp add: ikey_def signed_of_nat signed_take_bit_int_eq_self)

lemma put_indexed:
  "map_put (Index (int (length xs))) x (indexed xs) = indexed (xs @ [x])"
  "map_put (Index (int (length xs))) x (indexed (xs @ [y])) = indexed (xs @ [x])"
proof -
  show "map_put (Index (int (length xs))) x (indexed xs) = indexed (xs @ [x])"
    unfolding indexed_snoc by (rule map_put_last) (use fst_indexed in blast)
  have "map_put k x (m @ [(k, y)]) = m @ [(k, x)]" if "\<forall>p\<in>set m. fst p < k" for k and m :: "(czstring \<times> 'a jvalue) list"
    using that by (induction m) auto
  then show "map_put (Index (int (length xs))) x (indexed (xs @ [y])) = indexed (xs @ [x])"
    unfolding indexed_snoc using fst_indexed by blast
qed

lemma resolve_indexed:
  assumes "length xs < 2 ^ 31"
  shows "resolve (ikey (word_of_nat (length xs))) (indexed xs) = (nullValue, indexed (xs @ [nullValue]))"
proof -
  have "map_of (indexed xs) (Index (int (length xs))) = None"
    using fst_indexed[of _ xs] by (force simp: map_of_eq_None_iff)
  then show ?thesis
    by (simp only: resolve_def ikey_of_nat[OF assms] put_indexed option.case)
qed

lemma readArray_elements:
  assumes "xs \<noteq> []" "\<And>x. x \<in> set xs \<Longrightarrow> reads_back D yaml x" "length done + length xs < 2 ^ 31"
    and "2 * length (joined True (map (text_of D yaml) xs) @ CHR '']'' # rest) + 2 \<le> n"
  shows "readArray D F n (word_of_nat (length done)) (indexed done)
      (joined True (map (text_of D yaml) xs) @ CHR '']'' # rest) = Read True (arrayValue (indexed (done @ xs))) rest"
  using assms
proof (induction xs arbitrary: "done" n)
  case (Cons x xs)
  let ?tail = "joined False (map (text_of D yaml) xs) @ CHR '']'' # rest"
  have x: "reads_back D yaml x" using Cons.prems by simp
  obtain k where n: "n = Suc k" using Cons.prems(4) by (cases n) auto
  have tail: "stops ?tail" by (simp add: joined_Cons)
  have val: "readValue D F k v0 (text_of D yaml x @ ?tail) = Read True x ?tail" for v0
    using Cons.prems(4) n by (intro reads_backD(5)[OF x tail]) simp
  have put: "map_put (ikey (word_of_nat (length done))) x (indexed (done @ [nullValue])) = indexed (done @ [x])"
    using Cons.prems(3) by (simp only: ikey_of_nat put_indexed)
  have res: "resolve (ikey (word_of_nat (length done))) (indexed done) = (nullValue, indexed (done @ [nullValue]))"
    using Cons.prems(3) by (intro resolve_indexed) simp
  have step: "readArray D F n (word_of_nat (length done)) (indexed done) (text_of D yaml x @ ?tail) =
    (case skip_comments ?tail of (ty, _, s2) \<Rightarrow>
       if ty = tokenArrayEnd then Read True (arrayValue (indexed (done @ [x]))) s2
       else readArray D F k (word_of_nat (length done) + 1) (indexed (done @ [x])) s2)"
    by (simp add: n readArray_step_def res val put Let_def split: prod.split)
  show ?case
  proof (cases "xs = []")
    case True
    then show ?thesis
      using step by (simp add: readToken_punctuation skip_comments.simps)
  next
    case False
    have "2 * length (joined True (map (text_of D yaml) xs) @ CHR '']'' # rest) + 2 \<le> k"
      using Cons.prems(4) n False by (simp add: joined_Cons)
    then have "readArray D F k (word_of_nat (length (done @ [x]))) (indexed (done @ [x]))
        (joined True (map (text_of D yaml) xs) @ CHR '']'' # rest) = Read True (arrayValue (indexed ((done @ [x]) @ xs))) rest"
      using Cons.prems False by (intro Cons.IH) auto
    then show ?thesis
      using step False by (simp add: joined_Cons readToken_punctuation skip_comments.simps add.commute)
  qed
qed simp

lemma vsize_indexed: "length xs < 2 ^ 31 \<Longrightarrow> vsize (arrayValue (indexed xs)) = word_of_nat (length xs)"
  by (cases xs rule: rev_cases) (auto simp: indexed_snoc indexed_def[of "[]"])

lemma array_texts_indexed:
  assumes "length xs < 2 ^ 31" "\<And>x. x \<in> set xs \<Longrightarrow> reads_back D yaml x"
  shows "array_texts (vsize (arrayValue (indexed xs))) (map (\<lambda>p. (fst p, writeValue D yaml (snd p))) (indexed xs))
    = map Some (map (text_of D yaml) xs)"
proof -
  let ?keys = "map (\<lambda>i. Index (int i)) [0..<length xs]"
  have t: "map (\<lambda>p. (fst p, writeValue D yaml (snd p))) (indexed xs) = zip ?keys (map (writeValue D yaml) xs)"
    by (simp add: indexed_def zip_map2 case_prod_beta')
  have size: "nat (sint (vsize (arrayValue (indexed xs)))) = length xs"
    unfolding vsize_indexed[OF assms(1)] using assms(1) by (simp add: signed_of_nat signed_take_bit_int_eq_self)
  have key: "map_of (zip ?keys (map (writeValue D yaml) xs)) (Index (int i)) = Some (writeValue D yaml (xs ! i))"
    if "i < length xs" for i
    using map_of_zip_nth[of ?keys "map (writeValue D yaml) xs" i] that
    by (simp add: distinct_map inj_on_def)
  show ?thesis
    unfolding array_texts_def t size
    by (rule nth_equalityI) (simp_all add: key reads_backD(1)[OF assms(2)])
qed

lemma readValue_array:
  "readValue D F (Suc n) v0 (CHR ''['' # s) =
    (if peek (skipSpaces s) = CHR '']'' then (case readToken (skipSpaces s) of (_, _, r) \<Rightarrow> Read True (arrayValue []) r)
     else readArray D F n 0 [] (skipSpaces s))"
  using skipCommentTokens_eq[OF readToken_punctuation(3)[of s]]
  by (simp add: readValue_step_def Let_def)

lemma skipSpaces_id: "\<not> json_space (peek s) \<Longrightarrow> skipSpaces s = s"
  by (cases s) auto

lemma reads_back_array:
  assumes "length xs < 2 ^ 31" "\<And>x. x \<in> set xs \<Longrightarrow> reads_back D yaml x"
  shows "reads_back D yaml (arrayValue (indexed xs))"
proof -
  let ?body = "joined True (map (text_of D yaml) xs)"
  let ?t = "''['' @ ?body @ '']''"
  have w: "writeValue D yaml (arrayValue (indexed xs)) = Some ?t"
    by (simp only: writeValue.simps array_texts_indexed[OF assms] with_commas_Some option.map)
  have "readValue D F n v0 (?t @ rest) = Read True (arrayValue (indexed xs)) rest"
    if fuel: "2 * length (?t @ rest) + 1 \<le> n" for F n v0 rest
  proof -
    obtain k where n: "n = Suc k" using fuel by (cases n) auto
    show ?thesis
    proof (cases xs)
      case Nil
      then show ?thesis
        by (simp add: n readValue_array indexed_def readToken_punctuation json_space_def del: readValue.simps)
    next
      case (Cons x ys)
      have x: "reads_back D yaml x" using assms(2) by (simp add: Cons)
      have start: "peek (?body @ CHR '']'' # rest) = peek (text_of D yaml x)"
        using reads_backD(3)[OF x] by (cases "text_of D yaml x") (auto simp: Cons)
      have "readArray D F k (word_of_nat (length ([] :: 'a jvalue list))) (indexed []) (?body @ CHR '']'' # rest) =
          Read True (arrayValue (indexed ([] @ xs))) rest"
        by (rule readArray_elements) (use assms Cons fuel n in auto)
      then show ?thesis
        using reads_backD(2,4)[OF x] start
        by (simp add: n readValue_array skipSpaces_id indexed_def[of "[]"] del: readValue.simps)
    qed
  qed
  then show ?thesis
    unfolding reads_back_def w by (simp add: json_space_def)
qed

text \<open>The members that are left, in front of the closing brace.\<close>

fun name_of :: "czstring \<Rightarrow> string" where
  "name_of (Cstr s) = s"
| "name_of (Index i) = []"

definition item :: "'d doubles \<Rightarrow> bool \<Rightarrow> czstring \<times> 'd jvalue \<Rightarrow> string" where
  "item D yaml p = valueToQuotedString (name_of (fst p)) @ (if yaml then '': '' else '':'') @ text_of D yaml (snd p)"

definition member_ok :: "'d doubles \<Rightarrow> bool \<Rightarrow> czstring \<times> 'd jvalue \<Rightarrow> bool" where
  "member_ok D yaml p \<longleftrightarrow> \<not> is_Index (fst p) \<and> key_ok (fst p) \<and> reads_back D yaml (snd p)"

lemma member_okE:
  assumes "member_ok D yaml p"
  obtains k x where "p = (Cstr k, x)" "nul_free k" "reads_back D yaml x"
proof -
  obtain key x where p: "p = (key, x)" by fastforce
  then show ?thesis
    using assms that by (cases key) (auto simp: member_ok_def)
qed

lemma readValue_spaces:
  "0 < n \<Longrightarrow> readValue D F n v0 (CHR '' '' # s) = readValue D F n v0 s"
  by (cases n) (simp_all add: readValue_step_def skipCommentTokens_def readToken_space[simplified] skip_comments.simps[of "_ # _"]
    skip_comments.simps[of s])

lemma after_member_simps:
  "after_member again m (CHR ''}'' # rest) = Read True (objectValue m) rest"
  "after_member again m (CHR '','' # rest) = again rest"
  by (simp_all add: after_member_def readToken_punctuation)

lemma put_last:
  assumes "ordered (m @ [(k, y)])"
  shows "map_put k x m = m @ [(k, x)]" "map_put k x (m @ [(k, y)]) = m @ [(k, x)]" "map_of m k = None"
proof -
  have lt: "\<forall>p\<in>set m. fst p < k"
    using assms by (auto simp: sorted_wrt_append)
  then show "map_put k x m = m @ [(k, x)]" by (rule map_put_last)
  show "map_put k x (m @ [(k, y)]) = m @ [(k, x)]"
    using lt by (induction m) auto
  show "map_of m k = None"
    using lt by (force simp: map_of_eq_None_iff)
qed

lemma readObject_members:
  assumes "xs \<noteq> []" "\<And>p. p \<in> set xs \<Longrightarrow> member_ok D yaml p" "ordered (done @ xs)"
    and "2 * length (joined True (map (item D yaml) xs) @ CHR ''}'' # rest) + 1 \<le> n"
  shows "readObject D F n name done (joined True (map (item D yaml) xs) @ CHR ''}'' # rest) =
    Read True (objectValue (done @ xs)) rest"
  using assms
proof (induction xs arbitrary: "done" n name)
  case (Cons p xs)
  let ?tail = "joined False (map (item D yaml) xs) @ CHR ''}'' # rest"
  obtain k x where p: "p = (Cstr k, x)" "nul_free k" "reads_back D yaml x"
    using member_okE Cons.prems(2) by (metis list.set_intros(1))
  obtain j where n: "n = Suc j" using Cons.prems(4) by (cases n) auto
  let ?member = "(if yaml then '' '' else []) @ text_of D yaml x @ ?tail"
  have tail: "stops ?tail" by (simp add: joined_Cons)
  have fuel: "2 * length (text_of D yaml x @ ?tail) + 1 \<le> j"
    using Cons.prems(4) by (simp add: n p(1) item_def[of D yaml "(Cstr k, x)"] split: if_splits)
  have "readValue D F j v0 (text_of D yaml x @ ?tail) = Read True x ?tail" for v0
    by (rule reads_backD(5)[OF p(3) tail fuel])
  then have val: "readValue D F j v0 ?member = Read True x ?tail" for v0
    using readValue_spaces[of j D F v0 "text_of D yaml x @ ?tail"] fuel by (cases yaml) simp_all
  have ord: "ordered (done @ [(Cstr k, y)])" for y
    using Cons.prems(3) by (auto simp: p(1) sorted_wrt_append)
  have s: "joined True (map (item D yaml) (p # xs)) @ CHR ''}'' # rest =
      valueToQuotedString k @ CHR '':'' # ?member"
    by (simp add: p(1) item_def)
  have tok: "skip_comments (valueToQuotedString k @ CHR '':'' # ?member) =
      (tokenString, valueToQuotedString k, CHR '':'' # ?member)"
    using skipCommentTokens_eq[OF quoted_token(1)[OF p(2)]] by blast
  have step: "readObject D F n name done (valueToQuotedString k @ CHR '':'' # ?member) =
      after_member (readObject D F j k (done @ [(Cstr k, x)])) (done @ [(Cstr k, x)]) ?tail"
    unfolding n readObject.simps readObject_step_def tok
    using put_last[OF ord[of nullValue]]
    by (simp add: quoted_token(2)[OF p(2)] readToken_punctuation resolve_def skey_def p(2) val Let_def)
  show ?case
  proof (cases "xs = []")
    case True
    then show ?thesis
      unfolding s step by (simp add: after_member_simps p(1))
  next
    case False
    have "2 * length (joined True (map (item D yaml) xs) @ CHR ''}'' # rest) + 1 \<le> j"
      using fuel False by (simp add: joined_Cons)
    then have "readObject D F j k (done @ [(Cstr k, x)]) (joined True (map (item D yaml) xs) @ CHR ''}'' # rest) =
        Read True (objectValue ((done @ [(Cstr k, x)]) @ xs)) rest"
      using Cons.prems False by (intro Cons.IH) (auto simp: p(1))
    then show ?thesis
      unfolding s step using False by (simp add: joined_Cons after_member_simps p(1))
  qed
qed simp

lemma readValue_object: "readValue D F (Suc n) v0 (CHR ''{'' # s) = readObject D F n [] [] s"
  using skipCommentTokens_eq[OF readToken_punctuation(1)[of s]] by (simp add: readValue_step_def)

lemma member_texts_ordered:
  assumes "ordered m" "\<And>p. p \<in> set m \<Longrightarrow> member_ok D yaml p"
  shows "member_texts yaml (map (\<lambda>p. case fst p of Cstr s \<Rightarrow> s | Index _ \<Rightarrow> []) m)
      (map (\<lambda>p. (fst p, writeValue D yaml (snd p))) m) = map Some (map (item D yaml) m)"
proof -
  let ?texts = "map (\<lambda>p. (fst p, writeValue D yaml (snd p))) m"
  have dist: "distinct (map fst ?texts)"
    using assms(1) by (simp add: comp_def strict_sorted_iff)
  have "map_option (\<lambda>t. valueToQuotedString (case fst p of Cstr s \<Rightarrow> s | Index _ \<Rightarrow> []) @ (if yaml then '': '' else '':'') @ t)
      (case map_of ?texts (skey (case fst p of Cstr s \<Rightarrow> s | Index _ \<Rightarrow> [])) of Some t \<Rightarrow> t | None \<Rightarrow> Some ''null'')
    = Some (item D yaml p)" if "p \<in> set m" for p
  proof -
    have "member_ok D yaml p" by (rule assms(2)[OF that])
    then obtain k x where p: "p = (Cstr k, x)" "nul_free k" "reads_back D yaml x"
      by (rule member_okE)
    have "map_of ?texts (Cstr k) = Some (writeValue D yaml x)"
      using that by (intro map_of_is_SomeI[OF dist]) (force simp: p(1))
    then show ?thesis
      by (simp add: p skey_def item_def reads_backD(1)[OF p(3)])
  qed
  then show ?thesis
    by (simp add: member_texts_def)
qed

lemma reads_back_object:
  assumes "ordered m" "\<And>p. p \<in> set m \<Longrightarrow> member_ok D yaml p"
  shows "reads_back D yaml (objectValue m)"
proof -
  let ?body = "joined True (map (item D yaml) m)"
  let ?t = "''{'' @ ?body @ ''}''"
  have w: "writeValue D yaml (objectValue m) = Some ?t"
    by (simp only: writeValue.simps getMemberNames.simps option.case member_texts_ordered[OF assms]
      with_commas_Some option.map)
  have "readValue D F n v0 (?t @ rest) = Read True (objectValue m) rest"
    if fuel: "2 * length (?t @ rest) + 1 \<le> n" for F n v0 rest
  proof -
    obtain k where n: "n = Suc k" using fuel by (cases n) auto
    show ?thesis
    proof (cases "m = []")
      case True
      obtain j where "k = Suc j" using fuel n by (cases k) auto
      then show ?thesis
        by (simp add: True n readValue_object readObject_step_def skip_comments.simps readToken_punctuation
          del: readValue.simps)
    next
      case False
      have "readObject D F k [] [] (?body @ CHR ''}'' # rest) = Read True (objectValue ([] @ m)) rest"
        by (rule readObject_members) (use assms False fuel n in auto)
      then show ?thesis
        by (simp add: n readValue_object del: readValue.simps)
    qed
  qed
  then show ?thesis
    unfolding reads_back_def w by (simp add: json_space_def)
qed

lemma writable_indexed:
  "map fst m = map (\<lambda>i. Index (int i)) [0..<length m] \<Longrightarrow> m = indexed (map snd m)"
  by (metis indexed_def length_map zip_map_fst_snd)

lemma writable_reads_back: "writable D v \<Longrightarrow> reads_back D yaml v"
proof (induction v)
  case (stringValue s)
  then show ?case by (cases s) (auto intro: reads_back_string)
next
  case (arrayValue m)
  have "reads_back D yaml x" if "x \<in> set (map snd m)" for x
    using that arrayValue by (fastforce simp: list_all_iff snds.simps)
  then have "reads_back D yaml (arrayValue (indexed (map snd m)))"
    using arrayValue.prems by (intro reads_back_array) auto
  then show ?case
    using writable_indexed[of m] arrayValue.prems by simp
next
  case (objectValue m)
  have "member_ok D yaml p" if "p \<in> set m" for p
    using that objectValue by (fastforce simp: list_all_iff snds.simps member_ok_def)
  then show ?case
    using objectValue.prems by (intro reads_back_object) auto
qed (auto intro: reads_back_int reads_back_uint reads_back_real reads_back_constants)

end
