(* ===== verification/JsonTotal.thy ===== *)
theory JsonTotal imports JsonReader begin

text \<open>
  Reading a document ends: every call of the reader takes characters, so that a recursion bound
  of twice the length of the document is enough, and no larger one changes the result.
\<close>

unbundle bit_operations_syntax

section \<open>Reading takes characters\<close>

definition shrinks :: "bool \<Rightarrow> string \<Rightarrow> 'd reading \<Rightarrow> bool" where
  "shrinks strict s r =
    (case r of Read ok x s' \<Rightarrow> length s' \<le> length s \<and> (strict \<and> ok \<longrightarrow> length s' < length s) | _ \<Rightarrow> True)"

lemma shrinks_simps [simp]:
  "shrinks strict s (Read ok x s') \<longleftrightarrow> length s' \<le> length s \<and> (strict \<and> ok \<longrightarrow> length s' < length s)"
  "shrinks strict s Smash" "shrinks strict s No_fuel"
  by (simp_all add: shrinks_def)

lemma shrinks_trans: "shrinks strict s' r \<Longrightarrow> length s' \<le> length s \<Longrightarrow> shrinks strict s r"
  by (cases r) auto

lemma shrinks_strict: "shrinks strict s' r \<Longrightarrow> length s' < length s \<Longrightarrow> shrinks strict' s r"
  by (cases r) auto

lemma recover_le: "length s \<le> n \<Longrightarrow> length (recoverFromError ty s) \<le> n"
  using recoverFromError_length[of ty s] by linarith

lemma readValue_step_shrinks:
  assumes "\<And>name m s. shrinks False s (object name m s)" "\<And>i m s. shrinks False s (array i m s)"
  shows "shrinks True s (readValue_step D F object array v s)"
proof -
  obtain ty t s1 where r: "skipCommentTokens F s = (ty, t, s1)" by (metis prod_cases3)
  obtain ty3 t3 s3 where e: "readToken (skipSpaces s1) = (ty3, t3, s3)" by (metis prod_cases3)
  have le: "length s1 \<le> length s" "ty \<noteq> tokenEndOfStream \<Longrightarrow> length s1 < length s"
    using skipCommentTokens_length[OF r] by auto
  have sp: "length (skipSpaces s1) \<le> length s1" "length s3 \<le> length s1"
    using readToken_length(1)[OF e] length_skipSpaces[of s1] by linarith+
  have "shrinks True s (array 0 [] (skipSpaces s1))" if "ty \<noteq> tokenEndOfStream"
    using shrinks_strict[OF assms(2)] le_less_trans[OF sp(1) le(2)[OF that]] by blast
  then show ?thesis
    using le sp shrinks_strict[OF assms(1), of s1 s True]
    by (auto simp: readValue_step_def r e Let_def split: token_type.split decoded.split option.split)
qed

lemma after_member_shrinks:
  assumes "\<And>s. shrinks False s (again s)"
  shows "shrinks False s (after_member again m s)"
proof -
  obtain ty t s1 where r: "readToken s = (ty, t, s1)" by (metis prod_cases3)
  obtain ty2 t2 s2 where c: "skip_comments s1 = (ty2, t2, s2)" by (metis prod_cases3)
  have "length s1 \<le> length s" "length s2 \<le> length s1"
    using readToken_length(1)[OF r] skip_comments_length[OF c] by auto
  then show ?thesis
    using shrinks_trans[OF assms] recover_le[of s1 "length s"]
    by (auto simp: after_member_def r c)
qed

lemma readObject_step_shrinks:
  assumes "\<And>v s. shrinks True s (value v s)" "\<And>name m s. shrinks False s (again name m s)"
  shows "shrinks False s (readObject_step value again name m s)"
proof -
  obtain ty t s1 where r: "skip_comments s = (ty, t, s1)" by (metis prod_cases3)
  obtain ty2 t2 s2 where c: "readToken s1 = (ty2, t2, s2)" by (metis prod_cases3)
  have le: "length s1 \<le> length s" "length s2 \<le> length s"
    using skip_comments_length[OF r] readToken_length(1)[OF c] by auto
  have "shrinks False s (case value old s2 of
      Read ok x s3 \<Rightarrow>
        (let m2 = map_put k x m1 in
         if ok then after_member (again n m2) m2 s3
         else Read False (objectValue m2) (recoverFromError tokenObjectEnd s3))
    | r \<Rightarrow> r)" for old k m1 n
    using assms(1)[of s2 old] le shrinks_trans[OF after_member_shrinks[of "again n _", OF assms(2)], of _ s]
    by (auto simp: Let_def recover_le split: reading.split)
  with le show ?thesis
    by (auto simp: readObject_step_def r c recover_le split: option.split prod.split)
qed

lemma readArray_step_shrinks:
  assumes "\<And>v s. shrinks True s (value v s)" "\<And>i m s. shrinks False s (again i m s)"
  shows "shrinks False s (readArray_step value again i m s)"
proof -
  obtain old m1 where o: "resolve (ikey i) m = (old, m1)" by fastforce
  show ?thesis
  proof (cases "value old s")
    case (Read ok x s1)
    obtain ty t s2 where c: "skip_comments s1 = (ty, t, s2)" by (metis prod_cases3)
    have "length s1 \<le> length s" "length s2 \<le> length s1"
      using assms(1)[of s old] skip_comments_length[OF c] by (auto simp: Read)
    then show ?thesis
      using shrinks_trans[OF assms(2), of s2 s] recover_le
      by (auto simp: readArray_step_def o Read c Let_def)
  qed (simp_all add: readArray_step_def o)
qed

lemma read_shrinks:
  "shrinks True s (readValue D F n v s) \<and> shrinks False s (readObject D F n name m s) \<and>
   shrinks False s (readArray D F n i m s)"
  by (induction n arbitrary: s v name m i)
    (simp_all add: readValue_step_shrinks readObject_step_shrinks readArray_step_shrinks)

section \<open>The bound on the recursion\<close>

text \<open>
  Between two nested calls at least one character is taken, but an array calls for its first
  element without taking one.
\<close>

lemma readValue_step_fuel:
  assumes "\<And>name m s'. length s' < length s \<Longrightarrow> object name m s' \<noteq> No_fuel"
    "\<And>i m s'. length s' < length s \<Longrightarrow> array i m s' \<noteq> No_fuel"
  shows "readValue_step D F object array v s \<noteq> No_fuel"
proof -
  obtain ty t s1 where r: "skipCommentTokens F s = (ty, t, s1)" by (metis prod_cases3)
  have le: "ty \<noteq> tokenEndOfStream \<Longrightarrow> length s1 < length s \<and> length (skipSpaces s1) < length s"
    using skipCommentTokens_length[OF r] le_less_trans[OF length_skipSpaces] by blast
  show ?thesis
    using le assms
    by (auto simp: readValue_step_def r Let_def split: token_type.split decoded.split option.split prod.split)
qed

lemma readObject_step_fuel:
  assumes "\<And>v s'. length s' < length s \<Longrightarrow> value v s' \<noteq> No_fuel"
    "\<And>v s'. shrinks True s' (value v s')"
    "\<And>name m s'. length s' < length s \<Longrightarrow> again name m s' \<noteq> No_fuel"
  shows "readObject_step value again name m s \<noteq> No_fuel"
proof -
  obtain ty t s1 where r: "skip_comments s = (ty, t, s1)" by (metis prod_cases3)
  obtain ty2 t2 s2 where c: "readToken s1 = (ty2, t2, s2)" by (metis prod_cases3)
  have le: "ty \<noteq> tokenEndOfStream \<Longrightarrow> length s2 < length s"
    using skip_comments_length[OF r] readToken_length(1)[OF c] by auto
  have more: "after_member (again n m2) m2 s3 \<noteq> No_fuel" if "length s3 < length s" for n m2 s3
  proof -
    obtain ty t s4 where r: "readToken s3 = (ty, t, s4)" by (metis prod_cases3)
    obtain ty2 t2 s5 where c: "skip_comments s4 = (ty2, t2, s5)" by (metis prod_cases3)
    show ?thesis
      using that readToken_length(1)[OF r] skip_comments_length[OF c] assms(3)
      by (auto simp: after_member_def r c)
  qed
  have "(case value old s2 of
      Read ok x s3 \<Rightarrow>
        (let m2 = map_put k x m1 in
         if ok then after_member (again n m2) m2 s3
         else Read False (objectValue m2) (recoverFromError tokenObjectEnd s3))
    | r \<Rightarrow> r) \<noteq> No_fuel" if "ty \<noteq> tokenEndOfStream" for old k m1 n
    using assms(1)[OF le[OF that], of old] assms(2)[of s2 old] le[OF that] more
    by (auto simp: Let_def split: reading.split)
  then show ?thesis
    by (auto simp: readObject_step_def r c split: option.split prod.split)
qed

lemma readArray_step_fuel:
  assumes "\<And>v s'. length s' \<le> length s \<Longrightarrow> value v s' \<noteq> No_fuel"
    "\<And>v s'. shrinks True s' (value v s')"
    "\<And>i m s'. length s' < length s \<Longrightarrow> again i m s' \<noteq> No_fuel"
  shows "readArray_step value again i m s \<noteq> No_fuel"
proof -
  obtain old m1 where o: "resolve (ikey i) m = (old, m1)" by fastforce
  show ?thesis
  proof (cases "value old s")
    case (Read ok x s1)
    obtain ty t s2 where c: "skip_comments s1 = (ty, t, s2)" by (metis prod_cases3)
    have "length s1 \<le> length s" "ok \<Longrightarrow> length s1 < length s" "length s2 \<le> length s1"
      using assms(2)[of s old] skip_comments_length[OF c] by (auto simp: Read)
    then show ?thesis
      using assms(3) by (auto simp: readArray_step_def o Read c Let_def)
  qed (use assms(1) in \<open>simp_all add: readArray_step_def o\<close>)
qed

lemma read_fuel:
  "(2 * length s + 1 \<le> n \<longrightarrow> readValue D F n v s \<noteq> No_fuel \<and> readObject D F n name m s \<noteq> No_fuel) \<and>
   (2 * length s + 2 \<le> n \<longrightarrow> readArray D F n i m s \<noteq> No_fuel)"
proof (induction n arbitrary: s v name m i)
  case (Suc n)
  have v: "readValue D F n v s' \<noteq> No_fuel" "readObject D F n name m s' \<noteq> No_fuel" if "2 * length s' + 1 \<le> n"
    for v s' name m using Suc that by blast+
  have a: "readArray D F n i m s' \<noteq> No_fuel" if "2 * length s' + 2 \<le> n" for s' i m
    using Suc that by blast
  have sh: "shrinks True s' (readValue D F n v s')" for s' v
    using read_shrinks by blast
  have "readValue_step D F (readObject D F n) (readArray D F n) v s \<noteq> No_fuel" if "2 * length s + 1 \<le> Suc n"
    by (rule readValue_step_fuel; rule v a; use that in linarith)
  moreover have "readObject_step (readValue D F n) (readObject D F n) name m s \<noteq> No_fuel" if "2 * length s + 1 \<le> Suc n"
    by (rule readObject_step_fuel; (rule sh | rule v; use that in linarith))
  moreover have "readArray_step (readValue D F n) (readArray D F n) i m s \<noteq> No_fuel" if "2 * length s + 2 \<le> Suc n"
    by (rule readArray_step_fuel; (rule sh | rule v a; use that in linarith))
  ultimately show ?case
    by simp
qed simp

text \<open>More fuel changes nothing once it is enough.\<close>

definition approx :: "'d reading \<Rightarrow> 'd reading \<Rightarrow> bool" where
  "approx r r' \<longleftrightarrow> r = No_fuel \<or> r = r'"

lemma approx_simps [simp]: "approx r r" "approx No_fuel r"
  by (simp_all add: approx_def)

lemma approx_case:
  assumes "approx r r'" "\<And>ok x s. approx (f ok x s) (g ok x s)"
  shows "approx (case r of Read ok x s \<Rightarrow> f ok x s | q \<Rightarrow> q) (case r' of Read ok x s \<Rightarrow> g ok x s | q \<Rightarrow> q)"
  using assms by (auto simp: approx_def split: reading.splits)

lemma after_member_approx:
  assumes "\<And>s. approx (f s) (g s)"
  shows "approx (after_member f m s) (after_member g m s)"
  using assms by (auto simp: after_member_def split: prod.split)

lemma readValue_step_approx:
  assumes "\<And>name m s. approx (f name m s) (f' name m s)" "\<And>i m s. approx (g i m s) (g' i m s)"
  shows "approx (readValue_step D F f g v s) (readValue_step D F f' g' v s)"
  using assms unfolding readValue_step_def Let_def
  by (auto split: prod.split token_type.split decoded.split option.split)

lemma readObject_step_approx:
  assumes "\<And>v s. approx (f v s) (f' v s)" "\<And>name m s. approx (g name m s) (g' name m s)"
  shows "approx (readObject_step f g name m s) (readObject_step f' g' name m s)"
  unfolding readObject_step_def Let_def
  by (auto split: prod.split option.split intro!: approx_case after_member_approx assms)

lemma readArray_step_approx:
  assumes "\<And>v s. approx (f v s) (f' v s)" "\<And>i m s. approx (g i m s) (g' i m s)"
  shows "approx (readArray_step f g i m s) (readArray_step f' g' i m s)"
  unfolding readArray_step_def Let_def
  by (auto split: prod.split intro!: approx_case assms)

lemma read_approx:
  "approx (readValue D F n v s) (readValue D F (Suc n) v s) \<and>
   approx (readObject D F n name m s) (readObject D F (Suc n) name m s) \<and>
   approx (readArray D F n i m s) (readArray D F (Suc n) i m s)"
proof (induction n arbitrary: s v name m i)
  case (Suc n)
  have "approx (readValue D F n v s) (readValue D F (Suc n) v s)"
    and "approx (readObject D F n name m s) (readObject D F (Suc n) name m s)"
    and "approx (readArray D F n i m s) (readArray D F (Suc n) i m s)" for v s name m i
    using Suc by blast+
  note IH = this
  show ?case
    unfolding readValue.simps(2)[of D F "Suc n"] readObject.simps(2)[of D F "Suc n"] readArray.simps(2)[of D F "Suc n"]
      readValue.simps(2)[of D F n v s] readObject.simps(2)[of D F n name m s] readArray.simps(2)[of D F n i m s]
    by (intro conjI readValue_step_approx readObject_step_approx readArray_step_approx IH)
qed simp

lemma readValue_enough: "readValue D F (2 * length s + 1 + k) v s = readValue D F (2 * length s + 1) v s"
proof (induction k)
  case (Suc k)
  have "approx (readValue D F (2 * length s + 1 + k) v s) (readValue D F (Suc (2 * length s + 1 + k)) v s)"
    using read_approx by blast
  moreover have "readValue D F (2 * length s + 1) v s \<noteq> No_fuel"
    using read_fuel by blast
  ultimately show ?case
    using Suc by (simp only: approx_def add_Suc_right) auto
qed simp

end
