(* ===== verification/JsonForm.thy ===== *)
theory JsonForm imports JsonRound JsonTotal begin

text \<open>
  The form of the values that the reader makes: strings and names without NUL, ordered
  members, arrays without holes, and whole numbers that the writer prints back.
\<close>

unbundle bit_operations_syntax

section \<open>Wellformed values\<close>

fun wellformed :: "'d jvalue \<Rightarrow> bool" where
  "wellformed nullValue = True"
| "wellformed (intValue i) = (sint i > - 2147483640)"
| "wellformed (uintValue u) = (maxInt < u \<and> uint u < 4294967290)"
| "wellformed (realValue r) = True"
| "wellformed (stringValue s) = (case s of Some t \<Rightarrow> nul_free t | None \<Rightarrow> False)"
| "wellformed (booleanValue b) = True"
| "wellformed (arrayValue m) =
    (map fst m = map (\<lambda>i. Index (int i)) [0..<length m] \<and> length m < 2 ^ 31 \<and> list_all (\<lambda>p. wellformed (snd p)) m)"
| "wellformed (objectValue m) =
    (ordered m \<and> list_all (\<lambda>p. \<not> is_Index (fst p) \<and> key_ok (fst p)) m \<and> list_all (\<lambda>p. wellformed (snd p)) m)"

fun reals_print :: "'d doubles \<Rightarrow> 'd jvalue \<Rightarrow> bool" where
  "reals_print D (realValue r) = real_text D r"
| "reals_print D (arrayValue m) = list_all (\<lambda>p. reals_print D (snd p)) m"
| "reals_print D (objectValue m) = list_all (\<lambda>p. reals_print D (snd p)) m"
| "reals_print D _ = True"

lemma wellformed_writable: "wellformed v \<Longrightarrow> reals_print D v \<Longrightarrow> writable D v"
proof (induction v)
  case (arrayValue m)
  have "list_all (\<lambda>p. writable D (snd p)) m"
    using arrayValue by (fastforce simp: list_all_iff snds.simps)
  with arrayValue.prems show ?case by simp
next
  case (objectValue m)
  have "list_all (\<lambda>p. writable D (snd p)) m"
    using objectValue by (fastforce simp: list_all_iff snds.simps)
  with objectValue.prems show ?case by simp
qed auto

lemma scan_digits_bound:
  assumes "scan_digits th n s = Number m" "unat n < 10 * unat th" "10 * unat th < 2 ^ 32"
  shows "unat m < 10 * unat th"
  using assms
proof (induction th n s rule: scan_digits.induct)
  case (2 th n c s)
  let ?n = "n * 10 + word_of_nat (uc c - 48)"
  have c: "uc c \<le> 57" "n < th" "scan_digits th ?n s = Number m"
    using 2(2) by (auto split: if_splits)
  have lt: "unat n * 10 + (uc c - 48) < 10 * unat th"
    using c(1,2) by (simp add: word_less_nat_alt)
  then have "unat ?n = unat n * 10 + (uc c - 48)"
    using 2(4) by (simp add: unat_word_ariths unat_of_nat)
  then show ?case
    using 2 c lt by (simp split: if_splits)
qed auto

lemma sint_of_int32: "- 2147483648 \<le> k \<Longrightarrow> k < 2147483648 \<Longrightarrow> sint (word_of_int k :: 32 word) = k"
  by (simp add: signed_of_int signed_take_bit_int_eq_self)

lemma decodeNumber_wellformed:
  assumes "decodeNumber D t = Decoded v"
  shows "wellformed v"
proof -
  have dd: "wellformed v" if "decodeDouble D t = Decoded v"
    using that by (auto simp: decodeDouble_def Let_def split: if_splits option.splits)
  have neg: "sint (- n) > - 2147483640" if "scan_digits (- minInt div 10) 0 s = Number n" for s n
  proof -
    have b: "unat n < 2147483640"
      using scan_digits_bound[OF that] by (simp add: unat_thresholds)
    have "sint (word_of_int (- int (unat n)) :: 32 word) = - int (unat n)"
      using b by (intro sint_of_int32) linarith+
    moreover have "(word_of_int (- int (unat n)) :: 32 word) = - n"
      by simp
    ultimately have "sint (- n) = - int (unat n)"
      by (simp only:)
    then show ?thesis using b by linarith
  qed
  have pos: "uint n < 4294967290" if "scan_digits (maxUInt div 10) 0 s = Number n" for s n
  proof -
    have "unat n < 4294967290"
      using scan_digits_bound[OF that] by (simp add: unat_thresholds)
    then show ?thesis unfolding uint_nat by linarith
  qed
  have small: "sint n > - 2147483640" if "n \<le> maxInt" for n :: "32 word"
  proof -
    have "uint n < 2147483648"
      using that uint_maxInt by (simp add: word_le_def)
    moreover have "0 \<le> uint n"
      by simp
    ultimately have "sint (word_of_int (uint n) :: 32 word) = uint n"
      by (intro sint_of_int32) linarith+
    then have "sint n = uint n"
      by simp
    then show ?thesis using \<open>0 \<le> uint n\<close> by linarith
  qed
  show ?thesis
  proof (cases "looks_double t")
    case True
    then show ?thesis using assms dd by (simp add: decodeNumber_def)
  next
    case False
    show ?thesis
    proof (cases "peek t = CHR ''-''")
      case True
      then show ?thesis
        using assms False dd neg by (auto simp: decodeNumber_def split: scanned.splits)
    next
      case plain: False
      then show ?thesis
        using assms False dd pos small
        by (auto simp: decodeNumber_def not_le split: scanned.splits if_splits)
    qed
  qed
qed

section \<open>What the reader makes\<close>

text \<open>A result whose value is wellformed, from a suffix that only gets shorter.\<close>

definition makes_ok :: "'d reading \<Rightarrow> bool" where
  "makes_ok r = (case r of Read ok x s \<Rightarrow> wellformed x | _ \<Rightarrow> True)"

lemma makes_ok_simps [simp]: "makes_ok (Read ok x s) = wellformed x" "makes_ok Smash" "makes_ok No_fuel"
  by (simp_all add: makes_ok_def)

text \<open>The elements and the members read so far.\<close>

definition elements_ok :: "nat \<Rightarrow> (czstring \<times> 'd jvalue) list \<Rightarrow> bool" where
  "elements_ok k m \<longleftrightarrow> map fst m = map (\<lambda>i. Index (int i)) [0..<k] \<and> list_all (\<lambda>p. wellformed (snd p)) m"

lemma elements_ok_length: "elements_ok k m \<Longrightarrow> length m = k"
  by (metis elements_ok_def diff_zero length_map length_upt)

lemma elements_ok_wellformed:
  assumes "elements_ok k m" "k < 2 ^ 31"
  shows "wellformed (arrayValue m)"
proof -
  have l: "k = length m" using elements_ok_length[OF assms(1)] ..
  then show ?thesis
    using assms unfolding elements_ok_def wellformed.simps by blast
qed

lemma elements_ok_below: "elements_ok k m \<Longrightarrow> \<forall>p\<in>set m. fst p < Index (int k)"
proof
  fix p assume m: "elements_ok k m" "p \<in> set m"
  then have "fst p \<in> set (map (\<lambda>i. Index (int i)) [0..<k])"
    by (metis elements_ok_def image_eqI list.set_map)
  then show "fst p < Index (int k)" by auto
qed

lemma elements_ok_put:
  assumes "elements_ok k m" "wellformed x"
  shows "map_put (Index (int k)) x m = m @ [(Index (int k), x)]" "elements_ok (Suc k) (m @ [(Index (int k), x)])"
proof -
  show "map_put (Index (int k)) x m = m @ [(Index (int k), x)]"
    by (rule map_put_last[OF elements_ok_below[OF assms(1)]])
  show "elements_ok (Suc k) (m @ [(Index (int k), x)])"
    using assms unfolding elements_ok_def by simp
qed

lemma map_put_overwrite: "\<forall>p\<in>set m. fst p < k \<Longrightarrow> map_put k x (m @ [(k, y)]) = m @ [(k, x)]"
  for k :: "'k::linorder"
  by (induction m) auto

lemma resolve_elements:
  assumes "elements_ok k m"
  shows "resolve (Index (int k)) m = (nullValue, m @ [(Index (int k), nullValue)])"
proof -
  have "map_of m (Index (int k)) = None"
    using elements_ok_below[OF assms] by (force simp: map_of_eq_None_iff)
  then show ?thesis
    using elements_ok_put(1)[OF assms, of nullValue] by (simp add: resolve_def)
qed

definition members_ok :: "(czstring \<times> 'd jvalue) list \<Rightarrow> bool" where
  "members_ok m \<longleftrightarrow> wellformed (objectValue m)"

lemma set_map_put: "p \<in> set (map_put k x m) \<Longrightarrow> p = (k, x) \<or> p \<in> set m"
  by (induction m) (auto split: if_splits)

lemma members_ok_put:
  assumes "members_ok m" "wellformed x"
  shows "members_ok (map_put (skey name) x m)"
proof -
  have "wellformed (snd p) \<and> \<not> is_Index (fst p) \<and> key_ok (fst p)" if "p \<in> set (map_put (skey name) x m)" for p
    using set_map_put[OF that] assms by (auto simp: members_ok_def skey_def list_all_iff)
  then show ?thesis
    using assms(1) by (auto simp: members_ok_def list_all_iff ordered_map_put)
qed

lemma members_ok_resolve:
  assumes "members_ok m" "resolve (skey name) m = (old, m1)"
  shows "wellformed old" "members_ok m1"
  using assms members_ok_put[OF assms(1), of nullValue name]
  by (auto simp: resolve_def members_ok_def list_all_iff dest!: map_of_SomeD split: option.splits)

lemma readValue_step_ok:
  assumes "wellformed v" "length s < 2 ^ 31"
    "\<And>m s'. length s' < length s \<Longrightarrow> members_ok m \<Longrightarrow> makes_ok (object [] m s')"
    "\<And>s'. length s' < length s \<Longrightarrow> makes_ok (array 0 [] s')"
  shows "makes_ok (readValue_step D F object array v s)"
proof -
  obtain ty t s1 where r: "skipCommentTokens F s = (ty, t, s1)" by (metis prod_cases3)
  have le: "ty \<noteq> tokenEndOfStream \<Longrightarrow> length s1 < length s \<and> length (skipSpaces s1) < length s"
    using skipCommentTokens_length[OF r] le_less_trans[OF length_skipSpaces] by blast
  have o: "members_ok []" by (simp add: members_ok_def)
  show ?thesis
    using le assms o
    by (auto simp: readValue_step_def r Let_def decodeNumber_wellformed
        split: token_type.split decoded.split option.split prod.split)
qed

lemma after_member_ok:
  assumes "members_ok m" "\<And>s'. length s' \<le> length s \<Longrightarrow> makes_ok (again s')"
  shows "makes_ok (after_member again m s)"
proof -
  obtain ty t s1 where r: "readToken s = (ty, t, s1)" by (metis prod_cases3)
  obtain ty2 t2 s2 where c: "skip_comments s1 = (ty2, t2, s2)" by (metis prod_cases3)
  have "length s1 \<le> length s" "length s2 \<le> length s"
    using readToken_length(1)[OF r] skip_comments_length[OF c] by auto
  then show ?thesis
    using assms by (auto simp: after_member_def r c members_ok_def)
qed

lemma readObject_step_ok:
  assumes "members_ok m"
    "\<And>v s'. length s' < length s \<Longrightarrow> wellformed v \<Longrightarrow> makes_ok (value v s')"
    "\<And>v s'. shrinks True s' (value v s')"
    "\<And>name m s'. length s' < length s \<Longrightarrow> members_ok m \<Longrightarrow> makes_ok (again name m s')"
  shows "makes_ok (readObject_step value again name m s)"
proof -
  obtain ty t s1 where r: "skip_comments s = (ty, t, s1)" by (metis prod_cases3)
  obtain ty2 t2 s2 where c: "readToken s1 = (ty2, t2, s2)" by (metis prod_cases3)
  have le: "ty \<noteq> tokenEndOfStream \<Longrightarrow> length s2 < length s"
    using skip_comments_length[OF r] readToken_length(1)[OF c] by auto
  have "makes_ok (case value old s2 of
      Read ok x s3 \<Rightarrow>
        (let m2 = map_put (skey n) x m1 in
         if ok then after_member (again n m2) m2 s3
         else Read False (objectValue m2) (recoverFromError tokenObjectEnd s3))
    | r \<Rightarrow> r)" if ty: "ty \<noteq> tokenEndOfStream" and res: "resolve (skey n) m = (old, m1)" for old m1 n
  proof (cases "value old s2")
    case (Read ok x s3)
    note m1 = members_ok_resolve[OF assms(1) res]
    have x: "wellformed x"
      using assms(2)[OF le[OF ty] m1(1)] by (simp add: Read)
    have s3: "length s3 \<le> length s2"
      using assms(3)[of s2 old] by (simp add: Read)
    note m2 = members_ok_put[OF m1(2) x, of n]
    have "makes_ok (again n (map_put (skey n) x m1) s')" if "length s' \<le> length s3" for s'
      using assms(4)[OF _ m2] that s3 le[OF ty] by auto
    then show ?thesis
      using m2 after_member_ok[OF m2] by (auto simp: Read Let_def members_ok_def)
  qed simp_all
  then show ?thesis
    using assms(1) by (auto simp: readObject_step_def r c members_ok_def split: option.split prod.split)
qed

lemma readArray_step_ok:
  assumes "elements_ok k m" "Suc k + length s < 2 ^ 31"
    "\<And>v s'. length s' \<le> length s \<Longrightarrow> wellformed v \<Longrightarrow> makes_ok (value v s')"
    "\<And>v s'. shrinks True s' (value v s')"
    "\<And>m s'. length s' < length s \<Longrightarrow> elements_ok (Suc k) m \<Longrightarrow> makes_ok (again (word_of_nat k + 1) m s')"
  shows "makes_ok (readArray_step value again (word_of_nat k) m s)"
proof -
  have key: "ikey (word_of_nat k) = Index (int k)" using assms(2) by (intro ikey_of_nat) simp
  show ?thesis
  proof (cases "value nullValue s")
    case (Read ok x s1)
    obtain ty t s2 where c: "skip_comments s1 = (ty, t, s2)" by (metis prod_cases3)
    have x: "wellformed x" using assms(3)[of s nullValue] by (simp add: Read)
    have le: "length s1 \<le> length s" "ok \<Longrightarrow> length s1 < length s" "length s2 \<le> length s1"
      using assms(4)[of s nullValue] skip_comments_length[OF c] by (auto simp: Read)
    note m2 = elements_ok_put(2)[OF assms(1) x]
    have "wellformed (arrayValue (m @ [(Index (int k), x)]))"
      using assms(2) by (intro elements_ok_wellformed[OF m2]) simp
    moreover have "map_put (Index (int k)) x (m @ [(Index (int k), nullValue)]) = m @ [(Index (int k), x)]"
      by (rule map_put_overwrite[OF elements_ok_below[OF assms(1)]])
    ultimately show ?thesis
      using assms(5)[OF _ m2] le
      by (auto simp: readArray_step_def key resolve_elements[OF assms(1)] Read c Let_def simp del: wellformed.simps)
  qed (simp_all add: readArray_step_def key resolve_elements[OF assms(1)])
qed

lemma read_ok:
  "(length s < 2 ^ 31 \<longrightarrow> wellformed v \<longrightarrow> makes_ok (readValue D F n v s)) \<and>
   (length s < 2 ^ 31 \<longrightarrow> members_ok m \<longrightarrow> makes_ok (readObject D F n name m s)) \<and>
   (Suc k + length s < 2 ^ 31 \<longrightarrow> elements_ok k m' \<longrightarrow> makes_ok (readArray D F n (word_of_nat k) m' s))"
proof (induction n arbitrary: s v name m m' k)
  case (Suc n)
  have v: "makes_ok (readValue D F n v s')" if "length s' < 2 ^ 31" "wellformed v" for v s'
    using Suc that by blast
  have o: "makes_ok (readObject D F n name m s')" if "length s' < 2 ^ 31" "members_ok m" for s' name m
    using Suc that by blast
  have a: "makes_ok (readArray D F n (word_of_nat k) m s')" if "Suc k + length s' < 2 ^ 31" "elements_ok k m" for s' k m
    using Suc that by blast
  have sh: "shrinks True s' (readValue D F n v s')" for s' v
    using read_shrinks by blast
  have "makes_ok (readArray D F n 0 [] s')" if "length s' < length s" "length s < 2 ^ 31" for s'
    using a[of 0 s' "[]"] that by (simp add: elements_ok_def)
  then have "makes_ok (readValue_step D F (readObject D F n) (readArray D F n) v s)"
    if "length s < 2 ^ 31" "wellformed v" using that o by (intro readValue_step_ok) auto
  moreover have "makes_ok (readObject_step (readValue D F n) (readObject D F n) name m s)"
    if "length s < 2 ^ 31" "members_ok m" using that o v sh by (intro readObject_step_ok) auto
  moreover have "makes_ok (readArray D F n (word_of_nat k + 1) m s')"
    if "Suc k + length s < 2 ^ 31" "length s' < length s" "elements_ok (Suc k) m" for s' m
    using a[of "Suc k" s' m] that by (simp add: add.commute)
  then have "makes_ok (readArray_step (readValue D F n) (readArray D F n) (word_of_nat k) m' s)"
    if "Suc k + length s < 2 ^ 31" "elements_ok k m'" using that v sh by (intro readArray_step_ok) auto
  ultimately show ?case
    by simp
qed simp

end
