(* ===== verification/JsonText.thy ===== *)
theory JsonText imports JsonRound begin

text \<open>
  The escapes of strings: the code points that \<open>decodeUnicodeCodePoint\<close> gives, and their bytes
  in UTF-8 as RFC 3629 has them.
\<close>

unbundle bit_operations_syntax

fun utf8_bytes :: "nat \<Rightarrow> nat list" where
  "utf8_bytes n =
    (if n < 0x80 then [n]
     else if n < 0x800 then [0xC0 + n div 64, 0x80 + n mod 64]
     else if n < 0x10000 then [0xE0 + n div 4096, 0x80 + n div 64 mod 64, 0x80 + n mod 64]
     else [0xF0 + n div 262144, 0x80 + n div 4096 mod 64, 0x80 + n div 64 mod 64, 0x80 + n mod 64])"

lemma or_small:
  assumes "x < 2 ^ k"
  shows "push_bit k c OR x = push_bit k c + (x :: nat)"
proof -
  have "push_bit k c AND take_bit k x = 0"
    by (rule bit_eqI) (auto simp: bit_simps)
  then show ?thesis
    using assms by (simp add: take_bit_nat_eq_self disjunctive_add_eq_or)
qed

lemma unat_mask_and: "unat (mask n AND (w :: 32 word)) = unat w mod 2 ^ n"
  by (metis and.commute take_bit_eq_mask unsigned_take_bit_eq take_bit_eq_mod)

lemma unat_bits:
  "unat (0x3FF AND (w :: 32 word)) = unat w mod 1024" "unat (0x3F AND (w :: 32 word)) = unat w mod 64"
  "unat (0x1F AND (w :: 32 word)) = unat w mod 32" "unat (0xF AND (w :: 32 word)) = unat w mod 16"
  "unat (0x7 AND (w :: 32 word)) = unat w mod 8" "unat (drop_bit n (w :: 32 word)) = unat w div 2 ^ n"
  using unat_mask_and[of 10 w] unat_mask_and[of 6 w] unat_mask_and[of 5 w] unat_mask_and[of 4 w] unat_mask_and[of 3 w]
    unat_drop_bit_eq[of n w]
  by (simp_all only: drop_bit_eq_div) (simp_all add: mask_eq_exp_minus_1)

lemma uc_or:
  assumes "unat c = push_bit k d" "unat w < 2 ^ k" "unat c + unat w < 256"
  shows "uc (char_of (unat (c OR (w :: 32 word)))) = unat c + unat w"
proof -
  have "unat (c OR w) = unat c + unat w"
    using or_small[OF assms(2), of d] by (simp add: unsigned_or_eq assms(1))
  then show ?thesis using assms(3) by (simp add: uc_char_of)
qed

lemma uc_utf8_unit:
  "unat (w :: 32 word) < 64 \<Longrightarrow> uc (char_of (unat (0x80 OR w))) = 0x80 + unat w"
  "unat (w :: 32 word) < 32 \<Longrightarrow> uc (char_of (unat (0xC0 OR w))) = 0xC0 + unat w"
  "unat (w :: 32 word) < 16 \<Longrightarrow> uc (char_of (unat (0xE0 OR w))) = 0xE0 + unat w"
  "unat (w :: 32 word) < 8 \<Longrightarrow> uc (char_of (unat (0xF0 OR w))) = 0xF0 + unat w"
  using uc_or[of "0x80" 7 1 w] uc_or[of "0xC0" 6 3 w] uc_or[of "0xE0" 5 7 w] uc_or[of "0xF0" 4 15 w]
  by simp_all

lemma codePointToUTF8_bytes:
  "map uc (codePointToUTF8 cp) = (if unat cp \<le> 0x10FFFF then utf8_bytes (unat cp) else [])"
proof -
  have d: "unat cp div 64 mod 32 = unat cp div 64" if "unat cp < 0x800" using that by simp
  have e: "unat cp div 4096 mod 16 = unat cp div 4096" if "unat cp < 0x10000" using that by simp
  have f: "unat cp div 262144 mod 8 = unat cp div 262144" if "unat cp \<le> 0x10FFFF" using that by simp
  show ?thesis
    using d e f by (auto simp: codePointToUTF8_def word_le_nat_alt unat_bits uc_utf8_unit uc_char_of Let_def)
qed

lemma hex_digit_less: "hex_digit c = Some d \<Longrightarrow> d < 16"
  by (auto simp: hex_digit_def split: if_splits)

lemma hex_loop_bound:
  "hex_loop n u s = Some (v, s') \<Longrightarrow> unat u < 16 ^ k \<Longrightarrow> k + n \<le> 7 \<Longrightarrow> unat v < 16 ^ (k + n)"
proof (induction n u s arbitrary: k rule: hex_loop.induct)
  case (3 n u c s)
  then obtain d where d: "hex_digit c = Some d" "hex_loop n (u * 16 + word_of_nat d) s = Some (v, s')"
    by (auto split: option.splits)
  have "d < 16" by (rule hex_digit_less[OF d(1)])
  have "(16 :: nat) ^ k \<le> 16 ^ 6"
    using 3(4) by (intro power_increasing) auto
  then have lt: "unat u * 16 + d < 16 ^ Suc k" "unat u * 16 + d < 2 ^ 32"
    using 3(3) \<open>d < 16\<close> by auto
  have "unat (u * 16 + word_of_nat d) = unat u * 16 + d"
    using lt(2) \<open>d < 16\<close> by (simp add: unat_word_ariths unat_of_nat)
  then have "unat v < 16 ^ (Suc k + n)"
    using 3(4) lt(1) by (intro 3(1)[OF d]) auto
  then show ?case by simp
qed simp_all

lemma decodeUnicodeCodePoint_bound:
  assumes "decodeUnicodeCodePoint s = Some (u, s')"
  shows "unat u \<le> 0x10FFFF"
proof -
  have seq: "unat v < 0x10000" if "decodeUnicodeEscapeSequence s = Some (v, s')" for s v s'
    using that hex_loop_bound[of 4 0 s v s' 0] by (auto simp: decodeUnicodeEscapeSequence_def split: if_splits)
  have pair: "unat (0x10000 + push_bit 10 (a AND 0x3FF) + (b AND 0x3FF) :: 32 word) \<le> 0x10FFFF" for a b :: "32 word"
  proof -
    have x: "unat (a AND 0x3FF) < 1024" "unat (b AND 0x3FF) < 1024"
      by (simp_all add: unat_bits and.commute[of _ "0x3FF"])
    have "unat (push_bit 10 (a AND 0x3FF)) = unat (a AND 0x3FF) * 1024"
      using x(1) by (simp add: push_bit_eq_mult unat_word_ariths)
    with x show ?thesis
      by (simp add: unat_word_ariths)
  qed
  show ?thesis
    using assms seq pair by (fastforce simp: decodeUnicodeCodePoint_def split: option.splits if_splits)
qed
end
