(* ===== verification/JsonOps.thy ===== *)
theory JsonOps imports JsonRound begin

text \<open>
  The operations of values: arrays that grow and shrink, and the order and equality of values.
\<close>

unbundle bit_operations_syntax

section \<open>Resizing an array\<close>

text \<open>An array that grows gets one element, at its last index, which leaves a hole below it.\<close>

lemma resize_up:
  assumes "length xs < unat k" "unat k < 2 ^ 31"
  shows "resize k (arrayValue (indexed xs)) = Some (arrayValue (indexed xs @ [(Index (uint k - 1), nullValue)]))"
    and "vsize (arrayValue (indexed xs @ [(Index (uint k - 1), nullValue)])) = k"
proof -
  have len: "length xs < 2 ^ 31" using assms by simp
  have "vsize (arrayValue (indexed xs)) < k"
    unfolding vsize_indexed[OF len] using assms by (simp add: word_less_nat_alt unat_of_nat take_bit_nat_eq_self)
  moreover have "k \<noteq> 0" using assms(1) by auto
  moreover have key: "ikey (k - 1) = Index (uint k - 1)"
  proof -
    have "k - 1 = word_of_nat (unat k - 1)"
      using \<open>k \<noteq> 0\<close> by (simp add: of_nat_diff Suc_leI unat_gt_0)
    moreover have "int (unat k - 1) = uint k - 1"
      using assms(1) by simp
    moreover have "ikey (word_of_nat (unat k - 1)) = Index (int (unat k - 1))"
      by (rule ikey_of_nat) (use assms in simp)
    ultimately show ?thesis by (simp only:)
  qed
  have below: "\<forall>p\<in>set (indexed xs). fst p < Index (uint k - 1) "
  proof
    fix p assume "p \<in> set (indexed xs)"
    then have "fst p < Index (int (length xs))" by (rule fst_indexed)
    also have "\<dots> \<le> Index (uint k - 1)"
    proof -
      have "int (length xs) \<le> uint k - 1" using assms(1) unfolding uint_nat by linarith
      then show ?thesis by (auto simp: less_eq_czstring_def)
    qed
    finally show "fst p < Index (uint k - 1)" .
  qed
  ultimately show "resize k (arrayValue (indexed xs)) = Some (arrayValue (indexed xs @ [(Index (uint k - 1), nullValue)]))"
    using map_put_last[OF below, of nullValue] below
    by (auto simp: resize_array_def Let_def resolve_def key map_of_eq_None_iff split: option.split)
  show "vsize (arrayValue (indexed xs @ [(Index (uint k - 1), nullValue)])) = k"
    by simp
qed


lemma erase_from_filter:
  "i + n \<le> 2 ^ 31 \<Longrightarrow> erase_from (word_of_nat i) n m = filter (\<lambda>p. \<forall>j\<in>{i..<i + n}. fst p \<noteq> Index (int j)) m"
proof (induction n arbitrary: i m)
  case (Suc n)
  have "ikey (word_of_nat i) = Index (int i)"
    using Suc.prems by (intro ikey_of_nat) simp
  moreover have "{i..<i + Suc n} = insert i {Suc i..<Suc i + n}" by auto
  moreover have "erase_from (word_of_nat (Suc i)) n (map_erase (Index (int i)) m) =
      filter (\<lambda>p. \<forall>j\<in>{Suc i..<Suc i + n}. fst p \<noteq> Index (int j)) (map_erase (Index (int i)) m)"
    using Suc.prems by (intro Suc.IH) simp
  ultimately show ?case
    by (simp add: map_erase_def add.commute conj_commute)
qed simp

lemma resize_down:
  fixes n k :: "32 word"
  assumes "length xs < unat n" "unat n < unat k" "unat k < 2 ^ 31"
  shows "resize n (arrayValue (indexed xs @ [(Index (uint k - 1), nullValue)])) = None"
proof -
  let ?m = "indexed xs @ [(Index (uint k - 1), nullValue)]"
  have size: "vsize (arrayValue ?m) = k"
    by (rule resize_up(2)) (use assms in auto)
  have keep: "\<forall>p\<in>set (indexed xs). \<forall>j\<in>{unat n..<unat k}. fst p \<noteq> Index (int j)"
  proof (intro ballI)
    fix p j assume "p \<in> set (indexed xs)" "j \<in> {unat n..<unat k}"
    then show "fst p \<noteq> Index (int j)"
      using fst_indexed[of p xs] assms(1) by auto
  qed
  have last: "\<exists>j\<in>{unat n..<unat k}. Index (uint k - 1) = Index (int j)"
    using assms by (intro bexI[of _ "unat k - 1"]) auto
  have "erase_from (word_of_nat (unat n)) (unat k - unat n) ?m = indexed xs"
    using assms keep last by (subst erase_from_filter) (auto simp: filter_id_conv)
  then have e: "erase_from n (unat k - unat n) ?m = indexed xs" by simp
  have "vsize (arrayValue (indexed xs)) \<noteq> n"
  proof -
    have "vsize (arrayValue (indexed xs)) = word_of_nat (length xs)"
      using assms by (intro vsize_indexed) simp
    moreover have "unat (word_of_nat (length xs) :: 32 word) = length xs"
      using assms by (simp add: unat_of_nat take_bit_nat_eq_self)
    ultimately show ?thesis
      using assms(1) by force
  qed
  moreover have "n \<noteq> 0" "\<not> k < n" using assms by (auto simp: word_less_nat_alt)
  ultimately show ?thesis
    by (simp add: resize_array_def Let_def size e del: vsize.simps)
qed

section \<open>Order and equality\<close>

text \<open>Values without doubles whose strings and names hold no NUL.\<close>

fun comparable :: "'d jvalue \<Rightarrow> bool" where
  "comparable (realValue r) = False"
| "comparable (stringValue s) = (case s of Some t \<Rightarrow> nul_free t | None \<Rightarrow> True)"
| "comparable (arrayValue m) = list_all (\<lambda>p. is_Index (fst p) \<and> comparable (snd p)) m"
| "comparable (objectValue m) = list_all (\<lambda>p. \<not> is_Index (fst p) \<and> key_ok (fst p) \<and> comparable (snd p)) m"
| "comparable _ = True"

definition one_of :: "bool \<Rightarrow> bool \<Rightarrow> bool \<Rightarrow> bool" where
  "one_of a b c \<longleftrightarrow> (a \<and> \<not> b \<and> \<not> c) \<or> (\<not> a \<and> b \<and> \<not> c) \<or> (\<not> a \<and> \<not> b \<and> c)"

text \<open>Exactly one of the three, for the strings and then for values and maps.\<close>

lemma string_one_of:
  "(case s of Some t \<Rightarrow> nul_free t | None \<Rightarrow> True) \<Longrightarrow> (case s' of Some t \<Rightarrow> nul_free t | None \<Rightarrow> True) \<Longrightarrow>
    one_of (string_less s s') (s = s') (string_less s' s) \<and> string_eq s s' = (s = s')"
  by (auto simp: one_of_def string_less_def string_eq_def strcmp_less strcmp_eq split: option.splits)

definition keys_ok :: "bool \<Rightarrow> (czstring \<times> 'd jvalue) list \<Rightarrow> bool" where
  "keys_ok b m \<longleftrightarrow> list_all (\<lambda>p. is_Index (fst p) = b \<and> key_ok (fst p) \<and> comparable (snd p)) m"

lemma comparable_keys:
  "comparable (arrayValue m) \<longleftrightarrow> keys_ok True m" "comparable (objectValue m) \<longleftrightarrow> keys_ok False m"
proof -
  have "is_Index k \<Longrightarrow> key_ok k" for k by (cases k) auto
  then show "comparable (arrayValue m) \<longleftrightarrow> keys_ok True m"
    by (auto simp: keys_ok_def list_all_iff)
  show "comparable (objectValue m) \<longleftrightarrow> keys_ok False m"
    by (auto simp: keys_ok_def list_all_iff)
qed

lemma value_one_of:
  "comparable a \<Longrightarrow> comparable b \<Longrightarrow> one_of (value_less D a b) (a = b) (value_less D b a)"
  "keys_ok k m \<Longrightarrow> keys_ok k n \<Longrightarrow> length m = length n \<Longrightarrow> one_of (members_less D m n) (m = n) (members_less D n m)"
proof (induction D a b and D m n arbitrary: and k rule: value_less_members_less.induct)
  case (1 D b)
  then show ?case by (cases b) (auto simp: one_of_def)
next
  case (2 D i b)
  have "sint i = sint j \<Longrightarrow> i = j" for j :: "32 word"
    by (rule signed_word_eqI)
  then show ?case by (cases b) (force simp: one_of_def)+
next
  case (3 D i b)
  then show ?case by (cases b) (auto simp: one_of_def)
next
  case (4 D r b)
  then show ?case by simp
next
  case (5 D p b)
  then show ?case by (cases b) (auto simp: one_of_def)
next
  case (6 D s b)
  show ?case
  proof (cases b)
    case (stringValue s')
    then show ?thesis using 6 string_one_of[of s s'] by simp
  qed (auto simp: one_of_def)
next
  case (7 D m b)
  show ?case
  proof (cases b)
    case (arrayValue n)
    then show ?thesis
      using 7 by (cases "length m = length n") (auto simp: comparable_keys one_of_def simp del: comparable.simps)
  qed (auto simp: one_of_def)
next
  case (8 D m b)
  show ?case
  proof (cases b)
    case (objectValue n)
    then show ?thesis
      using 8 by (cases "length m = length n") (auto simp: comparable_keys one_of_def simp del: comparable.simps)
  qed (auto simp: one_of_def)
next
  case (12 D k1 x m l y n)
  have keys: "key_ok k1" "key_ok l" "is_Index k1 = is_Index l"
    using 12(4,5) by (auto simp: keys_ok_def)
  then have o: "czstring_less k1 l \<longleftrightarrow> k1 < l" "czstring_less l k1 \<longleftrightarrow> l < k1"
    using czstring_less_order by blast+
  have c: "comparable x" "comparable y" "keys_ok k m" "keys_ok k n"
    using 12(4,5) by (auto simp: keys_ok_def)
  show ?case
  proof (cases "k1 = l")
    case False
    then show ?thesis by (auto simp: o one_of_def)
  next
    case True
    have "\<not> czstring_less l l" using o(1) by (simp add: True)
    with True show ?thesis using 12 c by (auto simp: one_of_def)
  qed
qed (auto simp: one_of_def)

lemma czstring_eq_eq: "key_ok a \<Longrightarrow> key_ok b \<Longrightarrow> czstring_eq a b \<longleftrightarrow> a = b"
  by (cases a; cases b) (auto simp: strcmp_eq)

lemma value_eq_eq:
  "comparable a \<Longrightarrow> comparable b \<Longrightarrow> value_eq D a b \<longleftrightarrow> a = b"
  "keys_ok k m \<Longrightarrow> keys_ok k n \<Longrightarrow> length m = length n \<Longrightarrow> members_eq D m n \<longleftrightarrow> m = n"
proof (induction D a b and D m n arbitrary: and k rule: value_eq_members_eq.induct)
  case (1 D b)
  then show ?case by (cases b) auto
next
  case (6 D s b)
  then show ?case by (cases b) (use string_one_of in auto)
next
  case (7 D m b)
  then show ?case
    by (cases b) (auto simp: comparable_keys simp del: comparable.simps)
next
  case (8 D m b)
  then show ?case
    by (cases b) (auto simp: comparable_keys simp del: comparable.simps)
next
  case (11 D k1 x m l y n)
  then show ?case
    by (auto simp: keys_ok_def czstring_eq_eq)
qed (auto split: jvalue.split)

end
