(* ===== verification/JsonProps.thy ===== *)
theory JsonProps imports JsonForm JsonText JsonOps begin

text \<open>
  The properties of the JSON library: the round trip, the end of every parse, numbers,
  escapes in UTF-8, and where the reader, a conversion or an array does not do what it should.
\<close>

unbundle bit_operations_syntax

section \<open>Reading ends\<close>

text \<open>
  C15. Every parse ends: the bound on the recursion that \<open>parse\<close> uses is never reached, and any
  larger one gives the same result.
\<close>

theorem parse_returns:
  "parse D F document root \<noteq> No_fuel \<and>
   readValue D F (2 * length document + 1 + k) root document = readValue D F (2 * length document + 1) root document"
proof -
  have "readValue D F (2 * length document + 1) root document \<noteq> No_fuel"
    using read_fuel by blast
  then have "parse D F document root \<noteq> No_fuel"
    unfolding parse_def by (auto split: reading.split prod.split)
  then show ?thesis
    using readValue_enough by blast
qed

section \<open>The round trip\<close>

lemma parse_text:
  assumes "writable D v" "strictRoot F \<longrightarrow> isArray v \<or> isObject v" "stops rest" "skipCommentTokens F rest = (ty, t, rest')"
  shows "parse D F (text_of D yaml v @ rest) root = Read True v rest'"
proof -
  have "readValue D F (2 * length (text_of D yaml v @ rest) + 1) root (text_of D yaml v @ rest) = Read True v rest"
    by (rule reads_backD(5)[OF writable_reads_back[OF assms(1)] assms(3)]) simp
  then show ?thesis
    using assms(2,4) by (simp add: parse_def)
qed

lemma skip_end: "skipCommentTokens F [CHR 0x0A] = (tokenEndOfStream, [], [])"
  "skipCommentTokens F [] = (tokenEndOfStream, [], [])"
  by (simp_all add: skipCommentTokens_def skip_comments.simps readToken_def json_space_def token_switch_def is_digit_def)

lemma written_parsed:
  assumes "writable D v" and "strictRoot F \<longrightarrow> isArray v \<or> isObject v"
  shows "\<exists>t. FastWriter_write D yaml v = Some t \<and> parse D F t root = Read True v []"
  using parse_text[OF assms _ skip_end(1), of yaml root] reads_backD(1)[OF writable_reads_back[OF assms(1)], of yaml]
  by (simp add: FastWriter_write_def)

text \<open>
  C3. What \<open>FastWriter\<close> writes, with or without the compatibility with YAML, \<open>parse\<close> reads back
  with nothing left: for every value whose strings and names hold no NUL, whose members
  are ordered, whose arrays have no holes and whose numbers have texts that are read as such.
\<close>

theorem json_roundtrip:
  assumes "writable D v" and "strictRoot F \<longrightarrow> isArray v \<or> isObject v"
  shows "\<exists>t. FastWriter_write D yaml v = Some t \<and> parse D F t root = Read True v []"
  using assms by (rule written_parsed)

definition sample_doubles :: "unit doubles" where
  "sample_doubles = \<lparr>d_zero = (), d_of_int = (\<lambda>_. ()), d_trunc = (\<lambda>_. 0), d_less = (\<lambda>_ _. False),
    d_le = (\<lambda>_ _. True), d_eq = (\<lambda>_ _. True), d_scan = (\<lambda>_. None), d_print = (\<lambda>_. ''0'')\<rparr>"

definition sample_value :: "unit jvalue" where
  "sample_value = objectValue
    [(Cstr [], arrayValue [(Index 0, intValue (- 12)), (Index 1, nullValue), (Index 2, arrayValue [])]),
     (Cstr ''a'', stringValue (Some [CHR 0x22, CHR 0x07, CHR 0xC3, CHR 0xA9, CHR 0x5C])),
     (Cstr ''b'', booleanValue False)]"

lemma sample_writable: "writable sample_doubles sample_value"
  by (simp add: sample_value_def less_czstring.simps)

theorem json_roundtrip_witness:
  "\<exists>t. FastWriter_write sample_doubles True sample_value = Some t \<and>
    parse sample_doubles Features_strictMode t nullValue = Read True sample_value []"
proof -
  have "strictRoot Features_strictMode \<longrightarrow> isArray sample_value \<or> isObject sample_value"
    by (simp add: isObject_def sample_value_def)
  from json_roundtrip[OF sample_writable this] show ?thesis .
qed

section \<open>Numbers\<close>

lemma parse_number:
  assumes "t \<noteq> []" "is_digit (hd t) \<or> hd t = CHR ''-''" "list_all number_char t"
  shows "parse D Features_all t root =
    (case decodeNumber D t of Decoded v \<Rightarrow> Read True v [] | Refused \<Rightarrow> Read False root [] | Smashed \<Rightarrow> Smash)"
proof -
  have "readToken t = (tokenNumber, t, [])"
    using number_token(3)[OF assms, of "[]"] by simp
  then have "skipCommentTokens Features_all t = (tokenNumber, t, [])"
    using skipCommentTokens_eq by blast
  then show ?thesis
    by (simp add: parse_def readValue_step_def skip_end Features_all_def split: decoded.split)
qed

lemma parse_32:
  assumes "length t = 32" "is_digit (hd t) \<or> hd t = CHR ''-''" "list_all number_char t" "looks_double t"
  shows "parse D Features_all t root = Smash"
proof -
  have "t \<noteq> []" using assms(1) by auto
  then show ?thesis
    using assms by (simp add: parse_number decodeNumber_def decodeDouble_def)
qed

text \<open>
  A number of exactly 32 characters that is read as a double writes one character past
  the buffer on the stack, whatever else it is.
\<close>

theorem number_of_32_smashes:
  assumes "length t = 32" and "is_digit (hd t) \<or> hd t = CHR ''-''" and "list_all number_char t"
    and "looks_double t"
  shows "parse D Features_all t root = Smash"
  using assms by (rule parse_32)

theorem number_of_32_smashes_witness:
  "parse sample_doubles Features_all (CHR ''1'' # CHR ''.'' # replicate 30 (CHR ''0'')) nullValue = Smash"
  by (rule number_of_32_smashes) (simp_all add: is_digit_def number_char_def looks_double_def list_all_iff)

text \<open>
  Whole numbers that the writer prints: those above \<open>-2147483640\<close> are read back exactly, the
  unsigned ones below 4294967290 as the same number, and the few beyond are left to the
  C library as doubles.
\<close>

theorem printed_integers:
  "parse D Features_all (valueToString_int i) root =
     (if sint i > - 2147483640 then Read True (intValue i) []
      else case d_scan D (valueToString_int i) of Some r \<Rightarrow> Read True (realValue r) [] | None \<Rightarrow> Read False root [])
   \<and> parse D Features_all (valueToString_uint u) root =
     (if uint u < 4294967290 then Read True (if u \<le> maxInt then intValue u else uintValue u) []
      else case d_scan D (valueToString_uint u) of Some r \<Rightarrow> Read True (realValue r) [] | None \<Rightarrow> Read False root [])"
proof -
  have "length (decimal (unat w)) \<le> 10" for w :: "32 word"
    using unsigned_less[of w] by (intro length_decimal) (auto intro: order_less_trans)
  then have "length (decimal (unat w)) < 31" for w :: "32 word"
    by (rule le_less_trans) simp
  then have len: "length (valueToString_int i) < 32" "length (valueToString_uint u) < 32"
    by (simp_all add: int_text valueToString_uint_def uintToString_def digits_before_decimal less_SucI numeral_eq_Suc)
  have dd: "decodeDouble D t = (case d_scan D t of None \<Rightarrow> Refused | Some r \<Rightarrow> Decoded (realValue r))"
    if "length t < 32" for t using that by (simp add: decodeDouble_def)
  show ?thesis
    by (simp add: parse_number[OF number_text(1,3,2)] parse_number[OF number_text(4,6,5)]
        decode_int decode_uint dd len split: option.split)
qed

section \<open>The form of what is read\<close>

text \<open>
  C18. The values \<open>parse\<close> makes of a document shorter than 2 ^ 31, also of one with errors: strings and
  names without NUL, members in order without repetition, arrays without holes, whole numbers in the
  bounds in which they are printed and read back. So if moreover each double in the value is read back from
  the text it is printed as (\<^const>\<open>reals_print\<close>), what was parsed, written and parsed again is the same.
\<close>

theorem parse_wellformed:
  assumes "length document < 2 ^ 31" and "parse D F document nullValue = Read ok v rest"
  shows "wellformed v \<and> (reals_print D v \<longrightarrow>
    (\<exists>t. FastWriter_write D yaml v = Some t \<and> parse D Features_all t root = Read True v []))"
proof -
  have "makes_ok (readValue D F (2 * length document + 1) nullValue document)"
    using read_ok assms(1) wellformed.simps(1) by blast
  then have v: "wellformed v"
    using assms(2) by (auto simp: parse_def split: reading.splits prod.splits if_splits)
  have "strictRoot Features_all \<longrightarrow> isArray v \<or> isObject v"
    by (simp add: Features_all_def)
  from written_parsed[OF _ this] wellformed_writable[OF v] v show ?thesis
    by blast
qed

theorem parse_wellformed_witness:
  "\<exists>t. FastWriter_write sample_doubles False (arrayValue [(Index 0, intValue 7)]) = Some t \<and>
    parse sample_doubles Features_all t nullValue = Read True (arrayValue [(Index 0, intValue 7)]) []"
proof -
  have "parse sample_doubles Features_all ''[7]'' nullValue = Read True (arrayValue [(Index 0, intValue 7)]) []"
    by code_simp
  from parse_wellformed[OF _ this, where root = nullValue and yaml = False] show ?thesis
    by simp
qed

section \<open>Escapes\<close>

text \<open>
  C31. The code points of the escapes are at most \<open>0x10FFFF\<close>, and \<open>codePointToUTF8\<close> gives their
  bytes in UTF-8.
\<close>

theorem escapes_are_utf8:
  assumes "decodeUnicodeCodePoint s = Some (u, s')"
  shows "unat u \<le> 0x10FFFF \<and> map uc (codePointToUTF8 u) = utf8_bytes (unat u)"
  using decodeUnicodeCodePoint_bound[OF assms] codePointToUTF8_bytes[of u] by simp

theorem escapes_are_utf8_witness:
  "map uc (codePointToUTF8 0x1F600) = utf8_bytes 0x1F600"
proof -
  have "decodeUnicodeCodePoint (''d83d'' @ CHR 0x5C # ''ude00!'') = Some (0x1F600, ''!'')"
    by code_simp
  from escapes_are_utf8[OF this] show ?thesis by simp
qed

section \<open>Separators\<close>

text \<open>
  C30. Between two elements of an array any token but a comment or the closing bracket will do,
  because the test for a wrong one asks whether it is a comma and a bracket at once: with a colon, a
  brace, a value or a token that is in error in the place of the comma, the same array is read without
  an error. The token must not run into its neighbours: it ends where the second element starts, and
  does not continue a number before it.
\<close>

theorem array_separator_unchecked:
  assumes "writable D x" and "writeValue D False x = Some t"
    and "writable D y" and "writeValue D False y = Some u"
    and "readToken (sep @ u @ '']'') = (ty, tok, u @ '']'')" and "ty \<noteq> tokenComment" "ty \<noteq> tokenArrayEnd"
    and "stops (sep @ u @ '']'')"
  shows "parse D Features_all (''['' @ t @ sep @ u @ '']'') root =
    Read True (arrayValue [(Index 0, x), (Index 1, y)]) []"
proof -
  have x: "reads_back D False x" "t = text_of D False x" and y: "reads_back D False y" "u = text_of D False y"
    using assms by (auto simp: writable_reads_back text_of_def)
  let ?rest = "sep @ u @ '']''" and ?n = "2 * length (t @ sep @ u @ '']'')"
  note sep = assms(8) and tok = assms(5-7)
  have val: "readValue D Features_all (Suc ?n) v (t @ ?rest) = Read True x ?rest" for v
    unfolding x(2) by (rule reads_backD(5)[OF x(1) sep]) simp
  have "ikey 0 = Index 0" by (simp add: ikey_def)
  then have "readArray D Features_all (Suc (Suc ?n)) 0 [] (t @ ?rest) =
      readArray D Features_all (Suc ?n) 1 [(Index 0, x)] (u @ '']'')"
    using val skipCommentTokens_eq[OF tok(1,2)] tok(3)
    by (simp add: readArray_step_def resolve_def Let_def del: readValue.simps)
  also have "\<dots> = Read True (arrayValue [(Index 0, x), (Index 1, y)]) []"
  proof -
    have "1 \<le> length t" using reads_backD(3)[OF x(1)] x(2) by (simp add: Suc_le_eq)
    then have "readArray D Features_all (Suc ?n) (word_of_nat (length [x])) (indexed [x])
        (joined True (map (text_of D False) [y]) @ CHR '']'' # []) = Read True (arrayValue (indexed ([x] @ [y]))) []"
      by (intro readArray_elements) (simp_all add: y(1) flip: y(2))
    then show ?thesis
      by (simp add: y(2) indexed_def del: readArray.simps)
  qed
  finally have "readArray D Features_all (Suc (Suc ?n)) 0 [] (t @ ?rest) =
      Read True (arrayValue [(Index 0, x), (Index 1, y)]) []" .
  moreover note t = reads_backD(2-4)[OF x(1), folded x(2)]
  moreover have "peek (t @ ?rest) = peek t"
    using t(2) by (cases t) simp_all
  ultimately have "readValue D Features_all (Suc (Suc (Suc ?n))) root (CHR ''['' # t @ ?rest) =
      Read True (arrayValue [(Index 0, x), (Index 1, y)]) []"
    by (simp add: readValue_array skipSpaces_id del: readValue.simps readArray.simps)
  then show ?thesis
    by (simp add: parse_def skip_end Features_all_def del: readValue.simps)
qed

theorem array_separator_unchecked_witness:
  "list_all (\<lambda>sep. parse sample_doubles Features_all (''[1'' @ sep @ ''2]'') nullValue =
      Read True (arrayValue [(Index 0, intValue 1), (Index 1, intValue 2)]) []) ['':'', ''}'', ''{'', '' true'', ''@'']"
  unfolding list_all_iff
proof
  fix sep assume "sep \<in> set ['':'', ''}'', ''{'', '' true'', ''@'']"
  then have sep: "sep \<in> {'':'', ''}'', ''{'', '' true'', ''@''}" by simp
  have w: "writeValue sample_doubles False (intValue 1) = Some ''1''" "writeValue sample_doubles False (intValue 2) = Some ''2''"
    by code_simp+
  have "readToken ('':'' @ ''2'' @ '']'') = (tokenMemberSeparator, '':'', ''2'' @ '']'')"
    "readToken (''}'' @ ''2'' @ '']'') = (tokenObjectEnd, ''}'', ''2'' @ '']'')"
    "readToken (''{'' @ ''2'' @ '']'') = (tokenObjectBegin, ''{'', ''2'' @ '']'')"
    "readToken ('' true'' @ ''2'' @ '']'') = (tokenTrue, ''true'', ''2'' @ '']'')"
    "readToken (''@'' @ ''2'' @ '']'') = (tokenError, ''@'', ''2'' @ '']'')"
    by code_simp+
  with sep obtain ty tok where "readToken (sep @ ''2'' @ '']'') = (ty, tok, ''2'' @ '']'')" "ty \<noteq> tokenComment" "ty \<noteq> tokenArrayEnd"
    by (elim insertE emptyE) blast+
  moreover have "stops (sep @ ''2'' @ '']'')" using sep by (auto simp: stops_def number_char_def is_digit_def)
  ultimately have "parse sample_doubles Features_all (''['' @ ''1'' @ sep @ ''2'' @ '']'') nullValue =
      Read True (arrayValue [(Index 0, intValue 1), (Index 1, intValue 2)]) []"
    by (intro array_separator_unchecked[OF _ w(1) _ w(2)]) simp_all
  then show "parse sample_doubles Features_all (''[1'' @ sep @ ''2]'') nullValue =
      Read True (arrayValue [(Index 0, intValue 1), (Index 1, intValue 2)]) []" by simp
qed

section \<open>Conversions\<close>

text \<open>
  What \<open>isConvertibleTo\<close> promises the conversions keep, but for two mistakes: the unsigned
  value \<open>maxInt\<close> is not converted to an int, and no number is converted to a string.
\<close>

theorem conversions:
  "(isConvertibleTo D v T_int \<and> asInt D v = None \<longleftrightarrow> v = uintValue maxInt) \<and>
   \<not> (isConvertibleTo D v T_uint \<and> asUInt D v = None) \<and>
   \<not> (isConvertibleTo D v T_real \<and> asDouble D v = None) \<and>
   (isConvertibleTo D v T_string \<and> asString v = None \<longleftrightarrow> vtype v \<in> {T_int, T_uint, T_real})"
  by (cases v) auto

section \<open>Resizing\<close>

text \<open>
  An array made longer has the size asked for, but made shorter again to a size above what
  it had it fails the assertion at the end of \<open>resize\<close>: only the last element was made.
\<close>

theorem resize_up_and_down:
  assumes "length xs < unat n" and "unat n < unat k" and "unat k < 2 ^ 31"
  shows "\<exists>v. resize k (arrayValue (indexed xs)) = Some v \<and> vsize v = k \<and> resize n v = None"
  using resize_up[of xs k] resize_down[of xs n k] assms by auto

theorem resize_up_and_down_witness:
  "\<exists>v. resize 6 (arrayValue (indexed [intValue 1])) = Some v \<and> vsize v = 6 \<and> resize 3 v = None"
  using resize_up_and_down[of "[intValue 1]" 3 6] by simp

section \<open>Order\<close>

text \<open>
  C35. Of two values without doubles and NULs exactly one is less than the other, or they are
  equal, and \<open>operator==\<close> says so.
\<close>

theorem values_ordered:
  assumes "comparable a" and "comparable b"
  shows "one_of (value_less D a b) (a = b) (value_less D b a) \<and> value_eq D a b = (a = b)"
  using assms value_one_of(1) value_eq_eq(1) by blast

theorem values_ordered_witness:
  "one_of (value_less sample_doubles (arrayValue [(Index 0, nullValue)]) (booleanValue True)) False
     (value_less sample_doubles (booleanValue True) (arrayValue [(Index 0, nullValue)]))"
  using values_ordered[of "arrayValue [(Index 0, nullValue)]" "booleanValue True" sample_doubles] by simp

end
