(* ===== verification/JsonServer.thy ===== *)
theory JsonServer imports Server JsonProps begin

text \<open>
  The server with jsoncpp as its JSON library: requests as bytes in, replies as bytes out.
\<close>

unbundle bit_operations_syntax

section \<open>The library as the server uses it\<close>

text \<open>
  \<open>value["..."]\<close> on the parsed value is the non-constant \<open>operator[]\<close>; the member it may add to
  the value is null like the missing one, so the value is kept.
\<close>

fun item_value :: "item \<Rightarrow> 'd jvalue" where
  "item_value (J_int i) = intValue (word_of_int i)"
| "item_value (J_str s) = stringValue (Some (c_str s))"

text \<open>\<open>return_item["..."] = \<dots>\<close>, starting from a null value.\<close>

definition set_member :: "string \<times> item \<Rightarrow> 'd jvalue \<Rightarrow> 'd jvalue" where
  "set_member p v =
    (case resolveReference (fst p) v of
       None \<Rightarrow> v
     | Some (_, v') \<Rightarrow> store_key (skey (fst p)) (item_value (snd p)) v')"

definition reply_value :: "(string \<times> item) list \<Rightarrow> 'd jvalue" where
  "reply_value items = fold set_member items nullValue"

definition jsoncpp :: "'d doubles \<Rightarrow> 'd jvalue json_lib" where
  "jsoncpp D = \<lparr>
    j_parse = (\<lambda>s. case parse D Features_all s nullValue of
        Read successful v rest \<Rightarrow> if successful then Parsed v else Unparsed
      | _ \<Rightarrow> Corrupts),
    j_get = (\<lambda>v k. map_option fst (resolveReference k v)),
    j_isNull = isNull,
    j_asString = asString,
    j_write = (\<lambda>items. the (FastWriter_write D False (reply_value items)))\<rparr>"

section \<open>Requests\<close>

text \<open>What a client asks, the document it sends, the query it is about and the reply to it.\<close>

datatype request = Login string string | Register string string

abbreviation str :: "string \<Rightarrow> 'd jvalue" where
  "str s \<equiv> stringValue (Some s)"

fun request_value :: "request \<Rightarrow> 'd jvalue" where
  "request_value (Login u p) =
    objectValue [(Cstr ''FunctionName'', str ''login''), (Cstr ''User_login'', str u), (Cstr ''User_pass'', str p)]"
| "request_value (Register u p) =
    objectValue [(Cstr ''FunctionName'', str ''register''), (Cstr ''PhoneNO'', str u), (Cstr ''Pwd'', str p)]"

fun request_ok :: "request \<Rightarrow> bool" where
  "request_ok (Login u p) = (nul_free u \<and> nul_free p)"
| "request_ok (Register u p) = (nul_free u \<and> nul_free p)"

fun request_done :: "mysql \<Rightarrow> request \<Rightarrow> bool" where
  "request_done M (Login u p) = user_login_func M u p"
| "request_done M (Register u p) = user_register_func M u p"

fun request_reply :: "request \<Rightarrow> bool \<Rightarrow> string" where
  "request_reply r True = ''{'' @ [CHR 0x22] @ ''error_code'' @ [CHR 0x22] @ '':0}'' @ [CHR 0x0A]"
| "request_reply (Login u p) False = ''{'' @ [CHR 0x22] @ ''error_code'' @ [CHR 0x22] @ '':-121,'' @ [CHR 0x22] @
    ''error_desc'' @ [CHR 0x22] @ '':'' @ [CHR 0x22] @ ''login failed,maybe the account or password mistake.'' @
    [CHR 0x22] @ ''}'' @ [CHR 0x0A]"
| "request_reply (Register u p) False = ''{'' @ [CHR 0x22] @ ''error_code'' @ [CHR 0x22] @ '':-111,'' @ [CHR 0x22] @
    ''error_desc'' @ [CHR 0x22] @ '':'' @ [CHR 0x22] @ ''register failed,maybe user_login duplicate.'' @
    [CHR 0x22] @ ''}'' @ [CHR 0x0A]"

lemma request_writable: "request_ok r \<Longrightarrow> writable D (request_value r)"
  by (cases r) simp_all

text \<open>The text of a request has no NUL.\<close>

lemma escaped_nul_free: "c \<noteq> CHR 0x00 \<Longrightarrow> nul_free (escaped c)"
proof -
  have "upper_hex d \<noteq> CHR 0x00" if "d < 16" for d
  proof -
    have "uc (upper_hex d) \<noteq> uc (CHR 0x00)"
      using that by (simp add: uc_upper_hex)
    then show ?thesis by metis
  qed
  moreover have "uc c div 16 < 16" "uc c mod 16 < 16"
    using uc_less_256[of c] by linarith+
  moreover assume "c \<noteq> CHR 0x00"
  ultimately show ?thesis
    by (simp add: escaped_def)
qed

lemma quoted_nul_free: "nul_free s \<Longrightarrow> nul_free (valueToQuotedString s)"
proof -
  assume "nul_free s"
  then have "nul_free (concat (map escaped s))"
    using escaped_nul_free by (induction s) simp_all
  with \<open>nul_free s\<close> show ?thesis
    by (simp add: valueToQuotedString_alt)
qed

lemma request_text_nul_free:
  assumes "request_ok r" "FastWriter_write D yaml (request_value r) = Some t"
  shows "nul_free t"
  using assms
  by (cases r) (auto simp: FastWriter_write_def member_texts_def skey_def quoted_nul_free)

lemma replies:
  "j_write (jsoncpp D) [(''error_code'', J_int 0)] = request_reply r True"
  "j_write (jsoncpp D) (error_reply (-121) ''login failed,maybe the account or password mistake.'') =
    request_reply (Login u p) False"
  "j_write (jsoncpp D) (error_reply (-111) ''register failed,maybe user_login duplicate.'') =
    request_reply (Register u p) False"
  by code_simp+

lemma jsoncpp_parse:
  assumes "request_ok r" "FastWriter_write D yaml (request_value r) = Some t"
  shows "j_parse (jsoncpp D) t = Parsed (request_value r)"
proof -
  have "strictRoot Features_all \<longrightarrow> isArray (request_value r) \<or> isObject (request_value r)"
    by (simp add: Features_all_def)
  from written_parsed[OF request_writable[OF assms(1)] this, of D yaml nullValue] show ?thesis
    using assms(2) by (auto simp: jsoncpp_def)
qed

lemma jsoncpp_get:
  "j_get (jsoncpp D) (request_value (Login u p)) ''FunctionName'' = Some (str ''login'')"
  "j_get (jsoncpp D) (request_value (Login u p)) ''User_login'' = Some (str u)"
  "j_get (jsoncpp D) (request_value (Login u p)) ''User_pass'' = Some (str p)"
  "j_get (jsoncpp D) (request_value (Register u p)) ''FunctionName'' = Some (str ''register'')"
  "j_get (jsoncpp D) (request_value (Register u p)) ''PhoneNO'' = Some (str u)"
  "j_get (jsoncpp D) (request_value (Register u p)) ''Pwd'' = Some (str p)"
  by (simp_all add: jsoncpp_def resolve_def skey_def)

lemma jsoncpp_string:
  "nul_free s \<Longrightarrow> j_asString (jsoncpp D) (str s) = Some s" "\<not> j_isNull (jsoncpp D) (str s)"
  by (simp_all add: jsoncpp_def isNull_def)

section \<open>Any object as a request\<close>








section \<open>Properties\<close>

text \<open>
  C2. The server and its libraries together: the text that a client writes with \<open>FastWriter\<close> for
  a login or a registration, up to 4095 bytes long, is answered with the bytes of the reply
  that says whether \<open>user_login_func\<close> or \<open>user_register_func\<close> succeeded on exactly the two
  strings of the request; the client stays connected.
\<close>

theorem request_served:
  assumes "request_ok r" and "FastWriter_write D yaml (request_value r) = Some t"
    and "length t < 4096" and "initDB M \<noteq> None"
  shows "buffered_on_read (jsoncpp D) M t True c = Some (request_reply r (request_done M r), c, [])"
proof -
  have "buffer_string t = Some t"
    using request_text_nul_free[OF assms(1,2)] assms(3)
    by (auto simp: buffer_string_alt nul_free_def takeWhile_eq_all_conv)
  moreover note jsoncpp_parse[OF assms(1,2)]
  ultimately show ?thesis
    using assms(1,4)
    by (cases r) (auto simp: buffered_on_read_def read_reply_def call_db_def get_string_def jsoncpp_get jsoncpp_string
      replies[unfolded request_reply.simps] simp del: request_value.simps)
qed

theorem request_served_witness:
  "\<exists>t. FastWriter_write sample_doubles False (request_value (Login ''13800000000'' [CHR 0x22])) = Some t \<and>
    buffered_on_read (jsoncpp sample_doubles) (sample_mysql []) t True sample_client =
      Some (request_reply (Login ''13800000000'' [CHR 0x22])
        (request_done (sample_mysql []) (Login ''13800000000'' [CHR 0x22])), sample_client, [])"
proof -
  let ?r = "Login ''13800000000'' [CHR 0x22]"
  have ok: "request_ok ?r" by simp
  have "FastWriter_write sample_doubles False (request_value ?r) \<noteq> None"
    "length (the (FastWriter_write sample_doubles False (request_value ?r))) < 4096"
    by code_simp+
  then obtain t where t: "FastWriter_write sample_doubles False (request_value ?r) = Some t" "length t < 4096"
    by (metis option.collapse)
  have "initDB (sample_mysql []) \<noteq> None"
    by (simp add: initDB_def sample_mysql_def)
  from request_served[OF ok t this, of sample_client] t(1) show ?thesis
    by blast
qed



text \<open>
  C27. A request of 32 bytes that is one number with a point, an exponent or a sign inside makes
  the parser write outside its buffer: anyone who connects can have this done.
\<close>

theorem number_request_corrupts:
  assumes "length t = 32" and "is_digit (hd t) \<or> hd t = CHR ''-''" and "list_all number_char t"
    and "looks_double t"
  shows "read_reply (jsoncpp D) M t = Corrupted"
proof -
  have "CHR 0x00 \<notin> set t"
    using assms(3) by (auto simp: list_all_iff number_char_def is_digit_def)
  then have "buffer_string t = Some t"
    using assms(1) by (auto simp: buffer_string_alt takeWhile_eq_all_conv)
  then show ?thesis
    by (simp add: read_reply_def jsoncpp_def parse_32[OF assms])
qed

theorem number_request_corrupts_witness:
  "read_reply (jsoncpp sample_doubles) (sample_mysql []) (CHR ''1'' # CHR ''.'' # replicate 30 (CHR ''0'')) = Corrupted"
  by (rule number_request_corrupts) (simp_all add: is_digit_def number_char_def looks_double_def list_all_iff)

end
