(* ===== verification/EvChain.thy ===== *)
theory EvChain imports Prelude "HOL-Library.Monad_Syntax" "HOL-Library.While_Combinator" begin

text \<open>
  The chains of libevent's buffers (\<open>evbuffer-internal.h\<close> and the chain helpers of
  \<open>buffer.c\<close>): one block of memory with the data it holds somewhere in the middle.

  Memory is a list of cells; a cell is \<^const>\<open>None\<close> until something is written there. Every
  computation of the buffer code is an option: \<^const>\<open>None\<close> is a run that ends in a failed
  \<open>EVUTIL_ASSERT\<close>, a null dereference or a copy outside a block of memory. Sizes are those
  of a 64-bit build.
\<close>

section \<open>Machine sizes\<close>

definition EV_SIZE_MAX :: nat where "EV_SIZE_MAX = 2 ^ 64 - 1"

definition EV_SSIZE_MAX :: nat where "EV_SSIZE_MAX = 2 ^ 63 - 1"

definition EVBUFFER_CHAIN_MAX :: nat where "EVBUFFER_CHAIN_MAX = EV_SSIZE_MAX"

definition EVBUFFER_CHAIN_SIZE :: nat where "EVBUFFER_CHAIN_SIZE = 48"

definition MIN_BUFFER_SIZE :: nat where "MIN_BUFFER_SIZE = 1024"

text \<open>\<open>a + b\<close> and \<open>a - b\<close> in \<open>size_t\<close>.\<close>

definition size_add :: "nat \<Rightarrow> nat \<Rightarrow> nat" where "size_add a b = (a + b) mod 2 ^ 64"

definition size_sub :: "nat \<Rightarrow> nat \<Rightarrow> nat" where
  "size_sub a b = nat ((int a - int b) mod 2 ^ 64)"

lemma size_add_fits: "a + b \<le> EV_SIZE_MAX \<Longrightarrow> size_add a b = a + b"
  by (simp add: size_add_def EV_SIZE_MAX_def)

lemma size_sub_fits: "b \<le> a \<Longrightarrow> a \<le> EV_SIZE_MAX \<Longrightarrow> size_sub a b = a - b"
proof -
  assume "b \<le> a" and "a \<le> EV_SIZE_MAX"
  then have "(int a - int b) mod 2 ^ 64 = int a - int b"
    by (intro mod_pos_pos_trivial) (auto simp: EV_SIZE_MAX_def)
  then show ?thesis by (simp add: size_sub_def nat_diff_distrib)
qed

section \<open>Memory\<close>

type_synonym cell = "8 word option"

definition check :: "bool \<Rightarrow> unit option" where
  "check P = (if P then Some () else None)"

definition memcpy :: "nat \<Rightarrow> 'a list \<Rightarrow> 'a list \<Rightarrow> 'a list option" where
  "memcpy p data m =
    (if p + length data \<le> length m then Some (take p m @ data @ drop (p + length data) m) else None)"

definition memread :: "nat \<Rightarrow> nat \<Rightarrow> 'a list \<Rightarrow> 'a list option" where
  "memread p n m = (if p + n \<le> length m then Some (take n (drop p m)) else None)"

lemma check_simps [simp]: "check True = Some ()" "check False = None"
  by (simp_all add: check_def)

lemma check_bind [simp]: "check P \<bind> f = (if P then f () else None)"
  by (simp add: check_def)

lemma check_eq_Some [simp]: "check P = Some u \<longleftrightarrow> P"
  by (simp add: check_def)

lemma memcpy_fits: "p + length d \<le> length m \<Longrightarrow> memcpy p d m = Some (take p m @ d @ drop (p + length d) m)"
  by (simp add: memcpy_def)

lemma memread_fits: "p + n \<le> length m \<Longrightarrow> memread p n m = Some (take n (drop p m))"
  by (simp add: memread_def)

lemma memcpy_length: "memcpy p d m = Some m' \<Longrightarrow> length m' = length m"
  by (auto simp: memcpy_def split: if_splits)

section \<open>Chains\<close>

datatype chain_flag =
  EVBUFFER_MMAP | EVBUFFER_SENDFILE | EVBUFFER_REFERENCE | EVBUFFER_IMMUTABLE
| EVBUFFER_MEM_PINNED_R | EVBUFFER_MEM_PINNED_W | EVBUFFER_DANGLING

text \<open>
  \<open>struct evbuffer_chain\<close>: \<open>next\<close> is the position in the list of chains, \<open>buffer_len\<close> the length
  of the memory; \<open>addr\<close> is the address \<open>buffer\<close> points at, and \<open>cleanupfn\<close> names the function
  of a chain that refers to foreign memory.
\<close>

record evchain =
  addr :: nat
  buffer :: "cell list"
  misalign :: nat
  off :: nat
  flags :: "chain_flag set"
  cleanupfn :: "nat option"

abbreviation buffer_len :: "evchain \<Rightarrow> nat" where
  "buffer_len c \<equiv> length (buffer c)"

definition CHAIN_SPACE_PTR :: "evchain \<Rightarrow> nat" where
  "CHAIN_SPACE_PTR ch = addr ch + misalign ch + off ch"

definition CHAIN_SPACE_LEN :: "evchain \<Rightarrow> nat" where
  "CHAIN_SPACE_LEN ch =
    (if EVBUFFER_IMMUTABLE \<in> flags ch then 0 else size_sub (buffer_len ch) (misalign ch + off ch))"

definition CHAIN_PINNED :: "evchain \<Rightarrow> bool" where
  "CHAIN_PINNED ch \<longleftrightarrow> EVBUFFER_MEM_PINNED_R \<in> flags ch \<or> EVBUFFER_MEM_PINNED_W \<in> flags ch"

definition CHAIN_PINNED_R :: "evchain \<Rightarrow> bool" where
  "CHAIN_PINNED_R ch \<longleftrightarrow> EVBUFFER_MEM_PINNED_R \<in> flags ch"

text \<open>
  \<open>evbuffer_chain_new\<close>. What \<open>mm_malloc\<close> answers to a request is the parameter \<open>al\<close>: an
  address, or nothing. The loop doubles in \<open>size_t\<close>.
\<close>

definition round_alloc :: "nat \<Rightarrow> nat" where
  "round_alloc sz = while (\<lambda>to_alloc. to_alloc < sz) (\<lambda>to_alloc. (2 * to_alloc) mod 2 ^ 64) MIN_BUFFER_SIZE"

definition evbuffer_chain_new :: "(nat \<Rightarrow> nat option) \<Rightarrow> nat \<Rightarrow> evchain option" where
  "evbuffer_chain_new al size0 =
    (if size0 > EVBUFFER_CHAIN_MAX - EVBUFFER_CHAIN_SIZE then None
     else
       let sz = size0 + EVBUFFER_CHAIN_SIZE;
           to_alloc = (if sz < EVBUFFER_CHAIN_MAX div 2 then round_alloc sz else sz)
       in case al to_alloc of
            None \<Rightarrow> None
          | Some a \<Rightarrow> Some \<lparr>addr = a + EVBUFFER_CHAIN_SIZE,
                            buffer = replicate (to_alloc - EVBUFFER_CHAIN_SIZE) None,
                            misalign = 0, off = 0, flags = {}, cleanupfn = None\<rparr>)"

text \<open>\<open>_evbuffer_chain_pin\<close> and \<open>_evbuffer_chain_unpin\<close>; the second part of the result says
  whether the chain is freed.\<close>

definition evbuffer_chain_pin :: "evchain \<Rightarrow> chain_flag \<Rightarrow> evchain option" where
  "evbuffer_chain_pin chain flag = do {
    check (flag \<notin> flags chain);
    Some (chain\<lparr>flags := insert flag (flags chain)\<rparr>)
  }"

definition evbuffer_chain_unpin :: "evchain \<Rightarrow> chain_flag \<Rightarrow> (evchain \<times> bool) option" where
  "evbuffer_chain_unpin chain flag = do {
    check (flag \<in> flags chain);
    let chain = chain\<lparr>flags := flags chain - {flag}\<rparr>;
    Some (chain, EVBUFFER_DANGLING \<in> flags chain \<and> \<not> CHAIN_PINNED chain)
  }"

definition evbuffer_chain_align :: "evchain \<Rightarrow> evchain option" where
  "evbuffer_chain_align chain = do {
    check (EVBUFFER_IMMUTABLE \<notin> flags chain);
    check (\<not> CHAIN_PINNED chain);
    data \<leftarrow> memread (misalign chain) (off chain) (buffer chain);
    m \<leftarrow> memcpy 0 data (buffer chain);
    Some (chain\<lparr>buffer := m, misalign := 0\<rparr>)
  }"

definition MAX_TO_COPY_IN_EXPAND :: nat where "MAX_TO_COPY_IN_EXPAND = 4096"

definition MAX_TO_REALIGN_IN_EXPAND :: nat where "MAX_TO_REALIGN_IN_EXPAND = 2048"

definition EVBUFFER_CHAIN_MAX_AUTO_SIZE :: nat where "EVBUFFER_CHAIN_MAX_AUTO_SIZE = 4096"

definition evbuffer_chain_should_realign :: "evchain \<Rightarrow> nat \<Rightarrow> bool" where
  "evbuffer_chain_should_realign chain datalen \<longleftrightarrow>
    size_sub (buffer_len chain) (off chain) \<ge> datalen \<and>
    off chain < buffer_len chain div 2 \<and>
    off chain \<le> MAX_TO_REALIGN_IN_EXPAND"

text \<open>What the code does in several places: copy data behind the data of a chain, and read
  the first bytes of a chain.\<close>

definition chain_append :: "evchain \<Rightarrow> cell list \<Rightarrow> evchain option" where
  "chain_append chain data = do {
    m \<leftarrow> memcpy (misalign chain + off chain) data (buffer chain);
    Some (chain\<lparr>buffer := m, off := off chain + length data\<rparr>)
  }"

definition chain_read :: "evchain \<Rightarrow> nat \<Rightarrow> cell list option" where
  "chain_read chain n = memread (misalign chain) n (buffer chain)"

fun evbuffer_chains_all_empty :: "evchain list \<Rightarrow> bool" where
  "evbuffer_chains_all_empty [] = True"
| "evbuffer_chains_all_empty (chain # cs) = (if off chain \<noteq> 0 then False else evbuffer_chains_all_empty cs)"

section \<open>What the chains of a buffer promise\<close>

text \<open>The data of a chain, and its well-formedness: the data lies in the memory, the memory is no
  larger than the size the code allows, and memory that may not be written has no room left.\<close>

definition content :: "evchain \<Rightarrow> cell list" where
  "content c = take (off c) (drop (misalign c) (buffer c))"

definition chain_ok :: "evchain \<Rightarrow> bool" where
  "chain_ok c \<longleftrightarrow> misalign c + off c \<le> buffer_len c \<and> buffer_len c \<le> EVBUFFER_CHAIN_MAX \<and>
    (EVBUFFER_IMMUTABLE \<in> flags c \<longrightarrow> misalign c + off c = buffer_len c)"

lemma chain_okD:
  assumes "chain_ok c"
  shows "misalign c + off c \<le> buffer_len c" "buffer_len c \<le> EVBUFFER_CHAIN_MAX"
    "misalign c \<le> EVBUFFER_CHAIN_MAX" "off c \<le> EVBUFFER_CHAIN_MAX" "off c \<le> buffer_len c"
  using assms by (auto simp: chain_ok_def)

lemma chain_max_less: "EVBUFFER_CHAIN_MAX \<le> EV_SIZE_MAX"
  by (simp add: EVBUFFER_CHAIN_MAX_def EV_SSIZE_MAX_def EV_SIZE_MAX_def)

lemma length_content: "chain_ok c \<Longrightarrow> length (content c) = off c"
  by (auto simp: content_def chain_ok_def)

lemma space_len: "chain_ok c \<Longrightarrow>
  CHAIN_SPACE_LEN c = (if EVBUFFER_IMMUTABLE \<in> flags c then 0 else buffer_len c - (misalign c + off c))"
  using chain_max_less by (auto simp: CHAIN_SPACE_LEN_def chain_ok_def intro!: size_sub_fits)

lemma space_len_bound: "chain_ok c \<Longrightarrow> CHAIN_SPACE_LEN c = buffer_len c - (misalign c + off c)"
  by (auto simp: space_len chain_ok_def)

lemma should_realign_iff: "chain_ok c \<Longrightarrow> evbuffer_chain_should_realign c n \<longleftrightarrow>
    buffer_len c - off c \<ge> n \<and> off c < buffer_len c div 2 \<and> off c \<le> MAX_TO_REALIGN_IN_EXPAND"
  using chain_max_less
  by (simp add: evbuffer_chain_should_realign_def size_sub_fits chain_ok_def)

lemma chain_read_content: "chain_ok c \<Longrightarrow> chain_read c (off c) = Some (content c)"
  by (simp add: chain_read_def memread_fits content_def chain_ok_def)

lemma chain_read_take: "chain_ok c \<Longrightarrow> n \<le> off c \<Longrightarrow> chain_read c n = Some (take n (content c))"
  by (simp add: chain_read_def memread_fits content_def chain_ok_def min_def)

lemma all_empty_iff: "evbuffer_chains_all_empty cs \<longleftrightarrow> list_all (\<lambda>c. off c = 0) cs"
  by (induction cs) auto

lemma chain_append_ok:
  assumes "chain_ok c" "length data \<le> buffer_len c - (misalign c + off c)"
    "data = [] \<or> EVBUFFER_IMMUTABLE \<notin> flags c"
  obtains c' where "chain_append c data = Some c'" "chain_ok c'" "content c' = content c @ data"
    "off c' = off c + length data" "flags c' = flags c" "cleanupfn c' = cleanupfn c"
    "misalign c' = misalign c" "buffer_len c' = buffer_len c" "addr c' = addr c"
proof -
  let ?m = "take (misalign c + off c) (buffer c) @ data
              @ drop (misalign c + off c + length data) (buffer c)"
  let ?c = "c\<lparr>buffer := ?m, off := off c + length data\<rparr>"
  have fits: "misalign c + off c + length data \<le> buffer_len c"
    using assms(2) chain_okD(1) [OF assms(1)] by linarith
  have app: "chain_append c data = Some ?c"
    using fits by (simp add: chain_append_def memcpy_fits)
  have len: "length ?m = buffer_len c" using fits by simp
  have "length (take (misalign c + off c) (buffer c)) = misalign c + off c" using fits by simp
  then have "drop (misalign c) ?m
      = content c @ data @ drop (misalign c + off c + length data) (buffer c)"
    by (simp add: content_def drop_take)
  then have cont: "content ?c = content c @ data"
    using length_content [OF assms(1)] by (simp add: content_def [of ?c])
  have "chain_ok ?c" using assms(1,3) fits len by (auto simp: chain_ok_def)
  with app cont len show ?thesis by (intro that [of ?c]) simp_all
qed

lemma chain_align_ok:
  assumes "chain_ok c" "EVBUFFER_IMMUTABLE \<notin> flags c" "\<not> CHAIN_PINNED c"
  obtains c' where "evbuffer_chain_align c = Some c'" "chain_ok c'" "content c' = content c"
    "off c' = off c" "flags c' = flags c" "cleanupfn c' = cleanupfn c" "misalign c' = 0"
    "buffer_len c' = buffer_len c" "addr c' = addr c"
proof -
  have l: "length (content c) = off c" using assms(1) by (rule length_content)
  let ?m = "content c @ drop (off c) (buffer c)"
  let ?c = "c\<lparr>buffer := ?m, misalign := 0\<rparr>"
  have len: "length ?m = buffer_len c" using l assms(1) by (simp add: chain_ok_def)
  have "evbuffer_chain_align c = Some ?c"
    using assms l by (simp add: evbuffer_chain_align_def memread_fits memcpy_fits chain_ok_def content_def)
  moreover have "content ?c = content c" using l by (simp add: content_def)
  moreover have "chain_ok ?c" using assms(1,2) len by (auto simp: chain_ok_def)
  ultimately show ?thesis using len by (intro that [of ?c]) simp_all
qed

text \<open>Dropping from the front.\<close>

lemma content_advance:
  "n \<le> off c \<Longrightarrow> content (c\<lparr>misalign := misalign c + n, off := off c - n\<rparr>) = drop n (content c)"
  by (simp add: content_def drop_take add.commute)

lemma chain_ok_advance: "chain_ok c \<Longrightarrow> n \<le> off c \<Longrightarrow> chain_ok (c\<lparr>misalign := misalign c + n, off := off c - n\<rparr>)"
  by (auto simp: chain_ok_def)

section \<open>Allocation\<close>

lemma round_alloc_rule:
  assumes "sz < 2 ^ 62"
  shows "sz \<le> round_alloc sz \<and> MIN_BUFFER_SIZE \<le> round_alloc sz \<and>
    round_alloc sz \<le> max MIN_BUFFER_SIZE (2 * sz)"
proof -
  define P where "P t \<longleftrightarrow> MIN_BUFFER_SIZE \<le> t \<and> t \<le> max MIN_BUFFER_SIZE (2 * sz)" for t
  have step: "(2 * t) mod 2 ^ 64 = 2 * t" if "t < sz" for t using that assms by simp
  have "P (round_alloc sz) \<and> \<not> round_alloc sz < sz" unfolding round_alloc_def
  proof (rule while_rule [where P = P and r = "measure (\<lambda>t. sz - t)"
        and Q = "\<lambda>t. P t \<and> \<not> t < sz"])
    show "P MIN_BUFFER_SIZE" by (simp add: P_def)
    show "P (2 * t mod 2 ^ 64)" if "P t" "t < sz" for t
      using that by (simp only: step [OF that(2)]) (auto simp: P_def MIN_BUFFER_SIZE_def)
    show "(2 * t mod 2 ^ 64, t) \<in> measure (\<lambda>t. sz - t)" if "P t" "t < sz" for t
      using that unfolding step [OF that(2)] by (simp add: P_def MIN_BUFFER_SIZE_def) linarith
  qed simp_all
  then show ?thesis by (auto simp: P_def)
qed

lemma chain_new_ok:
  assumes "evbuffer_chain_new al n = Some c"
  shows "chain_ok c" "content c = []" "off c = 0" "misalign c = 0" "flags c = {}" "n \<le> buffer_len c"
    "cleanupfn c = None" "set (buffer c) \<subseteq> {None}" "\<not> CHAIN_PINNED c" "buffer c \<noteq> []"
proof -
  define sz where "sz = n + EVBUFFER_CHAIN_SIZE"
  define t where "t = (if sz < EVBUFFER_CHAIN_MAX div 2 then round_alloc sz else sz)"
  from assms have n: "n \<le> EVBUFFER_CHAIN_MAX - EVBUFFER_CHAIN_SIZE"
    by (simp add: evbuffer_chain_new_def split: if_splits)
  have *: "sz \<le> t \<and> t \<le> EVBUFFER_CHAIN_MAX \<and> EVBUFFER_CHAIN_SIZE < t"
  proof (cases "sz < EVBUFFER_CHAIN_MAX div 2")
    case True
    then have "sz < 2 ^ 62" by (simp add: EVBUFFER_CHAIN_MAX_def EV_SSIZE_MAX_def)
    from round_alloc_rule [OF this] True show ?thesis
      by (auto simp: t_def MIN_BUFFER_SIZE_def EVBUFFER_CHAIN_MAX_def EV_SSIZE_MAX_def
          EVBUFFER_CHAIN_SIZE_def le_max_iff_disj)
  next
    case False
    with n show ?thesis
      by (simp add: t_def sz_def EVBUFFER_CHAIN_MAX_def EV_SSIZE_MAX_def EVBUFFER_CHAIN_SIZE_def)
  qed
  from assms obtain a where c: "c = \<lparr>addr = a, buffer = replicate (t - EVBUFFER_CHAIN_SIZE) None,
      misalign = 0, off = 0, flags = {}, cleanupfn = None\<rparr>"
    by (auto simp: evbuffer_chain_new_def t_def sz_def Let_def split: if_splits option.splits)
  show "chain_ok c" "content c = []" "off c = 0" "misalign c = 0" "flags c = {}" "n \<le> buffer_len c"
    "cleanupfn c = None" "set (buffer c) \<subseteq> {None}" "\<not> CHAIN_PINNED c" "buffer c \<noteq> []"
    using * by (auto simp: c sz_def chain_ok_def content_def CHAIN_PINNED_def)
qed

text \<open>When a chain cannot be made: the size is too large, or memory is out.\<close>

lemma chain_new_None_iff:
  "evbuffer_chain_new al n = None \<longleftrightarrow>
    n > EVBUFFER_CHAIN_MAX - EVBUFFER_CHAIN_SIZE \<or>
    al (if n + EVBUFFER_CHAIN_SIZE < EVBUFFER_CHAIN_MAX div 2 then round_alloc (n + EVBUFFER_CHAIN_SIZE)
        else n + EVBUFFER_CHAIN_SIZE) = None"
  by (auto simp: evbuffer_chain_new_def Let_def split: option.splits)

lemma round_alloc_min: "sz \<le> MIN_BUFFER_SIZE \<Longrightarrow> round_alloc sz = MIN_BUFFER_SIZE"
  by (simp add: round_alloc_def while_unfold)

end
