(* ===== verification/EvBuffer.thy ===== *)
theory EvBuffer imports EvChain begin

text \<open>
  \<open>struct evbuffer\<close> and the operations of \<open>buffer.c\<close> that add and remove bytes: a buffer is its
  list of chains, the position of the last chain with data, the counters, the freezes and the
  callbacks. Locks are left out: an operation runs with the buffer to itself.
\<close>

section \<open>The buffer\<close>

text \<open>
  An entry of the callback list, and what a callback is called with: \<open>Cb\<close> gets the original size
  and the bytes added and deleted, an obsolete callback the old and the new size. The callbacks
  themselves are observers here: their calls are collected in \<open>calls\<close>.
\<close>

record cb_entry =
  cb_id :: nat
  cb_enabled :: bool
  cb_nodefer :: bool
  cb_obsolete :: bool

datatype cb_call =
  Cb (cb_who: nat) (orig_size: nat) (n_added: nat) (n_deleted: nat)
| Cb_obsolete nat nat nat

text \<open>
  \<open>first\<close> and \<open>last\<close> are the ends of \<open>chains\<close>. \<open>last_with_datap\<close> points at a \<open>next\<close> pointer: 0 is
  \<open>&buf->first\<close>, and \<open>i + 1\<close> is the \<open>next\<close> of chain \<open>i\<close>, so the chain it leads to is always the one
  at the same position. \<open>released\<close> and \<open>dangling\<close> record the chains that were freed, and those
  that could not be because they are pinned.
\<close>

record evbuffer =
  chains :: "evchain list"
  last_with_datap :: nat
  total_len :: nat
  n_add_for_cb :: nat
  n_del_for_cb :: nat
  freeze_start :: bool
  freeze_end :: bool
  deferred_cbs :: bool
  queued :: bool
  refcnt :: int
  callbacks :: "cb_entry list"
  calls :: "cb_call list"
  released :: "evchain list"
  dangling :: "evchain list"

definition evbuffer_new :: evbuffer where
  "evbuffer_new = \<lparr>chains = [], last_with_datap = 0, total_len = 0, n_add_for_cb = 0, n_del_for_cb = 0,
    freeze_start = False, freeze_end = False, deferred_cbs = False, queued = False, refcnt = 1,
    callbacks = [], calls = [], released = [], dangling = []\<rparr>"

text \<open>\<open>*buf->last_with_datap\<close>, when it is not null.\<close>

definition last_with_data :: "evbuffer \<Rightarrow> evchain option" where
  "last_with_data buf =
    (if last_with_datap buf < length (chains buf) then Some (chains buf ! last_with_datap buf) else None)"

definition evbuffer_get_length :: "evbuffer \<Rightarrow> nat" where
  "evbuffer_get_length buf = total_len buf"

definition evbuffer_get_contiguous_space :: "evbuffer \<Rightarrow> nat" where
  "evbuffer_get_contiguous_space buf = (case chains buf of [] \<Rightarrow> 0 | chain # _ \<Rightarrow> off chain)"

definition evbuffer_freeze :: "evbuffer \<Rightarrow> bool \<Rightarrow> evbuffer" where
  "evbuffer_freeze buf start =
    (if start then buf\<lparr>freeze_start := True\<rparr> else buf\<lparr>freeze_end := True\<rparr>)"

definition evbuffer_unfreeze :: "evbuffer \<Rightarrow> bool \<Rightarrow> evbuffer" where
  "evbuffer_unfreeze buf start =
    (if start then buf\<lparr>freeze_start := False\<rparr> else buf\<lparr>freeze_end := False\<rparr>)"

section \<open>Callbacks\<close>

definition cb_selected :: "evbuffer \<Rightarrow> bool \<Rightarrow> cb_entry \<Rightarrow> bool" where
  "cb_selected buf running_deferred cbent =
    (if running_deferred then cb_enabled cbent \<and> \<not> cb_nodefer cbent
     else if deferred_cbs buf then cb_enabled cbent \<and> cb_nodefer cbent
     else cb_enabled cbent)"

definition evbuffer_run_callbacks :: "evbuffer \<Rightarrow> bool \<Rightarrow> evbuffer" where
  "evbuffer_run_callbacks buf running_deferred =
    (let clear = (running_deferred \<or> \<not> deferred_cbs buf) in
     if callbacks buf = [] then buf\<lparr>n_add_for_cb := 0, n_del_for_cb := 0\<rparr>
     else if n_add_for_cb buf = 0 \<and> n_del_for_cb buf = 0 then buf
     else
       let new_size = total_len buf;
           orig = size_sub (size_add new_size (n_del_for_cb buf)) (n_add_for_cb buf);
           call = (\<lambda>cbent. if cb_obsolete cbent then Cb_obsolete (cb_id cbent) orig new_size
                    else Cb (cb_id cbent) orig (n_add_for_cb buf) (n_del_for_cb buf));
           made = map call (filter (cb_selected buf running_deferred) (callbacks buf));
           buf = (if clear then buf\<lparr>n_add_for_cb := 0, n_del_for_cb := 0\<rparr> else buf)
       in buf\<lparr>calls := calls buf @ made\<rparr>)"

definition evbuffer_invoke_callbacks :: "evbuffer \<Rightarrow> evbuffer" where
  "evbuffer_invoke_callbacks buf =
    (if callbacks buf = [] then buf\<lparr>n_add_for_cb := 0, n_del_for_cb := 0\<rparr>
     else if deferred_cbs buf then
       (if queued buf then buf
        else evbuffer_run_callbacks (buf\<lparr>refcnt := refcnt buf + 1, queued := True\<rparr>) False)
     else evbuffer_run_callbacks buf False)"

text \<open>The event loop runs the deferred callback: it has left the queue by then.\<close>

definition evbuffer_deferred_callback :: "evbuffer \<Rightarrow> evbuffer" where
  "evbuffer_deferred_callback buf =
    (let buf = evbuffer_run_callbacks (buf\<lparr>queued := False\<rparr>) True
     in buf\<lparr>refcnt := refcnt buf - 1\<rparr>)"

section \<open>Chains of a buffer\<close>

definition evbuffer_chain_free :: "evchain \<Rightarrow> evbuffer \<Rightarrow> evbuffer" where
  "evbuffer_chain_free chain buf =
    (if CHAIN_PINNED chain
     then buf\<lparr>dangling := dangling buf @ [chain\<lparr>flags := insert EVBUFFER_DANGLING (flags chain)\<rparr>]\<rparr>
     else buf\<lparr>released := released buf @ [chain]\<rparr>)"

fun evbuffer_free_all_chains :: "evchain list \<Rightarrow> evbuffer \<Rightarrow> evbuffer" where
  "evbuffer_free_all_chains [] buf = buf"
| "evbuffer_free_all_chains (chain # cs) buf = evbuffer_free_all_chains cs (evbuffer_chain_free chain buf)"

text \<open>How far a walk from \<open>*last_with_datap\<close> goes before it meets the first chain that may be
  thrown away: one that is empty and not pinned.\<close>

fun victim :: "evchain list \<Rightarrow> nat" where
  "victim [] = 0"
| "victim (ch # cs) = (if off ch \<noteq> 0 \<or> CHAIN_PINNED ch then Suc (victim cs) else 0)"

text \<open>\<open>evbuffer_free_trailing_empty_chains\<close>: the buffer, and the position a new chain goes to.\<close>

definition evbuffer_free_trailing_empty_chains :: "evbuffer \<Rightarrow> (evbuffer \<times> nat) option" where
  "evbuffer_free_trailing_empty_chains buf =
    (let ch = last_with_datap buf + victim (drop (last_with_datap buf) (chains buf)) in
     if ch < length (chains buf) then do {
       check (evbuffer_chains_all_empty (drop ch (chains buf)));
       Some ((evbuffer_free_all_chains (drop ch (chains buf)) buf)\<lparr>chains := take ch (chains buf)\<rparr>, ch)
     }
     else Some (buf, ch))"

definition evbuffer_chain_insert :: "evbuffer \<Rightarrow> evchain \<Rightarrow> evbuffer option" where
  "evbuffer_chain_insert buf chain = do {
    buf \<leftarrow>
      (if last_with_data buf = None then do {
         check (last_with_datap buf = 0);
         check (chains buf = []);
         Some (buf\<lparr>chains := [chain]\<rparr>)
       }
       else
         let ch = last_with_datap buf + victim (drop (last_with_datap buf) (chains buf)) in
         if ch = length (chains buf) then
           Some (buf\<lparr>chains := chains buf @ [chain],
                     last_with_datap := (if off chain \<noteq> 0 then length (chains buf) else last_with_datap buf)\<rparr>)
         else do {
           check (evbuffer_chains_all_empty (drop ch (chains buf)));
           Some ((evbuffer_free_all_chains (drop ch (chains buf)) buf)
                   \<lparr>chains := take ch (chains buf) @ [chain]\<rparr>)
         });
    Some (buf\<lparr>total_len := size_add (total_len buf) (off chain)\<rparr>)
  }"

text \<open>\<open>evbuffer_chain_insert_new\<close>: nothing when there is no memory.\<close>

definition evbuffer_chain_insert_new ::
    "(nat \<Rightarrow> nat option) \<Rightarrow> evbuffer \<Rightarrow> nat \<Rightarrow> evbuffer option option" where
  "evbuffer_chain_insert_new al buf datlen =
    (case evbuffer_chain_new al datlen of
       None \<Rightarrow> Some None
     | Some chain \<Rightarrow> map_option Some (evbuffer_chain_insert buf chain))"

fun advance_from :: "evchain list \<Rightarrow> nat \<Rightarrow> nat" where
  "advance_from (c # d # cs) i = (if off d \<noteq> 0 then advance_from (d # cs) (Suc i) else i)"
| "advance_from _ i = i"

definition advance_last_with_data :: "evbuffer \<Rightarrow> evbuffer" where
  "advance_last_with_data buf =
    buf\<lparr>last_with_datap := advance_from (drop (last_with_datap buf) (chains buf)) (last_with_datap buf)\<rparr>"

definition HAS_PINNED_R :: "evbuffer \<Rightarrow> bool" where
  "HAS_PINNED_R buf \<longleftrightarrow> chains buf \<noteq> [] \<and> CHAIN_PINNED_R (last (chains buf))"

definition ZERO_CHAIN :: "evbuffer \<Rightarrow> evbuffer" where
  "ZERO_CHAIN dst = dst\<lparr>chains := [], last_with_datap := 0, total_len := 0\<rparr>"

section \<open>Adding at the end\<close>

text \<open>The bookkeeping that follows a copy into a chain.\<close>

definition added :: "nat \<Rightarrow> evbuffer \<Rightarrow> evbuffer" where
  "added n buf = buf\<lparr>total_len := size_add (total_len buf) n, n_add_for_cb := size_add (n_add_for_cb buf) n\<rparr>"

definition set_last :: "evchain \<Rightarrow> evbuffer \<Rightarrow> evbuffer" where
  "set_last chain buf = buf\<lparr>chains := butlast (chains buf) @ [chain]\<rparr>"

text \<open>The part of \<open>evbuffer_add\<close> that needs another chain, with \<open>remain\<close> bytes of room in the last
  one.\<close>

definition add_in_new_chain ::
    "(nat \<Rightarrow> nat option) \<Rightarrow> evbuffer \<Rightarrow> cell list \<Rightarrow> evchain \<Rightarrow> nat \<Rightarrow> (int \<times> evbuffer) option" where
  "add_in_new_chain al buf data chain remain =
    (let to_alloc = buffer_len chain;
         to_alloc = (if to_alloc \<le> EVBUFFER_CHAIN_MAX_AUTO_SIZE div 2 then 2 * to_alloc else to_alloc);
         to_alloc = (if length data > to_alloc then length data else to_alloc)
     in case evbuffer_chain_new al to_alloc of
          None \<Rightarrow> Some (-1, buf)
        | Some tmp \<Rightarrow> do {
            buf \<leftarrow> (if remain \<noteq> 0 then do {
                     chain \<leftarrow> chain_append chain (take remain data);
                     Some (added remain (set_last chain buf))
                   } else Some buf);
            m \<leftarrow> memcpy 0 (drop remain data) (buffer tmp);
            let tmp = tmp\<lparr>buffer := m, off := length data - remain\<rparr>;
            buf \<leftarrow> evbuffer_chain_insert buf tmp;
            Some (0, evbuffer_invoke_callbacks
                       (buf\<lparr>n_add_for_cb := size_add (n_add_for_cb buf) (length data - remain)\<rparr>))
          })"

definition add_to_last ::
    "(nat \<Rightarrow> nat option) \<Rightarrow> evbuffer \<Rightarrow> cell list \<Rightarrow> evchain \<Rightarrow> (int \<times> evbuffer) option" where
  "add_to_last al buf data chain =
    (if EVBUFFER_IMMUTABLE \<notin> flags chain then do {
       check (misalign chain \<le> EVBUFFER_CHAIN_MAX);
       let remain = size_sub (size_sub (buffer_len chain) (misalign chain)) (off chain);
       if remain \<ge> length data then do {
         chain \<leftarrow> chain_append chain data;
         Some (0, evbuffer_invoke_callbacks (added (length data) (set_last chain buf)))
       }
       else if \<not> CHAIN_PINNED chain \<and> evbuffer_chain_should_realign chain (length data) then do {
         chain \<leftarrow> evbuffer_chain_align chain;
         chain \<leftarrow> chain_append chain data;
         Some (0, evbuffer_invoke_callbacks (added (length data) (set_last chain buf)))
       }
       else add_in_new_chain al buf data chain remain
     }
     else add_in_new_chain al buf data chain 0)"

definition evbuffer_add :: "(nat \<Rightarrow> nat option) \<Rightarrow> evbuffer \<Rightarrow> cell list \<Rightarrow> (int \<times> evbuffer) option" where
  "evbuffer_add al buf data =
    (if freeze_end buf then Some (-1, buf)
     else if length data > size_sub EV_SIZE_MAX (total_len buf) then Some (-1, buf)
     else if chains buf = [] then
       (case evbuffer_chain_new al (length data) of
          None \<Rightarrow> Some (-1, buf)
        | Some chain \<Rightarrow> do {
            buf \<leftarrow> evbuffer_chain_insert buf chain;
            add_to_last al buf data chain
          })
     else add_to_last al buf data (last (chains buf)))"

text \<open>\<open>evbuffer_add_reference\<close>: the data stays where it is, at address \<open>a\<close>, and becomes a chain that
  may not be written. The first allocation is the chain without its memory.\<close>

definition evbuffer_add_reference ::
    "(nat \<Rightarrow> nat option) \<Rightarrow> evbuffer \<Rightarrow> nat \<Rightarrow> cell list \<Rightarrow> nat option \<Rightarrow> (int \<times> evbuffer) option" where
  "evbuffer_add_reference al outbuf a data cleanup =
    (case evbuffer_chain_new al 16 of
       None \<Rightarrow> Some (-1, outbuf)
     | Some chain \<Rightarrow>
         let chain = chain\<lparr>flags := flags chain \<union> {EVBUFFER_REFERENCE, EVBUFFER_IMMUTABLE},
                           addr := a, buffer := data, off := length data, cleanupfn := cleanup\<rparr>
         in if freeze_end outbuf then Some (-1, outbuf)
            else do {
              outbuf \<leftarrow> evbuffer_chain_insert outbuf chain;
              Some (0, evbuffer_invoke_callbacks
                         (outbuf\<lparr>n_add_for_cb := size_add (n_add_for_cb outbuf) (length data)\<rparr>))
            })"

section \<open>Adding at the front\<close>

definition set_first :: "evchain \<Rightarrow> evbuffer \<Rightarrow> evbuffer" where
  "set_first chain buf = buf\<lparr>chains := chain # tl (chains buf)\<rparr>"

text \<open>The part of \<open>evbuffer_prepend\<close> that needs another chain. What it adds to \<open>n_add_for_cb\<close> is the
  room that is left in the chain behind the new one.\<close>

definition prepend_new_chain ::
    "(nat \<Rightarrow> nat option) \<Rightarrow> evbuffer \<Rightarrow> cell list \<Rightarrow> evchain \<Rightarrow> (int \<times> evbuffer) option" where
  "prepend_new_chain al buf data chain =
    (case evbuffer_chain_new al (length data) of
       None \<Rightarrow> Some (-1, buf)
     | Some tmp \<Rightarrow> do {
         check (length data \<le> buffer_len tmp);
         m \<leftarrow> memcpy (buffer_len tmp - length data) data (buffer tmp);
         let tmp = tmp\<lparr>off := length data, misalign := buffer_len tmp - length data, buffer := m\<rparr>;
         Some (0, evbuffer_invoke_callbacks
           (buf\<lparr>chains := tmp # chains buf, last_with_datap := Suc (last_with_datap buf),
                total_len := size_add (total_len buf) (length data),
                n_add_for_cb := size_add (n_add_for_cb buf) (misalign chain)\<rparr>))
       })"

definition prepend_to_first ::
    "(nat \<Rightarrow> nat option) \<Rightarrow> evbuffer \<Rightarrow> cell list \<Rightarrow> evchain \<Rightarrow> (int \<times> evbuffer) option" where
  "prepend_to_first al buf data chain =
    (if EVBUFFER_IMMUTABLE \<notin> flags chain then do {
       check (misalign chain \<le> EVBUFFER_CHAIN_MAX);
       let chain = (if off chain = 0 then chain\<lparr>misalign := buffer_len chain\<rparr> else chain);
       let room = misalign chain;
       if room \<ge> length data then do {
         m \<leftarrow> memcpy (room - length data) data (buffer chain);
         let chain = chain\<lparr>buffer := m, off := off chain + length data, misalign := room - length data\<rparr>;
         Some (0, evbuffer_invoke_callbacks (added (length data) (set_first chain buf)))
       }
       else if room \<noteq> 0 then do {
         m \<leftarrow> memcpy 0 (drop (length data - room) data) (buffer chain);
         let chain = chain\<lparr>buffer := m, off := off chain + room, misalign := 0\<rparr>;
         prepend_new_chain al (added room (set_first chain buf)) (take (length data - room) data) chain
       }
       else prepend_new_chain al (set_first chain buf) data chain
     }
     else prepend_new_chain al buf data chain)"

definition evbuffer_prepend :: "(nat \<Rightarrow> nat option) \<Rightarrow> evbuffer \<Rightarrow> cell list \<Rightarrow> (int \<times> evbuffer) option" where
  "evbuffer_prepend al buf data =
    (if freeze_start buf then Some (-1, buf)
     else if length data > size_sub EV_SIZE_MAX (total_len buf) then Some (-1, buf)
     else case chains buf of
       [] \<Rightarrow> (case evbuffer_chain_new al (length data) of
               None \<Rightarrow> Some (-1, buf)
             | Some chain \<Rightarrow> do {
                 buf \<leftarrow> evbuffer_chain_insert buf chain;
                 prepend_to_first al buf data chain
               })
     | chain # _ \<Rightarrow> prepend_to_first al buf data chain)"

section \<open>Taking from the front\<close>

text \<open>
  The loop of \<open>evbuffer_drain\<close> at chain \<open>k\<close>, with the positions of the list as it was on entry:
  the position it stops at, what remains to drain, and the chains that are left. It reads \<open>off\<close> of
  a chain that must be there.
\<close>

fun drain_loop :: "nat \<Rightarrow> nat \<Rightarrow> evchain list \<Rightarrow> evbuffer \<Rightarrow> (nat \<times> nat \<times> evchain list \<times> evbuffer) option" where
  "drain_loop k remaining [] buf = None"
| "drain_loop k remaining (chain # next) buf =
    (if remaining \<ge> off chain then
       let remaining = remaining - off chain;
           buf = (if last_with_datap buf = k then buf\<lparr>last_with_datap := 0\<rparr> else buf);
           buf = (if last_with_datap buf = Suc k then buf\<lparr>last_with_datap := 0\<rparr> else buf)
       in if CHAIN_PINNED_R chain then do {
            check (remaining = 0);
            Some (k, remaining, chain\<lparr>misalign := misalign chain + off chain, off := 0\<rparr> # next, buf)
          }
          else drain_loop (Suc k) remaining next (evbuffer_chain_free chain buf)
     else Some (k, remaining, chain # next, buf))"

definition evbuffer_drain :: "evbuffer \<Rightarrow> nat \<Rightarrow> (int \<times> evbuffer) option" where
  "evbuffer_drain buf len =
    (let old_len = total_len buf in
     if old_len = 0 then Some (0, buf)
     else if freeze_start buf then Some (-1, buf)
     else do {
       (len, buf) \<leftarrow>
         (if len \<ge> old_len \<and> \<not> HAS_PINNED_R buf then
            Some (old_len, ZERO_CHAIN (evbuffer_free_all_chains (chains buf) buf))
          else do {
            let len = (if len \<ge> old_len then old_len else len);
            (k, remaining, cs, buf) \<leftarrow>
              drain_loop 0 len (chains buf) (buf\<lparr>total_len := total_len buf - len\<rparr>);
            check (remaining \<le> off (hd cs));
            let chain = hd cs;
            let chain = chain\<lparr>misalign := misalign chain + remaining, off := off chain - remaining\<rparr>;
            Some (len, buf\<lparr>chains := chain # tl cs, last_with_datap := last_with_datap buf - k\<rparr>)
          });
       Some (0, evbuffer_invoke_callbacks (buf\<lparr>n_del_for_cb := size_add (n_del_for_cb buf) len\<rparr>))
     })"

text \<open>\<open>evbuffer_copyout\<close>: the bytes that are copied, and the result.\<close>

fun copy_loop :: "nat \<Rightarrow> evchain list \<Rightarrow> cell list option" where
  "copy_loop datlen [] = (if datlen = 0 then Some [] else None)"
| "copy_loop datlen (chain # cs) =
    (if datlen = 0 then Some []
     else if datlen \<ge> off chain then do {
       data \<leftarrow> chain_read chain (off chain);
       check (cs \<noteq> [] \<or> datlen - off chain = 0);
       rest \<leftarrow> copy_loop (datlen - off chain) cs;
       Some (data @ rest)
     }
     else chain_read chain datlen)"

definition evbuffer_copyout :: "evbuffer \<Rightarrow> nat \<Rightarrow> (int \<times> cell list) option" where
  "evbuffer_copyout buf datlen =
    (let datlen = (if datlen \<ge> total_len buf then total_len buf else datlen) in
     if datlen = 0 then Some (0, [])
     else if freeze_start buf then Some (-1, [])
     else do { data \<leftarrow> copy_loop datlen (chains buf); Some (int datlen, data) })"

text \<open>\<open>(int)n\<close>.\<close>

definition c_int :: "int \<Rightarrow> int" where
  "c_int n = sint (word_of_int n :: 32 word)"

definition evbuffer_remove :: "evbuffer \<Rightarrow> nat \<Rightarrow> (int \<times> cell list \<times> evbuffer) option" where
  "evbuffer_remove buf datlen = do {
    (n, data) \<leftarrow> evbuffer_copyout buf datlen;
    if n > 0 then do {
      (r, buf) \<leftarrow> evbuffer_drain buf (nat n);
      Some (c_int (if r < 0 then -1 else n), data, buf)
    }
    else Some (c_int n, data, buf)
  }"

end
