(* ===== verification/EvInv.thy ===== *)
theory EvInv imports EvBuffer begin

text \<open>
  The invariant of a buffer, its bytes, and how the adding and removing operations of
  \<open>EvBuffer\<close> act on them: the chains with data come first, spare chains after them,
  \<open>last_with_datap\<close> is the last chain with data.
\<close>

section \<open>The bytes and the invariant\<close>

definition bytes :: "evbuffer \<Rightarrow> cell list" where
  "bytes b = concat (map content (chains b))"

definition usable :: "evchain \<Rightarrow> bool" where
  "usable c \<longleftrightarrow> chain_ok c \<and> \<not> CHAIN_PINNED c"

definition spare :: "evchain \<Rightarrow> bool" where
  "spare c \<longleftrightarrow> off c = 0 \<and> EVBUFFER_IMMUTABLE \<notin> flags c \<and> buffer c \<noteq> []"

definition ev_inv :: "evbuffer \<Rightarrow> bool" where
  "ev_inv b \<longleftrightarrow>
    list_all usable (chains b) \<and>
    list_all spare (dropWhile (\<lambda>c. off c \<noteq> 0) (chains b)) \<and>
    last_with_datap b = length (takeWhile (\<lambda>c. off c \<noteq> 0) (chains b)) - 1 \<and>
    total_len b = length (bytes b) \<and> total_len b \<le> EV_SIZE_MAX"

text \<open>No spare chain stands behind the data, unless it is the only chain.\<close>

definition tight :: "evbuffer \<Rightarrow> bool" where
  "tight b \<longleftrightarrow> length (chains b) \<le> Suc (last_with_datap b)"

lemma ev_invI:
  assumes "chains b = ds @ es" "list_all usable ds" "list_all (\<lambda>c. off c \<noteq> 0) ds"
    "list_all usable es" "list_all spare es" "last_with_datap b = length ds - 1"
    "total_len b = length (bytes b)" "total_len b \<le> EV_SIZE_MAX"
  shows "ev_inv b"
proof -
  have es: "takeWhile (\<lambda>c. off c \<noteq> 0) es = []" "dropWhile (\<lambda>c. off c \<noteq> 0) es = es"
    using assms(5) by (cases es; simp add: spare_def)+
  have "takeWhile (\<lambda>c. off c \<noteq> 0) (chains b) = ds" "dropWhile (\<lambda>c. off c \<noteq> 0) (chains b) = es"
    using assms(1,3) es by (auto simp: takeWhile_append dropWhile_append list_all_iff)
  with assms show ?thesis by (simp add: ev_inv_def)
qed

lemma ev_invE:
  assumes "ev_inv b"
  obtains ds es where "chains b = ds @ es" "list_all usable ds" "list_all (\<lambda>c. off c \<noteq> 0) ds"
    "list_all usable es" "list_all spare es" "last_with_datap b = length ds - 1"
proof -
  let ?ds = "takeWhile (\<lambda>c. off c \<noteq> 0) (chains b)" and ?es = "dropWhile (\<lambda>c. off c \<noteq> 0) (chains b)"
  have "list_all (\<lambda>c. off c \<noteq> 0) ?ds" by (auto simp: list_all_iff dest: set_takeWhileD)
  moreover have "list_all usable ?ds" "list_all usable ?es"
    using assms by (auto simp: ev_inv_def list_all_iff dest: set_takeWhileD set_dropWhileD)
  ultimately show ?thesis using assms by (intro that [of ?ds ?es]) (simp_all add: ev_inv_def)
qed

lemma ev_inv_total:
  assumes "ev_inv b" shows "total_len b = length (bytes b)" "length (bytes b) \<le> EV_SIZE_MAX"
    "list_all usable (chains b)"
  using assms by (simp_all add: ev_inv_def)

lemma usable_ok: "usable c \<Longrightarrow> chain_ok c" "usable c \<Longrightarrow> \<not> CHAIN_PINNED c" "usable c \<Longrightarrow> \<not> CHAIN_PINNED_R c"
  by (auto simp: usable_def CHAIN_PINNED_def CHAIN_PINNED_R_def)

lemma usable_content: "usable c \<Longrightarrow> length (content c) = off c"
  by (simp add: length_content usable_ok)

lemma new_chain_good: "evbuffer_chain_new al n = Some c \<Longrightarrow> usable c \<and> spare c"
  by (auto simp: usable_def spare_def dest: chain_new_ok)

lemma spare_content: "spare c \<Longrightarrow> content c = []"
  by (simp add: spare_def content_def)

lemma spare_contents: "list_all spare es \<Longrightarrow> concat (map content es) = []"
  by (induction es) (auto simp: spare_content)

lemma spare_all_empty: "list_all spare es \<Longrightarrow> evbuffer_chains_all_empty es"
  by (auto simp: all_empty_iff list_all_iff spare_def)

lemma bytes_split: "chains b = ds @ es \<Longrightarrow> list_all spare es \<Longrightarrow> bytes b = concat (map content ds)"
  by (simp add: bytes_def spare_contents)

lemma ev_inv_new [simp]: "ev_inv evbuffer_new" "tight evbuffer_new" "bytes evbuffer_new = []"
  by (simp_all add: ev_inv_def tight_def bytes_def evbuffer_new_def)

section \<open>What the bookkeeping leaves alone\<close>

lemma run_callbacks_frame [simp]:
  "chains (evbuffer_run_callbacks b d) = chains b"
  "last_with_datap (evbuffer_run_callbacks b d) = last_with_datap b"
  "total_len (evbuffer_run_callbacks b d) = total_len b"
  "freeze_start (evbuffer_run_callbacks b d) = freeze_start b"
  "freeze_end (evbuffer_run_callbacks b d) = freeze_end b"
  "released (evbuffer_run_callbacks b d) = released b"
  "dangling (evbuffer_run_callbacks b d) = dangling b"
  "callbacks (evbuffer_run_callbacks b d) = callbacks b"
  "deferred_cbs (evbuffer_run_callbacks b d) = deferred_cbs b"
  by (simp_all add: evbuffer_run_callbacks_def Let_def)

lemma invoke_frame [simp]:
  "chains (evbuffer_invoke_callbacks b) = chains b"
  "last_with_datap (evbuffer_invoke_callbacks b) = last_with_datap b"
  "total_len (evbuffer_invoke_callbacks b) = total_len b"
  "freeze_start (evbuffer_invoke_callbacks b) = freeze_start b"
  "freeze_end (evbuffer_invoke_callbacks b) = freeze_end b"
  "released (evbuffer_invoke_callbacks b) = released b"
  "dangling (evbuffer_invoke_callbacks b) = dangling b"
  "callbacks (evbuffer_invoke_callbacks b) = callbacks b"
  "deferred_cbs (evbuffer_invoke_callbacks b) = deferred_cbs b"
  by (simp_all add: evbuffer_invoke_callbacks_def)

text \<open>The invariant and the bytes only look at three fields.\<close>

lemma same_view:
  assumes "chains b' = chains b" "last_with_datap b' = last_with_datap b" "total_len b' = total_len b"
  shows "ev_inv b' = ev_inv b" "tight b' = tight b" "bytes b' = bytes b"
  using assms by (simp_all add: ev_inv_def tight_def bytes_def)

lemma invoke_view [simp]:
  "ev_inv (evbuffer_invoke_callbacks b) = ev_inv b"
  "tight (evbuffer_invoke_callbacks b) = tight b"
  "bytes (evbuffer_invoke_callbacks b) = bytes b"
  by (rule same_view; simp)+

lemma n_add_view [simp]:
  "ev_inv (b\<lparr>n_add_for_cb := n\<rparr>) = ev_inv b" "tight (b\<lparr>n_add_for_cb := n\<rparr>) = tight b"
  "bytes (b\<lparr>n_add_for_cb := n\<rparr>) = bytes b"
  "ev_inv (b\<lparr>n_del_for_cb := n\<rparr>) = ev_inv b" "tight (b\<lparr>n_del_for_cb := n\<rparr>) = tight b"
  "bytes (b\<lparr>n_del_for_cb := n\<rparr>) = bytes b"
  by (rule same_view; simp)+

lemma chain_free_frame [simp]:
  "chains (evbuffer_chain_free c b) = chains b"
  "last_with_datap (evbuffer_chain_free c b) = last_with_datap b"
  "total_len (evbuffer_chain_free c b) = total_len b"
  "freeze_start (evbuffer_chain_free c b) = freeze_start b"
  "freeze_end (evbuffer_chain_free c b) = freeze_end b"
  "n_add_for_cb (evbuffer_chain_free c b) = n_add_for_cb b"
  "n_del_for_cb (evbuffer_chain_free c b) = n_del_for_cb b"
  "callbacks (evbuffer_chain_free c b) = callbacks b"
  by (simp_all add: evbuffer_chain_free_def)

lemma free_all_frame [simp]:
  "chains (evbuffer_free_all_chains cs b) = chains b"
  "last_with_datap (evbuffer_free_all_chains cs b) = last_with_datap b"
  "total_len (evbuffer_free_all_chains cs b) = total_len b"
  "freeze_start (evbuffer_free_all_chains cs b) = freeze_start b"
  "freeze_end (evbuffer_free_all_chains cs b) = freeze_end b"
  "n_add_for_cb (evbuffer_free_all_chains cs b) = n_add_for_cb b"
  "n_del_for_cb (evbuffer_free_all_chains cs b) = n_del_for_cb b"
  "callbacks (evbuffer_free_all_chains cs b) = callbacks b"
  by (induction cs arbitrary: b) simp_all

section \<open>Inserting a chain\<close>

lemma victim_append: "list_all (\<lambda>c. off c \<noteq> 0) ds \<Longrightarrow> victim (ds @ es) = length ds + victim es"
  by (induction ds) auto

lemma victim_spare: "list_all usable es \<Longrightarrow> list_all spare es \<Longrightarrow> victim es = 0"
  by (cases es) (auto simp: spare_def usable_def)

text \<open>The place a new chain goes to: right behind the data.\<close>

lemma victim_place:
  assumes "list_all (\<lambda>c. off c \<noteq> 0) ds" "list_all usable es" "list_all spare es"
  shows "length ds - 1 + victim (drop (length ds - 1) (ds @ es)) = length ds"
proof (cases ds rule: rev_cases)
  case Nil
  then show ?thesis using victim_spare [OF assms(2,3)] by simp
next
  case (snoc ds' d)
  then show ?thesis using assms victim_append [of "[d]" es] victim_spare [OF assms(2,3)]
    by (simp add: list_all_append)
qed

lemma insert_chains:
  assumes "ev_inv b" "chains b = ds @ es" "list_all (\<lambda>c. off c \<noteq> 0) ds" "list_all usable es" "list_all spare es"
    "last_with_datap b = length ds - 1"
  shows "\<exists>b'. evbuffer_chain_insert b c = Some b' \<and> chains b' = ds @ [c] \<and>
    last_with_datap b' = (if es = [] \<and> off c \<noteq> 0 then length ds else last_with_datap b) \<and>
    total_len b' = size_add (total_len b) (off c) \<and>
    freeze_start b' = freeze_start b \<and> freeze_end b' = freeze_end b \<and>
    n_add_for_cb b' = n_add_for_cb b \<and> n_del_for_cb b' = n_del_for_cb b"
proof (cases "chains b = []")
  case True
  with assms show ?thesis by (simp add: evbuffer_chain_insert_def last_with_data_def)
next
  case False
  with assms have some: "last_with_data b \<noteq> None"
    by (cases ds; cases es) (auto simp: last_with_data_def)
  have place: "last_with_datap b + victim (drop (last_with_datap b) (chains b)) = length ds"
    unfolding assms(2,6) by (rule victim_place [OF assms(3-5)])
  show ?thesis
  proof (cases "es = []")
    case True
    with assms some place show ?thesis by (simp add: evbuffer_chain_insert_def Let_def)
  next
    case nonempty: False
    with assms some place spare_all_empty [OF assms(5)] show ?thesis
      by (simp add: evbuffer_chain_insert_def Let_def)
  qed
qed

text \<open>On a tight buffer the invariant survives the insertion of a chain with data.\<close>

lemma tight_split:
  assumes "ev_inv b" "tight b"
  obtains (data) ds where "chains b = ds" "ds \<noteq> []" "list_all usable ds" "list_all (\<lambda>c. off c \<noteq> 0) ds"
      "last_with_datap b = length ds - 1"
  | (lone) c where "chains b = [c]" "usable c" "spare c" "last_with_datap b = 0"
  | (none) "chains b = []" "last_with_datap b = 0"
proof -
  obtain ds es where s: "chains b = ds @ es" "list_all usable ds" "list_all (\<lambda>c. off c \<noteq> 0) ds"
    "list_all usable es" "list_all spare es" "last_with_datap b = length ds - 1"
    using assms(1) by (rule ev_invE)
  show ?thesis
  proof (cases "ds = []")
    case True
    with s assms(2) show ?thesis by (cases es) (auto simp: tight_def intro: lone none)
  next
    case False
    with s assms(2) have "length (ds @ es) \<le> length ds" by (simp add: tight_def)
    then have "es = []" by simp
    with s False show ?thesis by (intro data) simp_all
  qed
qed

lemma insert_tight:
  assumes inv: "ev_inv b" "tight b" and c: "usable c" "off c \<noteq> 0 \<or> chains b = [] \<and> spare c"
    and fits: "total_len b + off c \<le> EV_SIZE_MAX"
  shows "\<exists>b'. evbuffer_chain_insert b c = Some b' \<and> ev_inv b' \<and> tight b' \<and> bytes b' = bytes b @ content c \<and>
    chains b' \<noteq> [] \<and> last (chains b') = c \<and> (chains b = [] \<longrightarrow> chains b' = [c]) \<and>
    total_len b' = total_len b + off c \<and>
    freeze_start b' = freeze_start b \<and> freeze_end b' = freeze_end b \<and>
    n_add_for_cb b' = n_add_for_cb b \<and> n_del_for_cb b' = n_del_for_cb b"
proof -
  obtain ds es where s: "chains b = ds @ es" "list_all usable ds" "list_all (\<lambda>c. off c \<noteq> 0) ds"
    "list_all usable es" "list_all spare es" "last_with_datap b = length ds - 1"
    using inv(1) by (rule ev_invE)
  obtain b' where b': "evbuffer_chain_insert b c = Some b'" "chains b' = ds @ [c]"
    "last_with_datap b' = (if es = [] \<and> off c \<noteq> 0 then length ds else last_with_datap b)"
    "total_len b' = size_add (total_len b) (off c)"
    "freeze_start b' = freeze_start b" "freeze_end b' = freeze_end b"
    "n_add_for_cb b' = n_add_for_cb b" "n_del_for_cb b' = n_del_for_cb b"
    using insert_chains [OF inv(1) s(1,3-6)] by blast
  have tot: "total_len b' = total_len b + off c" using b'(4) fits by (simp add: size_add_fits)
  have by_: "bytes b' = bytes b @ content c"
    using b'(2) s(1,5) by (simp add: bytes_def spare_contents)
  have es: "es = [] \<or> ds = []" using s(1,6) inv(2) by (cases ds; cases es) (auto simp: tight_def)
  have lwd: "last_with_datap b' = length ds"
    using b'(3) s(1,6) es c(2) by auto
  have len: "total_len b' = length (bytes b')"
    using tot by_ usable_content [OF c(1)] ev_inv_total(1) [OF inv(1)] by simp
  have "ev_inv b'"
  proof (cases "off c = 0")
    case True
    then have "ds = []" "spare c" using c(2) s(1) by auto
    with b'(2) lwd len tot fits c(1) show ?thesis
      by (intro ev_invI [of b' "[]" "[c]"]) simp_all
  next
    case False
    with b'(2) lwd len tot fits c(1) s show ?thesis
      by (intro ev_invI [of b' "ds @ [c]" "[]"]) simp_all
  qed
  moreover have "tight b'" using b'(2) lwd by (simp add: tight_def)
  ultimately show ?thesis using b' tot by_ s by (intro exI [of _ b']) simp
qed

end
