(* ===== verification/EvAdd.thy ===== *)
theory EvAdd imports EvInv begin

text \<open>
  The operations that add bytes, \<open>evbuffer_add\<close>, \<open>evbuffer_prepend\<close> and
  \<open>evbuffer_add_reference\<close>, against the bytes of the buffer: on a tight buffer they append or
  prepend exactly their data, or fail.
\<close>

section \<open>Changing the last and the first chain\<close>

lemma added_frame [simp]:
  "chains (added n b) = chains b" "last_with_datap (added n b) = last_with_datap b"
  "freeze_start (added n b) = freeze_start b" "freeze_end (added n b) = freeze_end b"
  "n_add_for_cb (added n b) = size_add (n_add_for_cb b) n" "n_del_for_cb (added n b) = n_del_for_cb b"
  "total_len (added n b) = size_add (total_len b) n"
  "bytes (added n b) = bytes b" "tight (added n b) = tight b"
  by (simp_all add: added_def bytes_def tight_def)

lemma set_last_frame [simp]:
  "last_with_datap (set_last c b) = last_with_datap b" "total_len (set_last c b) = total_len b"
  "freeze_start (set_last c b) = freeze_start b" "freeze_end (set_last c b) = freeze_end b"
  "n_add_for_cb (set_last c b) = n_add_for_cb b" "n_del_for_cb (set_last c b) = n_del_for_cb b"
  "chains (set_last c b) = butlast (chains b) @ [c]"
  by (simp_all add: set_last_def)

lemma set_first_frame [simp]:
  "last_with_datap (set_first c b) = last_with_datap b" "total_len (set_first c b) = total_len b"
  "freeze_start (set_first c b) = freeze_start b" "freeze_end (set_first c b) = freeze_end b"
  "n_add_for_cb (set_first c b) = n_add_for_cb b" "n_del_for_cb (set_first c b) = n_del_for_cb b"
  "chains (set_first c b) = c # tl (chains b)"
  by (simp_all add: set_first_def)

text \<open>The last chain of a tight buffer grows.\<close>

lemma grow_last:
  assumes inv: "ev_inv b" "tight b" and ne: "chains b \<noteq> []"
    and c: "usable c" "content c = content (last (chains b)) @ data"
      "off c \<noteq> 0"
    and fits: "total_len b + length data \<le> EV_SIZE_MAX"
  shows "ev_inv (added (length data) (set_last c b)) \<and> tight (added (length data) (set_last c b)) \<and>
    bytes (added (length data) (set_last c b)) = bytes b @ data"
proof -
  let ?b = "added (length data) (set_last c b)"
  have split: "chains b = butlast (chains b) @ [last (chains b)]" using ne by simp
  have by_: "bytes ?b = bytes b @ data"
  proof -
    have "bytes b = concat (map content (butlast (chains b))) @ content (last (chains b))"
      by (subst bytes_def, subst split) simp
    then show ?thesis using c(2) by (simp add: bytes_def)
  qed
  have tot: "total_len ?b = length (bytes ?b)" "total_len ?b \<le> EV_SIZE_MAX"
    using fits by_ ev_inv_total(1) [OF inv(1)] by (simp_all add: size_add_fits)
  have "ev_inv ?b"
    using inv
  proof (cases rule: tight_split)
    case (data ds)
    then have ls: "list_all usable (butlast ds)" "list_all (\<lambda>c. off c \<noteq> 0) (butlast ds)"
      by (auto simp: list_all_iff dest: in_set_butlastD)
    then show ?thesis
      using data c(1,3) tot by (intro ev_invI [of ?b "butlast ds @ [c]" "[]"]) simp_all
  next
    case (lone d)
    then show ?thesis using c tot by (intro ev_invI [of ?b "[c]" "[]"]) auto
  next
    case none
    with ne show ?thesis by simp
  qed
  moreover have "tight ?b" using inv(2) ne by (simp add: tight_def)
  ultimately show ?thesis using by_ by blast
qed

text \<open>The first chain of a buffer grows at its front.\<close>

lemma grow_first:
  assumes inv: "ev_inv b" and ch: "chains b = d # ds"
    and c: "usable c" "content c = data @ content d" and data: "data \<noteq> []"
    and tight: "off d = 0 \<longrightarrow> tight b"
    and fits: "total_len b + length data \<le> EV_SIZE_MAX"
  shows "ev_inv (added (length data) (set_first c b)) \<and>
    tight (added (length data) (set_first c b)) = tight b \<and>
    bytes (added (length data) (set_first c b)) = data @ bytes b"
proof -
  let ?b = "added (length data) (set_first c b)"
  obtain us es where s: "chains b = us @ es" "list_all usable us" "list_all (\<lambda>c. off c \<noteq> 0) us"
    "list_all usable es" "list_all spare es" "last_with_datap b = length us - 1"
    using inv by (rule ev_invE)
  have by_: "bytes ?b = data @ bytes b" using ch c(2) by (simp add: bytes_def)
  have tot: "total_len ?b = length (bytes ?b)" "total_len ?b \<le> EV_SIZE_MAX"
    using fits by_ ev_inv_total(1) [OF inv] by (simp_all add: size_add_fits)
  have gd: "usable d" using ev_inv_total(3) [OF inv] ch by simp
  have offc: "off c = length data + off d"
    using c(2) usable_content [OF c(1)] usable_content [OF gd] by simp
  have "ev_inv ?b"
  proof (cases us)
    case (Cons u us')
    with s ch have "u = d" "ds = us' @ es" by auto
    moreover have "off c \<noteq> 0" using offc s(3) Cons \<open>u = d\<close> by simp
    ultimately show ?thesis
      using s Cons ch c(1) tot by (intro ev_invI [of ?b "c # us'" es]) auto
  next
    case Nil
    then have es: "es = d # ds" "spare d" using s ch by auto
    then have "ds = []" using tight es s Nil ch by (auto simp: tight_def spare_def)
    with data offc s Nil ch c(1) tot show ?thesis by (intro ev_invI [of ?b "[c]" "[]"]) auto
  qed
  moreover have "tight ?b = tight b" using ch by (simp add: tight_def)
  ultimately show ?thesis using by_ by blast
qed

section \<open>Adding\<close>

text \<open>What an operation that adds \<open>data\<close> at the end promises.\<close>

definition appends :: "evbuffer \<Rightarrow> cell list \<Rightarrow> int \<times> evbuffer \<Rightarrow> bool" where
  "appends b data r \<longleftrightarrow> ev_inv (snd r) \<and> tight (snd r) \<and>
    freeze_start (snd r) = freeze_start b \<and> freeze_end (snd r) = freeze_end b \<and>
    (fst r = 0 \<and> bytes (snd r) = bytes b @ data \<or> fst r = -1 \<and> bytes (snd r) = bytes b)"

lemma add_in_new_chain_ok:
  assumes inv: "ev_inv b" "tight b" and ne: "chains b \<noteq> []"
    and fits: "total_len b + length data \<le> EV_SIZE_MAX"
    and remain: "remain < length data" "remain \<le> CHAIN_SPACE_LEN (last (chains b))"
  shows "\<exists>r. add_in_new_chain al b data (last (chains b)) remain = Some r \<and> appends b data r \<and>
    (fst r = -1 \<longrightarrow> (\<exists>n \<le> max (length data) (max EVBUFFER_CHAIN_MAX_AUTO_SIZE (buffer_len (last (chains b)))).
        evbuffer_chain_new al n = None))"
proof -
  define last_c where "last_c = last (chains b)"
  define to_alloc where "to_alloc = (let t = (if buffer_len last_c \<le> EVBUFFER_CHAIN_MAX_AUTO_SIZE div 2
      then 2 * buffer_len last_c else buffer_len last_c) in if length data > t then length data else t)"
  have good_last: "usable last_c"
    using ev_inv_total(3) [OF inv(1)] ne by (simp add: last_c_def list_all_iff)
  have to_alloc: "length data \<le> to_alloc"
    "to_alloc \<le> max (length data) (max EVBUFFER_CHAIN_MAX_AUTO_SIZE (buffer_len last_c))"
    by (auto simp: to_alloc_def Let_def EVBUFFER_CHAIN_MAX_AUTO_SIZE_def)
  show ?thesis
  proof (cases "evbuffer_chain_new al to_alloc")
    case None
    then have "add_in_new_chain al b data last_c remain = Some (-1, b)"
      by (simp add: add_in_new_chain_def to_alloc_def Let_def)
    then show ?thesis using None inv to_alloc(2) by (auto simp: appends_def last_c_def)
  next
    case (Some tmp)
    note new = chain_new_ok [OF Some]
    let ?m = "drop remain data @ drop (length data - remain) (buffer tmp)"
    let ?tmp = "tmp\<lparr>buffer := ?m, off := length data - remain\<rparr>"
    have mem: "memcpy 0 (drop remain data) (buffer tmp) = Some ?m"
      using new(6) to_alloc(1) by (simp add: memcpy_fits)
    have good_tmp: "usable ?tmp" "off ?tmp \<noteq> 0" "content ?tmp = drop remain data"
      using new to_alloc(1) remain(1) by (auto simp: usable_def chain_ok_def content_def CHAIN_PINNED_def)
    text \<open>Whether or not something fits into the last chain, what goes there is its tail.\<close>
    obtain b1 where b1: "(if remain \<noteq> 0 then do {
          chain \<leftarrow> chain_append last_c (take remain data);
          Some (added remain (set_last chain b)) } else Some b) = Some b1"
      and inv1: "ev_inv b1" "tight b1" "bytes b1 = bytes b @ take remain data" "chains b1 \<noteq> []"
        "freeze_start b1 = freeze_start b" "freeze_end b1 = freeze_end b"
        "total_len b1 = total_len b + remain"
    proof (cases "remain = 0")
      case True
      then show thesis using inv ne by (intro that [of b]) simp_all
    next
      case False
      have imm: "EVBUFFER_IMMUTABLE \<notin> flags last_c"
        using False remain(2) good_last by (auto simp: last_c_def CHAIN_SPACE_LEN_def)
      have "length (take remain data) \<le> buffer_len last_c - (misalign last_c + off last_c)"
        using remain good_last space_len_bound [of last_c] by (simp add: last_c_def usable_def)
      then obtain c where c: "chain_append last_c (take remain data) = Some c" "chain_ok c"
        "content c = content last_c @ take remain data" "flags c = flags last_c"
        "off c = off last_c + length (take remain data)"
        using chain_append_ok [of last_c "take remain data"] good_last imm by (auto simp: usable_def)
      then have gc: "usable c" using good_last by (simp add: usable_def CHAIN_PINNED_def)
      have tot1: "total_len b + length (take remain data) \<le> EV_SIZE_MAX" using fits remain(1) by simp
      have "off c \<noteq> 0" using c(5) False remain(1) by simp
      from grow_last [OF inv ne gc _ this tot1] c imm remain(1)
      have "ev_inv (added remain (set_last c b))" "tight (added remain (set_last c b))"
        "bytes (added remain (set_last c b)) = bytes b @ take remain data"
        by (simp_all add: last_c_def)
      then show thesis using False c(1) tot1 remain(1)
        by (intro that [of "added remain (set_last c b)"]) (simp_all add: size_add_fits)
    qed
    have "total_len b1 + off ?tmp \<le> EV_SIZE_MAX" using inv1(7) fits remain(1) by simp
    from insert_tight [OF inv1(1,2) good_tmp(1) _ this] good_tmp(2) obtain b2 where
      b2: "evbuffer_chain_insert b1 ?tmp = Some b2" "ev_inv b2" "tight b2"
      "bytes b2 = bytes b1 @ content ?tmp" "freeze_start b2 = freeze_start b1"
      "freeze_end b2 = freeze_end b1"
      by blast
    then have "add_in_new_chain al b data last_c remain
        = Some (0, evbuffer_invoke_callbacks
            (b2\<lparr>n_add_for_cb := size_add (n_add_for_cb b2) (length data - remain)\<rparr>))"
      using Some b1 mem
      by (simp add: add_in_new_chain_def to_alloc_def Let_def split del: if_split)
    then show ?thesis
      using b2 inv1 good_tmp(3) by (simp add: appends_def last_c_def)
  qed
qed

lemma add_to_last_ok:
  assumes inv: "ev_inv b" "tight b" and ne: "chains b \<noteq> []"
    and fits: "total_len b + length data \<le> EV_SIZE_MAX" and data: "data \<noteq> []"
  shows "\<exists>r. add_to_last al b data (last (chains b)) = Some r \<and> appends b data r \<and>
    (fst r = -1 \<longrightarrow> (\<exists>n \<le> max (length data) (max EVBUFFER_CHAIN_MAX_AUTO_SIZE (buffer_len (last (chains b)))).
        evbuffer_chain_new al n = None))"
proof -
  define c where "c = last (chains b)"
  have gc: "usable c" using ev_inv_total(3) [OF inv(1)] ne by (simp add: c_def list_all_iff)
  then have ok: "chain_ok c" by (simp add: usable_def)
  note bounds = chain_okD [OF ok]
  show ?thesis
  proof (cases "EVBUFFER_IMMUTABLE \<in> flags c")
    case True
    then show ?thesis
      using add_in_new_chain_ok [OF inv ne fits, of 0 al] data by (simp add: add_to_last_def c_def)
  next
    case False
    have remain: "size_sub (size_sub (buffer_len c) (misalign c)) (off c) = CHAIN_SPACE_LEN c"
      using bounds False chain_max_less by (simp add: size_sub_fits space_len [OF ok])
    have fill: "\<exists>r. (do { c' \<leftarrow> chain_append d data;
            Some (0, evbuffer_invoke_callbacks (added (length data) (set_last c' b))) }) = Some r \<and>
          appends b data r \<and> fst r = 0"
      if d: "usable d" "content d = content c" "flags d = flags c"
        "length data \<le> buffer_len d - (misalign d + off d)" for d
    proof -
      have "chain_ok d" "EVBUFFER_IMMUTABLE \<notin> flags d" using d False by (simp_all add: usable_def)
      with d(4) obtain c' where c': "chain_append d data = Some c'" "chain_ok c'"
        "content c' = content d @ data" "flags c' = flags d" "off c' = off d + length data"
        using chain_append_ok by metis
      then have "usable c'" using d(1) by (simp add: usable_def CHAIN_PINNED_def)
      from grow_last [OF inv ne this _ _ fits] c' d False data show ?thesis
        by (simp add: appends_def c_def)
    qed
    show ?thesis
    proof (cases "CHAIN_SPACE_LEN c \<ge> length data")
      case True
      then show ?thesis using fill [of c] gc False bounds remain space_len_bound [OF ok]
        by (auto simp: add_to_last_def c_def [symmetric] Let_def)
    next
      case small: False
      show ?thesis
      proof (cases "evbuffer_chain_should_realign c (length data)")
        case True
        obtain d where d: "evbuffer_chain_align c = Some d" "chain_ok d" "content d = content c"
          "off d = off c" "flags d = flags c" "misalign d = 0" "buffer_len d = buffer_len c"
          using chain_align_ok [OF ok False] gc by (auto simp: usable_def)
        have "usable d" using d(2,5) gc by (simp add: usable_def CHAIN_PINNED_def)
        then show ?thesis
          using fill [of d] d True small False bounds remain gc should_realign_iff [OF ok]
          by (auto simp: add_to_last_def c_def [symmetric] Let_def usable_def)
      next
        case norealign: False
        then have "add_to_last al b data c = add_in_new_chain al b data c (CHAIN_SPACE_LEN c)"
          using small False bounds remain by (simp add: add_to_last_def Let_def)
        then show ?thesis
          using add_in_new_chain_ok [OF inv ne fits, of "CHAIN_SPACE_LEN c" al] small
          by (simp add: c_def)
      qed
    qed
  qed
qed

text \<open>
  \<open>evbuffer_add\<close> on a tight buffer: it appends, or it fails without a trace because some request
  for memory fails, none of them for more than the data or the chain that was there need.
\<close>

lemma add_ok:
  assumes inv: "ev_inv b" "tight b" and data: "data \<noteq> []"
    and fits: "length (bytes b) + length data \<le> EV_SIZE_MAX" and thaw: "\<not> freeze_end b"
  shows "\<exists>r. evbuffer_add al b data = Some r \<and> appends b data r \<and>
    (fst r = -1 \<longrightarrow> (\<exists>n \<le> Max (insert (length data) (insert EVBUFFER_CHAIN_MAX_AUTO_SIZE (set (map buffer_len (chains b))))).
        evbuffer_chain_new al n = None))"
proof -
  let ?N = "Max (insert (length data) (insert EVBUFFER_CHAIN_MAX_AUTO_SIZE (set (map buffer_len (chains b)))))"
  have tot: "total_len b + length data \<le> EV_SIZE_MAX" using fits ev_inv_total(1) [OF inv(1)] by simp
  then have room: "\<not> length data > size_sub EV_SIZE_MAX (total_len b)"
    by (simp add: size_sub_fits)
  show ?thesis
  proof (cases "chains b = []")
    case False
    have N: "max (length data) (max EVBUFFER_CHAIN_MAX_AUTO_SIZE (buffer_len (last (chains b)))) \<le> ?N"
      using False by (intro Max_ge max.boundedI) auto
    obtain r where r: "add_to_last al b data (last (chains b)) = Some r" "appends b data r"
      "fst r = -1 \<longrightarrow> (\<exists>n \<le> max (length data) (max EVBUFFER_CHAIN_MAX_AUTO_SIZE (buffer_len (last (chains b)))).
        evbuffer_chain_new al n = None)"
      using add_to_last_ok [OF inv False tot data, of al] by blast
    have "evbuffer_add al b data = Some r" using r(1) thaw room False by (simp add: evbuffer_add_def)
    with r(2,3) N show ?thesis by (meson order_trans)
  next
    case True
    show ?thesis
    proof (cases "evbuffer_chain_new al (length data)")
      case None
      then show ?thesis using True thaw room inv
        by (auto simp: evbuffer_add_def appends_def intro!: exI [of _ "length data"])
    next
      case (Some c)
      note new = chain_new_ok [OF Some] new_chain_good [OF Some]
      obtain b' where b': "evbuffer_chain_insert b c = Some b'" "ev_inv b'" "tight b'"
        "bytes b' = bytes b @ content c" "chains b' = [c]" "total_len b' = total_len b + off c"
        "freeze_start b' = freeze_start b" "freeze_end b' = freeze_end b"
        using insert_tight [OF inv, of c] new True tot by auto
      have space: "size_sub (size_sub (buffer_len c) (misalign c)) (off c) \<ge> length data"
        using new(3,4,6) chain_okD(2) [OF new(1)] chain_max_less by (simp add: size_sub_fits)
      obtain c' where c': "chain_append c data = Some c'" "chain_ok c'" "content c' = content c @ data"
        "flags c' = flags c" "off c' = off c + length data"
        using chain_append_ok [of c data] new by auto
      then have gc: "usable c'" using new(11) by (simp add: usable_def CHAIN_PINNED_def)
      have "evbuffer_add al b data
          = Some (0, evbuffer_invoke_callbacks (added (length data) (set_last c' b')))"
        using Some True thaw room b'(1) space c'(1) new(4,5)
        by (simp add: evbuffer_add_def add_to_last_def Let_def)
      moreover have "total_len b' + length data \<le> EV_SIZE_MAX" using b'(6) new(3) tot by simp
      from grow_last [OF b'(2,3) _ gc _ _ this] b' c' new(2,5) data
      have "ev_inv (added (length data) (set_last c' b'))" "tight (added (length data) (set_last c' b'))"
        "bytes (added (length data) (set_last c' b')) = bytes b @ data"
        by simp_all
      ultimately show ?thesis using b' by (simp add: appends_def)
    qed
  qed
qed

text \<open>With memory at hand, and chains no longer than one allocation, it succeeds.\<close>

definition roomy :: "evbuffer \<Rightarrow> bool" where
  "roomy b \<longleftrightarrow> list_all (\<lambda>c. buffer_len c \<le> EVBUFFER_CHAIN_MAX - EVBUFFER_CHAIN_SIZE) (chains b)"

lemma add_succeeds:
  assumes inv: "ev_inv b" "tight b" and data: "data \<noteq> []" "length data \<le> EVBUFFER_CHAIN_MAX - EVBUFFER_CHAIN_SIZE"
    and fits: "length (bytes b) + length data \<le> EV_SIZE_MAX" and thaw: "\<not> freeze_end b"
    and mem: "\<forall>n. al n \<noteq> None" "roomy b"
  shows "\<exists>b'. evbuffer_add al b data = Some (0, b') \<and> ev_inv b' \<and> tight b' \<and> bytes b' = bytes b @ data \<and>
    freeze_start b' = freeze_start b \<and> freeze_end b' = freeze_end b"
proof -
  obtain r where r: "evbuffer_add al b data = Some r" "appends b data r"
    "fst r = -1 \<longrightarrow> (\<exists>n \<le> Max (insert (length data) (insert EVBUFFER_CHAIN_MAX_AUTO_SIZE (set (map buffer_len (chains b))))).
        evbuffer_chain_new al n = None)"
    using add_ok [OF inv data(1) fits thaw, of al] by blast
  have "Max (insert (length data) (insert EVBUFFER_CHAIN_MAX_AUTO_SIZE (set (map buffer_len (chains b)))))
      \<le> EVBUFFER_CHAIN_MAX - EVBUFFER_CHAIN_SIZE"
    using data(2) mem(2)
    by (intro Max.boundedI)
      (auto simp: roomy_def list_all_iff EVBUFFER_CHAIN_MAX_AUTO_SIZE_def EVBUFFER_CHAIN_MAX_def
        EV_SSIZE_MAX_def EVBUFFER_CHAIN_SIZE_def)
  moreover have "evbuffer_chain_new al n \<noteq> None" if "n \<le> EVBUFFER_CHAIN_MAX - EVBUFFER_CHAIN_SIZE" for n
    using that mem(1) by (simp add: chain_new_None_iff)
  ultimately have "fst r \<noteq> -1" using r(3) by (meson order_trans)
  then show ?thesis using r(1,2) by (cases r) (auto simp: appends_def)
qed

text \<open>Adding nothing: the bytes stay, though a spare chain may come to stand at the end.\<close>

lemma add_nil_ok:
  assumes inv: "ev_inv b" "tight b" and thaw: "\<not> freeze_end b" and ne: "chains b \<noteq> []"
  shows "\<exists>r. evbuffer_add al b [] = Some r \<and> ev_inv (snd r) \<and> bytes (snd r) = bytes b \<and>
    freeze_start (snd r) = freeze_start b \<and> freeze_end (snd r) = freeze_end b"
proof -
  define c where "c = last (chains b)"
  have gc: "usable c" using ev_inv_total(3) [OF inv(1)] ne by (simp add: c_def list_all_iff)
  note bounds = chain_okD [OF usable_ok(1) [OF gc]]
  show ?thesis
  proof (cases "EVBUFFER_IMMUTABLE \<in> flags c")
    case False
    have "chain_append c [] = Some c" using bounds(1) by (simp add: chain_append_def memcpy_fits)
    moreover have "added 0 (set_last c b) = b\<lparr>n_add_for_cb := size_add (n_add_for_cb b) 0\<rparr>"
      using ne ev_inv_total [OF inv(1)] by (simp add: added_def set_last_def c_def size_add_fits)
    ultimately have "evbuffer_add al b [] = Some (0, evbuffer_invoke_callbacks (b\<lparr>n_add_for_cb := size_add (n_add_for_cb b) 0\<rparr>))"
      using thaw ne False bounds(3) by (simp add: evbuffer_add_def add_to_last_def c_def [symmetric] Let_def)
    then show ?thesis using inv by simp
  next
    case True
    obtain ds where ds: "chains b = ds" "list_all usable ds" "list_all (\<lambda>c. off c \<noteq> 0) ds"
      "last_with_datap b = length ds - 1"
      using inv
    proof (cases rule: tight_split)
      case (data ds)
      from data(1,3,4,5) show thesis by (rule that)
    next
      case (lone d)
      then show thesis using True by (simp add: c_def spare_def)
    next
      case none
      then show thesis using ne by simp
    qed
    define to_alloc where "to_alloc = (if buffer_len c \<le> EVBUFFER_CHAIN_MAX_AUTO_SIZE div 2
      then 2 * buffer_len c else buffer_len c)"
    show ?thesis
    proof (cases "evbuffer_chain_new al to_alloc")
      case None
      then have "evbuffer_add al b [] = Some (-1, b)"
        using thaw ne True
        by (simp add: evbuffer_add_def add_to_last_def add_in_new_chain_def c_def [symmetric] to_alloc_def Let_def)
      then show ?thesis using inv by simp
    next
      case (Some tmp)
      note new = chain_new_ok [OF Some] new_chain_good [OF Some]
      obtain b' where b': "evbuffer_chain_insert b tmp = Some b'" "chains b' = ds @ [tmp]"
        "last_with_datap b' = last_with_datap b" "total_len b' = size_add (total_len b) 0"
        "freeze_start b' = freeze_start b" "freeze_end b' = freeze_end b"
        using insert_chains [OF inv(1), of ds "[]" tmp] ds new(3) by auto
      have tmp: "tmp\<lparr>buffer := buffer tmp, off := 0\<rparr> = tmp" using new(3) by simp
      have "evbuffer_add al b [] = Some (0, evbuffer_invoke_callbacks (b'\<lparr>n_add_for_cb := size_add (n_add_for_cb b') 0\<rparr>))"
        using thaw ne True Some b'(1) tmp
        by (simp add: evbuffer_add_def add_to_last_def add_in_new_chain_def c_def [symmetric] to_alloc_def
            Let_def memcpy_fits)
      moreover have "bytes b' = bytes b" using b'(2) ds(1) new(2) by (simp add: bytes_def)
      moreover have "ev_inv b'"
        by (rule ev_invI [of b' ds "[tmp]"])
          (use b' ds new ev_inv_total [OF inv(1)] \<open>bytes b' = bytes b\<close> in \<open>auto simp: size_add_fits\<close>)
      ultimately show ?thesis using b'(5,6) by simp
    qed
  qed
qed

text \<open>The two refusals: a frozen end, and a length that would overflow.\<close>

lemma add_frozen: "freeze_end b \<Longrightarrow> evbuffer_add al b data = Some (-1, b)"
  by (simp add: evbuffer_add_def)

lemma add_too_long:
  "ev_inv b \<Longrightarrow> EV_SIZE_MAX < length (bytes b) + length data \<Longrightarrow> evbuffer_add al b data = Some (-1, b)"
proof -
  assume "ev_inv b" and long: "EV_SIZE_MAX < length (bytes b) + length data"
  then have "EV_SIZE_MAX - total_len b < length data" "total_len b \<le> EV_SIZE_MAX"
    using ev_inv_total [of b] by auto
  then show ?thesis by (simp add: evbuffer_add_def size_sub_fits)
qed

lemma add_reference_ok:
  assumes inv: "ev_inv b" "tight b" and data: "data \<noteq> []" "length data \<le> EVBUFFER_CHAIN_MAX"
    and fits: "length (bytes b) + length data \<le> EV_SIZE_MAX"
  shows "\<exists>r. evbuffer_add_reference al b a data cl = Some r \<and> appends b data r"
proof (cases "evbuffer_chain_new al 16 = None \<or> freeze_end b")
  case True
  then show ?thesis using inv
    by (auto simp: evbuffer_add_reference_def appends_def Let_def split: option.split)
next
  case False
  then obtain c where c: "evbuffer_chain_new al 16 = Some c" and thaw: "\<not> freeze_end b" by auto
  let ?c = "c\<lparr>flags := flags c \<union> {EVBUFFER_REFERENCE, EVBUFFER_IMMUTABLE},
              addr := a, buffer := data, off := length data, cleanupfn := cl\<rparr>"
  have g: "usable ?c" "off ?c \<noteq> 0" "content ?c = data"
    using data chain_new_ok [OF c] by (auto simp: usable_def chain_ok_def CHAIN_PINNED_def content_def)
  moreover have "total_len b + off ?c \<le> EV_SIZE_MAX"
    using fits ev_inv_total(1) [OF inv(1)] by simp
  ultimately obtain b' where "evbuffer_chain_insert b ?c = Some b'" "ev_inv b'" "tight b'"
    "bytes b' = bytes b @ data" "freeze_start b' = freeze_start b" "freeze_end b' = freeze_end b"
    using insert_tight [OF inv, of ?c] by auto
  then show ?thesis using c thaw by (simp add: evbuffer_add_reference_def appends_def)
qed

section \<open>Prepending\<close>

text \<open>
  What an operation that adds \<open>data\<close> at the front promises: all of it, or, when memory runs out, the
  tail of it that fitted into the first chain.
\<close>

definition prepends :: "evbuffer \<Rightarrow> cell list \<Rightarrow> int \<times> evbuffer \<Rightarrow> bool" where
  "prepends b data r \<longleftrightarrow> ev_inv (snd r) \<and> tight (snd r) \<and>
    freeze_start (snd r) = freeze_start b \<and> freeze_end (snd r) = freeze_end b \<and>
    (fst r = 0 \<and> bytes (snd r) = data @ bytes b \<or>
     fst r = -1 \<and> (\<exists>k. bytes (snd r) = drop k data @ bytes b))"

lemma prepend_new_chain_ok:
  assumes inv: "ev_inv b" "tight b" and ne: "\<forall>c. chains b = [c] \<longrightarrow> off c \<noteq> 0" "chains b \<noteq> []" and data: "data \<noteq> []"
    and fits: "total_len b + length data \<le> EV_SIZE_MAX"
  shows "\<exists>r. prepend_new_chain al b data c = Some r \<and> ev_inv (snd r) \<and> tight (snd r) \<and>
    freeze_start (snd r) = freeze_start b \<and> freeze_end (snd r) = freeze_end b \<and>
    (fst r = 0 \<and> bytes (snd r) = data @ bytes b \<or> fst r = -1 \<and> snd r = b)"
proof (cases "evbuffer_chain_new al (length data)")
  case None
  then show ?thesis using inv by (simp add: prepend_new_chain_def)
next
  case (Some tmp)
  note new = chain_new_ok [OF Some]
  let ?p = "buffer_len tmp - length data"
  let ?m = "take ?p (buffer tmp) @ data"
  let ?tmp = "tmp\<lparr>off := length data, misalign := ?p, buffer := ?m\<rparr>"
  let ?b = "b\<lparr>chains := ?tmp # chains b, last_with_datap := Suc (last_with_datap b),
    total_len := total_len b + length data, n_add_for_cb := size_add (n_add_for_cb b) (misalign c)\<rparr>"
  have good_tmp: "usable ?tmp" "off ?tmp \<noteq> 0" "content ?tmp = data"
    using new data by (auto simp: usable_def chain_ok_def content_def CHAIN_PINNED_def)
  have run: "prepend_new_chain al b data c = Some (0, evbuffer_invoke_callbacks ?b)"
    using Some new(6) fits by (simp add: prepend_new_chain_def memcpy_fits size_add_fits)
  have by_: "bytes ?b = data @ bytes b" using good_tmp(3) by (simp add: bytes_def)
  have "ev_inv ?b \<and> tight ?b"
    using inv
  proof (cases rule: tight_split)
    case (data ds)
    then show ?thesis
      using good_tmp by_ fits ev_inv_total(1) [OF inv(1)]
      by (intro conjI ev_invI [of ?b "?tmp # ds" "[]"]) (simp_all add: tight_def)
  next
    case (lone d)
    then show ?thesis using ne(1) by (simp add: spare_def)
  next
    case none
    then show ?thesis using ne(2) by simp
  qed
  then have "ev_inv (evbuffer_invoke_callbacks ?b)" "tight (evbuffer_invoke_callbacks ?b)"
    by (simp_all only: invoke_view)
  then show ?thesis using run by_ by simp
qed

lemma prepend_to_first_ok:
  assumes inv: "ev_inv b" "tight b" and ch: "chains b = c # cs" and data: "data \<noteq> []"
    and fits: "total_len b + length data \<le> EV_SIZE_MAX"
  shows "\<exists>r. prepend_to_first al b data c = Some r \<and> prepends b data r"
proof (cases "EVBUFFER_IMMUTABLE \<in> flags c")
  case True
  have "\<forall>d. chains b = [d] \<longrightarrow> off d \<noteq> 0"
    using inv True ch by (cases rule: tight_split) (auto simp: spare_def)
  then show ?thesis
    using prepend_new_chain_ok [OF inv _ _ data fits, of al c] ch True
    by (auto simp: prepend_to_first_def prepends_def intro: exI [of _ "length data"])
next
  case False
  define d where "d = (if off c = 0 then c\<lparr>misalign := buffer_len c\<rparr> else c)"
  have gc: "usable c" using ev_inv_total(3) [OF inv(1)] ch by simp
  then have gd: "usable d" "content d = content c" "flags d = flags c" "off d = off c"
    "misalign d + off d \<le> buffer_len d" "misalign d \<le> buffer_len d"
    by (auto simp: d_def usable_def chain_ok_def content_def CHAIN_PINNED_def)
  have mis: "misalign c \<le> EVBUFFER_CHAIN_MAX" using gc chain_okD(3) by (simp add: usable_def)
  have grow: "ev_inv (added (length x) (set_first e b)) \<and> tight (added (length x) (set_first e b)) \<and>
      bytes (added (length x) (set_first e b)) = x @ bytes b"
    if "usable e" "content e = x @ content d" "length x \<le> length data" "x \<noteq> []" for x e
    using grow_first [OF inv(1) ch that(1), of x] that gd inv(2) fits by auto
  text \<open>Writing \<open>x\<close> right in front of the data of the first chain.\<close>
  have front: "\<exists>m. memcpy (misalign d - length x) x (buffer d) = Some m \<and>
      usable (d\<lparr>buffer := m, off := off d + length x, misalign := misalign d - length x\<rparr>) \<and>
      content (d\<lparr>buffer := m, off := off d + length x, misalign := misalign d - length x\<rparr>) = x @ content d"
    if x: "length x \<le> misalign d" for x
  proof -
    let ?m = "take (misalign d - length x) (buffer d) @ x @ drop (misalign d) (buffer d)"
    let ?e = "d\<lparr>buffer := ?m, off := off d + length x, misalign := misalign d - length x\<rparr>"
    have len: "length (take (misalign d - length x) (buffer d)) = misalign d - length x"
      using gd(6) by simp
    have "memcpy (misalign d - length x) x (buffer d) = Some ?m"
      using x gd(6) by (simp add: memcpy_fits)
    moreover have "content ?e = x @ content d"
      using len by (simp add: content_def)
    moreover have "usable ?e"
      using gd(1,3,5,6) x False by (auto simp: usable_def chain_ok_def CHAIN_PINNED_def)
    ultimately show ?thesis by blast
  qed
  show ?thesis
  proof (cases "length data \<le> misalign d")
    case True
    obtain m where m: "memcpy (misalign d - length data) data (buffer d) = Some m"
      and e: "usable (d\<lparr>buffer := m, off := off d + length data, misalign := misalign d - length data\<rparr>)"
        "content (d\<lparr>buffer := m, off := off d + length data, misalign := misalign d - length data\<rparr>) = data @ content d"
      using front [OF True] by blast
    from grow [OF e _ data] show ?thesis
      using True False mis m
      by (simp add: prepend_to_first_def d_def [symmetric] prepends_def Let_def)
  next
    case long: False
    show ?thesis
    proof (cases "misalign d = 0")
      case True
      have used: "off c \<noteq> 0"
        using inv True ch
        by (cases rule: tight_split) (auto simp: d_def spare_def split: if_splits)
      then have d: "d = c" "set_first d b = b" using ch by (simp_all add: d_def set_first_def)
      have "\<forall>e. chains b = [e] \<longrightarrow> off e \<noteq> 0" using ch used by simp
      then show ?thesis
        using prepend_new_chain_ok [OF inv _ _ data fits, of al d] ch d(2) True long False mis
        by (auto simp: prepend_to_first_def d_def [symmetric] prepends_def Let_def
              intro: exI [of _ "length data"])
    next
      case room: False
      let ?x = "drop (length data - misalign d) data"
      have lx: "length ?x = misalign d" using long by simp
      obtain m where m: "memcpy 0 ?x (buffer d) = Some m"
        and e: "usable (d\<lparr>buffer := m, off := off d + misalign d, misalign := 0\<rparr>)"
          "content (d\<lparr>buffer := m, off := off d + misalign d, misalign := 0\<rparr>) = ?x @ content d"
        using front [of ?x] lx by auto
      let ?e = "d\<lparr>buffer := m, off := off d + misalign d, misalign := 0\<rparr>"
      let ?b = "added (misalign d) (set_first ?e b)"
      have b1: "ev_inv ?b" "tight ?b" "bytes ?b = ?x @ bytes b"
        using grow [OF e] lx long room by auto
      have fits1: "total_len ?b + length (take (length data - misalign d) data) \<le> EV_SIZE_MAX"
        using fits long by (simp add: size_add_fits)
      obtain r where r: "prepend_new_chain al ?b (take (length data - misalign d) data) ?e = Some r"
        "ev_inv (snd r)" "tight (snd r)" "freeze_start (snd r) = freeze_start b"
        "freeze_end (snd r) = freeze_end b"
        "fst r = 0 \<and> bytes (snd r) = take (length data - misalign d) data @ bytes ?b \<or> fst r = -1 \<and> snd r = ?b"
        using prepend_new_chain_ok [OF b1(1,2) _ _ _ fits1, of al ?e] long room data by auto
      have "prepend_to_first al b data c = Some r"
        using r(1) long room False mis m
        by (simp add: prepend_to_first_def d_def [symmetric] Let_def)
      moreover have "prepends b data r"
        using r(6)
      proof (elim disjE conjE)
        assume "fst r = 0" "bytes (snd r) = take (length data - misalign d) data @ bytes ?b"
        then have "bytes (snd r) = (take (length data - misalign d) data @ ?x) @ bytes b"
          using b1(3) by (simp only: append_assoc)
        with \<open>fst r = 0\<close> r show ?thesis unfolding prepends_def by (simp only: append_take_drop_id) simp
      next
        assume *: "fst r = -1" "snd r = ?b"
        have "\<exists>k. bytes (snd r) = drop k data @ bytes b"
          unfolding *(2) b1(3) by (rule exI) (rule refl)
        with * r(2-5) show ?thesis unfolding prepends_def by blast
      qed
      ultimately show ?thesis by blast
    qed
  qed
qed

lemma prepend_ok:
  assumes inv: "ev_inv b" "tight b" and data: "data \<noteq> []"
    and fits: "length (bytes b) + length data \<le> EV_SIZE_MAX"
  shows "\<exists>r. evbuffer_prepend al b data = Some r \<and> prepends b data r"
proof -
  have tot: "total_len b + length data \<le> EV_SIZE_MAX" using fits ev_inv_total(1) [OF inv(1)] by simp
  then have room: "\<not> length data > size_sub EV_SIZE_MAX (total_len b)"
    by (simp add: size_sub_fits)
  have unchanged: "prepends b data (-1, b)"
    using inv by (auto simp: prepends_def intro: exI [of _ "length data"])
  show ?thesis
  proof (cases "chains b")
    case (Cons c cs)
    then show ?thesis
      using prepend_to_first_ok [OF inv Cons data tot, of al] room
      by (auto simp: evbuffer_prepend_def intro: unchanged)
  next
    case Nil
    show ?thesis
    proof (cases "evbuffer_chain_new al (length data)")
      case None
      then show ?thesis using Nil room by (auto simp: evbuffer_prepend_def intro: unchanged)
    next
      case (Some c)
      note new = chain_new_ok [OF Some] new_chain_good [OF Some]
      obtain b' where b': "evbuffer_chain_insert b c = Some b'" "ev_inv b'" "tight b'"
        "bytes b' = bytes b @ content c" "chains b' = [c]" "total_len b' = total_len b + off c"
        "freeze_start b' = freeze_start b" "freeze_end b' = freeze_end b"
        using insert_tight [OF inv, of c] new Nil tot by auto
      have "total_len b' + length data \<le> EV_SIZE_MAX" using b'(6) new(3) tot by simp
      then obtain r where "prepend_to_first al b' data c = Some r" "prepends b' data r"
        using prepend_to_first_ok [OF b'(2,3,5) data] by blast
      then have "prepends b data r" using b' new(2) Nil by (simp add: prepends_def)
      then show ?thesis
        using Some Nil room b'(1) \<open>prepend_to_first al b' data c = Some r\<close>
        by (cases "freeze_start b") (auto simp: evbuffer_prepend_def intro: unchanged)
    qed
  qed
qed

lemma prepend_frozen: "freeze_start b \<Longrightarrow> evbuffer_prepend al b data = Some (-1, b)"
  by (simp add: evbuffer_prepend_def)

end
