(* ===== verification/EvTake.thy ===== *)
theory EvTake imports EvInv begin

text \<open>
  The operations that take bytes from the front, \<open>evbuffer_drain\<close>, \<open>evbuffer_copyout\<close> and
  \<open>evbuffer_remove\<close>, against the bytes of the buffer. They hold for every buffer that has the
  invariant, with spare chains or without.
\<close>

section \<open>Draining\<close>

lemma has_pinned_r [simp]: "list_all usable (chains b) \<Longrightarrow> \<not> HAS_PINNED_R b"
  by (auto simp: HAS_PINNED_R_def list_all_iff usable_ok)

lemma length_contents_Cons: "usable c \<Longrightarrow> length (content c @ xs) = off c + length xs"
  by (simp add: usable_content)

lemma drain_loop_ok:
  assumes "list_all usable cs" "remaining < length (concat (map content cs))"
  shows "\<exists>j r buf'. drain_loop k remaining cs buf = Some (k + j, r, drop j cs, buf') \<and>
    j < length cs \<and> r < off (cs ! j) \<and>
    remaining = length (concat (map content (take j cs))) + r \<and>
    last_with_datap buf' - (k + j) = last_with_datap buf - (k + j) \<and>
    total_len buf' = total_len buf \<and> freeze_start buf' = freeze_start buf \<and>
    freeze_end buf' = freeze_end buf \<and> n_add_for_cb buf' = n_add_for_cb buf \<and>
    n_del_for_cb buf' = n_del_for_cb buf \<and> callbacks buf' = callbacks buf"
  using assms
proof (induction cs arbitrary: k remaining buf)
  case Nil
  then show ?case by simp
next
  case (Cons c cs)
  have gc: "usable c" using Cons.prems(1) by simp
  show ?case
  proof (cases "remaining < off c")
    case True
    then show ?thesis by (intro exI [of _ 0] exI [of _ remaining] exI [of _ buf]) simp
  next
    case False
    let ?b0 = "if last_with_datap buf = k then buf\<lparr>last_with_datap := 0\<rparr> else buf"
    let ?b1 = "if last_with_datap ?b0 = Suc k then ?b0\<lparr>last_with_datap := 0\<rparr> else ?b0"
    let ?b2 = "evbuffer_chain_free c ?b1"
    have "remaining - off c < length (concat (map content cs))"
      using Cons.prems False gc by (simp add: usable_content)
    with Cons.IH [of "remaining - off c" "Suc k" ?b2] Cons.prems(1) obtain j r buf' where
      IH: "drain_loop (Suc k) (remaining - off c) cs ?b2 = Some (Suc k + j, r, drop j cs, buf')"
        "j < length cs" "r < off (cs ! j)"
        "remaining - off c = length (concat (map content (take j cs))) + r"
        "last_with_datap buf' - (Suc k + j) = last_with_datap ?b2 - (Suc k + j)"
        "total_len buf' = total_len ?b2" "freeze_start buf' = freeze_start ?b2"
        "freeze_end buf' = freeze_end ?b2" "n_add_for_cb buf' = n_add_for_cb ?b2"
        "n_del_for_cb buf' = n_del_for_cb ?b2" "callbacks buf' = callbacks ?b2"
      by auto
    have "drain_loop k remaining (c # cs) buf = Some (k + Suc j, r, drop (Suc j) (c # cs), buf')"
      using False IH(1) gc by (simp add: Let_def usable_ok)
    moreover have "remaining = length (concat (map content (take (Suc j) (c # cs)))) + r"
      using False IH(4) gc by (simp add: usable_content)
    moreover have "last_with_datap buf' - (k + Suc j) = last_with_datap buf - (k + Suc j)"
      using IH(5) by auto
    ultimately show ?thesis using IH by (intro exI [of _ "Suc j"] exI [of _ r] exI [of _ buf']) auto
  qed
qed

lemma contents_drop:
  assumes "list_all usable cs" "j < length cs" "r \<le> off (cs ! j)"
  shows "drop (length (concat (map content (take j cs))) + r) (concat (map content cs)) =
    drop r (content (cs ! j)) @ concat (map content (drop (Suc j) cs))"
proof -
  have "cs = take j cs @ cs ! j # drop (Suc j) cs" using assms(2) by (simp add: id_take_nth_drop)
  then have "concat (map content cs) =
      concat (map content (take j cs)) @ content (cs ! j) @ concat (map content (drop (Suc j) cs))"
    by (metis concat.simps(2) concat_append list.simps(9) map_append)
  moreover have "length (content (cs ! j)) = off (cs ! j)"
    using assms by (simp add: list_all_length usable_content)
  ultimately show ?thesis using assms(3) by simp
qed

lemma drain_ok:
  assumes inv: "ev_inv b" and thaw: "\<not> freeze_start b"
  shows "\<exists>b'. evbuffer_drain b len = Some (0, b') \<and> ev_inv b' \<and> (tight b \<longrightarrow> tight b') \<and>
    bytes b' = drop len (bytes b) \<and> freeze_start b' = freeze_start b \<and> freeze_end b' = freeze_end b"
proof -
  have usable: "list_all usable (chains b)" and tot: "total_len b = length (bytes b)"
    and max: "length (bytes b) \<le> EV_SIZE_MAX"
    using ev_inv_total [OF inv] by auto
  consider "total_len b = 0" | "total_len b \<noteq> 0" "len \<ge> total_len b" | "len < total_len b" by linarith
  then show ?thesis
  proof cases
    case 1
    then show ?thesis using inv tot by (simp add: evbuffer_drain_def)
  next
    case 2
    let ?b = "ZERO_CHAIN (evbuffer_free_all_chains (chains b) b)"
    have "ev_inv ?b" by (intro ev_invI [of ?b "[]" "[]"]) (simp_all add: ZERO_CHAIN_def bytes_def)
    moreover have "tight ?b" "bytes ?b = []" "freeze_start ?b = freeze_start b" "freeze_end ?b = freeze_end b"
      by (simp_all add: ZERO_CHAIN_def tight_def bytes_def)
    ultimately show ?thesis
      using 2 thaw usable tot by (simp add: evbuffer_drain_def Let_def)
  next
    case 3
    obtain ds es where s: "chains b = ds @ es" "list_all usable ds" "list_all (\<lambda>c. off c \<noteq> 0) ds"
      "list_all usable es" "list_all spare es" "last_with_datap b = length ds - 1"
      using inv by (rule ev_invE)
    let ?b0 = "b\<lparr>total_len := total_len b - len\<rparr>"
    have len: "len < length (concat (map content (chains b)))"
      using 3 tot by (simp add: bytes_def)
    obtain j r buf' where L: "drain_loop 0 len (chains b) ?b0 = Some (j, r, drop j (chains b), buf')"
      "j < length (chains b)" "r < off (chains b ! j)"
      "len = length (concat (map content (take j (chains b)))) + r"
      "last_with_datap buf' - j = last_with_datap b - j" "total_len buf' = total_len b - len"
      "freeze_start buf' = freeze_start b" "freeze_end buf' = freeze_end b"
      using drain_loop_ok [OF usable len, of 0 ?b0] by auto
    let ?c = "chains b ! j"
    have gc: "usable ?c" using usable L(2) by (simp add: list_all_length)
    let ?d = "?c\<lparr>misalign := misalign ?c + r, off := off ?c - r\<rparr>"
    let ?b = "buf'\<lparr>chains := ?d # drop (Suc j) (chains b), last_with_datap := last_with_datap buf' - j\<rparr>"
    have run: "evbuffer_drain b len = Some (0, evbuffer_invoke_callbacks
        (?b\<lparr>n_del_for_cb := size_add (n_del_for_cb buf') len\<rparr>))"
      using 3 L thaw usable by (simp add: evbuffer_drain_def Let_def hd_drop_conv_nth drop_Suc_Cons tl_drop drop_Suc)
    have by_: "bytes ?b = drop len (bytes b)"
      using contents_drop [OF usable L(2), of r] L(3,4) content_advance [of r ?c]
      by (simp add: bytes_def)
    have j: "j < length ds"
    proof (rule ccontr)
      assume "\<not> j < length ds"
      then have "?c \<in> set es" using L(2) s(1) by (auto simp: nth_append)
      then show False using s(5) L(3) by (auto simp: list_all_iff spare_def)
    qed
    have gd: "usable ?d" "off ?d \<noteq> 0"
      using chain_ok_advance [of ?c r] gc L(3) by (auto simp: usable_def CHAIN_PINNED_def)
    have ls: "list_all usable (drop (Suc j) ds)" "list_all (\<lambda>c. off c \<noteq> 0) (drop (Suc j) ds)"
      using s(2,3) by (auto simp: list_all_iff dest: in_set_dropD)
    have "ev_inv ?b"
    proof (rule ev_invI [of ?b "?d # drop (Suc j) ds" es])
      show "chains ?b = (?d # drop (Suc j) ds) @ es" using j s(1) by simp
      show "last_with_datap ?b = length (?d # drop (Suc j) ds) - 1" using L(5) s(6) j by simp
      show "total_len ?b = length (bytes ?b)" unfolding by_ using L(6) tot by simp
      show "total_len ?b \<le> EV_SIZE_MAX" using L(6) tot max by simp
    qed (use gd ls s in simp_all)
    moreover have "tight ?b" if "tight b"
      using that L(5) s(1,6) j by (simp add: tight_def)
    ultimately show ?thesis using run by_ L(7,8) by simp
  qed
qed

lemma drain_frozen:
  "freeze_start b \<Longrightarrow> evbuffer_drain b len = Some (if total_len b = 0 then 0 else -1, b)"
  by (simp add: evbuffer_drain_def)

section \<open>Copying out\<close>

lemma copy_loop_ok:
  "list_all usable cs \<Longrightarrow> n \<le> length (concat (map content cs)) \<Longrightarrow>
    copy_loop n cs = Some (take n (concat (map content cs)))"
proof (induction cs arbitrary: n)
  case Nil
  then show ?case by simp
next
  case (Cons c cs)
  have gc: "usable c" using Cons.prems(1) by simp
  then have read: "chain_read c (off c) = Some (content c)" by (simp add: chain_read_content usable_ok)
  show ?case
  proof (cases "n < off c")
    case True
    then show ?thesis using chain_read_take [of c n] gc by (simp add: usable_def usable_content)
  next
    case False
    then have "copy_loop (n - off c) cs = Some (take (n - off c) (concat (map content cs)))"
      using Cons gc by (simp add: usable_content)
    moreover have "cs \<noteq> [] \<or> n - off c = 0" using Cons.prems(2) gc by (cases cs) (simp_all add: usable_content)
    ultimately show ?thesis using False read gc by (cases "n = 0") (auto simp: usable_content)
  qed
qed

lemma copyout_ok:
  assumes inv: "ev_inv b" and thaw: "\<not> freeze_start b"
  shows "evbuffer_copyout b n = Some (int (min n (length (bytes b))), take n (bytes b))"
proof -
  have usable: "list_all usable (chains b)" and tot: "total_len b = length (bytes b)"
    using ev_inv_total [OF inv] by auto
  have "copy_loop m (chains b) = Some (take m (bytes b))" if "m \<le> length (bytes b)" for m
    using copy_loop_ok [OF usable, of m] that by (simp add: bytes_def)
  then show ?thesis using thaw tot by (auto simp: evbuffer_copyout_def Let_def min_def)
qed

lemma copyout_frozen:
  "freeze_start b \<Longrightarrow> evbuffer_copyout b n = Some (if min n (total_len b) = 0 then 0 else -1, [])"
  by (auto simp: evbuffer_copyout_def Let_def min_def)

lemma remove_ok:
  assumes inv: "ev_inv b" and thaw: "\<not> freeze_start b"
  shows "\<exists>b'. evbuffer_remove b n = Some (c_int (int (min n (length (bytes b)))), take n (bytes b), b') \<and>
    ev_inv b' \<and> (tight b \<longrightarrow> tight b') \<and> bytes b' = drop n (bytes b) \<and>
    freeze_start b' = freeze_start b \<and> freeze_end b' = freeze_end b"
proof -
  let ?n = "min n (length (bytes b))"
  obtain b' where b': "evbuffer_drain b ?n = Some (0, b')" "ev_inv b'" "tight b \<longrightarrow> tight b'"
    "bytes b' = drop ?n (bytes b)" "freeze_start b' = freeze_start b" "freeze_end b' = freeze_end b"
    using drain_ok [OF assms, of ?n] by auto
  have "drop ?n (bytes b) = drop n (bytes b)" by (simp add: min_def)
  with b' copyout_ok [OF assms, of n] inv show ?thesis
    by (auto simp: evbuffer_remove_def)
qed

text \<open>The result is the number of bytes only while it fits an \<open>int\<close>.\<close>

lemma c_int_small: "0 \<le> n \<Longrightarrow> n < 2 ^ 31 \<Longrightarrow> c_int n = n"
  by (simp add: c_int_def sint_word_ariths signed_take_bit_int_eq_self sint_sbintrunc')

end
