(* ===== verification/EvMove.thy ===== *)
theory EvMove imports EvAdd EvTake begin

text \<open>
  The operations of \<open>buffer.c\<close> that move whole chains: from one buffer to another, and the chains
  of one buffer together (\<open>evbuffer_pullup\<close>). Two buffers are always two different ones here: on one
  and the same buffer the code returns 0 at once.
\<close>

section \<open>Read-pinned chains\<close>

text \<open>
  \<open>PRESERVE_PINNED\<close>: the buffer without its read-pinned chains, and those chains; \<open>Inl\<close> when the
  copy of a pinned chain with data finds no memory.
\<close>

definition PRESERVE_PINNED ::
    "(nat \<Rightarrow> nat option) \<Rightarrow> evbuffer \<Rightarrow> (unit + evbuffer \<times> evchain list) option" where
  "PRESERVE_PINNED al src =
    (if \<not> HAS_PINNED_R src then Some (Inr (src, []))
     else do {
       c \<leftarrow> last_with_data src;
       let pinned = (if CHAIN_PINNED_R c then last_with_datap src else Suc (last_with_datap src));
       check (pinned < length (chains src));
       let chain = chains src ! pinned;
       check (CHAIN_PINNED_R chain);
       if off chain \<noteq> 0 then do {
         check (pinned = last_with_datap src);
         (case evbuffer_chain_new al (off chain) of
            None \<Rightarrow> Some (Inl ())
          | Some tmp \<Rightarrow> do {
              data \<leftarrow> chain_read chain (off chain);
              m \<leftarrow> memcpy 0 data (buffer tmp);
              let tmp = tmp\<lparr>buffer := m, off := off chain\<rparr>;
              Some (Inr (src\<lparr>chains := take pinned (chains src) @ [tmp]\<rparr>,
                chain\<lparr>misalign := misalign chain + off chain, off := 0\<rparr> # drop (Suc pinned) (chains src)))
            })
       }
       else Some (Inr (src\<lparr>chains := take pinned (chains src)\<rparr>, drop pinned (chains src)))
     })"

definition RESTORE_PINNED :: "evbuffer \<Rightarrow> evchain list \<Rightarrow> evbuffer" where
  "RESTORE_PINNED src pinned =
    (if pinned = [] then ZERO_CHAIN src
     else src\<lparr>chains := pinned, last_with_datap := 0, total_len := 0\<rparr>)"

section \<open>From one buffer to another\<close>

definition COPY_CHAIN :: "evbuffer \<Rightarrow> evbuffer \<Rightarrow> evbuffer" where
  "COPY_CHAIN dst src =
    dst\<lparr>chains := chains src, last_with_datap := last_with_datap src, total_len := total_len src\<rparr>"

text \<open>The \<open>next\<close> pointers of \<open>src\<close> move behind those of \<open>dst\<close>.\<close>

definition APPEND_CHAIN :: "evbuffer \<Rightarrow> evbuffer \<Rightarrow> evbuffer" where
  "APPEND_CHAIN dst src =
    dst\<lparr>chains := chains dst @ chains src,
        last_with_datap := length (chains dst) + last_with_datap src,
        total_len := size_add (total_len dst) (total_len src)\<rparr>"

text \<open>\<open>dst->first\<close> is already the first chain of \<open>src\<close> when \<open>*dst->last_with_datap\<close> is looked at, so
  it is null only for a pointer behind the last chain.\<close>

definition PREPEND_CHAIN :: "evbuffer \<Rightarrow> evbuffer \<Rightarrow> evbuffer" where
  "PREPEND_CHAIN dst src =
    dst\<lparr>chains := chains src @ chains dst,
        last_with_datap :=
          (if last_with_datap dst \<noteq> 0 \<and> last_with_datap dst \<ge> length (chains dst) then last_with_datap src
           else length (chains src) + last_with_datap dst),
        total_len := size_add (total_len dst) (total_len src)\<rparr>"

definition move_buffer ::
    "(evbuffer \<Rightarrow> evbuffer \<Rightarrow> evbuffer) \<Rightarrow> (nat \<Rightarrow> nat option) \<Rightarrow> evbuffer \<Rightarrow> evbuffer \<Rightarrow>
      (int \<times> evbuffer \<times> evbuffer) option" where
  "move_buffer join al outbuf inbuf =
    (let in_total_len = total_len inbuf in do {
      r \<leftarrow> PRESERVE_PINNED al inbuf;
      case r of
        Inl _ \<Rightarrow> Some (-1, outbuf, inbuf)
      | Inr (inbuf, pinned) \<Rightarrow>
          let outbuf = (if total_len outbuf = 0
                        then COPY_CHAIN (evbuffer_free_all_chains (chains outbuf) outbuf) inbuf
                        else join outbuf inbuf);
              inbuf = RESTORE_PINNED inbuf pinned;
              inbuf = inbuf\<lparr>n_del_for_cb := size_add (n_del_for_cb inbuf) in_total_len\<rparr>;
              outbuf = outbuf\<lparr>n_add_for_cb := size_add (n_add_for_cb outbuf) in_total_len\<rparr>
          in Some (0, evbuffer_invoke_callbacks outbuf, evbuffer_invoke_callbacks inbuf)
    })"

definition evbuffer_add_buffer ::
    "(nat \<Rightarrow> nat option) \<Rightarrow> evbuffer \<Rightarrow> evbuffer \<Rightarrow> (int \<times> evbuffer \<times> evbuffer) option" where
  "evbuffer_add_buffer al outbuf inbuf =
    (if total_len inbuf = 0 then Some (0, outbuf, inbuf)
     else if freeze_end outbuf \<or> freeze_start inbuf then Some (-1, outbuf, inbuf)
     else move_buffer APPEND_CHAIN al outbuf inbuf)"

definition evbuffer_prepend_buffer ::
    "(nat \<Rightarrow> nat option) \<Rightarrow> evbuffer \<Rightarrow> evbuffer \<Rightarrow> (int \<times> evbuffer \<times> evbuffer) option" where
  "evbuffer_prepend_buffer al outbuf inbuf =
    (if total_len inbuf = 0 then Some (0, outbuf, inbuf)
     else if freeze_start outbuf \<or> freeze_start inbuf then Some (-1, outbuf, inbuf)
     else move_buffer PREPEND_CHAIN al outbuf inbuf)"

text \<open>
  The loop of \<open>evbuffer_remove_buffer\<close> at chain \<open>k\<close> of \<open>src\<close>: where it stops, what is left to read,
  what was read, the pointer, and the chains from there on.
\<close>

fun remove_loop :: "nat \<Rightarrow> nat \<Rightarrow> nat \<Rightarrow> nat \<Rightarrow> evchain list \<Rightarrow> (nat \<times> nat \<times> nat \<times> nat) option" where
  "remove_loop k datlen nread lwd [] = None"
| "remove_loop k datlen nread lwd (chain # cs) =
    (if off chain \<le> datlen then do {
       check (k \<noteq> lwd);
       remove_loop (Suc k) (datlen - off chain) (nread + off chain) (if lwd = Suc k then 0 else lwd) cs
     }
     else Some (k, datlen, nread, lwd))"

text \<open>The chains that were read go to the end of \<open>dst\<close>.\<close>

definition take_chains :: "evbuffer \<Rightarrow> evchain list \<Rightarrow> nat \<Rightarrow> evbuffer option" where
  "take_chains dst cs nread = do {
    (dst, chp) \<leftarrow> evbuffer_free_trailing_empty_chains dst;
    let dst = dst\<lparr>chains := take chp (chains dst) @ cs\<rparr>;
    let dst = advance_last_with_data dst;
    Some (added nread dst)
  }"

definition evbuffer_remove_buffer ::
    "(nat \<Rightarrow> nat option) \<Rightarrow> evbuffer \<Rightarrow> evbuffer \<Rightarrow> nat \<Rightarrow> (int \<times> evbuffer \<times> evbuffer) option" where
  "evbuffer_remove_buffer al src dst datlen =
    (if datlen = 0 then Some (0, src, dst)
     else if freeze_end dst \<or> freeze_start src then Some (-1, src, dst)
     else if datlen \<ge> total_len src then do {
       let datlen = total_len src;
       (_, dst, src) \<leftarrow> evbuffer_add_buffer al dst src;
       Some (c_int (int datlen), src, dst)
     }
     else do {
       (k, datlen, nread, lwd) \<leftarrow> remove_loop 0 datlen 0 (last_with_datap src) (chains src);
       (src, dst, i) \<leftarrow>
         (if nread \<noteq> 0 then do {
            dst \<leftarrow> take_chains dst (take k (chains src)) nread;
            Some (src\<lparr>chains := drop k (chains src), last_with_datap := lwd - k\<rparr>, dst, 0)
          }
          else Some (src\<lparr>last_with_datap := lwd\<rparr>, dst, k));
       let chain = chains src ! i;
       data \<leftarrow> chain_read chain datlen;
       (_, dst) \<leftarrow> evbuffer_add al dst data;
       let chain = chain\<lparr>misalign := misalign chain + datlen, off := off chain - datlen\<rparr>;
       let src = src\<lparr>chains := (chains src)[i := chain]\<rparr>;
       let nread = nread + datlen;
       let src = src\<lparr>total_len := total_len src - nread, n_del_for_cb := size_add (n_del_for_cb src) nread\<rparr>;
       let (dst, src) = (if nread \<noteq> 0 then (evbuffer_invoke_callbacks dst, evbuffer_invoke_callbacks src)
                         else (dst, src));
       Some (c_int (int nread), src, dst)
     })"

section \<open>Pulling up\<close>

fun pinned_before :: "nat \<Rightarrow> evchain list \<Rightarrow> bool" where
  "pinned_before remaining [] = False"
| "pinned_before remaining (tmp # cs) =
    (if CHAIN_PINNED tmp then True
     else if off tmp \<ge> remaining then False
     else pinned_before (remaining - off tmp) cs)"

text \<open>
  The copying loop at chain \<open>k\<close> of the old list, with \<open>p\<close> the place in the memory \<open>m\<close> of the chain
  that is filled: \<open>lw\<close> is the position of \<open>last_with_data\<close>, when that is an old chain. The two flags say
  whether that chain, and the chain whose \<open>next\<close> is \<open>last_with_datap\<close>, were removed.
\<close>

fun pullup_loop ::
    "nat \<Rightarrow> nat \<Rightarrow> nat \<Rightarrow> cell list \<Rightarrow> evchain list \<Rightarrow> evbuffer \<Rightarrow> nat option \<Rightarrow> bool \<Rightarrow> bool \<Rightarrow>
      (nat \<times> nat \<times> nat \<times> cell list \<times> evchain list \<times> evbuffer \<times> bool \<times> bool) option" where
  "pullup_loop k n p m [] buf lw removed removedp = Some (k, n, p, m, [], buf, removed, removedp)"
| "pullup_loop k n p m (chain # next) buf lw removed removedp =
    (if n \<ge> off chain then do {
       data \<leftarrow> chain_read chain (off chain);
       m \<leftarrow> memcpy p data m;
       pullup_loop (Suc k) (n - off chain) (p + off chain) m next (evbuffer_chain_free chain buf) lw
         (removed \<or> lw = Some k) (removedp \<or> last_with_datap buf = Suc k)
     }
     else Some (k, n, p, m, chain # next, buf, removed, removedp))"

text \<open>Fill \<open>tmp\<close> from place \<open>p\<close> with \<open>n\<close> bytes of the chains \<open>cs\<close>, which start at position \<open>k\<close>;
  \<open>size\<close> bytes can be read at the pointer that is returned.\<close>

definition pull_into ::
    "evbuffer \<Rightarrow> evchain \<Rightarrow> nat \<Rightarrow> nat \<Rightarrow> nat \<Rightarrow> nat \<Rightarrow> evchain list \<Rightarrow> nat option \<Rightarrow>
      (cell list option \<times> evbuffer) option" where
  "pull_into buf tmp p sz n k cs lw = do {
    (k, n, p, m, cs, buf, removed, removedp) \<leftarrow> pullup_loop k n p (buffer tmp) cs buf lw False False;
    (m, cs) \<leftarrow>
      (case cs of
         [] \<Rightarrow> Some (m, [])
       | chain # next \<Rightarrow> do {
           data \<leftarrow> chain_read chain n;
           m \<leftarrow> memcpy p data m;
           Some (m, chain\<lparr>misalign := misalign chain + n, off := off chain - n\<rparr> # next)
         });
    let tmp = tmp\<lparr>buffer := m\<rparr>;
    let lwd = (if removed then 0
               else if removedp then (if cs \<noteq> [] \<and> off (hd cs) \<noteq> 0 then 1 else 0)
               else if last_with_datap buf = 0 then 0
               else last_with_datap buf - (k - 1));
    result \<leftarrow> memread (misalign tmp) sz (buffer tmp);
    Some (Some result, buf\<lparr>chains := tmp # cs, last_with_datap := lwd\<rparr>)
  }"

definition evbuffer_pullup ::
    "(nat \<Rightarrow> nat option) \<Rightarrow> evbuffer \<Rightarrow> int \<Rightarrow> (cell list option \<times> evbuffer) option" where
  "evbuffer_pullup al buf sz =
    (let n = (if sz < 0 then total_len buf else nat sz) in
     if n = 0 \<or> n > total_len buf then Some (None, buf)
     else
       (case chains buf of
          [] \<Rightarrow> None
        | chain # cs \<Rightarrow>
            let lwd = last_with_datap buf in
            if off chain \<ge> n then do {
              result \<leftarrow> memread (misalign chain) n (buffer chain);
              Some (Some result, buf)
            }
            else if pinned_before (n - off chain) cs then Some (None, buf)
            else if CHAIN_PINNED chain then
              (if CHAIN_SPACE_LEN chain < n - off chain then Some (None, buf)
               else pull_into buf (chain\<lparr>off := n\<rparr>) (misalign chain + off chain) n (n - off chain) 1 cs (Some lwd))
            else if size_sub (buffer_len chain) (misalign chain) \<ge> n then
              pull_into buf (chain\<lparr>off := n\<rparr>) (misalign chain + off chain) n (n - off chain) 1 cs (Some lwd)
            else
              (case evbuffer_chain_new al n of
                 None \<Rightarrow> Some (None, buf)
               | Some tmp \<Rightarrow>
                   pull_into buf (tmp\<lparr>off := n\<rparr>) 0 n n 0 (chain # cs) (if lwd = 0 then None else Some lwd))))"

end
