(* ===== verification/EvMoveInv.thy ===== *)
theory EvMoveInv imports EvMove begin

text \<open>
  The chain-moving operations against the bytes of the buffers: \<open>evbuffer_add_buffer\<close>,
  \<open>evbuffer_prepend_buffer\<close>, \<open>evbuffer_remove_buffer\<close> and \<open>evbuffer_pullup\<close>.
\<close>

section \<open>Moving a whole buffer\<close>

lemma preserve_unpinned: "ev_inv b \<Longrightarrow> PRESERVE_PINNED al b = Some (Inr (b, []))"
  using ev_inv_total(3) [of b] by (simp add: PRESERVE_PINNED_def)

lemma zero_chain_ok: "ev_inv (ZERO_CHAIN b)" "tight (ZERO_CHAIN b)" "bytes (ZERO_CHAIN b) = []"
  "freeze_start (ZERO_CHAIN b) = freeze_start b" "freeze_end (ZERO_CHAIN b) = freeze_end b"
proof -
  show "ev_inv (ZERO_CHAIN b)"
    by (rule ev_invI [of _ "[]" "[]"]) (simp_all add: ZERO_CHAIN_def bytes_def)
qed (simp_all add: ZERO_CHAIN_def tight_def bytes_def)

lemma move_buffer_run:
  assumes "ev_inv inb"
  shows "\<exists>out' in'. move_buffer join al outb inb = Some (0, out', in') \<and>
    chains out' = chains (if total_len outb = 0 then COPY_CHAIN outb inb else join outb inb) \<and>
    last_with_datap out' = last_with_datap (if total_len outb = 0 then COPY_CHAIN outb inb else join outb inb) \<and>
    total_len out' = total_len (if total_len outb = 0 then COPY_CHAIN outb inb else join outb inb) \<and>
    freeze_start out' = freeze_start (if total_len outb = 0 then outb else join outb inb) \<and>
    freeze_end out' = freeze_end (if total_len outb = 0 then outb else join outb inb) \<and>
    ev_inv in' \<and> tight in' \<and> bytes in' = [] \<and>
    freeze_start in' = freeze_start inb \<and> freeze_end in' = freeze_end inb"
  using preserve_unpinned [OF assms, of al] zero_chain_ok [of inb]
  by (simp add: move_buffer_def Let_def RESTORE_PINNED_def COPY_CHAIN_def)

text \<open>What is common to moving at the end and at the front: the chains with data of both stand one
  behind the other.\<close>

lemma joined_inv:
  assumes x: "ev_inv x" and y: "ev_inv y" "total_len y \<noteq> 0" and tight: "tight x" "total_len x \<noteq> 0"
    and b: "chains b = chains x @ chains y" "last_with_datap b = length (chains x) + last_with_datap y"
      "total_len b = size_add (total_len x) (total_len y)"
    and fits: "length (bytes x) + length (bytes y) \<le> EV_SIZE_MAX"
  shows "ev_inv b \<and> bytes b = bytes x @ bytes y \<and> (tight y \<longrightarrow> tight b)"
proof -
  have by_: "bytes b = bytes x @ bytes y" using b(1) by (simp add: bytes_def)
  have tot: "total_len b = length (bytes b)"
    using b(3) by_ fits ev_inv_total(1) [OF x] ev_inv_total(1) [OF y(1)] by (simp add: size_add_fits)
  obtain ds es where s: "chains y = ds @ es" "list_all usable ds" "list_all (\<lambda>c. off c \<noteq> 0) ds"
    "list_all usable es" "list_all spare es" "last_with_datap y = length ds - 1"
    using y(1) by (rule ev_invE)
  have ds: "ds \<noteq> []"
    using y(2) ev_inv_total(1) [OF y(1)] bytes_split [OF s(1,5)] by auto
  have data: "list_all usable (chains x)" "list_all (\<lambda>c. off c \<noteq> 0) (chains x)"
    using x tight(1)
    by (cases rule: tight_split;
        use tight(2) ev_inv_total(1) [OF x] in \<open>auto simp: bytes_def spare_content\<close>)+
  have "ev_inv b"
  proof (rule ev_invI [of b "chains x @ ds" es])
    show "last_with_datap b = length (chains x @ ds) - 1"
      using b(2) s(6) ds by (cases ds) simp_all
    show "total_len b \<le> EV_SIZE_MAX" using tot by_ fits by simp
  qed (use b(1) s data tot in simp_all)
  moreover have "tight b" if "tight y" using that b(1,2) by (simp add: tight_def)
  ultimately show ?thesis using by_ by blast
qed

lemma copied_inv:
  assumes "ev_inv y" "chains b = chains y" "last_with_datap b = last_with_datap y" "total_len b = total_len y"
  shows "ev_inv b \<and> bytes b = bytes y \<and> (tight y \<longrightarrow> tight b)"
  using same_view [OF assms(2-4)] assms(1) by simp

lemma empty_bytes: "ev_inv b \<Longrightarrow> (total_len b = 0) = (bytes b = [])"
  using ev_inv_total(1) [of b] by simp

lemma add_buffer_ok:
  assumes outb: "ev_inv outb" "tight outb" and inb: "ev_inv inb"
    and thaw: "\<not> freeze_end outb" "\<not> freeze_start inb"
    and fits: "length (bytes outb) + length (bytes inb) \<le> EV_SIZE_MAX"
  shows "\<exists>out' in'. evbuffer_add_buffer al outb inb = Some (0, out', in') \<and>
    ev_inv out' \<and> (tight inb \<longrightarrow> tight out') \<and> bytes out' = bytes outb @ bytes inb \<and>
    ev_inv in' \<and> (tight inb \<longrightarrow> tight in') \<and> bytes in' = [] \<and>
    freeze_start out' = freeze_start outb \<and> freeze_end out' = freeze_end outb \<and>
    freeze_start in' = freeze_start inb \<and> freeze_end in' = freeze_end inb"
proof (cases "total_len inb = 0")
  case True
  then show ?thesis using outb inb empty_bytes [of inb] by (simp add: evbuffer_add_buffer_def)
next
  case False
  obtain out' in' where m: "move_buffer APPEND_CHAIN al outb inb = Some (0, out', in')"
    "chains out' = chains (if total_len outb = 0 then COPY_CHAIN outb inb else APPEND_CHAIN outb inb)"
    "last_with_datap out' = last_with_datap (if total_len outb = 0 then COPY_CHAIN outb inb else APPEND_CHAIN outb inb)"
    "total_len out' = total_len (if total_len outb = 0 then COPY_CHAIN outb inb else APPEND_CHAIN outb inb)"
    "freeze_start out' = freeze_start (if total_len outb = 0 then outb else APPEND_CHAIN outb inb)"
    "freeze_end out' = freeze_end (if total_len outb = 0 then outb else APPEND_CHAIN outb inb)"
    "ev_inv in'" "tight in'" "bytes in' = []" "freeze_start in' = freeze_start inb" "freeze_end in' = freeze_end inb"
    using move_buffer_run [OF inb, of APPEND_CHAIN al outb] by blast
  have "ev_inv out' \<and> bytes out' = bytes outb @ bytes inb \<and> (tight inb \<longrightarrow> tight out')"
  proof (cases "total_len outb = 0")
    case True
    then show ?thesis
      using copied_inv [OF inb, of out'] m(2-4) empty_bytes [OF outb(1)] by (simp add: COPY_CHAIN_def)
  next
    case nonempty: False
    then show ?thesis
      using joined_inv [OF outb(1) inb False outb(2) nonempty _ _ _ fits, of out'] m(2-4)
      by (simp add: APPEND_CHAIN_def)
  qed
  then show ?thesis using False thaw m
    by (simp add: evbuffer_add_buffer_def APPEND_CHAIN_def)
qed

lemma prepend_buffer_ok:
  assumes outb: "ev_inv outb" and inb: "ev_inv inb" "tight inb"
    and thaw: "\<not> freeze_start outb" "\<not> freeze_start inb"
    and fits: "length (bytes outb) + length (bytes inb) \<le> EV_SIZE_MAX"
  shows "\<exists>out' in'. evbuffer_prepend_buffer al outb inb = Some (0, out', in') \<and>
    ev_inv out' \<and> (tight outb \<longrightarrow> tight out') \<and> bytes out' = bytes inb @ bytes outb \<and>
    ev_inv in' \<and> tight in' \<and> bytes in' = [] \<and>
    freeze_start out' = freeze_start outb \<and> freeze_end out' = freeze_end outb \<and>
    freeze_start in' = freeze_start inb \<and> freeze_end in' = freeze_end inb"
proof (cases "total_len inb = 0")
  case True
  then show ?thesis using outb inb empty_bytes [of inb] by (simp add: evbuffer_prepend_buffer_def)
next
  case False
  obtain out' in' where m: "move_buffer PREPEND_CHAIN al outb inb = Some (0, out', in')"
    "chains out' = chains (if total_len outb = 0 then COPY_CHAIN outb inb else PREPEND_CHAIN outb inb)"
    "last_with_datap out' = last_with_datap (if total_len outb = 0 then COPY_CHAIN outb inb else PREPEND_CHAIN outb inb)"
    "total_len out' = total_len (if total_len outb = 0 then COPY_CHAIN outb inb else PREPEND_CHAIN outb inb)"
    "freeze_start out' = freeze_start (if total_len outb = 0 then outb else PREPEND_CHAIN outb inb)"
    "freeze_end out' = freeze_end (if total_len outb = 0 then outb else PREPEND_CHAIN outb inb)"
    "ev_inv in'" "tight in'" "bytes in' = []" "freeze_start in' = freeze_start inb" "freeze_end in' = freeze_end inb"
    using move_buffer_run [OF inb(1), of PREPEND_CHAIN al outb] by blast
  have "ev_inv out' \<and> bytes out' = bytes inb @ bytes outb \<and> (tight outb \<longrightarrow> tight out')"
  proof (cases "total_len outb = 0")
    case True
    then show ?thesis
      using copied_inv [OF inb(1), of out'] m(2-4) empty_bytes [OF outb] inb(2) by (simp add: COPY_CHAIN_def)
  next
    case nonempty: False
    obtain ds es where s: "chains outb = ds @ es" "list_all spare es" "last_with_datap outb = length ds - 1"
      using outb by (rule ev_invE)
    have "ds \<noteq> []" using nonempty ev_inv_total(1) [OF outb] bytes_split [OF s(1,2)] by auto
    then have "\<not> (last_with_datap outb \<noteq> 0 \<and> last_with_datap outb \<ge> length (chains outb))"
      using s by (cases ds) auto
    then have "last_with_datap (PREPEND_CHAIN outb inb) = length (chains inb) + last_with_datap outb"
      unfolding PREPEND_CHAIN_def by auto
    then have v: "chains out' = chains inb @ chains outb"
      "last_with_datap out' = length (chains inb) + last_with_datap outb"
      "total_len out' = size_add (total_len inb) (total_len outb)"
      using m(2-4) nonempty by (simp_all add: PREPEND_CHAIN_def size_add_def add.commute)
    have "length (bytes inb) + length (bytes outb) \<le> EV_SIZE_MAX" using fits by simp
    from joined_inv [OF inb(1) outb nonempty inb(2) False v this] show ?thesis .
  qed
  then show ?thesis using False thaw m
    by (simp add: evbuffer_prepend_buffer_def PREPEND_CHAIN_def)
qed

section \<open>Moving the front of a buffer\<close>

lemma remove_loop_ok:
  assumes "list_all usable cs" "datlen < length (concat (map content cs))"
    "lwd = 0 \<longrightarrow> k \<noteq> 0" "lwd \<noteq> 0 \<longrightarrow> k \<le> lwd"
    "\<forall>i < length cs. lwd = k + i \<longrightarrow> length (concat (map content (take (Suc i) cs))) > datlen"
  shows "\<exists>j r lwd'. remove_loop k datlen nread lwd cs = Some (k + j, r, nread + (datlen - r), lwd') \<and>
    j < length cs \<and> r < off (cs ! j) \<and> r \<le> datlen \<and>
    datlen = length (concat (map content (take j cs))) + r \<and> lwd' - (k + j) = lwd - (k + j)"
  using assms
proof (induction cs arbitrary: k datlen nread lwd)
  case Nil
  then show ?case by simp
next
  case (Cons c cs)
  have gc: "usable c" using Cons.prems(1) by simp
  show ?case
  proof (cases "off c \<le> datlen")
    case False
    then show ?thesis by (intro exI [of _ 0] exI [of _ datlen] exI [of _ lwd]) simp
  next
    case True
    let ?lwd = "if lwd = Suc k then 0 else lwd"
    have "k \<noteq> lwd"
    proof
      assume "k = lwd"
      then have "length (concat (map content (take (Suc 0) (c # cs)))) > datlen"
        using Cons.prems(5) by (intro Cons.prems(5) [rule_format]) auto
      then show False using True gc by (simp add: usable_content)
    qed
    have "\<exists>j r lwd'. remove_loop (Suc k) (datlen - off c) (nread + off c) ?lwd cs =
        Some (Suc k + j, r, nread + off c + (datlen - off c - r), lwd') \<and>
      j < length cs \<and> r < off (cs ! j) \<and> r \<le> datlen - off c \<and>
      datlen - off c = length (concat (map content (take j cs))) + r \<and>
      lwd' - (Suc k + j) = ?lwd - (Suc k + j)"
    proof (rule Cons.IH)
      show "list_all usable cs" using Cons.prems(1) by simp
      show "datlen - off c < length (concat (map content cs))"
        using Cons.prems(2) True gc by (simp add: usable_content)
      show "?lwd = 0 \<longrightarrow> Suc k \<noteq> 0" by simp
      show "?lwd \<noteq> 0 \<longrightarrow> Suc k \<le> ?lwd" using Cons.prems(4) \<open>k \<noteq> lwd\<close> by auto
      show "\<forall>i < length cs. ?lwd = Suc k + i \<longrightarrow>
          length (concat (map content (take (Suc i) cs))) > datlen - off c"
      proof (intro allI impI)
        fix i assume i: "i < length cs" "?lwd = Suc k + i"
        then have "lwd = k + Suc i" by (auto split: if_splits)
        then have "length (concat (map content (take (Suc (Suc i)) (c # cs)))) > datlen"
          using Cons.prems(5) i(1) by (metis Suc_less_eq length_Cons)
        then show "length (concat (map content (take (Suc i) cs))) > datlen - off c"
          using gc True by (simp add: usable_content less_diff_conv2 add.commute)
      qed
    qed
    then obtain j r lwd' where IH: "remove_loop (Suc k) (datlen - off c) (nread + off c) ?lwd cs =
        Some (Suc k + j, r, nread + off c + (datlen - off c - r), lwd')"
      "j < length cs" "r < off (cs ! j)" "r \<le> datlen - off c"
      "datlen - off c = length (concat (map content (take j cs))) + r"
      "lwd' - (Suc k + j) = ?lwd - (Suc k + j)"
      by blast
    have "nread + off c + (datlen - off c - r) = nread + (datlen - r)" using IH(4) True by simp
    then have "remove_loop k datlen nread lwd (c # cs) = Some (k + Suc j, r, nread + (datlen - r), lwd')"
      using True \<open>k \<noteq> lwd\<close> IH(1) by simp
    moreover have "datlen = length (concat (map content (take (Suc j) (c # cs)))) + r"
      using IH(5) True gc by (simp add: usable_content)
    moreover have "lwd' - (k + Suc j) = lwd - (k + Suc j)" using IH(6) by auto
    ultimately show ?thesis using IH(2-4) True
      by (intro exI [of _ "Suc j"] exI [of _ r] exI [of _ lwd']) simp
  qed
qed

lemma advance_from_data:
  "list_all (\<lambda>c. off c \<noteq> 0) (tl cs) \<Longrightarrow> advance_from cs i = i + (length cs - 1)"
  by (induction cs i rule: advance_from.induct) auto

text \<open>Chains with data moved to the end of a buffer, whose spare chains are freed first.\<close>

lemma take_chains_ok:
  assumes inv: "ev_inv dst" and cs: "list_all usable cs" "list_all (\<lambda>c. off c \<noteq> 0) cs" "cs \<noteq> []"
    and n: "n = length (concat (map content cs))"
    and fits: "length (bytes dst) + n \<le> EV_SIZE_MAX"
  shows "\<exists>dst'. take_chains dst cs n = Some dst' \<and> ev_inv dst' \<and> tight dst' \<and>
    bytes dst' = bytes dst @ concat (map content cs) \<and>
    chains dst' \<noteq> [] \<and> set (chains dst') \<subseteq> set (chains dst) \<union> set cs \<and>
    freeze_start dst' = freeze_start dst \<and> freeze_end dst' = freeze_end dst"
proof -
  obtain ds es where s: "chains dst = ds @ es" "list_all usable ds" "list_all (\<lambda>c. off c \<noteq> 0) ds"
    "list_all usable es" "list_all spare es" "last_with_datap dst = length ds - 1"
    using inv by (rule ev_invE)
  have place: "last_with_datap dst + victim (drop (last_with_datap dst) (chains dst)) = length ds"
    unfolding s(1,6) by (rule victim_place [OF s(3-5)])
  obtain d1 where d1: "evbuffer_free_trailing_empty_chains dst = Some (d1, length ds)"
    "take (length ds) (chains d1) = ds" "last_with_datap d1 = length ds - 1" "total_len d1 = total_len dst"
    "freeze_start d1 = freeze_start dst" "freeze_end d1 = freeze_end dst"
  proof (cases "es = []")
    case True
    then show thesis using place s
      by (intro that [of dst]) (simp_all add: evbuffer_free_trailing_empty_chains_def Let_def)
  next
    case False
    then show thesis using place s spare_all_empty [OF s(5)]
      by (intro that [of "(evbuffer_free_all_chains es dst)\<lparr>chains := ds\<rparr>"])
        (simp_all add: evbuffer_free_trailing_empty_chains_def Let_def)
  qed
  let ?d = "added n (advance_last_with_data (d1\<lparr>chains := ds @ cs\<rparr>))"
  have run: "take_chains dst cs n = Some ?d" using d1(1,2) by (simp add: take_chains_def Let_def)
  have "list_all (\<lambda>c. off c \<noteq> 0) (tl (drop (length ds - 1) (ds @ cs)))"
    using s(3) cs by (cases ds rule: rev_cases; cases cs) (auto simp: tl_drop list_all_iff)
  then have "advance_from (drop (length ds - 1) (ds @ cs)) (length ds - 1) = length (ds @ cs) - 1"
    using cs(3) by (subst advance_from_data) (auto simp: Suc_le_eq)
  then have lwd: "last_with_datap ?d = length (ds @ cs) - 1"
    using d1(3) by (simp add: advance_last_with_data_def)
  have ch: "chains ?d = ds @ cs" by (simp add: advance_last_with_data_def)
  have by_: "bytes ?d = bytes dst @ concat (map content cs)"
    using ch s(1,5) bytes_split [OF s(1,5)] by (simp add: bytes_def)
  have "total_len ?d = size_add (total_len dst) n" using d1(4) by (simp add: advance_last_with_data_def)
  then have tot: "total_len ?d = length (bytes ?d)" "total_len ?d \<le> EV_SIZE_MAX"
    using fits by_ n ev_inv_total(1) [OF inv] by (simp_all add: size_add_fits)
  have "ev_inv ?d" by (rule ev_invI [of ?d "ds @ cs" "[]"]) (use ch s cs lwd tot in simp_all)
  moreover have "tight ?d" using ch lwd by (simp add: tight_def)
  moreover have "chains ?d \<noteq> []" "set (chains ?d) \<subseteq> set (chains dst) \<union> set cs" using ch cs(3) s(1) by auto
  ultimately show ?thesis using run by_ d1(5,6) by (simp add: advance_last_with_data_def)
qed

text \<open>Where the loop over \<open>src\<close> stops: inside the chains with data.\<close>

lemma remove_front:
  assumes inv: "ev_inv src" and n: "n < length (bytes src)"
  shows "\<exists>k r lwd. remove_loop 0 n 0 (last_with_datap src) (chains src) = Some (k, r, n - r, lwd) \<and>
    k \<le> last_with_datap src \<and> k < length (chains src) \<and> r < off (chains src ! k) \<and> r \<le> n \<and>
    n = length (concat (map content (take k (chains src)))) + r \<and> lwd - k = last_with_datap src - k \<and>
    list_all (\<lambda>c. off c \<noteq> 0) (take (Suc k) (chains src))"
proof -
  obtain ds es where s: "chains src = ds @ es" "list_all usable ds" "list_all (\<lambda>c. off c \<noteq> 0) ds"
    "list_all usable es" "list_all spare es" "last_with_datap src = length ds - 1"
    using inv by (rule ev_invE)
  have usable: "list_all usable (chains src)" using ev_inv_total(3) [OF inv] .
  have len: "n < length (concat (map content (chains src)))" using n by (simp add: bytes_def)
  have ds: "ds \<noteq> []" using n bytes_split [OF s(1,5)] by auto
  have whole: "length (concat (map content (take (Suc (length ds - 1)) (chains src)))) > n"
    using n ds s(1) bytes_split [OF s(1,5)] by simp
  text \<open>The loop does not need to know more of \<open>last_with_datap\<close> than that.\<close>
  have lwd: "\<exists>j r lwd'. remove_loop 0 n 0 l (chains src) = Some (0 + j, r, 0 + (n - r), lwd') \<and>
      j < length (chains src) \<and> r < off (chains src ! j) \<and> r \<le> n \<and>
      n = length (concat (map content (take j (chains src)))) + r \<and> lwd' - (0 + j) = l - (0 + j)"
    if l: "l = length ds - 1" for l
  proof (cases "l = 0")
    case False
    show ?thesis by (rule remove_loop_ok [OF usable len]) (use False l whole in auto)
  next
    case True
    then obtain d where "ds = [d]" using l ds by (cases ds) auto
    then have "n < off d" using whole s(1,2) by (simp add: usable_content)
    then have "remove_loop 0 n 0 l (chains src) = Some (0, n, 0, l)" using s(1) \<open>ds = [d]\<close> by simp
    then show ?thesis using s(1) \<open>ds = [d]\<close> \<open>n < off d\<close> by simp
  qed
  then obtain j r lwd' where L: "remove_loop 0 n 0 (last_with_datap src) (chains src) = Some (j, r, n - r, lwd')"
    "j < length (chains src)" "r < off (chains src ! j)" "r \<le> n"
    "n = length (concat (map content (take j (chains src)))) + r" "lwd' - j = last_with_datap src - j"
    using s(6) by auto
  have "j < length ds"
  proof (rule ccontr)
    assume "\<not> j < length ds"
    then have "chains src ! j \<in> set es" using L(2) s(1) by (auto simp: nth_append)
    then show False using s(5) L(3) by (auto simp: list_all_iff spare_def)
  qed
  moreover have "list_all (\<lambda>c. off c \<noteq> 0) (take (Suc j) ds)" using s(3) by (auto simp: list_all_iff dest: in_set_takeD)
  ultimately show ?thesis using L s(1,6)
    by (intro exI [of _ j] exI [of _ r] exI [of _ lwd']) simp
qed

text \<open>What is left of the source.\<close>

lemma remove_rest:
  assumes inv: "ev_inv src" and k: "k < length (chains src)" "r < off (chains src ! k)"
      "k \<le> last_with_datap src"
    and n: "n = length (concat (map content (take k (chains src)))) + r" "n < length (bytes src)"
    and b: "chains b = (chains src ! k)\<lparr>misalign := misalign (chains src ! k) + r, off := off (chains src ! k) - r\<rparr>
        # drop (Suc k) (chains src)"
      "last_with_datap b = last_with_datap src - k" "total_len b = total_len src - n"
  shows "ev_inv b \<and> bytes b = drop n (bytes src) \<and> (tight src \<longrightarrow> tight b)"
proof -
  have usable: "list_all usable (chains src)" and tot: "total_len src = length (bytes src)"
    and max: "length (bytes src) \<le> EV_SIZE_MAX"
    using ev_inv_total [OF inv] by auto
  obtain ds es where s: "chains src = ds @ es" "list_all usable ds" "list_all (\<lambda>c. off c \<noteq> 0) ds"
    "list_all usable es" "list_all spare es" "last_with_datap src = length ds - 1"
    using inv by (rule ev_invE)
  have ds: "ds \<noteq> []" using n bytes_split [OF s(1,5)] by auto
  then have kds: "k < length ds" using k(3) s(6) by (cases ds) auto
  let ?c = "chains src ! k"
  have gc: "usable ?c" using usable k(1) by (simp add: list_all_length)
  have by_: "bytes b = drop n (bytes src)"
    using contents_drop [OF usable k(1), of r] k(2) n(1) content_advance [of r ?c] b(1)
    by (simp add: bytes_def)
  have gd: "usable (?c\<lparr>misalign := misalign ?c + r, off := off ?c - r\<rparr>)"
    using chain_ok_advance [of ?c r] gc k(2) by (auto simp: usable_def CHAIN_PINNED_def)
  have "ev_inv b"
  proof (rule ev_invI [of b "?c\<lparr>misalign := misalign ?c + r, off := off ?c - r\<rparr> # drop (Suc k) ds" es])
    show "total_len b = length (bytes b)" unfolding by_ using b(3) tot by simp
    show "list_all usable (?c\<lparr>misalign := misalign ?c + r, off := off ?c - r\<rparr> # drop (Suc k) ds)"
      using gd s(2) by (auto simp: list_all_iff dest: in_set_dropD)
    show "list_all (\<lambda>c. off c \<noteq> 0) (?c\<lparr>misalign := misalign ?c + r, off := off ?c - r\<rparr> # drop (Suc k) ds)"
      using k(2) s(3) by (auto simp: list_all_iff dest: in_set_dropD)
  qed (use b s kds tot max in auto)
  moreover have "tight b" if "tight src" using that b(1,2) k(3) by (simp add: tight_def)
  ultimately show ?thesis using by_ by blast
qed

text \<open>
  \<open>evbuffer_remove_buffer\<close>: what it reports has left \<open>src\<close>; it has arrived in \<open>dst\<close> up to the part of a
  chain that had to be copied, whose copy may fail.
\<close>

lemma remove_buffer_ok:
  assumes src: "ev_inv src" and dst: "ev_inv dst" "tight dst"
    and thaw: "\<not> freeze_start src" "\<not> freeze_end dst"
    and fits: "length (bytes dst) + length (bytes src) \<le> EV_SIZE_MAX"
  shows "\<exists>src' dst' m. evbuffer_remove_buffer al src dst n =
      Some (c_int (int (min n (length (bytes src)))), src', dst') \<and>
    ev_inv src' \<and> bytes src' = drop n (bytes src) \<and>
    ev_inv dst' \<and> bytes dst' = bytes dst @ take m (bytes src) \<and> m \<le> n \<and>
    ((\<forall>k. al k \<noteq> None) \<and> roomy src \<and> roomy dst \<longrightarrow> m = n)"
proof -
  have tot: "total_len src = length (bytes src)" using ev_inv_total(1) [OF src] .
  consider "n = 0" | "n \<noteq> 0" "n \<ge> total_len src" | "n \<noteq> 0" "n < total_len src" by linarith
  then show ?thesis
  proof cases
    case 1
    then show ?thesis using src dst by (simp add: evbuffer_remove_buffer_def c_int_def)
  next
    case 2
    obtain dst' src' where "evbuffer_add_buffer al dst src = Some (0, dst', src')"
      "ev_inv dst'" "bytes dst' = bytes dst @ bytes src" "ev_inv src'" "bytes src' = []"
      using add_buffer_ok [OF dst src thaw(2,1) fits, of al] by blast
    then show ?thesis using 2 thaw tot
      by (intro exI [of _ src'] exI [of _ dst'] exI [of _ n])
        (simp add: evbuffer_remove_buffer_def Let_def min_def)
  next
    case 3
    have n: "n < length (bytes src)" using 3 tot by simp
    obtain k r lwd where L: "remove_loop 0 n 0 (last_with_datap src) (chains src) = Some (k, r, n - r, lwd)"
      "k \<le> last_with_datap src" "k < length (chains src)" "r < off (chains src ! k)" "r \<le> n"
      "n = length (concat (map content (take k (chains src)))) + r" "lwd - k = last_with_datap src - k"
      "list_all (\<lambda>c. off c \<noteq> 0) (take (Suc k) (chains src))"
      using remove_front [OF src n] by blast
    have usable: "list_all usable (chains src)" using ev_inv_total(3) [OF src] .
    let ?c = "chains src ! k" and ?cs = "take k (chains src)"
    have gc: "usable ?c" using usable L(3) by (simp add: list_all_length)
    have moved: "n - r = length (concat (map content ?cs))" using L(6) by simp
    have k0: "k = 0" if "n = r"
      using moved that L(3,8) usable by (cases "chains src"; cases k) (auto dest!: usable_content)
    text \<open>The whole chains.\<close>
    obtain dst1 where dst1: "(if n - r \<noteq> 0 then take_chains dst ?cs (n - r) else Some dst) = Some dst1"
      "ev_inv dst1" "tight dst1" "bytes dst1 = bytes dst @ take (n - r) (bytes src)"
      "freeze_end dst1 = freeze_end dst" "n - r \<noteq> 0 \<longrightarrow> chains dst1 \<noteq> []"
      "roomy src \<and> roomy dst \<longrightarrow> roomy dst1"
    proof (cases "n = r")
      case True
      then show thesis using dst by (intro that [of dst]) simp_all
    next
      case False
      have "list_all usable ?cs" "list_all (\<lambda>c. off c \<noteq> 0) ?cs"
        using usable L(8) by (auto simp: list_all_iff take_Suc_conv_app_nth L(3) dest: in_set_takeD)
      moreover have "?cs \<noteq> []" using False moved L(5) by (cases "k = 0") auto
      moreover have "length (bytes dst) + (n - r) \<le> EV_SIZE_MAX" using fits n by simp
      ultimately obtain dst1 where d: "take_chains dst ?cs (n - r) = Some dst1"
        "ev_inv dst1" "tight dst1" "bytes dst1 = bytes dst @ concat (map content ?cs)" "chains dst1 \<noteq> []"
        "set (chains dst1) \<subseteq> set (chains dst) \<union> set ?cs" "freeze_end dst1 = freeze_end dst"
        using take_chains_ok [OF dst(1), of ?cs "n - r"] moved by blast
      have "bytes src = concat (map content ?cs) @ concat (map content (drop k (chains src)))"
        by (metis append_take_drop_id bytes_def concat_append map_append)
      then have "take (n - r) (bytes src) = concat (map content ?cs)" using moved by simp
      moreover have "roomy src \<and> roomy dst \<longrightarrow> roomy dst1"
        using d(6) by (auto simp: roomy_def list_all_iff dest: in_set_takeD)
      ultimately show thesis using False L(5) d by (intro that [of dst1]) simp_all
    qed
    have src1: "chain_read ?c r = Some (take r (content ?c))"
      using chain_read_take [of ?c r] gc L(4) by (simp add: usable_ok)
    text \<open>The copied part.\<close>
    obtain e dst2 m where dst2: "evbuffer_add al dst1 (take r (content ?c)) = Some (e, dst2)" "ev_inv dst2"
      "bytes dst2 = bytes dst @ take m (bytes src)" "m \<le> n"
      "(\<forall>k. al k \<noteq> None) \<and> roomy src \<and> roomy dst \<longrightarrow> m = n"
    proof (cases "r = 0")
      case True
      then have "chains dst1 \<noteq> []" using dst1(6) 3(1) by simp
      then obtain x where "evbuffer_add al dst1 [] = Some x" "ev_inv (snd x)" "bytes (snd x) = bytes dst1"
        using add_nil_ok [OF dst1(2,3), of al] dst1(5) thaw(2) by auto
      then show thesis using True dst1(4) by (cases x) (intro that [of "fst x" "snd x" n], simp_all)
    next
      case False
      have l: "length (take r (content ?c)) = r" using gc L(4) by (simp add: usable_content)
      then have ne: "take r (content ?c) \<noteq> []" using False by (metis list.size(3))
      have fits1: "length (bytes dst1) + length (take r (content ?c)) \<le> EV_SIZE_MAX"
        using dst1(4) l fits n L(5) by simp
      have split: "chains src = ?cs @ ?c # drop (Suc k) (chains src)" using L(3) by (simp add: id_take_nth_drop)
      have "bytes src = concat (map content ?cs) @ content ?c @ concat (map content (drop (Suc k) (chains src)))"
        by (subst bytes_def, subst split) simp
      then have full: "take (n - r) (bytes src) @ take r (content ?c) = take n (bytes src)"
        using moved L(5) l by (simp add: L(6))
      have "\<not> freeze_end dst1" using dst1(5) thaw(2) by simp
      then obtain x where x: "evbuffer_add al dst1 (take r (content ?c)) = Some x" "appends dst1 (take r (content ?c)) x"
        using add_ok [OF dst1(2,3) ne fits1, of al] by blast
      have sure: "fst x = 0" if "\<forall>k. al k \<noteq> None" "roomy src" "roomy dst"
      proof -
        have "r \<le> EVBUFFER_CHAIN_MAX - EVBUFFER_CHAIN_SIZE"
        proof -
          have "?c \<in> set (chains src)" using L(3) by simp
          then have "buffer_len ?c \<le> EVBUFFER_CHAIN_MAX - EVBUFFER_CHAIN_SIZE"
            using that(2) by (simp add: roomy_def list_all_iff)
          then show ?thesis using L(4) chain_okD(5) [OF usable_ok(1) [OF gc]] by linarith
        qed
        then show ?thesis
          using add_succeeds [OF dst1(2,3) ne _ fits1 _ that(1)] that(2,3) dst1(5,7) thaw(2) l x(1) by auto
      qed
      have "bytes (snd x) = bytes dst @ take (if fst x = 0 then n else n - r) (bytes src)"
        using x(2) dst1(4) full by (auto simp: appends_def)
      then show thesis using x sure
        by (cases x) (intro that [of "fst x" "snd x" "if fst x = 0 then n else n - r"], auto simp: appends_def)
    qed
    let ?d = "?c\<lparr>misalign := misalign ?c + r, off := off ?c - r\<rparr>"
    let ?src = "src\<lparr>last_with_datap := lwd - k, chains := ?d # drop (Suc k) (chains src),
        total_len := total_len src - n, n_del_for_cb := size_add (n_del_for_cb src) n\<rparr>"
    have rest: "ev_inv ?src \<and> bytes ?src = drop n (bytes src) \<and> (tight src \<longrightarrow> tight ?src)"
      by (rule remove_rest [OF src L(3,4,2,6) n]) (simp_all add: L(7))
    have upd: "(drop k (chains src))[0 := ?d] = ?d # drop (Suc k) (chains src)"
      using L(3) by (simp add: Cons_nth_drop_Suc [symmetric])
    have "evbuffer_remove_buffer al src dst n
        = Some (c_int (int n), evbuffer_invoke_callbacks ?src, evbuffer_invoke_callbacks dst2)"
    proof (cases "n = r")
      case True
      then show ?thesis
        using k0 L(1,3,7) thaw 3 dst1(1) src1 dst2(1) upd
        by (simp add: evbuffer_remove_buffer_def Let_def)
    next
      case False
      then have "n - r \<noteq> 0" using L(5) by simp
      moreover have "drop k (chains src) ! 0 = ?c" using L(3) by simp
      ultimately show ?thesis
        using L(1,5) thaw 3 dst1(1) src1 dst2(1) upd
        by (simp add: evbuffer_remove_buffer_def Let_def)
    qed
    then show ?thesis using rest dst2 n
      by (intro exI [of _ "evbuffer_invoke_callbacks ?src"] exI [of _ "evbuffer_invoke_callbacks dst2"] exI [of _ m])
        (simp add: min_def)
  qed
qed

end
