(* ===== verification/EvPullup.thy ===== *)
theory EvPullup imports EvMoveInv begin

text \<open>
  \<open>evbuffer_pullup\<close>: the first bytes become contiguous, and nothing else changes.
\<close>

lemma pinned_before_good: "list_all usable cs \<Longrightarrow> \<not> pinned_before n cs"
  by (induction cs arbitrary: n) (auto simp: usable_ok)

text \<open>The copying loop.\<close>

lemma pullup_loop_ok:
  assumes "list_all usable cs" "n \<le> length (concat (map content cs))" "p + n \<le> length m"
  shows "\<exists>j r buf' m'. pullup_loop k n p m cs buf lw rm rmp =
      Some (k + j, r, p + (n - r), m', drop j cs, buf',
        rm \<or> (\<exists>i. lw = Some i \<and> k \<le> i \<and> i < k + j), rmp \<or> (k < last_with_datap buf \<and> last_with_datap buf \<le> k + j)) \<and>
    j \<le> length cs \<and> n = length (concat (map content (take j cs))) + r \<and>
    m' = take p m @ concat (map content (take j cs)) @ drop (p + (n - r)) m \<and>
    (j < length cs \<longrightarrow> r < off (cs ! j)) \<and> (j = length cs \<longrightarrow> r = 0) \<and>
    last_with_datap buf' = last_with_datap buf \<and> total_len buf' = total_len buf \<and>
    freeze_start buf' = freeze_start buf \<and> freeze_end buf' = freeze_end buf"
  using assms
proof (induction cs arbitrary: k n p m buf rm rmp)
  case Nil
  then show ?case by auto
next
  case (Cons c cs)
  have gc: "usable c" using Cons.prems(1) by simp
  show ?case
  proof (cases "off c \<le> n")
    case False
    then show ?thesis
      by (intro exI [of _ 0] exI [of _ n] exI [of _ buf] exI [of _ m]) auto
  next
    case True
    let ?m = "take p m @ content c @ drop (p + off c) m"
    have mem: "memcpy p (content c) m = Some ?m"
      using Cons.prems(3) True gc by (simp add: memcpy_fits usable_content)
    have "list_all usable cs" "n - off c \<le> length (concat (map content cs))"
      "p + off c + (n - off c) \<le> length ?m"
      using Cons.prems True gc by (simp_all add: usable_content)
    from Cons.IH [OF this, of "Suc k" "evbuffer_chain_free c buf" "rm \<or> lw = Some k"
        "rmp \<or> last_with_datap buf = Suc k"]
    obtain j r buf' m' where IH: "pullup_loop (Suc k) (n - off c) (p + off c) ?m cs (evbuffer_chain_free c buf)
          lw (rm \<or> lw = Some k) (rmp \<or> last_with_datap buf = Suc k) =
        Some (Suc k + j, r, p + off c + (n - off c - r), m', drop j cs, buf',
          (rm \<or> lw = Some k) \<or> (\<exists>i. lw = Some i \<and> Suc k \<le> i \<and> i < Suc k + j),
          (rmp \<or> last_with_datap buf = Suc k) \<or> (Suc k < last_with_datap buf \<and> last_with_datap buf \<le> Suc k + j))"
      "j \<le> length cs" "n - off c = length (concat (map content (take j cs))) + r"
      "m' = take (p + off c) ?m @ concat (map content (take j cs)) @ drop (p + off c + (n - off c - r)) ?m"
      "j < length cs \<longrightarrow> r < off (cs ! j)" "j = length cs \<longrightarrow> r = 0"
      "last_with_datap buf' = last_with_datap buf" "total_len buf' = total_len buf"
      "freeze_start buf' = freeze_start buf" "freeze_end buf' = freeze_end buf"
      unfolding chain_free_frame by blast
    have r: "r \<le> n - off c" using IH(3) by simp
    then have sums: "p + off c + (n - off c - r) = p + (n - r)" using True by simp
    have len: "length (take p m @ content c) = p + off c" using Cons.prems(3) True gc by (simp add: usable_content)
    have "drop (l + x) (xs @ drop l m) = drop (l + x) m" if "length xs = l" for l x and xs :: "cell list"
      using that by (simp add: add.commute)
    from this [OF len, of "n - off c - r"] have front: "take (p + off c) ?m = take p m @ content c"
      "drop (p + off c + (n - off c - r)) ?m = drop (p + (n - r)) m"
      using len unfolding sums by simp_all
    have m': "m' = take p m @ concat (map content (take (Suc j) (c # cs))) @ drop (p + (n - r)) m"
      unfolding IH(4) front by simp
    have flags: "((rm \<or> lw = Some k) \<or> (\<exists>i. lw = Some i \<and> Suc k \<le> i \<and> i < Suc k + j)) =
        (rm \<or> (\<exists>i. lw = Some i \<and> k \<le> i \<and> i < k + Suc j))"
      "((rmp \<or> last_with_datap buf = Suc k) \<or> (Suc k < last_with_datap buf \<and> last_with_datap buf \<le> Suc k + j)) =
        (rmp \<or> (k < last_with_datap buf \<and> last_with_datap buf \<le> k + Suc j))"
      by (cases lw) (auto simp: less_Suc_eq_le le_eq_less_or_eq)
    have "pullup_loop k n p m (c # cs) buf lw rm rmp =
      Some (k + Suc j, r, p + (n - r), m', drop (Suc j) (c # cs), buf',
        rm \<or> (\<exists>i. lw = Some i \<and> k \<le> i \<and> i < k + Suc j),
        rmp \<or> (k < last_with_datap buf \<and> last_with_datap buf \<le> k + Suc j))"
      using True mem IH(1) gc unfolding sums flags by (simp add: chain_read_content usable_ok)
    moreover have "n = length (concat (map content (take (Suc j) (c # cs)))) + r"
      using IH(3) True gc by (simp add: usable_content)
    moreover have "Suc j \<le> length (c # cs)" "Suc j < length (c # cs) \<longrightarrow> r < off ((c # cs) ! Suc j)"
      "Suc j = length (c # cs) \<longrightarrow> r = 0"
      using IH(2,5,6) by simp_all
    ultimately show ?thesis using m' IH(7-10) by blast
  qed
qed

text \<open>
  Filling the first chain: \<open>hs\<close> is the old first chain when that is the one that is filled, and
  empty when a new chain is.
\<close>

lemma pull_into_ok:
  assumes inv: "ev_inv b" and ch: "chains b = hs @ cs" "length hs \<le> 1"
    and sz: "sz \<le> length (bytes b)" "off (hd (chains b)) < sz"
    and n: "sz = length (concat (map content hs)) + n"
    and lw: "lw = Some (last_with_datap b) \<or> last_with_datap b = 0"
    and tmp: "\<not> CHAIN_PINNED tmp" "off tmp = sz" "EVBUFFER_IMMUTABLE \<notin> flags tmp"
      "misalign tmp + sz \<le> buffer_len tmp" "buffer_len tmp \<le> EVBUFFER_CHAIN_MAX"
      "take (sz - n) (drop (misalign tmp) (buffer tmp)) = concat (map content hs)"
    and p: "p = misalign tmp + (sz - n)"
  shows "\<exists>b'. pull_into b tmp p sz n (length hs) cs lw = Some (Some (take sz (bytes b)), b') \<and>
    ev_inv b' \<and> (tight b \<longrightarrow> tight b') \<and> bytes b' = bytes b \<and> sz \<le> evbuffer_get_contiguous_space b' \<and>
    freeze_start b' = freeze_start b \<and> freeze_end b' = freeze_end b"
proof -
  obtain ds es where s: "chains b = ds @ es" "list_all usable ds" "list_all (\<lambda>c. off c \<noteq> 0) ds"
    "list_all usable es" "list_all spare es" "last_with_datap b = length ds - 1"
    using inv by (rule ev_invE)
  have usable: "list_all usable cs" using ev_inv_total(3) [OF inv] ch(1) by simp
  have all: "bytes b = concat (map content hs) @ concat (map content cs)"
    using ch(1) by (simp add: bytes_def)
  have two: "last_with_datap b \<noteq> 0"
  proof
    assume "last_with_datap b = 0"
    then have "length (bytes b) \<le> off (hd (chains b))"
      using s bytes_split [OF s(1,5)] by (cases ds) (auto simp: usable_content)
    then show False using sz by simp
  qed
  have ncs: "n \<le> length (concat (map content cs))" using sz(1) n all by simp
  have room: "p + n \<le> buffer_len tmp" using tmp(4) p n by simp
  obtain j r b1 m1 where L: "pullup_loop (length hs) n p (buffer tmp) cs b lw False False =
      Some (length hs + j, r, p + (n - r), m1, drop j cs, b1,
        \<exists>i. lw = Some i \<and> length hs \<le> i \<and> i < length hs + j,
        length hs < last_with_datap b \<and> last_with_datap b \<le> length hs + j)"
    "j \<le> length cs" "n = length (concat (map content (take j cs))) + r"
    "m1 = take p (buffer tmp) @ concat (map content (take j cs)) @ drop (p + (n - r)) (buffer tmp)"
    "j < length cs \<longrightarrow> r < off (cs ! j)" "j = length cs \<longrightarrow> r = 0"
    "last_with_datap b1 = last_with_datap b" "total_len b1 = total_len b"
    "freeze_start b1 = freeze_start b" "freeze_end b1 = freeze_end b"
    using pullup_loop_ok [OF usable ncs room, of "length hs" b lw False False] by (simp only: simp_thms) blast
  define K where "K = length hs + j"
  define removed where "removed \<longleftrightarrow> (\<exists>i. lw = Some i \<and> length hs \<le> i \<and> i < K)"
  define removedp where "removedp \<longleftrightarrow> length hs < last_with_datap b \<and> last_with_datap b \<le> K"
  note L1 = L(1) [folded K_def, folded removed_def removedp_def]
  let ?moved = "concat (map content (take j cs))"
  have lm: "length ?moved = n - r" using L(3) by simp
  have rn: "r \<le> n" using L(3) by simp
  define tl_data where "tl_data = (if j < length cs then take r (content (cs ! j)) else [])"
  define cs' where "cs' = (if j < length cs then (cs ! j)\<lparr>misalign := misalign (cs ! j) + r, off := off (cs ! j) - r\<rparr>
      # drop (Suc j) cs else [])"
  have gj: "usable (cs ! j)" if "j < length cs" using usable that by (simp add: list_all_length)
  have ltl: "length tl_data = r" using L(2,5,6) gj by (auto simp: tl_data_def usable_content)
  have prefix: "?moved @ tl_data = take n (concat (map content cs))"
  proof (cases "j < length cs")
    case True
    then have split: "cs = take j cs @ cs ! j # drop (Suc j) cs" by (simp add: id_take_nth_drop)
    have "concat (map content cs) = ?moved @ content (cs ! j) @ concat (map content (drop (Suc j) cs))"
      by (subst split) simp
    moreover have "r \<le> length (content (cs ! j))" using True L(5) gj by (simp add: usable_content)
    ultimately show ?thesis using True L(3) by (simp add: tl_data_def)
  next
    case False
    then show ?thesis using L(2,3,6) by (simp add: tl_data_def)
  qed
  have suffix: "concat (map content cs') = drop n (concat (map content cs))"
  proof (cases "j < length cs")
    case True
    then show ?thesis
      using contents_drop [OF usable True, of r] L(3,5) content_advance [of r "cs ! j"]
      by (simp add: cs'_def)
  next
    case False
    then show ?thesis using ncs L(2,3,6) by (simp add: cs'_def)
  qed
  text \<open>The memory in the end.\<close>
  define m2 where "m2 = take p (buffer tmp) @ (?moved @ tl_data) @ drop (p + n) (buffer tmp)"
  have lp: "length (take p (buffer tmp)) = p" using room by simp
  have lm2: "length m2 = buffer_len tmp" using room lm ltl rn by (simp add: m2_def)
  have m2: "memcpy (p + (n - r)) tl_data m1 = Some m2"
  proof -
    have "take (p + (n - r)) m1 = take p (buffer tmp) @ ?moved"
      using lp lm unfolding L(4) by simp
    moreover have "drop (p + (n - r) + r) m1 = drop (p + n) (buffer tmp)"
      using lp lm rn unfolding L(4) by (simp add: drop_append)
    moreover have "length m1 = buffer_len tmp" using lp lm room rn unfolding L(4) by simp
    ultimately show ?thesis using ltl room rn by (simp add: memcpy_def m2_def)
  qed
  have data: "take sz (drop (misalign tmp) m2) = take sz (bytes b)"
  proof -
    have "drop (misalign tmp) m2 = drop (misalign tmp) (take p (buffer tmp)) @ (?moved @ tl_data) @ drop (p + n) (buffer tmp)"
      using lp p by (simp add: m2_def)
    moreover have "drop (misalign tmp) (take p (buffer tmp)) = concat (map content hs)"
      using p tmp(6) by (simp add: drop_take)
    ultimately show ?thesis using prefix all n ncs by simp
  qed
  let ?tmp = "tmp\<lparr>buffer := m2\<rparr>"
  define lwd where "lwd = (if removed then 0 else if removedp
           then (if cs' \<noteq> [] \<and> off (hd cs') \<noteq> 0 then 1 else 0)
      else last_with_datap b - (K - 1))"
  let ?b = "b1\<lparr>chains := ?tmp # cs', last_with_datap := lwd\<rparr>"
  have run: "pull_into b tmp p sz n (length hs) cs lw = Some (Some (take sz (bytes b)), ?b)"
  proof (cases "j < length cs")
    case True
    then have drop: "drop j cs = cs ! j # drop (Suc j) cs" by (simp add: Cons_nth_drop_Suc)
    have "chain_read (cs ! j) r = Some tl_data"
      using chain_read_take [of "cs ! j" r] gj [OF True] L(5) True by (simp add: tl_data_def usable_ok)
    then show ?thesis
      using L1 L(7) drop m2 True tmp(2,4) lm2 data two
      by (simp add: pull_into_def lwd_def cs'_def memread_fits)
  next
    case False
    then have "tl_data = []" "m2 = m1" "drop j cs = []"
      using L(2,6) m2 lm2 room rn unfolding L(4) by (auto simp: tl_data_def memcpy_def split: if_splits)
    then show ?thesis
      using L1 L(7) False tmp(2,4) lm2 data two
      by (simp add: pull_into_def lwd_def cs'_def memread_fits)
  qed
  have gt: "usable ?tmp" using tmp lm2 by (auto simp: usable_def chain_ok_def CHAIN_PINNED_def)
  have ct: "content ?tmp = take sz (bytes b)" using data tmp(2) by (simp add: content_def)
  have by_: "bytes ?b = bytes b"
    using ct suffix all n by (simp add: bytes_def [of ?b])
  text \<open>The chains with data of the result.\<close>
  have K1: "K \<ge> 1"
  proof (rule ccontr)
    assume "\<not> 1 \<le> K"
    then have "length hs + j = 0" unfolding K_def by linarith
    then have "hs = []" "j = 0" by simp_all
    then have "n = sz" "cs = chains b" "n = r" using n ch(1) L(3) by simp_all
    moreover have "chains b \<noteq> []" using two s(1,6) by auto
    ultimately have "r < off (hd (chains b))" using L(5) \<open>j = 0\<close> by (simp add: hd_conv_nth)
    then show False using sz(2) \<open>n = sz\<close> \<open>n = r\<close> by simp
  qed
  obtain ds' where d: "?tmp # cs' = ds' @ (if j < length cs then es else [])" "list_all usable ds'"
    "list_all (\<lambda>c. off c \<noteq> 0) ds'" "lwd = length ds' - 1" "j < length cs \<longrightarrow> K \<le> last_with_datap b"
  proof (cases "j < length cs")
    case False
    have "K = length (chains b)" using False L(2) ch(1) by (simp add: K_def)
    moreover have "last_with_datap b < length (chains b)" using two s(1,6) by simp
    moreover have "length hs \<le> last_with_datap b" using two ch(2) by linarith
    ultimately have "lwd = 0" using lw two by (simp add: lwd_def removed_def)
    then show thesis using False gt tmp(2) sz(2) by (intro that [of "[?tmp]"]) (simp_all add: cs'_def)
  next
    case True
    have at: "chains b ! K = cs ! j" using ch(1) by (simp add: K_def nth_append)
    have Kds: "K < length ds"
    proof (rule ccontr)
      assume "\<not> K < length ds"
      then have "cs ! j \<in> set es" using at True ch(1) s(1)
        by (metis (no_types, lifting) K_def add_diff_inverse_nat length_append less_add_eq_less
            nat_add_left_cancel_less nth_append nth_mem)
      then show False using s(5) L(5) True by (auto simp: list_all_iff spare_def)
    qed
    have rest: "drop (Suc j) cs = drop (Suc K) ds @ es"
    proof -
      have "drop (Suc j) cs = drop (Suc K) (chains b)" using ch(1) by (simp add: K_def)
      then show ?thesis using s(1) Kds by simp
    qed
    let ?c = "(cs ! j)\<lparr>misalign := misalign (cs ! j) + r, off := off (cs ! j) - r\<rparr>"
    have gc: "usable ?c" "off ?c \<noteq> 0"
      using chain_ok_advance [of "cs ! j" r] gj [OF True] L(5) True by (auto simp: usable_def CHAIN_PINNED_def)
    have nolw: "\<not> removed" using lw two Kds s(6) by (auto simp: removed_def)
    have "lwd = length ds - K"
      using nolw Kds s(6) K1 gc(2) True by (auto simp: lwd_def cs'_def removedp_def)
    then show thesis
      using True gt tmp(2) sz(2) gc rest s(2,3) Kds s(6)
      by (intro that [of "?tmp # ?c # drop (Suc K) ds"])
        (auto simp: cs'_def list_all_iff dest: in_set_dropD)
  qed
  have "ev_inv ?b"
  proof (rule ev_invI [of ?b ds' "if j < length cs then es else []"])
    show "chains ?b = ds' @ (if j < length cs then es else [])" using d(1) by simp
    show "total_len ?b = length (bytes ?b)" using by_ L(8) ev_inv_total(1) [OF inv] by simp
    show "total_len ?b \<le> EV_SIZE_MAX" using L(8) ev_inv_total [OF inv] by simp
  qed (use d s in auto)
  moreover have "tight ?b" if "tight b"
  proof (cases "j < length cs")
    case True
    have "length (ds @ es) \<le> length ds" using that two s(1,6) by (cases ds) (simp_all add: tight_def)
    then have "es = []" by simp
    then show ?thesis using d(1,4) by (cases ds') (auto simp: tight_def)
  next
    case False
    then show ?thesis by (simp add: tight_def cs'_def)
  qed
  moreover have "sz \<le> evbuffer_get_contiguous_space ?b" using tmp(2) by (simp add: evbuffer_get_contiguous_space_def)
  ultimately show ?thesis using run by_ L(9,10) by simp
qed

text \<open>
  The whole operation. It gives a pointer to the first \<open>n\<close> bytes, or nothing: when there are not so
  many, when none are asked for, or when there is no memory; then the buffer is as it was.
\<close>

definition pullup_size :: "evbuffer \<Rightarrow> int \<Rightarrow> nat" where
  "pullup_size b sz = (if sz < 0 then length (bytes b) else nat sz)"

lemma pullup_ok:
  assumes inv: "ev_inv b"
  shows "\<exists>r b'. evbuffer_pullup al b sz = Some (r, b') \<and> ev_inv b' \<and> (tight b \<longrightarrow> tight b') \<and>
    bytes b' = bytes b \<and> freeze_start b' = freeze_start b \<and> freeze_end b' = freeze_end b \<and>
    (case r of
       None \<Rightarrow> b' = b \<and> (pullup_size b sz = 0 \<or> length (bytes b) < pullup_size b sz \<or>
                 evbuffer_chain_new al (pullup_size b sz) = None)
     | Some d \<Rightarrow> 0 < pullup_size b sz \<and> pullup_size b sz \<le> length (bytes b) \<and>
                 d = take (pullup_size b sz) (bytes b) \<and>
                 pullup_size b sz \<le> evbuffer_get_contiguous_space b')"
proof -
  define n where "n = pullup_size b sz"
  have tot: "total_len b = length (bytes b)" and usable: "list_all usable (chains b)"
    using ev_inv_total [OF inv] by auto
  have n: "(if sz < 0 then total_len b else nat sz) = n" by (simp add: n_def pullup_size_def tot)
  have not_found: ?thesis if "evbuffer_pullup al b sz = Some (None, b)"
    "n = 0 \<or> length (bytes b) < n \<or> evbuffer_chain_new al n = None"
    using that inv by (simp add: n_def)
  have found: ?thesis if "evbuffer_pullup al b sz = Some (Some (take n (bytes b)), b')"
    "ev_inv b'" "tight b \<longrightarrow> tight b'" "bytes b' = bytes b" "n \<le> evbuffer_get_contiguous_space b'"
    "freeze_start b' = freeze_start b" "freeze_end b' = freeze_end b" "0 < n" "n \<le> length (bytes b)" for b'
    using that by (simp add: n_def)
  show ?thesis
  proof (cases "n = 0 \<or> n > length (bytes b)")
    case True
    then show ?thesis using n tot by (intro not_found) (auto simp: evbuffer_pullup_def Let_def)
  next
    case False
    then have n0: "0 < n" "n \<le> length (bytes b)" by auto
    then obtain c cs where ch: "chains b = c # cs" by (cases "chains b") (auto simp: bytes_def)
    have gc: "usable c" and gcs: "list_all usable cs" using usable ch by simp_all
    note bounds = chain_okD [OF usable_ok(1) [OF gc]]
    have unpinned: "\<not> pinned_before k cs" for k using gcs by (rule pinned_before_good)
    have all: "bytes b = content c @ concat (map content cs)" using ch by (simp add: bytes_def)
    show ?thesis
    proof (cases "n \<le> off c")
      case True
      then have "memread (misalign c) n (buffer c) = Some (take n (bytes b))"
        using chain_read_take [of c n] gc all by (simp add: chain_read_def usable_ok usable_content)
      then show ?thesis
        using True n0 n tot ch inv
        by (intro found [of b]) (auto simp: evbuffer_pullup_def evbuffer_get_contiguous_space_def Let_def)
    next
      case long: False
      have small: "size_sub (buffer_len c) (misalign c) = buffer_len c - misalign c"
        using bounds chain_max_less by (simp add: size_sub_fits)
      show ?thesis
      proof (cases "n \<le> buffer_len c - misalign c")
        case True
        have imm: "EVBUFFER_IMMUTABLE \<notin> flags c" using gc True long by (auto simp: usable_def chain_ok_def)
        have "\<exists>b'. pull_into b (c\<lparr>off := n\<rparr>) (misalign c + off c) n (n - off c) (length [c]) cs (Some (last_with_datap b))
            = Some (Some (take n (bytes b)), b') \<and>
          ev_inv b' \<and> (tight b \<longrightarrow> tight b') \<and> bytes b' = bytes b \<and> n \<le> evbuffer_get_contiguous_space b' \<and>
          freeze_start b' = freeze_start b \<and> freeze_end b' = freeze_end b"
          by (rule pull_into_ok [OF inv])
            (use ch n0 long gc imm True bounds usable_ok(2) [OF gc] in
              \<open>auto simp: usable_content CHAIN_PINNED_def content_def\<close>)
        then show ?thesis
          using found n0 n tot ch long unpinned gc small True
          by (auto simp: evbuffer_pullup_def Let_def usable_ok)
      next
        case full: False
        show ?thesis
        proof (cases "evbuffer_chain_new al n")
          case None
          then show ?thesis
            using n0 n tot ch long unpinned gc small full
            by (intro not_found) (auto simp: evbuffer_pullup_def Let_def usable_ok)
        next
          case (Some t)
          note new = chain_new_ok [OF Some]
          have "\<exists>b'. pull_into b (t\<lparr>off := n\<rparr>) 0 n n (length ([] :: evchain list)) (c # cs)
              (if last_with_datap b = 0 then None else Some (last_with_datap b))
              = Some (Some (take n (bytes b)), b') \<and>
            ev_inv b' \<and> (tight b \<longrightarrow> tight b') \<and> bytes b' = bytes b \<and> n \<le> evbuffer_get_contiguous_space b' \<and>
            freeze_start b' = freeze_start b \<and> freeze_end b' = freeze_end b"
            by (rule pull_into_ok [OF inv])
              (use ch n0 long new chain_okD [OF new(1)] in \<open>auto simp: CHAIN_PINNED_def\<close>)
          then show ?thesis
            using found n0 n tot ch long unpinned gc small full Some
            by (auto simp: evbuffer_pullup_def Let_def usable_ok)
        qed
      qed
    qed
  qed
qed

end
