(* ===== verification/EvSearch.thy ===== *)
theory EvSearch imports EvPullup begin

text \<open>
  Positions in a buffer, searching and reading lines: \<open>evbuffer_ptr_set\<close>, \<open>evbuffer_search_range\<close>,
  \<open>evbuffer_search_eol\<close>, \<open>evbuffer_readln\<close>, \<open>evbuffer_peek\<close> and \<open>evbuffer_find\<close> of \<open>buffer.c\<close>. The
  bytes of a chain are its \<^const>\<open>content\<close>; a chain is named by its position in the buffer.
\<close>

section \<open>Positions\<close>

record ev_ptr =
  pos :: int
  in_chain :: "nat option"
  pos_in_chain :: nat

datatype ptr_how = EVBUFFER_PTR_SET | EVBUFFER_PTR_ADD

text \<open>The walk of \<open>evbuffer_ptr_set\<close> at chain \<open>k\<close>.\<close>

fun ptr_walk :: "nat \<Rightarrow> nat \<Rightarrow> nat \<Rightarrow> evchain list \<Rightarrow> (nat \<times> nat) option" where
  "ptr_walk k left position [] = None"
| "ptr_walk k left position (chain # cs) =
    (if position + left \<ge> off chain then ptr_walk (Suc k) (left - (off chain - position)) 0 cs
     else Some (k, position + left))"

definition evbuffer_ptr_set :: "evbuffer \<Rightarrow> ev_ptr \<Rightarrow> nat \<Rightarrow> ptr_how \<Rightarrow> int \<times> ev_ptr" where
  "evbuffer_ptr_set buf p position how =
    (if how = EVBUFFER_PTR_ADD \<and> (pos p < 0 \<or> EV_SIZE_MAX - position < nat (pos p)) then (-1, p)
     else
       let (start, inside, p) =
             (case how of
                EVBUFFER_PTR_SET \<Rightarrow> (Some 0, 0, p\<lparr>pos := int position\<rparr>)
              | EVBUFFER_PTR_ADD \<Rightarrow> (in_chain p, pos_in_chain p, p\<lparr>pos := pos p + int position\<rparr>))
       in (case Option.bind start (\<lambda>k. ptr_walk k position inside (drop k (chains buf))) of
             Some (k, i) \<Rightarrow> (0, p\<lparr>in_chain := Some k, pos_in_chain := i\<rparr>)
           | None \<Rightarrow> (-1, p\<lparr>in_chain := None, pos := -1\<rparr>)))"

section \<open>Comparing and searching\<close>

fun ev_memchr :: "cell \<Rightarrow> cell list \<Rightarrow> nat option" where
  "ev_memchr c [] = None"
| "ev_memchr c (x # xs) = (if x = c then Some 0 else map_option Suc (ev_memchr c xs))"

fun memcmp :: "cell list \<Rightarrow> cell list \<Rightarrow> int" where
  "memcmp (x # xs) (y # ys) =
    (if x = y then memcmp xs ys
     else if unat (case x of None \<Rightarrow> 0 | Some w \<Rightarrow> w) < unat (case y of None \<Rightarrow> 0 | Some w \<Rightarrow> w) then -1 else 1)"
| "memcmp _ _ = 0"

fun memcmp_loop :: "nat \<Rightarrow> cell list \<Rightarrow> evchain list \<Rightarrow> int" where
  "memcmp_loop position mem [] = 0"
| "memcmp_loop position mem (chain # cs) =
    (if mem = [] then 0
     else
       let n = (if length mem + position > off chain then off chain - position else length mem);
           r = memcmp (take n (drop position (content chain))) (take n mem)
       in if r \<noteq> 0 then r else memcmp_loop 0 (drop n mem) cs)"

definition evbuffer_ptr_memcmp :: "evbuffer \<Rightarrow> ev_ptr \<Rightarrow> cell list \<Rightarrow> int" where
  "evbuffer_ptr_memcmp buf p mem =
    (if pos p < 0 \<or> EV_SIZE_MAX - length mem < nat (pos p) \<or> nat (pos p) + length mem > total_len buf then -1
     else case in_chain p of
            None \<Rightarrow> 0
          | Some k \<Rightarrow> memcmp_loop (pos_in_chain p) mem (drop k (chains buf)))"

lemma ev_memchr_bound: "ev_memchr c xs = Some j \<Longrightarrow> j < length xs"
  by (induction xs arbitrary: j) (auto split: if_splits)

text \<open>
  The loop of \<open>evbuffer_search_range\<close> at chain \<open>k\<close> and the chains from there on: \<open>i\<close> is the place in
  that chain and \<open>p\<close> in the buffer, \<open>end\<close> the last chain and the end position.
\<close>

function search_loop ::
    "evbuffer \<Rightarrow> cell list \<Rightarrow> (nat option \<times> int) option \<Rightarrow> nat \<Rightarrow> nat \<Rightarrow> int \<Rightarrow> evchain list \<Rightarrow> ev_ptr option" where
  "search_loop buf what stop k i p [] = None"
| "search_loop buf what stop k i p (chain # cs) =
    (case ev_memchr (hd what) (drop i (content chain)) of
       Some j \<Rightarrow>
         let found = \<lparr>pos = p + int j, in_chain = Some k, pos_in_chain = i + j\<rparr>
         in if evbuffer_ptr_memcmp buf found what = 0 then
              (if \<exists>e. stop = Some e \<and> p + int j + int (length what) > snd e then None else Some found)
            else if i + j + 1 = off chain then search_loop buf what stop (Suc k) 0 (p + int j + 1) cs
            else search_loop buf what stop k (i + j + 1) (p + int j + 1) (chain # cs)
     | None \<Rightarrow>
         if \<exists>e. stop = Some e \<and> fst e = Some k then None
         else search_loop buf what stop (Suc k) 0 (p + int (off chain - i)) cs)"
  by pat_completeness auto
termination
  by (relation "measures [\<lambda>(buf, what, stop, k, i, p, cs). length cs,
        \<lambda>(buf, what, stop, k, i, p, cs). length (content (hd cs)) - i]")
    (auto dest: ev_memchr_bound)

definition evbuffer_search_range ::
    "evbuffer \<Rightarrow> cell list \<Rightarrow> ev_ptr option \<Rightarrow> ev_ptr option \<Rightarrow> ev_ptr" where
  "evbuffer_search_range buf what start stop =
    (let p = (case start of
                Some s \<Rightarrow> s
              | None \<Rightarrow> \<lparr>pos = 0, in_chain = (if chains buf = [] then None else Some 0), pos_in_chain = 0\<rparr>)
     in if what = [] \<or> length what > EV_SSIZE_MAX then p
        else
          (case Option.bind (in_chain p) (\<lambda>k. search_loop buf what
                  (map_option (\<lambda>e. (in_chain e, pos e)) stop) k (pos_in_chain p) (pos p) (drop k (chains buf))) of
             Some q \<Rightarrow> q
           | None \<Rightarrow> p\<lparr>pos := -1, in_chain := None\<rparr>))"

definition evbuffer_search :: "evbuffer \<Rightarrow> cell list \<Rightarrow> ev_ptr option \<Rightarrow> ev_ptr" where
  "evbuffer_search buf what start = evbuffer_search_range buf what start None"

section \<open>Ends of lines\<close>

definition EV_LF :: cell where "EV_LF = Some 10"

definition EV_CR :: cell where "EV_CR = Some 13"

text \<open>The walk over the chains that \<open>evbuffer_strchr\<close> and \<open>evbuffer_find_eol_char\<close> share.\<close>

fun chain_scan :: "(cell list \<Rightarrow> nat option) \<Rightarrow> nat \<Rightarrow> nat \<Rightarrow> int \<Rightarrow> evchain list \<Rightarrow> ev_ptr option" where
  "chain_scan f k i p [] = None"
| "chain_scan f k i p (chain # cs) =
    (case f (drop i (content chain)) of
       Some j \<Rightarrow> Some \<lparr>pos = p + int j, in_chain = Some k, pos_in_chain = i + j\<rparr>
     | None \<Rightarrow> chain_scan f (Suc k) 0 (p + int (off chain - i)) cs)"

definition scan_from :: "(cell list \<Rightarrow> nat option) \<Rightarrow> evbuffer \<Rightarrow> ev_ptr \<Rightarrow> ev_ptr option" where
  "scan_from f buf it =
    Option.bind (in_chain it) (\<lambda>k. chain_scan f k (pos_in_chain it) (pos it) (drop k (chains buf)))"

definition evbuffer_strchr :: "evbuffer \<Rightarrow> ev_ptr \<Rightarrow> cell \<Rightarrow> ev_ptr option" where
  "evbuffer_strchr buf it chr = scan_from (ev_memchr chr) buf it"

definition CHUNK_SZ :: nat where "CHUNK_SZ = 128"

function find_eol_char :: "cell list \<Rightarrow> nat option" where
  "find_eol_char s =
    (if s = [] then None
     else
       let chunk = (if CHUNK_SZ < length s then CHUNK_SZ else length s);
           cr = ev_memchr EV_CR (take chunk s);
           lf = ev_memchr EV_LF (take chunk s)
       in case cr of
            Some a \<Rightarrow> (case lf of Some b \<Rightarrow> if b < a then Some b else Some a | None \<Rightarrow> Some a)
          | None \<Rightarrow> (case lf of Some b \<Rightarrow> Some b
                     | None \<Rightarrow> map_option (\<lambda>j. j + CHUNK_SZ) (find_eol_char (drop CHUNK_SZ s))))"
  by pat_completeness auto
termination
  by (relation "measure length") (auto simp: CHUNK_SZ_def)

declare find_eol_char.simps [simp del]

definition evbuffer_find_eol_char :: "evbuffer \<Rightarrow> ev_ptr \<Rightarrow> ev_ptr option" where
  "evbuffer_find_eol_char buf it = scan_from find_eol_char buf it"

text \<open>How many characters from the place \<open>i\<close> of the first chain on are in the set.\<close>

fun span_loop :: "cell set \<Rightarrow> nat \<Rightarrow> evchain list \<Rightarrow> nat" where
  "span_loop chrset i [] = 0"
| "span_loop chrset i (chain # cs) =
    (let d = drop i (content chain); n = length (takeWhile (\<lambda>x. x \<in> chrset) d)
     in if n < length d then n else if cs = [] then n else n + span_loop chrset 0 cs)"

definition evbuffer_strspn :: "evbuffer \<Rightarrow> ev_ptr \<Rightarrow> cell set \<Rightarrow> int" where
  "evbuffer_strspn buf p chrset =
    (case in_chain p of
       None \<Rightarrow> -1
     | Some k \<Rightarrow> int (span_loop chrset (pos_in_chain p) (drop k (chains buf))))"

definition evbuffer_getchr :: "evbuffer \<Rightarrow> ev_ptr \<Rightarrow> cell option" where
  "evbuffer_getchr buf it = do {
    k \<leftarrow> in_chain it;
    check (k < length (chains buf));
    check (misalign (chains buf ! k) + pos_in_chain it < buffer_len (chains buf ! k));
    Some (buffer (chains buf ! k) ! (misalign (chains buf ! k) + pos_in_chain it))
  }"

datatype eol_style = EVBUFFER_EOL_ANY | EVBUFFER_EOL_CRLF | EVBUFFER_EOL_CRLF_STRICT | EVBUFFER_EOL_LF

text \<open>The loop for \<open>EVBUFFER_EOL_CRLF\<close>; the inner result is where the line ends, if it does.\<close>

partial_function (option) crlf_loop :: "evbuffer \<Rightarrow> ev_ptr \<Rightarrow> (ev_ptr \<times> nat) option option" where
  "crlf_loop buf it =
    (case evbuffer_find_eol_char buf it of
       None \<Rightarrow> Some None
     | Some it \<Rightarrow> do {
         c \<leftarrow> evbuffer_getchr buf it;
         if c = EV_LF then Some (Some (it, 1))
         else if evbuffer_ptr_memcmp buf it [EV_CR, EV_LF] = 0 then Some (Some (it, 2))
         else let (r, it) = evbuffer_ptr_set buf it 1 EVBUFFER_PTR_ADD
              in if r < 0 then Some None else crlf_loop buf it
       })"

definition evbuffer_search_eol ::
    "evbuffer \<Rightarrow> ev_ptr option \<Rightarrow> eol_style \<Rightarrow> (ev_ptr \<times> nat) option" where
  "evbuffer_search_eol buf start eol_style =
    (let it = (case start of
                 Some s \<Rightarrow> s
               | None \<Rightarrow> \<lparr>pos = 0, in_chain = (if chains buf = [] then None else Some 0), pos_in_chain = 0\<rparr>);
         fail = (it\<lparr>pos := -1\<rparr>, 0)
     in case eol_style of
          EVBUFFER_EOL_ANY \<Rightarrow>
            (case evbuffer_find_eol_char buf it of
               None \<Rightarrow> Some fail
             | Some it \<Rightarrow> Some (it, nat (evbuffer_strspn buf it {EV_CR, EV_LF})))
        | EVBUFFER_EOL_CRLF_STRICT \<Rightarrow>
            (let it = evbuffer_search buf [EV_CR, EV_LF] (Some it)
             in if pos it < 0 then Some (it\<lparr>pos := -1\<rparr>, 0) else Some (it, 2))
        | EVBUFFER_EOL_CRLF \<Rightarrow>
            (case crlf_loop buf it of
               None \<Rightarrow> None
             | Some None \<Rightarrow> Some fail
             | Some (Some r) \<Rightarrow> Some r)
        | EVBUFFER_EOL_LF \<Rightarrow>
            (case evbuffer_strchr buf it EV_LF of
               None \<Rightarrow> Some fail
             | Some it \<Rightarrow> Some (it, 1)))"

text \<open>\<open>evbuffer_readln\<close>: the line, what goes to \<open>n_read_out\<close>, and the buffer.\<close>

definition evbuffer_readln ::
    "(nat \<Rightarrow> nat option) \<Rightarrow> evbuffer \<Rightarrow> eol_style \<Rightarrow> (cell list option \<times> nat \<times> evbuffer) option" where
  "evbuffer_readln al buf eol_style =
    (if freeze_start buf then Some (None, 0, buf)
     else do {
       (it, extra_drain) \<leftarrow> evbuffer_search_eol buf None eol_style;
       if pos it < 0 then Some (None, 0, buf)
       else
         let n_to_copy = nat (pos it) in
         if al (n_to_copy + 1) = None then Some (None, 0, buf)
         else do {
           (_, line, buf) \<leftarrow> evbuffer_remove buf n_to_copy;
           (_, buf) \<leftarrow> evbuffer_drain buf extra_drain;
           Some (Some line, n_to_copy, buf)
         }
     })"

definition evbuffer_readline ::
    "(nat \<Rightarrow> nat option) \<Rightarrow> evbuffer \<Rightarrow> (cell list option \<times> nat \<times> evbuffer) option" where
  "evbuffer_readline al buf = evbuffer_readln al buf EVBUFFER_EOL_ANY"

text \<open>\<open>evbuffer_find\<close>: the \<open>len\<close> bytes at the pointer it returns.\<close>

definition evbuffer_find ::
    "(nat \<Rightarrow> nat option) \<Rightarrow> evbuffer \<Rightarrow> cell list \<Rightarrow> (cell list option \<times> evbuffer) option" where
  "evbuffer_find al buf what =
    (let p = evbuffer_search buf what None in
     if pos p < 0 then Some (None, buf)
     else do {
       (r, buf) \<leftarrow> evbuffer_pullup al buf (pos p + int (length what));
       Some (map_option (drop (nat (pos p))) r, buf)
     })"

section \<open>Peeking\<close>

text \<open>The loop of \<open>evbuffer_peek\<close>: the chains whose data the next vectors hold; \<open>room\<close> vectors are
  left, and a negative \<open>len\<close> asks for everything.\<close>

fun peek_loop :: "nat \<Rightarrow> int \<Rightarrow> int \<Rightarrow> evchain list \<Rightarrow> cell list list \<times> nat" where
  "peek_loop room len so_far [] = ([], 0)"
| "peek_loop room len so_far (chain # cs) =
    (if len \<ge> 0 \<and> so_far \<ge> len then ([], 0)
     else if room = 0 \<and> len < 0 then ([], 0)
     else
       let (vs, n) = peek_loop (room - 1) len (so_far + int (off chain)) cs
       in (if room > 0 then content chain # vs else vs, Suc n))"

definition evbuffer_peek ::
    "evbuffer \<Rightarrow> int \<Rightarrow> ev_ptr option \<Rightarrow> nat \<Rightarrow> (cell list list \<times> nat) option" where
  "evbuffer_peek buf len start_at n_vec =
    (case start_at of
       Some s \<Rightarrow> do {
         k \<leftarrow> in_chain s;
         check (k < length (chains buf));
         let first = drop (pos_in_chain s) (content (chains buf ! k));
         let len = (if n_vec = 0 \<and> len < 0 then int (total_len buf) - pos s else len);
         let (vs, n) = peek_loop (n_vec - 1) len (int (length first)) (drop (Suc k) (chains buf));
         Some (if n_vec > 0 then first # vs else vs, Suc n)
       }
     | None \<Rightarrow>
         (let len = (if n_vec = 0 \<and> len < 0 then int (total_len buf) else len)
          in Some (peek_loop n_vec len 0 (chains buf))))"

end
