(* ===== verification/EvSearchInv.thy ===== *)
theory EvSearchInv imports EvSearch begin

text \<open>
  Positions and searching against the bytes of the buffer: what the walks over the chains compute
  is what a search over one list computes.
\<close>

section \<open>Lists\<close>

fun first_index :: "('a \<Rightarrow> bool) \<Rightarrow> 'a list \<Rightarrow> nat option" where
  "first_index P [] = None"
| "first_index P (x # xs) = (if P x then Some 0 else map_option Suc (first_index P xs))"

lemma first_index_append:
  "first_index P (xs @ ys) =
    (case first_index P xs of Some i \<Rightarrow> Some i
     | None \<Rightarrow> (case first_index P ys of Some i \<Rightarrow> Some (length xs + i) | None \<Rightarrow> None))"
  by (induction xs) (auto split: option.splits)

lemma first_index_None: "first_index P xs = None \<longleftrightarrow> (\<forall>x \<in> set xs. \<not> P x)"
  by (induction xs) auto

lemma first_index_Some:
  "first_index P xs = Some i \<longleftrightarrow> i < length xs \<and> P (xs ! i) \<and> (\<forall>j < i. \<not> P (xs ! j))"
proof (induction xs arbitrary: i)
  case (Cons x xs)
  then show ?case
    by (cases i) (auto simp: less_Suc_eq_0_disj)
qed simp

lemma memchr_first: "ev_memchr c = first_index (\<lambda>x. x = c)"
proof
  show "ev_memchr c xs = first_index (\<lambda>x. x = c) xs" for xs by (induction xs) auto
qed

lemma eol_first: "find_eol_char s = first_index (\<lambda>x. x \<in> {EV_CR, EV_LF}) s"
proof (induction s rule: find_eol_char.induct)
  case (1 s)
  show ?case
  proof (cases "s = []")
    case True
    then show ?thesis by (simp add: find_eol_char.simps)
  next
    case False
    define c where "c = (if CHUNK_SZ < length s then CHUNK_SZ else length s)"
    let ?P = "\<lambda>x. x \<in> {EV_CR, EV_LF}"
    have split: "s = take c s @ drop c s" by simp
    have both: "first_index ?P xs =
        (case first_index (\<lambda>x. x = EV_CR) xs of
           Some a \<Rightarrow> (case first_index (\<lambda>x. x = EV_LF) xs of Some b \<Rightarrow> if b < a then Some b else Some a | None \<Rightarrow> Some a)
         | None \<Rightarrow> first_index (\<lambda>x. x = EV_LF) xs)" for xs
      by (induction xs) (auto simp: EV_CR_def EV_LF_def split: option.splits)
    have rest: "first_index ?P (take c s) = None \<Longrightarrow>
        first_index ?P s = map_option (\<lambda>j. j + CHUNK_SZ) (find_eol_char (drop CHUNK_SZ s))"
    proof -
      assume none: "first_index ?P (take c s) = None"
      show ?thesis
      proof (cases "CHUNK_SZ < length s")
        case True
        then have "c = CHUNK_SZ" "length (take c s) = CHUNK_SZ" by (simp_all add: c_def)
        moreover have "find_eol_char (drop CHUNK_SZ s) = first_index ?P (drop CHUNK_SZ s)"
          using none both [of "take c s"] False
          by (intro "1.IH" [OF False c_def refl refl]) (auto simp: memchr_first split: option.splits if_splits)
        ultimately show ?thesis using none first_index_append [of ?P "take c s" "drop c s"]
          by (cases "first_index ?P (drop CHUNK_SZ s)") simp_all
      next
        case False
        then have "take c s = s" "drop CHUNK_SZ s = []" by (simp_all add: c_def)
        then show ?thesis using none by (simp add: find_eol_char.simps)
      qed
    qed
    have front: "first_index ?P (take c s) = Some i \<Longrightarrow> first_index ?P s = Some i" for i
      using first_index_append [of ?P "take c s" "drop c s"] by simp
    show ?thesis
      using both [of "take c s"] rest front False
      by (subst find_eol_char.simps) (auto simp: Let_def c_def [symmetric] memchr_first split: option.splits if_splits)
  qed
qed

section \<open>Where a position is\<close>

abbreviation contents :: "evchain list \<Rightarrow> cell list" where
  "contents cs \<equiv> concat (map content cs)"

definition loc :: "evchain list \<Rightarrow> nat \<Rightarrow> ev_ptr \<Rightarrow> nat \<Rightarrow> bool" where
  "loc cs k it m \<longleftrightarrow> (\<exists>j < length cs. in_chain it = Some (k + j) \<and> pos_in_chain it < off (cs ! j) \<and>
     m = length (contents (take j cs)) + pos_in_chain it)"

definition ptr_at :: "evbuffer \<Rightarrow> ev_ptr \<Rightarrow> nat \<Rightarrow> bool" where
  "ptr_at b it p \<longleftrightarrow> pos it = int p \<and>
    (case in_chain it of
       Some k \<Rightarrow> k < length (chains b) \<and> pos_in_chain it \<le> off (chains b ! k) \<and>
         p = length (contents (take k (chains b))) + pos_in_chain it
     | None \<Rightarrow> p = length (bytes b))"

definition start_ptr :: "evbuffer \<Rightarrow> ev_ptr" where
  "start_ptr b = \<lparr>pos = 0, in_chain = (if chains b = [] then None else Some 0), pos_in_chain = 0\<rparr>"

definition at_byte :: "evbuffer \<Rightarrow> ev_ptr \<Rightarrow> bool" where
  "at_byte b it \<longleftrightarrow> (\<exists>k. in_chain it = Some k \<and> pos_in_chain it < off (chains b ! k))"

lemma start_at: "ptr_at b (start_ptr b) 0"
  by (auto simp: ptr_at_def start_ptr_def bytes_def)

lemma loc_here: "i < off c \<Longrightarrow> loc (c # cs) k \<lparr>pos = p, in_chain = Some k, pos_in_chain = i\<rparr> i"
  by (auto simp: loc_def intro: exI [of _ 0])

lemma loc_there: "usable c \<Longrightarrow> loc cs (Suc k) it m \<Longrightarrow> loc (c # cs) k it (off c + m)"
  unfolding loc_def
proof (elim exE conjE)
  fix j
  assume "usable c" "j < length cs" "in_chain it = Some (Suc k + j)" "pos_in_chain it < off (cs ! j)"
    "m = length (contents (take j cs)) + pos_in_chain it"
  then show "\<exists>j < length (c # cs). in_chain it = Some (k + j) \<and> pos_in_chain it < off ((c # cs) ! j) \<and>
      off c + m = length (contents (take j (c # cs))) + pos_in_chain it"
    by (intro exI [of _ "Suc j"]) (simp add: usable_content)
qed

lemma contents_from:
  "bytes b = contents (take k (chains b)) @ contents (drop k (chains b))"
  by (metis append_take_drop_id bytes_def concat_append map_append)

lemma ptr_at_le:
  assumes "list_all usable (chains b)" "ptr_at b it p"
  shows "p \<le> length (bytes b)"
proof (cases "in_chain it")
  case (Some k)
  then have "drop k (chains b) = chains b ! k # drop (Suc k) (chains b)"
    using assms(2) by (simp add: ptr_at_def Cons_nth_drop_Suc)
  moreover have "usable (chains b ! k)" using assms Some by (simp add: ptr_at_def list_all_length)
  ultimately show ?thesis using assms(2) Some contents_from [of b k] by (simp add: ptr_at_def usable_content)
qed (use assms(2) in \<open>simp add: ptr_at_def\<close>)

lemma ptr_at_drop:
  assumes "ptr_at b it p" "in_chain it = Some k"
  shows "drop p (bytes b) = drop (pos_in_chain it) (contents (drop k (chains b)))"
  using assms contents_from [of b k] by (simp add: ptr_at_def)

lemma loc_ptr_at:
  assumes "loc (drop k (chains b)) k it m" "pos it = int (length (contents (take k (chains b))) + m)"
    "k \<le> length (chains b)"
  shows "ptr_at b it (length (contents (take k (chains b))) + m)"
proof -
  obtain j where j: "j < length (drop k (chains b))" "in_chain it = Some (k + j)"
    "pos_in_chain it < off (drop k (chains b) ! j)"
    "m = length (contents (take j (drop k (chains b)))) + pos_in_chain it"
    using assms(1) by (auto simp: loc_def)
  have "take (k + j) (chains b) = take k (chains b) @ take j (drop k (chains b))" by (rule take_add)
  then show ?thesis using j assms(2) by (simp add: ptr_at_def)
qed

section \<open>Scanning\<close>

lemma chain_scan_ok:
  assumes "list_all usable cs" "cs \<noteq> [] \<longrightarrow> i \<le> off (hd cs)"
  shows "case first_index P (drop i (contents cs)) of
      None \<Rightarrow> chain_scan (first_index P) k i p cs = None
    | Some q \<Rightarrow> \<exists>it. chain_scan (first_index P) k i p cs = Some it \<and> pos it = p + int q \<and> loc cs k it (i + q)"
  using assms
proof (induction cs arbitrary: k i p)
  case Nil
  then show ?case by simp
next
  case (Cons c cs)
  have gc: "usable c" and i: "i \<le> off c" using Cons.prems by simp_all
  have split: "drop i (contents (c # cs)) = drop i (content c) @ contents cs"
    using gc i by (simp add: usable_content)
  show ?case
  proof (cases "first_index P (drop i (content c))")
    case (Some q)
    then have "i + q < off c" using gc by (auto simp: first_index_Some usable_content)
    then show ?thesis using Some split by (simp add: first_index_append loc_here)
  next
    case None
    have IH: "case first_index P (contents cs) of
        None \<Rightarrow> chain_scan (first_index P) (Suc k) 0 (p + int (off c - i)) cs = None
      | Some q \<Rightarrow> \<exists>it. chain_scan (first_index P) (Suc k) 0 (p + int (off c - i)) cs = Some it \<and>
          pos it = p + int (off c - i) + int q \<and> loc cs (Suc k) it q"
      using Cons.IH [of 0 "Suc k" "p + int (off c - i)"] Cons.prems(1)
      by (cases "first_index P (contents cs)") simp_all
    show ?thesis
    proof (cases "first_index P (contents cs)")
      case none: None
      then show ?thesis using IH None split by (simp add: first_index_append)
    next
      case (Some q)
      then obtain it where "chain_scan (first_index P) (Suc k) 0 (p + int (off c - i)) cs = Some it"
        "pos it = p + int (off c - i) + int q" "loc cs (Suc k) it q"
        using IH by auto
      then show ?thesis using None Some split gc i loc_there [OF gc, of cs k it q]
        by (simp add: first_index_append usable_content)
    qed
  qed
qed

lemma scan_from_ok:
  assumes inv: "list_all usable (chains b)" and at: "ptr_at b it p"
  shows "case first_index P (drop p (bytes b)) of
      None \<Rightarrow> scan_from (first_index P) b it = None
    | Some q \<Rightarrow> \<exists>it'. scan_from (first_index P) b it = Some it' \<and> ptr_at b it' (p + q) \<and> at_byte b it'"
proof (cases "in_chain it")
  case None
  then show ?thesis using at by (simp add: ptr_at_def scan_from_def)
next
  case (Some k)
  let ?cs = "drop k (chains b)"
  have k: "k < length (chains b)" "pos_in_chain it \<le> off (chains b ! k)"
    "p = length (contents (take k (chains b))) + pos_in_chain it" "pos it = int p"
    using at Some by (auto simp: ptr_at_def)
  have usable: "list_all usable ?cs" using inv by (auto simp: list_all_iff dest: in_set_dropD)
  have hd: "?cs \<noteq> [] \<longrightarrow> pos_in_chain it \<le> off (hd ?cs)" using k by (simp add: hd_drop_conv_nth)
  show ?thesis
    using chain_scan_ok [OF usable hd, of P k "pos it"] ptr_at_drop [OF at Some] Some k(1,3,4)
    by (auto simp: scan_from_def loc_def at_byte_def add.assoc split: option.splits intro!: loc_ptr_at [of k b, simplified add.assoc])
qed

section \<open>Moving a position\<close>

lemma ptr_walk_ok:
  assumes "list_all usable cs" "cs \<noteq> [] \<longrightarrow> i \<le> off (hd cs)"
  shows "case ptr_walk k n i cs of
      None \<Rightarrow> length (contents cs) \<le> i + n \<or> cs = []
    | Some (k', i') \<Rightarrow> i + n < length (contents cs) \<and> loc cs k \<lparr>pos = p, in_chain = Some k', pos_in_chain = i'\<rparr> (i + n)"
  using assms
proof (induction cs arbitrary: k i n)
  case Nil
  then show ?case by simp
next
  case (Cons c cs)
  have gc: "usable c" and i: "i \<le> off c" using Cons.prems by simp_all
  show ?case
  proof (cases "i + n \<ge> off c")
    case True
    have IH: "case ptr_walk (Suc k) (n - (off c - i)) 0 cs of
        None \<Rightarrow> length (contents cs) \<le> n - (off c - i) \<or> cs = []
      | Some (k', i') \<Rightarrow> n - (off c - i) < length (contents cs) \<and>
          loc cs (Suc k) \<lparr>pos = p, in_chain = Some k', pos_in_chain = i'\<rparr> (n - (off c - i))"
      using Cons.IH [of 0 "n - (off c - i)" "Suc k"] Cons.prems(1)
      by (cases "ptr_walk (Suc k) (n - (off c - i)) 0 cs") auto
    have shift: "off c + (n - (off c - i)) = i + n" using True i by simp
    show ?thesis
    proof (cases "ptr_walk (Suc k) (n - (off c - i)) 0 cs")
      case None
      then show ?thesis using IH True gc i by (auto simp: usable_content)
    next
      case (Some r)
      obtain k' i' where "r = (k', i')" by (cases r)
      then show ?thesis using IH Some True gc i loc_there [OF gc, of cs k _ "n - (off c - i)"] shift
        by (auto simp: usable_content add.commute)
    qed
  next
    case False
    then show ?thesis using gc by (auto simp: usable_content intro!: loc_here)
  qed
qed

lemma ptr_add_ok:
  assumes inv: "ev_inv b" and at: "ptr_at b it p"
  shows "if p + n < length (bytes b)
    then \<exists>it'. evbuffer_ptr_set b it n EVBUFFER_PTR_ADD = (0, it') \<and> ptr_at b it' (p + n) \<and> in_chain it' \<noteq> None
    else \<exists>it'. evbuffer_ptr_set b it n EVBUFFER_PTR_ADD = (-1, it')"
proof (cases "in_chain it")
  case None
  then show ?thesis using at by (simp add: ptr_at_def evbuffer_ptr_set_def Let_def)
next
  case (Some k)
  let ?cs = "drop k (chains b)" and ?i = "pos_in_chain it"
  have good_b: "list_all usable (chains b)" using ev_inv_total [OF inv] by simp
  have k: "k < length (chains b)" "?i \<le> off (chains b ! k)"
    "p = length (contents (take k (chains b))) + ?i" "pos it = int p"
    using at Some by (auto simp: ptr_at_def)
  have usable: "list_all usable ?cs" using good_b by (auto simp: list_all_iff dest: in_set_dropD)
  have hd: "?cs \<noteq> [] \<longrightarrow> ?i \<le> off (hd ?cs)" "?cs \<noteq> []" using k by (simp_all add: hd_drop_conv_nth)
  have len: "length (bytes b) = length (contents (take k (chains b))) + length (contents ?cs)"
    using contents_from [of b k] by simp
  have walk: "case ptr_walk k n ?i ?cs of
      None \<Rightarrow> length (contents ?cs) \<le> ?i + n \<or> ?cs = []
    | Some (k', i') \<Rightarrow> ?i + n < length (contents ?cs) \<and>
        loc ?cs k \<lparr>pos = int (p + n), in_chain = Some k', pos_in_chain = i'\<rparr> (?i + n)"
    by (rule ptr_walk_ok [OF usable hd(1)])
  have max: "length (bytes b) \<le> EV_SIZE_MAX" using ev_inv_total [OF inv] by simp
  have fit: "p + n < length (bytes b) \<Longrightarrow> \<not> EV_SIZE_MAX - n < p" using max by linarith
  show ?thesis
  proof (cases "ptr_walk k n ?i ?cs")
    case None
    then have "\<not> p + n < length (bytes b)" using walk hd(2) k(3) len by auto
    then show ?thesis using None Some k by (auto simp: evbuffer_ptr_set_def Let_def)
  next
    case (Some r)
    obtain k' i' where r: "r = (k', i')" by (cases r)
    have "p + n < length (bytes b)" using walk Some r k(3) len by auto
    moreover have "ptr_at b \<lparr>pos = int (p + n), in_chain = Some k', pos_in_chain = i'\<rparr> (p + n)"
      using loc_ptr_at [of k b "\<lparr>pos = int (p + n), in_chain = Some k', pos_in_chain = i'\<rparr>" "?i + n"]
        walk Some r k by (simp add: add.assoc)
    ultimately show ?thesis using fit Some r k \<open>in_chain it = Some k\<close>
      by (auto simp: evbuffer_ptr_set_def Let_def ptr_at_def)
  qed
qed

section \<open>Comparing\<close>

lemma memcmp_zero: "length xs = length ys \<Longrightarrow> memcmp xs ys = 0 \<longleftrightarrow> xs = ys"
  by (induction xs ys rule: list_induct2) auto

lemma memcmp_loop_ok:
  assumes "list_all usable cs" "cs \<noteq> [] \<longrightarrow> i \<le> off (hd cs)" "i + length mem \<le> length (contents cs)"
  shows "memcmp_loop i mem cs = 0 \<longleftrightarrow> take (length mem) (drop i (contents cs)) = mem"
  using assms
proof (induction cs arbitrary: i mem)
  case Nil
  then show ?case by simp
next
  case (Cons c cs)
  have gc: "usable c" and i: "i \<le> off c" using Cons.prems by simp_all
  have split: "drop i (contents (c # cs)) = drop i (content c) @ contents cs"
    and len: "length (drop i (content c)) = off c - i"
    using gc i by (simp_all add: usable_content)
  show ?case
  proof (cases "length mem + i > off c")
    case True
    let ?n = "off c - i"
    have n: "?n \<le> length mem" using True by simp
    have all: "take ?n (drop i (content c)) = drop i (content c)" using len by simp
    have cut: "take (length mem) (drop i (content c) @ contents cs) =
        drop i (content c) @ take (length (drop ?n mem)) (contents cs)"
      using len n by simp
    have "memcmp (drop i (content c)) (take ?n mem) = 0 \<longleftrightarrow> drop i (content c) = take ?n mem"
      using len n by (intro memcmp_zero) simp
    moreover have "memcmp_loop 0 (drop ?n mem) cs = 0 \<longleftrightarrow>
        take (length (drop ?n mem)) (contents cs) = drop ?n mem"
      using Cons.IH [of 0 "drop ?n mem"] Cons.prems gc i n by (simp add: usable_content)
    moreover have "drop i (content c) @ take (length (drop ?n mem)) (contents cs) = mem \<longleftrightarrow>
        drop i (content c) = take ?n mem \<and> take (length (drop ?n mem)) (contents cs) = drop ?n mem"
      using len n by (metis append_eq_conv_conj append_take_drop_id length_take min.absorb2)
    ultimately show ?thesis using True split cut all by (auto simp: Let_def)
  next
    case False
    have "memcmp (take (length mem) (drop i (content c))) mem = 0 \<longleftrightarrow> take (length mem) (drop i (content c)) = mem"
      using len False by (intro memcmp_zero) simp
    moreover have "take (length mem) (drop i (contents (c # cs))) = take (length mem) (drop i (content c))"
      using split len False by simp
    moreover have "memcmp_loop 0 [] cs = 0" by (cases cs) simp_all
    ultimately show ?thesis using False by (auto simp: Let_def)
  qed
qed

definition occurs :: "cell list \<Rightarrow> cell list \<Rightarrow> bool" where
  "occurs what s \<longleftrightarrow> length what \<le> length s \<and> take (length what) s = what"

lemma ptr_memcmp_ok:
  assumes inv: "ev_inv b" and at: "ptr_at b it p"
  shows "evbuffer_ptr_memcmp b it what = 0 \<longleftrightarrow> occurs what (drop p (bytes b))"
proof -
  have tot: "total_len b = length (bytes b)" and max: "length (bytes b) \<le> EV_SIZE_MAX"
    and good_b: "list_all usable (chains b)" using ev_inv_total [OF inv] by auto
  have pos: "pos it = int p" using at by (simp add: ptr_at_def)
  have le: "p \<le> length (bytes b)" by (rule ptr_at_le [OF good_b at])
  show ?thesis
  proof (cases "p + length what \<le> length (bytes b)")
    case False
    then show ?thesis using pos tot le by (auto simp: evbuffer_ptr_memcmp_def occurs_def)
  next
    case True
    show ?thesis
    proof (cases "in_chain it")
      case None
      then show ?thesis using True at pos tot max by (simp add: ptr_at_def evbuffer_ptr_memcmp_def occurs_def)
    next
      case (Some k)
      let ?cs = "drop k (chains b)"
      have k: "k < length (chains b)" "pos_in_chain it \<le> off (chains b ! k)"
        "p = length (contents (take k (chains b))) + pos_in_chain it"
        using at Some by (auto simp: ptr_at_def)
      have usable: "list_all usable ?cs" using good_b by (auto simp: list_all_iff dest: in_set_dropD)
      have hd: "?cs \<noteq> [] \<longrightarrow> pos_in_chain it \<le> off (hd ?cs)" using k by (simp add: hd_drop_conv_nth)
      have fits: "pos_in_chain it + length what \<le> length (contents ?cs)"
        using contents_from [of b k] True k(3) by simp
      from memcmp_loop_ok [OF usable hd this] show ?thesis
        using fits True Some pos tot max ptr_at_drop [OF at Some]
        by (auto simp: evbuffer_ptr_memcmp_def occurs_def)
    qed
  qed
qed

section \<open>Searching\<close>

fun first_sub :: "cell list \<Rightarrow> cell list \<Rightarrow> nat option" where
  "first_sub what [] = (if what = [] then Some 0 else None)"
| "first_sub what (x # xs) =
    (if occurs what (x # xs) then Some 0 else map_option Suc (first_sub what xs))"

lemma first_sub_Some:
  "first_sub what s = Some i \<longleftrightarrow> i \<le> length s \<and> occurs what (drop i s) \<and> (\<forall>j < i. \<not> occurs what (drop j s))"
proof (induction s arbitrary: i)
  case Nil
  then show ?case by (auto simp: occurs_def)
next
  case (Cons x s)
  then show ?case by (cases i) (auto simp: less_Suc_eq_0_disj)
qed

lemma first_sub_least:
  "first_sub what s = None \<Longrightarrow> i \<le> length s \<Longrightarrow> occurs what (drop i s) \<Longrightarrow> False"
proof (induction s arbitrary: i)
  case (Cons x s)
  then show ?case by (cases i) (auto split: if_splits)
qed (simp add: occurs_def)

lemma first_sub_skip:
  assumes "what \<noteq> []" "\<forall>x \<in> set xs. x \<noteq> hd what"
  shows "first_sub what (xs @ ys) = map_option ((+) (length xs)) (first_sub what ys)"
  using assms(2)
proof (induction xs)
  case Nil
  then show ?case by (simp add: option.map_id0 [unfolded id_def] option.map_ident)
next
  case (Cons x xs)
  then have "\<not> occurs what (x # xs @ ys)" using assms(1) by (cases what) (auto simp: occurs_def)
  then show ?case using Cons by (cases "first_sub what ys") simp_all
qed

definition in_place :: "evbuffer \<Rightarrow> nat \<Rightarrow> nat \<Rightarrow> nat \<Rightarrow> bool" where
  "in_place b k i q \<longleftrightarrow> k \<le> length (chains b) \<and> q = length (contents (take k (chains b))) + i \<and>
    (if k < length (chains b) then i \<le> off (chains b ! k) else i = 0)"

lemma in_place_ptr:
  "in_place b k i q \<Longrightarrow> k < length (chains b) \<Longrightarrow>
    ptr_at b \<lparr>pos = int q, in_chain = Some k, pos_in_chain = i\<rparr> q"
  by (simp add: in_place_def ptr_at_def)

lemma in_place_next:
  assumes "list_all usable (chains b)" "in_place b k i q" "k < length (chains b)"
  shows "in_place b (Suc k) 0 (q + (off (chains b ! k) - i))"
proof -
  have "usable (chains b ! k)" using assms by (simp add: list_all_length)
  then show ?thesis using assms
    by (auto simp: in_place_def take_Suc_conv_app_nth usable_content)
qed

text \<open>What a search from the place \<open>q\<close> on may return.\<close>

definition found_at :: "evbuffer \<Rightarrow> nat \<Rightarrow> (nat option \<times> int) option \<Rightarrow> nat \<Rightarrow> ev_ptr option \<Rightarrow> bool" where
  "found_at b n stop m r \<longleftrightarrow>
    (if \<exists>e. stop = Some e \<and> int (m + n) > snd e then r = None
     else \<exists>it. r = Some it \<and> ptr_at b it m \<and> in_chain it \<noteq> None)"

definition finds :: "evbuffer \<Rightarrow> cell list \<Rightarrow> (nat option \<times> int) option \<Rightarrow> nat \<Rightarrow> ev_ptr option \<Rightarrow> bool" where
  "finds b what stop q r \<longleftrightarrow>
    (case first_sub what (drop q (bytes b)) of
       Some j \<Rightarrow> found_at b (length what) stop (q + j) r
     | None \<Rightarrow> r = None)"

lemma finds_shift:
  assumes "first_sub what (drop q (bytes b)) = map_option ((+) n) (first_sub what (drop (q + n) (bytes b)))"
    "finds b what stop (q + n) r"
  shows "finds b what stop q r"
  using assms by (auto simp: finds_def add.assoc split: option.splits)

lemma drop_here:
  assumes "in_place b k i q" "k < length (chains b)" "list_all usable (chains b)"
  shows "drop q (bytes b) = drop i (content (chains b ! k)) @ contents (drop (Suc k) (chains b))"
    "drop (q + (off (chains b ! k) - i)) (bytes b) = contents (drop (Suc k) (chains b))"
    "length (content (chains b ! k)) = off (chains b ! k)"
proof -
  have g: "usable (chains b ! k)" using assms by (simp add: list_all_length)
  have "bytes b = contents (take k (chains b)) @ content (chains b ! k) @ contents (drop (Suc k) (chains b))"
    using contents_from [of b k] assms(2) by (simp add: Cons_nth_drop_Suc [symmetric])
  then show "drop q (bytes b) = drop i (content (chains b ! k)) @ contents (drop (Suc k) (chains b))"
    "drop (q + (off (chains b ! k) - i)) (bytes b) = contents (drop (Suc k) (chains b))"
    using assms(1,2) g by (auto simp: in_place_def usable_content)
  show "length (content (chains b ! k)) = off (chains b ! k)" using g by (rule usable_content)
qed

lemma first_sub_here: "xs \<noteq> [] \<Longrightarrow> \<not> occurs what xs \<Longrightarrow>
    first_sub what xs = map_option ((+) 1) (first_sub what (drop 1 xs))"
  by (cases xs; cases "first_sub what (tl xs)") auto

lemma search_loop_ok:
  assumes "ev_inv b" "what \<noteq> []"
    and "\<forall>ke pe. stop = Some (Some ke, pe) \<longrightarrow>
      ke < length (chains b) \<and> pe \<le> int (length (contents (take (Suc ke) (chains b))))"
    and "in_place b k i q" "cs = drop k (chains b)" "p = int q"
  shows "finds b what stop q (search_loop b what stop k i p cs)"
  using assms
proof (induction b what stop k i p cs arbitrary: q rule: search_loop.induct)
  case (1 buf what stop k i p)
  then have "q = length (bytes buf)" using contents_from [of buf k] by (auto simp: in_place_def)
  then show ?case using "1.prems"(2) by (simp add: finds_def)
next
  case (2 b what stop k i p chain cs)
  have usable: "list_all usable (chains b)" using ev_inv_total [OF "2.prems"(1)] by simp
  have k: "k < length (chains b)" "chain = chains b ! k" "cs = drop (Suc k) (chains b)"
    using "2.prems"(5) by (metis drop_eq_Nil2 list.distinct(1) not_less,
      metis drop_eq_Nil2 linorder_not_less list.distinct(1) list.sel(1) hd_drop_conv_nth,
      metis list.sel(3) drop_Suc tl_drop)
  note here = drop_here [OF "2.prems"(4) k(1) usable, folded k(2)]
  have i: "i \<le> off chain" "q = length (contents (take k (chains b))) + i"
    using "2.prems"(4) k(1,2) by (simp_all add: in_place_def)
  note next_place = in_place_next [OF usable "2.prems"(4) k(1), folded k(2)]
  show ?case
  proof (cases "ev_memchr (hd what) (drop i (content chain))")
    case None
    have "\<forall>x \<in> set (drop i (content chain)). x \<noteq> hd what"
      using None by (simp add: memchr_first first_index_None)
    from first_sub_skip [OF "2.prems"(2) this]
    have skip: "first_sub what (drop q (bytes b)) =
        map_option ((+) (off chain - i)) (first_sub what (drop (q + (off chain - i)) (bytes b)))"
      using here by simp
    show ?thesis
    proof (cases "\<exists>e. stop = Some e \<and> fst e = Some k")
      case True
      then obtain pe where "stop = Some (Some k, pe)" by auto
      moreover have "pe \<le> int (q + (off chain - i))"
        using "2.prems"(3) \<open>stop = _\<close> next_place by (auto simp: in_place_def)
      ultimately have "found_at b (length what) stop (q + (off chain - i) + j) None" for j
        using "2.prems"(2) by (cases what) (auto simp: found_at_def)
      then have "finds b what stop (q + (off chain - i)) None"
        by (simp add: finds_def split: option.splits)
      then show ?thesis using finds_shift [OF skip] None True by simp
    next
      case False
      have "finds b what stop (q + (off chain - i))
          (search_loop b what stop (Suc k) 0 (p + int (off chain - i)) cs)"
        using "2.IH"(1) [OF None False "2.prems"(1-3) next_place k(3)] "2.prems"(6) by simp
      then show ?thesis using finds_shift [OF skip] None False by simp
    qed
  next
    case (Some j)
    have j: "i + j < off chain" "drop i (content chain) ! j = hd what"
      "\<forall>m < j. drop i (content chain) ! m \<noteq> hd what"
      using Some here(3) by (auto simp: memchr_first first_index_Some)
    let ?it = "\<lparr>pos = p + int j, in_chain = Some k, pos_in_chain = i + j\<rparr>"
    have at: "ptr_at b ?it (q + j)"
      using j(1) i k "2.prems"(6) by (simp add: ptr_at_def)
    have "\<forall>x \<in> set (take j (drop i (content chain))). x \<noteq> hd what"
      using j(3) by (auto simp: in_set_conv_nth)
    note first = first_sub_skip [OF "2.prems"(2) this, of "drop j (drop i (content chain)) @ contents (drop (Suc k) (chains b))"]
    have "drop (q + j) (bytes b) = drop j (drop q (bytes b))" by (simp add: add.commute)
    then have later: "drop (q + j) (bytes b) = drop j (drop i (content chain)) @ contents (drop (Suc k) (chains b))"
      using here(1,3) j(1) by simp
    have "drop q (bytes b) = take j (drop i (content chain)) @ drop (q + j) (bytes b)"
      unfolding here(1) later by (metis append.assoc append_take_drop_id)
    then have skip: "first_sub what (drop q (bytes b)) =
        map_option ((+) j) (first_sub what (drop (q + j) (bytes b)))"
      using first here(3) j(1) later by simp
    have nonempty: "drop (q + j) (bytes b) \<noteq> []" using later here(3) j(1) by simp
    show ?thesis
    proof (cases "evbuffer_ptr_memcmp b ?it what = 0")
      case True
      then have "occurs what (drop (q + j) (bytes b))" using ptr_memcmp_ok [OF "2.prems"(1) at] by simp
      then have "first_sub what (drop (q + j) (bytes b)) = Some 0"
        by (simp add: first_sub_Some)
      then show ?thesis using skip True Some at "2.prems"(6)
        by (auto simp: finds_def found_at_def Let_def)
    next
      case False
      then have "\<not> occurs what (drop (q + j) (bytes b))" using ptr_memcmp_ok [OF "2.prems"(1) at] by simp
      from first_sub_here [OF nonempty this] skip
      have skip: "first_sub what (drop q (bytes b)) =
          map_option ((+) (j + 1)) (first_sub what (drop (q + (j + 1)) (bytes b)))"
        by (cases "first_sub what (drop (q + (j + 1)) (bytes b))") simp_all
      show ?thesis
      proof (cases "i + j + 1 = off chain")
        case True
        have "off chain - i = j + 1" using True by simp
        with next_place have "in_place b (Suc k) 0 (q + (j + 1))" by simp
        from "2.IH"(2) [OF Some refl False True "2.prems"(1-3) this k(3)]
        show ?thesis using finds_shift [OF skip] Some False True "2.prems"(6) by (simp add: Let_def)
      next
        case no: False
        have "in_place b k (i + j + 1) (q + (j + 1))" using j(1) no i k by (simp add: in_place_def)
        from "2.IH"(3) [OF Some refl False no "2.prems"(1-3) this "2.prems"(5)]
        show ?thesis using finds_shift [OF skip] Some False no "2.prems"(6) by (simp add: Let_def)
      qed
    qed
  qed
qed

text \<open>The whole search, from any position, with or without an end.\<close>

definition stop_of :: "ev_ptr option \<Rightarrow> (nat option \<times> int) option" where
  "stop_of stop = map_option (\<lambda>e. (in_chain e, pos e)) stop"

lemma search_range_ok:
  assumes inv: "ev_inv b" and what: "what \<noteq> []" "length what \<le> EV_SSIZE_MAX"
    and at: "ptr_at b (case start of Some s \<Rightarrow> s | None \<Rightarrow> start_ptr b) q"
    and stop: "\<And>e. stop = Some e \<Longrightarrow> \<exists>m. ptr_at b e m"
  shows "\<exists>r. finds b what (stop_of stop) q r \<and>
    (case r of Some it \<Rightarrow> evbuffer_search_range b what start stop = it
     | None \<Rightarrow> pos (evbuffer_search_range b what start stop) = -1)"
proof -
  have usable: "list_all usable (chains b)" using ev_inv_total [OF inv] by simp
  let ?it = "case start of Some s \<Rightarrow> s | None \<Rightarrow> start_ptr b"
  have bound: "\<forall>ke pe. stop_of stop = Some (Some ke, pe) \<longrightarrow>
      ke < length (chains b) \<and> pe \<le> int (length (contents (take (Suc ke) (chains b))))"
  proof (intro allI impI)
    fix ke pe
    assume "stop_of stop = Some (Some ke, pe)"
    then obtain e where e: "stop = Some e" "in_chain e = Some ke" "pos e = pe" by (auto simp: stop_of_def)
    with stop obtain m where "ptr_at b e m" by auto
    then show "ke < length (chains b) \<and> pe \<le> int (length (contents (take (Suc ke) (chains b))))"
      using e usable by (auto simp: ptr_at_def take_Suc_conv_app_nth list_all_length usable_content)
  qed
  define r where "r = Option.bind (in_chain ?it) (\<lambda>k. search_loop b what (stop_of stop) k
      (pos_in_chain ?it) (pos ?it) (drop k (chains b)))"
  have "finds b what (stop_of stop) q r"
  proof (cases "in_chain ?it")
    case None
    then show ?thesis using at what by (simp add: r_def ptr_at_def finds_def)
  next
    case (Some k)
    then have "in_place b k (pos_in_chain ?it) q" "pos ?it = int q"
      using at by (simp_all add: ptr_at_def in_place_def)
    from search_loop_ok [OF inv what(1) bound this(1) refl this(2)] show ?thesis using Some by (simp add: r_def)
  qed
  moreover have "evbuffer_search_range b what start stop =
      (case r of Some it \<Rightarrow> it | None \<Rightarrow> ?it\<lparr>pos := -1, in_chain := None\<rparr>)"
    unfolding evbuffer_search_range_def r_def stop_of_def start_ptr_def
    using what by (simp add: Let_def linorder_not_less split: option.splits)
  ultimately show ?thesis by (intro exI [of _ r]) (auto split: option.splits)
qed

lemma search_ok:
  assumes "ev_inv b" "what \<noteq> []" "length what \<le> EV_SSIZE_MAX"
    "ptr_at b (case start of Some s \<Rightarrow> s | None \<Rightarrow> start_ptr b) q"
  shows "case first_sub what (drop q (bytes b)) of
      Some j \<Rightarrow> ptr_at b (evbuffer_search b what start) (q + j)
    | None \<Rightarrow> pos (evbuffer_search b what start) = -1"
  using search_range_ok [OF assms, of None]
  by (auto simp: evbuffer_search_def finds_def found_at_def stop_of_def split: option.splits)

section \<open>Ends of lines\<close>

lemma span_loop_ok:
  assumes "list_all usable cs" "cs \<noteq> [] \<longrightarrow> i \<le> off (hd cs)"
  shows "span_loop S i cs = length (takeWhile (\<lambda>x. x \<in> S) (drop i (contents cs)))"
  using assms
proof (induction cs arbitrary: i)
  case (Cons c cs)
  have split: "drop i (contents (c # cs)) = drop i (content c) @ contents cs"
    using Cons.prems by (simp add: usable_content)
  have IH: "span_loop S 0 cs = length (takeWhile (\<lambda>x. x \<in> S) (contents cs))"
    using Cons.IH [of 0] Cons.prems(1) by simp
  let ?d = "drop i (content c)"
  show ?case
  proof (cases "takeWhile (\<lambda>x. x \<in> S) ?d = ?d")
    case True
    then have "\<forall>x \<in> set ?d. x \<in> S" by (metis takeWhile_eq_all_conv)
    moreover have "length (takeWhile (\<lambda>x. x \<in> S) ?d) = length ?d" by (rule arg_cong [OF True])
    ultimately show ?thesis unfolding split using IH by (auto simp: Let_def takeWhile_append2)
  next
    case False
    then obtain x where x: "x \<in> set ?d" "x \<notin> S" by (metis takeWhile_eq_all_conv)
    have "length (takeWhile (\<lambda>x. x \<in> S) ?d) < length ?d"
      using False by (metis length_takeWhile_le le_neq_implies_less takeWhile_eq_take take_all_iff order_refl)
    then show ?thesis unfolding split using x by (simp add: Let_def takeWhile_append1)
  qed
qed simp

lemma strspn_ok:
  assumes "ev_inv b" "ptr_at b it p" "in_chain it \<noteq> None"
  shows "evbuffer_strspn b it S = int (length (takeWhile (\<lambda>x. x \<in> S) (drop p (bytes b))))"
proof -
  obtain k where k: "in_chain it = Some k" using assms(3) by auto
  have usable: "list_all usable (drop k (chains b))"
    using ev_inv_total [OF assms(1)] by (auto simp: list_all_iff dest: in_set_dropD)
  have hd: "drop k (chains b) \<noteq> [] \<longrightarrow> pos_in_chain it \<le> off (hd (drop k (chains b)))"
    using assms(2) k by (auto simp: ptr_at_def hd_drop_conv_nth)
  show ?thesis
    using span_loop_ok [OF usable hd, of S] ptr_at_drop [OF assms(2) k] k by (simp add: evbuffer_strspn_def)
qed

lemma getchr_ok:
  assumes "ev_inv b" "ptr_at b it p" "at_byte b it"
  shows "evbuffer_getchr b it = Some (bytes b ! p)"
proof -
  obtain k where at: "in_chain it = Some k" "pos_in_chain it < off (chains b ! k)"
    using assms(3) by (auto simp: at_byte_def)
  have k: "k < length (chains b)" using assms(2) at by (simp add: ptr_at_def)
  have usable: "list_all usable (chains b)" using ev_inv_total [OF assms(1)] by simp
  then have g: "usable (chains b ! k)" using k by (simp add: list_all_length)
  then have room: "misalign (chains b ! k) + off (chains b ! k) \<le> buffer_len (chains b ! k)"
    by (simp add: usable_def chain_ok_def)
  have "drop p (bytes b) ! 0 = content (chains b ! k) ! pos_in_chain it"
    using ptr_at_drop [OF assms(2) at(1)] at(2) k g
    by (simp add: Cons_nth_drop_Suc [symmetric] usable_content nth_append)
  moreover have "p < length (bytes b)"
    using assms(2) at k g contents_from [of b k]
    by (simp add: ptr_at_def Cons_nth_drop_Suc [symmetric] usable_content)
  ultimately show ?thesis using at k room g
    by (simp add: evbuffer_getchr_def content_def check_def usable_def chain_ok_def)
qed

fun crlf_end :: "cell list \<Rightarrow> (nat \<times> nat) option" where
  "crlf_end [] = None"
| "crlf_end (x # xs) =
    (if x = EV_LF then Some (0, 1)
     else if occurs [EV_CR, EV_LF] (x # xs) then Some (0, 2)
     else map_option (\<lambda>(n, m). (Suc n, m)) (crlf_end xs))"

text \<open>Where the first line of a list of bytes ends, and how long the end of the line is.\<close>

definition line_end :: "eol_style \<Rightarrow> cell list \<Rightarrow> (nat \<times> nat) option" where
  "line_end style s =
    (case style of
       EVBUFFER_EOL_ANY \<Rightarrow>
         map_option (\<lambda>n. (n, length (takeWhile (\<lambda>x. x \<in> {EV_CR, EV_LF}) (drop n s)))) (first_index (\<lambda>x. x \<in> {EV_CR, EV_LF}) s)
     | EVBUFFER_EOL_CRLF \<Rightarrow> crlf_end s
     | EVBUFFER_EOL_CRLF_STRICT \<Rightarrow> map_option (\<lambda>n. (n, 2)) (first_sub [EV_CR, EV_LF] s)
     | EVBUFFER_EOL_LF \<Rightarrow> map_option (\<lambda>n. (n, 1)) (first_index (\<lambda>x. x = EV_LF) s))"

lemma crlf_end_skip:
  "\<forall>x \<in> set xs. x \<notin> {EV_CR, EV_LF} \<Longrightarrow> crlf_end (xs @ ys) = map_option (\<lambda>(n, m). (length xs + n, m)) (crlf_end ys)"
proof (induction xs)
  case Nil
  then show ?case by (cases "crlf_end ys") auto
next
  case (Cons x xs)
  then have "\<not> occurs [EV_CR, EV_LF] (x # xs @ ys)" by (auto simp: occurs_def)
  then show ?case using Cons by (cases "crlf_end ys") auto
qed

lemma crlf_loop_ok:
  assumes inv: "ev_inv b" and "ptr_at b it p"
  shows "\<exists>r. crlf_loop b it = Some r \<and>
    (case crlf_end (drop p (bytes b)) of
       None \<Rightarrow> r = None
     | Some (n, m) \<Rightarrow> \<exists>it'. r = Some (it', m) \<and> ptr_at b it' (p + n))"
  using assms(2)
proof (induction "length (bytes b) - p" arbitrary: it p rule: less_induct)
  case less
  have usable: "list_all usable (chains b)" using ev_inv_total [OF inv] by simp
  let ?P = "\<lambda>x. x \<in> {EV_CR, EV_LF}" and ?s = "drop p (bytes b)"
  have find: "find_eol_char = first_index ?P" using eol_first by (rule ext)
  note scan = scan_from_ok [OF usable less.prems, of ?P, folded find, folded evbuffer_find_eol_char_def]
  show ?case
  proof (cases "first_index ?P ?s")
    case None
    then have "crlf_end (?s @ []) = None" using crlf_end_skip [of ?s "[]"] by (simp add: first_index_None)
    then show ?thesis using None scan find by (subst crlf_loop.simps) simp
  next
    case (Some q)
    then obtain it1 where it1: "evbuffer_find_eol_char b it = Some it1" "ptr_at b it1 (p + q)" "at_byte b it1"
      using scan find by auto
    have q: "q < length ?s" "?P (?s ! q)" "\<forall>j < q. \<not> ?P (?s ! j)" using Some by (simp_all add: first_index_Some)
    have "\<forall>x \<in> set (take q ?s). x \<notin> {EV_CR, EV_LF}" using q(3) by (auto simp: in_set_conv_nth)
    moreover have "take q ?s @ drop (p + q) (bytes b) = ?s" by (metis add.commute append_take_drop_id drop_drop)
    ultimately have skip: "crlf_end ?s = map_option (\<lambda>(n, m). (q + n, m)) (crlf_end (drop (p + q) (bytes b)))"
      using crlf_end_skip [of "take q ?s" "drop (p + q) (bytes b)"] q(1) by simp
    have here: "drop (p + q) (bytes b) = bytes b ! (p + q) # drop (p + q + 1) (bytes b)"
      using q(1) by (simp add: Cons_nth_drop_Suc)
    note chr = getchr_ok [OF inv it1(2,3)] and cmp = ptr_memcmp_ok [OF inv it1(2), of "[EV_CR, EV_LF]"]
    show ?thesis
    proof (cases "bytes b ! (p + q) = EV_LF \<or> occurs [EV_CR, EV_LF] (drop (p + q) (bytes b))")
      case True
      then show ?thesis using skip here chr cmp it1 by (subst crlf_loop.simps) auto
    next
      case False
      then have step: "crlf_end (drop (p + q) (bytes b)) =
          map_option (\<lambda>(n, m). (Suc n, m)) (crlf_end (drop (p + q + 1) (bytes b)))"
        unfolding here by simp
      note add = ptr_add_ok [OF inv it1(2), of 1]
      show ?thesis
      proof (cases "p + q + 1 < length (bytes b)")
        case more: True
        then obtain it2 where it2: "evbuffer_ptr_set b it1 1 EVBUFFER_PTR_ADD = (0, it2)" "ptr_at b it2 (p + q + 1)"
          using add by auto
        have run: "crlf_loop b it = crlf_loop b it2"
          using it1(1) chr cmp False it2(1) by (subst crlf_loop.simps) simp
        have "length (bytes b) - (p + q + 1) < length (bytes b) - p" using more by simp
        from less.hyps [OF this it2(2)] show ?thesis
          unfolding run skip step
          by (cases "crlf_end (drop (p + q + 1) (bytes b))") (auto simp: add.assoc)
      next
        case False
        then have "crlf_end (drop (p + q + 1) (bytes b)) = None" by simp
        then show ?thesis using it1(1) chr cmp \<open>\<not> (_ \<or> _)\<close> add False skip step
          by (subst crlf_loop.simps) auto
      qed
    qed
  qed
qed

lemma search_eol_ok:
  assumes inv: "ev_inv b"
  shows "\<exists>it m. evbuffer_search_eol b None style = Some (it, m) \<and>
    (case line_end style (bytes b) of
       None \<Rightarrow> pos it < 0
     | Some (n, m') \<Rightarrow> m = m' \<and> ptr_at b it n)"
proof -
  have usable: "list_all usable (chains b)" using ev_inv_total [OF inv] by simp
  have find: "find_eol_char = first_index (\<lambda>x. x \<in> {EV_CR, EV_LF})" using eol_first by (rule ext)
  note scan = scan_from_ok [OF usable start_at, simplified]
  have start: "\<lparr>pos = 0, in_chain = if chains b = [] then None else Some 0, pos_in_chain = 0\<rparr> = start_ptr b"
    by (simp add: start_ptr_def)
  show ?thesis
  proof (cases style)
    case EVBUFFER_EOL_ANY
    show ?thesis
    proof (cases "first_index (\<lambda>x. x \<in> {EV_CR, EV_LF}) (bytes b)")
      case None
      then show ?thesis using EVBUFFER_EOL_ANY scan [of "\<lambda>x. x \<in> {EV_CR, EV_LF}"] find
        by (simp add: evbuffer_search_eol_def line_end_def evbuffer_find_eol_char_def start)
    next
      case (Some n)
      then obtain it where it: "evbuffer_find_eol_char b (start_ptr b) = Some it" "ptr_at b it n" "at_byte b it"
        using scan [of "\<lambda>x. x \<in> {EV_CR, EV_LF}"] find by (auto simp: evbuffer_find_eol_char_def)
      then have "evbuffer_strspn b it {EV_CR, EV_LF} = int (length (takeWhile (\<lambda>x. x \<in> {EV_CR, EV_LF}) (drop n (bytes b))))"
        using strspn_ok [OF inv] by (auto simp: at_byte_def)
      then show ?thesis using EVBUFFER_EOL_ANY Some it
        by (simp add: evbuffer_search_eol_def line_end_def start)
    qed
  next
    case EVBUFFER_EOL_CRLF
    then show ?thesis using crlf_loop_ok [OF inv start_at]
      by (auto simp: evbuffer_search_eol_def line_end_def start split: option.splits)
  next
    case EVBUFFER_EOL_CRLF_STRICT
    have "case first_sub [EV_CR, EV_LF] (bytes b) of
        Some j \<Rightarrow> ptr_at b (evbuffer_search b [EV_CR, EV_LF] (Some (start_ptr b))) j
      | None \<Rightarrow> pos (evbuffer_search b [EV_CR, EV_LF] (Some (start_ptr b))) = -1"
      using search_ok [OF inv, of "[EV_CR, EV_LF]" "Some (start_ptr b)" 0] start_at
      by (cases "first_sub [EV_CR, EV_LF] (bytes b)") (simp_all add: EV_SSIZE_MAX_def)
    then show ?thesis using EVBUFFER_EOL_CRLF_STRICT
      by (auto simp: evbuffer_search_eol_def line_end_def start ptr_at_def Let_def split: option.splits)
  next
    case EVBUFFER_EOL_LF
    then show ?thesis using scan [of "\<lambda>x. x = EV_LF"]
      by (auto simp: evbuffer_search_eol_def line_end_def start evbuffer_strchr_def memchr_first split: option.splits)
  qed
qed

lemma line_end_bound: "line_end style s = Some (n, m) \<Longrightarrow> n \<le> length s"
proof (cases style)
  case EVBUFFER_EOL_CRLF
  have "crlf_end s = Some (n, m) \<Longrightarrow> n \<le> length s"
    by (induction s arbitrary: n) (auto split: if_splits)
  then show "line_end style s = Some (n, m) \<Longrightarrow> n \<le> length s" using EVBUFFER_EOL_CRLF by (simp add: line_end_def)
qed (auto simp: line_end_def first_index_Some first_sub_Some)

lemma readln_ok:
  assumes inv: "ev_inv b" and thaw: "\<not> freeze_start b"
  shows "case line_end style (bytes b) of
      None \<Rightarrow> evbuffer_readln al b style = Some (None, 0, b)
    | Some (n, m) \<Rightarrow>
        if al (n + 1) = None then evbuffer_readln al b style = Some (None, 0, b)
        else \<exists>b'. evbuffer_readln al b style = Some (Some (take n (bytes b)), n, b') \<and> ev_inv b' \<and>
          bytes b' = drop (n + m) (bytes b)"
proof -
  obtain it m where s: "evbuffer_search_eol b None style = Some (it, m)"
    "case line_end style (bytes b) of None \<Rightarrow> pos it < 0 | Some (n, m') \<Rightarrow> m = m' \<and> ptr_at b it n"
    using search_eol_ok [OF inv] by blast
  show ?thesis
  proof (cases "line_end style (bytes b)")
    case None
    then show ?thesis using s thaw by (simp add: evbuffer_readln_def)
  next
    case (Some r)
    obtain n where r: "r = (n, m)" "pos it = int n" using s(2) Some by (cases r) (auto simp: ptr_at_def)
    obtain b1 where b1: "evbuffer_remove b n = Some (c_int (int (min n (length (bytes b)))), take n (bytes b), b1)"
      "ev_inv b1" "bytes b1 = drop n (bytes b)" "freeze_start b1 = freeze_start b"
      using remove_ok [OF inv thaw, of n] by blast
    obtain b2 where "evbuffer_drain b1 m = Some (0, b2)" "ev_inv b2" "bytes b2 = drop m (bytes b1)"
      using drain_ok [OF b1(2), of m] b1(4) thaw by auto
    then show ?thesis using s(1) thaw r b1 Some
      by (simp add: evbuffer_readln_def add.commute)
  qed
qed

end
