(* ===== verification/EvQueue.thy ===== *)
theory EvQueue imports EvSearchInv begin

text \<open>
  What a buffer promises its user: it is a queue of bytes. The contract is a locale over any
  store with operations, a view of it as a list and a relation that says what an operation may
  do to the list; its client lemma carries one operation to every sequence of operations. The
  interpretation gives it to the chains of \<open>EvBuffer\<close>, \<open>EvMove\<close> and \<open>EvSearch\<close>.
\<close>

section \<open>The contract\<close>

text \<open>A sequence of operations, on the store and on the list.\<close>

fun run_all :: "('op \<Rightarrow> 'q \<Rightarrow> ('out \<times> 'q) option) \<Rightarrow> 'op list \<Rightarrow> 'q \<Rightarrow> ('out list \<times> 'q) option" where
  "run_all run [] q = Some ([], q)"
| "run_all run (op # ops) q = do {
     (out, q) \<leftarrow> run op q;
     (outs, q) \<leftarrow> run_all run ops q;
     Some (out # outs, q)
   }"

inductive may_all :: "('op \<Rightarrow> 'a list \<Rightarrow> 'out \<Rightarrow> 'a list \<Rightarrow> bool) \<Rightarrow>
    'op list \<Rightarrow> 'a list \<Rightarrow> 'out list \<Rightarrow> 'a list \<Rightarrow> bool" for may where
  may_none: "may_all may [] xs [] xs"
| may_one: "may op xs out ys \<Longrightarrow> may_all may ops ys outs zs \<Longrightarrow> may_all may (op # ops) xs (out # outs) zs"

text \<open>\<open>grows\<close> bounds what an operation adds; the contract holds up to a largest length.\<close>

locale byte_queue =
  fixes run :: "'op \<Rightarrow> 'q \<Rightarrow> ('out \<times> 'q) option"
    and ok :: "'op \<Rightarrow> bool"
    and grows :: "'op \<Rightarrow> nat"
    and invar :: "'q \<Rightarrow> bool"
    and view :: "'q \<Rightarrow> 'a list"
    and may :: "'op \<Rightarrow> 'a list \<Rightarrow> 'out \<Rightarrow> 'a list \<Rightarrow> bool"
    and limit :: nat
  assumes run_ok: "invar q \<Longrightarrow> ok op \<Longrightarrow> length (view q) + grows op \<le> limit \<Longrightarrow>
    \<exists>out q'. run op q = Some (out, q') \<and> invar q' \<and> may op (view q) out (view q')"
    and may_grow: "may op xs out ys \<Longrightarrow> length ys \<le> length xs + grows op"
begin

lemma run_all_ok:
  assumes "invar q" "list_all ok ops" "length (view q) + sum_list (map grows ops) \<le> limit"
  shows "\<exists>outs q'. run_all run ops q = Some (outs, q') \<and> invar q' \<and> may_all may ops (view q) outs (view q')"
  using assms
proof (induction ops arbitrary: q)
  case Nil
  then show ?case by (auto intro: may_none may_one)
next
  case (Cons op ops)
  then obtain out q1 where q1: "run op q = Some (out, q1)" "invar q1" "may op (view q) out (view q1)"
    using run_ok [of q op] by auto
  then have "length (view q1) + sum_list (map grows ops) \<le> limit"
    using may_grow [OF q1(3)] Cons.prems(3) by simp
  with Cons.IH [of q1] Cons.prems(2) q1(2) obtain outs q2 where
    "run_all run ops q1 = Some (outs, q2)" "invar q2" "may_all may ops (view q1) outs (view q2)" by auto
  with q1 show ?case by (auto intro: may_none may_one)
qed

end

section \<open>The operations on one buffer\<close>

datatype buf_op =
  Op_add "cell list"
| Op_prepend "cell list"
| Op_drain nat
| Op_remove nat
| Op_copyout nat
| Op_pullup int
| Op_search "cell list"
| Op_readln eol_style

type_synonym op_out = "int \<times> cell list"

fun buf_run :: "(nat \<Rightarrow> nat option) \<Rightarrow> buf_op \<Rightarrow> evbuffer \<Rightarrow> (op_out \<times> evbuffer) option" where
  "buf_run al (Op_add data) b = do { (r, b) \<leftarrow> evbuffer_add al b data; Some ((r, []), b) }"
| "buf_run al (Op_prepend data) b = do { (r, b) \<leftarrow> evbuffer_prepend al b data; Some ((r, []), b) }"
| "buf_run al (Op_drain n) b = do { (r, b) \<leftarrow> evbuffer_drain b n; Some ((r, []), b) }"
| "buf_run al (Op_remove n) b = do { (r, data, b) \<leftarrow> evbuffer_remove b n; Some ((r, data), b) }"
| "buf_run al (Op_copyout n) b = do { out \<leftarrow> evbuffer_copyout b n; Some (out, b) }"
| "buf_run al (Op_pullup n) b = do {
     (r, b) \<leftarrow> evbuffer_pullup al b n;
     Some (case r of None \<Rightarrow> (-1, []) | Some data \<Rightarrow> (0, data), b)
   }"
| "buf_run al (Op_search what) b = Some ((pos (evbuffer_search b what None), []), b)"
| "buf_run al (Op_readln style) b = do {
     (r, n, b) \<leftarrow> evbuffer_readln al b style;
     Some (case r of None \<Rightarrow> (-1, []) | Some line \<Rightarrow> (int n, line), b)
   }"

fun buf_op_ok :: "buf_op \<Rightarrow> bool" where
  "buf_op_ok (Op_add data) = (data \<noteq> [])"
| "buf_op_ok (Op_prepend data) = (data \<noteq> [])"
| "buf_op_ok (Op_search what) = (what \<noteq> [] \<and> length what \<le> EV_SSIZE_MAX)"
| "buf_op_ok _ = True"

fun buf_op_grows :: "buf_op \<Rightarrow> nat" where
  "buf_op_grows (Op_add data) = length data"
| "buf_op_grows (Op_prepend data) = length data"
| "buf_op_grows _ = 0"

text \<open>
  What an operation may return for the bytes \<open>xs\<close>, and the bytes \<open>ys\<close> it leaves. Without memory an
  addition returns -1; a failed \<open>evbuffer_prepend\<close> may have added a tail of the data.
\<close>

fun buf_may :: "buf_op \<Rightarrow> cell list \<Rightarrow> op_out \<Rightarrow> cell list \<Rightarrow> bool" where
  "buf_may (Op_add data) xs out ys \<longleftrightarrow> out = (0, []) \<and> ys = xs @ data \<or> out = (-1, []) \<and> ys = xs"
| "buf_may (Op_prepend data) xs out ys \<longleftrightarrow>
    out = (0, []) \<and> ys = data @ xs \<or> out = (-1, []) \<and> (\<exists>k. ys = drop k data @ xs)"
| "buf_may (Op_drain n) xs out ys \<longleftrightarrow> out = (0, []) \<and> ys = drop n xs"
| "buf_may (Op_remove n) xs out ys \<longleftrightarrow> out = (c_int (int (min n (length xs))), take n xs) \<and> ys = drop n xs"
| "buf_may (Op_copyout n) xs out ys \<longleftrightarrow> out = (int (min n (length xs)), take n xs) \<and> ys = xs"
| "buf_may (Op_pullup sz) xs out ys \<longleftrightarrow> ys = xs \<and>
    (out = (-1, []) \<or>
     (let n = (if sz < 0 then length xs else nat sz) in 0 < n \<and> n \<le> length xs \<and> out = (0, take n xs)))"
| "buf_may (Op_search what) xs out ys \<longleftrightarrow> ys = xs \<and>
    out = (case first_sub what xs of None \<Rightarrow> -1 | Some n \<Rightarrow> int n, [])"
| "buf_may (Op_readln style) xs out ys \<longleftrightarrow>
    out = (-1, []) \<and> ys = xs \<or>
    (case line_end style xs of None \<Rightarrow> False | Some (n, m) \<Rightarrow> out = (int n, take n xs) \<and> ys = drop (n + m) xs)"

definition open_buffer :: "evbuffer \<Rightarrow> bool" where
  "open_buffer b \<longleftrightarrow> ev_inv b \<and> tight b \<and> \<not> freeze_start b \<and> \<not> freeze_end b"

lemma readln_frame:
  assumes "ev_inv b" "\<not> freeze_start b" "evbuffer_readln al b style = Some (r, n, b')"
  shows "(tight b \<longrightarrow> tight b') \<and> freeze_start b' = freeze_start b \<and> freeze_end b' = freeze_end b"
proof -
  obtain it m where s: "evbuffer_search_eol b None style = Some (it, m)"
    using search_eol_ok [OF assms(1)] by blast
  obtain b1 where b1: "evbuffer_remove b (nat (pos it)) =
      Some (c_int (int (min (nat (pos it)) (length (bytes b)))), take (nat (pos it)) (bytes b), b1)"
    "ev_inv b1" "tight b \<longrightarrow> tight b1" "freeze_start b1 = freeze_start b" "freeze_end b1 = freeze_end b"
    using remove_ok [OF assms(1,2)] by blast
  obtain b2 where b2: "evbuffer_drain b1 m = Some (0, b2)" "tight b1 \<longrightarrow> tight b2"
    "freeze_start b2 = freeze_start b1" "freeze_end b2 = freeze_end b1"
    using drain_ok [OF b1(2), of m] b1(4) assms(2) by auto
  show ?thesis using assms(2,3) s b1 b2
    by (auto simp: evbuffer_readln_def Let_def split: if_splits)
qed

lemma buf_may_grow: "buf_may op xs out ys \<Longrightarrow> length ys \<le> length xs + buf_op_grows op"
  by (cases op) (auto split: option.splits)

lemma buf_run_ok:
  assumes "open_buffer b" "buf_op_ok op" "length (bytes b) + buf_op_grows op \<le> EV_SIZE_MAX"
  shows "\<exists>out b'. buf_run al op b = Some (out, b') \<and> open_buffer b' \<and> buf_may op (bytes b) out (bytes b')"
proof -
  have b: "ev_inv b" "tight b" "\<not> freeze_start b" "\<not> freeze_end b"
    using assms(1) by (simp_all add: open_buffer_def)
  show ?thesis
  proof (cases op)
    case (Op_add data)
    then show ?thesis using add_ok [OF b(1,2), of data al] assms(2,3) b
      by (auto simp: appends_def open_buffer_def)
  next
    case (Op_prepend data)
    then show ?thesis using prepend_ok [OF b(1,2), of data al] assms(2,3) b
      by (auto simp: prepends_def open_buffer_def)
  next
    case (Op_drain n)
    then show ?thesis using drain_ok [OF b(1,3), of n] b by (auto simp: open_buffer_def)
  next
    case (Op_remove n)
    then show ?thesis using remove_ok [OF b(1,3), of n] b by (auto simp: open_buffer_def)
  next
    case (Op_copyout n)
    then show ?thesis using copyout_ok [OF b(1,3), of n] b by (simp add: open_buffer_def)
  next
    case (Op_pullup n)
    then show ?thesis using pullup_ok [OF b(1), of al n] b
      by (auto simp: open_buffer_def pullup_size_def Let_def split: option.splits)
  next
    case (Op_search what)
    then show ?thesis using search_ok [OF b(1), of what None 0] start_at [of b] assms(2) b
      by (auto simp: open_buffer_def ptr_at_def split: option.splits)
  next
    case (Op_readln style)
    show ?thesis
    proof (cases "line_end style (bytes b)")
      case None
      then show ?thesis using readln_ok [OF b(1,3), of al style] Op_readln b by (simp add: open_buffer_def)
    next
      case (Some nm)
      obtain n m where nm: "nm = (n, m)" by (cases nm)
      show ?thesis
      proof (cases "al (n + 1) = None")
        case True
        then show ?thesis using readln_ok [OF b(1,3), of al style] Op_readln Some nm b by (simp add: open_buffer_def)
      next
        case False
        then obtain b' where b': "evbuffer_readln al b style = Some (Some (take n (bytes b)), n, b')" "ev_inv b'"
          "bytes b' = drop (n + m) (bytes b)"
          using readln_ok [OF b(1,3), of al style] Some nm by auto
        then show ?thesis using readln_frame [OF b(1,3) b'(1)] Op_readln Some nm b by (auto simp: open_buffer_def)
      qed
    qed
  qed
qed

interpretation ev: byte_queue "buf_run al" buf_op_ok buf_op_grows open_buffer bytes buf_may EV_SIZE_MAX for al
  by unfold_locales (rule buf_run_ok buf_may_grow; assumption)+

end
