(* ===== verification/EvSpace.thy ===== *)
theory EvSpace imports EvAdd EvTake begin

text \<open>
  Room at the end of a buffer: \<open>evbuffer_expand\<close>, \<open>evbuffer_reserve_space\<close> and
  \<open>evbuffer_commit_space\<close> of \<open>buffer.c\<close>, and the operations that exchange bytes with a file
  descriptor. A chain is named by its position; a vector is an address and a length.
\<close>

section \<open>One chain with room\<close>

text \<open>\<open>insert_new\<close>: the chain that is inserted is the last one.\<close>

definition expand_insert_new ::
    "(nat \<Rightarrow> nat option) \<Rightarrow> evbuffer \<Rightarrow> nat \<Rightarrow> (nat option \<times> evbuffer) option" where
  "expand_insert_new al buf datlen = do {
    r \<leftarrow> evbuffer_chain_insert_new al buf datlen;
    case r of
      None \<Rightarrow> Some (None, buf)
    | Some buf \<Rightarrow> do {
        check (CHAIN_SPACE_LEN (last (chains buf)) \<ge> datlen);
        Some (Some (length (chains buf) - 1), buf)
      }
  }"

definition evbuffer_expand_singlechain ::
    "(nat \<Rightarrow> nat option) \<Rightarrow> evbuffer \<Rightarrow> nat \<Rightarrow> (nat option \<times> evbuffer) option" where
  "evbuffer_expand_singlechain al buf datlen =
    (let chainp = (case last_with_data buf of
                     None \<Rightarrow> last_with_datap buf
                   | Some c \<Rightarrow> if CHAIN_SPACE_LEN c = 0 then Suc (last_with_datap buf) else last_with_datap buf);
         chain = chains buf ! chainp
     in if \<not> chainp < length (chains buf) then expand_insert_new al buf datlen
        else if EVBUFFER_IMMUTABLE \<in> flags chain \<or> CHAIN_PINNED chain then expand_insert_new al buf datlen
        else if CHAIN_SPACE_LEN chain \<ge> datlen then Some (Some chainp, buf)
        else if off chain = 0 then expand_insert_new al buf datlen
        else if evbuffer_chain_should_realign chain datlen then do {
          chain \<leftarrow> evbuffer_chain_align chain;
          check (CHAIN_SPACE_LEN chain \<ge> datlen);
          Some (Some chainp, buf\<lparr>chains := (chains buf)[chainp := chain]\<rparr>)
        }
        else if CHAIN_SPACE_LEN chain < buffer_len chain div 8 \<or> off chain > MAX_TO_COPY_IN_EXPAND \<or>
                datlen < EVBUFFER_CHAIN_MAX \<and> EVBUFFER_CHAIN_MAX - datlen \<ge> off chain then
          (if Suc chainp < length (chains buf) \<and> CHAIN_SPACE_LEN (chains buf ! Suc chainp) \<ge> datlen
           then Some (Some (Suc chainp), buf)
           else expand_insert_new al buf datlen)
        else
          (case evbuffer_chain_new al (size_add (off chain) datlen) of
             None \<Rightarrow> Some (None, buf)
           | Some tmp \<Rightarrow> do {
               data \<leftarrow> chain_read chain (off chain);
               m \<leftarrow> memcpy 0 data (buffer tmp);
               let tmp = tmp\<lparr>off := off chain, buffer := m\<rparr>;
               check (CHAIN_SPACE_LEN tmp \<ge> datlen);
               Some (Some chainp, evbuffer_chain_free chain (buf\<lparr>chains := (chains buf)[chainp := tmp]\<rparr>))
             }))"

definition evbuffer_expand :: "(nat \<Rightarrow> nat option) \<Rightarrow> evbuffer \<Rightarrow> nat \<Rightarrow> (int \<times> evbuffer) option" where
  "evbuffer_expand al buf datlen =
    map_option (\<lambda>(chain, buf). (if chain = None then -1 else 0, buf)) (evbuffer_expand_singlechain al buf datlen)"

section \<open>Room in several chains\<close>

text \<open>
  The scan of \<open>_evbuffer_expand_fast\<close>, from \<open>*last_with_datap\<close> on: the chains as it leaves them, the
  room found, the chains that have it, and whether that is enough.
\<close>

fun fast_scan ::
    "nat \<Rightarrow> nat \<Rightarrow> bool \<Rightarrow> nat \<Rightarrow> nat \<Rightarrow> evchain list \<Rightarrow> (evchain list \<times> nat \<times> nat \<times> bool) option" where
  "fast_scan datlen n at_lwd avail used [] = Some ([], avail, used, False)"
| "fast_scan datlen n at_lwd avail used (chain # cs) = do {
     (chain, avail, used) \<leftarrow>
       (if off chain \<noteq> 0 then do {
          let space = CHAIN_SPACE_LEN chain;
          check at_lwd;
          Some (if space \<noteq> 0 then (chain, avail + space, Suc used) else (chain, avail, used))
        }
        else Some (chain\<lparr>misalign := 0\<rparr>, avail + buffer_len chain, Suc used));
     if avail \<ge> datlen then Some (chain # cs, avail, used, True)
     else if used = n then Some (chain # cs, avail, used, False)
     else do {
       (cs, avail, used, enough) \<leftarrow> fast_scan datlen n False avail used cs;
       Some (chain # cs, avail, used, enough)
     }
   }"

text \<open>There is not enough room in \<open>n\<close> chains: all spare chains give way to one new chain.\<close>

definition nuke_empty ::
    "(nat \<Rightarrow> nat option) \<Rightarrow> evbuffer \<Rightarrow> nat \<Rightarrow> (int \<times> evbuffer) option" where
  "nuke_empty al buf datlen = do {
    chain \<leftarrow> last_with_data buf;
    let rmv_all = (off chain = 0);
    check (rmv_all \<longrightarrow> last_with_datap buf = 0);
    let avail = (if rmv_all then 0 else CHAIN_SPACE_LEN chain);
    let keep = (if rmv_all then 0 else Suc (last_with_datap buf));
    check (evbuffer_chains_all_empty (drop keep (chains buf)));
    let buf = evbuffer_free_all_chains (drop keep (chains buf)) buf;
    check (datlen \<ge> avail);
    case evbuffer_chain_new al (datlen - avail) of
      None \<Rightarrow> Some (-1, if rmv_all then ZERO_CHAIN buf else buf\<lparr>chains := take keep (chains buf)\<rparr>)
    | Some tmp \<Rightarrow> Some (0, buf\<lparr>chains := take keep (chains buf) @ [tmp]\<rparr>)
  }"

definition evbuffer_expand_fast ::
    "(nat \<Rightarrow> nat option) \<Rightarrow> evbuffer \<Rightarrow> nat \<Rightarrow> nat \<Rightarrow> (int \<times> evbuffer) option" where
  "evbuffer_expand_fast al buf datlen n = do {
    check (n \<ge> 2);
    if chains buf = [] \<or> EVBUFFER_IMMUTABLE \<in> flags (last (chains buf)) then
      (case evbuffer_chain_new al datlen of
         None \<Rightarrow> Some (-1, buf)
       | Some chain \<Rightarrow> do { buf \<leftarrow> evbuffer_chain_insert buf chain; Some (0, buf) })
    else do {
      let lwd = last_with_datap buf;
      (cs, avail, used, enough) \<leftarrow> fast_scan datlen n True 0 0 (drop lwd (chains buf));
      let buf = buf\<lparr>chains := take lwd (chains buf) @ cs\<rparr>;
      if enough then Some (0, buf)
      else if used < n then
        (case evbuffer_chain_new al (datlen - avail) of
           None \<Rightarrow> Some (-1, buf)
         | Some tmp \<Rightarrow> Some (0, buf\<lparr>chains := chains buf @ [tmp]\<rparr>))
      else nuke_empty al buf datlen
    }
  }"

type_synonym iovec = "nat \<times> nat"

fun setup_vecs :: "evchain list \<Rightarrow> nat \<Rightarrow> nat \<Rightarrow> nat \<Rightarrow> bool \<Rightarrow> iovec list option" where
  "setup_vecs [] n howmuch so_far exact =
     (if 0 < n \<and> so_far < howmuch then None else Some [])"
| "setup_vecs (chain # cs) n howmuch so_far exact =
     (if 0 < n \<and> so_far < howmuch then do {
        let avail = CHAIN_SPACE_LEN chain;
        let avail = (if avail > howmuch - so_far \<and> exact then howmuch - so_far else avail);
        vecs \<leftarrow> setup_vecs cs (n - 1) howmuch (so_far + avail) exact;
        Some ((CHAIN_SPACE_PTR chain, avail) # vecs)
      }
      else Some [])"

text \<open>\<open>_evbuffer_read_setup_vecs\<close>: the vectors and the position of the first chain.\<close>

definition evbuffer_read_setup_vecs ::
    "evbuffer \<Rightarrow> int \<Rightarrow> nat \<Rightarrow> bool \<Rightarrow> (int \<times> iovec list \<times> nat) option" where
  "evbuffer_read_setup_vecs buf howmuch n_vecs_avail exact =
    (if howmuch < 0 then Some (-1, [], 0)
     else do {
       c \<leftarrow> last_with_data buf;
       let first = (if CHAIN_SPACE_LEN c = 0 then Suc (last_with_datap buf) else last_with_datap buf);
       vecs \<leftarrow> setup_vecs (drop first (chains buf)) n_vecs_avail (nat howmuch) 0 exact;
       Some (int (length vecs), vecs, first)
     })"

text \<open>\<open>(size_t)size\<close>.\<close>

definition to_size :: "int \<Rightarrow> nat" where
  "to_size n = nat (n mod 2 ^ 64)"

definition evbuffer_reserve_space ::
    "(nat \<Rightarrow> nat option) \<Rightarrow> evbuffer \<Rightarrow> int \<Rightarrow> int \<Rightarrow> (int \<times> iovec list \<times> evbuffer) option" where
  "evbuffer_reserve_space al buf sz n_vecs =
    (if freeze_end buf then Some (-1, [], buf)
     else if n_vecs < 1 then Some (-1, [], buf)
     else if n_vecs = 1 then do {
       (r, buf) \<leftarrow> evbuffer_expand_singlechain al buf (to_size sz);
       case r of
         None \<Rightarrow> Some (-1, [], buf)
       | Some i \<Rightarrow> do {
           let chain = chains buf ! i;
           check (sz < 0 \<or> CHAIN_SPACE_LEN chain \<ge> to_size sz);
           Some (1, [(CHAIN_SPACE_PTR chain, CHAIN_SPACE_LEN chain)], buf)
         }
     }
     else do {
       (r, buf) \<leftarrow> evbuffer_expand_fast al buf (to_size sz) (nat n_vecs);
       if r < 0 then Some (-1, [], buf)
       else do {
         (n, vecs, _) \<leftarrow> evbuffer_read_setup_vecs buf sz (nat n_vecs) False;
         Some (n, vecs, buf)
       }
     })"

text \<open>What a caller does with a vector: store bytes at its address.\<close>

definition store_at :: "nat \<Rightarrow> cell list \<Rightarrow> evchain \<Rightarrow> evchain" where
  "store_at p data c =
    (if addr c \<le> p \<and> p + length data \<le> addr c + buffer_len c
     then c\<lparr>buffer := take (p - addr c) (buffer c) @ data @ drop (p - addr c + length data) (buffer c)\<rparr>
     else c)"

definition user_store :: "nat \<Rightarrow> cell list \<Rightarrow> evbuffer \<Rightarrow> evbuffer" where
  "user_store p data buf = buf\<lparr>chains := map (store_at p data) (chains buf)\<rparr>"

section \<open>Committing\<close>

fun commit_check :: "iovec list \<Rightarrow> evchain list \<Rightarrow> bool" where
  "commit_check [] cs = True"
| "commit_check (v # vs) [] = False"
| "commit_check ((base, len) # vs) (chain # cs) =
    (if base \<noteq> CHAIN_SPACE_PTR chain \<or> len > CHAIN_SPACE_LEN chain then False else commit_check vs cs)"

text \<open>The second pass at chain \<open>i\<close>: the chains, what was added and the pointer.\<close>

fun commit_pass :: "iovec list \<Rightarrow> evchain list \<Rightarrow> nat \<Rightarrow> nat \<Rightarrow> evchain list \<times> nat \<times> nat" where
  "commit_pass ((base, len) # vs) (chain # cs) i lwd =
    (let (cs, added, lwd) = commit_pass vs cs (Suc i) (if len \<noteq> 0 then i else lwd)
     in (chain\<lparr>off := off chain + len\<rparr> # cs, len + added, lwd))"
| "commit_pass _ cs i lwd = (cs, 0, lwd)"

definition committed :: "nat \<Rightarrow> evbuffer \<Rightarrow> evbuffer" where
  "committed n buf = evbuffer_invoke_callbacks (added n buf)"

definition evbuffer_commit_space :: "evbuffer \<Rightarrow> iovec list \<Rightarrow> (int \<times> evbuffer) option" where
  "evbuffer_commit_space buf vec =
    (if freeze_end buf then Some (-1, buf)
     else if vec = [] then Some (0, buf)
     else if length vec = 1 \<and> chains buf \<noteq> [] \<and> fst (hd vec) = CHAIN_SPACE_PTR (last (chains buf)) then
       (let chain = last (chains buf); n = snd (hd vec) in
        if n > CHAIN_SPACE_LEN chain then Some (-1, buf)
        else
          let buf = set_last (chain\<lparr>off := off chain + n\<rparr>) buf;
              buf = (if n \<noteq> 0 then advance_last_with_data buf else buf)
          in Some (0, committed n buf))
     else
       (case last_with_data buf of
          None \<Rightarrow> Some (-1, buf)
        | Some c \<Rightarrow>
            let first = (if CHAIN_SPACE_LEN c = 0 then Suc (last_with_datap buf) else last_with_datap buf);
                cs = drop first (chains buf)
            in if \<not> commit_check vec cs then Some (-1, buf)
               else
                 let (cs, n, lwd) = commit_pass vec cs first (last_with_datap buf)
                 in Some (0, committed n (buf\<lparr>chains := take first (chains buf) @ cs, last_with_datap := lwd\<rparr>))))"

section \<open>File descriptors\<close>

definition EVBUFFER_MAX_READ :: int where "EVBUFFER_MAX_READ = 4096"

definition NUM_READ_IOVEC :: nat where "NUM_READ_IOVEC = 4"

text \<open>\<open>readv\<close> stores bytes into the room of one chain after the other.\<close>

fun fill_chains :: "iovec list \<Rightarrow> cell list \<Rightarrow> evchain list \<Rightarrow> evchain list" where
  "fill_chains ((base, len) # vs) data (chain # cs) =
    store_at base (take len data) chain # fill_chains vs (drop len data) cs"
| "fill_chains _ data cs = cs"

text \<open>The loop that accounts for the \<open>n\<close> bytes that were read, for as many chains as there are
  vectors.\<close>

fun account_read :: "nat \<Rightarrow> nat \<Rightarrow> evchain list \<Rightarrow> nat \<Rightarrow> nat \<Rightarrow> (evchain list \<times> nat) option" where
  "account_read 0 remaining cs i lwd = Some (cs, lwd)"
| "account_read (Suc nvecs) remaining [] i lwd = None"
| "account_read (Suc nvecs) remaining (chain # cs) i lwd =
    (let space = min (CHAIN_SPACE_LEN chain) EVBUFFER_CHAIN_MAX in
     if space < remaining then do {
       (cs, lwd) \<leftarrow> account_read nvecs (remaining - space) cs (Suc i) lwd;
       Some (chain\<lparr>off := off chain + space\<rparr> # cs, lwd)
     }
     else Some (chain\<lparr>off := off chain + remaining\<rparr> # cs, i))"

text \<open>
  \<open>evbuffer_read\<close>: \<open>avail\<close> is what the socket says is readable, and \<open>readv\<close> the bytes that come for
  the given lengths, or nothing for an error.
\<close>

definition evbuffer_read ::
    "(nat \<Rightarrow> nat option) \<Rightarrow> int \<Rightarrow> (nat list \<Rightarrow> cell list option) \<Rightarrow> evbuffer \<Rightarrow> int \<Rightarrow> (int \<times> evbuffer) option" where
  "evbuffer_read al avail readv buf howmuch =
    (if freeze_end buf then Some (-1, buf)
     else do {
       let n = (if avail \<le> 0 \<or> avail > EVBUFFER_MAX_READ then EVBUFFER_MAX_READ else avail);
       let howmuch = (if howmuch < 0 \<or> howmuch > n then n else howmuch);
       (r, buf) \<leftarrow> evbuffer_expand_fast al buf (nat howmuch) NUM_READ_IOVEC;
       if r = -1 then Some (-1, buf)
       else do {
         (nvecs, vecs, first) \<leftarrow> evbuffer_read_setup_vecs buf howmuch NUM_READ_IOVEC True;
         case readv (map snd vecs) of
           None \<Rightarrow> Some (-1, buf)
         | Some [] \<Rightarrow> Some (0, buf)
         | Some data \<Rightarrow> do {
             let cs = fill_chains vecs data (drop first (chains buf));
             (cs, lwd) \<leftarrow> account_read (nat nvecs) (length data) cs first (last_with_datap buf);
             let buf = buf\<lparr>chains := take first (chains buf) @ cs, last_with_datap := lwd\<rparr>;
             Some (int (length data), committed (length data) buf)
           }
       }
     })"

definition NUM_WRITE_IOVEC :: nat where "NUM_WRITE_IOVEC = 128"

text \<open>The vectors of \<open>evbuffer_write_iovec\<close>, as the bytes they point at.\<close>

fun write_vecs :: "nat \<Rightarrow> nat \<Rightarrow> evchain list \<Rightarrow> cell list list option" where
  "write_vecs i howmuch [] = Some []"
| "write_vecs i howmuch (chain # cs) =
    (if i < NUM_WRITE_IOVEC \<and> howmuch \<noteq> 0 then
       (if howmuch \<ge> off chain then do {
          data \<leftarrow> chain_read chain (off chain);
          vs \<leftarrow> write_vecs (Suc i) (howmuch - off chain) cs;
          Some (data # vs)
        }
        else do { data \<leftarrow> chain_read chain howmuch; Some [data] })
     else Some [])"

text \<open>\<open>evbuffer_write_atmost\<close>: \<open>writev\<close> is the result for the vectors it is given; what it accepts is
  the third part of the result.\<close>

definition evbuffer_write_atmost ::
    "(cell list list \<Rightarrow> int) \<Rightarrow> evbuffer \<Rightarrow> int \<Rightarrow> (int \<times> evbuffer \<times> cell list) option" where
  "evbuffer_write_atmost writev buf howmuch =
    (if freeze_start buf then Some (-1, buf, [])
     else do {
       let howmuch = (if howmuch < 0 \<or> nat howmuch > total_len buf then total_len buf else nat howmuch);
       vs \<leftarrow> (if howmuch > 0 then write_vecs 0 howmuch (chains buf) else Some []);
       let n = (if howmuch > 0 then (if vs = [] then 0 else writev vs) else -1);
       if n > 0 then do {
         (_, buf) \<leftarrow> evbuffer_drain buf (nat n);
         Some (n, buf, take (nat n) (concat vs))
       }
       else Some (n, buf, [])
     })"

definition evbuffer_write ::
    "(cell list list \<Rightarrow> int) \<Rightarrow> evbuffer \<Rightarrow> (int \<times> evbuffer \<times> cell list) option" where
  "evbuffer_write writev buf = evbuffer_write_atmost writev buf (-1)"

end
