(* ===== verification/EvSpaceInv.thy ===== *)
theory EvSpaceInv imports EvSpace begin

text \<open>
  Room at the end of a buffer, against its bytes: expanding changes none, and what is stored into
  reserved room and committed comes to stand behind them.
\<close>

section \<open>Expanding\<close>

definition room :: "evbuffer \<Rightarrow> nat \<Rightarrow> nat \<Rightarrow> bool" where
  "room b i n \<longleftrightarrow> i < length (chains b) \<and> n \<le> CHAIN_SPACE_LEN (chains b ! i) \<and>
    EVBUFFER_IMMUTABLE \<notin> flags (chains b ! i) \<and> last_with_datap b \<le> i \<and>
    list_all spare (drop (Suc i) (chains b))"

definition keeps_bytes :: "evbuffer \<Rightarrow> evbuffer \<Rightarrow> bool" where
  "keeps_bytes b b' \<longleftrightarrow> ev_inv b' \<and> bytes b' = bytes b \<and>
    freeze_start b' = freeze_start b \<and> freeze_end b' = freeze_end b \<and>
    n_add_for_cb b' = n_add_for_cb b \<and> n_del_for_cb b' = n_del_for_cb b"

lemma keeps_bytes_refl: "ev_inv b \<Longrightarrow> keeps_bytes b b"
  by (simp add: keeps_bytes_def)

lemma insert_spare:
  assumes inv: "ev_inv b" and c: "usable c" "spare c"
  shows "\<exists>b'. evbuffer_chain_insert b c = Some b' \<and> keeps_bytes b b' \<and>
    chains b' = takeWhile (\<lambda>c. off c \<noteq> 0) (chains b) @ [c] \<and> last_with_datap b' = last_with_datap b"
proof -
  obtain ds es where s: "chains b = ds @ es" "list_all usable ds" "list_all (\<lambda>c. off c \<noteq> 0) ds"
    "list_all usable es" "list_all spare es" "last_with_datap b = length ds - 1"
    using inv by (rule ev_invE)
  have ds: "takeWhile (\<lambda>c. off c \<noteq> 0) (chains b) = ds"
    using s(1,3,5) by (cases es) (auto simp: takeWhile_append list_all_iff spare_def)
  obtain b' where b': "evbuffer_chain_insert b c = Some b'" "chains b' = ds @ [c]"
    "last_with_datap b' = last_with_datap b" "total_len b' = size_add (total_len b) 0"
    "freeze_start b' = freeze_start b" "freeze_end b' = freeze_end b"
    "n_add_for_cb b' = n_add_for_cb b" "n_del_for_cb b' = n_del_for_cb b"
    using insert_chains [OF inv s(1,3-6), of c] c(2) by (auto simp: spare_def)
  have by_: "bytes b' = bytes b" using b'(2) c(2) bytes_split [OF s(1,5)] by (simp add: bytes_def spare_content)
  have "ev_inv b'"
    by (rule ev_invI [of b' ds "[c]"])
      (use b' s c by_ ev_inv_total [OF inv] in \<open>auto simp: size_add_fits\<close>)
  then show ?thesis using b' by_ ds by (simp add: keeps_bytes_def)
qed

lemma expand_insert_new_ok:
  assumes inv: "ev_inv b"
  shows "\<exists>r b'. expand_insert_new al b n = Some (r, b') \<and> keeps_bytes b b' \<and>
    (case r of None \<Rightarrow> b' = b \<and> evbuffer_chain_new al n = None
     | Some i \<Rightarrow> room b' i n \<and> Suc i = length (chains b') \<and> list_all (\<lambda>c. off c \<noteq> 0) (butlast (chains b')))"
proof (cases "evbuffer_chain_new al n")
  case None
  then show ?thesis using inv
    by (simp add: expand_insert_new_def evbuffer_chain_insert_new_def keeps_bytes_refl)
next
  case (Some c)
  note new = chain_new_ok [OF Some]
  obtain b' where b': "evbuffer_chain_insert b c = Some b'" "keeps_bytes b b'"
    "chains b' = takeWhile (\<lambda>c. off c \<noteq> 0) (chains b) @ [c]" "last_with_datap b' = last_with_datap b"
    using insert_spare [OF inv] new_chain_good [OF Some] by blast
  have "CHAIN_SPACE_LEN c \<ge> n" using new(3,4,5,6) space_len [OF new(1)] by simp
  moreover have "last_with_datap b' \<le> length (takeWhile (\<lambda>c. off c \<noteq> 0) (chains b))"
    using b'(4) inv by (simp add: ev_inv_def)
  moreover have "list_all (\<lambda>c. off c \<noteq> 0) (takeWhile (\<lambda>c. off c \<noteq> 0) (chains b))"
    by (auto simp: list_all_iff dest: set_takeWhileD)
  ultimately show ?thesis using Some b' new(5)
    by (simp add: expand_insert_new_def evbuffer_chain_insert_new_def room_def)
qed

lemma expand_singlechain_ok:
  assumes inv: "ev_inv b" and n: "n \<le> EVBUFFER_CHAIN_MAX"
  shows "\<exists>r b'. evbuffer_expand_singlechain al b n = Some (r, b') \<and> keeps_bytes b b' \<and>
    (case r of None \<Rightarrow> b' = b | Some i \<Rightarrow> room b' i n \<and>
       (tight b \<longrightarrow> Suc i = length (chains b') \<and> list_all (\<lambda>c. off c \<noteq> 0) (butlast (chains b'))))"
proof -
  obtain ds es where s: "chains b = ds @ es" "list_all usable ds" "list_all (\<lambda>c. off c \<noteq> 0) ds"
    "list_all usable es" "list_all spare es" "last_with_datap b = length ds - 1"
    using inv by (rule ev_invE)
  have usable: "list_all usable (chains b)" using ev_inv_total(3) [OF inv] .
  define chainp where "chainp = (case last_with_data b of
      None \<Rightarrow> last_with_datap b
    | Some c \<Rightarrow> if CHAIN_SPACE_LEN c = 0 then Suc (last_with_datap b) else last_with_datap b)"
  have cp: "chainp = last_with_datap b \<or> chainp = Suc (last_with_datap b) \<and> ds @ es \<noteq> []"
    by (auto simp: chainp_def last_with_data_def s(1) split: option.splits if_splits)
  have cp_data: "length ds \<le> Suc chainp" using cp s(6) by auto
  let ?c = "chains b ! chainp"
  note new = expand_insert_new_ok [OF inv, of al n]
  have inserted: ?thesis if "evbuffer_expand_singlechain al b n = expand_insert_new al b n"
  proof -
    obtain r b' where r: "expand_insert_new al b n = Some (r, b')" "keeps_bytes b b'"
      "case r of None \<Rightarrow> b' = b \<and> evbuffer_chain_new al n = None
       | Some i \<Rightarrow> room b' i n \<and> Suc i = length (chains b') \<and> list_all (\<lambda>c. off c \<noteq> 0) (butlast (chains b'))"
      using new by blast
    then show ?thesis unfolding that by (cases r) auto
  qed
  show ?thesis
  proof (cases "chainp < length (chains b) \<and> EVBUFFER_IMMUTABLE \<notin> flags ?c")
    case False
    then show ?thesis
      by (intro inserted) (auto simp: evbuffer_expand_singlechain_def chainp_def [symmetric] Let_def)
  next
    case True
    then have here: "chainp < length (chains b)" "EVBUFFER_IMMUTABLE \<notin> flags ?c" by auto
    have gc: "usable ?c" using usable here by (simp add: list_all_length)
    note bounds = chain_okD [OF usable_ok(1) [OF gc]]
    have sp: "CHAIN_SPACE_LEN ?c = buffer_len ?c - (misalign ?c + off ?c)"
      using space_len_bound [OF usable_ok(1) [OF gc]] .
    have behind: "list_all spare (drop (Suc chainp) (chains b))"
      using cp_data s(1,5) by (auto simp: list_all_iff dest: in_set_dropD)
    have tight_here: "Suc chainp = length (chains b)" if "tight b"
      using that here cp by (auto simp: tight_def)
    have tight_used: "list_all (\<lambda>c. off c \<noteq> 0) (butlast (chains b))" if "tight b"
      using inv that
      by (cases rule: tight_split) (auto simp: list_all_iff dest: in_set_butlastD)
    have unpinned: "\<not> CHAIN_PINNED ?c" using gc by (rule usable_ok)
    show ?thesis
    proof (cases "CHAIN_SPACE_LEN ?c \<ge> n")
      case True
      then have "evbuffer_expand_singlechain al b n = Some (Some chainp, b)"
        using here unpinned
        by (simp add: evbuffer_expand_singlechain_def chainp_def [symmetric] Let_def)
      moreover have "room b chainp n" using True here behind cp by (auto simp: room_def)
      ultimately show ?thesis using inv tight_here tight_used by (simp add: keeps_bytes_refl)
    next
      case small: False
      show ?thesis
      proof (cases "off ?c = 0")
        case True
        then show ?thesis using here unpinned small
          by (intro inserted) (simp add: evbuffer_expand_singlechain_def chainp_def [symmetric] Let_def)
      next
        case used: False
        have in_ds: "chainp < length ds" "?c \<in> set ds"
        proof -
          show "chainp < length ds"
          proof (rule ccontr)
            assume "\<not> chainp < length ds"
            then have "?c \<in> set es" using here(1) s(1) by (auto simp: nth_append)
            then show False using s(5) used by (auto simp: list_all_iff spare_def)
          qed
          then show "?c \<in> set ds" using s(1) by (simp add: nth_append)
        qed
        then have last_data: "Suc chainp = length ds" "chainp = last_with_datap b" using cp_data cp s(6) by auto
        show ?thesis
        proof (cases "evbuffer_chain_should_realign ?c n")
          case True
          obtain d where d: "evbuffer_chain_align ?c = Some d" "chain_ok d" "content d = content ?c"
            "off d = off ?c" "flags d = flags ?c" "misalign d = 0" "buffer_len d = buffer_len ?c"
            using chain_align_ok [OF usable_ok(1) [OF gc] here(2) unpinned] by blast
          let ?b = "b\<lparr>chains := (chains b)[chainp := d]\<rparr>"
          have gd: "usable d" using d(2,5) gc by (simp add: usable_def CHAIN_PINNED_def)
          have space: "CHAIN_SPACE_LEN d \<ge> n"
            using True d space_len_bound [OF d(2)] should_realign_iff [OF usable_ok(1) [OF gc]] by simp
          then have run: "evbuffer_expand_singlechain al b n = Some (Some chainp, ?b)"
            using here unpinned small used True d(1)
            by (simp add: evbuffer_expand_singlechain_def chainp_def [symmetric] Let_def)
          have "map content ((chains b)[chainp := d]) = map content (chains b)"
            using d(3) by (metis list_update_id map_update)
          then have by_: "bytes ?b = bytes b" by (simp add: bytes_def)
          have "ev_inv ?b"
          proof (rule ev_invI [of ?b "ds[chainp := d]" es])
            show "list_all usable (ds[chainp := d])" "list_all (\<lambda>c. off c \<noteq> 0) (ds[chainp := d])"
              using s(2,3) gd d(4) used by (auto simp: list_all_iff dest!: set_update_subset_insert [THEN subsetD])
          qed (use s in_ds ev_inv_total [OF inv] by_ in \<open>simp_all add: list_update_append\<close>)
          moreover have "room ?b chainp n"
            using space here behind d(5) last_data by (simp add: room_def)
          moreover have "list_all (\<lambda>c. off c \<noteq> 0) (butlast (chains ?b))" if "tight b"
          proof -
            have "chainp = length (chains b) - 1" using tight_here [OF that] by simp
            then show ?thesis using tight_used [OF that] by (simp add: butlast_list_update)
          qed
          ultimately show ?thesis using run by_ tight_here by (simp add: keeps_bytes_def)
        next
          case norealign: False
          show ?thesis
          proof (cases "CHAIN_SPACE_LEN ?c < buffer_len ?c div 8 \<or> off ?c > MAX_TO_COPY_IN_EXPAND \<or>
                n < EVBUFFER_CHAIN_MAX \<and> EVBUFFER_CHAIN_MAX - n \<ge> off ?c")
            case keep: True
            show ?thesis
            proof (cases "Suc chainp < length (chains b) \<and> CHAIN_SPACE_LEN (chains b ! Suc chainp) \<ge> n")
              case True
              then have run: "evbuffer_expand_singlechain al b n = Some (Some (Suc chainp), b)"
                using here unpinned small used norealign keep
                by (simp add: evbuffer_expand_singlechain_def chainp_def [symmetric] Let_def)
              have "chains b ! Suc chainp \<in> set es" using True last_data s(1) by (auto simp: nth_append)
              then have "EVBUFFER_IMMUTABLE \<notin> flags (chains b ! Suc chainp)"
                using s(5) by (auto simp: list_all_iff spare_def)
              moreover have "list_all spare (drop (Suc (Suc chainp)) (chains b))"
                using behind set_drop_subset_set_drop [of "Suc chainp" "Suc (Suc chainp)" "chains b"]
                by (auto simp: list_all_iff)
              ultimately have "room b (Suc chainp) n" using True last_data by (simp add: room_def)
              then show ?thesis using run inv tight_here True by (auto simp: keeps_bytes_refl)
            next
              case False
              then show ?thesis using here unpinned small used norealign keep
                by (intro inserted) (auto simp: evbuffer_expand_singlechain_def chainp_def [symmetric] Let_def)
            qed
          next
            case resize: False
            then have "EVBUFFER_CHAIN_MAX < off ?c + n" using n bounds(4) used by linarith
            moreover have "off ?c + n \<le> EV_SIZE_MAX"
              using n bounds(4) by (simp add: EVBUFFER_CHAIN_MAX_def EV_SSIZE_MAX_def EV_SIZE_MAX_def)
            moreover have "EVBUFFER_CHAIN_MAX - EVBUFFER_CHAIN_SIZE < off ?c + n" using calculation(1) by linarith
            ultimately have "evbuffer_chain_new al (size_add (off ?c) n) = None"
              by (simp add: size_add_fits chain_new_None_iff)
            then have "evbuffer_expand_singlechain al b n = Some (None, b)"
              using here unpinned small used norealign resize
              by (auto simp add: evbuffer_expand_singlechain_def chainp_def [symmetric] Let_def)
            then show ?thesis using inv by (simp add: keeps_bytes_refl)
          qed
        qed
      qed
    qed
  qed
qed

text \<open>\<open>evbuffer_expand\<close> succeeds when memory is at hand, and changes no byte.\<close>

lemma expand_ok:
  assumes "ev_inv b" "n \<le> EVBUFFER_CHAIN_MAX"
  shows "\<exists>r b'. evbuffer_expand al b n = Some (r, b') \<and> keeps_bytes b b' \<and>
    (r = 0 \<and> (\<exists>i. room b' i n) \<or> r = -1 \<and> b' = b)"
proof -
  obtain r b' where "evbuffer_expand_singlechain al b n = Some (r, b')" "keeps_bytes b b'"
    "case r of None \<Rightarrow> b' = b | Some i \<Rightarrow> room b' i n \<and>
       (tight b \<longrightarrow> Suc i = length (chains b') \<and> list_all (\<lambda>c. off c \<noteq> 0) (butlast (chains b')))"
    using expand_singlechain_ok [OF assms, of al] by blast
  then show ?thesis by (cases r) (auto simp: evbuffer_expand_def)
qed

text \<open>A request whose sum with the data of the chain overflows \<open>size_t\<close> is not refused: it ends in a
  failed assertion or in a copy past the end of the new memory.\<close>

lemma expand_overflow:
  assumes inv: "ev_inv b" and ch: "chains b = [c]" and c: "off c \<noteq> 0" "off c \<le> MAX_TO_COPY_IN_EXPAND"
      "EVBUFFER_IMMUTABLE \<notin> flags c" "CHAIN_SPACE_LEN c \<noteq> 0" "CHAIN_SPACE_LEN c \<ge> buffer_len c div 8"
    and n: "EV_SIZE_MAX < off c + n" "n \<le> EV_SIZE_MAX" and mem: "\<forall>k. al k \<noteq> None"
  shows "evbuffer_expand al b n = None"
proof -
  have gc: "usable c" using ev_inv_total(3) [OF inv] ch by simp
  note bounds = chain_okD [OF usable_ok(1) [OF gc]]
  have lwd: "last_with_data b = Some c" "last_with_datap b = 0"
    using inv ch c(1) by (auto simp: ev_inv_def last_with_data_def)
  have sp: "CHAIN_SPACE_LEN c \<le> buffer_len c" using space_len_bound [OF usable_ok(1) [OF gc]] by simp
  have big: "EVBUFFER_CHAIN_MAX < n"
    using n(1) bounds(4) by (simp add: EVBUFFER_CHAIN_MAX_def EV_SSIZE_MAX_def EV_SIZE_MAX_def)
  have norealign: "\<not> evbuffer_chain_should_realign c n"
    using big bounds(2) by (auto simp: should_realign_iff [OF usable_ok(1) [OF gc]])
  have sum: "size_add (off c) n < off c"
  proof -
    have "(off c + n) mod 2 ^ 64 = (off c + n - 2 ^ 64) mod 2 ^ 64"
      using n(1) by (intro le_mod_geq) (simp add: EV_SIZE_MAX_def)
    also have "\<dots> \<le> off c + n - 2 ^ 64" by (rule mod_less_eq_dividend)
    finally show ?thesis using n c(1) by (simp add: size_add_def EV_SIZE_MAX_def)
  qed
  then have "size_add (off c) n \<le> EVBUFFER_CHAIN_MAX - EVBUFFER_CHAIN_SIZE"
    using c(2) by (simp add: MAX_TO_COPY_IN_EXPAND_def EVBUFFER_CHAIN_MAX_def EV_SSIZE_MAX_def EVBUFFER_CHAIN_SIZE_def)
  then have "evbuffer_chain_new al (size_add (off c) n) \<noteq> None"
    unfolding chain_new_None_iff using mem by (meson not_le)
  then obtain t where t: "evbuffer_chain_new al (size_add (off c) n) = Some t" by blast
  note new = chain_new_ok [OF t]
  have "\<not> CHAIN_SPACE_LEN (t\<lparr>off := off c, buffer := m\<rparr>) \<ge> n" if "length m = buffer_len t" "off c \<le> buffer_len t" for m
  proof -
    have "chain_ok (t\<lparr>off := off c, buffer := m\<rparr>)" using that new by (simp add: chain_ok_def)
    from space_len_bound [OF this] show ?thesis using big that(1) chain_okD(2) [OF new(1)] by simp
  qed
  note no_room = this
  have tests: "\<not> n \<le> CHAIN_SPACE_LEN c" "\<not> CHAIN_SPACE_LEN c < buffer_len c div 8"
    "\<not> MAX_TO_COPY_IN_EXPAND < off c" "\<not> n < EVBUFFER_CHAIN_MAX"
    using sp big bounds(2) c by simp_all
  have "evbuffer_expand_singlechain al b n = do {
      m \<leftarrow> memcpy 0 (content c) (buffer t);
      check (n \<le> CHAIN_SPACE_LEN (t\<lparr>off := off c, buffer := m\<rparr>));
      Some (Some 0, evbuffer_chain_free c (b\<lparr>chains := [t\<lparr>off := off c, buffer := m\<rparr>]\<rparr>))
    }"
    unfolding evbuffer_expand_singlechain_def lwd ch
    using c norealign t tests usable_ok [OF gc] by (simp add: Let_def chain_read_content)
  moreover have "length m = buffer_len t \<and> off c \<le> buffer_len t"
    if "memcpy 0 (content c) (buffer t) = Some m" for m
    using that gc by (auto simp: memcpy_def usable_content split: if_splits)
  ultimately show ?thesis using no_room
    by (cases "memcpy 0 (content c) (buffer t)") (auto simp: evbuffer_expand_def)
qed

section \<open>Reserving and committing\<close>

lemma reserve_one:
  assumes inv: "ev_inv b" and sz: "0 \<le> sz" "nat sz \<le> EVBUFFER_CHAIN_MAX" and thaw: "\<not> freeze_end b"
  shows "\<exists>r vec b'. evbuffer_reserve_space al b sz 1 = Some (r, vec, b') \<and> keeps_bytes b b' \<and>
    (r = -1 \<and> b' = b \<or>
     r = 1 \<and> (\<exists>i. room b' i (nat sz) \<and>
       (tight b \<longrightarrow> Suc i = length (chains b') \<and> list_all (\<lambda>c. off c \<noteq> 0) (butlast (chains b'))) \<and>
       vec = [(CHAIN_SPACE_PTR (chains b' ! i), CHAIN_SPACE_LEN (chains b' ! i))]))"
proof -
  have ts: "to_size sz = nat sz"
  proof -
    have "sz < 2 ^ 64" using sz by (simp add: EVBUFFER_CHAIN_MAX_def EV_SSIZE_MAX_def)
    then show ?thesis using sz(1) by (simp add: to_size_def)
  qed
  obtain r b' where "evbuffer_expand_singlechain al b (nat sz) = Some (r, b')" "keeps_bytes b b'"
    "case r of None \<Rightarrow> b' = b | Some i \<Rightarrow> room b' i (nat sz) \<and>
       (tight b \<longrightarrow> Suc i = length (chains b') \<and> list_all (\<lambda>c. off c \<noteq> 0) (butlast (chains b')))"
    using expand_singlechain_ok [OF inv sz(2), of al] by blast
  then show ?thesis using thaw ts
  proof (cases r)
    case (Some i)
    let ?vec = "[(CHAIN_SPACE_PTR (chains b' ! i), CHAIN_SPACE_LEN (chains b' ! i))]"
    have "evbuffer_reserve_space al b sz 1 = Some (1, ?vec, b')"
      using \<open>evbuffer_expand_singlechain al b (nat sz) = Some (r, b')\<close> \<open>case r of None \<Rightarrow> _ | Some i \<Rightarrow> _\<close>
        Some thaw ts by (simp add: evbuffer_reserve_space_def room_def Let_def)
    then show ?thesis using \<open>keeps_bytes b b'\<close> \<open>case r of None \<Rightarrow> _ | Some i \<Rightarrow> _\<close> Some by auto
  qed (simp add: evbuffer_reserve_space_def)
qed

text \<open>Bytes are stored at the end of the last chain, and nowhere else.\<close>

lemma store_elsewhere: "\<not> (addr c \<le> p \<and> p + length data \<le> addr c + buffer_len c) \<Longrightarrow> store_at p data c = c"
  by (auto simp: store_at_def)

lemma store_space:
  assumes "usable c" "length data \<le> CHAIN_SPACE_LEN c"
  shows "store_at (CHAIN_SPACE_PTR c) data c = c\<lparr>buffer := take (misalign c + off c) (buffer c) @ data @
      drop (misalign c + off c + length data) (buffer c)\<rparr>"
  using assms space_len_bound [OF usable_ok(1) [OF assms(1)]] chain_okD(1) [OF usable_ok(1) [OF assms(1)]]
  by (auto simp: store_at_def CHAIN_SPACE_PTR_def add.assoc)

lemma stored_append:
  assumes "usable c" "length data \<le> CHAIN_SPACE_LEN c" "EVBUFFER_IMMUTABLE \<notin> flags c"
  shows "usable ((store_at (CHAIN_SPACE_PTR c) data c)\<lparr>off := off c + length data\<rparr>)"
    "content ((store_at (CHAIN_SPACE_PTR c) data c)\<lparr>off := off c + length data\<rparr>) = content c @ data"
    "usable (store_at (CHAIN_SPACE_PTR c) data c)" "content (store_at (CHAIN_SPACE_PTR c) data c) = content c"
    "CHAIN_SPACE_LEN (store_at (CHAIN_SPACE_PTR c) data c) = CHAIN_SPACE_LEN c"
    "CHAIN_SPACE_PTR (store_at (CHAIN_SPACE_PTR c) data c) = CHAIN_SPACE_PTR c"
    "off (store_at (CHAIN_SPACE_PTR c) data c) = off c"
    "flags (store_at (CHAIN_SPACE_PTR c) data c) = flags c"
proof -
  have ok: "chain_ok c" using assms(1) by (rule usable_ok)
  have fits: "length data \<le> buffer_len c - (misalign c + off c)" using assms(2) space_len_bound [OF ok] by simp
  have sp: "misalign c + off c + length data \<le> buffer_len c" using fits chain_okD(1) [OF ok] by linarith
  obtain c' where c': "chain_append c data = Some c'" "chain_ok c'" "content c' = content c @ data"
    "flags c' = flags c"
    using chain_append_ok [OF ok fits] assms(3) by metis
  have eq: "c' = (store_at (CHAIN_SPACE_PTR c) data c)\<lparr>off := off c + length data\<rparr>"
    using c'(1) sp unfolding store_space [OF assms(1,2)] by (simp add: chain_append_def memcpy_fits)
  then show "usable ((store_at (CHAIN_SPACE_PTR c) data c)\<lparr>off := off c + length data\<rparr>)"
    "content ((store_at (CHAIN_SPACE_PTR c) data c)\<lparr>off := off c + length data\<rparr>) = content c @ data"
    using c' assms(1) by (simp_all add: usable_def CHAIN_PINNED_def)
  let ?m = "take (misalign c + off c) (buffer c) @ data @ drop (misalign c + off c + length data) (buffer c)"
  have lm: "length ?m = buffer_len c" using sp by simp
  show "usable (store_at (CHAIN_SPACE_PTR c) data c)"
    using assms(1,3) lm ok unfolding store_space [OF assms(1,2)]
    by (simp add: usable_def CHAIN_PINNED_def chain_ok_def)
  have "length (take (misalign c + off c) (buffer c)) = misalign c + off c" using sp by simp
  then have "drop (misalign c) ?m = content c @ data @ drop (misalign c + off c + length data) (buffer c)"
    by (simp add: content_def drop_take)
  then show "content (store_at (CHAIN_SPACE_PTR c) data c) = content c"
    using length_content [OF ok] unfolding store_space [OF assms(1,2)] by (simp add: content_def)
qed (simp_all add: store_at_def CHAIN_SPACE_LEN_def CHAIN_SPACE_PTR_def)

lemma commit_last:
  assumes inv: "ev_inv b" and ne: "chains b \<noteq> []" and used: "list_all (\<lambda>c. off c \<noteq> 0) (butlast (chains b))"
    and c: "length data \<le> CHAIN_SPACE_LEN (last (chains b))" "EVBUFFER_IMMUTABLE \<notin> flags (last (chains b))"
      "data \<noteq> []"
    and alone: "\<forall>d \<in> set (butlast (chains b)). \<not> (addr d \<le> CHAIN_SPACE_PTR (last (chains b)) \<and>
        CHAIN_SPACE_PTR (last (chains b)) + length data \<le> addr d + buffer_len d)"
    and fits: "length (bytes b) + length data \<le> EV_SIZE_MAX" and thaw: "\<not> freeze_end b"
  shows "\<exists>b'. evbuffer_commit_space (user_store (CHAIN_SPACE_PTR (last (chains b))) data b)
      [(CHAIN_SPACE_PTR (last (chains b)), length data)] = Some (0, b') \<and>
    ev_inv b' \<and> tight b' \<and> bytes b' = bytes b @ data"
proof -
  define c where "c = last (chains b)"
  define cs where "cs = butlast (chains b)"
  have ch: "chains b = cs @ [c]" using ne by (simp add: c_def cs_def)
  have usable: "usable c" "list_all usable cs" using ev_inv_total(3) [OF inv] ch by simp_all
  let ?s = "store_at (CHAIN_SPACE_PTR c) data c"
  let ?s' = "?s\<lparr>off := off c + length data\<rparr>"
  note st = stored_append [OF usable(1), of data] 
  note c' = c [folded c_def]
  have "map (store_at (CHAIN_SPACE_PTR c) data) cs = cs"
    using alone by (intro map_idI store_elsewhere) (simp add: c_def cs_def)
  then have us: "chains (user_store (CHAIN_SPACE_PTR c) data b) = cs @ [?s]"
    using ch by (simp add: user_store_def)
  let ?b = "set_last ?s' (user_store (CHAIN_SPACE_PTR c) data b)"
  have chb: "chains ?b = cs @ [?s']" using us by simp
  have lwd0: "last_with_datap b = (if off c \<noteq> 0 then length cs else length cs - 1)"
    using inv ch used by (simp add: ev_inv_def cs_def [symmetric] takeWhile_append list_all_iff)
  have "advance_from (drop (last_with_datap b) (cs @ [?s'])) (last_with_datap b) = length cs"
  proof (cases "off c = 0 \<and> cs \<noteq> []")
    case True
    then obtain xs x where "cs = xs @ [x]" by (cases cs rule: rev_cases) auto
    then show ?thesis using True lwd0 c'(3) by simp
  next
    case False
    then show ?thesis using lwd0 by auto
  qed
  then have lwd: "last_with_datap (advance_last_with_data ?b) = length cs"
    using chb by (simp add: advance_last_with_data_def user_store_def)
  let ?b' = "committed (length data) (advance_last_with_data ?b)"
  have run: "evbuffer_commit_space (user_store (CHAIN_SPACE_PTR c) data b) [(CHAIN_SPACE_PTR c, length data)]
      = Some (0, ?b')"
    using thaw us st(5,6,7) [OF c'(1,2)] c'
    by (simp add: evbuffer_commit_space_def user_store_def Let_def)
  have view: "chains ?b' = cs @ [?s']" "last_with_datap ?b' = length cs"
    "total_len ?b' = size_add (total_len b) (length data)"
    using chb lwd by (simp_all add: committed_def advance_last_with_data_def user_store_def)
  have by_: "bytes ?b' = bytes b @ data"
    using view(1) ch st(2) [OF c'(1,2)] by (simp add: bytes_def)
  have "ev_inv ?b'"
  proof (rule ev_invI [of ?b' "cs @ [?s']" "[]"])
    show "list_all usable (cs @ [?s'])" using usable(2) st(1) [OF c'(1,2)] by simp
    show "list_all (\<lambda>c. off c \<noteq> 0) (cs @ [?s'])" using used c'(3) by (simp add: cs_def)
    show "total_len ?b' = length (bytes ?b')" "total_len ?b' \<le> EV_SIZE_MAX"
      using view(3) by_ fits ev_inv_total(1) [OF inv] by (simp_all add: size_add_fits)
  qed (use view in simp_all)
  moreover have "tight ?b'" using view by (simp add: tight_def)
  ultimately show ?thesis using run by_ by (simp add: c_def)
qed

end
