(* ===== verification/EvIO.thy ===== *)
theory EvIO imports EvSpaceInv begin

text \<open>
  Buffers and file descriptors: \<open>evbuffer_read\<close> appends exactly the bytes the kernel delivers, and
  \<open>evbuffer_write_atmost\<close> sends a prefix of the buffer and drains what was accepted.
\<close>

section \<open>Room in several chains\<close>

definition first_space :: "evbuffer \<Rightarrow> nat" where
  "first_space b = (if CHAIN_SPACE_LEN (chains b ! last_with_datap b) = 0 then Suc (last_with_datap b)
                    else last_with_datap b)"

text \<open>The first \<open>k \<le> n\<close> chains that have room have room for \<open>h\<close> bytes.\<close>

definition ready :: "evbuffer \<Rightarrow> nat \<Rightarrow> nat \<Rightarrow> bool" where
  "ready b n h \<longleftrightarrow> last_with_datap b < length (chains b) \<and>
    list_all (\<lambda>c. off c \<noteq> 0) (take (first_space b) (chains b)) \<and>
    (\<exists>k \<le> n. k \<le> length (drop (first_space b) (chains b)) \<and>
      list_all (\<lambda>c. CHAIN_SPACE_LEN c \<noteq> 0) (take k (drop (first_space b) (chains b))) \<and>
      h \<le> sum_list (map CHAIN_SPACE_LEN (take k (drop (first_space b) (chains b)))))"

definition reset :: "evchain \<Rightarrow> evchain" where
  "reset c = c\<lparr>misalign := 0\<rparr>"

lemma reset_spare:
  assumes "usable c" "spare c"
  shows "usable (reset c)" "spare (reset c)" "content (reset c) = []"
    "CHAIN_SPACE_LEN (reset c) = buffer_len c" "buffer_len c \<noteq> 0" "c\<lparr>misalign := 0\<rparr> = reset c"
proof -
  show g: "usable (reset c)" "spare (reset c)"
    using assms by (auto simp: reset_def usable_def spare_def chain_ok_def CHAIN_PINNED_def)
  then show "content (reset c) = []" by (simp add: spare_content)
  show "CHAIN_SPACE_LEN (reset c) = buffer_len c"
    using space_len_bound [OF usable_ok(1) [OF g(1)]] assms(2) by (simp add: reset_def spare_def)
qed (use assms in \<open>auto simp: spare_def reset_def\<close>)

lemma scan_spare:
  assumes "list_all usable es" "list_all spare es" "used < n" "avail < datlen \<or> es \<noteq> []"
  shows "\<exists>j enough. fast_scan datlen n at_lwd avail used es =
      Some (map reset (take j es) @ drop j es, avail + sum_list (map buffer_len (take j es)), used + j, enough) \<and>
    j \<le> length es \<and> used + j \<le> n \<and>
    (enough \<longrightarrow> datlen \<le> avail + sum_list (map buffer_len (take j es))) \<and>
    (\<not> enough \<longrightarrow> avail + sum_list (map buffer_len (take j es)) < datlen \<and> (used + j = n \<or> j = length es)) \<and>
    (es \<noteq> [] \<longrightarrow> 0 < j)"
  using assms
proof (induction es arbitrary: avail used at_lwd)
  case Nil
  then show ?case by (intro exI [of _ 0] exI [of _ False]) simp
next
  case (Cons c es)
  have off: "off c = 0" using Cons.prems(2) by (simp add: spare_def)
  note r = reset_spare(6) [of c]
  have rc: "c\<lparr>misalign := 0\<rparr> = reset c" by (simp add: reset_def)
  consider "datlen \<le> avail + buffer_len c" | "avail + buffer_len c < datlen" "Suc used = n"
    | "avail + buffer_len c < datlen" "Suc used < n" using Cons.prems(3) by linarith
  then show ?case
  proof cases
    case 1
    then show ?thesis using off rc Cons.prems(3) by (intro exI [of _ 1] exI [of _ True]) simp
  next
    case 2
    then show ?thesis using off rc by (intro exI [of _ 1] exI [of _ False]) simp
  next
    case 3
    obtain j enough where IH: "fast_scan datlen n False (avail + buffer_len c) (Suc used) es =
        Some (map reset (take j es) @ drop j es, avail + buffer_len c + sum_list (map buffer_len (take j es)),
          Suc used + j, enough)"
      "j \<le> length es" "Suc used + j \<le> n"
      "enough \<longrightarrow> datlen \<le> avail + buffer_len c + sum_list (map buffer_len (take j es))"
      "\<not> enough \<longrightarrow> avail + buffer_len c + sum_list (map buffer_len (take j es)) < datlen \<and>
        (Suc used + j = n \<or> j = length es)"
      using Cons.IH [of "Suc used" "avail + buffer_len c" False] Cons.prems 3 by auto
    then show ?thesis using off rc 3
      by (intro exI [of _ "Suc j"] exI [of _ enough]) (simp add: add.assoc)
  qed
qed

text \<open>What the scan of the whole buffer leaves.\<close>

lemma respared:
  assumes inv: "ev_inv b" and s: "chains b = ds @ es" "list_all usable ds" "list_all (\<lambda>c. off c \<noteq> 0) ds"
      "list_all spare es" "last_with_datap b = length ds - 1"
    and b': "chains b' = ds @ fs" "list_all usable fs" "list_all spare fs"
      "last_with_datap b' = last_with_datap b" "total_len b' = total_len b"
      "freeze_start b' = freeze_start b" "freeze_end b' = freeze_end b"
      "n_add_for_cb b' = n_add_for_cb b" "n_del_for_cb b' = n_del_for_cb b"
  shows "keeps_bytes b b'"
proof -
  have by_: "bytes b' = bytes b"
    using bytes_split [OF b'(1,3)] bytes_split [OF s(1,4)] by simp
  have "ev_inv b'"
    by (rule ev_invI [of b' ds fs]) (use b' s by_ ev_inv_total [OF inv] in simp_all)
  then show ?thesis using b' by_ by (simp add: keeps_bytes_def)
qed

lemma scanned_spare:
  assumes "list_all usable es" "list_all spare es"
  shows "list_all usable (map reset (take j es) @ drop j es)" "list_all spare (map reset (take j es) @ drop j es)"
  using assms by (auto simp: list_all_iff dest: in_set_takeD in_set_dropD intro!: reset_spare)

lemma readyI:
  assumes "chains b = ds @ es" "list_all (\<lambda>c. off c \<noteq> 0) ds" "last_with_datap b = length ds - 1"
    and es: "k \<le> length es" "list_all (\<lambda>c. CHAIN_SPACE_LEN c \<noteq> 0) (take k es)"
    and ne: "ds = [] \<longrightarrow> 0 < k"
    and n: "k + (if ds \<noteq> [] \<and> CHAIN_SPACE_LEN (last ds) \<noteq> 0 then 1 else 0) \<le> n"
    and h: "h \<le> (if ds = [] then 0 else CHAIN_SPACE_LEN (last ds)) + sum_list (map CHAIN_SPACE_LEN (take k es))"
  shows "ready b n h"
proof (cases ds rule: rev_cases)
  case Nil
  then obtain e es' where e: "es = e # es'" using es ne by (cases es) auto
  then have "CHAIN_SPACE_LEN e \<noteq> 0" using es(2) ne Nil by (cases k) auto
  then have fs: "first_space b = 0" using assms(1,3) Nil e by (simp add: first_space_def)
  show ?thesis unfolding ready_def fs
    using assms(1,3) Nil es n h e by (intro conjI exI [of _ k]) auto
next
  case (snoc ds' d)
  show ?thesis
  proof (cases "CHAIN_SPACE_LEN d = 0")
    case True
    then have fs: "first_space b = length ds" using assms(1,3) snoc by (simp add: first_space_def nth_append)
    show ?thesis unfolding ready_def fs
      using assms(1-3) snoc es n h True by (intro conjI exI [of _ k]) auto
  next
    case False
    then have fs: "first_space b = length ds'" using assms(1,3) snoc by (simp add: first_space_def nth_append)
    show ?thesis unfolding ready_def fs
      using assms(1-3) snoc es n h False by (intro conjI exI [of _ "Suc k"]) auto
  qed
qed

lemma scan_all:
  assumes inv: "ev_inv b" and s: "chains b = ds @ es" "list_all usable ds" "list_all (\<lambda>c. off c \<noteq> 0) ds"
      "list_all usable es" "list_all spare es" "last_with_datap b = length ds - 1"
    and ne: "chains b \<noteq> []" and n: "2 \<le> n"
  shows "\<exists>j enough avail used. fast_scan datlen n True 0 0 (drop (last_with_datap b) (chains b)) =
      Some (drop (last_with_datap b) (ds @ map reset (take j es) @ drop j es), avail, used, enough) \<and>
    j \<le> length es \<and>
    avail = (if ds = [] then 0 else CHAIN_SPACE_LEN (last ds)) + sum_list (map buffer_len (take j es)) \<and>
    used = (if ds \<noteq> [] \<and> CHAIN_SPACE_LEN (last ds) \<noteq> 0 then 1 else 0) + j \<and> used \<le> n \<and>
    (ds = [] \<longrightarrow> 0 < j) \<and> (enough \<longrightarrow> datlen \<le> avail) \<and>
    (\<not> enough \<longrightarrow> avail < datlen \<and> (used = n \<or> j = length es))"
proof (cases ds rule: rev_cases)
  case Nil
  then have "es \<noteq> []" using ne s(1) by simp
  then obtain j enough where "fast_scan datlen n True 0 0 es =
      Some (map reset (take j es) @ drop j es, sum_list (map buffer_len (take j es)), j, enough)"
    "j \<le> length es" "j \<le> n" "enough \<longrightarrow> datlen \<le> sum_list (map buffer_len (take j es))"
    "\<not> enough \<longrightarrow> sum_list (map buffer_len (take j es)) < datlen \<and> (j = n \<or> j = length es)" "0 < j"
    using scan_spare [OF s(4,5), of 0 n 0 datlen True] n by auto
  then show ?thesis using Nil s(1,6)
    by (intro exI [of _ j] exI [of _ enough] exI [of _ "sum_list (map buffer_len (take j es))"]) simp
next
  case (snoc ds' d)
  define av where "av = CHAIN_SPACE_LEN d"
  define us where "us = (if av \<noteq> 0 then 1 else 0 :: nat)"
  have drop: "drop (last_with_datap b) (ds @ xs) = d # xs" for xs using snoc s(6) by simp
  have offd: "off d \<noteq> 0" using s(3) snoc by simp
  show ?thesis
  proof (cases "datlen \<le> av")
    case True
    then have "fast_scan datlen n True 0 0 (d # es) = Some (d # es, av, us, True)"
      using offd by (simp add: Let_def av_def us_def)
    then show ?thesis using True drop snoc n s(1)
      by (intro exI [of _ 0] exI [of _ True] exI [of _ av] exI [of _ us]) (simp add: av_def us_def)
  next
    case False
    have "us < n" using n by (simp add: us_def)
    then obtain j enough where IH: "fast_scan datlen n False av us es =
        Some (map reset (take j es) @ drop j es, av + sum_list (map buffer_len (take j es)), us + j, enough)"
      "j \<le> length es" "us + j \<le> n" "enough \<longrightarrow> datlen \<le> av + sum_list (map buffer_len (take j es))"
      "\<not> enough \<longrightarrow> av + sum_list (map buffer_len (take j es)) < datlen \<and> (us + j = n \<or> j = length es)"
      using scan_spare [OF s(4,5), of us n av datlen False] False by auto
    have "fast_scan datlen n True 0 0 (d # es) =
        Some (d # map reset (take j es) @ drop j es, av + sum_list (map buffer_len (take j es)), us + j, enough)"
      using offd False IH(1) n by (auto simp: Let_def av_def us_def)
    then show ?thesis using IH(2-5) drop snoc s(1)
      by (intro exI [of _ j] exI [of _ enough] exI [of _ "av + sum_list (map buffer_len (take j es))"]
          exI [of _ "us + j"]) (simp add: av_def us_def)
  qed
qed

lemma sum_reset: "list_all usable es \<Longrightarrow> list_all spare es \<Longrightarrow>
    sum_list (map CHAIN_SPACE_LEN (map reset es)) = sum_list (map buffer_len es) \<and>
    list_all (\<lambda>c. CHAIN_SPACE_LEN c \<noteq> 0) (map reset es)"
  by (induction es) (auto simp: reset_spare dest: reset_spare(5))

lemma new_space: "evbuffer_chain_new al n = Some c \<Longrightarrow> n \<le> CHAIN_SPACE_LEN c \<and> CHAIN_SPACE_LEN c \<noteq> 0"
  using chain_new_ok [of al n c] space_len [of c] by auto

lemma expand_fast_ok:
  assumes inv: "ev_inv b" and n: "2 \<le> n"
  shows "\<exists>r b'. evbuffer_expand_fast al b datlen n = Some (r, b') \<and> keeps_bytes b b' \<and>
    (r = -1 \<or> r = 0 \<and> ready b' n datlen)"
proof -
  obtain ds es where s: "chains b = ds @ es" "list_all usable ds" "list_all (\<lambda>c. off c \<noteq> 0) ds"
    "list_all usable es" "list_all spare es" "last_with_datap b = length ds - 1"
    using inv by (rule ev_invE)
  show ?thesis
  proof (cases "chains b = [] \<or> EVBUFFER_IMMUTABLE \<in> flags (last (chains b))")
    case True
    then have es: "es = []" using s(1,5) by (cases es rule: rev_cases) (auto simp: spare_def)
    show ?thesis
    proof (cases "evbuffer_chain_new al datlen")
      case None
      then show ?thesis using True n inv by (auto simp: evbuffer_expand_fast_def keeps_bytes_refl)
    next
      case (Some c)
      obtain b' where b': "evbuffer_chain_insert b c = Some b'" "keeps_bytes b b'"
        "chains b' = takeWhile (\<lambda>c. off c \<noteq> 0) (chains b) @ [c]" "last_with_datap b' = last_with_datap b"
        using insert_spare [OF inv] new_chain_good [OF Some] by blast
      have ch: "chains b' = ds @ [c]" using b'(3) s(1,3) es by (simp add: takeWhile_eq_all_conv list_all_iff)
      have full: "CHAIN_SPACE_LEN (last ds) = 0" if "ds \<noteq> []"
        using True that s(1) es by (simp add: CHAIN_SPACE_LEN_def)
      have "ready b' n datlen"
        by (rule readyI [OF ch s(3), of 1]) (use b'(4) s(6) new_space [OF Some] n full in auto)
      then show ?thesis using True n Some b'(1,2) by (auto simp: evbuffer_expand_fast_def)
    qed
  next
    case False
    then have ne: "chains b \<noteq> []" by simp
    obtain j enough avail used where S: "fast_scan datlen n True 0 0 (drop (last_with_datap b) (chains b)) =
        Some (drop (last_with_datap b) (ds @ map reset (take j es) @ drop j es), avail, used, enough)"
      "j \<le> length es"
      "avail = (if ds = [] then 0 else CHAIN_SPACE_LEN (last ds)) + sum_list (map buffer_len (take j es))"
      "used = (if ds \<noteq> [] \<and> CHAIN_SPACE_LEN (last ds) \<noteq> 0 then 1 else 0) + j" "used \<le> n"
      "ds = [] \<longrightarrow> 0 < j" "enough \<longrightarrow> datlen \<le> avail"
      "\<not> enough \<longrightarrow> avail < datlen \<and> (used = n \<or> j = length es)"
      using scan_all [OF inv s ne n, of datlen] by blast
    let ?es = "map reset (take j es) @ drop j es"
    let ?b = "b\<lparr>chains := ds @ ?es\<rparr>"
    have "take (last_with_datap b) (chains b) = take (last_with_datap b) (ds @ ?es)"
      using s(1,6) by simp
    then have whole: "take (last_with_datap b) (chains b) @ drop (last_with_datap b) (ds @ ?es) = ds @ ?es"
      by (simp only: append_take_drop_id)
    have run: "evbuffer_expand_fast al b datlen n =
        (if enough then Some (0, ?b)
         else if used < n then
           (case evbuffer_chain_new al (datlen - avail) of
              None \<Rightarrow> Some (-1, ?b) | Some tmp \<Rightarrow> Some (0, ?b\<lparr>chains := chains ?b @ [tmp]\<rparr>))
         else nuke_empty al ?b datlen)"
      using False n S(1) whole
      by (cases "evbuffer_chain_new al (datlen - avail)")
        (simp_all add: evbuffer_expand_fast_def Let_def del: take_append drop_append)
    have good_j: "list_all usable (take j es)" "list_all spare (take j es)"
      using s(4,5) by (auto simp: list_all_iff dest: in_set_takeD)
    note sums = sum_reset [OF good_j]
    note scd = scanned_spare [OF s(4,5), of j]
    have keep: "keeps_bytes b ?b" by (rule respared [OF inv s(1-3,5,6) _ scd]) simp_all
    have "\<exists>r b'. nuke_empty al ?b datlen = Some (r, b') \<and> keeps_bytes b b' \<and> (r = -1 \<or> r = 0 \<and> ready b' n datlen)"
      if not_enough: "\<not> enough"
    proof (cases "ds = []")
      case True
      then obtain e es' where e: "es = e # es'" using ne s(1) by (cases es) auto
      have emp: "evbuffer_chains_all_empty ?es" by (rule spare_all_empty [OF scd(2)])
      have hd: "last_with_data ?b = Some (?es ! 0)" "off (?es ! 0) = 0"
        using True e S(6) s(5,6) by (auto simp: last_with_data_def nth_append reset_def spare_def nth_Cons')
      have bytes0: "bytes b = []" using True bytes_split [OF s(1,5)] by simp
      let ?f = "evbuffer_free_all_chains ?es ?b"
      show ?thesis
      proof (cases "evbuffer_chain_new al (datlen - 0)")
        case None
        then have "nuke_empty al ?b datlen = Some (-1, ZERO_CHAIN ?f)"
          using True hd emp s(6) by (simp add: nuke_empty_def Let_def)
        moreover have "keeps_bytes b (ZERO_CHAIN ?f)"
          using bytes0 by (simp add: keeps_bytes_def ZERO_CHAIN_def bytes_def ev_inv_def)
        ultimately show ?thesis by blast
      next
        case (Some tmp)
        let ?t = "?f\<lparr>chains := [tmp]\<rparr>"
        have "nuke_empty al ?b datlen = Some (0, ?t)"
          using True hd emp s(6) Some by (simp add: nuke_empty_def Let_def)
        moreover have "keeps_bytes b ?t"
          by (rule respared [OF inv s(1-3,5,6), of _ "[tmp]"])
            (use new_chain_good [OF Some] True in simp_all)
        moreover have "ready ?t n datlen"
          by (rule readyI [of ?t "[]" "[tmp]" 1]) (use True s(6) new_space [OF Some] n in auto)
        ultimately show ?thesis by blast
      qed
    next
      case False
      then have lds: "last ds \<in> set ds" "off (last ds) \<noteq> 0" using s(3) by (simp_all add: list_all_iff)
      have emp: "evbuffer_chains_all_empty ?es" by (rule spare_all_empty [OF scd(2)])
      have hd: "last_with_data ?b = Some (last ds)"
        using False s(6) by (cases ds rule: rev_cases) (simp_all add: last_with_data_def nth_append)
      have Suc: "Suc (last_with_datap b) = length ds" using False s(6) by simp
      have av: "CHAIN_SPACE_LEN (last ds) \<le> datlen" using S(3,8) not_enough False by simp
      let ?f = "evbuffer_free_all_chains ?es ?b"
      show ?thesis
      proof (cases "evbuffer_chain_new al (datlen - CHAIN_SPACE_LEN (last ds))")
        case None
        then have "nuke_empty al ?b datlen = Some (-1, ?f\<lparr>chains := ds\<rparr>)"
          using hd lds emp av Suc by (simp add: nuke_empty_def Let_def)
        moreover have "keeps_bytes b (?f\<lparr>chains := ds\<rparr>)"
          by (rule respared [OF inv s(1-3,5,6), of _ "[]"]) simp_all
        ultimately show ?thesis by blast
      next
        case (Some tmp)
        let ?t = "?f\<lparr>chains := ds @ [tmp]\<rparr>"
        have "nuke_empty al ?b datlen = Some (0, ?t)"
          using hd lds emp av Suc Some by (simp add: nuke_empty_def Let_def)
        moreover have "keeps_bytes b ?t"
          by (rule respared [OF inv s(1-3,5,6), of _ "[tmp]"]) (use new_chain_good [OF Some] in simp_all)
        moreover have "ready ?t n datlen"
          by (rule readyI [of ?t ds "[tmp]" 1]) (use False s new_space [OF Some] n av in auto)
        ultimately show ?thesis by blast
      qed
    qed
    moreover have "ready ?b n datlen" if enough
      by (rule readyI [of ?b ds ?es j]) (use that S s sums in auto)
    moreover have "keeps_bytes b (?b\<lparr>chains := chains ?b @ [tmp]\<rparr>) \<and> ready (?b\<lparr>chains := chains ?b @ [tmp]\<rparr>) n datlen"
      if tmp: "evbuffer_chain_new al (datlen - avail) = Some tmp" and "\<not> enough" "used < n" for tmp
    proof
      show "keeps_bytes b (?b\<lparr>chains := chains ?b @ [tmp]\<rparr>)"
        by (rule respared [OF inv s(1-3,5,6), of _ "?es @ [tmp]"])
          (use new_chain_good [OF tmp] scd in \<open>simp_all only: list_all_append, simp_all\<close>)
      have j: "j = length es" using S(8) that by simp
      show "ready (?b\<lparr>chains := chains ?b @ [tmp]\<rparr>) n datlen"
        by (rule readyI [of _ ds "?es @ [tmp]" "Suc j"])
          (use j S s sums new_space [OF tmp] that in auto)
    qed
    ultimately show ?thesis using run keep
      by (cases enough; cases "used < n"; cases "evbuffer_chain_new al (datlen - avail)") auto
  qed
qed

section \<open>Reading\<close>

lemma store_nil: "store_at p [] c = c"
  by (simp add: store_at_def)

lemma fill_nil: "fill_chains vs [] cs = cs"
  by (induction vs "[] :: cell list" cs rule: fill_chains.induct) (simp_all add: store_nil)

text \<open>
  The vectors hold what was asked for, and however many bytes arrive, they end up behind the
  content of the first chain.
\<close>

lemma read_chains_ok:
  assumes "list_all usable cs" "list_all (\<lambda>c. EVBUFFER_IMMUTABLE \<notin> flags c) (take k cs)"
    "list_all (\<lambda>c. CHAIN_SPACE_LEN c \<noteq> 0) (take k cs)" "k \<le> n" "k \<le> length cs"
    "so_far \<le> h" "h - so_far \<le> sum_list (map CHAIN_SPACE_LEN (take k cs))"
    "list_all spare (tl cs)"
  shows "\<exists>vecs. setup_vecs cs n h so_far True = Some vecs \<and> sum_list (map snd vecs) = h - so_far \<and>
    (\<forall>data. data \<noteq> [] \<and> length data \<le> h - so_far \<longrightarrow>
      (\<exists>xs. account_read (length vecs) (length data) (fill_chains vecs data cs) i lwd =
          Some (xs @ drop (length xs) cs, i + (length xs - 1)) \<and>
        xs \<noteq> [] \<and> length xs \<le> length cs \<and> list_all usable xs \<and> list_all (\<lambda>c. off c \<noteq> 0) xs \<and>
        concat (map content xs) = content (hd cs) @ data))"
  using assms
proof (induction cs arbitrary: k n so_far i lwd)
  case Nil
  then have "h = so_far" by simp
  then show ?case by (intro exI [of _ "[]"]) auto
next
  case (Cons c cs)
  show ?case
  proof (cases "h = so_far")
    case True
    then show ?thesis by (intro exI [of _ "[]"]) auto
  next
    case False
    then have more: "so_far < h" using Cons.prems(6) by simp
    then obtain k' where k: "k = Suc k'" using Cons.prems(7) by (cases k) auto
    let ?sp = "CHAIN_SPACE_LEN c"
    have gc: "usable c" "EVBUFFER_IMMUTABLE \<notin> flags c" "?sp \<noteq> 0" using Cons.prems(1-3) k by simp_all
    have n: "0 < n" using Cons.prems(4) k by simp
    define av where "av = min ?sp (h - so_far)"
    have av: "(if ?sp > h - so_far \<and> True then h - so_far else ?sp) = av" by (simp add: av_def)
    have good_cs: "list_all usable cs" using Cons.prems(1) by simp
    obtain vecs where IH: "setup_vecs cs (n - 1) h (so_far + av) True = Some vecs"
      "sum_list (map snd vecs) = h - (so_far + av)"
      "\<And>data. data \<noteq> [] \<Longrightarrow> length data \<le> h - (so_far + av) \<Longrightarrow>
        (\<exists>xs. account_read (length vecs) (length data) (fill_chains vecs data cs) (Suc i) lwd =
            Some (xs @ drop (length xs) cs, Suc i + (length xs - 1)) \<and>
          xs \<noteq> [] \<and> length xs \<le> length cs \<and> list_all usable xs \<and> list_all (\<lambda>c. off c \<noteq> 0) xs \<and>
          concat (map content xs) = content (hd cs) @ data)"
    proof -
      have "\<exists>vecs. setup_vecs cs (n - 1) h (so_far + av) True = Some vecs \<and>
        sum_list (map snd vecs) = h - (so_far + av) \<and>
        (\<forall>data. data \<noteq> [] \<and> length data \<le> h - (so_far + av) \<longrightarrow>
          (\<exists>xs. account_read (length vecs) (length data) (fill_chains vecs data cs) (Suc i) lwd =
              Some (xs @ drop (length xs) cs, Suc i + (length xs - 1)) \<and>
            xs \<noteq> [] \<and> length xs \<le> length cs \<and> list_all usable xs \<and> list_all (\<lambda>c. off c \<noteq> 0) xs \<and>
            concat (map content xs) = content (hd cs) @ data))"
      proof (rule Cons.IH [of k'])
        show "h - (so_far + av) \<le> sum_list (map CHAIN_SPACE_LEN (take k' cs))"
          using Cons.prems(7) k by (simp add: av_def)
        show "list_all spare (tl cs)" using Cons.prems(8) by (cases cs) simp_all
      qed (use Cons.prems k more in \<open>auto simp: av_def\<close>)
      then show thesis using that by blast
    qed
    let ?vs = "(CHAIN_SPACE_PTR c, av) # vecs"
    have run: "setup_vecs (c # cs) n h so_far True = Some ?vs"
      using more n IH(1) av by (simp add: Let_def)
    have sum: "sum_list (map snd ?vs) = h - so_far" using IH(2) by (simp add: av_def)
    have spmax: "min ?sp EVBUFFER_CHAIN_MAX = ?sp"
      using space_len_bound [OF usable_ok(1) [OF gc(1)]] chain_okD(2) [OF usable_ok(1) [OF gc(1)]] by simp
    have "\<exists>xs. account_read (length ?vs) (length data) (fill_chains ?vs data (c # cs)) i lwd =
          Some (xs @ drop (length xs) (c # cs), i + (length xs - 1)) \<and>
        xs \<noteq> [] \<and> length xs \<le> length (c # cs) \<and> list_all usable xs \<and> list_all (\<lambda>c. off c \<noteq> 0) xs \<and>
        concat (map content xs) = content (hd (c # cs)) @ data"
      if d: "data \<noteq> []" "length data \<le> h - so_far" for data
    proof (cases "length data \<le> ?sp")
      case True
      then have "length data \<le> av" using d(2) by (simp add: av_def)
      note st = stored_append [OF gc(1) True gc(2)]
      let ?x = "(store_at (CHAIN_SPACE_PTR c) data c)\<lparr>off := off c + length data\<rparr>"
      have "account_read (length ?vs) (length data) (fill_chains ?vs data (c # cs)) i lwd = Some (?x # cs, i)"
        using \<open>length data \<le> av\<close> True st(5,7) spmax by (simp add: fill_nil Let_def)
      then show ?thesis using st(1,2) d(1) by (intro exI [of _ "[?x]"]) simp
    next
      case False
      then have av_sp: "av = ?sp" using d(2) by (simp add: av_def)
      let ?d = "take ?sp data"
      have ld: "length ?d = ?sp" using False by simp
      note st = stored_append [OF gc(1) _ gc(2), of ?d]
      let ?x = "(store_at (CHAIN_SPACE_PTR c) ?d c)\<lparr>off := off c + ?sp\<rparr>"
      have "drop ?sp data \<noteq> []" "length (drop ?sp data) \<le> h - (so_far + av)"
        using False d(2) av_sp by simp_all
      from IH(3) [OF this] obtain xs where xs:
        "account_read (length vecs) (length (drop ?sp data)) (fill_chains vecs (drop ?sp data) cs) (Suc i) lwd =
            Some (xs @ drop (length xs) cs, Suc i + (length xs - 1))"
        "xs \<noteq> []" "length xs \<le> length cs" "list_all usable xs" "list_all (\<lambda>c. off c \<noteq> 0) xs"
        "concat (map content xs) = content (hd cs) @ drop ?sp data"
        by blast
      have "content (hd cs) = []" using Cons.prems(8) xs(2,3) by (cases cs) (auto simp: spare_content)
      moreover have "account_read (length ?vs) (length data) (fill_chains ?vs data (c # cs)) i lwd =
          Some (?x # xs @ drop (length xs) cs, Suc i + (length xs - 1))"
        using False av_sp st(5,7) ld spmax xs(1) by (simp add: Let_def)
      ultimately show ?thesis using st(1,2) ld xs(2-6) gc(3)
        by (intro exI [of _ "?x # xs"]) (cases xs, auto)
    qed
    then show ?thesis using run sum by blast
  qed
qed

text \<open>What the kernel does, as its manual says: no more bytes than there is room for.\<close>

definition delivers :: "(nat list \<Rightarrow> cell list option) \<Rightarrow> bool" where
  "delivers readv \<longleftrightarrow> (\<forall>lens data. readv lens = Some data \<longrightarrow> length data \<le> sum_list lens)"

lemma evbuffer_read_ok:
  assumes inv: "ev_inv b" and kernel: "delivers readv"
    and fits: "length (bytes b) + 4096 \<le> EV_SIZE_MAX" and thaw: "\<not> freeze_end b"
  shows "\<exists>r b' data. evbuffer_read al avail readv b howmuch = Some (r, b') \<and> ev_inv b' \<and>
    bytes b' = bytes b @ data \<and> freeze_start b' = freeze_start b \<and> freeze_end b' = freeze_end b \<and>
    (r = -1 \<and> data = [] \<or> r = int (length data) \<and> length data \<le> 4096 \<and>
      (howmuch \<ge> 0 \<longrightarrow> r \<le> howmuch) \<and> (\<exists>lens. readv lens = Some data))"
proof -
  define n where "n = (if avail \<le> 0 \<or> avail > EVBUFFER_MAX_READ then EVBUFFER_MAX_READ else avail)"
  define hm where "hm = (if howmuch < 0 \<or> howmuch > n then n else howmuch)"
  have hm: "0 \<le> hm" "hm \<le> 4096" "howmuch \<ge> 0 \<longrightarrow> hm \<le> howmuch"
    by (auto simp: hm_def n_def EVBUFFER_MAX_READ_def)
  obtain r b1 where E: "evbuffer_expand_fast al b (nat hm) NUM_READ_IOVEC = Some (r, b1)" "keeps_bytes b b1"
    "r = -1 \<or> r = 0 \<and> ready b1 NUM_READ_IOVEC (nat hm)"
    using expand_fast_ok [OF inv, of NUM_READ_IOVEC al "nat hm"] by (auto simp: NUM_READ_IOVEC_def)
  have b1: "ev_inv b1" "bytes b1 = bytes b" "freeze_start b1 = freeze_start b" "freeze_end b1 = freeze_end b"
    using E(2) by (simp_all add: keeps_bytes_def)
  show ?thesis
  proof (cases "r = -1")
    case True
    then have "evbuffer_read al avail readv b howmuch = Some (-1, b1)"
      using E(1) thaw by (simp add: evbuffer_read_def n_def [symmetric] hm_def [symmetric] Let_def)
    then show ?thesis using b1 by (intro exI [of _ "-1"] exI [of _ b1] exI [of _ "[]"]) simp
  next
    case False
    then have r: "r = 0" "ready b1 NUM_READ_IOVEC (nat hm)" using E(3) by auto
    define first where "first = first_space b1"
    define cs where "cs = drop first (chains b1)"
    obtain k where k: "k \<le> NUM_READ_IOVEC" "k \<le> length cs" "list_all (\<lambda>c. CHAIN_SPACE_LEN c \<noteq> 0) (take k cs)"
      "nat hm \<le> sum_list (map CHAIN_SPACE_LEN (take k cs))"
      and lwd: "last_with_datap b1 < length (chains b1)"
      and front: "list_all (\<lambda>c. off c \<noteq> 0) (take first (chains b1))"
      using r(2) by (auto simp: ready_def first_def cs_def)
    obtain ds es where s: "chains b1 = ds @ es" "list_all usable ds" "list_all (\<lambda>c. off c \<noteq> 0) ds"
      "list_all usable es" "list_all spare es" "last_with_datap b1 = length ds - 1"
      using b1(1) by (rule ev_invE)
    have usable: "list_all usable (chains b1)" using ev_inv_total(3) [OF b1(1)] .
    have good_cs: "list_all usable cs" using usable by (auto simp: cs_def list_all_iff dest: in_set_dropD)
    have ds_first: "length ds \<le> Suc first" using s(6) by (auto simp: first_def first_space_def)
    have "tl cs = drop (Suc first) (chains b1)" by (simp add: cs_def drop_Suc tl_drop)
    then have "tl cs = drop (Suc first - length ds) es" using ds_first s(1) by simp
    then have tl_spare: "list_all spare (tl cs)" using s(5) by (auto simp: list_all_iff dest: in_set_dropD)
    have mut: "list_all (\<lambda>c. EVBUFFER_IMMUTABLE \<notin> flags c) (take k cs)"
      using k(3) by (auto simp: list_all_iff CHAIN_SPACE_LEN_def split: if_splits)
    obtain vecs where V: "setup_vecs cs NUM_READ_IOVEC (nat hm) 0 True = Some vecs"
      "sum_list (map snd vecs) = nat hm"
      "\<And>data. data \<noteq> [] \<Longrightarrow> length data \<le> nat hm \<Longrightarrow>
        (\<exists>xs. account_read (length vecs) (length data) (fill_chains vecs data cs) first (last_with_datap b1) =
            Some (xs @ drop (length xs) cs, first + (length xs - 1)) \<and>
          xs \<noteq> [] \<and> length xs \<le> length cs \<and> list_all usable xs \<and> list_all (\<lambda>c. off c \<noteq> 0) xs \<and>
          concat (map content xs) = content (hd cs) @ data)"
      using read_chains_ok [OF good_cs mut k(3,1,2) _ _ tl_spare, of 0 "nat hm" first "last_with_datap b1"] k(4)
      by auto
    have prepared: "evbuffer_read_setup_vecs b1 hm NUM_READ_IOVEC True = Some (int (length vecs), vecs, first)"
      using hm(1) lwd V(1)
      by (simp add: evbuffer_read_setup_vecs_def last_with_data_def first_def first_space_def cs_def Let_def)
    show ?thesis
    proof (cases "readv (map snd vecs)")
      case None
      then have "evbuffer_read al avail readv b howmuch = Some (-1, b1)"
        using E(1) r(1) thaw prepared by (simp add: evbuffer_read_def n_def [symmetric] hm_def [symmetric] Let_def)
      then show ?thesis using b1 by (intro exI [of _ "-1"] exI [of _ b1] exI [of _ "[]"]) simp
    next
      case (Some data)
      have ld: "length data \<le> nat hm" using kernel Some V(2) by (metis delivers_def)
      show ?thesis
      proof (cases "data = []")
        case True
        then have "evbuffer_read al avail readv b howmuch = Some (0, b1)"
          using E(1) r(1) thaw prepared Some
          by (simp add: evbuffer_read_def n_def [symmetric] hm_def [symmetric] Let_def)
        then show ?thesis using b1 True Some by (intro exI [of _ 0] exI [of _ b1] exI [of _ "[]"]) auto
      next
        case False
        from V(3) [OF this ld] obtain xs where
          xs: "account_read (length vecs) (length data) (fill_chains vecs data cs) first (last_with_datap b1) =
            Some (xs @ drop (length xs) cs, first + (length xs - 1))"
          "xs \<noteq> []" "length xs \<le> length cs" "list_all usable xs" "list_all (\<lambda>c. off c \<noteq> 0) xs"
          "concat (map content xs) = content (hd cs) @ data"
          by blast
        let ?ch = "take first (chains b1) @ xs @ drop (length xs) cs"
        let ?b2 = "b1\<lparr>chains := ?ch, last_with_datap := first + (length xs - 1)\<rparr>"
        let ?b = "committed (length data) ?b2"
        have run: "evbuffer_read al avail readv b howmuch = Some (int (length data), ?b)"
          using E(1) r(1) thaw prepared Some False xs(1)
          by (cases data) (simp_all add: evbuffer_read_def n_def [symmetric] hm_def [symmetric] Let_def cs_def)
        have ch: "chains ?b = ?ch" "last_with_datap ?b = first + (length xs - 1)"
          "total_len ?b = size_add (total_len b1) (length data)"
          by (simp_all add: committed_def)
        have rest: "list_all spare (drop (length xs) cs)"
          using tl_spare xs(2) by (cases xs; cases cs) (auto simp: list_all_iff dest: in_set_dropD)
        have cs_ne: "cs \<noteq> []" using xs(2,3) by auto
        have by_: "bytes ?b = bytes b @ data"
        proof -
          have "take first (chains b1) @ hd cs # tl cs = chains b1" using cs_ne by (simp add: cs_def)
          from arg_cong [OF this, of "\<lambda>l. concat (map content l)"]
          have "bytes b1 = concat (map content (take first (chains b1))) @ content (hd cs)"
            using spare_contents [OF tl_spare] by (simp add: bytes_def)
          moreover have "bytes ?b = concat (map content (take first (chains b1))) @ concat (map content xs)"
            using ch(1) rest by (simp add: bytes_def spare_contents)
          ultimately show ?thesis using xs(6) b1(2) by simp
        qed
        have tot: "total_len ?b = length (bytes ?b)" "total_len ?b \<le> EV_SIZE_MAX"
          using ch(3) by_ fits ld hm(2) ev_inv_total(1) [OF b1(1)] b1(2) by (simp_all add: size_add_fits)
        have len_first: "length (take first (chains b1)) = first" using cs_ne by (simp add: cs_def)
        have "ev_inv ?b"
        proof (rule ev_invI [of ?b "take first (chains b1) @ xs" "drop (length xs) cs"])
          show "list_all usable (take first (chains b1) @ xs)"
            using usable xs(4) by (auto simp: list_all_iff dest: in_set_takeD)
          show "list_all usable (drop (length xs) cs)" using good_cs by (auto simp: list_all_iff dest: in_set_dropD)
          show "last_with_datap ?b = length (take first (chains b1) @ xs) - 1"
            using ch(2) len_first xs(2) by (cases xs) simp_all
        qed (use ch(1) front xs(5) rest tot in simp_all)
        moreover have "freeze_start ?b = freeze_start b" "freeze_end ?b = freeze_end b"
          using b1(3,4) by (simp_all add: committed_def)
        ultimately show ?thesis using run by_ ld hm Some
          by (intro exI [of _ "int (length data)"] exI [of _ ?b] exI [of _ data]) auto
      qed
    qed
  qed
qed

section \<open>Writing\<close>

lemma write_vecs_ok:
  "list_all usable cs \<Longrightarrow> \<exists>vs m. write_vecs i n cs = Some vs \<and> concat vs = take m (concat (map content cs)) \<and> m \<le> n \<and>
    (vs = [] \<longrightarrow> m = 0)"
proof (induction cs arbitrary: i n)
  case Nil
  then show ?case by (intro exI [of _ "[]"] exI [of _ 0]) simp
next
  case (Cons c cs)
  have gc: "usable c" using Cons.prems by simp
  consider "\<not> (i < NUM_WRITE_IOVEC \<and> n \<noteq> 0)" | "i < NUM_WRITE_IOVEC" "n \<noteq> 0" "off c \<le> n"
    | "i < NUM_WRITE_IOVEC" "n \<noteq> 0" "n < off c" by linarith
  then show ?case
  proof cases
    case 1
    then show ?thesis by (intro exI [of _ "[]"] exI [of _ 0]) auto
  next
    case 2
    obtain vs m where "write_vecs (Suc i) (n - off c) cs = Some vs"
      "concat vs = take m (concat (map content cs))" "m \<le> n - off c"
      using Cons.IH [of "Suc i" "n - off c"] Cons.prems by auto
    then show ?thesis using 2 gc
      by (intro exI [of _ "content c # vs"] exI [of _ "off c + m"])
        (simp add: chain_read_content usable_ok usable_content)
  next
    case 3
    then show ?thesis using gc chain_read_take [of c n]
      by (intro exI [of _ "[take n (content c)]"] exI [of _ n]) (simp add: usable_ok usable_content)
  qed
qed

text \<open>The other side of the kernel: it accepts no more than it is given.\<close>

definition accepts :: "(cell list list \<Rightarrow> int) \<Rightarrow> bool" where
  "accepts writev \<longleftrightarrow> (\<forall>vs. writev vs \<le> int (length (concat vs)))"

lemma write_ok:
  assumes inv: "ev_inv b" and kernel: "accepts writev" and thaw: "\<not> freeze_start b"
  shows "\<exists>n b' sent. evbuffer_write_atmost writev b howmuch = Some (n, b', sent) \<and> ev_inv b' \<and>
    (tight b \<longrightarrow> tight b') \<and> bytes b = sent @ bytes b' \<and>
    (0 < n \<longrightarrow> n = int (length sent)) \<and> (n \<le> 0 \<longrightarrow> b' = b \<and> sent = []) \<and>
    (howmuch \<ge> 0 \<longrightarrow> n \<le> howmuch)"
proof -
  have usable: "list_all usable (chains b)" and tot: "total_len b = length (bytes b)"
    using ev_inv_total [OF inv] by auto
  define hm where "hm = (if howmuch < 0 \<or> nat howmuch > total_len b then total_len b else nat howmuch)"
  obtain vs m where V: "write_vecs 0 hm (chains b) = Some vs" "concat vs = take m (bytes b)" "m \<le> hm"
    "vs = [] \<longrightarrow> m = 0"
    using write_vecs_ok [OF usable, of 0 hm] by (auto simp: bytes_def)
  define n where "n = (if hm > 0 then (if vs = [] then 0 else writev vs) else -1)"
  have run: "evbuffer_write_atmost writev b howmuch =
      (if n > 0 then do { (_, b') \<leftarrow> evbuffer_drain b (nat n); Some (n, b', take (nat n) (concat vs)) }
       else Some (n, b, []))"
    using thaw V(1) by (auto simp: evbuffer_write_atmost_def hm_def [symmetric] n_def Let_def)
  have le: "n \<le> int (length (concat vs))" using kernel by (auto simp: n_def accepts_def)
  have lm: "length (concat vs) \<le> hm" using V(2,3) by simp
  show ?thesis
  proof (cases "n > 0")
    case False
    then show ?thesis using run inv by (intro exI [of _ n] exI [of _ b] exI [of _ "[]"]) auto
  next
    case True
    obtain b' where d: "evbuffer_drain b (nat n) = Some (0, b')" "ev_inv b'" "tight b \<longrightarrow> tight b'"
      "bytes b' = drop (nat n) (bytes b)"
      using drain_ok [OF inv thaw, of "nat n"] by blast
    have "take (nat n) (concat vs) = take (nat n) (bytes b)"
    proof -
      have "nat n \<le> length (take m (bytes b))" using le unfolding V(2) by linarith
      then have "nat n \<le> m" by simp
      then show ?thesis using V(2) by (simp add: min_absorb1)
    qed
    moreover have "nat n \<le> length (bytes b)" using le V(2) by simp
    moreover have "howmuch \<ge> 0 \<longrightarrow> n \<le> howmuch" using le lm by (auto simp: hm_def split: if_splits)
    ultimately show ?thesis using run True d
      by (intro exI [of _ n] exI [of _ b'] exI [of _ "take (nat n) (bytes b)"]) simp
  qed
qed

end
