(* ===== verification/EvProps.thy ===== *)
theory EvProps imports EvQueue EvIO begin

text \<open>
  What the buffers of libevent promise, and where they do not keep it: the properties of
  \<open>buffer.c\<close> over the invariant of \<open>EvInv\<close> and the lemmas of the theories between.
\<close>

section \<open>A buffer for the examples\<close>

definition sample_chain :: "cell list \<Rightarrow> evchain" where
  "sample_chain data = \<lparr>addr = 64, buffer = data @ replicate 8 None, misalign = 0,
      off = length data, flags = {}, cleanupfn = None\<rparr>"

definition sample :: "cell list \<Rightarrow> evbuffer" where
  "sample data = evbuffer_new\<lparr>chains := [sample_chain data], total_len := length data\<rparr>"

lemma sample_chains: "chains (sample data) = [sample_chain data]"
  by (simp add: sample_def)

lemma sample_chain_fields:
  "off (sample_chain data) = length data" "flags (sample_chain data) = {}" "misalign (sample_chain data) = 0"
  "buffer_len (sample_chain data) = length data + 8"
  by (simp_all add: sample_chain_def)

lemma sample_space: "length data \<le> 100 \<Longrightarrow> CHAIN_SPACE_LEN (sample_chain data) = 8"
  by (simp add: CHAIN_SPACE_LEN_def sample_chain_fields size_sub_def)

lemma sample_ok:
  assumes "length data + 8 \<le> EVBUFFER_CHAIN_MAX"
  shows "ev_inv (sample data)" "tight (sample data)" "bytes (sample data) = data"
    "\<not> freeze_start (sample data)" "\<not> freeze_end (sample data)"
  using assms
  by (simp_all add: sample_def sample_chain_def evbuffer_new_def ev_inv_def usable_def spare_def chain_ok_def CHAIN_PINNED_def
      tight_def bytes_def content_def EV_SIZE_MAX_def EVBUFFER_CHAIN_MAX_def EV_SSIZE_MAX_def)

lemma sample_small: "length data \<le> 100 \<Longrightarrow> length data + 8 \<le> EVBUFFER_CHAIN_MAX"
  by (simp add: EVBUFFER_CHAIN_MAX_def EV_SSIZE_MAX_def)

lemmas sample_facts = sample_ok [OF sample_small]

lemma big_enough: "n \<le> 10000 \<Longrightarrow> n \<le> EV_SIZE_MAX" "n \<le> 10000 \<Longrightarrow> n \<le> EVBUFFER_CHAIN_MAX"
  "n \<le> 10000 \<Longrightarrow> n \<le> EVBUFFER_CHAIN_MAX - EVBUFFER_CHAIN_SIZE" "n \<le> 10000 \<Longrightarrow> n \<le> EV_SSIZE_MAX"
  by (simp_all add: EV_SIZE_MAX_def EVBUFFER_CHAIN_MAX_def EV_SSIZE_MAX_def EVBUFFER_CHAIN_SIZE_def)

section \<open>A queue of bytes\<close>

text \<open>
  C10. Every sequence of additions at both ends, removals, copies, pull-ups, searches and line
  reads on a new buffer runs without a failed assertion or a memory fault, whatever the allocator
  answers, and every result is the one the operation has on the list of bytes; only an addition
  may fail.
\<close>

theorem buffer_is_byte_queue:
  assumes "list_all buf_op_ok ops" "sum_list (map buf_op_grows ops) \<le> EV_SIZE_MAX"
  shows "\<exists>outs b. run_all (buf_run al) ops evbuffer_new = Some (outs, b) \<and> ev_inv b \<and> may_all buf_may ops [] outs (bytes b)"
proof -
  have "open_buffer evbuffer_new" by (simp add: open_buffer_def) (simp add: evbuffer_new_def)
  from ev.run_all_ok [OF this assms(1), of al] assms(2) show ?thesis by (auto simp: open_buffer_def)
qed

theorem buffer_is_byte_queue_witness:
  "\<exists>outs b. run_all (buf_run (\<lambda>n. if n < 1000 then None else Some n))
      [Op_add [Some 1, Some 2], Op_prepend [Some 3], Op_readln EVBUFFER_EOL_LF, Op_drain 1] evbuffer_new =
      Some (outs, b) \<and> ev_inv b \<and>
    may_all buf_may [Op_add [Some 1, Some 2], Op_prepend [Some 3], Op_readln EVBUFFER_EOL_LF, Op_drain 1] [] outs (bytes b)"
  by (rule buffer_is_byte_queue) (simp_all add: big_enough)

text \<open>
  With memory to be had, \<open>evbuffer_add\<close> of any data that fits a chain succeeds and appends
  exactly that data, whether it fits the last chain, makes it realigned or needs a new one.
\<close>

theorem add_appends:
  assumes "ev_inv b" "tight b" "roomy b" "\<not> freeze_end b" "data \<noteq> []"
    "length data \<le> EVBUFFER_CHAIN_MAX - EVBUFFER_CHAIN_SIZE" "length (bytes b) + length data \<le> EV_SIZE_MAX"
    "\<forall>n. al n \<noteq> None"
  shows "\<exists>b'. evbuffer_add al b data = Some (0, b') \<and> ev_inv b' \<and> tight b' \<and> bytes b' = bytes b @ data"
  using add_succeeds [OF assms(1,2,5-7,4,8,3)] by blast

theorem add_appends_witness:
  "\<exists>b'. evbuffer_add Some (sample [Some 1]) (replicate 50 (Some 2)) = Some (0, b') \<and> ev_inv b' \<and> tight b' \<and>
    bytes b' = bytes (sample [Some 1]) @ replicate 50 (Some 2)"
  by (rule add_appends)
    (simp_all add: sample_facts big_enough, simp add: roomy_def sample_chains sample_chain_fields big_enough)

text \<open>
  C22. Moving whole buffers keeps every byte in order: \<open>evbuffer_add_buffer\<close> appends the bytes of
  the source and \<open>evbuffer_prepend_buffer\<close> puts them in front, both leave it empty, and
  \<open>evbuffer_remove_buffer\<close> moves the first bytes of the source to the end of the destination, all
  that it reports when there is memory.
\<close>

theorem buffers_move:
  assumes "ev_inv x" "tight x" "ev_inv y" "tight y" "\<not> freeze_start x" "\<not> freeze_end x" "\<not> freeze_start y" "\<not> freeze_end y"
    "length (bytes x) + length (bytes y) \<le> EV_SIZE_MAX"
  shows "(\<exists>x' y'. evbuffer_add_buffer al x y = Some (0, x', y') \<and> ev_inv x' \<and> ev_inv y' \<and>
      bytes x' = bytes x @ bytes y \<and> bytes y' = []) \<and>
    (\<exists>x' y'. evbuffer_prepend_buffer al x y = Some (0, x', y') \<and> ev_inv x' \<and> ev_inv y' \<and>
      bytes x' = bytes y @ bytes x \<and> bytes y' = []) \<and>
    (\<exists>x' y' m. evbuffer_remove_buffer al y x n = Some (c_int (int (min n (length (bytes y)))), y', x') \<and>
      ev_inv x' \<and> ev_inv y' \<and> bytes y' = drop n (bytes y) \<and> bytes x' = bytes x @ take m (bytes y) \<and> m \<le> n \<and>
      ((\<forall>k. al k \<noteq> None) \<and> roomy x \<and> roomy y \<longrightarrow> m = n))"
  using add_buffer_ok [OF assms(1-3,6,7,9), of al] prepend_buffer_ok [OF assms(1,3-5,7,9), of al]
    remove_buffer_ok [OF assms(3,1,2,7,6,9), of al n]
  by blast

theorem buffers_move_witness:
  "\<exists>x' y'. evbuffer_add_buffer Some (sample [Some 1]) (sample [Some 2, Some 3]) = Some (0, x', y') \<and> ev_inv x' \<and> ev_inv y' \<and>
      bytes x' = bytes (sample [Some 1]) @ bytes (sample [Some 2, Some 3]) \<and> bytes y' = []"
  by (rule buffers_move [THEN conjunct1]) (simp_all add: sample_facts big_enough)

text \<open>
  C23. \<open>evbuffer_pullup\<close> never changes the bytes; when it returns a pointer the bytes asked for are
  the first ones and lie in one chain, and it returns none only when there are not that many or
  no memory for them.
\<close>

theorem pullup_contiguous:
  assumes "ev_inv b"
  shows "\<exists>r b'. evbuffer_pullup al b sz = Some (r, b') \<and> ev_inv b' \<and> bytes b' = bytes b \<and>
    (let n = (if sz < 0 then length (bytes b) else nat sz) in
     case r of
       Some d \<Rightarrow> 0 < n \<and> d = take n (bytes b) \<and> length d = n \<and> n \<le> evbuffer_get_contiguous_space b'
     | None \<Rightarrow> b' = b \<and> (n = 0 \<or> length (bytes b) < n \<or> evbuffer_chain_new al n = None))"
proof -
  obtain r b' where r: "evbuffer_pullup al b sz = Some (r, b')" "ev_inv b'" "bytes b' = bytes b"
    "case r of
       None \<Rightarrow> b' = b \<and> (pullup_size b sz = 0 \<or> length (bytes b) < pullup_size b sz \<or>
                 evbuffer_chain_new al (pullup_size b sz) = None)
     | Some d \<Rightarrow> 0 < pullup_size b sz \<and> pullup_size b sz \<le> length (bytes b) \<and>
                 d = take (pullup_size b sz) (bytes b) \<and>
                 pullup_size b sz \<le> evbuffer_get_contiguous_space b'"
    using pullup_ok [OF assms, of al sz] by blast
  then show ?thesis unfolding pullup_size_def Let_def by (cases r) auto
qed

theorem pullup_contiguous_witness:
  "\<exists>r b'. evbuffer_pullup Some (sample [Some 1, Some 2]) 2 = Some (r, b') \<and> ev_inv b' \<and> bytes b' = [Some 1, Some 2]"
  using pullup_contiguous [of "sample [Some 1, Some 2]" Some 2] by (auto simp: sample_facts)

section \<open>Room for the caller\<close>

text \<open>The caller's vector lies in the last chain only.\<close>

definition apart :: "evbuffer \<Rightarrow> nat \<Rightarrow> nat \<Rightarrow> bool" where
  "apart b p n \<longleftrightarrow> list_all (\<lambda>d. \<not> (addr d \<le> p \<and> p + n \<le> addr d + buffer_len d)) (butlast (chains b))"

text \<open>
  C26. What is stored into the room that \<open>evbuffer_reserve_space\<close> returns, and then committed, is
  appended to the bytes; reserving alone changes none, and fails only without memory.
\<close>

theorem reserve_store_commit:
  assumes "ev_inv b" "tight b" "\<not> freeze_end b" "data \<noteq> []" "length data \<le> EVBUFFER_CHAIN_MAX"
    "length (bytes b) + length data \<le> EV_SIZE_MAX"
  shows "\<exists>r vec b'. evbuffer_reserve_space al b (int (length data)) 1 = Some (r, vec, b') \<and> ev_inv b' \<and> bytes b' = bytes b \<and>
    (r = -1 \<and> b' = b \<or>
     r = 1 \<and> (\<exists>p n. vec = [(p, n)] \<and> length data \<le> n \<and>
       (apart b' p (length data) \<longrightarrow>
         (\<exists>b''. evbuffer_commit_space (user_store p data b') [(p, length data)] = Some (0, b'') \<and>
           ev_inv b'' \<and> tight b'' \<and> bytes b'' = bytes b @ data))))"
proof -
  have sz: "0 \<le> int (length data)" "nat (int (length data)) \<le> EVBUFFER_CHAIN_MAX" using assms(5) by simp_all
  obtain r vec b' where r: "evbuffer_reserve_space al b (int (length data)) 1 = Some (r, vec, b')" "keeps_bytes b b'"
    "r = -1 \<and> b' = b \<or>
     r = 1 \<and> (\<exists>i. room b' i (length data) \<and>
       (tight b \<longrightarrow> Suc i = length (chains b') \<and> list_all (\<lambda>c. off c \<noteq> 0) (butlast (chains b'))) \<and>
       vec = [(CHAIN_SPACE_PTR (chains b' ! i), CHAIN_SPACE_LEN (chains b' ! i))])"
    using reserve_one [OF assms(1) sz assms(3), of al] by auto
  have keep: "ev_inv b'" "bytes b' = bytes b" "\<not> freeze_end b'"
    using r(2) assms(3) by (simp_all add: keeps_bytes_def)
  from r(3) show ?thesis
  proof
    assume "r = -1 \<and> b' = b"
    then show ?thesis using r(1) keep by blast
  next
    assume "r = 1 \<and> (\<exists>i. room b' i (length data) \<and>
       (tight b \<longrightarrow> Suc i = length (chains b') \<and> list_all (\<lambda>c. off c \<noteq> 0) (butlast (chains b'))) \<and>
       vec = [(CHAIN_SPACE_PTR (chains b' ! i), CHAIN_SPACE_LEN (chains b' ! i))])"
    then obtain i where i: "r = 1" "room b' i (length data)" "Suc i = length (chains b')"
      "list_all (\<lambda>c. off c \<noteq> 0) (butlast (chains b'))"
      "vec = [(CHAIN_SPACE_PTR (chains b' ! i), CHAIN_SPACE_LEN (chains b' ! i))]"
      using assms(2) by blast
    then have last: "chains b' \<noteq> []" "last (chains b') = chains b' ! i"
      by (auto simp: last_conv_nth) (metis diff_Suc_1 i(3) last_conv_nth list.size(3) nat.distinct(1))
    have commit: "\<exists>b''. evbuffer_commit_space (user_store (CHAIN_SPACE_PTR (chains b' ! i)) data b')
        [(CHAIN_SPACE_PTR (chains b' ! i), length data)] = Some (0, b'') \<and>
        ev_inv b'' \<and> tight b'' \<and> bytes b'' = bytes b @ data"
      if "apart b' (CHAIN_SPACE_PTR (chains b' ! i)) (length data)"
      using commit_last [OF keep(1) last(1) i(4), of data] last(2) i(2) that assms(4,6) keep(2,3)
      by (auto simp: room_def apart_def list_all_iff)
    then show ?thesis using r(1) keep i(1,2,5) by (auto simp: room_def)
  qed
qed

theorem reserve_store_commit_witness:
  "\<exists>r vec b'. evbuffer_reserve_space Some (sample [Some 1]) 2 1 = Some (r, vec, b') \<and> ev_inv b' \<and> bytes b' = [Some 1]"
  using reserve_store_commit [of "sample [Some 1]" "[Some 2, Some 3]" Some] by (auto simp: sample_facts big_enough)

section \<open>Sockets\<close>

text \<open>
  C24. \<open>evbuffer_read\<close> appends exactly the bytes the socket delivers and returns their number, at most
  4096 and at most what was asked for, for any allocator and any socket that does not deliver
  more than there is room for; on an error it appends none.
\<close>

theorem read_appends:
  assumes "ev_inv b" "delivers readv" "length (bytes b) + 4096 \<le> EV_SIZE_MAX" "\<not> freeze_end b"
  shows "\<exists>r b' data. evbuffer_read al avail readv b howmuch = Some (r, b') \<and> ev_inv b' \<and>
    bytes b' = bytes b @ data \<and>
    (r = -1 \<and> data = [] \<or> r = int (length data) \<and> length data \<le> 4096 \<and> (howmuch \<ge> 0 \<longrightarrow> r \<le> howmuch) \<and>
      (\<exists>lens. readv lens = Some data))"
  using evbuffer_read_ok [OF assms, of al avail howmuch] by blast

theorem read_appends_witness:
  "\<exists>r b' data. evbuffer_read Some 3 (\<lambda>lens. Some (take (sum_list lens) [Some 7, Some 8, Some 9])) (sample [Some 1]) 2 = Some (r, b') \<and>
    ev_inv b' \<and> bytes b' = bytes (sample [Some 1]) @ data"
  using read_appends [of "sample [Some 1]" "\<lambda>lens. Some (take (sum_list lens) [Some 7, Some 8, Some 9])" Some 3 2]
  by (auto simp: sample_facts delivers_def big_enough)

text \<open>
  C25. \<open>evbuffer_write_atmost\<close> gives the socket a prefix of the bytes and drains exactly what the
  socket takes: the bytes sent followed by the bytes left are the bytes there were.
\<close>

theorem write_sends_prefix:
  assumes "ev_inv b" "accepts writev" "\<not> freeze_start b"
  shows "\<exists>n b' sent. evbuffer_write_atmost writev b howmuch = Some (n, b', sent) \<and> ev_inv b' \<and>
    (tight b \<longrightarrow> tight b') \<and> bytes b = sent @ bytes b' \<and>
    (0 < n \<longrightarrow> n = int (length sent)) \<and> (n \<le> 0 \<longrightarrow> b' = b \<and> sent = []) \<and> (howmuch \<ge> 0 \<longrightarrow> n \<le> howmuch)"
  by (rule write_ok [OF assms])

theorem write_sends_prefix_witness:
  "\<exists>n b' sent. evbuffer_write_atmost (\<lambda>vs. min 1 (int (length (concat vs)))) (sample [Some 1, Some 2]) (-1) = Some (n, b', sent) \<and>
    ev_inv b' \<and> bytes (sample [Some 1, Some 2]) = sent @ bytes b'"
  using write_sends_prefix [of "sample [Some 1, Some 2]" "\<lambda>vs. min 1 (int (length (concat vs)))" "-1"]
  by (auto simp: sample_facts accepts_def)

section \<open>Searching\<close>

text \<open>
  C17. \<open>evbuffer_search_range\<close> returns the position of the first occurrence of the bytes searched
  for at or after the start that ends no later than the end, across any cut of the bytes into
  chains, and -1 exactly when there is none.
\<close>

theorem search_least:
  assumes "ev_inv b" "what \<noteq> []" "length what \<le> EV_SSIZE_MAX"
    and start: "ptr_at b (case start of Some s \<Rightarrow> s | None \<Rightarrow> start_ptr b) q"
    and stop: "case stop of None \<Rightarrow> e = length (bytes b) | Some s \<Rightarrow> ptr_at b s e"
  shows "let r = evbuffer_search_range b what start stop;
      hit = (\<lambda>m. q \<le> m \<and> m + length what \<le> e \<and> take (length what) (drop m (bytes b)) = what)
    in (\<exists>m. hit m \<and> (\<forall>m' < m. \<not> hit m') \<and> ptr_at b r m) \<or> (\<forall>m. \<not> hit m) \<and> pos r = -1"
proof -
  have good: "list_all usable (chains b)" using ev_inv_total [OF assms(1)] by simp
  have e: "e \<le> length (bytes b)" using stop ptr_at_le [OF good] by (auto split: option.splits)
  define hit where "hit m \<longleftrightarrow> q \<le> m \<and> m + length what \<le> e \<and> take (length what) (drop m (bytes b)) = what" for m
  have occ: "occurs what (drop j (drop q (bytes b)))" if "hit (q + j)" for j
    using that e by (auto simp: hit_def occurs_def add.commute)
  obtain r where r: "finds b what (stop_of stop) q r"
    "case r of Some it \<Rightarrow> evbuffer_search_range b what start stop = it
     | None \<Rightarrow> pos (evbuffer_search_range b what start stop) = -1"
    using search_range_ok [OF assms(1-3) start, of stop] stop by fastforce
  have over: "(\<exists>s. stop_of stop = Some s \<and> int (m + n) > snd s) \<longleftrightarrow> e < m + n" if "m + n \<le> length (bytes b)" for m n
    using stop that by (auto simp: stop_of_def ptr_at_def split: option.splits)
  have "(\<exists>m. hit m \<and> (\<forall>m' < m. \<not> hit m') \<and> ptr_at b (evbuffer_search_range b what start stop) m) \<or>
      (\<forall>m. \<not> hit m) \<and> pos (evbuffer_search_range b what start stop) = -1"
  proof (cases "first_sub what (drop q (bytes b))")
    case None
    have "\<not> hit m" for m
    proof
      assume m: "hit m"
      then have "occurs what (drop (m - q) (drop q (bytes b)))" using occ [of "m - q"] by (simp add: hit_def)
      moreover have "m \<le> length (bytes b)" using m e by (simp add: hit_def)
      then have "m - q \<le> length (drop q (bytes b))" by (simp add: diff_le_mono)
      ultimately show False using None first_sub_least by blast
    qed
    then show ?thesis using None r by (simp add: finds_def split: option.splits)
  next
    case (Some j)
    then have j: "occurs what (drop (q + j) (bytes b))" "\<forall>i < j. \<not> occurs what (drop i (drop q (bytes b)))"
      "j \<le> length (drop q (bytes b))" by (auto simp: first_sub_Some add.commute)
    have fits: "q + j + length what \<le> length (bytes b)" using j(1) assms(2)
      by (cases what) (auto simp: occurs_def)
    have least: "\<not> hit m'" if "m' < q + j" for m'
    proof
      assume m: "hit m'"
      then have "m' - q < j" "occurs what (drop (m' - q) (drop q (bytes b)))"
        using that occ [of "m' - q"] by (auto simp: hit_def)
      then show False using j(2) by blast
    qed
    show ?thesis
    proof (cases "e < q + j + length what")
      case True
      then have "\<not> hit m'" for m' using least [of m'] by (cases "m' < q + j") (auto simp: hit_def)
      then show ?thesis using True Some r over [OF fits]
        by (auto simp: finds_def found_at_def split: option.splits)
    next
      case False
      then have "hit (q + j)" using j(1) by (simp add: hit_def occurs_def)
      moreover have "\<not> (\<exists>s. stop_of stop = Some s \<and> int (q + j + length what) > snd s)"
        using over [OF fits] False by simp
      then have "\<exists>it. r = Some it \<and> ptr_at b it (q + j)"
        using r(1) Some by (auto simp only: finds_def found_at_def option.case if_False)
      ultimately show ?thesis using r(2) least by auto
    qed
  qed
  then show ?thesis by (simp add: Let_def hit_def)
qed

theorem search_least_witness:
  "let r = evbuffer_search_range (sample [Some 1, Some 2]) [Some 2] None None;
      hit = (\<lambda>m. 0 \<le> m \<and> m + length [Some (2 :: 8 word)] \<le> 2 \<and>
        take (length [Some (2 :: 8 word)]) (drop m (bytes (sample [Some 1, Some 2]))) = [Some 2])
    in (\<exists>m. hit m \<and> (\<forall>m' < m. \<not> hit m') \<and> ptr_at (sample [Some 1, Some 2]) r m) \<or> (\<forall>m. \<not> hit m) \<and> pos r = -1"
  by (rule search_least) (simp_all add: sample_facts start_at big_enough)

section \<open>Lines\<close>

text \<open>Reading as many lines as are asked for.\<close>

fun read_lines :: "(nat \<Rightarrow> nat option) \<Rightarrow> eol_style \<Rightarrow> nat \<Rightarrow> evbuffer \<Rightarrow> (cell list list \<times> evbuffer) option" where
  "read_lines al style 0 b = Some ([], b)"
| "read_lines al style (Suc n) b = do {
     (line, _, b) \<leftarrow> evbuffer_readln al b style;
     line \<leftarrow> line;
     (lines, b) \<leftarrow> read_lines al style n b;
     Some (line # lines, b)
   }"

text \<open>The ends of line a style accepts, and that a line must not hold.\<close>

fun ends_line :: "eol_style \<Rightarrow> cell list \<Rightarrow> bool" where
  "ends_line EVBUFFER_EOL_LF eol = (eol = [EV_LF])"
| "ends_line EVBUFFER_EOL_CRLF_STRICT eol = (eol = [EV_CR, EV_LF])"
| "ends_line EVBUFFER_EOL_CRLF eol = (eol = [EV_LF] \<or> eol = [EV_CR, EV_LF])"
| "ends_line EVBUFFER_EOL_ANY eol = False"

lemma line_end_here:
  assumes "EV_CR \<notin> set line" "EV_LF \<notin> set line" "ends_line style eol"
  shows "line_end style (line @ eol @ rest) = Some (length line, length eol)"
proof -
  have plain: "\<forall>x \<in> set line. x \<notin> {EV_CR, EV_LF}" using assms(1,2) by auto
  have lf: "first_index (\<lambda>x. x = EV_LF) (line @ EV_LF # rest) = Some (length line)"
    using assms(2) by (auto simp: first_index_Some nth_append) (metis nth_mem)
  have sub: "first_sub [EV_CR, EV_LF] (line @ EV_CR # EV_LF # rest) = Some (length line)"
    using first_sub_skip [of "[EV_CR, EV_LF]" line "EV_CR # EV_LF # rest"] plain by (auto simp: occurs_def)
  have crlf: "crlf_end (line @ eol @ rest) = map_option (\<lambda>(n, m). (length line + n, m)) (crlf_end (eol @ rest))"
    by (rule crlf_end_skip [OF plain])
  show ?thesis using assms(3) lf sub crlf
    by (cases style) (auto simp: line_end_def occurs_def EV_LF_def EV_CR_def)
qed

text \<open>
  C16. Lines written one after the other, each with an end of line of the style, are read back one
  by one with \<open>evbuffer_readln\<close>, however the bytes lie in the chains, and what follows them stays.
\<close>

theorem lines_roundtrip:
  assumes "ev_inv b" "\<not> freeze_start b" "\<forall>n. al n \<noteq> None"
    and "bytes b = concat (map (\<lambda>(line, eol). line @ eol) ls) @ rest"
    and "list_all (\<lambda>(line, eol). EV_CR \<notin> set line \<and> EV_LF \<notin> set line \<and> ends_line style eol) ls"
  shows "\<exists>b'. read_lines al style (length ls) b = Some (map fst ls, b') \<and> ev_inv b' \<and> bytes b' = rest"
  using assms(1,2,4,5)
proof (induction ls arbitrary: b)
  case Nil
  then show ?case by simp
next
  case (Cons l ls)
  obtain line eol where l: "l = (line, eol)" by (cases l)
  let ?rest = "concat (map (\<lambda>(line, eol). line @ eol) ls) @ rest"
  have eq: "bytes b = line @ eol @ ?rest" using Cons.prems(3) l by simp
  have "line_end style (bytes b) = Some (length line, length eol)"
    unfolding eq using Cons.prems(4) l by (intro line_end_here) simp_all
  then obtain b' where b': "evbuffer_readln al b style = Some (Some (take (length line) (bytes b)), length line, b')"
    "ev_inv b'" "bytes b' = drop (length line + length eol) (bytes b)"
    using readln_ok [OF Cons.prems(1,2), of al style] assms(3) by auto
  have "freeze_start b' = freeze_start b" using readln_frame [OF Cons.prems(1,2) b'(1)] by simp
  with Cons.IH [of b'] Cons.prems(2,4) b' eq l show ?case by auto
qed

theorem lines_roundtrip_witness:
  "\<exists>b'. read_lines Some EVBUFFER_EOL_CRLF (Suc (Suc 0)) (sample [Some 65, Some 13, Some 10, Some 66, Some 10, Some 67]) =
    Some ([[Some 65], [Some 66]], b') \<and> ev_inv b' \<and> bytes b' = [Some 67]"
  using lines_roundtrip [of "sample [Some 65, Some 13, Some 10, Some 66, Some 10, Some 67]" Some
      "[([Some 65], [Some 13, Some 10]), ([Some 66], [Some 10])]" "[Some 67]" EVBUFFER_EOL_CRLF]
  by (simp add: sample_facts EV_CR_def EV_LF_def del: read_lines.simps)

section \<open>Where the code goes wrong\<close>

text \<open>
  C34. The guard of \<open>evbuffer_expand_singlechain\<close> that should keep it from resizing a chain when the
  size overflows is the wrong way round: with such a size the resize is made, and the call ends
  in a failed assertion.
\<close>

theorem expand_overflow_aborts:
  assumes "ev_inv b" "chains b = [c]" "off c \<noteq> 0" "off c \<le> MAX_TO_COPY_IN_EXPAND"
    "EVBUFFER_IMMUTABLE \<notin> flags c" "CHAIN_SPACE_LEN c \<noteq> 0" "CHAIN_SPACE_LEN c \<ge> buffer_len c div 8"
    "EV_SIZE_MAX < off c + n" "n \<le> EV_SIZE_MAX" "\<forall>k. al k \<noteq> None"
  shows "evbuffer_expand al b n = None"
  by (rule expand_overflow [OF assms])

theorem expand_overflow_aborts_witness:
  "evbuffer_expand Some (sample [Some 1]) EV_SIZE_MAX = None"
  by (rule expand_overflow_aborts [OF sample_facts(1) sample_chains])
    (simp_all add: sample_space sample_chain_fields MAX_TO_COPY_IN_EXPAND_def)

text \<open>
  C33. After \<open>evbuffer_expand\<close> has added a spare chain, \<open>evbuffer_add\<close> writes into it without moving
  \<open>last_with_datap\<close>; a following \<open>evbuffer_remove_buffer\<close> that asks for more than the bytes there
  were before fails its assertion.
\<close>

theorem expand_add_remove_aborts:
  assumes inv: "ev_inv b" and ch: "chains b = [c]" "off c \<noteq> 0" "CHAIN_SPACE_LEN c < n"
      "\<not> evbuffer_chain_should_realign c n" "n < EVBUFFER_CHAIN_MAX" "off c \<le> EVBUFFER_CHAIN_MAX - n"
    and new: "evbuffer_chain_new al n = Some e"
    and data: "data \<noteq> []" "length data \<le> n" "length (bytes b) + length data \<le> EV_SIZE_MAX"
    and thaw: "\<not> freeze_end b" "\<not> freeze_start b"
  shows "\<exists>b1 b2. evbuffer_expand al b n = Some (0, b1) \<and> evbuffer_add al b1 data = Some (0, b2) \<and>
    bytes b2 = bytes b @ data \<and>
    (\<forall>dst m. \<not> freeze_end dst \<and> length (bytes b) \<le> m \<and> m < length (bytes b) + length data \<longrightarrow>
      evbuffer_remove_buffer al b2 dst m = None)"
proof -
  obtain ds es where s: "chains b = ds @ es" "list_all (\<lambda>c. off c \<noteq> 0) ds" "list_all usable ds" "list_all spare es"
    "last_with_datap b = length ds - 1"
    using inv by (rule ev_invE)
  have lwd: "last_with_datap b = 0" "ds = [c]" "es = []" and c: "usable c"
    using s ch(1,2) by (cases ds; auto simp: spare_def)+
  have bytes_c: "bytes b = content c" "length (content c) = off c"
    using ch(1) c by (simp_all add: bytes_def usable_content)
  have tot: "total_len b = off c" using ev_inv_total(1) [OF inv] bytes_c by simp
  note e = chain_new_ok [OF new]
  have e_space: "CHAIN_SPACE_LEN e = buffer_len e" using e by (simp add: space_len)
  have ins: "evbuffer_chain_insert b e = Some (b\<lparr>chains := [c, e]\<rparr>)"
    using ch(1,2) lwd(1) e(3) tot ev_inv_total(2) [OF inv] bytes_c
    by (simp add: evbuffer_chain_insert_def last_with_data_def Let_def size_add_fits)
  have "expand_insert_new al b n = Some (Some 1, b\<lparr>chains := [c, e]\<rparr>)"
    using new ins e(6) e_space by (simp add: expand_insert_new_def evbuffer_chain_insert_new_def)
  then have "evbuffer_expand_singlechain al b n = Some (Some 1, b\<lparr>chains := [c, e]\<rparr>)"
    using ch lwd(1) by (auto simp: evbuffer_expand_singlechain_def last_with_data_def Let_def)
  then have expand: "evbuffer_expand al b n = Some (0, b\<lparr>chains := [c, e]\<rparr>)"
    by (simp add: evbuffer_expand_def)
  obtain e' where e': "chain_append e data = Some e'" "content e' = content e @ data" "off e' = off e + length data"
    "misalign e' = misalign e" "buffer_len e' = buffer_len e"
    using chain_append_ok [OF e(1), of data] e data(2) by auto
  let ?b2 = "evbuffer_invoke_callbacks (added (length data) (set_last e' (b\<lparr>chains := [c, e]\<rparr>)))"
  have sub: "size_sub (size_sub (buffer_len e) (misalign e)) (off e) = buffer_len e" "misalign e \<le> EVBUFFER_CHAIN_MAX"
    using e chain_okD [OF e(1)] chain_max_less by (simp_all add: size_sub_fits)
  have "\<not> length data > size_sub EV_SIZE_MAX (total_len b)"
    using data(3) bytes_c tot by (simp add: size_sub_fits)
  then have add: "evbuffer_add al (b\<lparr>chains := [c, e]\<rparr>) data = Some (0, ?b2)"
    using thaw e(5,6) e'(1) data(2) sub by (simp add: evbuffer_add_def add_to_last_def)
  have b2: "chains ?b2 = [c, e']" "last_with_datap ?b2 = 0" "total_len ?b2 = off c + length data"
      "\<not> freeze_start ?b2" "bytes ?b2 = bytes b @ data"
    using lwd(1) tot data(3) bytes_c e(2) e'(2) thaw by (simp_all add: size_add_fits bytes_def ch(1))
  have "evbuffer_remove_buffer al ?b2 dst m = None"
    if "\<not> freeze_end dst" "length (bytes b) \<le> m" "m < length (bytes b) + length data" for dst m
  proof -
    have "m \<noteq> 0" "\<not> m \<ge> total_len ?b2" "off c \<le> m" using that bytes_c ch(2) b2(3) by auto
    then show ?thesis using that(1) b2 by (simp add: evbuffer_remove_buffer_def)
  qed
  then show ?thesis using expand add b2(5) by blast
qed

theorem expand_add_remove_aborts_witness:
  "\<exists>b1 b2. evbuffer_expand Some (sample [Some 1]) 20 = Some (0, b1) \<and>
    evbuffer_add Some b1 [Some 2, Some 3] = Some (0, b2) \<and> bytes b2 = [Some 1, Some 2, Some 3] \<and>
    evbuffer_remove_buffer Some b2 evbuffer_new 2 = None"
proof -
  have "evbuffer_chain_new Some 20 \<noteq> None"
    by (simp add: chain_new_None_iff EVBUFFER_CHAIN_MAX_def EV_SSIZE_MAX_def EVBUFFER_CHAIN_SIZE_def)
  then obtain e where e: "evbuffer_chain_new Some 20 = Some e" by blast
  have realign: "\<not> evbuffer_chain_should_realign (sample_chain [Some 1]) 20"
    by (simp add: evbuffer_chain_should_realign_def sample_chain_fields size_sub_def)
  obtain b1 b2 where r: "evbuffer_expand Some (sample [Some 1]) 20 = Some (0, b1)"
    "evbuffer_add Some b1 [Some 2, Some 3] = Some (0, b2)" "bytes b2 = bytes (sample [Some 1]) @ [Some 2, Some 3]"
    "\<forall>dst m. \<not> freeze_end dst \<and> length (bytes (sample [Some 1])) \<le> m \<and>
      m < length (bytes (sample [Some 1])) + length [Some 2 :: cell, Some 3] \<longrightarrow> evbuffer_remove_buffer Some b2 dst m = None"
    using expand_add_remove_aborts [OF sample_facts(1) sample_chains, of "[Some 1]" 20 Some e "[Some 2, Some 3]"]
      e realign
    by (auto simp: sample_facts sample_space sample_chain_fields big_enough EVBUFFER_CHAIN_MAX_def EV_SSIZE_MAX_def)
  then have "evbuffer_remove_buffer Some b2 evbuffer_new 2 = None"
    by (simp add: sample_facts evbuffer_new_def)
  then show ?thesis using r(1-3) by (simp add: sample_facts)
qed

text \<open>
  \<open>evbuffer_prepend\<close> counts the room of the chain behind the new one for its callbacks in the
  place of the data: with no room in front of the data it calls no callback at all, though
  the bytes have grown.
\<close>

theorem prepend_calls_nobody:
  assumes inv: "ev_inv b" "tight b" and c: "chains b = c # cs" "off c \<noteq> 0" "misalign c = 0"
    and idle: "n_add_for_cb b = 0" "n_del_for_cb b = 0" and thaw: "\<not> freeze_start b"
    and data: "data \<noteq> []" "length (bytes b) + length data \<le> EV_SIZE_MAX" and mem: "evbuffer_chain_new al (length data) \<noteq> None"
  shows "\<exists>b'. evbuffer_prepend al b data = Some (0, b') \<and> bytes b' = data @ bytes b \<and> calls b' = calls b"
proof -
  obtain tmp where tmp: "evbuffer_chain_new al (length data) = Some tmp" using mem by auto
  note t = chain_new_ok [OF tmp]
  have tot: "total_len b = length (bytes b)" using ev_inv_total(1) [OF inv(1)] .
  obtain r b' where r: "evbuffer_prepend al b data = Some (r, b')" "prepends b data (r, b')"
    using prepend_ok [OF inv data, of al] by (metis prod.collapse)
  have "set_first c b = b" using c(1) by (simp add: set_first_def)
  have chain: "prepend_new_chain al b data c = Some (r, b')"
    using r(1) thaw data tot c \<open>set_first c b = b\<close>
    by (auto simp: evbuffer_prepend_def prepend_to_first_def size_sub_fits Let_def split: if_splits)
  then have "r = 0 \<and> calls b' = calls b"
    using tmp t c(3) idle
    by (auto simp: prepend_new_chain_def memcpy_fits Let_def size_add_def evbuffer_invoke_callbacks_def
        evbuffer_run_callbacks_def split: if_splits)
  then show ?thesis using r by (auto simp: prepends_def)
qed

theorem prepend_calls_nobody_witness:
  "\<exists>b'. evbuffer_prepend Some (sample [Some 1]) [Some 2] = Some (0, b') \<and> bytes b' = [Some 2, Some 1] \<and> calls b' = []"
proof -
  have "evbuffer_chain_new Some 1 \<noteq> None"
    by (simp add: chain_new_None_iff EVBUFFER_CHAIN_MAX_def EV_SSIZE_MAX_def EVBUFFER_CHAIN_SIZE_def)
  then show ?thesis
    using prepend_calls_nobody [of "sample [Some 1]" "sample_chain [Some 1]" "[]" "[Some 2]" Some]
    by (simp add: sample_facts sample_chains sample_chain_fields big_enough)
      (simp add: sample_def evbuffer_new_def)
qed

end
