(* ===== verification/EventBase.thy ===== *)
theory EventBase imports MinHeap "HOL-Library.Monad_Syntax" begin

text \<open>
  The event base of libevent (\<open>event.c\<close>, \<open>evmap.c\<close>): the events, the queues they are on, the
  timer heap of \<open>MinHeap\<close>, the maps from descriptors and signals to events, and the operations
  that add, delete and activate events. The base belongs to the thread that runs its loop, so
  nobody waits and nobody is notified; debug mode is off, and there are no common timeouts. A
  computation is
  \<^const>\<open>None\<close> when the code ends the process (\<open>event_errx\<close>, \<open>EVUTIL_ASSERT\<close>), reads through a
  null pointer or lets the size of a map overflow an \<open>int\<close>. Pointers have eight bytes, and the
  seconds of a time do not overflow.
\<close>

unbundle bit_operations_syntax

section \<open>Events\<close>

datatype ev_what = EV_TIMEOUT | EV_READ | EV_WRITE | EV_SIGNAL | EV_PERSIST | EV_ET

datatype evlist = EVLIST_TIMEOUT | EVLIST_INSERTED | EVLIST_ACTIVE | EVLIST_INTERNAL | EVLIST_INIT

datatype ev_closure_kind = EV_CLOSURE_NONE | EV_CLOSURE_SIGNAL | EV_CLOSURE_PERSIST

text \<open>
  \<open>ev_base\<close> says whether the pointer to the base is set: there is one base, and \<open>event_assign\<close> sets
  it. \<open>ev_ncalls\<close> is a \<open>short\<close>, as a word; its sign is never looked at.
  \<open>ev_pncalls\<close> points at a local variable of a run of \<open>event_signal_closure\<close>; runs have numbers.
  The fields of the union \<open>_ev\<close> are apart: an event for a signal has no descriptor events.
\<close>

record ev_event =
  ev_base :: bool
  ev_fd :: int
  ev_events :: "ev_what set"
  ev_res :: "ev_what set"
  ev_flags :: "evlist set"
  ev_ncalls :: "16 word"
  ev_pncalls :: "nat option"
  ev_pri :: nat
  ev_closure :: ev_closure_kind
  ev_timeout :: timeout
  ev_io_timeout :: timeout

definition io_kinds :: "ev_what set" where "io_kinds = {EV_READ, EV_WRITE}"

definition evutil_timeradd :: "timeout \<Rightarrow> timeout \<Rightarrow> timeout" where
  "evutil_timeradd t u =
    (if t_usec t + t_usec u \<ge> 1000000
     then \<lparr>t_sec = t_sec t + t_sec u + 1, t_usec = t_usec t + t_usec u - 1000000\<rparr>
     else \<lparr>t_sec = t_sec t + t_sec u, t_usec = t_usec t + t_usec u\<rparr>)"

definition evutil_timersub :: "timeout \<Rightarrow> timeout \<Rightarrow> timeout" where
  "evutil_timersub t u =
    (if t_usec t - t_usec u < 0
     then \<lparr>t_sec = t_sec t - t_sec u - 1, t_usec = t_usec t - t_usec u + 1000000\<rparr>
     else \<lparr>t_sec = t_sec t - t_sec u, t_usec = t_usec t - t_usec u\<rparr>)"

text \<open>\<open>evutil_timercmp(t, u, >)\<close>\<close>

definition evutil_timer_greater :: "timeout \<Rightarrow> timeout \<Rightarrow> bool" where
  "evutil_timer_greater t u = (if t_sec t = t_sec u then t_usec t > t_usec u else t_sec t > t_sec u)"

definition time_zero :: timeout where "time_zero = \<lparr>t_sec = 0, t_usec = 0\<rparr>"

text \<open>
  A common timeout is marked in the bits of \<open>tv_usec\<close> above the lowest twenty; \<open>is_common_timeout\<close>
  is false of every timeout of a base without common timeouts.
\<close>

definition MICROSECONDS_MASK :: int where "MICROSECONDS_MASK = 0x000fffff"

definition is_same_common_timeout :: "timeout \<Rightarrow> timeout \<Rightarrow> bool" where
  "is_same_common_timeout t u \<longleftrightarrow> t_usec t AND NOT MICROSECONDS_MASK = t_usec u AND NOT MICROSECONDS_MASK"

section \<open>The base\<close>

record evmap_io =
  io_events :: "nat list"
  nread :: nat
  nwrite :: nat

text \<open>
  Events are addresses, \<open>ev\<close> their contents. \<open>registered\<close> and \<open>sig_registered\<close> are what the backend
  was asked to watch, \<open>frame\<close> the run of \<open>event_signal_closure\<close> that is going on with its
  variable \<open>ncalls\<close>, \<open>wild_writes\<close> the stores through a pointer to such a variable of a run that is
  over, and \<open>ran\<close> the callbacks that were run.
\<close>

record event_base =
  ev :: "nat \<Rightarrow> ev_event"
  eventqueue :: "nat list"
  activequeues :: "nat list list"
  timeheap :: min_heap
  event_count :: int
  event_count_active :: int
  io_nentries :: int
  io_map :: "int \<Rightarrow> evmap_io option"
  sig_nentries :: int
  sigmap :: "int \<Rightarrow> nat list option"
  registered :: "int \<Rightarrow> ev_what set"
  sig_registered :: "int \<Rightarrow> bool"
  tv_now :: timeout
  event_gotterm :: bool
  event_break :: bool
  event_continue :: bool
  event_running_priority :: int
  frame :: "(nat \<times> 16 word) option"
  next_frame :: nat
  wild_writes :: nat
  ran :: "(nat \<times> ev_what set) list"

text \<open>What the operating system answers: memory for the heap and the maps, and the backend.\<close>

record ev_os =
  heap_mem :: "nat \<Rightarrow> bool"
  map_mem :: "int \<Rightarrow> bool"
  slot_mem :: "int \<Rightarrow> bool"
  backend_add :: "int \<Rightarrow> ev_what set \<Rightarrow> bool"
  backend_del :: "int \<Rightarrow> ev_what set \<Rightarrow> bool"

definition upd :: "nat \<Rightarrow> (ev_event \<Rightarrow> ev_event) \<Rightarrow> event_base \<Rightarrow> event_base" where
  "upd e f b = b\<lparr>ev := (ev b)(e := f (ev b e))\<rparr>"

definition tm :: "event_base \<Rightarrow> timeouts" where
  "tm b e = ev_timeout (ev b e)"

definition on :: "event_base \<Rightarrow> evlist \<Rightarrow> nat \<Rightarrow> bool" where
  "on b q e \<longleftrightarrow> q \<in> ev_flags (ev b e)"

section \<open>The queues\<close>

definition event_queue_remove :: "nat \<Rightarrow> evlist \<Rightarrow> event_base \<Rightarrow> event_base option" where
  "event_queue_remove e queue b =
    (if \<not> on b queue e then None
     else
       let b = (if \<not> on b EVLIST_INTERNAL e then b\<lparr>event_count := event_count b - 1\<rparr> else b);
           b = upd e (\<lambda>x. x\<lparr>ev_flags := ev_flags x - {queue}\<rparr>) b;
           pri = ev_pri (ev b e)
       in case queue of
            EVLIST_INSERTED \<Rightarrow> Some (b\<lparr>eventqueue := remove1 e (eventqueue b)\<rparr>)
          | EVLIST_ACTIVE \<Rightarrow>
              if pri < length (activequeues b)
              then Some (b\<lparr>event_count_active := event_count_active b - 1,
                           activequeues := (activequeues b)[pri := remove1 e (activequeues b ! pri)]\<rparr>)
              else None
          | EVLIST_TIMEOUT \<Rightarrow> Some (b\<lparr>timeheap := snd (min_heap_erase (tm b) e (timeheap b))\<rparr>)
          | _ \<Rightarrow> None)"

text \<open>The result of \<open>min_heap_push\<close> is not looked at.\<close>

definition event_queue_insert :: "ev_os \<Rightarrow> nat \<Rightarrow> evlist \<Rightarrow> event_base \<Rightarrow> event_base option" where
  "event_queue_insert os e queue b =
    (if on b queue e then (if queue = EVLIST_ACTIVE then Some b else None)
     else
       let b = (if \<not> on b EVLIST_INTERNAL e then b\<lparr>event_count := event_count b + 1\<rparr> else b);
           b = upd e (\<lambda>x. x\<lparr>ev_flags := insert queue (ev_flags x)\<rparr>) b;
           pri = ev_pri (ev b e)
       in case queue of
            EVLIST_INSERTED \<Rightarrow> Some (b\<lparr>eventqueue := eventqueue b @ [e]\<rparr>)
          | EVLIST_ACTIVE \<Rightarrow>
              if pri < length (activequeues b)
              then Some (b\<lparr>event_count_active := event_count_active b + 1,
                           activequeues := (activequeues b)[pri := activequeues b ! pri @ [e]]\<rparr>)
              else None
          | EVLIST_TIMEOUT \<Rightarrow>
              Some (case min_heap_push (tm b) (heap_mem os (hn (timeheap b) + 1)) e (timeheap b) of
                      None \<Rightarrow> b
                    | Some h \<Rightarrow> b\<lparr>timeheap := h\<rparr>)
          | _ \<Rightarrow> None)"

section \<open>Descriptors and signals\<close>

definition INT_MAX :: int where "INT_MAX = 2147483647"

text \<open>
  \<open>evmap_make_space\<close>: the number of entries doubles, from 32 on, until the slot is there. The result
  of the code, -1 or 0, comes with the number of entries; there is none when the number of entries
  or of bytes does not fit an \<open>int\<close>.
\<close>

function grow_entries :: "int \<Rightarrow> int \<Rightarrow> int option" where
  "grow_entries n slot =
    (if n \<le> slot \<and> 0 < n then (if 2 * n > INT_MAX then None else grow_entries (2 * n) slot) else Some n)"
  by pat_completeness auto
termination
  by (relation "measure (\<lambda>(n, slot). nat (slot + 1 - n))") auto

declare grow_entries.simps [simp del]

definition evmap_make_space :: "ev_os \<Rightarrow> int \<Rightarrow> int \<Rightarrow> (int \<times> int) option" where
  "evmap_make_space os nentries slot =
    (if nentries \<le> slot then do {
       n \<leftarrow> grow_entries (if nentries \<noteq> 0 then nentries else 32) slot;
       if n * 8 > INT_MAX then None
       else if map_mem os slot then Some (0, n) else Some (-1, nentries)
     }
     else Some (0, nentries))"

definition watched :: "evmap_io \<Rightarrow> ev_what set" where
  "watched c = (if nread c \<noteq> 0 then {EV_READ} else {}) \<union> (if nwrite c \<noteq> 0 then {EV_WRITE} else {})"

text \<open>The result is -1 for an error, 1 when the backend was called, else 0.\<close>

definition evmap_io_add :: "ev_os \<Rightarrow> nat \<Rightarrow> event_base \<Rightarrow> (int \<times> event_base) option" where
  "evmap_io_add os e b =
    (let x = ev b e; fd = ev_fd x in
     if fd < 0 then Some (0, b)
     else do {
       (r, n) \<leftarrow> evmap_make_space os (io_nentries b) fd;
       let b = b\<lparr>io_nentries := n\<rparr>;
       if r = -1 then Some (-1, b)
       else if io_map b fd = None \<and> \<not> slot_mem os fd then Some (-1, b)
       else
         let c = (case io_map b fd of None \<Rightarrow> \<lparr>io_events = [], nread = 0, nwrite = 0\<rparr> | Some c \<Rightarrow> c);
             b = b\<lparr>io_map := (io_map b)(fd \<mapsto> c)\<rparr>;
             r = (if EV_READ \<in> ev_events x then nread c + 1 else nread c);
             w = (if EV_WRITE \<in> ev_events x then nwrite c + 1 else nwrite c);
             res = (if EV_READ \<in> ev_events x \<and> r = 1 then {EV_READ} else {}) \<union>
                   (if EV_WRITE \<in> ev_events x \<and> w = 1 then {EV_WRITE} else {})
         in if r > 0xffff \<or> w > 0xffff then Some (-1, b)
            else if res \<noteq> {} \<and> \<not> backend_add os fd (res \<union> ev_events x \<inter> {EV_ET}) then Some (-1, b)
            else Some (if res \<noteq> {} then 1 else 0,
                  b\<lparr>registered := (registered b)(fd := registered b fd \<union> res),
                    io_map := (io_map b)(fd \<mapsto> \<lparr>io_events = io_events c @ [e], nread = r, nwrite = w\<rparr>)\<rparr>)
     })"

definition evmap_io_del :: "ev_os \<Rightarrow> nat \<Rightarrow> event_base \<Rightarrow> (int \<times> event_base) option" where
  "evmap_io_del os e b =
    (let x = ev b e; fd = ev_fd x in
     if fd < 0 then Some (0, b)
     else if fd \<ge> io_nentries b then Some (-1, b)
     else do {
       c \<leftarrow> io_map b fd;
       if EV_READ \<in> ev_events x \<and> nread c = 0 \<or> EV_WRITE \<in> ev_events x \<and> nwrite c = 0 then None
       else
         let r = (if EV_READ \<in> ev_events x then nread c - 1 else nread c);
             w = (if EV_WRITE \<in> ev_events x then nwrite c - 1 else nwrite c);
             res = (if EV_READ \<in> ev_events x \<and> r = 0 then {EV_READ} else {}) \<union>
                   (if EV_WRITE \<in> ev_events x \<and> w = 0 then {EV_WRITE} else {})
         in if res \<noteq> {} \<and> \<not> backend_del os fd res then Some (-1, b)
            else Some (if res \<noteq> {} then 1 else 0,
                   b\<lparr>registered := (registered b)(fd := registered b fd - res),
                     io_map := (io_map b)(fd \<mapsto> \<lparr>io_events = remove1 e (io_events c), nread = r, nwrite = w\<rparr>)\<rparr>)
     })"

definition evmap_signal_add :: "ev_os \<Rightarrow> nat \<Rightarrow> event_base \<Rightarrow> (int \<times> event_base) option" where
  "evmap_signal_add os e b =
    (let sig = ev_fd (ev b e) in
     if sig < 0 then None
     else do {
       (r, n) \<leftarrow> evmap_make_space os (sig_nentries b) sig;
       let b = b\<lparr>sig_nentries := n\<rparr>;
       if r = -1 then Some (-1, b)
       else if sigmap b sig = None \<and> \<not> slot_mem os sig then Some (-1, b)
       else
         let evs = (case sigmap b sig of None \<Rightarrow> [] | Some evs \<Rightarrow> evs);
             b = b\<lparr>sigmap := (sigmap b)(sig \<mapsto> evs)\<rparr>
         in if evs = [] \<and> \<not> backend_add os sig {EV_SIGNAL} then Some (-1, b)
            else Some (1, b\<lparr>sig_registered := (sig_registered b)(sig := True),
                            sigmap := (sigmap b)(sig \<mapsto> evs @ [e])\<rparr>)
     })"

definition evmap_signal_del :: "ev_os \<Rightarrow> nat \<Rightarrow> event_base \<Rightarrow> (int \<times> event_base) option" where
  "evmap_signal_del os e b =
    (let sig = ev_fd (ev b e) in
     if sig \<ge> sig_nentries b then Some (-1, b)
     else if sig < 0 then None
     else do {
       evs \<leftarrow> sigmap b sig;
       let only = (length evs \<le> 1);
       if only \<and> \<not> backend_del os sig {EV_SIGNAL} then Some (-1, b)
       else Some (1, b\<lparr>sig_registered := (sig_registered b)(sig := (if only then False else sig_registered b sig)),
                       sigmap := (sigmap b)(sig \<mapsto> remove1 e evs)\<rparr>)
     })"

end
