(* ===== verification/EventOps.thy ===== *)
theory EventOps imports EventBase begin

text \<open>
  Adding, deleting and activating events (\<open>event_add_internal\<close>, \<open>event_del_internal\<close>,
  \<open>event_active_nolock\<close> of \<open>event.c\<close>), the activation from the maps, the timers that are due, and
  the small operations around them.
\<close>

section \<open>A new base\<close>

definition event_base_priority_init :: "bool \<Rightarrow> int \<Rightarrow> event_base \<Rightarrow> int \<times> event_base" where
  "event_base_priority_init calloc_ok npriorities b =
    (if event_count_active b \<noteq> 0 \<or> npriorities < 1 \<or> npriorities \<ge> 256 then (-1, b)
     else if npriorities = int (length (activequeues b)) then (0, b)
     else if \<not> calloc_ok then (-1, b\<lparr>activequeues := []\<rparr>)
     else (0, b\<lparr>activequeues := replicate (nat npriorities) []\<rparr>))"

text \<open>
  The fields that \<open>event_base_new_with_config\<close> sets before it looks for a backend, and the single
  queue of active events it makes afterwards; the memory of the events is clear, so that none has a
  base. Which backend is taken is left out: a backend is what \<open>ev_os\<close> answers.
\<close>

definition event_base_new :: "timeout \<Rightarrow> event_base" where
  "event_base_new now =
    snd (event_base_priority_init True 1
      \<lparr>ev = (\<lambda>_. \<lparr>ev_base = False, ev_fd = 0, ev_events = {}, ev_res = {}, ev_flags = {}, ev_ncalls = 0, ev_pncalls = None, ev_pri = 0,
                  ev_closure = EV_CLOSURE_NONE, ev_timeout = time_zero, ev_io_timeout = time_zero\<rparr>),
       eventqueue = [], activequeues = [], timeheap = min_heap_ctor (\<lambda>_. -1), event_count = 0, event_count_active = 0,
       io_nentries = 0, io_map = (\<lambda>_. None), sig_nentries = 0, sigmap = (\<lambda>_. None), registered = (\<lambda>_. {}),
       sig_registered = (\<lambda>_. False), tv_now = now, event_gotterm = False, event_break = False, event_continue = False,
       event_running_priority = 0, frame = None, next_frame = 0, wild_writes = 0, ran = []\<rparr>)"

section \<open>Setting up an event\<close>

text \<open>\<open>event_assign\<close> to the base; the mixed event leaves the fields before the test set.\<close>

definition event_assign :: "nat \<Rightarrow> int \<Rightarrow> ev_what set \<Rightarrow> event_base \<Rightarrow> int \<times> event_base" where
  "event_assign e fd what b =
    (let b = upd e (\<lambda>x. x\<lparr>ev_base := True, ev_fd := fd, ev_events := what, ev_res := {}, ev_flags := {EVLIST_INIT},
               ev_ncalls := 0, ev_pncalls := None\<rparr>) b
     in if EV_SIGNAL \<in> what \<and> what \<inter> io_kinds \<noteq> {} then (-1, b)
        else
          let b = upd e (\<lambda>x. if EV_SIGNAL \<in> what then x\<lparr>ev_closure := EV_CLOSURE_SIGNAL\<rparr>
                    else if EV_PERSIST \<in> what then x\<lparr>ev_io_timeout := time_zero, ev_closure := EV_CLOSURE_PERSIST\<rparr>
                    else x\<lparr>ev_closure := EV_CLOSURE_NONE\<rparr>) b;
              b = b\<lparr>timeheap := min_heap_elem_init (timeheap b) e\<rparr>
          in (0, upd e (\<lambda>x. x\<lparr>ev_pri := length (activequeues b) div 2\<rparr>) b))"

definition event_priority_set :: "nat \<Rightarrow> int \<Rightarrow> event_base \<Rightarrow> (int \<times> event_base) option" where
  "event_priority_set e pri b =
    (if on b EVLIST_ACTIVE e then Some (-1, b)
     else if pri < 0 then Some (-1, b)
     else if \<not> ev_base (ev b e) then None
     else if pri \<ge> int (length (activequeues b)) then Some (-1, b)
     else Some (0, upd e (\<lambda>x. x\<lparr>ev_pri := nat pri\<rparr>) b))"

definition event_pending :: "nat \<Rightarrow> ev_what set \<Rightarrow> event_base \<Rightarrow> ev_what set" where
  "event_pending e what b =
    (if \<not> ev_base (ev b e) then {} else
     let flags = (if on b EVLIST_INSERTED e then ev_events (ev b e) \<inter> {EV_READ, EV_WRITE, EV_SIGNAL} else {}) \<union>
                 (if on b EVLIST_ACTIVE e then ev_res (ev b e) else {}) \<union>
                 (if on b EVLIST_TIMEOUT e then {EV_TIMEOUT} else {})
     in flags \<inter> (what \<inter> {EV_TIMEOUT, EV_READ, EV_WRITE, EV_SIGNAL}))"

section \<open>Adding, deleting, activating\<close>

text \<open>\<open>if (ev->ev_ncalls && ev->ev_pncalls) *ev->ev_pncalls = 0\<close>\<close>

definition abort_calls :: "nat \<Rightarrow> event_base \<Rightarrow> event_base" where
  "abort_calls e b =
    (case ev_pncalls (ev b e) of
       None \<Rightarrow> b
     | Some p \<Rightarrow>
         if ev_ncalls (ev b e) = 0 then b
         else case frame b of
           Some (f, n) \<Rightarrow> if f = p then b\<lparr>frame := Some (f, 0)\<rparr> else b\<lparr>wild_writes := wild_writes b + 1\<rparr>
         | None \<Rightarrow> b\<lparr>wild_writes := wild_writes b + 1\<rparr>)"

definition add_to_maps :: "ev_os \<Rightarrow> nat \<Rightarrow> event_base \<Rightarrow> (int \<times> event_base) option" where
  "add_to_maps os e b =
    (let x = ev b e in
     if ev_events x \<inter> {EV_READ, EV_WRITE, EV_SIGNAL} \<noteq> {} \<and> ev_flags x \<inter> {EVLIST_INSERTED, EVLIST_ACTIVE} = {}
     then do {
       (res, b) \<leftarrow> (if ev_events x \<inter> io_kinds \<noteq> {} then evmap_io_add os e b else evmap_signal_add os e b);
       b \<leftarrow> (if res \<noteq> -1 then event_queue_insert os e EVLIST_INSERTED b else Some b);
       Some (if res = 1 then 0 else res, b)
     }
     else Some (0, b))"

definition add_timeout :: "ev_os \<Rightarrow> nat \<Rightarrow> timeout \<Rightarrow> bool \<Rightarrow> event_base \<Rightarrow> event_base option" where
  "add_timeout os e tv absolute b = do {
    let b = (if ev_closure (ev b e) = EV_CLOSURE_PERSIST \<and> \<not> absolute
             then upd e (\<lambda>x. x\<lparr>ev_io_timeout := tv\<rparr>) b else b);
    b \<leftarrow> (if on b EVLIST_TIMEOUT e then event_queue_remove e EVLIST_TIMEOUT b else Some b);
    b \<leftarrow> (if on b EVLIST_ACTIVE e \<and> EV_TIMEOUT \<in> ev_res (ev b e) then
             event_queue_remove e EVLIST_ACTIVE (if EV_SIGNAL \<in> ev_events (ev b e) then abort_calls e b else b)
           else Some b);
    let b = upd e (\<lambda>x. x\<lparr>ev_timeout := (if absolute then tv else evutil_timeradd (tv_now b) tv)\<rparr>) b;
    event_queue_insert os e EVLIST_TIMEOUT b
  }"

definition event_add_internal ::
    "ev_os \<Rightarrow> nat \<Rightarrow> timeout option \<Rightarrow> bool \<Rightarrow> event_base \<Rightarrow> (int \<times> event_base) option" where
  "event_add_internal os e tv absolute b =
    (if \<not> ev_base (ev b e) then None else
     case (if tv \<noteq> None \<and> \<not> on b EVLIST_TIMEOUT e
           then min_heap_reserve (heap_mem os (1 + min_heap_size (timeheap b))) (timeheap b) (1 + min_heap_size (timeheap b))
           else Some (timeheap b)) of
       None \<Rightarrow> Some (-1, b)
     | Some h \<Rightarrow> do {
         (res, b) \<leftarrow> add_to_maps os e (b\<lparr>timeheap := h\<rparr>);
         b \<leftarrow> (case tv of
                 Some t \<Rightarrow> if res \<noteq> -1 then add_timeout os e t absolute b else Some b
               | None \<Rightarrow> Some b);
         Some (res, b)
       })"

definition event_del_internal :: "ev_os \<Rightarrow> nat \<Rightarrow> event_base \<Rightarrow> (int \<times> event_base) option" where
  "event_del_internal os e b = (if \<not> ev_base (ev b e) then Some (-1, b) else do {
    let b = (if EV_SIGNAL \<in> ev_events (ev b e) then abort_calls e b else b);
    b \<leftarrow> (if on b EVLIST_TIMEOUT e then event_queue_remove e EVLIST_TIMEOUT b else Some b);
    b \<leftarrow> (if on b EVLIST_ACTIVE e then event_queue_remove e EVLIST_ACTIVE b else Some b);
    if on b EVLIST_INSERTED e then do {
      b \<leftarrow> event_queue_remove e EVLIST_INSERTED b;
      (res, b) \<leftarrow> (if ev_events (ev b e) \<inter> io_kinds \<noteq> {} then evmap_io_del os e b else evmap_signal_del os e b);
      Some (if res = 1 then 0 else res, b)
    }
    else Some (0, b)
  })"

text \<open>\<open>ncalls\<close> is a \<open>short\<close>.\<close>

definition event_active_nolock :: "ev_os \<Rightarrow> nat \<Rightarrow> ev_what set \<Rightarrow> 16 word \<Rightarrow> event_base \<Rightarrow> event_base option" where
  "event_active_nolock os e res ncalls b =
    (if on b EVLIST_ACTIVE e then Some (upd e (\<lambda>x. x\<lparr>ev_res := ev_res x \<union> res\<rparr>) b)
     else if \<not> ev_base (ev b e) then None
     else
       let b = upd e (\<lambda>x. x\<lparr>ev_res := res\<rparr>) b;
           b = (if int (ev_pri (ev b e)) < event_running_priority b then b\<lparr>event_continue := True\<rparr> else b);
           b = (if EV_SIGNAL \<in> ev_events (ev b e)
                then upd e (\<lambda>x. x\<lparr>ev_ncalls := ncalls, ev_pncalls := None\<rparr>) b else b)
       in event_queue_insert os e EVLIST_ACTIVE b)"

definition event_add :: "ev_os \<Rightarrow> nat \<Rightarrow> timeout option \<Rightarrow> event_base \<Rightarrow> (int \<times> event_base) option" where
  "event_add os e tv b = (if \<not> ev_base (ev b e) then Some (-1, b) else event_add_internal os e tv False b)"

definition event_del :: "ev_os \<Rightarrow> nat \<Rightarrow> event_base \<Rightarrow> (int \<times> event_base) option" where
  "event_del os e b = (if \<not> ev_base (ev b e) then Some (-1, b) else event_del_internal os e b)"

definition event_active :: "ev_os \<Rightarrow> nat \<Rightarrow> ev_what set \<Rightarrow> 16 word \<Rightarrow> event_base \<Rightarrow> event_base option" where
  "event_active os e res ncalls b = (if \<not> ev_base (ev b e) then Some b else event_active_nolock os e res ncalls b)"

section \<open>What the backend reports\<close>

fun activate_all :: "ev_os \<Rightarrow> ev_what set \<Rightarrow> nat list \<Rightarrow> event_base \<Rightarrow> event_base option" where
  "activate_all os what [] b = Some b"
| "activate_all os what (e # es) b = do {
     b \<leftarrow> (if ev_events (ev b e) \<inter> what \<noteq> {} then event_active_nolock os e (ev_events (ev b e) \<inter> what) 1 b else Some b);
     activate_all os what es b
   }"

definition evmap_io_active :: "ev_os \<Rightarrow> int \<Rightarrow> ev_what set \<Rightarrow> event_base \<Rightarrow> event_base option" where
  "evmap_io_active os fd what b =
    (if fd \<ge> io_nentries b \<or> fd < 0 then None
     else do { c \<leftarrow> io_map b fd; activate_all os what (io_events c) b })"

text \<open>The count of the signal is an \<open>int\<close>; each call of \<open>event_active_nolock\<close> takes its low half.\<close>

fun activate_signals :: "ev_os \<Rightarrow> 32 word \<Rightarrow> nat list \<Rightarrow> event_base \<Rightarrow> event_base option" where
  "activate_signals os ncalls [] b = Some b"
| "activate_signals os ncalls (e # es) b = do {
     b \<leftarrow> event_active_nolock os e {EV_SIGNAL} (ucast ncalls) b;
     activate_signals os ncalls es b
   }"

definition evmap_signal_active :: "ev_os \<Rightarrow> int \<Rightarrow> 32 word \<Rightarrow> event_base \<Rightarrow> event_base option" where
  "evmap_signal_active os sig ncalls b =
    (if sig \<ge> sig_nentries b \<or> sig < 0 then None
     else do { evs \<leftarrow> sigmap b sig; activate_signals os ncalls evs b })"

section \<open>Timers\<close>

text \<open>How long the backend may wait: \<open>Some None\<close>, for ever, without timers.\<close>

definition timeout_next :: "event_base \<Rightarrow> timeout option option" where
  "timeout_next b =
    (case min_heap_top (timeheap b) of
       None \<Rightarrow> Some None
     | Some e \<Rightarrow>
         if \<not> evutil_timer_greater (ev_timeout (ev b e)) (tv_now b) then Some (Some time_zero)
         else
           let tv = evutil_timersub (ev_timeout (ev b e)) (tv_now b) in
           if t_sec tv \<ge> 0 \<and> t_usec tv \<ge> 0 then Some (Some tv) else None)"

partial_function (option) timeout_process :: "ev_os \<Rightarrow> event_base \<Rightarrow> event_base option" where
  "timeout_process os b =
    (case min_heap_top (timeheap b) of
       None \<Rightarrow> Some b
     | Some e \<Rightarrow>
         if evutil_timer_greater (ev_timeout (ev b e)) (tv_now b) then Some b
         else do {
           (_, b) \<leftarrow> event_del_internal os e b;
           b \<leftarrow> event_active_nolock os e {EV_TIMEOUT} 1 b;
           timeout_process os b
         })"

end
