(* ===== verification/EventInv.thy ===== *)
theory EventInv imports EventOps begin

text \<open>
  The invariant of the base: an event is on a queue exactly when its flag says so, and once; the
  counters count; the maps hold the inserted events and nothing else, and the backend watches
  what those events ask for. Each operation keeps it.
\<close>

section \<open>Lists that lose or gain an element\<close>

lemma taken_out:
  assumes "mset ys + {#e#} = mset xs" "distinct xs"
  shows "distinct ys \<and> set ys = set xs - {e}"
proof -
  have c: "count (mset ys) x = count (mset xs) x - (if x = e then 1 else 0)" for x
    using arg_cong [OF assms(1), of "\<lambda>m. count m x"] by auto
  have one: "count (mset xs) x = (if x \<in> set xs then 1 else 0)" for x
    using assms(2) by (rule distinct_count_atmost_1 [THEN iffD1, rule_format])
  have "count (mset ys) x = (if x \<in> set xs - {e} then 1 else 0)" for x
    using c [of x] one [of x] by auto
  moreover from this have "set ys = set xs - {e}"
    by (metis (full_types) count_eq_zero_iff set_mset_mset subset_antisym subsetI zero_neq_one)
  ultimately show ?thesis by (simp add: distinct_count_atmost_1)
qed

lemma put_in:
  assumes "mset ys = add_mset e (mset xs)" "distinct xs" "e \<notin> set xs"
  shows "distinct ys \<and> set ys = insert e (set xs)"
proof -
  have s: "set ys = insert e (set xs)" using assms(1) by (metis set_mset_add_mset_insert set_mset_mset)
  have "distinct (e # xs)" using assms by simp
  then have "distinct ys" by (metis assms(1) mset.simps(2) mset_eq_imp_distinct_iff)
  with s show ?thesis by simp
qed

lemma mset_concat_update:
  "i < length qs \<Longrightarrow> mset (concat (qs[i := ys])) + mset (qs ! i) = mset (concat qs) + mset ys"
proof (induction qs arbitrary: i)
  case (Cons q qs)
  then show ?case by (cases i) (auto simp: ac_simps)
qed simp

lemma mset_out:
  assumes "C + A = B + R" "A = add_mset e R"
  shows "C + {#e#} = (B :: 'a multiset)"
proof -
  have "(C + {#e#}) + R = C + A" unfolding assms(2) by (simp add: ac_simps)
  then show ?thesis unfolding assms(1) by (rule add_right_imp_eq)
qed

section \<open>The queues\<close>

definition queue_names :: "evlist set" where
  "queue_names = {EVLIST_INSERTED, EVLIST_ACTIVE, EVLIST_TIMEOUT}"

definition members :: "event_base \<Rightarrow> evlist \<Rightarrow> nat list" where
  "members b q = (case q of EVLIST_INSERTED \<Rightarrow> eventqueue b | EVLIST_ACTIVE \<Rightarrow> concat (activequeues b)
                   | EVLIST_TIMEOUT \<Rightarrow> els (timeheap b) | _ \<Rightarrow> [])"

definition all_on :: "event_base \<Rightarrow> nat multiset" where
  "all_on b = mset (members b EVLIST_INSERTED) + mset (members b EVLIST_ACTIVE) + mset (members b EVLIST_TIMEOUT)"

definition queues_ok :: "event_base \<Rightarrow> bool" where
  "queues_ok b \<longleftrightarrow>
    (\<forall>q \<in> queue_names. distinct (members b q) \<and> (\<forall>e. on b q e \<longleftrightarrow> e \<in> set (members b q))) \<and>
    heap_inv (tm b) (timeheap b) \<and>
    (\<forall>p < length (activequeues b). \<forall>e \<in> set (activequeues b ! p). ev_pri (ev b e) = p) \<and>
    (\<forall>e. ev_pri (ev b e) < length (activequeues b)) \<and>
    event_count b = int (size (filter_mset (\<lambda>e. \<not> on b EVLIST_INTERNAL e) (all_on b))) \<and>
    event_count_active b = int (length (members b EVLIST_ACTIVE))"

text \<open>What an operation on the queues leaves alone: all of an event but its flags, and the maps.\<close>

definition maps :: "event_base \<Rightarrow> int \<times> (int \<Rightarrow> evmap_io option) \<times> int \<times> (int \<Rightarrow> nat list option) \<times>
    (int \<Rightarrow> ev_what set) \<times> (int \<Rightarrow> bool)" where
  "maps b = (io_nentries b, io_map b, sig_nentries b, sigmap b, registered b, sig_registered b)"

definition control :: "event_base \<Rightarrow> timeout \<times> bool \<times> bool \<times> bool \<times> int \<times> (nat \<times> 16 word) option \<times> nat \<times> nat \<times>
    (nat \<times> ev_what set) list" where
  "control b = (tv_now b, event_gotterm b, event_break b, event_continue b, event_running_priority b,
    frame b, next_frame b, wild_writes b, ran b)"

definition moved :: "event_base \<Rightarrow> event_base \<Rightarrow> nat \<Rightarrow> (evlist set \<Rightarrow> evlist set) \<Rightarrow> bool" where
  "moved b b' e f \<longleftrightarrow> ev b' = (ev b)(e := (ev b e)\<lparr>ev_flags := f (ev_flags (ev b e))\<rparr>) \<and>
    maps b' = maps b \<and> control b' = control b \<and> length (activequeues b') = length (activequeues b)"

lemma movedD:
  assumes "moved b b' e f"
  shows "ev b' = (ev b)(e := (ev b e)\<lparr>ev_flags := f (ev_flags (ev b e))\<rparr>)" "maps b' = maps b"
    "control b' = control b" "length (activequeues b') = length (activequeues b)"
    "tm b' = tm b" "ev_pri (ev b' x) = ev_pri (ev b x)" "ev_events (ev b' x) = ev_events (ev b x)"
    "ev_fd (ev b' x) = ev_fd (ev b x)" "ev_res (ev b' x) = ev_res (ev b x)" "ev_closure (ev b' x) = ev_closure (ev b x)"
    "on b' q x = (if x = e then q \<in> f (ev_flags (ev b e)) else on b q x)"
  using assms by (auto simp: moved_def tm_def on_def fun_eq_iff)

lemma queues_okD:
  assumes "queues_ok b" "q \<in> queue_names"
  shows "distinct (members b q)" "on b q e \<longleftrightarrow> e \<in> set (members b q)"
  using assms by (auto simp: queues_ok_def)

lemma queues_ok_parts:
  assumes "queues_ok b"
  shows "heap_inv (tm b) (timeheap b)"
    "p < length (activequeues b) \<Longrightarrow> x \<in> set (activequeues b ! p) \<Longrightarrow> ev_pri (ev b x) = p"
    "ev_pri (ev b x) < length (activequeues b)"
    "event_count b = int (size (filter_mset (\<lambda>e. \<not> on b EVLIST_INTERNAL e) (all_on b)))"
    "event_count_active b = int (length (members b EVLIST_ACTIVE))"
  using assms by (simp_all add: queues_ok_def)

lemma active_place:
  assumes "queues_ok b" "on b EVLIST_ACTIVE e"
  shows "ev_pri (ev b e) < length (activequeues b)" "e \<in> set (activequeues b ! ev_pri (ev b e))"
proof -
  have "e \<in> set (concat (activequeues b))"
    using assms queues_okD(2) [OF assms(1), of EVLIST_ACTIVE e] by (simp add: queue_names_def members_def)
  then obtain p where "p < length (activequeues b)" "e \<in> set (activequeues b ! p)"
    by (auto simp: in_set_conv_nth [of _ "activequeues b"])
  then show "ev_pri (ev b e) < length (activequeues b)" "e \<in> set (activequeues b ! ev_pri (ev b e))"
    using assms(1) by (auto simp: queues_ok_def)
qed

lemma queue_cases: "q \<in> queue_names \<Longrightarrow>
    (q = EVLIST_INSERTED \<Longrightarrow> P) \<Longrightarrow> (q = EVLIST_ACTIVE \<Longrightarrow> P) \<Longrightarrow> (q = EVLIST_TIMEOUT \<Longrightarrow> P) \<Longrightarrow> P"
  by (auto simp: queue_names_def)

lemma heap_inv_cong: "heap_inv t s \<Longrightarrow> (\<And>x. x \<in> events s \<Longrightarrow> t' x = t x) \<Longrightarrow> heap_inv t' s"
proof -
  assume inv: "heap_inv t s" and eq: "\<And>x. x \<in> events s \<Longrightarrow> t' x = t x"
  have "heap t' (els s)"
    unfolding heap_def
  proof (intro allI impI)
    fix j assume j: "0 < j \<and> j < length (els s)"
    then have "par j < length (els s)" by auto
    then show "le t' (els s ! par j) (els s ! j)"
      using inv j eq [of "els s ! par j"] eq [of "els s ! j"]
      by (auto simp: heap_inv_def heap_def le_def min_heap_elem_greater_def events_def)
  qed
  then show "heap_inv t' s" using inv by (simp add: heap_inv_def)
qed

section \<open>Inserting and removing\<close>

lemma flags_upd:
  "on (upd e (\<lambda>x. x\<lparr>ev_flags := f (ev_flags x)\<rparr>) b) q x = (if x = e then q \<in> f (ev_flags (ev b e)) else on b q x)"
  by (simp add: on_def upd_def)

lemma upd_frame [simp]:
  "eventqueue (upd e f b) = eventqueue b" "activequeues (upd e f b) = activequeues b"
  "timeheap (upd e f b) = timeheap b" "event_count (upd e f b) = event_count b"
  "event_count_active (upd e f b) = event_count_active b" "maps (upd e f b) = maps b"
  "control (upd e f b) = control b" "members (upd e f b) q = members b q" "all_on (upd e f b) = all_on b"
  "frame (upd e f b) = frame b" "tv_now (upd e f b) = tv_now b" "event_running_priority (upd e f b) = event_running_priority b"
  by (simp_all add: upd_def maps_def control_def members_def all_on_def cong: evlist.case_cong)

lemma filter_size_split:
  "A' + {#e#} = A \<Longrightarrow> size (filter_mset P A) = size (filter_mset P A') + (if P e then 1 else 0)"
  by auto

text \<open>What both proofs need: one queue changes by one element, the flag with it.\<close>

lemma queues_ok_remove:
  assumes inv: "queues_ok b" and q: "q \<in> queue_names" and mv: "moved b b' e (\<lambda>f. f - {q})"
    and m: "mset (members b' q) + {#e#} = mset (members b q)" "\<And>q'. q' \<in> queue_names \<Longrightarrow> q' \<noteq> q \<Longrightarrow> members b' q' = members b q'"
    and heap: "heap_inv (tm b) (timeheap b')"
    and aq: "\<And>p. p < length (activequeues b) \<Longrightarrow> set (activequeues b' ! p) \<subseteq> set (activequeues b ! p)"
    and cnt: "event_count b' = event_count b - (if on b EVLIST_INTERNAL e then 0 else 1)"
      "event_count_active b' = event_count_active b - (if q = EVLIST_ACTIVE then 1 else 0)"
  shows "queues_ok b'"
proof -
  note D = movedD [OF mv]
  have qd: "distinct (members b q)" by (rule queues_okD [OF inv q])
  have out: "distinct (members b' q)" "set (members b' q) = set (members b q) - {e}"
    using taken_out [OF m(1) qd] by auto
  have 1: "distinct (members b' q') \<and> (\<forall>x. on b' q' x \<longleftrightarrow> x \<in> set (members b' q'))" if "q' \<in> queue_names" for q'
  proof (cases "q' = q")
    case True
    then show ?thesis using out queues_okD(2) [OF inv q] D(11) by auto
  next
    case False
    then show ?thesis using m(2) [OF that False] queues_okD [OF inv that] D(11)
      by (auto simp: on_def)
  qed
  have all: "all_on b' + {#e#} = all_on b"
    using q m by (elim queue_cases) (auto simp: all_on_def queue_names_def ac_simps)
  have int: "on b' EVLIST_INTERNAL x = on b EVLIST_INTERNAL x" for x
    using q D(11) by (auto simp: queue_names_def on_def)
  have lens: "length (members b q) = length (members b' q) + 1"
    using m(1) by (metis size_mset size_single size_union)
  have len: "int (length (members b' EVLIST_ACTIVE)) = int (length (members b EVLIST_ACTIVE)) - (if q = EVLIST_ACTIVE then 1 else 0)"
    using m(2) [of EVLIST_ACTIVE] lens by (auto simp: queue_names_def)
  have "event_count b' = int (size (filter_mset (\<lambda>e. \<not> on b' EVLIST_INTERNAL e) (all_on b')))"
    using queues_ok_parts(4) [OF inv] cnt(1) filter_size_split [OF all, of "\<lambda>e. \<not> on b EVLIST_INTERNAL e"]
    by (auto simp: int)
  moreover have "event_count_active b' = int (length (members b' EVLIST_ACTIVE))"
    using queues_ok_parts(5) [OF inv] cnt(2) len by simp
  moreover have "\<forall>p < length (activequeues b'). \<forall>x \<in> set (activequeues b' ! p). ev_pri (ev b' x) = p"
    using queues_ok_parts(2) [OF inv] aq D(4,6) by (metis subsetD)
  ultimately show ?thesis unfolding queues_ok_def using 1 heap queues_ok_parts(3) [OF inv] D(4-6) by simp
qed

lemma queues_ok_insert:
  assumes inv: "queues_ok b" and q: "q \<in> queue_names" and off: "\<not> on b q e" and mv: "moved b b' e (insert q)"
    and m: "mset (members b' q) = add_mset e (mset (members b q))" "\<And>q'. q' \<in> queue_names \<Longrightarrow> q' \<noteq> q \<Longrightarrow> members b' q' = members b q'"
    and heap: "heap_inv (tm b) (timeheap b')"
    and aq: "\<And>p. p < length (activequeues b) \<Longrightarrow> set (activequeues b' ! p) \<subseteq> set (activequeues b ! p) \<union> (if p = ev_pri (ev b e) then {e} else {})"
    and cnt: "event_count b' = event_count b + (if on b EVLIST_INTERNAL e then 0 else 1)"
      "event_count_active b' = event_count_active b + (if q = EVLIST_ACTIVE then 1 else 0)"
  shows "queues_ok b'"
proof -
  note D = movedD [OF mv]
  have qd: "distinct (members b q)" "e \<notin> set (members b q)" using queues_okD [OF inv q] off by auto
  have out: "distinct (members b' q)" "set (members b' q) = insert e (set (members b q))"
    using put_in [OF m(1) qd] by auto
  have 1: "distinct (members b' q') \<and> (\<forall>x. on b' q' x \<longleftrightarrow> x \<in> set (members b' q'))" if "q' \<in> queue_names" for q'
  proof (cases "q' = q")
    case True
    then show ?thesis using out queues_okD(2) [OF inv q] D(11) by auto
  next
    case False
    then show ?thesis using m(2) [OF that False] queues_okD [OF inv that] D(11)
      by (auto simp: on_def)
  qed
  have all: "all_on b' = add_mset e (all_on b)"
    using q m by (elim queue_cases) (auto simp: all_on_def queue_names_def ac_simps)
  have int: "on b' EVLIST_INTERNAL x = on b EVLIST_INTERNAL x" for x
    using q D(11) by (auto simp: queue_names_def on_def)
  have lens: "length (members b' q) = length (members b q) + 1"
    using m(1) by (metis size_mset size_add_mset add.commute plus_1_eq_Suc)
  have len: "int (length (members b' EVLIST_ACTIVE)) = int (length (members b EVLIST_ACTIVE)) + (if q = EVLIST_ACTIVE then 1 else 0)"
    using m(2) [of EVLIST_ACTIVE] lens by (auto simp: queue_names_def)
  have "event_count b' = int (size (filter_mset (\<lambda>e. \<not> on b' EVLIST_INTERNAL e) (all_on b')))"
    using queues_ok_parts(4) [OF inv] cnt(1) by (auto simp: int all)
  moreover have "event_count_active b' = int (length (members b' EVLIST_ACTIVE))"
    using queues_ok_parts(5) [OF inv] cnt(2) len by simp
  moreover have "\<forall>p < length (activequeues b'). \<forall>x \<in> set (activequeues b' ! p). ev_pri (ev b' x) = p"
  proof (intro allI impI ballI)
    fix p x assume "p < length (activequeues b')" "x \<in> set (activequeues b' ! p)"
    then have "x \<in> set (activequeues b ! p) \<or> p = ev_pri (ev b e) \<and> x = e" "p < length (activequeues b)"
      using aq [of p] D(4) by (auto split: if_splits)
    then show "ev_pri (ev b' x) = p" using queues_ok_parts(2) [OF inv, of p x] D(6) by auto
  qed
  ultimately show ?thesis unfolding queues_ok_def using 1 heap queues_ok_parts(3) [OF inv] D(4-6) by simp
qed

lemma queue_remove_ok:
  assumes inv: "queues_ok b" and q: "q \<in> queue_names" and on_q: "on b q e"
  shows "\<exists>b'. event_queue_remove e q b = Some b' \<and> queues_ok b' \<and> moved b b' e (\<lambda>f. f - {q}) \<and>
    mset (members b' q) + {#e#} = mset (members b q) \<and>
    (\<forall>q' \<in> queue_names. q' \<noteq> q \<longrightarrow> members b' q' = members b q')"
proof -
  define b0 where "b0 = (if \<not> on b EVLIST_INTERNAL e then b\<lparr>event_count := event_count b - 1\<rparr> else b)"
  define b1 where "b1 = upd e (\<lambda>x. x\<lparr>ev_flags := ev_flags x - {q}\<rparr>) b0"
  have b0: "ev b0 = ev b" "activequeues b0 = activequeues b" "eventqueue b0 = eventqueue b" "timeheap b0 = timeheap b"
    "maps b0 = maps b" "control b0 = control b" "event_count_active b0 = event_count_active b"
    "event_count b0 = event_count b - (if on b EVLIST_INTERNAL e then 0 else 1)"
    by (simp_all add: b0_def maps_def control_def)
  have b1: "moved b b1 e (\<lambda>f. f - {q})" using b0 by (simp add: moved_def b1_def upd_def maps_def control_def)
  note D = movedD [OF b1]
  have mem: "e \<in> set (members b q)" using queues_okD(2) [OF inv q] on_q by simp
  have run: "event_queue_remove e q b =
      (case q of
            EVLIST_INSERTED \<Rightarrow> Some (b1\<lparr>eventqueue := remove1 e (eventqueue b1)\<rparr>)
          | EVLIST_ACTIVE \<Rightarrow>
              if ev_pri (ev b1 e) < length (activequeues b1)
              then Some (b1\<lparr>event_count_active := event_count_active b1 - 1,
                           activequeues := (activequeues b1)[ev_pri (ev b1 e) := remove1 e (activequeues b1 ! ev_pri (ev b1 e))]\<rparr>)
              else None
          | EVLIST_TIMEOUT \<Rightarrow> Some (b1\<lparr>timeheap := snd (min_heap_erase (tm b1) e (timeheap b1))\<rparr>)
          | _ \<Rightarrow> None)"
    using on_q by (simp add: event_queue_remove_def Let_def b1_def b0_def cong: evlist.case_cong)
  show ?thesis using q
  proof (rule queue_cases)
    assume Q: "q = EVLIST_INSERTED"
    let ?b = "b1\<lparr>eventqueue := remove1 e (eventqueue b1)\<rparr>"
    have mv: "moved b ?b e (\<lambda>f. f - {q})" using b1 by (simp add: moved_def maps_def control_def)
    have m: "mset (members ?b q) + {#e#} = mset (members b q)"
      "\<And>q'. q' \<in> queue_names \<Longrightarrow> q' \<noteq> q \<Longrightarrow> members ?b q' = members b q'"
      using mem by (auto simp: Q members_def b1_def b0 queue_names_def)
    moreover have "queues_ok ?b"
      by (rule queues_ok_remove [OF inv q mv m]) (use queues_ok_parts(1) [OF inv] in \<open>auto simp: Q b1_def b0\<close>)
    ultimately show ?thesis using run mv by (simp add: Q)
  next
    assume Q: "q = EVLIST_ACTIVE"
    let ?p = "ev_pri (ev b e)"
    have p: "?p < length (activequeues b)" "e \<in> set (activequeues b ! ?p)" using active_place [OF inv] on_q Q by auto
    let ?b = "b1\<lparr>event_count_active := event_count_active b1 - 1,
        activequeues := (activequeues b1)[?p := remove1 e (activequeues b1 ! ?p)]\<rparr>"
    have mv: "moved b ?b e (\<lambda>f. f - {q})" using b1 by (simp add: moved_def maps_def control_def)
    have "mset (concat ((activequeues b)[?p := remove1 e (activequeues b ! ?p)])) + mset (activequeues b ! ?p) =
        mset (concat (activequeues b)) + mset (remove1 e (activequeues b ! ?p))"
      by (rule mset_concat_update [OF p(1)])
    moreover have "mset (activequeues b ! ?p) = add_mset e (mset (remove1 e (activequeues b ! ?p)))" using p(2) by simp
    ultimately have "mset (concat ((activequeues b)[?p := remove1 e (activequeues b ! ?p)])) + {#e#} = mset (concat (activequeues b))"
      by (rule mset_out)
    then have m: "mset (members ?b q) + {#e#} = mset (members b q)"
      "\<And>q'. q' \<in> queue_names \<Longrightarrow> q' \<noteq> q \<Longrightarrow> members ?b q' = members b q'"
      by (auto simp: Q members_def b1_def b0 queue_names_def)
    moreover have "queues_ok ?b"
    proof (rule queues_ok_remove [OF inv q mv m])
      show "heap_inv (tm b) (timeheap ?b)" using queues_ok_parts(1) [OF inv] by (simp add: b1_def b0)
      show "set (activequeues ?b ! p') \<subseteq> set (activequeues b ! p')" if "p' < length (activequeues b)" for p'
        using that set_remove1_subset [of e "activequeues b ! ?p"] by (cases "p' = ?p") (simp_all add: b1_def b0)
    qed (simp_all add: Q b1_def b0)
    ultimately show ?thesis using run mv p by (simp add: Q D(4,6))
  next
    assume Q: "q = EVLIST_TIMEOUT"
    have heap: "heap_inv (tm b) (timeheap b)" using inv by (simp add: queues_ok_def)
    have "e \<in> events (timeheap b)" using mem by (simp add: Q members_def events_def)
    from erase_inv [OF heap this] obtain h where h: "min_heap_erase (tm b) e (timeheap b) = (True, h)" "heap_inv (tm b) h"
      "mset (els h) + {#e#} = mset (els (timeheap b))" by blast
    let ?b = "b1\<lparr>timeheap := h\<rparr>"
    have mv: "moved b ?b e (\<lambda>f. f - {q})" using b1 by (simp add: moved_def maps_def control_def)
    have m: "mset (members ?b q) + {#e#} = mset (members b q)"
      "\<And>q'. q' \<in> queue_names \<Longrightarrow> q' \<noteq> q \<Longrightarrow> members ?b q' = members b q'"
      using h(3) by (auto simp: Q members_def b1_def b0 queue_names_def)
    moreover have "queues_ok ?b"
      by (rule queues_ok_remove [OF inv q mv m]) (use h(2) in \<open>auto simp: Q b1_def b0\<close>)
    moreover have "timeheap b1 = timeheap b" by (simp add: b1_def b0)
    ultimately show ?thesis using run mv h(1) by (simp add: Q D(5))
  qed
qed

text \<open>There is room in the heap whenever a timer is inserted.\<close>

definition roomy_heap :: "event_base \<Rightarrow> bool" where
  "roomy_heap b \<longleftrightarrow> hn (timeheap b) + 1 \<le> ha (timeheap b)"

lemma queue_insert_ok:
  assumes inv: "queues_ok b" and q: "q \<in> queue_names" and off: "\<not> on b q e" and room: "q = EVLIST_TIMEOUT \<longrightarrow> roomy_heap b"
  shows "\<exists>b'. event_queue_insert os e q b = Some b' \<and> queues_ok b' \<and> moved b b' e (insert q) \<and>
    mset (members b' q) = add_mset e (mset (members b q)) \<and>
    (\<forall>q' \<in> queue_names. q' \<noteq> q \<longrightarrow> members b' q' = members b q')"
proof -
  define b0 where "b0 = (if \<not> on b EVLIST_INTERNAL e then b\<lparr>event_count := event_count b + 1\<rparr> else b)"
  define b1 where "b1 = upd e (\<lambda>x. x\<lparr>ev_flags := insert q (ev_flags x)\<rparr>) b0"
  have b0: "ev b0 = ev b" "activequeues b0 = activequeues b" "eventqueue b0 = eventqueue b" "timeheap b0 = timeheap b"
    "maps b0 = maps b" "control b0 = control b" "event_count_active b0 = event_count_active b"
    "event_count b0 = event_count b + (if on b EVLIST_INTERNAL e then 0 else 1)"
    by (simp_all add: b0_def maps_def control_def)
  have b1: "moved b b1 e (insert q)" using b0 by (simp add: moved_def b1_def upd_def maps_def control_def)
  note D = movedD [OF b1]
  have mem: "e \<notin> set (members b q)" using queues_okD(2) [OF inv q] off by simp
  have run: "event_queue_insert os e q b =
      (case q of
            EVLIST_INSERTED \<Rightarrow> Some (b1\<lparr>eventqueue := eventqueue b1 @ [e]\<rparr>)
          | EVLIST_ACTIVE \<Rightarrow>
              if ev_pri (ev b1 e) < length (activequeues b1)
              then Some (b1\<lparr>event_count_active := event_count_active b1 + 1,
                           activequeues := (activequeues b1)[ev_pri (ev b1 e) := activequeues b1 ! ev_pri (ev b1 e) @ [e]]\<rparr>)
              else None
          | EVLIST_TIMEOUT \<Rightarrow>
              Some (case min_heap_push (tm b1) (heap_mem os (hn (timeheap b1) + 1)) e (timeheap b1) of
                      None \<Rightarrow> b1 | Some h \<Rightarrow> b1\<lparr>timeheap := h\<rparr>)
          | _ \<Rightarrow> None)"
    unfolding event_queue_insert_def Let_def b1_def b0_def if_not_P [OF off] by (rule refl)
  show ?thesis using q
  proof (rule queue_cases)
    assume Q: "q = EVLIST_INSERTED"
    let ?b = "b1\<lparr>eventqueue := eventqueue b1 @ [e]\<rparr>"
    have mv: "moved b ?b e (insert q)" using b1 by (simp add: moved_def maps_def control_def)
    have m: "mset (members ?b q) = add_mset e (mset (members b q))"
      "\<And>q'. q' \<in> queue_names \<Longrightarrow> q' \<noteq> q \<Longrightarrow> members ?b q' = members b q'"
      by (auto simp: Q members_def b1_def b0 queue_names_def)
    moreover have "queues_ok ?b"
      by (rule queues_ok_insert [OF inv q off mv m]) (use queues_ok_parts(1) [OF inv] in \<open>auto simp: Q b1_def b0\<close>)
    ultimately show ?thesis using run mv by (simp add: Q)
  next
    assume Q: "q = EVLIST_ACTIVE"
    let ?p = "ev_pri (ev b e)"
    have p: "?p < length (activequeues b)" by (rule queues_ok_parts(3) [OF inv])
    let ?b = "b1\<lparr>event_count_active := event_count_active b1 + 1,
        activequeues := (activequeues b1)[?p := activequeues b1 ! ?p @ [e]]\<rparr>"
    have mv: "moved b ?b e (insert q)" using b1 by (simp add: moved_def maps_def control_def)
    have "mset (concat ((activequeues b)[?p := activequeues b ! ?p @ [e]])) + mset (activequeues b ! ?p) =
        mset (concat (activequeues b)) + mset (activequeues b ! ?p @ [e])"
      by (rule mset_concat_update [OF p])
    then have "mset (concat ((activequeues b)[?p := activequeues b ! ?p @ [e]])) + mset (activequeues b ! ?p) =
        add_mset e (mset (concat (activequeues b))) + mset (activequeues b ! ?p)"
      by (simp add: ac_simps)
    then have "mset (concat ((activequeues b)[?p := activequeues b ! ?p @ [e]])) = add_mset e (mset (concat (activequeues b)))"
      by (rule add_right_imp_eq)
    then have m: "mset (members ?b q) = add_mset e (mset (members b q))"
      "\<And>q'. q' \<in> queue_names \<Longrightarrow> q' \<noteq> q \<Longrightarrow> members ?b q' = members b q'"
      by (auto simp: Q members_def b1_def b0 queue_names_def)
    moreover have "queues_ok ?b"
    proof (rule queues_ok_insert [OF inv q off mv m])
      show "heap_inv (tm b) (timeheap ?b)" using queues_ok_parts(1) [OF inv] by (simp add: b1_def b0)
      show "set (activequeues ?b ! p') \<subseteq> set (activequeues b ! p') \<union> (if p' = ?p then {e} else {})"
        if "p' < length (activequeues b)" for p'
        using that by (cases "p' = ?p") (auto simp add: b1_def b0)
    qed (simp_all add: Q b1_def b0)
    ultimately show ?thesis using run mv p by (simp add: Q D(4,6))
  next
    assume Q: "q = EVLIST_TIMEOUT"
    have heap: "heap_inv (tm b) (timeheap b)" by (rule queues_ok_parts(1) [OF inv])
    have "e \<notin> events (timeheap b)" using mem by (simp add: Q members_def events_def)
    moreover have "min_heap_reserve r (timeheap b) (hn (timeheap b) + 1) = Some (timeheap b)" for r
      using room by (simp add: Q roomy_heap_def min_heap_reserve_def)
    then obtain h where h: "min_heap_push (tm b) (heap_mem os (hn (timeheap b) + 1)) e (timeheap b) = Some h"
      by (simp add: min_heap_push_def)
    ultimately have h': "heap_inv (tm b) h" "mset (els h) = add_mset e (mset (els (timeheap b)))"
      using push_inv [OF heap] by auto
    let ?b = "b1\<lparr>timeheap := h\<rparr>"
    have mv: "moved b ?b e (insert q)" using b1 by (simp add: moved_def maps_def control_def)
    have m: "mset (members ?b q) = add_mset e (mset (members b q))"
      "\<And>q'. q' \<in> queue_names \<Longrightarrow> q' \<noteq> q \<Longrightarrow> members ?b q' = members b q'"
      using h'(2) by (auto simp: Q members_def b1_def b0 queue_names_def)
    moreover have "queues_ok ?b"
      by (rule queues_ok_insert [OF inv q off mv m]) (use h'(1) in \<open>auto simp: Q b1_def b0\<close>)
    moreover have "timeheap b1 = timeheap b" by (simp add: b1_def b0)
    ultimately show ?thesis using run mv h by (simp add: Q D(5))
  qed
qed

text \<open>Removing from a queue leaves the slots of the heap.\<close>

lemma shift_ha: "ha (min_heap_shift_up t s i e) = ha s" "hn (min_heap_shift_up t s i e) = hn s"
proof (induction t s i e rule: min_heap_shift_up.induct)
  case (1 t s i e)
  {
    case 1
    then show ?case using "1.IH" by (subst min_heap_shift_up.simps) (simp add: Let_def)
  next
    case 2
    then show ?case using "1.IH" by (subst min_heap_shift_up.simps) (simp add: Let_def)
  }
qed

lemma shift_down_ha: "ha (min_heap_shift_down t s i e) = ha s \<and> hn (min_heap_shift_down t s i e) = hn s"
proof (induction t s i e rule: min_heap_shift_down.induct)
  case (1 t s i e)
  then show ?case by (subst (1 2) min_heap_shift_down.simps) (simp add: Let_def)
qed

lemma erase_room: "ha (snd (min_heap_erase t e s)) = ha s" "hn (snd (min_heap_erase t e s)) \<le> hn s"
  by (simp_all add: min_heap_erase_def Let_def shift_ha shift_down_ha)

lemma remove_roomy:
  assumes "event_queue_remove e q b = Some b'" "roomy_heap b"
  shows "roomy_heap b'"
  using assms erase_room [of "tm (upd e (\<lambda>x. x\<lparr>ev_flags := ev_flags x - {q}\<rparr>) b)" e "timeheap b"]
  by (auto simp: event_queue_remove_def Let_def roomy_heap_def upd_def tm_def [abs_def] split: if_splits evlist.splits)

end
