(* ===== verification/EventMaps.thy ===== *)
theory EventMaps imports EventInv begin

text \<open>
  The maps of the base against a set of events: every slot lists the events for its descriptor or
  signal, once each, its counters count them, and the backend watches what they ask for.
\<close>

section \<open>The invariant of the maps\<close>

definition io_of :: "nat set \<Rightarrow> event_base \<Rightarrow> int \<Rightarrow> nat set" where
  "io_of S b fd = {e \<in> S. ev_fd (ev b e) = fd \<and> ev_events (ev b e) \<inter> io_kinds \<noteq> {}}"

definition sig_of :: "nat set \<Rightarrow> event_base \<Rightarrow> int \<Rightarrow> nat set" where
  "sig_of S b sig = {e \<in> S. ev_fd (ev b e) = sig \<and> EV_SIGNAL \<in> ev_events (ev b e)}"

definition asking :: "event_base \<Rightarrow> ev_what \<Rightarrow> nat list \<Rightarrow> nat" where
  "asking b k es = length (filter (\<lambda>e. k \<in> ev_events (ev b e)) es)"

definition io_slot_ok :: "nat set \<Rightarrow> event_base \<Rightarrow> int \<Rightarrow> bool" where
  "io_slot_ok S b fd =
    (case io_map b fd of
       None \<Rightarrow> registered b fd = {} \<and> (0 \<le> fd \<longrightarrow> io_of S b fd = {})
     | Some c \<Rightarrow> 0 \<le> fd \<and> fd < io_nentries b \<and> distinct (io_events c) \<and> set (io_events c) = io_of S b fd \<and>
         nread c = asking b EV_READ (io_events c) \<and> nwrite c = asking b EV_WRITE (io_events c) \<and>
         registered b fd = watched c)"

definition sig_slot_ok :: "nat set \<Rightarrow> event_base \<Rightarrow> int \<Rightarrow> bool" where
  "sig_slot_ok S b sig =
    (case sigmap b sig of
       None \<Rightarrow> \<not> sig_registered b sig \<and> sig_of S b sig = {}
     | Some evs \<Rightarrow> 0 \<le> sig \<and> sig < sig_nentries b \<and> distinct evs \<and> set evs = sig_of S b sig \<and>
         sig_registered b sig = (evs \<noteq> []))"

definition maps_ok :: "nat set \<Rightarrow> event_base \<Rightarrow> bool" where
  "maps_ok S b \<longleftrightarrow> 0 \<le> io_nentries b \<and> 0 \<le> sig_nentries b \<and> (\<forall>fd. io_slot_ok S b fd \<and> sig_slot_ok S b fd)"

text \<open>What the maps leave alone.\<close>

definition queue_part :: "event_base \<Rightarrow> (nat \<Rightarrow> ev_event) \<times> nat list \<times> nat list list \<times> min_heap \<times> int \<times> int" where
  "queue_part b = (ev b, eventqueue b, activequeues b, timeheap b, event_count b, event_count_active b)"

definition same_queues :: "event_base \<Rightarrow> event_base \<Rightarrow> bool" where
  "same_queues b b' \<longleftrightarrow> queue_part b' = queue_part b \<and> control b' = control b"

lemma same_queuesD:
  assumes "same_queues b b'"
  shows "ev b' = ev b" "eventqueue b' = eventqueue b" "activequeues b' = activequeues b" "timeheap b' = timeheap b"
    "event_count b' = event_count b" "event_count_active b' = event_count_active b" "control b' = control b"
    "members b' q = members b q" "on b' = on b" "tm b' = tm b" "all_on b' = all_on b"
  using assms
  by (auto simp: same_queues_def queue_part_def members_def on_def [abs_def] tm_def [abs_def] all_on_def split: evlist.splits)

lemma same_queues_ok: "same_queues b b' \<Longrightarrow> queues_ok b' = queues_ok b"
  by (simp add: queues_ok_def same_queuesD)

lemma maps_ok_cong:
  assumes "maps b' = maps b" "\<And>x. ev_fd (ev b' x) = ev_fd (ev b x)" "\<And>x. ev_events (ev b' x) = ev_events (ev b x)"
  shows "maps_ok S b' = maps_ok S b"
proof -
  have "io_of S b' fd = io_of S b fd" "sig_of S b' fd = sig_of S b fd" "asking b' k es = asking b k es" for fd k es
    using assms by (simp_all add: io_of_def sig_of_def asking_def)
  then show ?thesis
    using assms(1) by (simp add: maps_ok_def io_slot_ok_def sig_slot_ok_def maps_def cong: option.case_cong)
qed

lemma maps_okD:
  assumes "maps_ok S b"
  shows "0 \<le> io_nentries b" "0 \<le> sig_nentries b" "io_slot_ok S b fd" "sig_slot_ok S b fd"
  using assms by (simp_all add: maps_ok_def)

section \<open>Room for a slot\<close>

text \<open>Slots below this bound keep the sizes within an \<open>int\<close>.\<close>

definition slot_limit :: int where "slot_limit = 2 ^ 27"

lemma grow_entries_ok:
  "0 < n \<Longrightarrow> slot < slot_limit \<Longrightarrow> n \<le> max 32 (2 * slot) \<Longrightarrow>
    \<exists>m. grow_entries n slot = Some m \<and> slot < m \<and> n \<le> m \<and> m \<le> max 32 (2 * slot)"
proof (induction n slot rule: grow_entries.induct)
  case (1 n slot)
  show ?case
  proof (cases "n \<le> slot")
    case True
    then have "\<not> 2 * n > INT_MAX" using 1 by (simp add: slot_limit_def INT_MAX_def)
    moreover have "2 * n \<le> max 32 (2 * slot)" using True by (simp add: le_max_iff_disj)
    ultimately obtain m where "grow_entries (2 * n) slot = Some m" "slot < m" "2 * n \<le> m" "m \<le> max 32 (2 * slot)"
      using 1 True by auto
    then show ?thesis using True 1(2) \<open>\<not> 2 * n > INT_MAX\<close> by (subst grow_entries.simps) simp
  next
    case False
    then show ?thesis using 1 by (simp add: grow_entries.simps)
  qed
qed

lemma make_space_ok:
  assumes "0 \<le> n" "slot < slot_limit"
  shows "\<exists>r n'. evmap_make_space os n slot = Some (r, n') \<and> n \<le> n' \<and> (r = -1 \<or> r = 0 \<and> slot < n') \<and> (map_mem os slot \<longrightarrow> r = 0)"
proof (cases "n \<le> slot")
  case True
  let ?n = "if n \<noteq> 0 then n else 32"
  have "0 < ?n" "?n \<le> max 32 (2 * slot)" using assms(1) True by auto
  from grow_entries_ok [OF this(1) assms(2) this(2)] obtain m where
    m: "grow_entries ?n slot = Some m" "slot < m" "?n \<le> m" "m \<le> max 32 (2 * slot)" by blast
  have "\<not> m * 8 > INT_MAX" using m(4) assms(2) by (simp add: slot_limit_def INT_MAX_def max_def split: if_splits)
  then show ?thesis using True m by (auto simp: evmap_make_space_def split: if_splits)
qed (simp add: evmap_make_space_def)

section \<open>Descriptors\<close>

lemma asking_snoc: "asking b k (es @ [e]) = asking b k es + (if k \<in> ev_events (ev b e) then 1 else 0)"
  by (simp add: asking_def)

lemma asking_out: "e \<in> set es \<Longrightarrow>
    asking b k es = asking b k (remove1 e es) + (if k \<in> ev_events (ev b e) then 1 else 0)"
proof -
  have eq: "asking b k xs = size (filter_mset (\<lambda>e. k \<in> ev_events (ev b e)) (mset xs))" for xs
    by (simp add: asking_def flip: mset_filter)
  assume "e \<in> set es"
  then have m: "mset (remove1 e es) + {#e#} = mset es" by simp
  show ?thesis unfolding eq using filter_size_split [OF m, of "\<lambda>e. k \<in> ev_events (ev b e)"] by simp
qed

text \<open>Changing one slot leaves the others.\<close>

lemma io_slot_other:
  assumes "io_slot_ok S b fd" "ev b' = ev b" "io_map b' fd = io_map b fd" "registered b' fd = registered b fd"
    "io_nentries b \<le> io_nentries b'" "io_of S' b fd = io_of S b fd \<or> fd < 0"
  shows "io_slot_ok S' b' fd"
proof -
  have "io_of S' b' fd = io_of S' b fd" "asking b' k es = asking b k es" for k es
    using assms(2) by (simp_all add: io_of_def asking_def)
  then show ?thesis using assms by (auto simp: io_slot_ok_def split: option.splits)
qed

lemma sig_slot_other:
  assumes "sig_slot_ok S b fd" "ev b' = ev b" "sigmap b' fd = sigmap b fd" "sig_registered b' fd = sig_registered b fd"
    "sig_nentries b \<le> sig_nentries b'" "sig_of S' b fd = sig_of S b fd"
  shows "sig_slot_ok S' b' fd"
proof -
  have "sig_of S' b' fd = sig_of S' b fd" using assms(2) by (simp add: sig_of_def)
  then show ?thesis using assms by (auto simp: sig_slot_ok_def split: option.splits)
qed

text \<open>A slot that is written.\<close>

lemma io_slot_set:
  assumes "io_map b' fd = Some c" "ev b' = ev b" "0 \<le> fd" "fd < io_nentries b'" "distinct (io_events c)"
    "set (io_events c) = io_of S b fd" "nread c = asking b EV_READ (io_events c)" "nwrite c = asking b EV_WRITE (io_events c)"
    "registered b' fd = watched c"
  shows "io_slot_ok S b' fd"
proof -
  have "io_of S b' fd = io_of S b fd" "asking b' k es = asking b k es" for k es
    using assms(2) by (simp_all add: io_of_def asking_def)
  then show ?thesis using assms by (simp add: io_slot_ok_def)
qed

lemma sig_slot_set:
  assumes "sigmap b' fd = Some evs" "ev b' = ev b" "0 \<le> fd" "fd < sig_nentries b'" "distinct evs"
    "set evs = sig_of S b fd" "sig_registered b' fd = (evs \<noteq> [])"
  shows "sig_slot_ok S b' fd"
  using assms by (simp add: sig_slot_ok_def sig_of_def)

lemma of_insert:
  "io_of (insert e S) b fd = (if ev_fd (ev b e) = fd \<and> ev_events (ev b e) \<inter> io_kinds \<noteq> {} then insert e (io_of S b fd) else io_of S b fd)"
  "sig_of (insert e S) b fd = (if ev_fd (ev b e) = fd \<and> EV_SIGNAL \<in> ev_events (ev b e) then insert e (sig_of S b fd) else sig_of S b fd)"
  "io_of (S - {e}) b fd = io_of S b fd - {e}" "sig_of (S - {e}) b fd = sig_of S b fd - {e}"
  by (auto simp: io_of_def sig_of_def)

lemma evmap_io_add_ok:
  assumes ok: "maps_ok S b" and new: "e \<notin> S" and kind: "ev_events (ev b e) \<inter> io_kinds \<noteq> {}" "EV_SIGNAL \<notin> ev_events (ev b e)"
    and lim: "ev_fd (ev b e) < slot_limit"
  shows "\<exists>r b'. evmap_io_add os e b = Some (r, b') \<and> same_queues b b' \<and> r \<in> {-1, 0, 1} \<and>
    maps_ok (if r = -1 then S else insert e S) b'"
proof (cases "ev_fd (ev b e) < 0")
  case True
  have "io_slot_ok (insert e S) b fd" "sig_slot_ok (insert e S) b fd" for fd
    using True kind maps_okD(3,4) [OF ok, of fd]
    by (auto intro!: io_slot_other [of S b fd] sig_slot_other [of S b fd] simp: of_insert)
  then have "maps_ok (insert e S) b" using maps_okD [OF ok] by (simp add: maps_ok_def)
  then show ?thesis using True by (simp add: evmap_io_add_def same_queues_def)
next
  case False
  let ?x = "ev b e" and ?fd = "ev_fd (ev b e)"
  note parts = maps_okD [OF ok]
  have sigs: "sig_slot_ok S' b' fd" if "ev b' = ev b" "sigmap b' = sigmap b" "sig_registered b' = sig_registered b"
    "sig_nentries b' = sig_nentries b" "S' = S \<or> S' = insert e S" for b' S' fd
    by (rule sig_slot_other [OF parts(4)]) (use that kind in \<open>auto simp: of_insert\<close>)
  from make_space_ok [OF parts(1) lim, of os] obtain r0 n where space: "evmap_make_space os (io_nentries b) ?fd = Some (r0, n)"
    and grown: "io_nentries b \<le> n" "r0 = -1 \<or> r0 = 0 \<and> ?fd < n" by blast
  let ?b1 = "b\<lparr>io_nentries := n\<rparr>"
  have b1: "maps_ok S ?b1"
    unfolding maps_ok_def
    using parts grown(1) sigs [of ?b1 S] io_slot_other [OF parts(3), of ?b1] by auto
  show ?thesis
  proof (cases "r0 = -1")
    case True
    then show ?thesis using False space b1 by (simp add: evmap_io_add_def same_queues_def queue_part_def control_def Let_def)
  next
    case mem: False
    then have room: "?fd < n" "io_nentries b \<le> n" "0 \<le> n" using grown parts(1) by auto
    show ?thesis
    proof (cases "io_map b ?fd = None \<and> \<not> slot_mem os ?fd")
      case True
      then show ?thesis using False space mem b1 by (auto simp: evmap_io_add_def same_queues_def queue_part_def control_def Let_def)
    next
      case slot: False
      define c where "c = (case io_map b ?fd of None \<Rightarrow> \<lparr>io_events = [], nread = 0, nwrite = 0\<rparr> | Some c \<Rightarrow> c)"
      let ?b2 = "?b1\<lparr>io_map := (io_map b)(?fd \<mapsto> c)\<rparr>"
      have c: "distinct (io_events c)" "set (io_events c) = io_of S b ?fd" "nread c = asking b EV_READ (io_events c)"
        "nwrite c = asking b EV_WRITE (io_events c)" "registered b ?fd = watched c"
        using parts(3) [of ?fd] False by (auto simp: io_slot_ok_def c_def asking_def watched_def split: option.splits)
      define r where "r = (if EV_READ \<in> ev_events ?x then nread c + 1 else nread c)"
      define w where "w = (if EV_WRITE \<in> ev_events ?x then nwrite c + 1 else nwrite c)"
      define res where "res = (if EV_READ \<in> ev_events ?x \<and> r = 1 then {EV_READ} else {}) \<union>
                     (if EV_WRITE \<in> ev_events ?x \<and> w = 1 then {EV_WRITE} else {})"
      define c' where "c' = \<lparr>io_events = io_events c @ [e], nread = r, nwrite = w\<rparr>"
      let ?b3 = "?b2\<lparr>registered := (registered b)(?fd := registered b ?fd \<union> res), io_map := (io_map b)(?fd \<mapsto> c')\<rparr>"
      have sel: "io_map ?b1 = io_map b" by simp
      have run: "evmap_io_add os e b =
          Some (if r > 0xffff \<or> w > 0xffff then (-1, ?b2) else if res \<noteq> {} \<and> \<not> backend_add os ?fd (res \<union> ev_events ?x \<inter> {EV_ET}) then (-1, ?b2)
           else (if res \<noteq> {} then 1 else 0, ?b3))"
        unfolding evmap_io_add_def Let_def if_not_P [OF False] space Option.bind.bind_lunit prod.case if_not_P [OF mem] sel
          if_not_P [OF slot] c_def [symmetric]
        unfolding r_def [symmetric] w_def [symmetric] unfolding res_def [symmetric] by (simp add: c'_def)
      have b2: "maps_ok S ?b2"
        unfolding maps_ok_def
      proof (intro conjI allI)
        show "io_slot_ok S ?b2 fd" for fd
        proof (cases "fd = ?fd")
          case True
          show ?thesis unfolding True by (rule io_slot_set [of _ _ c b]) (use c room False in simp_all)
        next
          case other: False
          show ?thesis by (rule io_slot_other [OF parts(3)]) (use other room in simp_all)
        qed
      qed (use parts room sigs [of ?b2 S] in auto)
      have b3: "maps_ok (insert e S) ?b3"
        unfolding maps_ok_def
      proof (intro conjI allI)
        show "io_slot_ok (insert e S) ?b3 fd" for fd
        proof (cases "fd = ?fd")
          case True
          have "watched c' = watched c \<union> res" by (auto simp: watched_def c'_def res_def r_def w_def)
          moreover have "e \<notin> set (io_events c)" using c(2) new by (auto simp: io_of_def)
          moreover have "r = asking b EV_READ (io_events c @ [e])" "w = asking b EV_WRITE (io_events c @ [e])"
            using c by (simp_all add: asking_snoc r_def w_def)
          ultimately show ?thesis
            unfolding True by (intro io_slot_set [of _ _ c' b]) (use c room False kind in \<open>simp_all add: c'_def of_insert\<close>)
        next
          case other: False
          show ?thesis by (rule io_slot_other [OF parts(3)]) (use other room in \<open>simp_all add: of_insert\<close>)
        qed
      qed (use parts room sigs [of ?b3 "insert e S"] in auto)
      show ?thesis using run b2 b3 by (auto simp: same_queues_def queue_part_def control_def)
    qed
  qed
qed

text \<open>The backend never refuses to stop watching.\<close>

definition del_works :: "ev_os \<Rightarrow> bool" where
  "del_works os \<longleftrightarrow> (\<forall>fd what. backend_del os fd what)"

lemma evmap_io_del_ok:
  assumes ok: "maps_ok S b" and old: "e \<in> S" and kind: "ev_events (ev b e) \<inter> io_kinds \<noteq> {}" "EV_SIGNAL \<notin> ev_events (ev b e)"
    and del: "del_works os"
  shows "\<exists>r b'. evmap_io_del os e b = Some (r, b') \<and> same_queues b b' \<and> r \<in> {0, 1} \<and> maps_ok (S - {e}) b'"
proof (cases "ev_fd (ev b e) < 0")
  case True
  have "io_slot_ok (S - {e}) b fd" "sig_slot_ok (S - {e}) b fd" for fd
    using True kind by (auto intro!: io_slot_other [OF maps_okD(3) [OF ok]] sig_slot_other [OF maps_okD(4) [OF ok]]
        simp: io_of_def sig_of_def)
  then have "maps_ok (S - {e}) b" using maps_okD [OF ok] by (simp add: maps_ok_def)
  then show ?thesis using True by (simp add: evmap_io_del_def same_queues_def)
next
  case False
  let ?x = "ev b e" and ?fd = "ev_fd (ev b e)"
  note parts = maps_okD [OF ok]
  have mem: "e \<in> io_of S b ?fd" using old kind by (simp add: io_of_def)
  obtain c where c: "io_map b ?fd = Some c"
    using parts(3) [of ?fd] mem False by (auto simp: io_slot_ok_def split: option.splits)
  have slot: "?fd < io_nentries b" "distinct (io_events c)" "set (io_events c) = io_of S b ?fd"
    "nread c = asking b EV_READ (io_events c)" "nwrite c = asking b EV_WRITE (io_events c)" "registered b ?fd = watched c"
    using parts(3) [of ?fd] by (simp_all add: io_slot_ok_def c)
  have e: "e \<in> set (io_events c)" using mem slot(3) by simp
  define r where "r = (if EV_READ \<in> ev_events ?x then nread c - 1 else nread c)"
  define w where "w = (if EV_WRITE \<in> ev_events ?x then nwrite c - 1 else nwrite c)"
  define res where "res = (if EV_READ \<in> ev_events ?x \<and> r = 0 then {EV_READ} else {}) \<union>
                 (if EV_WRITE \<in> ev_events ?x \<and> w = 0 then {EV_WRITE} else {})"
  define c' where "c' = \<lparr>io_events = remove1 e (io_events c), nread = r, nwrite = w\<rparr>"
  let ?b = "b\<lparr>registered := (registered b)(?fd := registered b ?fd - res), io_map := (io_map b)(?fd \<mapsto> c')\<rparr>"
  have counts: "nread c = asking b EV_READ (remove1 e (io_events c)) + (if EV_READ \<in> ev_events ?x then 1 else 0)"
    "nwrite c = asking b EV_WRITE (remove1 e (io_events c)) + (if EV_WRITE \<in> ev_events ?x then 1 else 0)"
    unfolding slot(4,5) by (rule asking_out [OF e])+
  have dels: "backend_del os fd what" for fd what using del by (simp add: del_works_def)
  have fits: "\<not> ?fd \<ge> io_nentries b" using slot(1) by simp
  have pos: "\<not> (EV_READ \<in> ev_events ?x \<and> nread c = 0 \<or> EV_WRITE \<in> ev_events ?x \<and> nwrite c = 0)" using counts by auto
  have run: "evmap_io_del os e b = Some (if res \<noteq> {} then 1 else 0, ?b)"
    unfolding evmap_io_del_def Let_def if_not_P [OF False] if_not_P [OF fits] c Option.bind.bind_lunit if_not_P [OF pos]
      r_def [symmetric] w_def [symmetric] unfolding res_def [symmetric] by (simp add: c'_def dels)
  have "maps_ok (S - {e}) ?b"
    unfolding maps_ok_def
  proof (intro conjI allI)
    show "io_slot_ok (S - {e}) ?b fd" for fd
    proof (cases "fd = ?fd")
      case True
      have "watched c' = watched c - res" using counts by (auto simp: watched_def c'_def res_def r_def w_def)
      moreover have "r = asking b EV_READ (remove1 e (io_events c))" "w = asking b EV_WRITE (remove1 e (io_events c))"
        using counts by (simp_all add: r_def w_def)
      ultimately show ?thesis
        unfolding True by (intro io_slot_set [of _ _ c' b]) (use slot False in \<open>simp_all add: c'_def of_insert\<close>)
    next
      case other: False
      then have "io_of (S - {e}) b fd = io_of S b fd" by (auto simp: io_of_def)
      then show ?thesis by (intro io_slot_other [OF parts(3)]) (use other in simp_all)
    qed
    have "sig_of (S - {e}) b fd = sig_of S b fd" for fd using kind by (auto simp: sig_of_def)
    then show "sig_slot_ok (S - {e}) ?b fd" for fd by (intro sig_slot_other [OF parts(4)]) simp_all
  qed (use parts in simp_all)
  then show ?thesis using run by (auto simp: same_queues_def queue_part_def control_def)
qed

section \<open>Signals\<close>

lemma evmap_signal_add_ok:
  assumes ok: "maps_ok S b" and new: "e \<notin> S" and kind: "ev_events (ev b e) \<inter> io_kinds = {}" "EV_SIGNAL \<in> ev_events (ev b e)"
    and sig: "0 \<le> ev_fd (ev b e)" "ev_fd (ev b e) < slot_limit"
  shows "\<exists>r b'. evmap_signal_add os e b = Some (r, b') \<and> same_queues b b' \<and> r \<in> {-1, 0, 1} \<and>
    maps_ok (if r = -1 then S else insert e S) b'"
proof -
  let ?sig = "ev_fd (ev b e)"
  note parts = maps_okD [OF ok]
  have neg: "\<not> ?sig < 0" using sig by simp
  have ios: "io_slot_ok S' b' fd" if "ev b' = ev b" "io_map b' = io_map b" "registered b' = registered b"
    "io_nentries b' = io_nentries b" "S' = S \<or> S' = insert e S" for b' S' fd
    by (rule io_slot_other [OF parts(3)]) (use that kind in \<open>auto simp: of_insert\<close>)
  from make_space_ok [OF parts(2) sig(2), of os] obtain r0 n where space: "evmap_make_space os (sig_nentries b) ?sig = Some (r0, n)"
    and grown: "sig_nentries b \<le> n" "r0 = -1 \<or> r0 = 0 \<and> ?sig < n" by blast
  let ?b1 = "b\<lparr>sig_nentries := n\<rparr>"
  have b1: "maps_ok S ?b1"
    unfolding maps_ok_def using parts grown(1) ios [of ?b1 S] sig_slot_other [OF parts(4), of ?b1] by auto
  show ?thesis
  proof (cases "r0 = -1")
    case True
    then show ?thesis using neg space b1 by (simp add: evmap_signal_add_def same_queues_def queue_part_def control_def Let_def)
  next
    case mem: False
    then have room: "?sig < n" "sig_nentries b \<le> n" "0 \<le> n" using grown parts(2) by auto
    show ?thesis
    proof (cases "sigmap b ?sig = None \<and> \<not> slot_mem os ?sig")
      case True
      then show ?thesis using neg space mem b1 by (auto simp: evmap_signal_add_def same_queues_def queue_part_def control_def Let_def)
    next
      case slot: False
      define evs where "evs = (case sigmap b ?sig of None \<Rightarrow> [] | Some evs \<Rightarrow> evs)"
      have evs: "distinct evs" "set evs = sig_of S b ?sig" "sig_registered b ?sig = (evs \<noteq> [])"
        using parts(4) [of ?sig] by (auto simp: sig_slot_ok_def evs_def split: option.splits)
      let ?b2 = "?b1\<lparr>sigmap := (sigmap b)(?sig \<mapsto> evs)\<rparr>"
      let ?b3 = "?b2\<lparr>sig_registered := (sig_registered b)(?sig := True), sigmap := (sigmap b)(?sig \<mapsto> evs @ [e])\<rparr>"
      have sel: "sigmap ?b1 = sigmap b" by simp
      have run: "evmap_signal_add os e b = Some (if evs = [] \<and> \<not> backend_add os ?sig {EV_SIGNAL} then (-1, ?b2) else (1, ?b3))"
        unfolding evmap_signal_add_def Let_def if_not_P [OF neg] space Option.bind.bind_lunit prod.case if_not_P [OF mem] sel
          if_not_P [OF slot] evs_def [symmetric]
        by simp
      have slots: "sig_slot_ok S ?b2 fd" "sig_slot_ok (insert e S) ?b3 fd" for fd
      proof -
        have "e \<notin> set evs" using evs(2) new by (auto simp: sig_of_def)
        then have "sig_slot_ok S ?b2 ?sig" "sig_slot_ok (insert e S) ?b3 ?sig"
          by (auto intro!: sig_slot_set [of _ _ _ b] simp: of_insert evs room sig kind)
        moreover have "sig_slot_ok S ?b2 fd" "sig_slot_ok (insert e S) ?b3 fd" if "fd \<noteq> ?sig"
          by (rule sig_slot_other [OF parts(4)]; use that room in \<open>simp add: of_insert\<close>)+
        ultimately show "sig_slot_ok S ?b2 fd" "sig_slot_ok (insert e S) ?b3 fd" by blast+
      qed
      have "maps_ok S ?b2" "maps_ok (insert e S) ?b3"
        using parts room ios [of ?b2 S] ios [of ?b3 "insert e S"] slots by (simp_all add: maps_ok_def)
      then show ?thesis using run by (auto simp: same_queues_def queue_part_def control_def)
    qed
  qed
qed

lemma evmap_signal_del_ok:
  assumes ok: "maps_ok S b" and old: "e \<in> S" and kind: "ev_events (ev b e) \<inter> io_kinds = {}" "EV_SIGNAL \<in> ev_events (ev b e)"
    and del: "del_works os"
  shows "\<exists>b'. evmap_signal_del os e b = Some (1, b') \<and> same_queues b b' \<and> maps_ok (S - {e}) b'"
proof -
  let ?sig = "ev_fd (ev b e)"
  note parts = maps_okD [OF ok]
  have mem: "e \<in> sig_of S b ?sig" using old kind by (simp add: sig_of_def)
  obtain evs where evs: "sigmap b ?sig = Some evs"
    using parts(4) [of ?sig] mem by (auto simp: sig_slot_ok_def split: option.splits)
  have slot: "0 \<le> ?sig" "?sig < sig_nentries b" "distinct evs" "set evs = sig_of S b ?sig" "sig_registered b ?sig = (evs \<noteq> [])"
    using parts(4) [of ?sig] by (simp_all add: sig_slot_ok_def evs)
  have e: "e \<in> set evs" using mem slot(4) by simp
  have last: "(remove1 e evs \<noteq> []) = (\<not> length evs \<le> 1)"
    using e length_remove1 [of e evs] by (metis One_nat_def diff_is_0_eq length_0_conv)
  let ?b = "b\<lparr>sig_registered := (sig_registered b)(?sig := (if length evs \<le> 1 then False else sig_registered b ?sig)),
              sigmap := (sigmap b)(?sig \<mapsto> remove1 e evs)\<rparr>"
  have run: "evmap_signal_del os e b = Some (1, ?b)"
    using slot del by (simp add: evmap_signal_del_def evs del_works_def Let_def)
  have "maps_ok (S - {e}) ?b"
    unfolding maps_ok_def
  proof (intro conjI allI)
    show "sig_slot_ok (S - {e}) ?b fd" for fd
    proof (cases "fd = ?sig")
      case True
      show ?thesis unfolding True
        by (rule sig_slot_set [of _ _ "remove1 e evs" b]) (use slot last e in \<open>auto simp: of_insert\<close>)
    next
      case other: False
      then have "sig_of (S - {e}) b fd = sig_of S b fd" by (auto simp: sig_of_def)
      then show ?thesis by (intro sig_slot_other [OF parts(4)]) (use other in simp_all)
    qed
    have "io_of (S - {e}) b fd = io_of S b fd" for fd using kind by (auto simp: io_of_def)
    then show "io_slot_ok (S - {e}) ?b fd" for fd by (intro io_slot_other [OF parts(3)]) simp_all
  qed (use parts in simp_all)
  then show ?thesis using run by (auto simp: same_queues_def queue_part_def control_def)
qed

section \<open>Maps and queues are apart\<close>

lemma add_same_queues:
  "evmap_io_add os e b = Some (r, b') \<Longrightarrow> same_queues b b'"
  "evmap_signal_add os e b = Some (r, b') \<Longrightarrow> same_queues b b'"
proof -
  let ?fd = "ev_fd (ev b e)"
  assume run: "evmap_io_add os e b = Some (r, b')"
  show "same_queues b b'"
  proof (cases "evmap_make_space os (io_nentries b) ?fd")
    case (Some p)
    obtain r n where "p = (r, n)" by force
    then show ?thesis using run Some
      by (auto simp: evmap_io_add_def Let_def same_queues_def queue_part_def control_def split: if_splits option.splits)
  qed (use run in \<open>auto simp: evmap_io_add_def Let_def same_queues_def split: if_splits\<close>)
next
  let ?fd = "ev_fd (ev b e)"
  assume run: "evmap_signal_add os e b = Some (r, b')"
  show "same_queues b b'"
  proof (cases "evmap_make_space os (sig_nentries b) ?fd")
    case (Some p)
    obtain r n where "p = (r, n)" by force
    then show ?thesis using run Some
      by (auto simp: evmap_signal_add_def Let_def same_queues_def queue_part_def control_def split: if_splits option.splits)
  qed (use run in \<open>auto simp: evmap_signal_add_def Let_def same_queues_def split: if_splits\<close>)
qed

lemma del_same_queues:
  "evmap_io_del os e b = Some (r, b') \<Longrightarrow> same_queues b b'"
  "evmap_signal_del os e b = Some (r, b') \<Longrightarrow> same_queues b b'"
  unfolding evmap_io_del_def evmap_signal_del_def Let_def same_queues_def queue_part_def control_def
  by (cases "io_map b (ev_fd (ev b e))"; cases "sigmap b (ev_fd (ev b e))"; auto split: if_splits)+

lemmas map_same_queues = add_same_queues del_same_queues

end
