(* ===== verification/EventKeep.thy ===== *)
theory EventKeep imports EventMaps begin

text \<open>
  The invariant of the base and what each operation does to the contents of the events. The flags
  say which queues an event is on, so the contents are the whole effect.
\<close>

section \<open>The invariant\<close>

text \<open>
  What \<open>event_assign\<close> is asked for: a signal event has a signal number and no descriptor kinds, and
  the maps have room for the descriptor. An event on a queue was assigned to the base.
\<close>

definition event_form :: "ev_event \<Rightarrow> bool" where
  "event_form x \<longleftrightarrow> (EV_SIGNAL \<in> ev_events x \<longrightarrow> ev_events x \<inter> io_kinds = {} \<and> 0 \<le> ev_fd x) \<and> ev_fd x < slot_limit \<and>
    (ev_flags x \<inter> queue_names \<noteq> {} \<longrightarrow> ev_base x)"

definition wants_fd :: "ev_event \<Rightarrow> bool" where
  "wants_fd x \<longleftrightarrow> ev_events x \<inter> {EV_READ, EV_WRITE, EV_SIGNAL} \<noteq> {}"

definition inserted :: "event_base \<Rightarrow> nat set" where
  "inserted b = {e. on b EVLIST_INSERTED e}"

definition base_ok :: "event_base \<Rightarrow> bool" where
  "base_ok b \<longleftrightarrow> queues_ok b \<and> maps_ok (inserted b) b \<and> (\<forall>e. event_form (ev b e)) \<and>
    (\<forall>e \<in> inserted b. wants_fd (ev b e))"

definition settings :: "event_base \<Rightarrow> timeout \<times> bool \<times> bool \<times> bool \<times> int \<times> nat \<times> (nat \<times> ev_what set) list" where
  "settings b = (tv_now b, event_gotterm b, event_break b, event_continue b, event_running_priority b,
    next_frame b, ran b)"

lemma base_okD:
  assumes "base_ok b"
  shows "queues_ok b" "maps_ok (inserted b) b" "event_form (ev b e)" "e \<in> inserted b \<Longrightarrow> wants_fd (ev b e)"
  using assms by (auto simp: base_ok_def)

lemma on_base: "base_ok b \<Longrightarrow> on b q e \<Longrightarrow> q \<in> queue_names \<Longrightarrow> ev_base (ev b e)"
  using base_okD(3) [of b e] by (auto simp: event_form_def on_def)

lemma control_settings: "control b' = control b \<Longrightarrow> settings b' = settings b"
  by (simp add: control_def settings_def)

lemma base_ok_cong:
  assumes "queue_part b' = queue_part b" "maps b' = maps b"
  shows "base_ok b' = base_ok b"
proof -
  have e: "ev b' = ev b" using assms(1) by (simp add: queue_part_def)
  have "queues_ok b' = queues_ok b"
    using assms(1)
    by (simp add: queues_ok_def queue_part_def members_def all_on_def on_def [abs_def] tm_def [abs_def] cong: evlist.case_cong)
  moreover have "inserted b' = inserted b" by (simp add: inserted_def on_def e)
  ultimately show ?thesis using maps_ok_cong [OF assms(2)] by (simp add: base_ok_def e)
qed

lemma base_ok_moved:
  assumes ok: "base_ok b" and "queues_ok b'" and mv: "moved b b' e f"
    and same: "\<And>F. EVLIST_INSERTED \<in> f F \<longleftrightarrow> EVLIST_INSERTED \<in> F" and base: "(\<forall>F. f F \<subseteq> F) \<or> ev_base (ev b e)"
  shows "base_ok b'"
proof -
  note D = movedD [OF mv]
  have "inserted b' = inserted b" using D(11) same by (auto simp: inserted_def on_def)
  moreover have "maps_ok S b' = maps_ok S b" for S by (rule maps_ok_cong) (use D in simp_all)
  moreover have "event_form (ev b' x)" for x
    using base_okD(3) [OF ok, of x] base unfolding D(1) event_form_def by (auto split: if_splits)
  ultimately show ?thesis using ok assms(2) D by (auto simp: base_ok_def wants_fd_def)
qed

text \<open>Fields that the invariant does not read.\<close>

lemma base_ok_upd:
  assumes ok: "base_ok b"
    and "\<And>x. ev_fd (f x) = ev_fd x" "\<And>x. ev_events (f x) = ev_events x" "\<And>x. ev_flags (f x) = ev_flags x"
    and "\<And>x. ev_pri (f x) = ev_pri x" "\<And>x. ev_base (f x) = ev_base x" and time: "on b EVLIST_TIMEOUT e \<Longrightarrow> ev_timeout (f (ev b e)) = ev_timeout (ev b e)"
  shows "base_ok (upd e f b)"
proof -
  let ?b = "upd e f b"
  have on: "on ?b = on b" using assms by (simp add: on_def upd_def fun_eq_iff)
  have fields: "ev_fd (ev ?b x) = ev_fd (ev b x)" "ev_events (ev ?b x) = ev_events (ev b x)" "ev_pri (ev ?b x) = ev_pri (ev b x)"
    "ev_flags (ev ?b x) = ev_flags (ev b x)" "ev_base (ev ?b x) = ev_base (ev b x)" for x
    using assms by (simp_all add: upd_def)
  have "heap_inv (tm ?b) (timeheap b)"
  proof (rule heap_inv_cong)
    show "heap_inv (tm b) (timeheap b)" by (rule queues_ok_parts(1) [OF base_okD(1) [OF ok]])
    show "tm ?b x = tm b x" if "x \<in> events (timeheap b)" for x
      using time queues_okD(2) [OF base_okD(1) [OF ok], of EVLIST_TIMEOUT x] that
      by (auto simp: tm_def upd_def queue_names_def members_def events_def)
  qed
  then have "queues_ok ?b"
    using base_okD(1) [OF ok] by (simp add: queues_ok_def on fields)
  moreover have "inserted ?b = inserted b" by (simp add: inserted_def on)
  moreover have "maps_ok S ?b = maps_ok S b" for S by (rule maps_ok_cong) (simp_all add: fields)
  ultimately show ?thesis using ok by (simp add: base_ok_def event_form_def wants_fd_def fields)
qed

section \<open>Small steps\<close>

lemma abort_calls_part:
  "queue_part (abort_calls e b) = queue_part b" "maps (abort_calls e b) = maps b" "settings (abort_calls e b) = settings b"
  by (auto simp: abort_calls_def queue_part_def maps_def settings_def split: option.splits)

lemma abort_calls_ok: "base_ok (abort_calls e b) = base_ok b"
  by (rule base_ok_cong) (simp_all add: abort_calls_part)

lemma abort_calls_sel [simp]:
  "ev (abort_calls e b) = ev b" "on (abort_calls e b) q x = on b q x" "timeheap (abort_calls e b) = timeheap b"
  "settings (abort_calls e b) = settings b" "tv_now (abort_calls e b) = tv_now b" "activequeues (abort_calls e b) = activequeues b"
  using abort_calls_part [of e b] by (simp_all add: queue_part_def on_def settings_def)

lemma step_out:
  assumes ok: "base_ok b" and q: "q = EVLIST_ACTIVE \<or> q = EVLIST_TIMEOUT"
  shows "\<exists>b'. (if on b q e then event_queue_remove e q b else Some b) = Some b' \<and> base_ok b' \<and> moved b b' e (\<lambda>f. f - {q}) \<and>
    (roomy_heap b \<or> q = EVLIST_TIMEOUT \<and> on b q e \<longrightarrow> roomy_heap b')"
proof (cases "on b q e")
  case True
  have qn: "q \<in> queue_names" using q by (auto simp: queue_names_def)
  from queue_remove_ok [OF base_okD(1) [OF ok] qn True] obtain b' where b': "event_queue_remove e q b = Some b'" "queues_ok b'"
    "moved b b' e (\<lambda>f. f - {q})" "mset (members b' q) + {#e#} = mset (members b q)" by blast
  have "base_ok b'" by (rule base_ok_moved [OF ok b'(2,3)]) (use q in auto)
  moreover have "roomy_heap b'" if Q: "q = EVLIST_TIMEOUT"
  proof -
    have heaps: "heap_inv (tm b) (timeheap b)" "heap_inv (tm b') (timeheap b')"
      by (rule queues_ok_parts(1) [OF base_okD(1) [OF ok]]) (rule queues_ok_parts(1) [OF b'(2)])
    have "size (mset (members b' q) + {#e#}) = size (mset (members b q))" by (simp only: b'(4))
    then have "length (els (timeheap b')) + 1 = length (els (timeheap b))" by (simp add: Q members_def)
    then have "hn (timeheap b') + 1 = hn (timeheap b)" by (simp add: length_els [OF heaps(1)] length_els [OF heaps(2)])
    moreover have "ha (timeheap b') = ha (timeheap b)"
      using b'(1) True unfolding event_queue_remove_def by (auto simp: Q Let_def erase_room split: if_splits)
    ultimately show ?thesis using heaps(1) by (simp add: roomy_heap_def heap_inv_def)
  qed
  ultimately show ?thesis using True b' remove_roomy [OF b'(1)] by auto
next
  case False
  then have "moved b b e (\<lambda>f. f - {q})" by (simp add: moved_def on_def)
  then show ?thesis using False ok by simp
qed

lemma moved_settings: "moved b b' e f \<Longrightarrow> settings b' = settings b"
  by (rule control_settings) (simp add: moved_def)

lemma moved_sel:
  assumes "moved b b' e f"
  shows "ev b' = (ev b)(e := (ev b e)\<lparr>ev_flags := f (ev_flags (ev b e))\<rparr>)" "tv_now b' = tv_now b"
    "settings b' = settings b"
  using movedD(1,3) [OF assms] moved_settings [OF assms] by (simp_all add: control_def)

lemma step_insert_timeout:
  assumes ok: "base_ok b" and off: "\<not> on b EVLIST_TIMEOUT e" and room: "roomy_heap b" and base: "ev_base (ev b e)"
  shows "\<exists>b'. event_queue_insert os e EVLIST_TIMEOUT b = Some b' \<and> base_ok b' \<and> moved b b' e (insert EVLIST_TIMEOUT)"
  using queue_insert_ok [OF base_okD(1) [OF ok] _ off, of os] room base base_ok_moved [OF ok, of _ e "insert EVLIST_TIMEOUT"]
  by (auto simp: queue_names_def)

lemma step_insert_active:
  assumes ok: "base_ok b" and off: "\<not> on b EVLIST_ACTIVE e" and base: "ev_base (ev b e)"
  shows "\<exists>b'. event_queue_insert os e EVLIST_ACTIVE b = Some b' \<and> base_ok b' \<and> moved b b' e (insert EVLIST_ACTIVE)"
  using queue_insert_ok [OF base_okD(1) [OF ok] _ off, of os] base base_ok_moved [OF ok, of _ e "insert EVLIST_ACTIVE"]
  by (auto simp: queue_names_def)

end
