(* ===== verification/EventEffects.thy ===== *)
theory EventEffects imports EventKeep begin

text \<open>
  The effect of each operation of the base on the contents of the events, and that it keeps the
  invariant of the base.
\<close>

section \<open>Entering the maps\<close>

definition joins :: "ev_event \<Rightarrow> bool" where
  "joins x \<longleftrightarrow> wants_fd x \<and> ev_flags x \<inter> {EVLIST_INSERTED, EVLIST_ACTIVE} = {}"

definition joined :: "ev_event \<Rightarrow> ev_event" where
  "joined x = (if joins x then x\<lparr>ev_flags := insert EVLIST_INSERTED (ev_flags x)\<rparr> else x)"

lemma maps_add:
  assumes ok: "base_ok b" and j: "joins (ev b e)"
  shows "\<exists>r b'. (if ev_events (ev b e) \<inter> io_kinds \<noteq> {} then evmap_io_add os e b else evmap_signal_add os e b) = Some (r, b') \<and>
    same_queues b b' \<and> r \<in> {-1, 0, 1} \<and> maps_ok (if r = -1 then inserted b else insert e (inserted b)) b'"
proof -
  have new: "e \<notin> inserted b" using j by (auto simp: joins_def inserted_def on_def)
  have form: "event_form (ev b e)" by (rule base_okD [OF ok])
  show ?thesis
  proof (cases "ev_events (ev b e) \<inter> io_kinds \<noteq> {}")
    case True
    then show ?thesis using evmap_io_add_ok [OF base_okD(2) [OF ok] new True, of os] form by (auto simp: event_form_def)
  next
    case False
    then have "EV_SIGNAL \<in> ev_events (ev b e)" using j by (auto simp: joins_def wants_fd_def io_kinds_def)
    then show ?thesis using evmap_signal_add_ok [OF base_okD(2) [OF ok] new, of os] form False by (auto simp: event_form_def)
  qed
qed

lemma same_queues_sel:
  assumes "same_queues b b'"
  shows "ev b' = ev b" "on b' = on b" "timeheap b' = timeheap b" "settings b' = settings b" "tv_now b' = tv_now b"
    "inserted b' = inserted b" "eventqueue b' = eventqueue b" "activequeues b' = activequeues b"
  using same_queuesD [OF assms] control_settings [OF same_queuesD(7) [OF assms]]
  by (auto simp: inserted_def control_def)

text \<open>With the queues settled, the invariant is that of the maps.\<close>

lemma base_okI:
  assumes "queues_ok b'" "maps_ok (inserted b') b'" "base_ok b"
    "\<And>x. ev_events (ev b' x) = ev_events (ev b x)" "\<And>x. ev_fd (ev b' x) = ev_fd (ev b x)"
    "\<And>x. x \<in> inserted b' \<Longrightarrow> x \<in> inserted b \<or> wants_fd (ev b x)" "\<And>x. ev_base (ev b' x) = ev_base (ev b x)"
    "\<And>x. ev_flags (ev b' x) \<inter> queue_names \<noteq> {} \<Longrightarrow> ev_flags (ev b x) \<inter> queue_names \<noteq> {} \<or> ev_base (ev b x)"
  shows "base_ok b'"
proof -
  have "wants_fd (ev b' x) = wants_fd (ev b x)" "event_form (ev b' x)" for x
    using assms(4,5,7) [of x] assms(8) [of x] base_okD(3) [OF assms(3), of x] unfolding wants_fd_def event_form_def by metis+
  then show ?thesis using assms(1-3,6) unfolding base_ok_def by blast
qed

lemma add_to_maps_ok:
  assumes ok: "base_ok b" and base: "ev_base (ev b e)"
  shows "\<exists>r b'. add_to_maps os e b = Some (r, b') \<and> base_ok b' \<and> r \<in> {-1, 0} \<and> settings b' = settings b \<and>
    timeheap b' = timeheap b \<and> ev b' = (if r = 0 then (ev b)(e := joined (ev b e)) else ev b) \<and>
    (r = -1 \<longrightarrow> joins (ev b e) \<and> queue_part b' = queue_part b)"
proof (cases "joins (ev b e)")
  case False
  then show ?thesis using ok by (auto simp: add_to_maps_def Let_def joins_def wants_fd_def joined_def)
next
  case True
  from maps_add [OF ok True, of os] obtain r b1 where b1: "same_queues b b1" "r \<in> {-1, 0, 1}"
    "maps_ok (if r = -1 then inserted b else insert e (inserted b)) b1"
    and run: "(if ev_events (ev b e) \<inter> io_kinds \<noteq> {} then evmap_io_add os e b else evmap_signal_add os e b) = Some (r, b1)"
    by blast
  note S = same_queues_sel [OF b1(1)]
  have q1: "queues_ok b1" using same_queues_ok [OF b1(1)] base_okD(1) [OF ok] by simp
  have cond: "ev_events (ev b e) \<inter> {EV_READ, EV_WRITE, EV_SIGNAL} \<noteq> {} \<and> ev_flags (ev b e) \<inter> {EVLIST_INSERTED, EVLIST_ACTIVE} = {}"
    using True by (simp add: joins_def wants_fd_def)
  have off: "\<not> on b1 EVLIST_INSERTED e" using True by (auto simp: joins_def on_def S)
  show ?thesis
  proof (cases "r = -1")
    case True
    have "base_ok b1" by (rule base_okI [OF q1 _ ok]) (use b1(3) True S in auto)
    then show ?thesis using True run cond S b1(1) \<open>joins (ev b e)\<close>
      by (simp add: add_to_maps_def same_queues_def)
  next
    case False
    from queue_insert_ok [OF q1 _ off, of os] obtain b2 where b2: "event_queue_insert os e EVLIST_INSERTED b1 = Some b2"
      "queues_ok b2" "moved b1 b2 e (insert EVLIST_INSERTED)"
      "\<forall>q' \<in> queue_names. q' \<noteq> EVLIST_INSERTED \<longrightarrow> members b2 q' = members b1 q'"
      by (auto simp: queue_names_def)
    note M = movedD [OF b2(3)]
    have "maps_ok (insert e (inserted b)) b2 = maps_ok (insert e (inserted b)) b1" by (rule maps_ok_cong) (use M in simp_all)
    moreover have "inserted b2 = insert e (inserted b)" using M(11) S(2) by (auto simp: inserted_def on_def)
    ultimately have "base_ok b2"
      using b1(3) False True by (intro base_okI [OF b2(2) _ ok]) (auto simp: M S joins_def base split: if_splits)
    moreover have "timeheap b2 = timeheap b1"
      using b2(1) off by (auto simp: event_queue_insert_def Let_def on_def split: if_splits)
    ultimately show ?thesis
      using False run cond b2 True moved_sel [OF b2(3)] b1(2) by (auto simp: add_to_maps_def S joined_def)
  qed
qed

section \<open>Setting a timer\<close>

definition timed :: "timeout \<Rightarrow> timeout \<Rightarrow> bool \<Rightarrow> ev_event \<Rightarrow> ev_event" where
  "timed now tv absolute x =
    x\<lparr>ev_io_timeout := (if ev_closure x = EV_CLOSURE_PERSIST \<and> \<not> absolute then tv else ev_io_timeout x),
      ev_timeout := (if absolute then tv else evutil_timeradd now tv),
      ev_flags := insert EVLIST_TIMEOUT (ev_flags x - (if EV_TIMEOUT \<in> ev_res x then {EVLIST_ACTIVE} else {}))\<rparr>"

lemma ev_upd [simp]: "ev (upd e f b) = (ev b)(e := f (ev b e))"
  by (simp add: upd_def)

lemma settings_upd [simp]:
  "settings (upd e f b) = settings b" "event_gotterm (upd e f b) = event_gotterm b" "event_break (upd e f b) = event_break b"
  "event_continue (upd e f b) = event_continue b" "next_frame (upd e f b) = next_frame b" "ran (upd e f b) = ran b"
  by (simp_all add: upd_def settings_def)

lemma roomy_upd [simp]: "roomy_heap (upd e f b) = roomy_heap b" "roomy_heap (abort_calls e b) = roomy_heap b"
  by (simp_all add: roomy_heap_def)

lemma add_timeout_ok:
  assumes ok: "base_ok b" and room: "on b EVLIST_TIMEOUT e \<or> roomy_heap b" and base: "ev_base (ev b e)"
  shows "\<exists>b'. add_timeout os e tv absolute b = Some b' \<and> base_ok b' \<and> settings b' = settings b \<and>
    ev b' = (ev b)(e := timed (tv_now b) tv absolute (ev b e))"
proof -
  define b1 where "b1 = (if ev_closure (ev b e) = EV_CLOSURE_PERSIST \<and> \<not> absolute
             then upd e (\<lambda>x. x\<lparr>ev_io_timeout := tv\<rparr>) b else b)"
  have b1: "base_ok b1" "on b1 = on b" "settings b1 = settings b" "tv_now b1 = tv_now b" "roomy_heap b1 = roomy_heap b"
    "ev b1 = (ev b)(e := (ev b e)\<lparr>ev_io_timeout := (if ev_closure (ev b e) = EV_CLOSURE_PERSIST \<and> \<not> absolute then tv else ev_io_timeout (ev b e))\<rparr>)"
    using ok base_ok_upd [OF ok, of "\<lambda>x. x\<lparr>ev_io_timeout := tv\<rparr>" e] by (simp_all add: b1_def on_def fun_eq_iff)
  from step_out [OF b1(1), of EVLIST_TIMEOUT e] room b1 obtain b2 where
    run2: "(if on b1 EVLIST_TIMEOUT e then event_queue_remove e EVLIST_TIMEOUT b1 else Some b1) = Some b2"
    and b2: "base_ok b2" "moved b1 b2 e (\<lambda>f. f - {EVLIST_TIMEOUT})" "roomy_heap b2" by auto
  note S2 = moved_sel [OF b2(2)]
  let ?late = "EV_TIMEOUT \<in> ev_res (ev b e)"
  define b2' where "b2' = (if EV_SIGNAL \<in> ev_events (ev b2 e) then abort_calls e b2 else b2)"
  have b2': "base_ok b2'" "roomy_heap b2'" "ev b2' = ev b2" "settings b2' = settings b2" "tv_now b2' = tv_now b2"
    "on b2' EVLIST_ACTIVE e = on b2 EVLIST_ACTIVE e"
    using b2 by (simp_all add: b2'_def abort_calls_ok)
  have "\<exists>b3. (if on b2 EVLIST_ACTIVE e \<and> EV_TIMEOUT \<in> ev_res (ev b2 e) then event_queue_remove e EVLIST_ACTIVE b2' else Some b2) = Some b3 \<and>
      base_ok b3 \<and> roomy_heap b3 \<and> settings b3 = settings b2 \<and> tv_now b3 = tv_now b2 \<and>
      ev b3 = (ev b2)(e := (ev b2 e)\<lparr>ev_flags := ev_flags (ev b2 e) - (if ?late then {EVLIST_ACTIVE} else {})\<rparr>)"
  proof (cases "on b2 EVLIST_ACTIVE e \<and> EV_TIMEOUT \<in> ev_res (ev b2 e)")
    case True
    with step_out [OF b2'(1), of EVLIST_ACTIVE e] b2' obtain b3 where "event_queue_remove e EVLIST_ACTIVE b2' = Some b3" "base_ok b3"
      "moved b2' b3 e (\<lambda>f. f - {EVLIST_ACTIVE})" "roomy_heap b3" by auto
    then show ?thesis using True b2' moved_sel [of b2' b3 e "\<lambda>f. f - {EVLIST_ACTIVE}"] S2 b1 by auto
  next
    case False
    then have "ev b2 = (ev b2)(e := (ev b2 e)\<lparr>ev_flags := ev_flags (ev b2 e) - (if ?late then {EVLIST_ACTIVE} else {})\<rparr>)"
      using S2 b1 by (auto simp: on_def fun_eq_iff)
    then show ?thesis using False b2 by auto
  qed
  then obtain b3 where run3: "(if on b2 EVLIST_ACTIVE e \<and> EV_TIMEOUT \<in> ev_res (ev b2 e) then event_queue_remove e EVLIST_ACTIVE b2' else Some b2) = Some b3"
    and b3: "base_ok b3" "roomy_heap b3" "settings b3 = settings b2" "tv_now b3 = tv_now b2"
      "ev b3 = (ev b2)(e := (ev b2 e)\<lparr>ev_flags := ev_flags (ev b2 e) - (if ?late then {EVLIST_ACTIVE} else {})\<rparr>)" by blast
  define b4 where "b4 = upd e (\<lambda>x. x\<lparr>ev_timeout := (if absolute then tv else evutil_timeradd (tv_now b3) tv)\<rparr>) b3"
  have off: "\<not> on b3 EVLIST_TIMEOUT e" by (simp add: on_def b3 S2)
  have b4: "base_ok b4" unfolding b4_def by (rule base_ok_upd [OF b3(1)]) (use off in simp_all)
  moreover have "\<not> on b4 EVLIST_TIMEOUT e" using off by (simp add: b4_def on_def)
  moreover have "roomy_heap b4" "ev_base (ev b4 e)" using b3 base by (simp_all add: b4_def S2 b1)
  ultimately obtain b5 where run5: "event_queue_insert os e EVLIST_TIMEOUT b4 = Some b5" and b5: "base_ok b5" "moved b4 b5 e (insert EVLIST_TIMEOUT)"
    using step_insert_timeout by blast
  have "add_timeout os e tv absolute b = Some b5"
    unfolding add_timeout_def Let_def b1_def [symmetric] run2 Option.bind.bind_lunit b2'_def [symmetric]
      run3 b4_def [symmetric] run5 ..
  moreover have "settings b5 = settings b" using moved_sel(3) [OF b5(2)] b3 S2 b1 by (simp add: b4_def)
  moreover have "ev b5 = (ev b)(e := timed (tv_now b) tv absolute (ev b e))"
  proof -
    have "insert EVLIST_TIMEOUT (F - {EVLIST_TIMEOUT} - X) = insert EVLIST_TIMEOUT (F - X)" for F X by blast
    then show ?thesis by (simp add: moved_sel(1) [OF b5(2)] b4_def b3(4,5) S2 b1(4,6) timed_def)
  qed
  ultimately show ?thesis using b5 by blast
qed

section \<open>Adding, deleting, activating\<close>

definition event_added :: "timeout \<Rightarrow> timeout option \<Rightarrow> bool \<Rightarrow> ev_event \<Rightarrow> ev_event" where
  "event_added now tv absolute x = (case tv of None \<Rightarrow> joined x | Some t \<Rightarrow> timed now t absolute (joined x))"

definition deleted :: "ev_event \<Rightarrow> ev_event" where
  "deleted x = x\<lparr>ev_flags := ev_flags x - queue_names\<rparr>"

definition activated :: "ev_what set \<Rightarrow> 16 word \<Rightarrow> ev_event \<Rightarrow> ev_event" where
  "activated res n x =
    (if EVLIST_ACTIVE \<in> ev_flags x then x\<lparr>ev_res := ev_res x \<union> res\<rparr>
     else x\<lparr>ev_res := res, ev_ncalls := (if EV_SIGNAL \<in> ev_events x then n else ev_ncalls x),
            ev_pncalls := (if EV_SIGNAL \<in> ev_events x then None else ev_pncalls x),
            ev_flags := insert EVLIST_ACTIVE (ev_flags x)\<rparr>)"

lemma reserve_ok:
  assumes ok: "base_ok b" and h: "min_heap_reserve r (timeheap b) n = Some h"
  shows "base_ok (b\<lparr>timeheap := h\<rparr>)" "n \<le> ha h" "hn h = hn (timeheap b)" "els h = els (timeheap b)"
proof -
  let ?b = "b\<lparr>timeheap := h\<rparr>"
  have inv: "heap_inv (tm b) (timeheap b)" by (rule queues_ok_parts(1) [OF base_okD(1) [OF ok]])
  note R = reserve_inv [OF inv h]
  show "n \<le> ha h" "hn h = hn (timeheap b)" "els h = els (timeheap b)" using R by auto
  have m: "members ?b q = members b q" for q using R by (simp add: members_def split: evlist.splits)
  have t: "tm ?b = tm b" "on ?b = on b" by (simp_all add: tm_def on_def fun_eq_iff)
  have a: "all_on ?b = all_on b" by (simp only: all_on_def m)
  have "queues_ok ?b"
    using base_okD(1) [OF ok] R unfolding queues_ok_def m t a by simp
  moreover have "maps_ok (inserted b) ?b"
    using base_okD(2) [OF ok] by (subst maps_ok_cong) (simp_all add: maps_def)
  ultimately show "base_ok ?b"
    by (intro base_okI [OF _ _ ok]) (simp_all add: inserted_def t)
qed

lemma event_add_internal_ok:
  assumes ok: "base_ok b" and base: "ev_base (ev b e)"
  shows "\<exists>r b'. event_add_internal os e tv absolute b = Some (r, b') \<and> base_ok b' \<and> r \<in> {-1, 0} \<and> settings b' = settings b \<and>
    ev b' = (if r = 0 then (ev b)(e := event_added (tv_now b) tv absolute (ev b e)) else ev b) \<and>
    (r = -1 \<longrightarrow> eventqueue b' = eventqueue b \<and> activequeues b' = activequeues b \<and> els (timeheap b') = els (timeheap b))"
proof -
  let ?res = "(if tv \<noteq> None \<and> \<not> on b EVLIST_TIMEOUT e
           then min_heap_reserve (heap_mem os (1 + min_heap_size (timeheap b))) (timeheap b) (1 + min_heap_size (timeheap b))
           else Some (timeheap b))"
  show ?thesis
  proof (cases ?res)
    case None
    then show ?thesis using ok base by (simp only: event_add_internal_def) simp
  next
    case (Some h)
    let ?b = "b\<lparr>timeheap := h\<rparr>"
    have b0: "base_ok ?b" "tv \<noteq> None \<longrightarrow> on b EVLIST_TIMEOUT e \<or> roomy_heap ?b" "els h = els (timeheap b)"
    proof -
      have "base_ok ?b \<and> (tv \<noteq> None \<longrightarrow> on b EVLIST_TIMEOUT e \<or> roomy_heap ?b) \<and> els h = els (timeheap b)"
      proof (cases "tv \<noteq> None \<and> \<not> on b EVLIST_TIMEOUT e")
        case True
        with Some have "min_heap_reserve (heap_mem os (1 + min_heap_size (timeheap b))) (timeheap b) (1 + min_heap_size (timeheap b)) = Some h"
          by simp
        from reserve_ok [OF ok this] show ?thesis by (simp add: roomy_heap_def min_heap_size_def)
      next
        case False
        then have "h = timeheap b" using Some by auto
        then show ?thesis using False ok by auto
      qed
      then show "base_ok ?b" "tv \<noteq> None \<longrightarrow> on b EVLIST_TIMEOUT e \<or> roomy_heap ?b" "els h = els (timeheap b)" by blast+
    qed
    from add_to_maps_ok [OF b0(1), of e os] base obtain r b1 where run1: "add_to_maps os e ?b = Some (r, b1)"
      and b1: "base_ok b1" "r \<in> {-1, 0}" "settings b1 = settings ?b"
        "timeheap b1 = timeheap ?b" "ev b1 = (if r = 0 then (ev ?b)(e := joined (ev ?b e)) else ev ?b)"
        "r = -1 \<longrightarrow> queue_part b1 = queue_part ?b"
      by auto
    have run: "event_add_internal os e tv absolute b =
        (case tv of Some t \<Rightarrow> if r \<noteq> -1 then add_timeout os e t absolute b1 else Some b1 | None \<Rightarrow> Some b1) \<bind> (\<lambda>b. Some (r, b))"
      using base unfolding event_add_internal_def Some option.case run1 by simp
    have set1: "settings b1 = settings b" using b1(3) by (simp add: settings_def)
    then have now: "tv_now b1 = tv_now b" by (simp add: settings_def)
    have base1: "ev_base (ev b1 e)" using base by (simp add: b1(5) joined_def)
    have room: "on b1 EVLIST_TIMEOUT e \<or> roomy_heap b1" if "tv \<noteq> None" "r = 0"
      using b0(2) that b1(4,5) by (auto simp: on_def roomy_heap_def joined_def)
    show ?thesis
    proof (cases "tv \<noteq> None \<and> r = 0")
      case True
      then obtain t where t: "tv = Some t" by auto
      from add_timeout_ok [OF b1(1) room base1, of os t absolute] True obtain b2 where "add_timeout os e t absolute b1 = Some b2"
        "base_ok b2" "settings b2 = settings b1" "ev b2 = (ev b1)(e := timed (tv_now b1) t absolute (ev b1 e))" by blast
      then show ?thesis using run b1 True t set1 now by (simp add: event_added_def)
    next
      case False
      have same: "eventqueue b1 = eventqueue b \<and> activequeues b1 = activequeues b \<and> els (timeheap b1) = els (timeheap b)"
        if "r = -1"
        using b1(6) that b0(3) by (simp add: queue_part_def)
      have "event_add_internal os e tv absolute b = Some (r, b1)"
        using run False b1(2) by (auto split: option.splits)
      then show ?thesis using False b1 set1 same by (auto simp: event_added_def split: option.splits)
    qed
  qed
qed

lemma event_del_internal_ok:
  assumes ok: "base_ok b" and del: "del_works os" and base: "ev_base (ev b e)"
  shows "\<exists>b'. event_del_internal os e b = Some (0, b') \<and> base_ok b' \<and> settings b' = settings b \<and>
    ev b' = (ev b)(e := deleted (ev b e))"
proof -
  define b0 where "b0 = (if EV_SIGNAL \<in> ev_events (ev b e) then abort_calls e b else b)"
  have b0: "base_ok b0" "ev b0 = ev b" "settings b0 = settings b" using ok by (simp_all add: b0_def abort_calls_ok)
  from step_out [OF b0(1), of EVLIST_TIMEOUT e] obtain b1 where
    run1: "(if on b0 EVLIST_TIMEOUT e then event_queue_remove e EVLIST_TIMEOUT b0 else Some b0) = Some b1"
    and b1: "base_ok b1" "moved b0 b1 e (\<lambda>f. f - {EVLIST_TIMEOUT})" by blast
  from step_out [OF b1(1), of EVLIST_ACTIVE e] obtain b2 where
    run2: "(if on b1 EVLIST_ACTIVE e then event_queue_remove e EVLIST_ACTIVE b1 else Some b1) = Some b2"
    and b2: "base_ok b2" "moved b1 b2 e (\<lambda>f. f - {EVLIST_ACTIVE})" by blast
  note S1 = moved_sel [OF b1(2)] and S2 = moved_sel [OF b2(2)]
  have ev2: "ev b2 = (ev b)(e := (ev b e)\<lparr>ev_flags := ev_flags (ev b e) - {EVLIST_TIMEOUT} - {EVLIST_ACTIVE}\<rparr>)"
    by (simp add: S1 S2 b0)
  have set2: "settings b2 = settings b" by (simp add: S1 S2 b0)
  have qn: "F - {EVLIST_TIMEOUT} - {EVLIST_ACTIVE} - {EVLIST_INSERTED} = F - queue_names" for F by (auto simp: queue_names_def)
  have run: "event_del_internal os e b =
      (if on b2 EVLIST_INSERTED e then do {
        b \<leftarrow> event_queue_remove e EVLIST_INSERTED b2;
        (res, b) \<leftarrow> (if ev_events (ev b e) \<inter> io_kinds \<noteq> {} then evmap_io_del os e b else evmap_signal_del os e b);
        Some (if res = 1 then 0 else res, b) }
      else Some (0, b2))"
    using base unfolding event_del_internal_def Let_def b0_def [symmetric] run1 Option.bind.bind_lunit run2 by simp
  show ?thesis
  proof (cases "on b2 EVLIST_INSERTED e")
    case False
    then have "ev b2 = (ev b)(e := deleted (ev b e))" by (auto simp: deleted_def ev2 on_def simp flip: qn)
    then show ?thesis using False run b2 set2 by simp
  next
    case True
    from queue_remove_ok [OF base_okD(1) [OF b2(1)] _ True] obtain b3 where run3: "event_queue_remove e EVLIST_INSERTED b2 = Some b3"
      and b3: "queues_ok b3" "moved b2 b3 e (\<lambda>f. f - {EVLIST_INSERTED})" by (auto simp: queue_names_def)
    note M = movedD [OF b3(2)]
    have old: "e \<in> inserted b2" using True by (simp add: inserted_def)
    have m3: "maps_ok (inserted b2) b3" using base_okD(2) [OF b2(1)] by (subst maps_ok_cong [of b3 b2]) (use M in simp_all)
    have form: "event_form (ev b3 e)" "wants_fd (ev b3 e)"
      using base_okD(3) [OF b2(1), of e] base_okD(4) [OF b2(1) old] by (auto simp: event_form_def wants_fd_def M)
    have "\<exists>r b4. (if ev_events (ev b3 e) \<inter> io_kinds \<noteq> {} then evmap_io_del os e b3 else evmap_signal_del os e b3) = Some (r, b4) \<and>
        same_queues b3 b4 \<and> r \<in> {0, 1} \<and> maps_ok (inserted b2 - {e}) b4"
    proof (cases "ev_events (ev b3 e) \<inter> io_kinds \<noteq> {}")
      case True
      then show ?thesis using evmap_io_del_ok [OF m3 old True _ del] form by (auto simp: event_form_def)
    next
      case False
      then have "EV_SIGNAL \<in> ev_events (ev b3 e)" using form by (auto simp: wants_fd_def io_kinds_def)
      then show ?thesis using evmap_signal_del_ok [OF m3 old _ _ del] False by auto
    qed
    then obtain r b4 where run4: "(if ev_events (ev b3 e) \<inter> io_kinds \<noteq> {} then evmap_io_del os e b3 else evmap_signal_del os e b3) = Some (r, b4)"
      and b4: "same_queues b3 b4" "r \<in> {0, 1}" "maps_ok (inserted b2 - {e}) b4" by blast
    note S4 = same_queues_sel [OF b4(1)]
    have "inserted b4 = inserted b2 - {e}" unfolding S4 using M(11) by (auto simp: inserted_def on_def)
    moreover have "queues_ok b4" using same_queues_ok [OF b4(1)] b3(1) by simp
    ultimately have "base_ok b4"
      using b4(3) by (intro base_okI [OF _ _ b2(1)]) (auto simp: S4 M split: if_splits)
    moreover have "event_del_internal os e b = Some (0, b4)"
      unfolding run if_P [OF True] run3 Option.bind.bind_lunit run4 using b4(2) by auto
    moreover have "ev b4 = (ev b)(e := deleted (ev b e))" by (simp add: S4 M(1) ev2 deleted_def qn)
    moreover have "settings b4 = settings b" by (simp add: S4 moved_sel(3) [OF b3(2)] set2)
    ultimately show ?thesis by blast
  qed
qed

lemma event_active_nolock_ok:
  assumes ok: "base_ok b" and base: "ev_base (ev b e)"
  shows "\<exists>b'. event_active_nolock os e res n b = Some b' \<and> base_ok b' \<and> ev b' = (ev b)(e := activated res n (ev b e)) \<and>
    settings b' = settings (b\<lparr>event_continue := event_continue b \<or>
      \<not> on b EVLIST_ACTIVE e \<and> int (ev_pri (ev b e)) < event_running_priority b\<rparr>)"
proof (cases "on b EVLIST_ACTIVE e")
  case True
  have "base_ok (upd e (\<lambda>x. x\<lparr>ev_res := ev_res x \<union> res\<rparr>) b)" by (rule base_ok_upd [OF ok]) simp_all
  then show ?thesis using True by (simp add: event_active_nolock_def activated_def on_def settings_def)
next
  case False
  define b1 where "b1 = upd e (\<lambda>x. x\<lparr>ev_res := res\<rparr>) b"
  define b2 where "b2 = (if int (ev_pri (ev b1 e)) < event_running_priority b1 then b1\<lparr>event_continue := True\<rparr> else b1)"
  define b3 where "b3 = (if EV_SIGNAL \<in> ev_events (ev b2 e)
                then upd e (\<lambda>x. x\<lparr>ev_ncalls := n, ev_pncalls := None\<rparr>) b2 else b2)"
  have b1: "base_ok b1" unfolding b1_def by (rule base_ok_upd [OF ok]) simp_all
  have "base_ok b2 = base_ok b1" by (rule base_ok_cong) (simp_all add: b2_def queue_part_def maps_def)
  then have b2: "base_ok b2" using b1 by simp
  have b3: "base_ok b3" unfolding b3_def using b2 base_ok_upd [OF b2, of "\<lambda>x. x\<lparr>ev_ncalls := n, ev_pncalls := None\<rparr>" e] by simp
  have off: "\<not> on b3 EVLIST_ACTIVE e" using False by (simp add: b3_def b2_def b1_def on_def)
  have base3: "ev_base (ev b3 e)" using base by (simp add: b3_def b2_def b1_def)
  then have has: "\<not> \<not> ev_base (ev b e)" using base by simp
  from step_insert_active [OF b3 off base3, of os] obtain b4 where b4: "event_queue_insert os e EVLIST_ACTIVE b3 = Some b4" "base_ok b4"
    "moved b3 b4 e (insert EVLIST_ACTIVE)" by blast
  have "event_active_nolock os e res n b = Some b4"
    unfolding event_active_nolock_def Let_def if_not_P [OF False] if_not_P [OF has] b1_def [symmetric] b2_def [symmetric] b3_def [symmetric] by (rule b4)
  moreover have "ev b4 = (ev b)(e := activated res n (ev b e))"
    using False by (simp add: moved_sel(1) [OF b4(3)] b3_def b2_def b1_def activated_def on_def)
  moreover have "settings b4 = settings (b\<lparr>event_continue := event_continue b \<or>
      \<not> on b EVLIST_ACTIVE e \<and> int (ev_pri (ev b e)) < event_running_priority b\<rparr>)"
    unfolding moved_sel(3) [OF b4(3)] using False by (simp add: b3_def b2_def b1_def settings_def)
  ultimately show ?thesis using b4 by blast
qed

end
