(* ===== verification/EventCalls.thy ===== *)
theory EventCalls imports EventEffects begin

text \<open>
  The calls a program makes on its base, one after the other, and the timers that are due: the
  invariant of the base survives both.
\<close>

section \<open>Setting up an event that is on no queue\<close>

lemma maps_ok_cong_on:
  assumes ok: "maps_ok S b" and m: "maps b' = maps b"
    and same: "\<And>x. x \<in> S \<Longrightarrow> ev_fd (ev b' x) = ev_fd (ev b x) \<and> ev_events (ev b' x) = ev_events (ev b x)"
  shows "maps_ok S b'"
proof -
  have sets: "io_of S b' fd = io_of S b fd" "sig_of S b' fd = sig_of S b fd" for fd
    using same by (auto simp: io_of_def sig_of_def)
  have ask: "asking b' k es = asking b k es" if "set es \<subseteq> S" for k es
    unfolding asking_def using same that by (intro arg_cong [of _ _ length] filter_cong) auto
  have sel: "io_nentries b' = io_nentries b" "io_map b' = io_map b" "sig_nentries b' = sig_nentries b" "sigmap b' = sigmap b"
    "registered b' = registered b" "sig_registered b' = sig_registered b"
    using m by (simp_all add: maps_def)
  have "io_slot_ok S b' fd" for fd
  proof (cases "io_map b fd")
    case (Some c)
    then have "set (io_events c) = io_of S b fd" using maps_okD(3) [OF ok, of fd] by (simp add: io_slot_ok_def)
    then have "set (io_events c) \<subseteq> S" by (auto simp: io_of_def)
    then show ?thesis using maps_okD(3) [OF ok, of fd] Some by (simp add: io_slot_ok_def sel sets ask)
  qed (use maps_okD(3) [OF ok, of fd] in \<open>simp add: io_slot_ok_def sel sets\<close>)
  moreover have "sig_slot_ok S b' fd" for fd
    using maps_okD(4) [OF ok, of fd] by (simp add: sig_slot_ok_def sel sets cong: option.case_cong)
  ultimately show ?thesis using maps_okD(1,2) [OF ok] by (simp add: maps_ok_def sel)
qed

definition idle :: "event_base \<Rightarrow> nat \<Rightarrow> bool" where
  "idle b e \<longleftrightarrow> ev_flags (ev b e) \<inter> queue_names = {}"

lemma idle_off: "idle b e \<Longrightarrow> q \<in> queue_names \<Longrightarrow> \<not> on b q e"
  by (auto simp: idle_def on_def)

lemma idle_init: "base_ok b \<Longrightarrow> idle b e \<Longrightarrow> min_heap_elem_init (timeheap b) e = timeheap b"
  using queues_okD(2) [OF base_okD(1), of b EVLIST_TIMEOUT e] queues_ok_parts(1) [OF base_okD(1), of b]
  by (auto simp: min_heap_elem_init_def queue_names_def members_def idle_def on_def heap_inv_def fun_upd_idem)

lemma base_ok_idle:
  assumes ok: "base_ok b" and idle: "idle b e" and f: "ev_flags (f (ev b e)) \<inter> queue_names = {}"
    "event_form (f (ev b e))" "ev_pri (f (ev b e)) < length (activequeues b)"
  shows "base_ok (upd e f b)"
proof -
  let ?b = "upd e f b"
  have q: "queues_ok b" by (rule base_okD [OF ok])
  have on: "on ?b q x = on b q x" if "q \<in> queue_names \<or> x \<noteq> e" for q x
    using that f(1) idle by (auto simp: on_def idle_def)
  have out: "e \<notin> set (members b q)" if "q \<in> queue_names" for q
    using queues_okD(2) [OF q that, of e] idle_off [OF idle that] by simp
  then have "e \<notin># all_on b" by (simp add: all_on_def queue_names_def)
  then have cnt: "filter_mset (\<lambda>e. \<not> on ?b EVLIST_INTERNAL e) (all_on b) = filter_mset (\<lambda>e. \<not> on b EVLIST_INTERNAL e) (all_on b)"
    by (intro filter_mset_cong refl) (metis on)
  have "heap_inv (tm ?b) (timeheap b)"
    by (rule heap_inv_cong [OF queues_ok_parts(1) [OF q]])
      (use out [of EVLIST_TIMEOUT] in \<open>auto simp: tm_def events_def members_def queue_names_def\<close>)
  moreover have "\<forall>p < length (activequeues b). \<forall>x \<in> set (activequeues b ! p). ev_pri (ev ?b x) = p"
  proof (intro allI impI ballI)
    fix p x assume p: "p < length (activequeues b)" "x \<in> set (activequeues b ! p)"
    then have "x \<in> set (members b EVLIST_ACTIVE)" by (auto simp: members_def intro: bexI [OF _ nth_mem])
    then have "x \<noteq> e" using out by (auto simp: queue_names_def)
    then show "ev_pri (ev ?b x) = p" using queues_ok_parts(2) [OF q p] by simp
  qed
  ultimately have "queues_ok ?b"
    using q f(3) on unfolding queues_ok_def upd_frame cnt by simp
  moreover have ins: "inserted ?b = inserted b" using on by (auto simp: inserted_def queue_names_def)
  moreover have "maps_ok (inserted b) ?b"
  proof (rule maps_ok_cong_on [OF base_okD(2) [OF ok]])
    show "ev_fd (ev ?b x) = ev_fd (ev b x) \<and> ev_events (ev ?b x) = ev_events (ev b x)" if "x \<in> inserted b" for x
      using that idle by (auto simp: inserted_def idle_def queue_names_def on_def)
  qed simp
  moreover have "e \<notin> inserted b" using idle by (auto simp: inserted_def idle_def queue_names_def on_def)
  ultimately show ?thesis using ok f(2) by (auto simp: base_ok_def)
qed

lemma upd_twice: "upd e g (upd e f b) = upd e (\<lambda>x. g (f x)) b"
  by (simp add: upd_def)

lemma upd_timeheap: "(upd e f b)\<lparr>timeheap := timeheap b\<rparr> = upd e f b"
  by (simp add: upd_def)

definition assigned :: "int \<Rightarrow> ev_what set \<Rightarrow> nat \<Rightarrow> ev_event \<Rightarrow> ev_event" where
  "assigned fd what pri x =
    x\<lparr>ev_base := True, ev_fd := fd, ev_events := what, ev_res := {}, ev_flags := {EVLIST_INIT}, ev_ncalls := 0, ev_pncalls := None,
      ev_io_timeout := (if EV_SIGNAL \<notin> what \<and> EV_PERSIST \<in> what then time_zero else ev_io_timeout x),
      ev_closure := (if EV_SIGNAL \<in> what then EV_CLOSURE_SIGNAL else if EV_PERSIST \<in> what then EV_CLOSURE_PERSIST else EV_CLOSURE_NONE),
      ev_pri := pri\<rparr>"

lemma event_assign_ok:
  assumes ok: "base_ok b" and idle: "idle b e" and form: "EV_SIGNAL \<in> what \<longrightarrow> what \<inter> io_kinds = {} \<and> 0 \<le> fd" "fd < slot_limit"
  shows "event_assign e fd what b = (0, upd e (assigned fd what (length (activequeues b) div 2)) b)"
    "base_ok (upd e (assigned fd what (length (activequeues b) div 2)) b)"
proof -
  have heap: "min_heap_elem_init (timeheap b) e = timeheap b" by (rule idle_init [OF ok idle])
  have mix: "\<not> (EV_SIGNAL \<in> what \<and> what \<inter> io_kinds \<noteq> {})" using form by blast
  show "event_assign e fd what b = (0, upd e (assigned fd what (length (activequeues b) div 2)) b)"
    unfolding event_assign_def Let_def if_not_P [OF mix] upd_twice upd_frame heap
    by (simp add: upd_def assigned_def)
  have "0 < length (activequeues b)" using queues_ok_parts(3) [OF base_okD(1) [OF ok], of e] by linarith
  then have half: "length (activequeues b) div 2 < length (activequeues b)" by simp
  then show "base_ok (upd e (assigned fd what (length (activequeues b) div 2)) b)"
    by (intro base_ok_idle [OF ok idle]) (use form in \<open>auto simp: assigned_def event_form_def queue_names_def\<close>)
qed

lemma event_priority_set_ok:
  assumes ok: "base_ok b" and base: "ev_base (ev b e)"
  shows "\<exists>r b'. event_priority_set e pri b = Some (r, b') \<and> base_ok b' \<and> (\<exists>p. b' = b \<or> b' = upd e (\<lambda>x. x\<lparr>ev_pri := p\<rparr>) b)"
proof (cases "on b EVLIST_ACTIVE e \<or> pri < 0 \<or> pri \<ge> int (length (activequeues b))")
  case True
  then show ?thesis using ok base by (auto simp: event_priority_set_def)
next
  case False
  let ?b = "upd e (\<lambda>x. x\<lparr>ev_pri := nat pri\<rparr>) b"
  have q: "queues_ok b" by (rule base_okD [OF ok])
  have same: "on ?b = on b" "tm ?b = tm b" by (simp_all add: on_def tm_def fun_eq_iff)
  have "\<forall>p < length (activequeues b). \<forall>x \<in> set (activequeues b ! p). ev_pri (ev ?b x) = p"
  proof (intro allI impI ballI)
    fix p x assume p: "p < length (activequeues b)" "x \<in> set (activequeues b ! p)"
    then have "x \<in> set (members b EVLIST_ACTIVE)" by (auto simp: members_def intro: bexI [OF _ nth_mem])
    then have "x \<noteq> e" using queues_okD(2) [OF q, of EVLIST_ACTIVE x] False by (auto simp: queue_names_def)
    then show "ev_pri (ev ?b x) = p" using queues_ok_parts(2) [OF q p] by simp
  qed
  then have "queues_ok ?b" using q False same unfolding queues_ok_def upd_frame by auto
  moreover have "maps_ok (inserted b) ?b" using base_okD(2) [OF ok] by (rule maps_ok_cong_on) simp_all
  ultimately have "base_ok ?b" by (intro base_okI [OF _ _ ok]) (auto simp: inserted_def same split: if_splits)
  then show ?thesis using False base by (auto simp: event_priority_set_def)
qed

section \<open>Timers\<close>

definition expired :: "event_base \<Rightarrow> nat \<Rightarrow> bool" where
  "expired b e \<longleftrightarrow> on b EVLIST_TIMEOUT e \<and> \<not> evutil_timer_greater (ev_timeout (ev b e)) (tv_now b)"

definition fired :: "ev_event \<Rightarrow> ev_event" where
  "fired x = activated {EV_TIMEOUT} 1 (deleted x)"

lemma top_least:
  assumes ok: "base_ok b" and top: "min_heap_top (timeheap b) = Some e"
  shows "on b EVLIST_TIMEOUT e" "on b EVLIST_TIMEOUT x \<Longrightarrow> le (tm b) e x"
proof -
  note q = base_okD(1) [OF ok]
  have inv: "heap_inv (tm b) (timeheap b)" by (rule queues_ok_parts(1) [OF q])
  have on_iff: "on b EVLIST_TIMEOUT y \<longleftrightarrow> y \<in> set (els (timeheap b))" for y
    using queues_okD(2) [OF q, of EVLIST_TIMEOUT y] by (simp add: queue_names_def members_def)
  have len: "0 < length (els (timeheap b))" using top length_els [OF inv] by (auto simp: min_heap_top_def split: if_splits)
  have e: "e = els (timeheap b) ! 0" using top len by (auto simp: min_heap_top_def els_def split: if_splits)
  show "on b EVLIST_TIMEOUT e" unfolding on_iff e using len by simp
  show "le (tm b) e x" if "on b EVLIST_TIMEOUT x"
  proof -
    from that obtain j where "j < length (els (timeheap b))" "x = els (timeheap b) ! j" unfolding on_iff by (metis in_set_conv_nth)
    then show ?thesis using heap_least [of "tm b" "els (timeheap b)" j] inv by (simp add: e heap_inv_def)
  qed
qed

lemma no_top: "base_ok b \<Longrightarrow> min_heap_top (timeheap b) = None \<longleftrightarrow> (\<forall>e. \<not> on b EVLIST_TIMEOUT e)"
  using queues_okD(2) [OF base_okD(1), of b EVLIST_TIMEOUT] length_els [OF queues_ok_parts(1) [OF base_okD(1)], of b]
  by (auto simp: min_heap_top_def queue_names_def members_def)

lemma not_yet:
  assumes "le (tm b) e x" "evutil_timer_greater (ev_timeout (ev b e)) now"
  shows "evutil_timer_greater (ev_timeout (ev b x)) now"
  using assms by (auto simp: le_def min_heap_elem_greater_def evutil_timer_greater_def tm_def split: if_splits)

lemma timers_left:
  assumes "base_ok b" "base_ok b'" "ev b' = (ev b)(e := y)" "EVLIST_TIMEOUT \<notin> ev_flags y" "on b EVLIST_TIMEOUT e"
  shows "length (els (timeheap b')) < length (els (timeheap b))"
proof -
  have s: "set (els (timeheap c)) = {x. on c EVLIST_TIMEOUT x}" "distinct (els (timeheap c))" if "base_ok c" for c
    using queues_okD [OF base_okD(1) [OF that], of EVLIST_TIMEOUT] by (auto simp: queue_names_def members_def)
  have "set (els (timeheap b')) = set (els (timeheap b)) - {e}"
    unfolding s(1) [OF assms(1)] s(1) [OF assms(2)] using assms(3,4) by (auto simp: on_def split: if_splits)
  moreover have "e \<in> set (els (timeheap b))" using s(1) [OF assms(1)] assms(5) by simp
  ultimately have "card (set (els (timeheap b'))) < card (set (els (timeheap b)))" by (intro psubset_card_mono) auto
  then show ?thesis by (simp only: distinct_card [OF s(2) [OF assms(1)]] distinct_card [OF s(2) [OF assms(2)]])
qed

lemma timeout_process_ok:
  assumes "base_ok b" "del_works os"
  shows "\<exists>b'. timeout_process os b = Some b' \<and> base_ok b' \<and>
    ev b' = (\<lambda>e. if expired b e then fired (ev b e) else ev b e) \<and> tv_now b' = tv_now b \<and> ran b' = ran b \<and>
    event_break b' = event_break b \<and> event_running_priority b' = event_running_priority b"
  using assms(1)
proof (induction "length (els (timeheap b))" arbitrary: b rule: less_induct)
  case (less b)
  show ?case
  proof (cases "min_heap_top (timeheap b)")
    case None
    then have "\<not> expired b e" for e using no_top [OF less.prems] by (simp add: expired_def)
    then show ?thesis using None less.prems by (subst timeout_process.simps) simp
  next
    case (Some e)
    note top = top_least [OF less.prems Some]
    show ?thesis
    proof (cases "evutil_timer_greater (ev_timeout (ev b e)) (tv_now b)")
      case True
      then have "\<not> expired b x" for x using not_yet [OF top(2) True] by (auto simp: expired_def)
      then show ?thesis using Some True less.prems by (subst timeout_process.simps) simp
    next
      case False
      have base: "ev_base (ev b e)" by (rule on_base [OF less.prems top(1)]) (simp add: queue_names_def)
      from event_del_internal_ok [OF less.prems assms(2) base] obtain b1 where b1: "event_del_internal os e b = Some (0, b1)"
        "base_ok b1" "settings b1 = settings b" "ev b1 = (ev b)(e := deleted (ev b e))" by blast
      have base1: "ev_base (ev b1 e)" using base by (simp add: b1(4) deleted_def)
      from event_active_nolock_ok [OF b1(2) base1, of os "{EV_TIMEOUT}" 1] obtain b2 where b2: "event_active_nolock os e {EV_TIMEOUT} 1 b1 = Some b2"
        "base_ok b2" "ev b2 = (ev b1)(e := activated {EV_TIMEOUT} 1 (ev b1 e))"
        "tv_now b2 = tv_now b" "ran b2 = ran b" "event_break b2 = event_break b" "event_running_priority b2 = event_running_priority b"
        using b1(3) by (auto simp: settings_def)
      have ev2: "ev b2 = (ev b)(e := fired (ev b e))" by (simp add: b2(3) b1(4) fired_def)
      have off: "EVLIST_TIMEOUT \<notin> ev_flags (fired (ev b e))"
        by (simp add: fired_def activated_def deleted_def queue_names_def)
      have "length (els (timeheap b2)) < length (els (timeheap b))"
        by (rule timers_left [OF less.prems b2(2) ev2 off top(1)])
      from less.hyps [OF this b2(2)] obtain b' where b': "timeout_process os b2 = Some b'" "base_ok b'"
        "ev b' = (\<lambda>e. if expired b2 e then fired (ev b2 e) else ev b2 e)" "tv_now b' = tv_now b" "ran b' = ran b"
        "event_break b' = event_break b" "event_running_priority b' = event_running_priority b"
        unfolding b2 by blast
      have "expired b2 x = (if x = e then False else expired b x)" for x
        using off by (simp add: expired_def on_def ev2 b2)
      moreover have "expired b e" using top(1) False by (simp add: expired_def)
      ultimately have "ev b' = (\<lambda>e. if expired b e then fired (ev b e) else ev b e)"
        by (auto simp: b' ev2 fun_eq_iff)
      moreover have "timeout_process os b = Some b'"
        using Some False b1(1) b2(1) b'(1) by (subst timeout_process.simps) simp
      ultimately show ?thesis using b' by blast
    qed
  qed
qed

end
