(* ===== verification/EventLoop.thy ===== *)
theory EventLoop imports EventCalls begin

text \<open>
  Running callbacks and the loop (\<open>event_signal_closure\<close>, \<open>event_persist_closure\<close>,
  \<open>event_process_active\<close>, \<open>event_base_loop\<close>). A callback is known by the calls it makes on the base.
  The clock is monotonic and cached for an iteration; there are no deferred callbacks.
\<close>

section \<open>What a callback does\<close>

text \<open>\<open>LoopExit\<close> is the callback of \<open>event_base_loopexit\<close>.\<close>

datatype ev_call =
    EventAdd nat "timeout option"
  | EventDel nat
  | EventActive nat "ev_what set" "16 word"
  | EventAssign nat int "ev_what set"
  | EventPriority nat int
  | LoopBreak
  | LoopExit

type_synonym callbacks = "nat \<Rightarrow> ev_what set \<Rightarrow> event_base \<Rightarrow> ev_call list"

definition event_base_loopbreak :: "event_base \<Rightarrow> event_base" where
  "event_base_loopbreak b = b\<lparr>event_break := True\<rparr>"

definition event_loopexit_cb :: "event_base \<Rightarrow> event_base" where
  "event_loopexit_cb b = b\<lparr>event_gotterm := True\<rparr>"

fun make_call :: "ev_os \<Rightarrow> ev_call \<Rightarrow> event_base \<Rightarrow> event_base option" where
  "make_call os (EventAdd e tv) b = map_option snd (event_add os e tv b)"
| "make_call os (EventDel e) b = map_option snd (event_del os e b)"
| "make_call os (EventActive e res n) b = event_active os e res n b"
| "make_call os (EventAssign e fd what) b = Some (snd (event_assign e fd what b))"
| "make_call os (EventPriority e pri) b = map_option snd (event_priority_set e pri b)"
| "make_call os LoopBreak b = Some (event_base_loopbreak b)"
| "make_call os LoopExit b = Some (event_loopexit_cb b)"

fun make_calls :: "ev_os \<Rightarrow> ev_call list \<Rightarrow> event_base \<Rightarrow> event_base option" where
  "make_calls os [] b = Some b"
| "make_calls os (c # cs) b = do { b \<leftarrow> make_call os c b; make_calls os cs b }"

definition run_callback :: "ev_os \<Rightarrow> callbacks \<Rightarrow> nat \<Rightarrow> event_base \<Rightarrow> event_base option" where
  "run_callback os cb e b =
    (let res = ev_res (ev b e); b = b\<lparr>ran := ran b @ [(e, res)]\<rparr>
     in make_calls os (cb e res b) b)"

section \<open>Closures\<close>

text \<open>The loop of \<open>event_signal_closure\<close>; the variable \<open>ncalls\<close> is in the frame.\<close>

definition live_ncalls :: "event_base \<Rightarrow> 16 word" where
  "live_ncalls b = (case frame b of Some (_, n) \<Rightarrow> n | None \<Rightarrow> 0)"

definition set_ncalls :: "16 word \<Rightarrow> event_base \<Rightarrow> event_base" where
  "set_ncalls n b = b\<lparr>frame := map_option (\<lambda>(f, _). (f, n)) (frame b)\<rparr>"

partial_function (option) signal_calls :: "ev_os \<Rightarrow> callbacks \<Rightarrow> nat \<Rightarrow> event_base \<Rightarrow> event_base option" where
  "signal_calls os cb e b =
    (if live_ncalls b = 0 then Some b
     else
       let n = live_ncalls b - 1;
           b = upd e (\<lambda>x. x\<lparr>ev_ncalls := n, ev_pncalls := (if n = 0 then None else ev_pncalls x)\<rparr>) (set_ncalls n b)
       in do {
         b \<leftarrow> run_callback os cb e b;
         if event_break b
         then Some (if live_ncalls b \<noteq> 0 then upd e (\<lambda>x. x\<lparr>ev_pncalls := None\<rparr>) b else b)
         else signal_calls os cb e b
       })"

definition event_signal_closure :: "ev_os \<Rightarrow> callbacks \<Rightarrow> nat \<Rightarrow> event_base \<Rightarrow> event_base option" where
  "event_signal_closure os cb e b =
    (let n = ev_ncalls (ev b e); f = next_frame b;
         b = b\<lparr>frame := Some (f, n), next_frame := f + 1\<rparr>;
         b = (if n \<noteq> 0 then upd e (\<lambda>x. x\<lparr>ev_pncalls := Some f\<rparr>) b else b)
     in do {
       b \<leftarrow> signal_calls os cb e b;
       Some (b\<lparr>frame := None\<rparr>)
     })"

definition next_run :: "timeout \<Rightarrow> ev_event \<Rightarrow> timeout" where
  "next_run now x =
    (let delay = ev_io_timeout x;
         relative_to = (if EV_TIMEOUT \<in> ev_res x then ev_timeout x else now);
         run_at = evutil_timeradd relative_to delay
     in if evutil_timer_greater now run_at then evutil_timeradd now delay else run_at)"

definition repeats :: "ev_event \<Rightarrow> bool" where
  "repeats x \<longleftrightarrow> t_sec (ev_io_timeout x) \<noteq> 0 \<or> t_usec (ev_io_timeout x) \<noteq> 0"

definition event_persist_closure :: "ev_os \<Rightarrow> callbacks \<Rightarrow> nat \<Rightarrow> event_base \<Rightarrow> event_base option" where
  "event_persist_closure os cb e b = do {
    b \<leftarrow> (if repeats (ev b e) then
            if is_same_common_timeout (ev_timeout (ev b e)) (ev_io_timeout (ev b e))
            then map_option snd (event_add_internal os e (Some (next_run (tv_now b) (ev b e))) True b)
            else None
          else Some b);
    run_callback os cb e b
  }"

definition run_closure :: "ev_os \<Rightarrow> callbacks \<Rightarrow> nat \<Rightarrow> event_base \<Rightarrow> event_base option" where
  "run_closure os cb e b =
    (case ev_closure (ev b e) of
       EV_CLOSURE_SIGNAL \<Rightarrow> event_signal_closure os cb e b
     | EV_CLOSURE_PERSIST \<Rightarrow> event_persist_closure os cb e b
     | EV_CLOSURE_NONE \<Rightarrow> run_callback os cb e b)"

section \<open>The active events\<close>

definition take_active :: "ev_os \<Rightarrow> nat \<Rightarrow> event_base \<Rightarrow> event_base option" where
  "take_active os e b =
    (if EV_PERSIST \<in> ev_events (ev b e) then event_queue_remove e EVLIST_ACTIVE b
     else map_option snd (event_del_internal os e b))"

partial_function (option) event_process_active_single_queue ::
    "ev_os \<Rightarrow> callbacks \<Rightarrow> nat \<Rightarrow> int \<Rightarrow> event_base \<Rightarrow> (int \<times> event_base) option" where
  "event_process_active_single_queue os cb p c b =
    (case activequeues b ! p of
       [] \<Rightarrow> Some (c, b)
     | e # _ \<Rightarrow> do {
         b \<leftarrow> take_active os e b;
         let c = (if on b EVLIST_INTERNAL e then c else c + 1);
         b \<leftarrow> run_closure os cb e b;
         if event_break b then Some (-1, b)
         else if event_continue b then Some (c, b)
         else event_process_active_single_queue os cb p c b
       })"

fun process_from :: "ev_os \<Rightarrow> callbacks \<Rightarrow> nat list \<Rightarrow> int \<Rightarrow> event_base \<Rightarrow> (int \<times> event_base) option" where
  "process_from os cb [] c b = Some (c, b)"
| "process_from os cb (i # is) c b =
    (if activequeues b ! i \<noteq> [] then do {
       (c, b) \<leftarrow> event_process_active_single_queue os cb i 0 (b\<lparr>event_running_priority := int i\<rparr>);
       if c < 0 then Some (-1, b)
       else if c > 0 then Some (c, b)
       else process_from os cb is c b
     }
     else process_from os cb is c b)"

definition event_process_active :: "ev_os \<Rightarrow> callbacks \<Rightarrow> event_base \<Rightarrow> (int \<times> event_base) option" where
  "event_process_active os cb b = do {
    (c, b) \<leftarrow> process_from os cb [0..<length (activequeues b)] 0 b;
    Some (c, b\<lparr>event_running_priority := -1\<rparr>)
  }"

section \<open>The loop\<close>

text \<open>One answer of the backend: -1 or the descriptors and signals that are ready, and the time it is then.\<close>

record ev_poll =
  poll_failed :: bool
  poll_fds :: "(int \<times> ev_what set) list"
  poll_signals :: "(int \<times> 32 word) list"
  poll_time :: timeout

datatype loop_end = Waits "timeout option" | Returns int

definition event_haveevents :: "event_base \<Rightarrow> bool" where
  "event_haveevents b \<longleftrightarrow> event_count b > 0"

fun report_fds :: "ev_os \<Rightarrow> (int \<times> ev_what set) list \<Rightarrow> event_base \<Rightarrow> event_base option" where
  "report_fds os [] b = Some b"
| "report_fds os ((fd, what) # rs) b = do { b \<leftarrow> evmap_io_active os fd what b; report_fds os rs b }"

fun report_signals :: "ev_os \<Rightarrow> (int \<times> 32 word) list \<Rightarrow> event_base \<Rightarrow> event_base option" where
  "report_signals os [] b = Some b"
| "report_signals os ((sig, n) # rs) b = do { b \<leftarrow> evmap_signal_active os sig n b; report_signals os rs b }"

text \<open>The part of an iteration after the backend has answered: whether the loop is done.\<close>

definition event_iteration :: "ev_os \<Rightarrow> callbacks \<Rightarrow> bool \<Rightarrow> bool \<Rightarrow> ev_poll \<Rightarrow> event_base \<Rightarrow> (bool \<times> event_base) option" where
  "event_iteration os cb once nonblock p b = do {
    b \<leftarrow> report_fds os (poll_fds p) b;
    b \<leftarrow> report_signals os (poll_signals p) b;
    b \<leftarrow> timeout_process os (b\<lparr>tv_now := poll_time p\<rparr>);
    if event_count_active b \<noteq> 0 then do {
      (n, b) \<leftarrow> event_process_active os cb b;
      Some (once \<and> event_count_active b = 0 \<and> n \<noteq> 0, b)
    }
    else Some (nonblock, b)
  }"

text \<open>
  The backend answers a list of times, each answer for the base it is asked for; without an answer
  the loop waits in the backend.
\<close>

type_synonym backend = "event_base \<Rightarrow> ev_poll"

fun loop_from :: "ev_os \<Rightarrow> callbacks \<Rightarrow> bool \<Rightarrow> bool \<Rightarrow> backend list \<Rightarrow> event_base \<Rightarrow> (loop_end \<times> event_base) option" where
  "loop_from os cb once nonblock polls b =
    (let b = b\<lparr>event_continue := False\<rparr> in
     if event_gotterm b \<or> event_break b then Some (Returns 0, b)
     else do {
       tv \<leftarrow> (if event_count_active b = 0 \<and> \<not> nonblock then timeout_next b else Some (Some time_zero));
       if \<not> event_haveevents b \<and> event_count_active b = 0 then Some (Returns 1, b)
       else case polls of
         [] \<Rightarrow> Some (Waits tv, b)
       | p # ps \<Rightarrow>
           if poll_failed (p b) then Some (Returns (-1), b)
           else do {
             (done, b) \<leftarrow> event_iteration os cb once nonblock (p b) b;
             if done then Some (Returns 0, b) else loop_from os cb once nonblock ps b
           }
     })"

declare loop_from.simps [simp del]

definition event_base_loop :: "ev_os \<Rightarrow> callbacks \<Rightarrow> bool \<Rightarrow> bool \<Rightarrow> backend list \<Rightarrow> event_base \<Rightarrow> (loop_end \<times> event_base) option" where
  "event_base_loop os cb once nonblock polls b =
    loop_from os cb once nonblock polls (b\<lparr>event_gotterm := False, event_break := False\<rparr>)"

end
