(* ===== verification/EventTime.thy ===== *)
theory EventTime imports EventLoop begin

text \<open>
  Times with their microseconds in range. The base asserts that a wait is not negative
  (\<open>timeout_next\<close>) and that the time of a repeated event is marked like its interval
  (\<open>event_persist_closure\<close>); both hold while every interval that is added is in range, and so are
  the answers of the clock.
\<close>

unbundle bit_operations_syntax

section \<open>Times in range\<close>

definition normal_time :: "timeout \<Rightarrow> bool" where
  "normal_time t \<longleftrightarrow> 0 \<le> t_usec t \<and> t_usec t < 1000000"

definition normal_event :: "ev_event \<Rightarrow> bool" where
  "normal_event x \<longleftrightarrow> normal_time (ev_timeout x) \<and> normal_time (ev_io_timeout x)"

definition times_ok :: "event_base \<Rightarrow> bool" where
  "times_ok b \<longleftrightarrow> normal_time (tv_now b) \<and> (\<forall>e. normal_event (ev b e))"

definition base_fit :: "event_base \<Rightarrow> bool" where
  "base_fit b \<longleftrightarrow> base_ok b \<and> times_ok b"

lemma base_fitD: "base_fit b \<Longrightarrow> base_ok b" "base_fit b \<Longrightarrow> times_ok b" "base_fit b \<Longrightarrow> normal_event (ev b e)"
  "base_fit b \<Longrightarrow> normal_time (tv_now b)"
  by (simp_all add: base_fit_def times_ok_def)

lemma normal_zero [simp]: "normal_time time_zero"
  by (simp add: normal_time_def time_zero_def)

lemma normal_add: "normal_time t \<Longrightarrow> normal_time u \<Longrightarrow> normal_time (evutil_timeradd t u)"
  by (simp add: normal_time_def evutil_timeradd_def)

lemma sub_not_negative:
  "normal_time t \<Longrightarrow> normal_time u \<Longrightarrow> evutil_timer_greater t u \<Longrightarrow>
    t_sec (evutil_timersub t u) \<ge> 0 \<and> t_usec (evutil_timersub t u) \<ge> 0"
  by (auto simp: normal_time_def evutil_timersub_def evutil_timer_greater_def split: if_splits)

text \<open>The bits above the lowest twenty.\<close>

lemma unmarked: "normal_time t \<Longrightarrow> t_usec t AND NOT MICROSECONDS_MASK = 0"
proof -
  assume "normal_time t"
  then have "take_bit 20 (t_usec t) = t_usec t" by (intro take_bit_int_eq_self) (simp_all add: normal_time_def)
  then have "t_usec t AND mask 20 = t_usec t" by (simp add: take_bit_eq_mask)
  moreover have "MICROSECONDS_MASK = mask 20" by (simp add: MICROSECONDS_MASK_def mask_eq_exp_minus_1)
  ultimately show ?thesis by (metis bit.conj_cancel_right and.assoc bit.conj_zero_right)
qed

lemma same_common: "normal_time t \<Longrightarrow> normal_time u \<Longrightarrow> is_same_common_timeout t u"
  by (simp add: is_same_common_timeout_def unmarked)

section \<open>What the operations do to times\<close>

lemma normal_next_run: "normal_time now \<Longrightarrow> normal_event x \<Longrightarrow> normal_time (next_run now x)"
  by (simp add: next_run_def Let_def normal_event_def normal_add)

lemma normal_event_simps [simp]:
  "normal_event (joined x) = normal_event x" "normal_event (deleted x) = normal_event x"
  "normal_event (activated res n x) = normal_event x" "normal_event (fired x) = normal_event x"
  by (simp_all add: normal_event_def joined_def deleted_def activated_def fired_def)

lemma normal_assigned: "normal_event x \<Longrightarrow> normal_event (assigned fd what pri x)"
  by (simp add: normal_event_def assigned_def)

lemma normal_added:
  "normal_time now \<Longrightarrow> normal_event x \<Longrightarrow> (\<And>t. tv = Some t \<Longrightarrow> normal_time t) \<Longrightarrow> normal_event (event_added now tv absolute x)"
proof -
  assume n: "normal_time now" "normal_event x" and t: "\<And>t. tv = Some t \<Longrightarrow> normal_time t"
  have "normal_event (joined x)" using n by simp
  then show ?thesis using n(1) t by (auto simp: event_added_def timed_def normal_event_def normal_add split: option.split)
qed

lemma times_ok_one:
  assumes "times_ok b" "tv_now b' = tv_now b" "ev b' = (ev b)(e := y)" "normal_event y"
  shows "times_ok b'"
  using assms by (simp add: times_ok_def)

lemma times_ok_cong: "tv_now b' = tv_now b \<Longrightarrow> ev b' = ev b \<Longrightarrow> times_ok b' = times_ok b"
  by (simp add: times_ok_def)

lemma times_ok_control [simp]:
  "times_ok (b\<lparr>event_break := x\<rparr>) = times_ok b" "times_ok (b\<lparr>event_gotterm := x\<rparr>) = times_ok b"
  "times_ok (b\<lparr>event_continue := x\<rparr>) = times_ok b" "times_ok (b\<lparr>event_running_priority := i\<rparr>) = times_ok b"
  "times_ok (b\<lparr>frame := f\<rparr>) = times_ok b" "times_ok (b\<lparr>next_frame := n\<rparr>) = times_ok b" "times_ok (b\<lparr>ran := r\<rparr>) = times_ok b"
  by (simp_all add: times_ok_def)

lemma times_ok_upd:
  "(\<And>x. ev_timeout (f x) = ev_timeout x) \<Longrightarrow> (\<And>x. ev_io_timeout (f x) = ev_io_timeout x) \<Longrightarrow> times_ok (upd e f b) = times_ok b"
  by (auto simp: times_ok_def normal_event_def upd_def)

lemma timeout_next_ok: "times_ok b \<Longrightarrow> \<exists>t. timeout_next b = Some t"
  using sub_not_negative by (auto simp: timeout_next_def times_ok_def normal_event_def Let_def split: option.split)

end
