(* ===== verification/EventRun.thy ===== *)
theory EventRun imports EventTime begin

text \<open>
  The loop under callbacks that use the base as the manual asks: every call is proper, every interval
  has its microseconds in range, and no callback activates events by hand. Then no call goes wrong, every run of the active events ends,
  and the invariant of the base holds again when the loop waits or returns.
\<close>

section \<open>What no operation touches\<close>

text \<open>The number of queues stays, and the running signal closure only ever loses its calls.\<close>

definition kept :: "event_base \<Rightarrow> event_base \<Rightarrow> bool" where
  "kept b b' \<longleftrightarrow> length (activequeues b') = length (activequeues b) \<and>
    (frame b' = frame b \<or> frame b' = map_option (\<lambda>(f, _). (f, 0)) (frame b))"

lemma kept_refl [simp]: "kept b b"
  by (simp add: kept_def)

lemma kept_trans: "kept b b' \<Longrightarrow> kept b' b'' \<Longrightarrow> kept b b''"
  by (cases "frame b") (auto simp: kept_def)

lemma kept_eq: "activequeues b' = activequeues b \<Longrightarrow> frame b' = frame b \<Longrightarrow> kept b b'"
  by (simp add: kept_def)

lemma kept_upd [simp]: "kept b (upd e f b)" "kept b (b\<lparr>timeheap := h\<rparr>)" "kept b (b\<lparr>event_continue := c\<rparr>)"
  by (simp_all add: kept_def)

lemma kept_abort [simp]: "kept b (abort_calls e b)"
  by (auto simp: kept_def abort_calls_def split: option.splits)

lemma live_kept: "kept b b' \<Longrightarrow> live_ncalls b' \<le> live_ncalls b"
  by (auto simp: kept_def live_ncalls_def split: option.split)

lemma kept_remove: "event_queue_remove e q b = Some b' \<Longrightarrow> kept b b'"
  unfolding event_queue_remove_def Let_def kept_def
  by (cases q; cases "on b EVLIST_INTERNAL e"; auto split: if_splits)

lemma kept_insert: "event_queue_insert os e q b = Some b' \<Longrightarrow> kept b b'"
  unfolding event_queue_insert_def Let_def kept_def
  by (cases q; cases "on b EVLIST_INTERNAL e"; auto split: if_splits option.splits)

lemma kept_same: "same_queues b b' \<Longrightarrow> kept b b'"
  by (rule kept_eq) (auto dest: same_queuesD(3,7) simp: control_def)

lemmas kept_maps = map_same_queues [THEN kept_same]

lemmas kept_parts = kept_remove kept_insert kept_maps

lemma kept_add_to_maps: "add_to_maps os e b = Some (r, b') \<Longrightarrow> kept b b'"
  unfolding add_to_maps_def Let_def
  by (auto simp: bind_eq_Some_conv split: if_splits dest!: kept_parts intro: kept_trans)

lemma kept_add_timeout:
  assumes "add_timeout os e tv absolute b = Some b'"
  shows "kept b b'"
proof -
  define b1 where "b1 = (if ev_closure (ev b e) = EV_CLOSURE_PERSIST \<and> \<not> absolute then upd e (\<lambda>x. x\<lparr>ev_io_timeout := tv\<rparr>) b else b)"
  obtain b2 b3 where s: "(if on b1 EVLIST_TIMEOUT e then event_queue_remove e EVLIST_TIMEOUT b1 else Some b1) = Some b2"
    "(if on b2 EVLIST_ACTIVE e \<and> EV_TIMEOUT \<in> ev_res (ev b2 e)
      then event_queue_remove e EVLIST_ACTIVE (if EV_SIGNAL \<in> ev_events (ev b2 e) then abort_calls e b2 else b2) else Some b2) = Some b3"
    "event_queue_insert os e EVLIST_TIMEOUT (upd e (\<lambda>x. x\<lparr>ev_timeout := (if absolute then tv else evutil_timeradd (tv_now b3) tv)\<rparr>) b3) = Some b'"
    using assms unfolding add_timeout_def Let_def b1_def [symmetric] by (auto simp: bind_eq_Some_conv)
  have "kept b b1" by (simp add: b1_def)
  moreover have "kept b1 b2" using s(1) by (auto split: if_splits dest: kept_remove)
  moreover have "kept b2 b3" using s(2) by (auto split: if_splits dest!: kept_remove intro: kept_trans [OF kept_abort])
  moreover have "kept b3 b'" using kept_insert [OF s(3)] kept_upd(1) kept_trans by blast
  ultimately show ?thesis by (blast intro: kept_trans)
qed

lemma kept_add:
  assumes "event_add_internal os e tv absolute b = Some (r, b')"
  shows "kept b b'"
  using assms unfolding event_add_internal_def
  by (auto simp: bind_eq_Some_conv split: option.splits if_splits
      dest!: kept_add_to_maps kept_add_timeout intro: kept_trans kept_trans [OF kept_upd(2)])

lemma kept_del:
  assumes "event_del_internal os e b = Some (r, b')"
  shows "kept b b'"
proof (cases "ev_base (ev b e)")
  case False
  then show ?thesis using assms by (simp add: event_del_internal_def)
next
  case base: True
  define b0 where "b0 = (if EV_SIGNAL \<in> ev_events (ev b e) then abort_calls e b else b)"
  have "\<exists>b1 b2. (if on b0 EVLIST_TIMEOUT e then event_queue_remove e EVLIST_TIMEOUT b0 else Some b0) = Some b1 \<and>
    (if on b1 EVLIST_ACTIVE e then event_queue_remove e EVLIST_ACTIVE b1 else Some b1) = Some b2 \<and>
    (if on b2 EVLIST_INSERTED e then do {
        b \<leftarrow> event_queue_remove e EVLIST_INSERTED b2;
        (res, b) \<leftarrow> (if ev_events (ev b e) \<inter> io_kinds \<noteq> {} then evmap_io_del os e b else evmap_signal_del os e b);
        Some (if res = 1 then 0 else res, b) }
      else Some (0, b2)) = Some (r, b')"
    using assms base unfolding event_del_internal_def Let_def b0_def [symmetric]
    by (simp only: bind_eq_Some_conv not_True_eq_False if_False) blast
  then obtain b1 b2 where s: "(if on b0 EVLIST_TIMEOUT e then event_queue_remove e EVLIST_TIMEOUT b0 else Some b0) = Some b1"
    "(if on b1 EVLIST_ACTIVE e then event_queue_remove e EVLIST_ACTIVE b1 else Some b1) = Some b2"
    "(if on b2 EVLIST_INSERTED e then do {
        b \<leftarrow> event_queue_remove e EVLIST_INSERTED b2;
        (res, b) \<leftarrow> (if ev_events (ev b e) \<inter> io_kinds \<noteq> {} then evmap_io_del os e b else evmap_signal_del os e b);
        Some (if res = 1 then 0 else res, b) }
      else Some (0, b2)) = Some (r, b')" by blast
  have "kept b b0" by (simp add: b0_def)
  moreover have "kept b0 b1" "kept b1 b2" using s(1,2) by (auto split: if_splits dest: kept_remove)
  moreover have "kept b2 b'"
    using s(3) by (auto simp: bind_eq_Some_conv split: if_splits dest!: kept_parts intro: kept_trans)
  ultimately show ?thesis by (blast intro: kept_trans)
qed

lemma kept_active:
  assumes "event_active_nolock os e res n b = Some b'"
  shows "kept b b'"
proof (cases "on b EVLIST_ACTIVE e")
  case True
  then show ?thesis using assms by (auto simp: event_active_nolock_def)
next
  case False
  let ?b1 = "upd e (\<lambda>x. x\<lparr>ev_res := res\<rparr>) b"
  let ?b2 = "if int (ev_pri (ev ?b1 e)) < event_running_priority ?b1 then ?b1\<lparr>event_continue := True\<rparr> else ?b1"
  let ?b3 = "if EV_SIGNAL \<in> ev_events (ev ?b2 e) then upd e (\<lambda>x. x\<lparr>ev_ncalls := n, ev_pncalls := None\<rparr>) ?b2 else ?b2"
  have has: "\<not> \<not> ev_base (ev b e)" using assms False by (auto simp: event_active_nolock_def split: if_splits)
  have "event_queue_insert os e EVLIST_ACTIVE ?b3 = Some b'"
    using assms unfolding event_active_nolock_def Let_def if_not_P [OF False] if_not_P [OF has] .
  then have "kept ?b3 b'" by (rule kept_insert)
  moreover have "kept b ?b3" by (simp add: kept_eq)
  ultimately show ?thesis by (rule kept_trans [rotated])
qed

section \<open>Calls as the manual asks for them\<close>

definition proper_call :: "event_base \<Rightarrow> ev_call \<Rightarrow> bool" where
  "proper_call b c =
    (case c of
       EventAssign e fd what \<Rightarrow> idle b e \<and> (EV_SIGNAL \<in> what \<longrightarrow> what \<inter> io_kinds = {} \<and> 0 \<le> fd) \<and> fd < slot_limit
     | EventPriority e _ \<Rightarrow> ev_base (ev b e)
     | _ \<Rightarrow> True)"

fun proper_calls :: "ev_os \<Rightarrow> event_base \<Rightarrow> ev_call list \<Rightarrow> bool" where
  "proper_calls os b [] = True"
| "proper_calls os b (c # cs) =
    (proper_call b c \<and> (case make_call os c b of None \<Rightarrow> True | Some b \<Rightarrow> proper_calls os b cs))"

definition activates :: "ev_call \<Rightarrow> bool" where
  "activates c = (case c of EventActive _ _ _ \<Rightarrow> True | _ \<Rightarrow> False)"

definition timely :: "ev_call \<Rightarrow> bool" where
  "timely c = (case c of EventAdd _ (Some t) \<Rightarrow> normal_time t | _ \<Rightarrow> True)"

text \<open>What a call that activates nothing does to the queues of active events and to the loop.\<close>

definition calm :: "event_base \<Rightarrow> event_base \<Rightarrow> bool" where
  "calm b b' \<longleftrightarrow> kept b b' \<and> (\<forall>e. on b' EVLIST_ACTIVE e \<longrightarrow> on b EVLIST_ACTIVE e) \<and>
    event_continue b' = event_continue b \<and> tv_now b' = tv_now b \<and> (event_break b \<longrightarrow> event_break b')"

lemma calm_refl [simp]: "calm b b"
  by (simp add: calm_def)

lemma calm_trans: "calm b b' \<Longrightarrow> calm b' b'' \<Longrightarrow> calm b b''"
  by (auto simp: calm_def intro: kept_trans)

lemma base_ok_control:
  "base_ok (b\<lparr>event_break := x\<rparr>) = base_ok b" "base_ok (b\<lparr>event_gotterm := x\<rparr>) = base_ok b"
  "base_ok (b\<lparr>event_continue := x\<rparr>) = base_ok b" "base_ok (b\<lparr>event_running_priority := i\<rparr>) = base_ok b"
  "base_ok (b\<lparr>frame := f\<rparr>) = base_ok b" "base_ok (b\<lparr>next_frame := n\<rparr>) = base_ok b"
  "base_ok (b\<lparr>tv_now := t\<rparr>) = base_ok b" "base_ok (b\<lparr>ran := r\<rparr>) = base_ok b"
  by (rule base_ok_cong; simp add: queue_part_def maps_def)+

lemma added_active: "EVLIST_ACTIVE \<in> ev_flags (event_added now tv absolute x) \<Longrightarrow> EVLIST_ACTIVE \<in> ev_flags x"
  by (auto simp: event_added_def timed_def joined_def split: option.splits if_splits)

lemma add_calm:
  assumes ok: "base_ok b" "ev_base (ev b e)"
  shows "\<exists>r b'. event_add_internal os e tv absolute b = Some (r, b') \<and> base_ok b' \<and> calm b b' \<and>
    (times_ok b \<longrightarrow> (\<forall>t. tv = Some t \<longrightarrow> normal_time t) \<longrightarrow> times_ok b')"
proof -
  from event_add_internal_ok [OF ok, of os tv absolute] obtain r b' where b': "event_add_internal os e tv absolute b = Some (r, b')"
    "base_ok b'" "settings b' = settings b" "ev b' = (if r = 0 then (ev b)(e := event_added (tv_now b) tv absolute (ev b e)) else ev b)" by blast
  moreover have "\<forall>x. on b' EVLIST_ACTIVE x \<longrightarrow> on b EVLIST_ACTIVE x"
    using b'(4) added_active [of "tv_now b" tv absolute "ev b e"] by (simp add: on_def)
  moreover have "times_ok b'" if "times_ok b" "\<forall>t. tv = Some t \<longrightarrow> normal_time t"
    using that b'(3,4) normal_added [of "tv_now b" "ev b e" tv absolute] by (simp add: times_ok_def settings_def)
  ultimately show ?thesis using kept_add [OF b'(1)] by (simp add: calm_def settings_def)
qed

lemma del_calm:
  assumes ok: "base_ok b" "del_works os" "ev_base (ev b e)"
  shows "\<exists>b'. event_del_internal os e b = Some (0, b') \<and> base_ok b' \<and> calm b b' \<and> ev b' = (ev b)(e := deleted (ev b e)) \<and>
    (times_ok b \<longrightarrow> times_ok b')"
proof -
  from event_del_internal_ok [OF ok] obtain b' where b': "event_del_internal os e b = Some (0, b')"
    "base_ok b'" "settings b' = settings b" "ev b' = (ev b)(e := deleted (ev b e))" by blast
  moreover have "\<forall>x. on b' EVLIST_ACTIVE x \<longrightarrow> on b EVLIST_ACTIVE x" using b'(4) by (simp add: on_def deleted_def)
  ultimately show ?thesis using kept_del [OF b'(1)] by (simp add: calm_def settings_def times_ok_def)
qed

lemma make_call_ok:
  assumes ok: "base_ok b" "del_works os" and p: "proper_call b c"
  shows "\<exists>b'. make_call os c b = Some b' \<and> base_ok b' \<and> (\<not> activates c \<longrightarrow> calm b b') \<and> (times_ok b \<longrightarrow> timely c \<longrightarrow> times_ok b')"
proof (cases c)
  case (EventAdd e tv)
  then show ?thesis using ok(1) add_calm [OF ok(1), of e os tv False]
    by (cases "ev_base (ev b e)") (auto simp: event_add_def timely_def)
next
  case (EventDel e)
  then show ?thesis using ok(1) del_calm [OF ok, of e] by (cases "ev_base (ev b e)") (auto simp: event_del_def)
next
  case (EventActive e res n)
  then show ?thesis using ok(1) event_active_nolock_ok [OF ok(1), of e os res n]
    by (cases "ev_base (ev b e)") (auto simp: event_active_def activates_def times_ok_def settings_def)
next
  case (EventAssign e fd what)
  then have "idle b e" "EV_SIGNAL \<in> what \<longrightarrow> what \<inter> io_kinds = {} \<and> 0 \<le> fd" "fd < slot_limit" using p by (simp_all add: proper_call_def)
  note A = event_assign_ok [OF ok(1) this]
  have "calm b (upd e (assigned fd what (length (activequeues b) div 2)) b)"
    by (simp add: calm_def on_def assigned_def)
  then show ?thesis using A EventAssign normal_assigned by (simp add: times_ok_def)
next
  case (EventPriority e pri)
  then have "ev_base (ev b e)" using p by (simp add: proper_call_def)
  from event_priority_set_ok [OF ok(1) this, of pri] EventPriority show ?thesis
    by (auto simp: calm_def on_def times_ok_def normal_event_def)
next
  case LoopBreak
  then show ?thesis using ok by (simp add: event_base_loopbreak_def base_ok_control calm_def kept_eq on_def)
next
  case LoopExit
  then show ?thesis using ok by (simp add: event_loopexit_cb_def base_ok_control calm_def kept_eq on_def)
qed

lemma make_calls_ok:
  assumes "base_ok b" "del_works os" "proper_calls os b cs"
  shows "\<exists>b'. make_calls os cs b = Some b' \<and> base_ok b' \<and> ((\<forall>c \<in> set cs. \<not> activates c) \<longrightarrow> calm b b') \<and>
    (times_ok b \<longrightarrow> (\<forall>c \<in> set cs. timely c) \<longrightarrow> times_ok b')"
  using assms(1,3)
proof (induction cs arbitrary: b)
  case (Cons c cs)
  from make_call_ok [OF Cons.prems(1) assms(2), of c] Cons.prems(2) obtain b1 where b1: "make_call os c b = Some b1" "base_ok b1"
    "\<not> activates c \<longrightarrow> calm b b1" "times_ok b \<longrightarrow> timely c \<longrightarrow> times_ok b1" by auto
  from Cons.IH [OF b1(2)] Cons.prems(2) b1(1) obtain b2 where "make_calls os cs b1 = Some b2" "base_ok b2"
    "(\<forall>c \<in> set cs. \<not> activates c) \<longrightarrow> calm b1 b2" "times_ok b1 \<longrightarrow> (\<forall>c \<in> set cs. timely c) \<longrightarrow> times_ok b2" by auto
  then show ?case using b1 by (auto intro: calm_trans)
qed simp

text \<open>Callbacks that only make proper calls with intervals in range, and activate nothing.\<close>

definition good_callbacks :: "ev_os \<Rightarrow> callbacks \<Rightarrow> bool" where
  "good_callbacks os cb \<longleftrightarrow>
    (\<forall>e res b. base_fit b \<longrightarrow> proper_calls os b (cb e res b) \<and> (\<forall>c \<in> set (cb e res b). \<not> activates c \<and> timely c))"

lemma base_fit_control [simp]:
  "base_fit (b\<lparr>event_break := x\<rparr>) = base_fit b" "base_fit (b\<lparr>event_gotterm := x\<rparr>) = base_fit b"
  "base_fit (b\<lparr>event_continue := x\<rparr>) = base_fit b" "base_fit (b\<lparr>event_running_priority := i\<rparr>) = base_fit b"
  "base_fit (b\<lparr>frame := f\<rparr>) = base_fit b" "base_fit (b\<lparr>next_frame := n\<rparr>) = base_fit b" "base_fit (b\<lparr>ran := r\<rparr>) = base_fit b"
  by (simp_all add: base_fit_def base_ok_control)

lemma base_fit_upd:
  assumes "base_fit b" "\<And>x. ev_fd (f x) = ev_fd x" "\<And>x. ev_events (f x) = ev_events x" "\<And>x. ev_flags (f x) = ev_flags x"
    "\<And>x. ev_pri (f x) = ev_pri x" "\<And>x. ev_base (f x) = ev_base x"
    "\<And>x. ev_timeout (f x) = ev_timeout x" "\<And>x. ev_io_timeout (f x) = ev_io_timeout x"
  shows "base_fit (upd e f b)"
  using assms base_ok_upd [of b f e] times_ok_upd [of f e b] by (simp add: base_fit_def)

lemma run_callback_ok:
  assumes ok: "base_fit b" "del_works os" and cb: "good_callbacks os cb"
  shows "\<exists>b'. run_callback os cb e b = Some b' \<and> base_fit b' \<and> calm b b'"
proof -
  let ?b = "b\<lparr>ran := ran b @ [(e, ev_res (ev b e))]\<rparr>"
  have fit: "base_fit ?b" using ok by simp
  have cs: "proper_calls os ?b (cb e (ev_res (ev b e)) ?b)" "\<forall>c \<in> set (cb e (ev_res (ev b e)) ?b). \<not> activates c"
    "\<forall>c \<in> set (cb e (ev_res (ev b e)) ?b). timely c"
    using cb [unfolded good_callbacks_def, THEN spec [of _ e], THEN spec [of _ "ev_res (ev b e)"], THEN spec [of _ ?b], THEN mp, OF fit]
    by auto
  from make_calls_ok [OF base_fitD(1) [OF fit] ok(2) cs(1)] cs(2,3) base_fitD(2) [OF fit]
  obtain b' where "make_calls os (cb e (ev_res (ev b e)) ?b) ?b = Some b'" "base_fit b'" "calm ?b b'"
    by (auto simp: base_fit_def)
  moreover have "calm b ?b" by (simp add: calm_def kept_eq on_def)
  ultimately show ?thesis by (auto simp: run_callback_def Let_def intro: calm_trans)
qed

end
