(* ===== verification/EventTurn.thy ===== *)
theory EventTurn imports EventRun begin

text \<open>
  One turn of the loop: the reports of the backend, the closures, the queues of active events, and
  the loop itself, under callbacks that only make proper calls and a backend that only reports what
  it was asked to watch.
\<close>

section \<open>What the backend watches\<close>

lemma io_registered:
  assumes ok: "base_ok b"
  shows "registered b fd = {k \<in> io_kinds. 0 \<le> fd \<and> (\<exists>e \<in> inserted b. ev_fd (ev b e) = fd \<and> k \<in> ev_events (ev b e))}"
proof (cases "io_map b fd")
  case None
  then show ?thesis
    using maps_okD(3) [OF base_okD(2) [OF ok], of fd] by (auto simp: io_slot_ok_def io_of_def)
next
  case (Some c)
  then have c: "0 \<le> fd" "set (io_events c) = io_of (inserted b) b fd" "nread c = asking b EV_READ (io_events c)"
    "nwrite c = asking b EV_WRITE (io_events c)" "registered b fd = watched c"
    using maps_okD(3) [OF base_okD(2) [OF ok], of fd] by (simp_all add: io_slot_ok_def)
  have ask: "asking b k (io_events c) \<noteq> 0 \<longleftrightarrow> (\<exists>e \<in> io_of (inserted b) b fd. k \<in> ev_events (ev b e))" for k
    unfolding asking_def c(2) [symmetric] by (auto simp: filter_empty_conv)
  have wanted: "(\<exists>e \<in> io_of (inserted b) b fd. k \<in> ev_events (ev b e)) \<longleftrightarrow>
      (\<exists>e \<in> inserted b. ev_fd (ev b e) = fd \<and> k \<in> ev_events (ev b e))" if "k \<in> io_kinds" for k
    using that by (auto simp: io_of_def)
  have "k \<in> watched c \<longleftrightarrow> k \<in> io_kinds \<and> (\<exists>e \<in> inserted b. ev_fd (ev b e) = fd \<and> k \<in> ev_events (ev b e))" for k
    using ask wanted by (auto simp: watched_def c(3,4) io_kinds_def)
  then show ?thesis using c(1,5) by auto
qed

lemma signal_registered:
  assumes ok: "base_ok b"
  shows "sig_registered b sig \<longleftrightarrow> (\<exists>e \<in> inserted b. ev_fd (ev b e) = sig \<and> EV_SIGNAL \<in> ev_events (ev b e))"
proof -
  have "sig_registered b sig \<longleftrightarrow> sig_of (inserted b) b sig \<noteq> {}"
    using maps_okD(4) [OF base_okD(2) [OF ok], of sig] by (auto simp: sig_slot_ok_def split: option.splits)
  then show ?thesis by (auto simp: sig_of_def)
qed

lemma activated_sel [simp]:
  "ev_fd (activated res n x) = ev_fd x" "ev_events (activated res n x) = ev_events x"
  "EVLIST_INSERTED \<in> ev_flags (activated res n x) \<longleftrightarrow> EVLIST_INSERTED \<in> ev_flags x"
  "EVLIST_TIMEOUT \<in> ev_flags (activated res n x) \<longleftrightarrow> EVLIST_TIMEOUT \<in> ev_flags x" "ev_timeout (activated res n x) = ev_timeout x"
  by (simp_all add: activated_def)

text \<open>What matters to the next report stays.\<close>

definition steady :: "event_base \<Rightarrow> event_base \<Rightarrow> bool" where
  "steady b b' \<longleftrightarrow> inserted b' = inserted b \<and> registered b' = registered b \<and> sig_registered b' = sig_registered b \<and>
    tv_now b' = tv_now b \<and> (times_ok b \<longrightarrow> times_ok b') \<and> event_break b' = event_break b \<and> ran b' = ran b \<and> event_running_priority b' = event_running_priority b \<and>
    length (activequeues b') = length (activequeues b)"

lemma steady_trans: "steady b b' \<Longrightarrow> steady b' b'' \<Longrightarrow> steady b b''"
  by (simp add: steady_def)

lemma active_steady:
  assumes ok: "base_ok b" and base: "ev_base (ev b e)"
  shows "\<exists>b'. event_active_nolock os e res n b = Some b' \<and> base_ok b' \<and> ev b' = (ev b)(e := activated res n (ev b e)) \<and> steady b b'"
proof -
  from event_active_nolock_ok [OF ok base, of os res n] obtain b' where b': "event_active_nolock os e res n b = Some b'" "base_ok b'"
    "ev b' = (ev b)(e := activated res n (ev b e))"
    "settings b' = settings (b\<lparr>event_continue := event_continue b \<or>
      \<not> on b EVLIST_ACTIVE e \<and> int (ev_pri (ev b e)) < event_running_priority b\<rparr>)" by blast
  have sel: "ev_fd (ev b' x) = ev_fd (ev b x)" "ev_events (ev b' x) = ev_events (ev b x)" for x
    by (simp_all add: b'(3))
  have ins: "inserted b' = inserted b" by (auto simp: inserted_def on_def b'(3))
  have "registered b' fd = registered b fd" "sig_registered b' fd = sig_registered b fd" for fd
    by (simp_all add: io_registered [OF ok] io_registered [OF b'(2)] signal_registered [OF ok] signal_registered [OF b'(2)] ins sel)
  then have "steady b b'"
    using b'(3,4) ins kept_active [OF b'(1)] by (simp add: steady_def settings_def kept_def fun_eq_iff times_ok_def)
  then show ?thesis using b' by blast
qed

section \<open>Reports\<close>

lemma activate_all_ok:
  assumes "base_ok b" "distinct es" "set es \<subseteq> inserted b"
  shows "\<exists>b'. activate_all os what es b = Some b' \<and> base_ok b' \<and> steady b b' \<and>
    ev b' = (\<lambda>e. if e \<in> set es \<and> ev_events (ev b e) \<inter> what \<noteq> {} then activated (ev_events (ev b e) \<inter> what) 1 (ev b e) else ev b e)"
  using assms
proof (induction es arbitrary: b)
  case (Cons e es)
  let ?x = "ev b e"
  have base: "ev_base ?x" by (rule on_base [OF Cons.prems(1), of EVLIST_INSERTED]) (use Cons.prems(3) in \<open>auto simp: inserted_def queue_names_def\<close>)
  have "\<exists>b1. (if ev_events ?x \<inter> what \<noteq> {} then event_active_nolock os e (ev_events ?x \<inter> what) 1 b else Some b) = Some b1 \<and>
      base_ok b1 \<and> steady b b1 \<and> ev b1 = (ev b)(e := if ev_events ?x \<inter> what \<noteq> {} then activated (ev_events ?x \<inter> what) 1 ?x else ?x)"
    using Cons.prems(1) active_steady [OF Cons.prems(1) base, of os "ev_events ?x \<inter> what" 1] by (auto simp: steady_def)
  then obtain b1 where b1: "(if ev_events ?x \<inter> what \<noteq> {} then event_active_nolock os e (ev_events ?x \<inter> what) 1 b else Some b) = Some b1"
      "base_ok b1" "steady b b1" "ev b1 = (ev b)(e := if ev_events ?x \<inter> what \<noteq> {} then activated (ev_events ?x \<inter> what) 1 ?x else ?x)" by blast
  from Cons.IH [OF b1(2)] Cons.prems(2,3) b1(3) obtain b2 where b2: "activate_all os what es b1 = Some b2" "base_ok b2" "steady b1 b2"
    "ev b2 = (\<lambda>e. if e \<in> set es \<and> ev_events (ev b1 e) \<inter> what \<noteq> {} then activated (ev_events (ev b1 e) \<inter> what) 1 (ev b1 e) else ev b1 e)"
    by (auto simp: steady_def)
  have "activate_all os what (e # es) b = Some b2" by (simp only: activate_all.simps b1(1) Option.bind.bind_lunit b2(1))
  moreover have "ev b2 = (\<lambda>x. if x \<in> set (e # es) \<and> ev_events (ev b x) \<inter> what \<noteq> {} then activated (ev_events (ev b x) \<inter> what) 1 (ev b x) else ev b x)"
    using Cons.prems(2) unfolding b2(4) b1(4) by (auto simp: fun_eq_iff)
  ultimately show ?case using b2(2) steady_trans [OF b1(3) b2(3)] by blast
qed (simp add: steady_def)

lemma activate_signals_ok:
  assumes "base_ok b" "distinct es" "set es \<subseteq> inserted b"
  shows "\<exists>b'. activate_signals os n es b = Some b' \<and> base_ok b' \<and> steady b b' \<and>
    ev b' = (\<lambda>e. if e \<in> set es then activated {EV_SIGNAL} (ucast n) (ev b e) else ev b e)"
  using assms
proof (induction es arbitrary: b)
  case (Cons e es)
  have base: "ev_base (ev b e)" by (rule on_base [OF Cons.prems(1), of EVLIST_INSERTED]) (use Cons.prems(3) in \<open>auto simp: inserted_def queue_names_def\<close>)
  from active_steady [OF Cons.prems(1) base, of os "{EV_SIGNAL}" "ucast n"] obtain b1 where b1: "event_active_nolock os e {EV_SIGNAL} (ucast n) b = Some b1"
    "base_ok b1" "steady b b1" "ev b1 = (ev b)(e := activated {EV_SIGNAL} (ucast n) (ev b e))" by blast
  from Cons.IH [OF b1(2)] Cons.prems(2,3) b1(3) obtain b2 where b2: "activate_signals os n es b1 = Some b2" "base_ok b2" "steady b1 b2"
    "ev b2 = (\<lambda>e. if e \<in> set es then activated {EV_SIGNAL} (ucast n) (ev b1 e) else ev b1 e)" by (auto simp: steady_def)
  have "ev b2 = (\<lambda>x. if x \<in> set (e # es) then activated {EV_SIGNAL} (ucast n) (ev b x) else ev b x)"
    using Cons.prems(2) unfolding b2(4) b1(4) by (auto simp: fun_eq_iff)
  then show ?case using b1(1) b2(1,2) steady_trans [OF b1(3) b2(3)] by auto
qed (simp add: steady_def)

lemma evmap_io_active_ok:
  assumes ok: "base_ok b" and w: "registered b fd \<noteq> {}"
  shows "\<exists>b'. evmap_io_active os fd what b = Some b' \<and> base_ok b' \<and> steady b b' \<and>
    ev b' = (\<lambda>e. if e \<in> io_of (inserted b) b fd \<and> ev_events (ev b e) \<inter> what \<noteq> {}
                 then activated (ev_events (ev b e) \<inter> what) 1 (ev b e) else ev b e)"
proof -
  have "\<exists>c. io_map b fd = Some c"
    using maps_okD(3) [OF base_okD(2) [OF ok], of fd] w by (auto simp: io_slot_ok_def split: option.splits)
  then obtain c where c: "io_map b fd = Some c" ..
  then have slot: "0 \<le> fd" "fd < io_nentries b" "distinct (io_events c)" "set (io_events c) = io_of (inserted b) b fd"
    using maps_okD(3) [OF base_okD(2) [OF ok], of fd] by (simp_all add: io_slot_ok_def)
  have "set (io_events c) \<subseteq> inserted b" unfolding slot(4) by (auto simp: io_of_def)
  from activate_all_ok [OF ok slot(3) this, of os what] show ?thesis
    using slot by (simp add: evmap_io_active_def c)
qed

lemma evmap_signal_active_ok:
  assumes ok: "base_ok b" and w: "sig_registered b sig"
  shows "\<exists>b'. evmap_signal_active os sig n b = Some b' \<and> base_ok b' \<and> steady b b' \<and>
    ev b' = (\<lambda>e. if e \<in> sig_of (inserted b) b sig then activated {EV_SIGNAL} (ucast n) (ev b e) else ev b e)"
proof -
  have "\<exists>evs. sigmap b sig = Some evs"
    using maps_okD(4) [OF base_okD(2) [OF ok], of sig] w by (auto simp: sig_slot_ok_def split: option.splits)
  then obtain evs where evs: "sigmap b sig = Some evs" ..
  then have slot: "0 \<le> sig" "sig < sig_nentries b" "distinct evs" "set evs = sig_of (inserted b) b sig"
    using maps_okD(4) [OF base_okD(2) [OF ok], of sig] by (simp_all add: sig_slot_ok_def)
  have "set evs \<subseteq> inserted b" unfolding slot(4) by (auto simp: sig_of_def)
  from activate_signals_ok [OF ok slot(3) this, of os n] show ?thesis
    using slot by (simp add: evmap_signal_active_def evs)
qed

text \<open>The backend only reports what it watches, and the time in range.\<close>

definition honest_poll :: "event_base \<Rightarrow> ev_poll \<Rightarrow> bool" where
  "honest_poll b p \<longleftrightarrow> (\<forall>(fd, what) \<in> set (poll_fds p). registered b fd \<noteq> {}) \<and>
    (\<forall>(sig, n) \<in> set (poll_signals p). sig_registered b sig) \<and> normal_time (poll_time p)"

lemma report_fds_ok:
  assumes "base_ok b" "\<forall>(fd, what) \<in> set rs. registered b fd \<noteq> {}"
  shows "\<exists>b'. report_fds os rs b = Some b' \<and> base_ok b' \<and> steady b b'"
  using assms
proof (induction rs arbitrary: b)
  case (Cons r rs)
  obtain fd what where r: "r = (fd, what)" by force
  from evmap_io_active_ok [OF Cons.prems(1), of fd os what] Cons.prems(2) r obtain b1 where b1: "evmap_io_active os fd what b = Some b1"
    "base_ok b1" "steady b b1" by auto
  from Cons.IH [OF b1(2)] Cons.prems(2) b1(3) obtain b2 where "report_fds os rs b1 = Some b2" "base_ok b2" "steady b1 b2"
    by (auto simp: steady_def)
  then show ?case using b1 steady_trans by (auto simp: r)
qed (simp add: steady_def)

lemma report_signals_ok:
  assumes "base_ok b" "\<forall>(sig, n) \<in> set rs. sig_registered b sig"
  shows "\<exists>b'. report_signals os rs b = Some b' \<and> base_ok b' \<and> steady b b'"
  using assms
proof (induction rs arbitrary: b)
  case (Cons r rs)
  obtain sig n where r: "r = (sig, n)" by force
  from evmap_signal_active_ok [OF Cons.prems(1), of sig os n] Cons.prems(2) r obtain b1 where b1: "evmap_signal_active os sig n b = Some b1"
    "base_ok b1" "steady b b1" by auto
  from Cons.IH [OF b1(2)] Cons.prems(2) b1(3) obtain b2 where "report_signals os rs b1 = Some b2" "base_ok b2" "steady b1 b2"
    by (auto simp: steady_def)
  then show ?case using b1 steady_trans by (auto simp: r)
qed (simp add: steady_def)

section \<open>Closures\<close>

text \<open>What a closure does to the queues of active events and to the loop.\<close>

definition still :: "event_base \<Rightarrow> event_base \<Rightarrow> bool" where
  "still b b' \<longleftrightarrow> length (activequeues b') = length (activequeues b) \<and> (\<forall>e. on b' EVLIST_ACTIVE e \<longrightarrow> on b EVLIST_ACTIVE e) \<and>
    event_continue b' = event_continue b \<and> tv_now b' = tv_now b \<and> (event_break b \<longrightarrow> event_break b')"

lemma still_refl [simp]: "still b b"
  by (simp add: still_def)

lemma still_trans: "still b b' \<Longrightarrow> still b' b'' \<Longrightarrow> still b b''"
  by (auto simp: still_def)

lemma calm_still: "calm b b' \<Longrightarrow> still b b'"
  by (simp add: calm_def kept_def still_def)

lemma still_frame [simp]: "still b (b\<lparr>frame := f\<rparr>)" "still b (b\<lparr>frame := f, next_frame := n\<rparr>)" "still b (set_ncalls k b)"
  by (simp_all add: still_def on_def set_ncalls_def)

lemma set_ncalls_sel [simp]: "ev (set_ncalls n b) = ev b" "base_fit (set_ncalls n b) = base_fit b"
  by (simp_all add: set_ncalls_def)

lemma still_upd: "(\<And>x. ev_flags (f x) = ev_flags x) \<Longrightarrow> still b (upd e f b)"
  by (simp add: still_def on_def)

lemma signal_calls_ok:
  assumes "base_fit b" "del_works os" "good_callbacks os cb"
  shows "\<exists>b'. signal_calls os cb e b = Some b' \<and> base_fit b' \<and> still b b'"
  using assms(1)
proof (induction "unat (live_ncalls b)" arbitrary: b rule: less_induct)
  case (less b)
  show ?case
  proof (cases "live_ncalls b = 0")
    case True
    then show ?thesis using less.prems by (subst signal_calls.simps) simp
  next
    case False
    define n where "n = live_ncalls b - 1"
    define b1 where "b1 = upd e (\<lambda>x. x\<lparr>ev_ncalls := n, ev_pncalls := (if n = 0 then None else ev_pncalls x)\<rparr>) (set_ncalls n b)"
    have b1: "base_fit b1" unfolding b1_def by (rule base_fit_upd) (use less.prems in simp_all)
    have s1: "still b b1" unfolding b1_def by (rule still_trans [OF _ still_upd]) simp_all
    have "live_ncalls b1 = n" using False by (auto simp: b1_def live_ncalls_def set_ncalls_def split: option.splits)
    then have l1: "unat (live_ncalls b1) < unat (live_ncalls b)"
      using False by (simp add: n_def unat_minus_one unat_gt_0)
    from run_callback_ok [OF b1 assms(2,3), of e] obtain b2 where b2: "run_callback os cb e b1 = Some b2" "base_fit b2" "calm b1 b2" by blast
    have run: "signal_calls os cb e b =
        (if event_break b2 then Some (if live_ncalls b2 \<noteq> 0 then upd e (\<lambda>x. x\<lparr>ev_pncalls := None\<rparr>) b2 else b2) else signal_calls os cb e b2)"
      unfolding signal_calls.simps [of os cb e b] if_not_P [OF False] Let_def n_def [symmetric] b1_def [symmetric] b2(1)
        Option.bind.bind_lunit ..
    have s2: "still b b2" by (rule still_trans [OF s1 calm_still [OF b2(3)]])
    show ?thesis
    proof (cases "event_break b2")
      case True
      have "base_fit (upd e (\<lambda>x. x\<lparr>ev_pncalls := None\<rparr>) b2)" by (rule base_fit_upd [OF b2(2)]) simp_all
      moreover have "still b (upd e (\<lambda>x. x\<lparr>ev_pncalls := None\<rparr>) b2)" by (rule still_trans [OF s2 still_upd]) simp
      ultimately show ?thesis using run True s2 b2(2) by simp
    next
      case False
      have "unat (live_ncalls b2) < unat (live_ncalls b)"
        using l1 live_kept [of b1 b2] b2(3) by (simp add: calm_def word_le_nat_alt)
      from less.hyps [OF this b2(2)] show ?thesis using run False s2 by (auto intro: still_trans)
    qed
  qed
qed

lemma run_closure_ok:
  assumes ok: "base_fit b" "del_works os" and cb: "good_callbacks os cb" and base: "ev_base (ev b e)"
  shows "\<exists>b'. run_closure os cb e b = Some b' \<and> base_fit b' \<and> still b b'"
proof (cases "ev_closure (ev b e)")
  case EV_CLOSURE_NONE
  then show ?thesis using run_callback_ok [OF ok cb, of e] calm_still by (auto simp: run_closure_def)
next
  case EV_CLOSURE_SIGNAL
  let ?b0 = "b\<lparr>frame := Some (next_frame b, ev_ncalls (ev b e)), next_frame := next_frame b + 1\<rparr>"
  define b1 where "b1 = (if ev_ncalls (ev b e) \<noteq> 0 then upd e (\<lambda>x. x\<lparr>ev_pncalls := Some (next_frame b)\<rparr>) ?b0 else ?b0)"
  have ok0: "base_fit ?b0" using ok by simp
  have "base_fit (upd e (\<lambda>x. x\<lparr>ev_pncalls := Some (next_frame b)\<rparr>) ?b0)" by (rule base_fit_upd [OF ok0]) simp_all
  then have b1: "base_fit b1" unfolding b1_def using ok0 by (simp only: if_split) blast
  have "still b (upd e (\<lambda>x. x\<lparr>ev_pncalls := Some (next_frame b)\<rparr>) ?b0)" by (rule still_trans [OF still_frame(2) still_upd]) simp
  then have s1: "still b b1" unfolding b1_def using still_frame(2) by (simp only: if_split) blast
  from signal_calls_ok [OF b1 ok(2) cb, of e] obtain b2 where b2: "signal_calls os cb e b1 = Some b2" "base_fit b2" "still b1 b2" by blast
  from b2(1) have "run_closure os cb e b = Some (b2\<lparr>frame := None\<rparr>)"
    unfolding run_closure_def EV_CLOSURE_SIGNAL ev_closure_kind.case event_signal_closure_def Let_def b1_def by simp
  then show ?thesis using b2(2) still_trans [OF still_trans [OF s1 b2(3)] still_frame(1)] by simp
next
  case EV_CLOSURE_PERSIST
  let ?t = "next_run (tv_now b) (ev b e)"
  let ?again = "if repeats (ev b e) then
            if is_same_common_timeout (ev_timeout (ev b e)) (ev_io_timeout (ev b e))
            then map_option snd (event_add_internal os e (Some ?t) True b) else None
          else Some b"
  have same: "is_same_common_timeout (ev_timeout (ev b e)) (ev_io_timeout (ev b e))" and t: "normal_time ?t"
    using same_common normal_next_run base_fitD(3,4) [OF ok(1)] by (simp_all add: normal_event_def)
  from add_calm [OF base_fitD(1) [OF ok(1)] base, of os "Some ?t" True] base_fitD(2) [OF ok(1)] t
  obtain r b1 where "event_add_internal os e (Some ?t) True b = Some (r, b1)" "base_fit b1" "calm b b1" by (auto simp: base_fit_def)
  then have "\<exists>b2. ?again = Some b2 \<and> base_fit b2 \<and> calm b b2"
    using ok calm_refl same by (cases "repeats (ev b e)") simp_all
  then obtain b2 where b2: "?again = Some b2" "base_fit b2" "calm b b2" by blast
  from run_callback_ok [OF b2(2) ok(2) cb, of e] obtain b3 where b3: "run_callback os cb e b2 = Some b3" "base_fit b3" "calm b2 b3" by blast
  have "run_closure os cb e b = Some b3"
    unfolding run_closure_def EV_CLOSURE_PERSIST ev_closure_kind.case event_persist_closure_def b2(1) Option.bind.bind_lunit b3(1) ..
  then show ?thesis using b3 calm_still [OF calm_trans [OF b2(3) b3(3)]] by blast
qed

section \<open>The active events\<close>

lemma take_active_ok:
  assumes ok: "base_fit b" "del_works os" and on: "on b EVLIST_ACTIVE e"
  shows "\<exists>b'. take_active os e b = Some b' \<and> base_fit b' \<and> still b b' \<and> \<not> on b' EVLIST_ACTIVE e \<and> ev_base (ev b' e)"
proof -
  have base: "ev_base (ev b e)" by (rule on_base [OF base_fitD(1) [OF ok(1)] on]) (simp add: queue_names_def)
  show ?thesis
  proof (cases "EV_PERSIST \<in> ev_events (ev b e)")
  case True
  from step_out [OF base_fitD(1) [OF ok(1)], of EVLIST_ACTIVE e] on obtain b' where b': "event_queue_remove e EVLIST_ACTIVE b = Some b'" "base_ok b'"
    "moved b b' e (\<lambda>f. f - {EVLIST_ACTIVE})" by auto
  have "times_ok b'"
    by (rule times_ok_one [OF base_fitD(2) [OF ok(1)] moved_sel(2,1) [OF b'(3)]]) (use base_fitD(3) [OF ok(1)] in \<open>simp add: normal_event_def\<close>)
  with b' show ?thesis
    using True base moved_sel(3) [OF b'(3)] movedD(4,11) [OF b'(3)] moved_sel(1) [OF b'(3)]
    by (auto simp: take_active_def still_def settings_def on_def base_fit_def)
next
  case False
  then show ?thesis
    using del_calm [OF base_fitD(1) [OF ok(1)] ok(2) base] base_fitD(2) [OF ok(1)] base calm_still
    by (auto simp: take_active_def on_def deleted_def queue_names_def base_fit_def)
  qed
qed

definition active_set :: "event_base \<Rightarrow> nat set" where
  "active_set b = {e. on b EVLIST_ACTIVE e}"

lemma active_finite: "base_ok b \<Longrightarrow> finite (active_set b)"
  using queues_okD(2) [OF base_okD(1), of b EVLIST_ACTIVE] by (simp add: active_set_def queue_names_def)

lemma active_head:
  assumes ok: "base_ok b" and p: "p < length (activequeues b)" and head: "activequeues b ! p = e # es"
  shows "on b EVLIST_ACTIVE e"
proof -
  have "e \<in> set (concat (activequeues b))" using nth_mem [OF p] head by (auto intro!: bexI [of _ "activequeues b ! p"])
  then show ?thesis using queues_okD(2) [OF base_okD(1) [OF ok], of EVLIST_ACTIVE e] by (simp add: queue_names_def members_def)
qed

text \<open>The result of a queue: -1 after a break; else the queue is empty, or the loop has to look again.\<close>

lemma single_queue_ok:
  assumes "base_fit b" "del_works os" "good_callbacks os cb" "p < length (activequeues b)" "\<not> event_break b" "0 \<le> c"
  shows "\<exists>r b'. event_process_active_single_queue os cb p c b = Some (r, b') \<and> base_fit b' \<and> still b b' \<and>
    (if event_break b' then r = -1 else c \<le> r \<and> (event_continue b' \<or> activequeues b' ! p = []))"
  using assms(1,4-6)
proof (induction "card (active_set b)" arbitrary: b c rule: less_induct)
  case (less b c)
  show ?case
  proof (cases "activequeues b ! p")
    case Nil
    then show ?thesis using less.prems by (subst event_process_active_single_queue.simps) simp
  next
    case (Cons e es)
    have on: "on b EVLIST_ACTIVE e" by (rule active_head [OF base_fitD(1) [OF less.prems(1)] less.prems(2) Cons])
    from take_active_ok [OF less.prems(1) assms(2) on] obtain b1 where b1: "take_active os e b = Some b1" "base_fit b1" "still b b1"
      "\<not> on b1 EVLIST_ACTIVE e" "ev_base (ev b1 e)" by blast
    define c' where "c' = (if on b1 EVLIST_INTERNAL e then c else c + 1)"
    have c': "c \<le> c'" by (simp add: c'_def)
    from run_closure_ok [OF b1(2) assms(2,3) b1(5)] obtain b2 where b2: "run_closure os cb e b1 = Some b2" "base_fit b2" "still b1 b2" by blast
    have s: "still b b2" by (rule still_trans [OF b1(3) b2(3)])
    have run: "event_process_active_single_queue os cb p c b =
        (if event_break b2 then Some (-1, b2) else if event_continue b2 then Some (c', b2)
         else event_process_active_single_queue os cb p c' b2)"
      by (subst event_process_active_single_queue.simps) (simp add: Cons b1(1) Let_def c'_def [symmetric] b2(1))
    have "active_set b2 \<subseteq> active_set b - {e}" using b1(3,4) b2(3) by (auto simp: active_set_def still_def)
    then have smaller: "card (active_set b2) < card (active_set b)"
      using active_finite [OF base_fitD(1) [OF less.prems(1)]] on by (intro psubset_card_mono) (auto simp: active_set_def)
    show ?thesis
    proof (cases "event_break b2 \<or> event_continue b2")
      case True
      then show ?thesis using run b2(2) s c' by auto
    next
      case False
      have "p < length (activequeues b2)" using less.prems(2) s by (simp add: still_def)
      from less.hyps [OF smaller b2(2) this, of c'] False c' less.prems(4)
      obtain r b' where "event_process_active_single_queue os cb p c' b2 = Some (r, b')" "base_fit b'" "still b2 b'"
        "if event_break b' then r = -1 else c' \<le> r \<and> (event_continue b' \<or> activequeues b' ! p = [])" by auto
      then show ?thesis using run False c' still_trans [OF s] by (auto split: if_splits)
    qed
  qed
qed

lemma process_from_ok:
  assumes "base_fit b" "del_works os" "good_callbacks os cb" "\<forall>i \<in> set is. i < length (activequeues b)" "\<not> event_break b" "0 \<le> c"
  shows "\<exists>r b'. process_from os cb is c b = Some (r, b') \<and> base_fit b' \<and> still b b' \<and> (r < 0 \<longrightarrow> event_break b')"
  using assms(1,4-6)
proof (induction "is" arbitrary: b c)
  case (Cons i "is")
  show ?case
  proof (cases "activequeues b ! i = []")
    case True
    then show ?thesis using Cons.IH [of b c] Cons.prems by simp
  next
    case False
    let ?b = "b\<lparr>event_running_priority := int i\<rparr>"
    have s: "still b ?b" by (simp add: still_def on_def)
    from single_queue_ok [of ?b os cb i 0] Cons.prems assms(2,3) obtain r b1 where
      b1: "event_process_active_single_queue os cb i 0 ?b = Some (r, b1)" "base_fit b1" "still ?b b1"
        "if event_break b1 then r = -1 else 0 \<le> r \<and> (event_continue b1 \<or> activequeues b1 ! i = [])"
      by auto
    have s1: "still b b1" by (rule still_trans [OF s b1(3)])
    show ?thesis
    proof (cases "r = 0")
      case True
      have "\<forall>i \<in> set is. i < length (activequeues b1)" using Cons.prems(2) s1 by (simp add: still_def)
      with Cons.IH [OF b1(2), of r] b1(4) True obtain r' b' where "process_from os cb is r b1 = Some (r', b')" "base_fit b'"
        "still b1 b'" "r' < 0 \<longrightarrow> event_break b'" by (auto split: if_splits)
      then show ?thesis using False b1(1) True still_trans [OF s1] by auto
    next
      case nz: False
      then show ?thesis using False b1 s1 by (auto split: if_splits)
    qed
  qed
qed simp

lemma event_process_active_ok:
  assumes "base_fit b" "del_works os" "good_callbacks os cb" "\<not> event_break b"
  shows "\<exists>r b'. event_process_active os cb b = Some (r, b') \<and> base_fit b' \<and> still b b' \<and> (r < 0 \<longrightarrow> event_break b')"
proof -
  from process_from_ok [OF assms(1-3), of "[0..<length (activequeues b)]" 0] assms(4)
  obtain r b1 where b1: "process_from os cb [0..<length (activequeues b)] 0 b = Some (r, b1)" "base_fit b1" "still b b1" "r < 0 \<longrightarrow> event_break b1"
    by auto
  moreover have "still b1 (b1\<lparr>event_running_priority := -1\<rparr>)" by (simp add: still_def on_def)
  ultimately show ?thesis using still_trans [OF b1(3)] by (simp add: event_process_active_def base_ok_control)
qed

section \<open>The loop\<close>

lemma event_iteration_ok:
  assumes ok: "base_fit b" "del_works os" and cb: "good_callbacks os cb" and h: "honest_poll b p" and br: "\<not> event_break b"
  shows "\<exists>d b'. event_iteration os cb once nonblock p b = Some (d, b') \<and> base_fit b' \<and> (d \<longrightarrow> once \<or> nonblock)"
proof -
  from report_fds_ok [OF base_fitD(1) [OF ok(1)], of "poll_fds p" os] h obtain b1 where b1: "report_fds os (poll_fds p) b = Some b1" "base_ok b1" "steady b b1"
    by (auto simp: honest_poll_def)
  from report_signals_ok [OF b1(2), of "poll_signals p" os] h b1(3) obtain b2 where b2: "report_signals os (poll_signals p) b1 = Some b2"
    "base_ok b2" "steady b1 b2" by (auto simp: honest_poll_def steady_def)
  have t2: "times_ok b2" using base_fitD(2) [OF ok(1)] b1(3) b2(3) by (simp add: steady_def)
  let ?c = "b2\<lparr>tv_now := poll_time p\<rparr>"
  have "base_ok ?c" using b2 by (simp add: base_ok_control)
  from timeout_process_ok [OF this ok(2)] obtain b3 where b3: "timeout_process os ?c = Some b3" "base_ok b3"
    "event_break b3 = event_break ?c" "ev b3 = (\<lambda>e. if expired ?c e then fired (ev ?c e) else ev ?c e)" "tv_now b3 = tv_now ?c" by blast
  have fit3: "base_fit b3" using t2 b3(2,4,5) h by (simp add: base_fit_def times_ok_def honest_poll_def)
  have "\<not> event_break b3" using br b1(3) b2(3) b3(3) by (simp add: steady_def)
  then obtain r b4 where "event_process_active os cb b3 = Some (r, b4)" "base_fit b4" using event_process_active_ok [OF fit3 ok(2) cb] by blast
  then show ?thesis using b1(1) b2(1) b3(1) fit3 by (auto simp: event_iteration_def)
qed

lemma no_active:
  assumes "base_ok b"
  shows "(event_count_active b = 0) = (active_set b = {})"
  using queues_ok_parts(5) [OF base_okD(1) [OF assms]] queues_okD(2) [OF base_okD(1) [OF assms], of EVLIST_ACTIVE]
  by (auto simp: active_set_def queue_names_def)

lemma loop_from_ok:
  assumes "base_fit b" "del_works os" "good_callbacks os cb" "\<forall>poll \<in> set polls. \<forall>b. base_fit b \<longrightarrow> honest_poll b (poll b)"
  shows "\<exists>r b'. loop_from os cb once nonblock polls b = Some (r, b') \<and> base_fit b' \<and>
    (r = Returns 1 \<longrightarrow> event_count b' \<le> 0 \<and> active_set b' = {}) \<and>
    (r = Returns 0 \<longrightarrow> event_gotterm b' \<or> event_break b' \<or> once \<or> nonblock) \<and>
    (\<forall>t. r = Waits t \<longrightarrow> (if active_set b' = {} \<and> \<not> nonblock then timeout_next b' = Some t else t = Some time_zero))"
  using assms(1,4)
proof (induction polls arbitrary: b)
  case Nil
  let ?b = "b\<lparr>event_continue := False\<rparr>"
  have ok: "base_fit ?b" using Nil by simp
  obtain tv where tv: "timeout_next ?b = Some tv" using timeout_next_ok [OF base_fitD(2) [OF ok]] by blast
  show ?case using ok tv no_active [OF base_fitD(1) [OF ok]]
    by (subst loop_from.simps) (auto simp: Let_def event_haveevents_def)
next
  case (Cons poll polls)
  let ?b = "b\<lparr>event_continue := False\<rparr>"
  have ok: "base_fit ?b" using Cons.prems by simp
  obtain tv where tv: "timeout_next ?b = Some tv" using timeout_next_ok [OF base_fitD(2) [OF ok]] by blast
  note act = no_active [OF base_fitD(1) [OF ok]]
  show ?case
  proof (cases "event_gotterm ?b \<or> event_break ?b \<or> \<not> event_haveevents ?b \<and> event_count_active ?b = 0 \<or> poll_failed (poll ?b)")
    case True
    then show ?thesis using ok act tv by (subst loop_from.simps) (auto simp: Let_def event_haveevents_def)
  next
    case False
    then have "\<not> event_break ?b" by simp
    from event_iteration_ok [OF ok assms(2,3) _ this, of "poll ?b" once nonblock] Cons.prems(2) ok
    obtain d b1 where b1: "event_iteration os cb once nonblock (poll ?b) ?b = Some (d, b1)" "base_fit b1" "d \<longrightarrow> once \<or> nonblock" by auto
    have run: "loop_from os cb once nonblock (poll # polls) b = (if d then Some (Returns 0, b1) else loop_from os cb once nonblock polls b1)"
      using False b1(1) tv by (subst loop_from.simps) (auto simp: Let_def)
    show ?thesis
    proof (cases d)
      case True
      then show ?thesis using run b1 by auto
    next
      case False
      then show ?thesis using run Cons.IH [OF b1(2)] Cons.prems(2) by simp
    qed
  qed
qed

end
