(* ===== verification/EventOrder.thy ===== *)
theory EventOrder imports EventTurn begin

text \<open>
  The order of callbacks. With callbacks that leave the base alone, a queue of active events is run
  from its front to its end, each event with the result it was activated with, and the first queue
  with an event of the program is the only one of the program that is run.
\<close>

section \<open>The queues of active events, as lists\<close>

lemma remove_lists:
  assumes "event_queue_remove e q b = Some b'"
  shows "activequeues b' = (if q = EVLIST_ACTIVE then (activequeues b)[ev_pri (ev b e) := remove1 e (activequeues b ! ev_pri (ev b e))]
    else activequeues b)"
  using assms unfolding event_queue_remove_def Let_def
  by (cases q; cases "on b EVLIST_INTERNAL e"; auto split: if_splits)

lemma insert_lists:
  assumes "event_queue_insert os e q b = Some b'" "q \<noteq> EVLIST_ACTIVE"
  shows "activequeues b' = activequeues b"
  using assms unfolding event_queue_insert_def Let_def
  by (cases q; cases "on b EVLIST_INTERNAL e"; auto split: if_splits option.splits)

lemmas map_lists = map_same_queues [THEN same_queuesD(3)]

lemma add_maps_lists: "add_to_maps os e b = Some (r, b') \<Longrightarrow> activequeues b' = activequeues b"
  unfolding add_to_maps_def Let_def
  by (auto simp: bind_eq_Some_conv split: if_splits dest!: map_lists insert_lists)

lemma add_timeout_lists:
  assumes "add_timeout os e tv absolute b = Some b'" "\<not> on b EVLIST_ACTIVE e"
  shows "activequeues b' = activequeues b"
proof -
  define b1 where "b1 = (if ev_closure (ev b e) = EV_CLOSURE_PERSIST \<and> \<not> absolute then upd e (\<lambda>x. x\<lparr>ev_io_timeout := tv\<rparr>) b else b)"
  have off: "\<not> on b1 EVLIST_ACTIVE e" using assms(2) by (simp add: b1_def on_def)
  obtain b2 b3 where s: "(if on b1 EVLIST_TIMEOUT e then event_queue_remove e EVLIST_TIMEOUT b1 else Some b1) = Some b2"
    "(if on b2 EVLIST_ACTIVE e \<and> EV_TIMEOUT \<in> ev_res (ev b2 e)
      then event_queue_remove e EVLIST_ACTIVE (if EV_SIGNAL \<in> ev_events (ev b2 e) then abort_calls e b2 else b2) else Some b2) = Some b3"
    "event_queue_insert os e EVLIST_TIMEOUT (upd e (\<lambda>x. x\<lparr>ev_timeout := (if absolute then tv else evutil_timeradd (tv_now b3) tv)\<rparr>) b3) = Some b'"
    using assms unfolding add_timeout_def Let_def b1_def [symmetric] by (auto simp: bind_eq_Some_conv)
  have "\<not> on b2 EVLIST_ACTIVE e"
    using s(1) off unfolding event_queue_remove_def Let_def
    by (cases "on b1 EVLIST_INTERNAL e") (auto simp: on_def upd_def split: if_splits)
  then have "b3 = b2" using s(2) by (simp split: if_splits)
  moreover have "activequeues b2 = activequeues b1" using s(1) by (auto simp: remove_lists split: if_splits)
  ultimately show ?thesis using insert_lists [OF s(3)] by (simp add: b1_def)
qed

lemma joined_active: "EVLIST_ACTIVE \<in> ev_flags (joined x) \<longleftrightarrow> EVLIST_ACTIVE \<in> ev_flags x"
  by (simp add: joined_def)

lemma add_lists:
  assumes ok: "base_ok b" and base: "ev_base (ev b e)" and run: "event_add_internal os e tv absolute b = Some (r, b')" and off: "\<not> on b EVLIST_ACTIVE e"
  shows "activequeues b' = activequeues b"
proof -
  let ?res = "(if tv \<noteq> None \<and> \<not> on b EVLIST_TIMEOUT e
           then min_heap_reserve (heap_mem os (1 + min_heap_size (timeheap b))) (timeheap b) (1 + min_heap_size (timeheap b))
           else Some (timeheap b))"
  show ?thesis
  proof (cases ?res)
    case None
    then show ?thesis using run base by (simp only: event_add_internal_def) simp
  next
    case (Some h)
    let ?b = "b\<lparr>timeheap := h\<rparr>"
    obtain r1 b1 where b1: "add_to_maps os e ?b = Some (r1, b1)"
      "(case tv of Some t \<Rightarrow> if r1 \<noteq> -1 then add_timeout os e t absolute b1 else Some b1 | None \<Rightarrow> Some b1) = Some b'"
      using run base unfolding event_add_internal_def Some option.case by (auto simp: bind_eq_Some_conv)
    have ok0: "base_ok ?b"
    proof (cases "tv \<noteq> None \<and> \<not> on b EVLIST_TIMEOUT e")
      case True
      with Some show ?thesis by (intro reserve_ok(1) [OF ok]) simp
    next
      case False
      then have "h = timeheap b" using Some by auto
      then show ?thesis using ok by simp
    qed
    from add_to_maps_ok [OF ok0, of e os] base b1(1) have "ev b1 = (if r1 = 0 then (ev b)(e := joined (ev b e)) else ev b)" by auto
    then have "\<not> on b1 EVLIST_ACTIVE e" using off by (simp add: on_def joined_active)
    then show ?thesis using b1 add_maps_lists [OF b1(1)] by (auto simp: add_timeout_lists split: option.splits if_splits)
  qed
qed

lemma del_lists:
  assumes "event_del_internal os e b = Some (r, b')" "on b EVLIST_ACTIVE e" "ev_base (ev b e)"
  shows "activequeues b' = (activequeues b)[ev_pri (ev b e) := remove1 e (activequeues b ! ev_pri (ev b e))]"
proof -
  define b0 where "b0 = (if EV_SIGNAL \<in> ev_events (ev b e) then abort_calls e b else b)"
  have b0: "on b0 EVLIST_ACTIVE e" "ev b0 = ev b" "activequeues b0 = activequeues b" using assms(2) by (simp_all add: b0_def)
  have "\<exists>b1 b2. (if on b0 EVLIST_TIMEOUT e then event_queue_remove e EVLIST_TIMEOUT b0 else Some b0) = Some b1 \<and>
    (if on b1 EVLIST_ACTIVE e then event_queue_remove e EVLIST_ACTIVE b1 else Some b1) = Some b2 \<and>
    (if on b2 EVLIST_INSERTED e then do {
        b \<leftarrow> event_queue_remove e EVLIST_INSERTED b2;
        (res, b) \<leftarrow> (if ev_events (ev b e) \<inter> io_kinds \<noteq> {} then evmap_io_del os e b else evmap_signal_del os e b);
        Some (if res = 1 then 0 else res, b) }
      else Some (0, b2)) = Some (r, b')"
    using assms(1,3) unfolding event_del_internal_def Let_def b0_def [symmetric]
    by (simp only: bind_eq_Some_conv not_True_eq_False if_False) blast
  then obtain b1 b2 where s: "(if on b0 EVLIST_TIMEOUT e then event_queue_remove e EVLIST_TIMEOUT b0 else Some b0) = Some b1"
    "(if on b1 EVLIST_ACTIVE e then event_queue_remove e EVLIST_ACTIVE b1 else Some b1) = Some b2"
    "(if on b2 EVLIST_INSERTED e then do {
        b \<leftarrow> event_queue_remove e EVLIST_INSERTED b2;
        (res, b) \<leftarrow> (if ev_events (ev b e) \<inter> io_kinds \<noteq> {} then evmap_io_del os e b else evmap_signal_del os e b);
        Some (if res = 1 then 0 else res, b) }
      else Some (0, b2)) = Some (r, b')" by blast
  have b1: "on b1 EVLIST_ACTIVE e" "ev_pri (ev b1 e) = ev_pri (ev b e)" "activequeues b1 = activequeues b"
  proof -
    show "activequeues b1 = activequeues b" using s(1) b0(3) by (auto simp: remove_lists split: if_splits)
    show "on b1 EVLIST_ACTIVE e" "ev_pri (ev b1 e) = ev_pri (ev b e)"
      using s(1) b0 unfolding event_queue_remove_def Let_def
      by (cases "on b0 EVLIST_INTERNAL e"; auto simp: on_def upd_def split: if_splits)+
  qed
  then have "activequeues b2 = (activequeues b)[ev_pri (ev b e) := remove1 e (activequeues b ! ev_pri (ev b e))]"
    using s(2) by (simp add: remove_lists)
  moreover have "activequeues b' = activequeues b2"
    using s(3) by (auto simp: bind_eq_Some_conv split: if_splits dest!: map_lists remove_lists)
  ultimately show ?thesis by simp
qed

section \<open>Callbacks that leave the base alone\<close>

definition silent :: callbacks where
  "silent e res b = []"

lemma silent_good: "good_callbacks os silent"
  by (simp add: good_callbacks_def silent_def)

definition runs_of :: "event_base \<Rightarrow> nat \<Rightarrow> (nat \<times> ev_what set) list" where
  "runs_of b e = replicate (if ev_closure (ev b e) = EV_CLOSURE_SIGNAL then unat (ev_ncalls (ev b e)) else 1) (e, ev_res (ev b e))"

definition only_ran :: "event_base \<Rightarrow> event_base \<Rightarrow> nat \<Rightarrow> (nat \<times> ev_what set) list \<Rightarrow> bool" where
  "only_ran b b' e rs \<longleftrightarrow> activequeues b' = activequeues b \<and> event_break b' = event_break b \<and>
    event_continue b' = event_continue b \<and> (\<forall>x. x \<noteq> e \<longrightarrow> ev b' x = ev b x) \<and> ran b' = ran b @ rs"

lemma run_callback_silent:
  "run_callback os silent e b = Some (b\<lparr>ran := ran b @ [(e, ev_res (ev b e))]\<rparr>)"
  by (simp add: run_callback_def silent_def Let_def)

lemma signal_calls_silent:
  assumes "\<not> event_break b" "frame b = Some (f, n)"
  shows "\<exists>b'. signal_calls os silent e b = Some b' \<and> only_ran b b' e (replicate (unat n) (e, ev_res (ev b e)))"
  using assms
proof (induction "unat n" arbitrary: b n)
  case 0
  then have "n = 0" by (simp add: unat_eq_zero)
  with 0 show ?case by (subst signal_calls.simps) (simp add: live_ncalls_def only_ran_def)
next
  case (Suc k m)
  define n where "n = m - 1"
  have nz: "m \<noteq> 0" using Suc.hyps(2) by auto
  then have k: "k = unat n" using Suc.hyps(2) by (simp add: n_def unat_minus_one)
  define b1 where "b1 = upd e (\<lambda>x. x\<lparr>ev_ncalls := n, ev_pncalls := (if n = 0 then None else ev_pncalls x)\<rparr>) (set_ncalls n b)"
  define b2 where "b2 = b1\<lparr>ran := ran b1 @ [(e, ev_res (ev b1 e))]\<rparr>"
  have live: "live_ncalls b = m" using Suc.prems by (simp add: live_ncalls_def)
  have res: "ev_res (ev b1 e) = ev_res (ev b e)" "frame b1 = Some (f, n)" "ran b1 = ran b"
    using Suc.prems by (simp_all add: b1_def set_ncalls_def)
  have b2: "\<not> event_break b2" "frame b2 = Some (f, n)" "ev_res (ev b2 e) = ev_res (ev b e)"
    using Suc.prems res by (simp_all add: b2_def b1_def set_ncalls_def)
  have one: "only_ran b b2 e [(e, ev_res (ev b e))]"
    using res by (simp add: only_ran_def b2_def b1_def set_ncalls_def)
  have step: "signal_calls os silent e b = signal_calls os silent e b2"
  proof -
    have nz: "\<not> live_ncalls b = 0" and pred: "live_ncalls b - 1 = n" using live nz by (simp_all add: n_def)
    show ?thesis
      unfolding signal_calls.simps [of os silent e b] if_not_P [OF nz] Let_def pred b1_def [symmetric] run_callback_silent
        Option.bind.bind_lunit b2_def [symmetric] if_not_P [OF b2(1)] ..
  qed
  from Suc.hyps(1) [OF k b2(1,2)] obtain b' where "signal_calls os silent e b2 = Some b'"
    "only_ran b2 b' e (replicate (unat n) (e, ev_res (ev b2 e)))" by blast
  moreover have "unat m = Suc (unat n)" using Suc.hyps(2) k by simp
  ultimately show ?case using one by (auto simp: step only_ran_def b2(3))
qed

lemma persist_silent:
  assumes ok: "base_fit b" and off: "\<not> on b EVLIST_ACTIVE e" and base: "ev_base (ev b e)"
  shows "\<exists>b'. event_persist_closure os silent e b = Some b' \<and> only_ran b b' e [(e, ev_res (ev b e))]"
proof -
  let ?t = "next_run (tv_now b) (ev b e)"
  from event_add_internal_ok [OF base_fitD(1) [OF ok] base, of os "Some ?t" True] obtain r b1 where b1: "event_add_internal os e (Some ?t) True b = Some (r, b1)"
    "settings b1 = settings b" "ev b1 = (if r = 0 then (ev b)(e := event_added (tv_now b) (Some ?t) True (ev b e)) else ev b)" by blast
  have res: "ev_res (ev b1 e) = ev_res (ev b e)" using b1(3) by (simp add: event_added_def timed_def joined_def)
  have "only_ran b b1 e []"
    using add_lists [OF base_fitD(1) [OF ok] base b1(1) off] b1(2,3) by (simp add: only_ran_def settings_def)
  moreover have "is_same_common_timeout (ev_timeout (ev b e)) (ev_io_timeout (ev b e))"
    using same_common base_fitD(3) [OF ok] by (simp add: normal_event_def)
  ultimately show ?thesis
    using b1(1) res
    by (cases "repeats (ev b e)")
      (simp_all add: event_persist_closure_def run_callback_silent only_ran_def)
qed

lemma run_closure_silent:
  assumes ok: "base_fit b" "del_works os" and off: "\<not> on b EVLIST_ACTIVE e" and br: "\<not> event_break b" and base: "ev_base (ev b e)"
  shows "\<exists>b'. run_closure os silent e b = Some b' \<and> base_fit b' \<and> only_ran b b' e (runs_of b e)"
proof -
  have "\<exists>b'. run_closure os silent e b = Some b' \<and> only_ran b b' e (runs_of b e)"
  proof (cases "ev_closure (ev b e)")
    case EV_CLOSURE_NONE
    then show ?thesis by (simp add: run_closure_def run_callback_silent only_ran_def runs_of_def)
  next
    case EV_CLOSURE_PERSIST
    then show ?thesis using persist_silent [OF ok(1) off base, of os] by (simp add: run_closure_def runs_of_def)
  next
    case EV_CLOSURE_SIGNAL
    define n where "n = ev_ncalls (ev b e)"
    let ?b0 = "b\<lparr>frame := Some (next_frame b, n), next_frame := next_frame b + 1\<rparr>"
    define b1 where "b1 = (if n \<noteq> 0 then upd e (\<lambda>x. x\<lparr>ev_pncalls := Some (next_frame b)\<rparr>) ?b0 else ?b0)"
    have b1: "\<not> event_break b1" "frame b1 = Some (next_frame b, n)" "ev_res (ev b1 e) = ev_res (ev b e)" "only_ran b b1 e []"
      using br by (simp_all add: b1_def only_ran_def)
    from signal_calls_silent [OF b1(1,2), of os e] obtain b2 where b2: "signal_calls os silent e b1 = Some b2"
      "only_ran b1 b2 e (replicate (unat n) (e, ev_res (ev b1 e)))" by blast
    have "run_closure os silent e b = Some (b2\<lparr>frame := None\<rparr>)"
      unfolding run_closure_def EV_CLOSURE_SIGNAL ev_closure_kind.case event_signal_closure_def Let_def n_def [symmetric]
        b1_def [symmetric] b2(1) by simp
    then show ?thesis using b1 b2(2) by (auto simp: only_ran_def runs_of_def EV_CLOSURE_SIGNAL n_def)
  qed
  then show ?thesis using run_closure_ok [OF ok silent_good base] by auto
qed

section \<open>A queue from front to end\<close>

definition program_events :: "event_base \<Rightarrow> nat list \<Rightarrow> nat list" where
  "program_events b es = filter (\<lambda>e. \<not> on b EVLIST_INTERNAL e) es"

lemma take_active_lists:
  assumes fit: "base_fit b" and del: "del_works os" and p: "p < length (activequeues b)" and q: "activequeues b ! p = e # es"
  shows "\<exists>b'. take_active os e b = Some b' \<and> base_fit b' \<and> ev_base (ev b' e) \<and> \<not> on b' EVLIST_ACTIVE e \<and> activequeues b' = (activequeues b)[p := es] \<and>
    settings b' = settings b \<and> (\<exists>F. ev b' = (ev b)(e := (ev b e)\<lparr>ev_flags := ev_flags (ev b e) - F\<rparr>) \<and> EVLIST_INTERNAL \<notin> F)"
proof -
  note ok = base_fitD(1) [OF fit] del
  have on: "on b EVLIST_ACTIVE e" by (rule active_head [OF ok(1) p q])
  have base: "ev_base (ev b e)" by (rule on_base [OF ok(1) on]) (simp add: queue_names_def)
  from take_active_ok [OF fit del on] have fits: "base_fit b'" "ev_base (ev b' e)" if "take_active os e b = Some b'" for b'
    using that by auto
  have pri: "ev_pri (ev b e) = p" using queues_ok_parts(2) [OF base_okD(1) [OF ok(1)] p, of e] q by simp
  show ?thesis
  proof (cases "EV_PERSIST \<in> ev_events (ev b e)")
    case True
    from step_out [OF ok(1), of EVLIST_ACTIVE e] on obtain b' where b': "event_queue_remove e EVLIST_ACTIVE b = Some b'" "base_ok b'"
      "moved b b' e (\<lambda>f. f - {EVLIST_ACTIVE})" by auto
    have ex: "\<exists>F. ev b' = (ev b)(e := (ev b e)\<lparr>ev_flags := ev_flags (ev b e) - F\<rparr>) \<and> EVLIST_INTERNAL \<notin> F"
      by (rule exI [of _ "{EVLIST_ACTIVE}"]) (simp add: moved_sel(1) [OF b'(3)])
    have "\<not> on b' EVLIST_ACTIVE e" by (simp add: on_def moved_sel(1) [OF b'(3)])
    moreover have "activequeues b' = (activequeues b)[p := es]" using remove_lists [OF b'(1)] pri q by simp
    ultimately show ?thesis using True b' moved_sel(3) [OF b'(3)] ex fits [of b'] by (simp add: take_active_def)
  next
    case False
    from event_del_internal_ok [OF ok base] obtain b' where b': "event_del_internal os e b = Some (0, b')" "base_ok b'"
      "settings b' = settings b" "ev b' = (ev b)(e := deleted (ev b e))" by blast
    have ex: "\<exists>F. ev b' = (ev b)(e := (ev b e)\<lparr>ev_flags := ev_flags (ev b e) - F\<rparr>) \<and> EVLIST_INTERNAL \<notin> F"
      by (rule exI [of _ queue_names]) (simp add: b'(4) deleted_def queue_names_def)
    have "\<not> on b' EVLIST_ACTIVE e" by (simp add: on_def b'(4) deleted_def queue_names_def)
    moreover have "activequeues b' = (activequeues b)[p := es]" using del_lists [OF b'(1) on base] pri q by simp
    ultimately show ?thesis using False b' ex fits [of b'] by (simp add: take_active_def)
  qed
qed

lemma single_queue_silent:
  assumes "base_fit b" "del_works os" "p < length (activequeues b)" "\<not> event_break b" "\<not> event_continue b"
  shows "\<exists>b'. event_process_active_single_queue os silent p c b = Some (c + int (length (program_events b (activequeues b ! p))), b') \<and>
    base_fit b' \<and> activequeues b' = (activequeues b)[p := []] \<and> \<not> event_break b' \<and> \<not> event_continue b' \<and>
    (\<forall>x. x \<notin> set (activequeues b ! p) \<longrightarrow> ev b' x = ev b x) \<and>
    ran b' = ran b @ concat (map (runs_of b) (activequeues b ! p))"
  using assms(1,3-5)
proof (induction "activequeues b ! p" arbitrary: b c)
  case Nil
  have "(activequeues b)[p := []] = activequeues b" using Nil(1) by (metis list_update_id)
  then show ?case using Nil.prems by (subst event_process_active_single_queue.simps) (simp add: program_events_def flip: Nil(1))
next
  case (Cons e es)
  from take_active_lists [OF Cons.prems(1) assms(2) Cons.prems(2) Cons.hyps(2) [symmetric]] obtain b1 F where
    b1: "take_active os e b = Some b1" "base_fit b1" "\<not> on b1 EVLIST_ACTIVE e" "activequeues b1 = (activequeues b)[p := es]"
    "settings b1 = settings b" "ev b1 = (ev b)(e := (ev b e)\<lparr>ev_flags := ev_flags (ev b e) - F\<rparr>)" "EVLIST_INTERNAL \<notin> F"
    "ev_base (ev b1 e)" by blast
  have br1: "\<not> event_break b1" "\<not> event_continue b1" "ran b1 = ran b" using b1(5) Cons.prems by (simp_all add: settings_def)
  from run_closure_silent [OF b1(2) assms(2) b1(3) br1(1) b1(8)] obtain b2 where b2: "run_closure os silent e b1 = Some b2" "base_fit b2"
    "only_ran b1 b2 e (runs_of b1 e)" by blast
  have aq2: "activequeues b2 = (activequeues b)[p := es]" "es = activequeues b2 ! p" "p < length (activequeues b2)"
    using b2(3) b1(4) Cons.prems(2) by (simp_all add: only_ran_def)
  have flags2: "\<not> event_break b2" "\<not> event_continue b2" using b2(3) br1 by (simp_all add: only_ran_def)
  have "distinct (concat (activequeues b))"
    using queues_okD(1) [OF base_okD(1) [OF base_fitD(1) [OF Cons.prems(1)]], of EVLIST_ACTIVE] by (simp add: queue_names_def members_def)
  then have "distinct (activequeues b ! p)" using nth_mem [OF Cons.prems(2)] by (auto simp: distinct_concat_iff)
  then have e: "e \<notin> set es" using Cons.hyps(2) by (metis distinct.simps(2))
  have same: "ev b2 x = ev b x" if "x \<noteq> e" for x using that b2(3) b1(6) by (simp add: only_ran_def)
  have later: "runs_of b2 x = runs_of b x" if "x \<in> set es" for x
  proof -
    have "x \<noteq> e" using that e by blast
    then show ?thesis by (simp add: runs_of_def same)
  qed
  have runs: "runs_of b1 e = runs_of b e" "map (runs_of b2) es = map (runs_of b) es"
    using later by (simp_all add: runs_of_def b1(6))
  have int: "on b1 EVLIST_INTERNAL e = on b EVLIST_INTERNAL e" using b1(6,7) by (simp add: on_def)
  have prog: "program_events b2 es = program_events b es"
    unfolding program_events_def
  proof (rule filter_cong)
    fix x assume "x \<in> set es"
    then have "x \<noteq> e" using e by blast
    then show "(\<not> on b2 EVLIST_INTERNAL x) = (\<not> on b EVLIST_INTERNAL x)" by (simp add: on_def same)
  qed simp
  define c' where "c' = (if on b1 EVLIST_INTERNAL e then c else c + 1)"
  from Cons.hyps(1) [OF aq2(2) b2(2) aq2(3) flags2, of c'] obtain b' where
    b': "event_process_active_single_queue os silent p c' b2 = Some (c' + int (length (program_events b2 es)), b')" "base_fit b'"
    "activequeues b' = (activequeues b2)[p := []]" "\<not> event_break b'" "\<not> event_continue b'" "\<forall>x. x \<notin> set es \<longrightarrow> ev b' x = ev b2 x"
    "ran b' = ran b2 @ concat (map (runs_of b2) es)"
    unfolding aq2(2) [symmetric] by blast
  have "event_process_active_single_queue os silent p c b = event_process_active_single_queue os silent p c' b2"
    by (subst event_process_active_single_queue.simps)
      (simp add: b1(1) Let_def c'_def [symmetric] b2(1) flags2 flip: Cons.hyps(2))
  moreover have "c' + int (length (program_events b2 es)) = c + int (length (program_events b (e # es)))"
    unfolding prog by (simp add: c'_def int program_events_def)
  moreover have "ran b' = ran b @ concat (map (runs_of b) (e # es))"
    using b'(7) b2(3) br1(3) runs by (simp add: only_ran_def)
  moreover have "\<forall>x. x \<notin> set (e # es) \<longrightarrow> ev b' x = ev b x" using b'(6) same by simp
  moreover have "activequeues b' = (activequeues b)[p := []]" using b'(3) aq2(1) by simp
  ultimately show ?case using b' unfolding Cons.hyps(2) [symmetric] by simp
qed

section \<open>The first queue with an event of the program\<close>

lemma other_queue:
  assumes ok: "base_ok b" and "p < length (activequeues b)" "k < length (activequeues b)" "p \<noteq> k" "x \<in> set (activequeues b ! k)"
  shows "x \<notin> set (activequeues b ! p)"
  using queues_ok_parts(2) [OF base_okD(1) [OF ok]] assms by metis

lemma process_from_silent:
  assumes "base_fit b" "del_works os" "\<not> event_break b" "\<not> event_continue b" "k \<le> i" "i < length (activequeues b)"
    "program_events b (activequeues b ! i) \<noteq> []" "\<forall>j. k \<le> j \<and> j < i \<longrightarrow> program_events b (activequeues b ! j) = []"
  shows "\<exists>b'. process_from os silent [k..<length (activequeues b)] 0 b = Some (int (length (program_events b (activequeues b ! i))), b') \<and>
    base_fit b' \<and> length (activequeues b') = length (activequeues b) \<and>
    (\<forall>j < length (activequeues b). activequeues b' ! j = (if k \<le> j \<and> j \<le> i then [] else activequeues b ! j)) \<and>
    ran b' = ran b @ concat (map (runs_of b) (concat (map ((!) (activequeues b)) [k..<Suc i])))"
  using assms(1,3-)
proof (induction "i - k" arbitrary: b k)
  case 0
  then have k: "k = i" by simp
  have head: "[i..<length (activequeues b)] = i # [Suc i..<length (activequeues b)]" using 0 by (simp add: upt_conv_Cons)
  have ne: "activequeues b ! i \<noteq> []" using 0 by (auto simp: program_events_def)
  let ?b = "b\<lparr>event_running_priority := int i\<rparr>"
  have same: "runs_of ?b = runs_of b" "program_events ?b es = program_events b es" for es
    by (simp_all add: runs_of_def program_events_def on_def fun_eq_iff)
  from single_queue_silent [of ?b os i 0] 0 assms(2) obtain b' where
    "event_process_active_single_queue os silent i 0 ?b = Some (int (length (program_events b (activequeues b ! i))), b')"
    "base_fit b'" "activequeues b' = (activequeues b)[i := []]" "ran b' = ran b @ concat (map (runs_of b) (activequeues b ! i))"
    by (auto simp: same)
  moreover from this have "\<forall>j < length (activequeues b). activequeues b' ! j = (if i \<le> j \<and> j \<le> i then [] else activequeues b ! j)"
    by (auto simp: nth_list_update)
  ultimately show ?case using ne 0(7) unfolding k head by simp
next
  case (Suc d)
  then have k: "k < i" "k < length (activequeues b)" by auto
  have head: "[k..<length (activequeues b)] = k # [Suc k..<length (activequeues b)]" using k by (simp add: upt_conv_Cons)
  have none: "program_events b (activequeues b ! k) = []" using Suc.prems(7) k by simp
  have "\<exists>b1. process_from os silent [k..<length (activequeues b)] 0 b = process_from os silent [Suc k..<length (activequeues b)] 0 b1 \<and>
      base_fit b1 \<and> activequeues b1 = (activequeues b)[k := []] \<and> \<not> event_break b1 \<and> \<not> event_continue b1 \<and>
      (\<forall>x. x \<notin> set (activequeues b ! k) \<longrightarrow> ev b1 x = ev b x) \<and> ran b1 = ran b @ concat (map (runs_of b) (activequeues b ! k))"
  proof (cases "activequeues b ! k = []")
    case True
    have "(activequeues b)[k := []] = activequeues b" using True by (metis list_update_id)
    then show ?thesis using True Suc.prems unfolding head by auto
  next
    case False
    let ?b = "b\<lparr>event_running_priority := int k\<rparr>"
    have same: "runs_of ?b = runs_of b" "program_events ?b es = program_events b es" for es
      by (simp_all add: runs_of_def program_events_def on_def fun_eq_iff)
    from single_queue_silent [of ?b os k 0] Suc.prems k assms(2) none obtain b1 where
      "event_process_active_single_queue os silent k 0 ?b = Some (0, b1)" "base_fit b1" "activequeues b1 = (activequeues b)[k := []]"
      "\<not> event_break b1" "\<not> event_continue b1" "\<forall>x. x \<notin> set (activequeues b ! k) \<longrightarrow> ev b1 x = ev b x"
      "ran b1 = ran b @ concat (map (runs_of b) (activequeues b ! k))"
      by (auto simp: same)
    then show ?thesis using False unfolding head by auto
  qed
  then obtain b1 where step: "process_from os silent [k..<length (activequeues b)] 0 b = process_from os silent [Suc k..<length (activequeues b)] 0 b1"
    and b1: "base_fit b1" "activequeues b1 = (activequeues b)[k := []]" "\<not> event_break b1" "\<not> event_continue b1"
      "\<forall>x. x \<notin> set (activequeues b ! k) \<longrightarrow> ev b1 x = ev b x" "ran b1 = ran b @ concat (map (runs_of b) (activequeues b ! k))" by blast
  have len: "length (activequeues b1) = length (activequeues b)" by (simp add: b1(2))
  have q: "activequeues b1 ! j = activequeues b ! j" if "j \<noteq> k" for j using that by (simp add: b1(2))
  have evs: "ev b1 x = ev b x" if "x \<in> set (activequeues b ! j)" "j \<noteq> k" "j < length (activequeues b)" for x j
    using b1(5) other_queue [OF base_fitD(1) [OF Suc.prems(1)] k(2) that(3) _ that(1)] that(2) by metis
  have prog: "program_events b1 (activequeues b ! j) = program_events b (activequeues b ! j)" if "j \<noteq> k" "j < length (activequeues b)" for j
    unfolding program_events_def by (rule filter_cong) (use evs that in \<open>auto simp: on_def\<close>)
  have runs: "map (runs_of b1) (activequeues b ! j) = map (runs_of b) (activequeues b ! j)" if "j \<noteq> k" "j < length (activequeues b)" for j
    by (rule map_cong) (use evs that in \<open>auto simp: runs_of_def\<close>)
  have "program_events b1 (activequeues b1 ! i) \<noteq> []" "\<forall>j. Suc k \<le> j \<and> j < i \<longrightarrow> program_events b1 (activequeues b1 ! j) = []"
    using Suc.prems(5-7) k prog q by auto
  moreover have "d = i - Suc k" "Suc k \<le> i" "i < length (activequeues b1)" using Suc.hyps(2) Suc.prems(5) k len by simp_all
  ultimately obtain b' where
    b': "process_from os silent [Suc k..<length (activequeues b)] 0 b1 = Some (int (length (program_events b1 (activequeues b1 ! i))), b')"
    "base_fit b'" "length (activequeues b') = length (activequeues b)"
    "\<forall>j < length (activequeues b). activequeues b' ! j = (if Suc k \<le> j \<and> j \<le> i then [] else activequeues b1 ! j)"
    "ran b' = ran b1 @ concat (map (runs_of b1) (concat (map ((!) (activequeues b1)) [Suc k..<Suc i])))"
    using Suc.hyps(1) [of "Suc k" b1] b1(1,3,4) unfolding len by blast
  have same_runs: "map (runs_of b1) (concat (map ((!) (activequeues b1)) js)) = map (runs_of b) (concat (map ((!) (activequeues b)) js))"
    if "\<forall>j \<in> set js. k < j \<and> j < length (activequeues b)" for js
    using that by (induction js) (auto simp: q runs)
  then have runs': "ran b' = ran b @ concat (map (runs_of b) (activequeues b ! k @ concat (map ((!) (activequeues b)) [Suc k..<Suc i])))"
    using b'(5) b1(6) same_runs [of "[Suc k..<Suc i]"] Suc.prems(5) by (simp del: upt_Suc)
  have "activequeues b ! k @ concat (map ((!) (activequeues b)) [Suc k..<Suc i]) = concat (map ((!) (activequeues b)) [k..<Suc i])"
    using k by (simp add: upt_conv_Cons [of k "Suc i"] del: upt_Suc)
  with runs' have "ran b' = ran b @ concat (map (runs_of b) (concat (map ((!) (activequeues b)) [k..<Suc i])))" by (simp only:)
  moreover have "\<forall>j < length (activequeues b). activequeues b' ! j = (if k \<le> j \<and> j \<le> i then [] else activequeues b ! j)"
    using b'(4) k by (auto simp: b1(2) nth_list_update)
  ultimately show ?case using step b'(1-3) q [of i] prog [of i] k Suc.prems(5) by (simp del: upt_Suc)
qed

end
