(* ===== verification/EventProps.thy ===== *)
theory EventProps imports EventOrder begin

text \<open>
  What the event base promises: its bookkeeping under every sequence of proper calls, the effect of
  adding, deleting and activating, timers, reports of the backend, the order of callbacks, and the
  loop as a whole; then behaviours that a caller would not expect.
\<close>

section \<open>A new base\<close>

lemma event_base_new_ok: "base_ok (event_base_new now)"
proof -
  have "heap_inv t (min_heap_ctor (\<lambda>_. -1))" for t by (rule heap_inv_ctor)
  moreover have "els (min_heap_ctor (\<lambda>_. -1)) = []" by (simp add: min_heap_ctor_def els_def)
  ultimately show ?thesis
    by (simp add: base_ok_def queues_ok_def event_base_new_def event_base_priority_init_def queue_names_def members_def
        on_def tm_def all_on_def inserted_def maps_ok_def io_slot_ok_def sig_slot_ok_def io_of_def sig_of_def event_form_def slot_limit_def)
qed

text \<open>An operating system that grants everything, and a base to try things on.\<close>

definition granting :: ev_os where
  "granting = \<lparr>heap_mem = (\<lambda>_. True), map_mem = (\<lambda>_. True), slot_mem = (\<lambda>_. True),
    backend_add = (\<lambda>_ _. True), backend_del = (\<lambda>_ _. True)\<rparr>"

lemma granting_del: "del_works granting"
  by (simp add: del_works_def granting_def)

definition fresh_base :: event_base where
  "fresh_base = event_base_new \<lparr>t_sec = 10, t_usec = 0\<rparr>"

definition secs :: "int \<Rightarrow> timeout" where
  "secs n = \<lparr>t_sec = n, t_usec = 0\<rparr>"

lemma fresh_base_ok: "base_ok fresh_base"
  by (simp add: fresh_base_def event_base_new_ok)

lemma event_base_new_fit: "normal_time now \<Longrightarrow> base_fit (event_base_new now)"
  by (simp add: base_fit_def event_base_new_ok times_ok_def normal_event_def)
    (simp add: event_base_new_def event_base_priority_init_def)

text \<open>One event for reading descriptor 5, with a timer, and one for signal 2.\<close>

definition first_calls :: "ev_call list" where
  "first_calls = [EventAssign 0 5 {EV_READ, EV_PERSIST}, EventAdd 0 (Some (secs 3)), EventAssign 1 2 {EV_SIGNAL}, EventAdd 1 None]"

definition small_base :: event_base where
  "small_base =
    \<lparr>ev = (ev fresh_base)
       (0 := \<lparr>ev_base = True, ev_fd = 5, ev_events = {EV_READ, EV_PERSIST}, ev_res = {}, ev_flags = {EVLIST_TIMEOUT, EVLIST_INSERTED, EVLIST_INIT},
              ev_ncalls = 0, ev_pncalls = None, ev_pri = 0, ev_closure = EV_CLOSURE_PERSIST, ev_timeout = secs 13, ev_io_timeout = secs 3\<rparr>,
        1 := \<lparr>ev_base = True, ev_fd = 2, ev_events = {EV_SIGNAL}, ev_res = {}, ev_flags = {EVLIST_INSERTED, EVLIST_INIT},
              ev_ncalls = 0, ev_pncalls = None, ev_pri = 0, ev_closure = EV_CLOSURE_SIGNAL, ev_timeout = time_zero, ev_io_timeout = time_zero\<rparr>),
     eventqueue = [0, 1], activequeues = [[]], timeheap = \<lparr>hp = replicate 8 0, hn = 1, ha = 8, idx = (\<lambda>_. -1)(0 := 0)\<rparr>,
     event_count = 3, event_count_active = 0, io_nentries = 32, io_map = [5 \<mapsto> \<lparr>io_events = [0], nread = 1, nwrite = 0\<rparr>],
     sig_nentries = 32, sigmap = [2 \<mapsto> [1]], registered = (\<lambda>_. {})(5 := {EV_READ}), sig_registered = (\<lambda>_. False)(2 := True),
     tv_now = secs 10, event_gotterm = False, event_break = False, event_continue = False, event_running_priority = 0,
     frame = None, next_frame = 0, wild_writes = 0, ran = []\<rparr>"

lemmas call_evals = make_call.simps event_assign_def event_add_def event_add_internal_def add_to_maps_def add_timeout_def
  evmap_io_add_def evmap_signal_add_def evmap_make_space_def event_queue_insert_def event_queue_remove_def on_def upd_def tm_def
  io_kinds_def granting_def min_heap_reserve_def min_heap_size_def min_heap_ctor_def min_heap_push_def min_heap_elem_init_def
  evutil_timeradd_def secs_def time_zero_def grow_entries.simps min_heap_shift_up.simps put_def
  event_base_new_def event_base_priority_init_def INT_MAX_def

lemma first_calls_make: "make_calls granting first_calls fresh_base = Some small_base"
  by (simp add: first_calls_def small_base_def fresh_base_def call_evals Let_def fun_upd_twist fun_upd_idem insert_commute list_update_same_conv)

lemma small_base_ok: "base_ok small_base"
proof -
  have "proper_calls granting fresh_base first_calls"
    by (simp add: first_calls_def fresh_base_def proper_call_def idle_def call_evals queue_names_def Let_def slot_limit_def)
  from make_calls_ok [OF fresh_base_ok granting_del this] show ?thesis by (simp add: first_calls_make)
qed

lemma small_base_fit: "base_fit small_base"
  by (simp add: base_fit_def small_base_ok times_ok_def normal_event_def)
    (simp add: small_base_def fresh_base_def event_base_new_def event_base_priority_init_def normal_time_def secs_def time_zero_def)

section \<open>Adding for sure\<close>

definition grants :: "ev_os \<Rightarrow> bool" where
  "grants os \<longleftrightarrow> (\<forall>n. heap_mem os n) \<and> (\<forall>n. map_mem os n) \<and> (\<forall>n. slot_mem os n) \<and> (\<forall>fd what. backend_add os fd what)"

lemma asking_few:
  assumes "set es \<subseteq> set q" "distinct es" "length q < 0xffff"
  shows "asking b k es < 0xffff"
proof -
  have "asking b k es \<le> length es" by (simp add: asking_def)
  also have "length es = card (set es)" using distinct_card [OF assms(2)] by simp
  also have "\<dots> \<le> card (set q)" by (rule card_mono [OF _ assms(1)]) simp
  also have "\<dots> \<le> length q" by (rule card_length)
  finally show ?thesis using assms(3) by simp
qed

lemma space_granted:
  assumes "grants os" "0 \<le> k" "slot < slot_limit"
  shows "\<exists>n. evmap_make_space os k slot = Some (0, n)"
  using make_space_ok [OF assms(2,3), of os] assms(1) by (auto simp: grants_def)

lemma io_add_granted:
  assumes ok: "base_ok b" and g: "grants os" and few: "length (eventqueue b) < 0xffff"
    and run: "evmap_io_add os e b = Some (r, b')"
  shows "r \<noteq> -1"
proof (cases "ev_fd (ev b e) < 0")
  case True
  then show ?thesis using run by (auto simp: evmap_io_add_def)
next
  case False
  let ?fd = "ev_fd (ev b e)"
  define c where "c = (case io_map b ?fd of None \<Rightarrow> \<lparr>io_events = [], nread = 0, nwrite = 0\<rparr> | Some c \<Rightarrow> c)"
  have ins: "inserted b = set (eventqueue b)"
    using queues_okD(2) [OF base_okD(1) [OF ok], of EVLIST_INSERTED] by (auto simp: inserted_def queue_names_def members_def)
  have "nread c < 0xffff \<and> nwrite c < 0xffff"
  proof (cases "io_map b ?fd")
    case (Some d)
    then have d: "distinct (io_events d)" "set (io_events d) = io_of (inserted b) b ?fd" "nread d = asking b EV_READ (io_events d)"
      "nwrite d = asking b EV_WRITE (io_events d)"
      using maps_okD(3) [OF base_okD(2) [OF ok], of ?fd] by (simp_all add: io_slot_ok_def)
    have "set (io_events d) \<subseteq> set (eventqueue b)" unfolding d(2) ins [symmetric] by (auto simp: io_of_def)
    from asking_few [OF this d(1) few] show ?thesis using Some d(3,4) by (simp add: c_def)
  qed (simp add: c_def)
  moreover have "?fd < slot_limit" using base_okD(3) [OF ok, of e] by (simp add: event_form_def)
  from space_granted [OF g maps_okD(1) [OF base_okD(2) [OF ok]] this] obtain n where
    "evmap_make_space os (io_nentries b) ?fd = Some (0, n)" by blast
  ultimately show ?thesis using g False run by (auto simp: evmap_io_add_def Let_def grants_def c_def [symmetric] split: if_splits)
qed

lemma signal_add_granted:
  assumes ok: "base_ok b" and g: "grants os" and run: "evmap_signal_add os e b = Some (r, b')"
  shows "r \<noteq> -1"
proof -
  have "ev_fd (ev b e) < slot_limit" using base_okD(3) [OF ok, of e] by (simp add: event_form_def)
  from space_granted [OF g maps_okD(2) [OF base_okD(2) [OF ok]] this] obtain n where
    "evmap_make_space os (sig_nentries b) (ev_fd (ev b e)) = Some (0, n)" by blast
  then show ?thesis using g run by (auto simp: evmap_signal_add_def Let_def grants_def split: if_splits)
qed

lemma add_granted:
  assumes ok: "base_ok b" and g: "grants os" and few: "length (eventqueue b) < 0xffff"
    and base: "ev_base (ev b e)" and run: "event_add_internal os e tv absolute b = Some (r, b')"
  shows "r = 0"
proof -
  let ?res = "(if tv \<noteq> None \<and> \<not> on b EVLIST_TIMEOUT e
           then min_heap_reserve (heap_mem os (1 + min_heap_size (timeheap b))) (timeheap b) (1 + min_heap_size (timeheap b))
           else Some (timeheap b))"
  have "\<exists>h. min_heap_reserve (heap_mem os n) s k = Some h" for n s k using g by (simp add: min_heap_reserve_def grants_def Let_def)
  then have "\<exists>h. ?res = Some h" by simp
  then obtain h where h: "?res = Some h" ..
  let ?b = "b\<lparr>timeheap := h\<rparr>"
  obtain b1 where b1: "add_to_maps os e ?b = Some (r, b1)"
    using run base unfolding event_add_internal_def h option.case by (auto simp: bind_eq_Some_conv)
  have ok0: "base_ok ?b"
  proof (cases "tv \<noteq> None \<and> \<not> on b EVLIST_TIMEOUT e")
    case True
    with h show ?thesis by (intro reserve_ok(1) [OF ok]) simp
  next
    case False
    then have "h = timeheap b" using h by auto
    then show ?thesis using ok by simp
  qed
  have "length (eventqueue ?b) < 0xffff" using few by simp
  note adds = io_add_granted [OF ok0 g this] signal_add_granted [OF ok0 g]
  have "r \<noteq> -1"
    using b1 unfolding add_to_maps_def Let_def
    by (auto simp: bind_eq_Some_conv split: if_splits dest: adds)
  then show ?thesis using add_to_maps_ok [OF ok0, of e os] base b1 by auto
qed

lemma add_sub: "normal_time a \<Longrightarrow> evutil_timeradd n (evutil_timersub a n) = a"
  by (auto simp: normal_time_def evutil_timeradd_def evutil_timersub_def)

section \<open>The promises\<close>

text \<open>
  C5. A new base is in order, and every sequence of proper calls of \<open>event_assign\<close>,
  \<open>event_priority_set\<close>, \<open>event_add\<close>, \<open>event_del\<close>, \<open>event_active\<close>, \<open>event_base_loopbreak\<close> runs without a failed
  assertion and leaves it in order, whatever memory and backend answer when something is added. Proper means
  that an event is assigned while it is on no queue, as a signal or for a descriptor, below a bound
  on descriptors, and is given a priority after it was assigned. In order means that an event is on a queue exactly when its flag says so, once, and that the backend
  watches exactly what the inserted events ask for.
\<close>

theorem calls_keep_bookkeeping:
  "base_ok (event_base_new now) \<and>
   (base_ok b \<and> del_works os \<and> proper_calls os b cs \<longrightarrow> (\<exists>b'. make_calls os cs b = Some b' \<and> base_ok b')) \<and>
   (base_ok b \<longrightarrow>
     (\<forall>q \<in> queue_names. distinct (members b q) \<and> (\<forall>e. on b q e \<longleftrightarrow> e \<in> set (members b q))) \<and>
     (\<forall>fd. registered b fd =
        {k \<in> io_kinds. 0 \<le> fd \<and> (\<exists>e. on b EVLIST_INSERTED e \<and> ev_fd (ev b e) = fd \<and> k \<in> ev_events (ev b e))}) \<and>
     (\<forall>sig. sig_registered b sig \<longleftrightarrow>
        (\<exists>e. on b EVLIST_INSERTED e \<and> ev_fd (ev b e) = sig \<and> EV_SIGNAL \<in> ev_events (ev b e))))"
proof -
  have "\<forall>q \<in> queue_names. distinct (members b q) \<and> (\<forall>e. on b q e \<longleftrightarrow> e \<in> set (members b q))" if "base_ok b"
    using queues_okD [OF base_okD(1) [OF that]] by blast
  moreover have "\<exists>b'. make_calls os cs b = Some b' \<and> base_ok b'" if "base_ok b" "del_works os" "proper_calls os b cs"
    using make_calls_ok [OF that] by blast
  moreover have "inserted b = {e. on b EVLIST_INSERTED e}" by (simp add: inserted_def)
  ultimately show ?thesis
    using event_base_new_ok io_registered [of b] signal_registered [of b] by simp
qed

theorem calls_keep_bookkeeping_witness:
  "(\<exists>b'. make_calls granting first_calls fresh_base = Some b' \<and> base_ok b') \<and> registered small_base 5 = {EV_READ} \<and>
   (\<exists>e. on small_base EVLIST_INSERTED e \<and> ev_fd (ev small_base e) = 5 \<and> EV_READ \<in> ev_events (ev small_base e))"
proof -
  have p: "proper_calls granting fresh_base first_calls"
    by (simp add: first_calls_def fresh_base_def proper_call_def idle_def call_evals queue_names_def Let_def slot_limit_def)
  have r: "registered small_base 5 = {EV_READ}" by (simp add: small_base_def)
  have "\<exists>b'. make_calls granting first_calls fresh_base = Some b' \<and> base_ok b'"
    by (rule calls_keep_bookkeeping [THEN conjunct2, THEN conjunct1, THEN mp]) (simp add: p fresh_base_ok granting_del)
  moreover have "EV_READ \<in> registered small_base 5" using r by simp
  then have "\<exists>e. on small_base EVLIST_INSERTED e \<and> ev_fd (ev small_base e) = 5 \<and> EV_READ \<in> ev_events (ev small_base e)"
    unfolding calls_keep_bookkeeping [THEN conjunct2, THEN conjunct2, THEN mp, OF small_base_ok, THEN conjunct2, THEN conjunct1, rule_format]
    by simp
  ultimately show ?thesis using r by blast
qed

text \<open>
  C8. What the three calls do to a base in order. For an event that was assigned, \<open>event_add\<close> either
  fails and changes neither an event nor a queue nor what is watched, or enters the event and its
  timer as \<^const>\<open>event_added\<close> says; it cannot fail when memory and backend grant everything.
  \<open>event_del\<close> takes the event off every queue, so that nothing is pending. \<open>event_active\<close> makes it
  active with the result. An event that was never assigned is refused, and the base stays as it is.
\<close>

theorem event_operations:
  assumes "base_ok b" "del_works os"
  shows "if ev_base (ev b e) then
     (\<exists>r b'. event_add os e tv b = Some (r, b') \<and> base_ok b' \<and>
      (if r = 0 then ev b' = (ev b)(e := event_added (tv_now b) tv False (ev b e))
       else r = -1 \<and> ev b' = ev b \<and> eventqueue b' = eventqueue b \<and> activequeues b' = activequeues b \<and>
         els (timeheap b') = els (timeheap b) \<and> registered b' = registered b \<and> sig_registered b' = sig_registered b) \<and>
      (grants os \<and> length (eventqueue b) < 0xffff \<longrightarrow> r = 0)) \<and>
     (\<exists>b'. event_del os e b = Some (0, b') \<and> base_ok b' \<and> ev b' = (ev b)(e := deleted (ev b e)) \<and> event_pending e what b' = {}) \<and>
     (\<exists>b'. event_active os e res n b = Some b' \<and> base_ok b' \<and> ev b' = (ev b)(e := activated res n (ev b e)))
   else event_add os e tv b = Some (-1, b) \<and> event_del os e b = Some (-1, b) \<and> event_active os e res n b = Some b \<and>
     event_pending e what b = {}"
proof (cases "ev_base (ev b e)")
  case False
  then show ?thesis by (simp add: event_add_def event_del_def event_active_def event_pending_def)
next
  case base: True
  from event_add_internal_ok [OF assms(1) base, of os tv False] obtain r b' where b': "event_add_internal os e tv False b = Some (r, b')"
    "base_ok b'" "r \<in> {-1, 0}" "ev b' = (if r = 0 then (ev b)(e := event_added (tv_now b) tv False (ev b e)) else ev b)"
    "r = -1 \<longrightarrow> eventqueue b' = eventqueue b \<and> activequeues b' = activequeues b \<and> els (timeheap b') = els (timeheap b)" by blast
  have reg: "registered b' = registered b \<and> sig_registered b' = sig_registered b" if "r = -1"
  proof -
    have e: "ev b' = ev b" using b'(4) that by simp
    then have "inserted b' = inserted b" by (simp add: inserted_def on_def)
    then show ?thesis
      using io_registered [OF assms(1)] io_registered [OF b'(2)] signal_registered [OF assms(1)] signal_registered [OF b'(2)]
      by (simp add: e fun_eq_iff)
  qed
  from event_del_internal_ok [OF assms base] obtain b2 where b2: "event_del_internal os e b = Some (0, b2)" "base_ok b2"
    "ev b2 = (ev b)(e := deleted (ev b e))" by blast
  have "event_pending e what b2 = {}" using b2(3) by (auto simp: event_pending_def on_def deleted_def queue_names_def)
  moreover have "\<exists>b'. event_active os e res n b = Some b' \<and> base_ok b' \<and> ev b' = (ev b)(e := activated res n (ev b e))"
    using event_active_nolock_ok [OF assms(1) base, of os res n] base by (auto simp: event_active_def)
  moreover have "grants os \<and> length (eventqueue b) < 0xffff \<longrightarrow> r = 0" using add_granted [OF assms(1) _ _ base b'(1)] by blast
  ultimately show ?thesis using b' b2 reg base by (auto simp: event_add_def event_del_def)
qed

theorem event_operations_witness:
  "(\<exists>b'. event_add granting 1 (Some (secs 4)) small_base = Some (0, b') \<and>
      ev_flags (ev b' 1) = {EVLIST_TIMEOUT, EVLIST_INSERTED, EVLIST_INIT} \<and> ev_timeout (ev b' 1) = secs 14) \<and>
   (\<exists>b'. event_del granting 0 small_base = Some (0, b') \<and> ev_flags (ev b' 0) = {EVLIST_INIT})"
proof -
  have g: "grants granting" by (simp add: grants_def granting_def)
  have few: "length (eventqueue small_base) < 0xffff" by (simp add: small_base_def)
  have base: "ev_base (ev small_base 0)" "ev_base (ev small_base 1)" by (simp_all add: small_base_def)
  from event_operations [OF small_base_ok granting_del, of 1 "Some (secs 4)" "{}" "{}" 0] base obtain r b' where
    "event_add granting 1 (Some (secs 4)) small_base = Some (r, b')"
    "if r = 0 then ev b' = (ev small_base)(1 := event_added (tv_now small_base) (Some (secs 4)) False (ev small_base 1)) else r = -1"
    "grants granting \<and> length (eventqueue small_base) < 0xffff \<longrightarrow> r = 0" by (metis (full_types))
  with g few have "event_add granting 1 (Some (secs 4)) small_base = Some (0, b')"
    "ev b' = (ev small_base)(1 := event_added (tv_now small_base) (Some (secs 4)) False (ev small_base 1))" by simp_all
  moreover have "ev_flags (event_added (tv_now small_base) (Some (secs 4)) False (ev small_base 1)) = {EVLIST_TIMEOUT, EVLIST_INSERTED, EVLIST_INIT}"
    "ev_timeout (event_added (tv_now small_base) (Some (secs 4)) False (ev small_base 1)) = secs 14"
    by (simp_all add: event_added_def timed_def joined_def joins_def small_base_def evutil_timeradd_def secs_def)
  moreover from event_operations [OF small_base_ok granting_del, of 0 None "{}" "{}" 0] base obtain b2 where
    "event_del granting 0 small_base = Some (0, b2)" "ev b2 = (ev small_base)(0 := deleted (ev small_base 0))" by auto
  moreover have "ev_flags (deleted (ev small_base 0)) = {EVLIST_INIT}" by (auto simp: deleted_def small_base_def queue_names_def)
  ultimately show ?thesis by auto
qed

text \<open>
  C6. \<open>timeout_process\<close> ends; it takes exactly the events whose time has come off every queue
  and makes them active for \<open>EV_TIMEOUT\<close>, and leaves the others as they are. The wait that
  \<open>timeout_next\<close> allows is unlimited exactly without timers, nothing when one is due, and else, when
  that time and the clock have their microseconds in range, ends at the time of the earliest.
\<close>

theorem timers_fire:
  assumes "base_ok b" "del_works os"
  shows "(\<exists>b'. timeout_process os b = Some b' \<and> base_ok b' \<and>
      ev b' = (\<lambda>e. if expired b e then fired (ev b e) else ev b e) \<and>
      (\<forall>e. on b' EVLIST_TIMEOUT e \<longleftrightarrow> on b EVLIST_TIMEOUT e \<and> \<not> expired b e) \<and>
      (\<forall>e. expired b e \<longrightarrow> on b' EVLIST_ACTIVE e \<and> ev_res (ev b' e) = {EV_TIMEOUT})) \<and>
    (timeout_next b = Some None \<longleftrightarrow> (\<forall>e. \<not> on b EVLIST_TIMEOUT e)) \<and>
    ((\<exists>e. expired b e) \<longrightarrow> timeout_next b = Some (Some time_zero)) \<and>
    ((\<forall>e. \<not> expired b e) \<and> (\<exists>e. on b EVLIST_TIMEOUT e) \<longrightarrow>
      (\<exists>e. on b EVLIST_TIMEOUT e \<and>
        (\<forall>x. on b EVLIST_TIMEOUT x \<longrightarrow> \<not> evutil_timer_greater (ev_timeout (ev b e)) (ev_timeout (ev b x))) \<and>
        (normal_time (ev_timeout (ev b e)) \<and> normal_time (tv_now b) \<longrightarrow>
          (\<exists>t. timeout_next b = Some (Some t) \<and> evutil_timeradd (tv_now b) t = ev_timeout (ev b e)))))"
proof (rule conjI)
  from timeout_process_ok [OF assms] obtain b' where b': "timeout_process os b = Some b'" "base_ok b'"
    "ev b' = (\<lambda>e. if expired b e then fired (ev b e) else ev b e)" by blast
  have "on b' EVLIST_TIMEOUT e \<longleftrightarrow> on b EVLIST_TIMEOUT e \<and> \<not> expired b e"
    "expired b e \<longrightarrow> on b' EVLIST_ACTIVE e \<and> ev_res (ev b' e) = {EV_TIMEOUT}" for e
    by (auto simp: on_def b'(3) fired_def deleted_def activated_def queue_names_def)
  then show "\<exists>b'. timeout_process os b = Some b' \<and> base_ok b' \<and>
      ev b' = (\<lambda>e. if expired b e then fired (ev b e) else ev b e) \<and>
      (\<forall>e. on b' EVLIST_TIMEOUT e \<longleftrightarrow> on b EVLIST_TIMEOUT e \<and> \<not> expired b e) \<and>
      (\<forall>e. expired b e \<longrightarrow> on b' EVLIST_ACTIVE e \<and> ev_res (ev b' e) = {EV_TIMEOUT})" using b' by blast
next
  show "(timeout_next b = Some None \<longleftrightarrow> (\<forall>e. \<not> on b EVLIST_TIMEOUT e)) \<and>
    ((\<exists>e. expired b e) \<longrightarrow> timeout_next b = Some (Some time_zero)) \<and>
    ((\<forall>e. \<not> expired b e) \<and> (\<exists>e. on b EVLIST_TIMEOUT e) \<longrightarrow>
      (\<exists>e. on b EVLIST_TIMEOUT e \<and>
        (\<forall>x. on b EVLIST_TIMEOUT x \<longrightarrow> \<not> evutil_timer_greater (ev_timeout (ev b e)) (ev_timeout (ev b x))) \<and>
        (normal_time (ev_timeout (ev b e)) \<and> normal_time (tv_now b) \<longrightarrow>
          (\<exists>t. timeout_next b = Some (Some t) \<and> evutil_timeradd (tv_now b) t = ev_timeout (ev b e)))))"
  proof (cases "min_heap_top (timeheap b)")
    case None
    then show ?thesis using no_top [OF assms(1)] by (simp add: timeout_next_def expired_def)
  next
    case (Some e)
    note top = top_least [OF assms(1) Some]
    have least: "\<not> evutil_timer_greater (ev_timeout (ev b e)) (ev_timeout (ev b x))" if "on b EVLIST_TIMEOUT x" for x
      using top(2) [OF that] by (auto simp: le_def min_heap_elem_greater_def evutil_timer_greater_def tm_def split: if_splits)
    have some: "timeout_next b \<noteq> Some None" using Some by (simp add: timeout_next_def Let_def)
    show ?thesis
    proof (cases "expired b e")
      case True
      then show ?thesis using Some some top(1) by (auto simp: timeout_next_def expired_def)
    next
      case False
      then have late: "evutil_timer_greater (ev_timeout (ev b e)) (tv_now b)" using top(1) by (simp add: expired_def)
      have none: "\<not> expired b x" for x using not_yet [OF top(2) late] by (auto simp: expired_def)
      have "\<exists>t. timeout_next b = Some (Some t) \<and> evutil_timeradd (tv_now b) t = ev_timeout (ev b e)"
        if "normal_time (ev_timeout (ev b e))" "normal_time (tv_now b)"
        using Some late sub_not_negative [OF that late] add_sub [OF that(1)] by (simp add: timeout_next_def Let_def)
      then show ?thesis using some none least top(1) by blast
    qed
  qed
qed

theorem timers_fire_witness:
  "\<exists>b'. timeout_process granting (small_base\<lparr>tv_now := secs 20\<rparr>) = Some b' \<and> on b' EVLIST_ACTIVE 0 \<and> ev_res (ev b' 0) = {EV_TIMEOUT} \<and>
     \<not> on b' EVLIST_TIMEOUT 0 \<and> ev b' 1 = ev small_base 1"
proof -
  let ?b = "small_base\<lparr>tv_now := secs 20\<rparr>"
  have ok: "base_ok ?b" by (simp add: base_ok_control small_base_ok)
  have ex: "expired ?b 0" "\<not> expired ?b 1"
    by (simp_all add: expired_def on_def small_base_def evutil_timer_greater_def secs_def)
  from timers_fire [OF ok granting_del, THEN conjunct1] obtain b' where "timeout_process granting ?b = Some b'"
    "ev b' = (\<lambda>e. if expired ?b e then fired (ev ?b e) else ev ?b e)"
    "\<forall>e. on b' EVLIST_TIMEOUT e \<longleftrightarrow> on ?b EVLIST_TIMEOUT e \<and> \<not> expired ?b e"
    "\<forall>e. expired ?b e \<longrightarrow> on b' EVLIST_ACTIVE e \<and> ev_res (ev b' e) = {EV_TIMEOUT}" by blast
  then show ?thesis using ex by auto
qed

text \<open>
  C9. A report of the backend about a descriptor that is watched activates exactly the events
  inserted for that descriptor that have one of the reported flags, each with the flags it shares with
  the report; the flag \<open>EV_ET\<close> of a report counts like a condition, and a report without it reaches
  exactly the events that ask for one of its conditions. A report about a signal that is watched
  activates exactly the events inserted for it, with the number of calls cut to a \<open>short\<close>.
\<close>

theorem reports_activate:
  assumes "base_ok b"
  shows "(registered b fd \<noteq> {} \<longrightarrow>
      (\<exists>b'. evmap_io_active os fd what b = Some b' \<and> base_ok b' \<and> registered b' = registered b \<and>
        ev b' = (\<lambda>e. if on b EVLIST_INSERTED e \<and> ev_fd (ev b e) = fd \<and> ev_events (ev b e) \<inter> io_kinds \<noteq> {} \<and> ev_events (ev b e) \<inter> what \<noteq> {}
                     then activated (ev_events (ev b e) \<inter> what) 1 (ev b e) else ev b e) \<and>
        (what \<subseteq> io_kinds \<longrightarrow>
          (\<forall>e. on b' EVLIST_ACTIVE e \<longleftrightarrow>
            on b EVLIST_ACTIVE e \<or> on b EVLIST_INSERTED e \<and> ev_fd (ev b e) = fd \<and> ev_events (ev b e) \<inter> what \<noteq> {})))) \<and>
    (sig_registered b sig \<longrightarrow>
      (\<exists>b'. evmap_signal_active os sig n b = Some b' \<and> base_ok b' \<and> sig_registered b' = sig_registered b \<and>
        ev b' = (\<lambda>e. if on b EVLIST_INSERTED e \<and> ev_fd (ev b e) = sig \<and> EV_SIGNAL \<in> ev_events (ev b e)
                     then activated {EV_SIGNAL} (ucast n) (ev b e) else ev b e)))"
proof -
  have asks: "e \<in> io_of (inserted b) b fd \<and> ev_events (ev b e) \<inter> what \<noteq> {} \<longleftrightarrow>
      on b EVLIST_INSERTED e \<and> ev_fd (ev b e) = fd \<and> ev_events (ev b e) \<inter> io_kinds \<noteq> {} \<and> ev_events (ev b e) \<inter> what \<noteq> {}"
    "e \<in> sig_of (inserted b) b sig \<longleftrightarrow> on b EVLIST_INSERTED e \<and> ev_fd (ev b e) = sig \<and> EV_SIGNAL \<in> ev_events (ev b e)" for e
    by (auto simp: io_of_def sig_of_def inserted_def)
  show ?thesis
  proof (intro conjI impI)
    assume "registered b fd \<noteq> {}"
    from evmap_io_active_ok [OF assms this, of os what, unfolded asks] obtain b' where b': "evmap_io_active os fd what b = Some b'" "base_ok b'"
      "steady b b'" "ev b' = (\<lambda>e. if on b EVLIST_INSERTED e \<and> ev_fd (ev b e) = fd \<and> ev_events (ev b e) \<inter> io_kinds \<noteq> {} \<and>
        ev_events (ev b e) \<inter> what \<noteq> {} then activated (ev_events (ev b e) \<inter> what) 1 (ev b e) else ev b e)" by blast
    have "on b' EVLIST_ACTIVE e \<longleftrightarrow>
        on b EVLIST_ACTIVE e \<or> on b EVLIST_INSERTED e \<and> ev_fd (ev b e) = fd \<and> ev_events (ev b e) \<inter> what \<noteq> {}" if "what \<subseteq> io_kinds" for e
      using that by (auto simp: on_def b'(4) activated_def)
    with b' show "\<exists>b'. evmap_io_active os fd what b = Some b' \<and> base_ok b' \<and> registered b' = registered b \<and>
        ev b' = (\<lambda>e. if on b EVLIST_INSERTED e \<and> ev_fd (ev b e) = fd \<and> ev_events (ev b e) \<inter> io_kinds \<noteq> {} \<and> ev_events (ev b e) \<inter> what \<noteq> {}
                     then activated (ev_events (ev b e) \<inter> what) 1 (ev b e) else ev b e) \<and>
        (what \<subseteq> io_kinds \<longrightarrow>
          (\<forall>e. on b' EVLIST_ACTIVE e \<longleftrightarrow>
            on b EVLIST_ACTIVE e \<or> on b EVLIST_INSERTED e \<and> ev_fd (ev b e) = fd \<and> ev_events (ev b e) \<inter> what \<noteq> {}))"
      unfolding steady_def by blast
  next
    assume "sig_registered b sig"
    from evmap_signal_active_ok [OF assms this, of os n, unfolded asks] show "\<exists>b'. evmap_signal_active os sig n b = Some b' \<and> base_ok b' \<and>
        sig_registered b' = sig_registered b \<and>
        ev b' = (\<lambda>e. if on b EVLIST_INSERTED e \<and> ev_fd (ev b e) = sig \<and> EV_SIGNAL \<in> ev_events (ev b e)
                     then activated {EV_SIGNAL} (ucast n) (ev b e) else ev b e)" unfolding steady_def by blast
  qed
qed

theorem reports_activate_witness:
  "(\<exists>b'. evmap_io_active granting 5 {EV_READ} small_base = Some b' \<and> on b' EVLIST_ACTIVE 0 \<and> ev_res (ev b' 0) = {EV_READ} \<and>
      \<not> on b' EVLIST_ACTIVE 1) \<and>
   (\<exists>b'. evmap_signal_active granting 2 3 small_base = Some b' \<and> on b' EVLIST_ACTIVE 1 \<and> ev_ncalls (ev b' 1) = 3)"
proof -
  have reg: "registered small_base 5 \<noteq> {}" "sig_registered small_base 2" by (simp_all add: small_base_def)
  have vals: "ev_flags (ev small_base 0) = {EVLIST_TIMEOUT, EVLIST_INSERTED, EVLIST_INIT}" "ev_fd (ev small_base 0) = 5"
    "ev_events (ev small_base 0) = {EV_READ, EV_PERSIST}" "ev_flags (ev small_base 1) = {EVLIST_INSERTED, EVLIST_INIT}"
    "ev_fd (ev small_base 1) = 2" "ev_events (ev small_base 1) = {EV_SIGNAL}"
    by (simp_all add: small_base_def)
  from reports_activate [OF small_base_ok, of 5 granting "{EV_READ}" 2 3, THEN conjunct1, THEN mp, OF reg(1)] obtain b1 where
    b1: "evmap_io_active granting 5 {EV_READ} small_base = Some b1"
    "ev b1 = (\<lambda>e. if on small_base EVLIST_INSERTED e \<and> ev_fd (ev small_base e) = 5 \<and> ev_events (ev small_base e) \<inter> io_kinds \<noteq> {} \<and>
        ev_events (ev small_base e) \<inter> {EV_READ} \<noteq> {} then activated (ev_events (ev small_base e) \<inter> {EV_READ}) 1 (ev small_base e) else ev small_base e)"
    by blast
  have "on b1 EVLIST_ACTIVE 0" "ev_res (ev b1 0) = {EV_READ}" "\<not> on b1 EVLIST_ACTIVE 1"
    by (simp_all add: on_def b1(2) vals io_kinds_def activated_def del: One_nat_def)
  moreover from reports_activate [OF small_base_ok, of 5 granting "{EV_READ}" 2 3, THEN conjunct2, THEN mp, OF reg(2)] obtain b2 where
    b2: "evmap_signal_active granting 2 3 small_base = Some b2"
    "ev b2 = (\<lambda>e. if on small_base EVLIST_INSERTED e \<and> ev_fd (ev small_base e) = 2 \<and> EV_SIGNAL \<in> ev_events (ev small_base e)
        then activated {EV_SIGNAL} (ucast (3 :: 32 word)) (ev small_base e) else ev small_base e)" by blast
  have "on b2 EVLIST_ACTIVE 1" "ev_ncalls (ev b2 1) = 3" by (simp_all add: on_def b2(2) vals activated_def del: One_nat_def)
  ultimately show ?thesis using b1(1) b2(1) by blast
qed

text \<open>
  C4. On a base in order whose times have their microseconds in range, with callbacks that make
  proper calls, add only intervals in range and activate nothing by hand, and a backend that reports
  only what it watches and a time in range, \<open>event_base_loop\<close> never fails an assertion, comes to the
  end of every
  iteration, and leaves the base as it was required. It returns 1 only when no event is left, returns 0 only
  after a break, an exit or when asked to return early, and else waits as long as \<open>timeout_next\<close> says.
\<close>

theorem event_loop_safe:
  assumes "base_fit b" "del_works os" "good_callbacks os cb" "\<forall>poll \<in> set polls. \<forall>b. base_fit b \<longrightarrow> honest_poll b (poll b)"
  shows "\<exists>r b'. event_base_loop os cb once nonblock polls b = Some (r, b') \<and> base_fit b' \<and>
    (r = Returns 1 \<longrightarrow> event_count b' \<le> 0 \<and> active_set b' = {}) \<and>
    (r = Returns 0 \<longrightarrow> event_gotterm b' \<or> event_break b' \<or> once \<or> nonblock) \<and>
    (\<forall>t. r = Waits t \<longrightarrow> (if active_set b' = {} \<and> \<not> nonblock then timeout_next b' = Some t else t = Some time_zero))"
proof -
  have "base_fit (b\<lparr>event_gotterm := False, event_break := False\<rparr>)" using assms(1) by simp
  from loop_from_ok [OF this assms(2-4), of once nonblock] show ?thesis by (simp only: event_base_loop_def)
qed

text \<open>A callback that deletes the event for reading and stops the loop on the signal.\<close>

definition some_callbacks :: callbacks where
  "some_callbacks e res b = (if e = 0 then [EventDel 0] else [LoopBreak])"

definition reports_5 :: backend where
  "reports_5 b = \<lparr>poll_failed = False, poll_fds = (if registered b 5 \<noteq> {} then [(5, {EV_READ})] else []), poll_signals = [], poll_time = secs 11\<rparr>"

theorem event_loop_safe_witness:
  "\<exists>r b'. event_base_loop granting some_callbacks False False [reports_5, reports_5] small_base = Some (r, b') \<and> base_fit b' \<and>
     (r = Returns 0 \<longrightarrow> event_gotterm b' \<or> event_break b')"
proof -
  have "good_callbacks granting some_callbacks"
    by (auto simp: good_callbacks_def some_callbacks_def proper_call_def activates_def timely_def split: option.split)
  moreover have "\<forall>poll \<in> set [reports_5, reports_5]. \<forall>b. base_fit b \<longrightarrow> honest_poll b (poll b)"
    by (simp add: honest_poll_def reports_5_def normal_time_def secs_def)
  ultimately show ?thesis using event_loop_safe [OF small_base_fit granting_del, of some_callbacks "[reports_5, reports_5]" False False] by blast
qed

text \<open>
  C7. With callbacks that leave the base alone and times with their microseconds in range,
  \<open>event_process_active\<close> runs the active events
  from the queue of the first priority on, each queue from its front to its end, every event once
  with its result and a signal event as often as its count says, a \<open>short\<close> read without its sign, and stops after the first
  queue that held an event of the program; it returns the number of those.
\<close>

theorem callbacks_in_order:
  assumes "base_fit b" "del_works os" "\<not> event_break b" "\<not> event_continue b" "i < length (activequeues b)"
    "program_events b (activequeues b ! i) \<noteq> []" "\<forall>j < i. program_events b (activequeues b ! j) = []"
  shows "\<exists>b'. event_process_active os silent b = Some (int (length (program_events b (activequeues b ! i))), b') \<and> base_fit b' \<and>
    (\<forall>j < length (activequeues b). activequeues b' ! j = (if j \<le> i then [] else activequeues b ! j)) \<and>
    ran b' = ran b @ concat (map (runs_of b) (concat (map ((!) (activequeues b)) [0..<Suc i])))"
proof -
  from process_from_silent [OF assms(1-4) _ assms(5,6), of 0] assms(7) obtain b1 where
    "process_from os silent [0..<length (activequeues b)] 0 b = Some (int (length (program_events b (activequeues b ! i))), b1)" "base_fit b1"
    "\<forall>j < length (activequeues b). activequeues b1 ! j = (if 0 \<le> j \<and> j \<le> i then [] else activequeues b ! j)"
    "ran b1 = ran b @ concat (map (runs_of b) (concat (map ((!) (activequeues b)) [0..<Suc i])))" by blast
  then show ?thesis by (simp add: event_process_active_def del: upt_Suc)
qed

definition busy_base :: event_base where
  "busy_base = small_base\<lparr>ev := (ev small_base)
      (0 := (ev small_base 0)\<lparr>ev_res := {EV_READ}, ev_flags := insert EVLIST_ACTIVE (ev_flags (ev small_base 0))\<rparr>,
       1 := (ev small_base 1)\<lparr>ev_res := {EV_SIGNAL}, ev_ncalls := 2, ev_flags := insert EVLIST_ACTIVE (ev_flags (ev small_base 1))\<rparr>),
    activequeues := [[0, 1]], event_count := 5, event_count_active := 2\<rparr>"

lemma busy_base_make: "make_calls granting [EventActive 0 {EV_READ} 1, EventActive 1 {EV_SIGNAL} 2] small_base = Some busy_base"
  by (simp add: event_active_def event_active_nolock_def busy_base_def small_base_def call_evals Let_def)

theorem callbacks_in_order_witness:
  "\<exists>b'. event_process_active granting silent busy_base = Some (2, b') \<and> activequeues b' ! 0 = [] \<and>
     ran b' = [(0, {EV_READ}), (1, {EV_SIGNAL}), (1, {EV_SIGNAL})]"
proof -
  have "proper_calls granting small_base [EventActive 0 {EV_READ} 1, EventActive 1 {EV_SIGNAL} 2]"
    by (simp add: proper_call_def split: option.split)
  from make_calls_ok [OF small_base_ok granting_del this] have ok: "base_fit busy_base" unfolding busy_base_make base_fit_def
    using base_fitD(2) [OF small_base_fit] by (auto simp: timely_def)
  have two: "replicate 2 x = [x, x]" for x :: "nat \<times> ev_what set" by (simp add: numeral_2_eq_2)
  have vals: "\<not> event_break busy_base" "\<not> event_continue busy_base" "activequeues busy_base = [[0, 1]]" "ran busy_base = []"
    "program_events busy_base [0, 1] = [0, 1]" "runs_of busy_base 0 = [(0, {EV_READ})]" "runs_of busy_base 1 = [(1, {EV_SIGNAL}), (1, {EV_SIGNAL})]"
    by (simp_all add: busy_base_def small_base_def program_events_def on_def runs_of_def two)
  from callbacks_in_order [OF ok granting_del vals(1,2), of 0] vals
  have "\<exists>b'. event_process_active granting silent busy_base = Some (2, b') \<and> base_fit b' \<and> activequeues b' ! 0 = [] \<and>
     ran b' = [(0, {EV_READ}), (1, {EV_SIGNAL}), (1, {EV_SIGNAL})]" by (simp del: One_nat_def)
  then show ?thesis by blast
qed

section \<open>What a caller would not expect\<close>

text \<open>
  An event that is active because of its timer, added again with a timer before its callback ran,
  is neither active nor inserted afterwards: nobody watches its descriptor.
\<close>

lemma added_again_unwatched:
  assumes "base_ok b" "grants os" "length (eventqueue b) < 0xffff"
    "on b EVLIST_ACTIVE e" "EV_TIMEOUT \<in> ev_res (ev b e)" "\<not> on b EVLIST_INSERTED e"
  shows "\<exists>b'. event_add os e (Some tv) b = Some (0, b') \<and> \<not> on b' EVLIST_ACTIVE e \<and> \<not> on b' EVLIST_INSERTED e"
proof -
  have base: "ev_base (ev b e)" by (rule on_base [OF assms(1,4)]) (simp add: queue_names_def)
  from event_add_internal_ok [OF assms(1) base, of os "Some tv" False] obtain r b' where b': "event_add_internal os e (Some tv) False b = Some (r, b')"
    "ev b' = (if r = 0 then (ev b)(e := event_added (tv_now b) (Some tv) False (ev b e)) else ev b)" by blast
  moreover have "r = 0" by (rule add_granted [OF assms(1-3) base b'(1)])
  ultimately show ?thesis
    using base assms(4-6) by (auto simp: event_add_def on_def event_added_def timed_def joined_def joins_def)
qed

text \<open>
  \<open>epoll\<close> reports with \<open>EV_ET\<close> set, which \<open>evmap_io_active\<close> compares like a condition: an
  edge-triggered event for writing is activated when the descriptor can be read.
\<close>

lemma edge_wakes_writer:
  assumes "base_ok b" "on b EVLIST_INSERTED e" "0 \<le> ev_fd (ev b e)" "ev_events (ev b e) = {EV_WRITE, EV_ET}" "\<not> on b EVLIST_ACTIVE e"
  shows "\<exists>b'. evmap_io_active os (ev_fd (ev b e)) {EV_READ, EV_ET} b = Some b' \<and> on b' EVLIST_ACTIVE e \<and> ev_res (ev b' e) = {EV_ET}"
proof -
  have e: "e \<in> io_of (inserted b) b (ev_fd (ev b e))" using assms(2,4) by (simp add: io_of_def inserted_def io_kinds_def)
  have "EV_WRITE \<in> registered b (ev_fd (ev b e))"
    unfolding io_registered [OF assms(1)] using assms(2-4) by (auto simp: io_kinds_def inserted_def)
  then have "registered b (ev_fd (ev b e)) \<noteq> {}" by blast
  from evmap_io_active_ok [OF assms(1) this, of os "{EV_READ, EV_ET}"] obtain b' where
    "evmap_io_active os (ev_fd (ev b e)) {EV_READ, EV_ET} b = Some b'"
    "ev b' e = activated (ev_events (ev b e) \<inter> {EV_READ, EV_ET}) 1 (ev b e)" using e assms(4) by auto
  then show ?thesis using assms(4,5) by (auto simp: on_def activated_def)
qed

text \<open>
  A signal event whose callback deletes it in the first of two calls keeps its pointer to the
  variable of the closure that is over; the next deletion writes through it.
\<close>

lemma stale_pointer_written:
  "\<exists>b0 b1 b2. take_active granting 1 busy_base = Some b0 \<and>
     event_signal_closure granting (\<lambda>_ _ _. [EventDel 1]) 1 b0 = Some b1 \<and> wild_writes b1 = 0 \<and>
     event_del granting 1 b1 = Some (0, b2) \<and> wild_writes b2 = 1"
  by (simp add: take_active_def event_del_def event_del_internal_def busy_base_def small_base_def call_evals Let_def abort_calls_def
      evmap_signal_del_def event_signal_closure_def signal_calls.simps live_ncalls_def set_ncalls_def run_callback_def
      numeral_2_eq_2 del: One_nat_def)

text \<open>When the backend refuses to stop watching, the event has left its queue and stays in the map.\<close>

lemma refused_delete_leaves_entry:
  "\<exists>b'. event_del (granting\<lparr>backend_del := \<lambda>_ _. False\<rparr>) 0 small_base = Some (-1, b') \<and>
     \<not> on b' EVLIST_INSERTED 0 \<and> eventqueue b' = [1] \<and> io_map b' 5 = Some \<lparr>io_events = [0], nread = 1, nwrite = 0\<rparr>"
  by (simp add: event_del_def event_del_internal_def small_base_def call_evals Let_def evmap_io_del_def)

text \<open>
  A persistent event may repeat only at intervals with microseconds in range: after 1.5 seconds given
  as 1500000 microseconds, the assertion of \<open>event_persist_closure\<close> about common timeouts fails.
\<close>

lemma interval_aborts:
  assumes "normal_time (ev_timeout (ev b e))" "ev_io_timeout (ev b e) = \<lparr>t_sec = 0, t_usec = 1500000\<rparr>"
    "ev_closure (ev b e) = EV_CLOSURE_PERSIST"
  shows "run_closure os cb e b = None"
  using assms unmarked [OF assms(1)]
  by (simp add: run_closure_def event_persist_closure_def repeats_def is_same_common_timeout_def MICROSECONDS_MASK_def)

lemma long_microseconds_abort:
  "\<exists>b1 b2 b3. make_calls granting [EventAssign 0 (-1) {EV_PERSIST}, EventAdd 0 (Some \<lparr>t_sec = 0, t_usec = 1500000\<rparr>)] fresh_base = Some b1 \<and>
     timeout_process granting (b1\<lparr>tv_now := secs 20\<rparr>) = Some b2 \<and> on b2 EVLIST_ACTIVE 0 \<and>
     take_active granting 0 b2 = Some b3 \<and> run_closure granting cb 0 b3 = None"
proof -
  let ?t = "\<lparr>t_sec = 0, t_usec = 1500000\<rparr> :: timeout"
  let ?cs = "[EventAssign 0 (-1) {EV_PERSIST}, EventAdd 0 (Some ?t)]"
  have "proper_calls granting fresh_base ?cs"
    by (simp add: fresh_base_def proper_call_def idle_def call_evals queue_names_def Let_def slot_limit_def)
  from make_calls_ok [OF fresh_base_ok granting_del this] obtain b1 where b1: "make_calls granting ?cs fresh_base = Some b1" "base_ok b1" by blast
  have e1: "ev_closure (ev b1 0) = EV_CLOSURE_PERSIST" "ev_io_timeout (ev b1 0) = ?t" "on b1 EVLIST_TIMEOUT 0"
    "ev_timeout (ev b1 0) = \<lparr>t_sec = 11, t_usec = 500000\<rparr>" "EV_PERSIST \<in> ev_events (ev b1 0)"
    using b1(1) by (auto simp: fresh_base_def call_evals Let_def)
  let ?c = "b1\<lparr>tv_now := secs 20\<rparr>"
  have "base_ok ?c" using b1(2) by (simp add: base_ok_control)
  from timeout_process_ok [OF this granting_del] obtain b2 where b2: "timeout_process granting ?c = Some b2" "base_ok b2"
    "ev b2 = (\<lambda>e. if expired ?c e then fired (ev ?c e) else ev ?c e)" by blast
  have "expired ?c 0" using e1 by (simp add: expired_def on_def evutil_timer_greater_def secs_def)
  then have e2: "ev b2 0 = fired (ev b1 0)" by (simp add: b2(3))
  then have on2: "on b2 EVLIST_ACTIVE 0" by (simp add: on_def fired_def activated_def deleted_def)
  with step_out [OF b2(2), of EVLIST_ACTIVE 0] obtain b3 where b3: "event_queue_remove 0 EVLIST_ACTIVE b2 = Some b3"
    "moved b2 b3 0 (\<lambda>f. f - {EVLIST_ACTIVE})" by auto
  have e3: "ev b3 0 = (fired (ev b1 0))\<lparr>ev_flags := ev_flags (fired (ev b1 0)) - {EVLIST_ACTIVE}\<rparr>"
    by (simp add: moved_sel(1) [OF b3(2)] e2)
  have "take_active granting 0 b2 = Some b3" using b3(1) e1(5) by (simp add: take_active_def e2 fired_def activated_def deleted_def)
  moreover have "run_closure granting cb 0 b3 = None"
    by (rule interval_aborts) (simp_all add: e3 fired_def activated_def deleted_def e1 normal_time_def)
  ultimately show ?thesis using b1(1) b2(1) on2 by blast
qed

text \<open>
  The count of a signal is passed as a \<open>short\<close>: a signal that was caught 65536 times between two
  looks activates its events with a count of zero, and no callback runs.
\<close>

lemma caught_too_often:
  assumes "base_ok b" "sig_registered b sig" "on b EVLIST_INSERTED e" "ev_fd (ev b e) = sig" "EV_SIGNAL \<in> ev_events (ev b e)"
    "\<not> on b EVLIST_ACTIVE e" "ev_closure (ev b e) = EV_CLOSURE_SIGNAL"
  shows "\<exists>b'. evmap_signal_active os sig 0x10000 b = Some b' \<and> on b' EVLIST_ACTIVE e \<and> runs_of b' e = []"
proof -
  have "e \<in> sig_of (inserted b) b sig" using assms by (simp add: sig_of_def inserted_def)
  with evmap_signal_active_ok [OF assms(1,2), of os "0x10000"] obtain b' where "evmap_signal_active os sig 0x10000 b = Some b'"
    "ev b' e = activated {EV_SIGNAL} (ucast (0x10000 :: 32 word)) (ev b e)" by auto
  then show ?thesis using assms(5-7) by (auto simp: on_def activated_def runs_of_def)
qed

end
