(* ===== verification/Spec2Isabelle.thy ===== *)
theory Spec2Isabelle imports HttpProps WorkQueue Server PublicFunction Tagging MinHeap JsonServer EvProps EventProps begin

text \<open>
  JiaTuanServer: a threaded server on libevent that answers JSON requests from a MySQL
  database, with the http\_parser library and a few binary helpers beside it.

  Parts and how they interact. \<open>src/src/server_threaded.c\<close> accepts connections, gives each one
  an event loop of its own and hands it as a job to the worker pool of
  \<open>src/src/workqueue.c\<close>; its read callback parses a request and calls the database manager of
  \<open>src/src/dbmanager.cpp\<close>. \<open>src/http_parser.c\<close> is the incremental HTTP message parser, and
  \<open>src/public_function.cpp\<close> holds checksums and conversions. libevent and jsoncpp are vendored: the JSON library is modelled
  with the server on top of it, of libevent the parts named below.

  Theories.
  \<^item> \<open>Prelude\<close>: bytes, reachability, and the contracts \<open>invariant_system\<close> and \<open>codec\<close>.
  \<^item> \<open>HttpTypes\<close>, \<open>HttpUrl\<close>, \<open>HttpParser\<close>: the definitions of \<open>http_parser.c\<close> in strict mode.
    A parser is the record \<open>http_parser\<close>, the locals of \<open>http_parser_execute\<close> are the record
    \<open>ctx\<close>, each state of its switch is a \<open>do_\<dots>\<close> function that answers with a \<open>flow\<close>
    (go on, run the switch again on the same byte, return, or a failed assertion), and
    \<open>exec_loop\<close> is the loop over the bytes. Callbacks are functions that may change the parser.
    \<open>HttpUrl\<close> has the URL automaton and \<open>http_parser_parse_url\<close>.
  \<^item> \<open>HttpInv\<close>, \<open>HttpRun\<close>, \<open>HttpExec\<close>, \<open>HttpLoop\<close>: the invariant of the parser, that every state
    keeps it, and that the inner goto and the outer loop end. \<open>HttpBounds\<close>: the
    numeric bounds, and the parser with any sequence of calls as an invariant system.
  \<^item> \<open>HttpLog\<close>, \<open>HttpRequest\<close>, \<open>HttpHeaders\<close>, \<open>HttpMessage\<close>, \<open>HttpMethod\<close>: callbacks that log
    their calls, the run of the parser on a printed request piece by piece, and the words
    that are no method. \<open>HttpProps\<close>: the properties of the parser.
  \<^item> \<open>WorkQueue\<close>: the list macros over a store of links, and the threads as a step relation
    whose scheduler is arbitrary; one step is what runs between two synchronisation points.
    The stack contract is interpreted on the macros and the job invariant on the step relation.
  \<^item> \<open>Database\<close>: the SQL the manager builds and what it makes of the answers.
  \<^item> \<open>Server\<close>: the resources a connection takes and gives back, the request table of the read
    callback, running and killing the server.
  \<^item> \<open>PublicFunction\<close>: check character, CRC-32, BCD packing and two-byte numbers.
  \<^item> \<open>Tagging\<close>: the tagged wire format of libevent's \<open>event_tagging.c\<close>, with the codec contract
    interpreted on its integers, tags and records.
  \<^item> \<open>MinHeap\<close>: the timer heap of libevent's \<open>minheap-internal.h\<close>; the loops over the array with a
    hole refine sifting on lists, and the heap meets the contract of a priority queue.
  \<^item> \<open>JsonValue\<close>, \<open>JsonReader\<close>, \<open>JsonWriter\<close>: jsoncpp's values (the tagged union \<open>jvalue\<close> over
    ordered maps, which meet the contract \<open>finite_map\<close>), its recursive-descent reader, where
    \<open>current_\<close> is the suffix that is left and a \<open>reading\<close> is what a function ends in, and its
    fast writer. \<open>JsonTotal\<close>: reading takes characters and so ends. \<open>JsonRound\<close>: what is written
    is read back, tokens first. \<open>JsonForm\<close>: the form of what the reader makes. \<open>JsonText\<close>:
    escapes in UTF-8. \<open>JsonOps\<close>: resizing and order. \<open>JsonProps\<close>: the properties.
  \<^item> \<open>JsonServer\<close>: the interface \<open>json_lib\<close> of \<open>Server\<close> filled in with jsoncpp, and requests
    served from bytes to bytes: the two well-formed requests, and any object whatever its members.
  \<^item> \<open>EvChain\<close>, \<open>EvBuffer\<close>, \<open>EvMove\<close>, \<open>EvSpace\<close>, \<open>EvSearch\<close>: the definitions of libevent's \<open>buffer.c\<close>. A
    buffer is the record \<open>evbuffer\<close> whose chains are a list of \<open>evchain\<close> (memory with \<open>misalign\<close> and
    \<open>off\<close>, flags and pins) with \<open>last_with_datap\<close> as a position in it; the allocator and the socket are
    parameters, and the result \<open>None\<close> is a failed assertion or an access outside a chain. \<open>EvBuffer\<close>
    adds, prepends, drains and copies, \<open>EvMove\<close> moves chains and pulls up, \<open>EvSpace\<close> expands,
    reserves, commits, reads and writes, \<open>EvSearch\<close> has positions, searches and lines.
  \<^item> \<open>EvInv\<close>, \<open>EvAdd\<close>, \<open>EvTake\<close>, \<open>EvMoveInv\<close>, \<open>EvPullup\<close>, \<open>EvSpaceInv\<close>, \<open>EvIO\<close>, \<open>EvSearchInv\<close>: the
    invariant of a buffer, the bytes it stands for, and for each operation that it keeps the one and
    what it does to the other. \<open>EvQueue\<close>: the operations as calls on two buffers, which meet the
    contract \<open>byte_queue\<close>. \<open>EvProps\<close>: the properties, with calls that run into failed assertions.
  \<^item> \<open>EventBase\<close>, \<open>EventOps\<close>, \<open>EventLoop\<close>: the definitions of libevent's \<open>event.c\<close> and \<open>evmap.c\<close>. Events
    are addresses with contents (\<open>ev_event\<close>), the base (\<open>event_base\<close>) holds the queues, the timer
    heap, the maps and what the backend was asked to watch; what memory and backend answer is the
    record \<open>ev_os\<close>. \<open>EventOps\<close> adds, deletes and activates events and handles timers; \<open>EventLoop\<close>
    has the closures, the active queues and the loop, where a callback is the list of calls it
    makes and the backend a list of answers. The result \<open>None\<close> is a failed assertion or an overflow of the
    \<open>int\<close> that holds the size of a map (with pointers of eight bytes, from descriptor 2 ^ 27 on); \<open>ev_ncalls\<close>
    is a \<open>short\<close>; seconds and \<open>tv_usec\<close> are integers that do not overflow. There is one base: \<open>ev_base\<close> says
    whether an event was assigned to it. \<open>event_base_new\<close> is the record before a backend is chosen.
  \<^item> \<open>EventInv\<close>, \<open>EventMaps\<close>, \<open>EventKeep\<close>: the invariant \<open>base_ok\<close> of the base (queues, flags and
    counters agree, the maps hold the inserted events) and that the parts keep it. \<open>EventEffects\<close>,
    \<open>EventCalls\<close>: each operation as its effect on the contents of one event. \<open>EventTime\<close>: times with their
    microseconds in range, which the assertions on times need, and that the calls keep them so. \<open>EventRun\<close>,
    \<open>EventTurn\<close>: callbacks, closures, queues and the loop under proper calls. \<open>EventOrder\<close>: the order of
    callbacks. \<open>EventProps\<close>: the properties and behaviours a caller would not expect.

  Bounds. \<open>http_parser_execute\<close> runs \<open>exec_loop\<close>, which is a partial function; that it returns
  is proved from a measure on the rest of the input and the rank of the state. The functions
  of the JSON reader call each other to the depth of a bound; \<open>parse\<close> takes twice the length
  of the document and one, and \<open>parse_returns\<close> shows that this is enough and that no larger
  bound changes the result. \<open>timeout_process\<close>, \<open>signal_calls\<close> and
  \<open>event_process_active_single_queue\<close> are partial functions, since a callback may activate its event
  again; \<open>timers_fire\<close> and \<open>event_loop_safe\<close> show that they return. The other loops have termination
  proofs.

  Not modelled: of libevent's buffers sendfile, mmap, \<open>evbuffer_add_file\<close>, the printf interface and
  the locks; of its event loop the choice of a backend, other threads, debug mode, common timeouts, deferred callbacks,
  \<open>event_base_once\<close> and re-initialisation after a fork; the backends (a parameter), the bufferevents,
  HTTP, RPC and DNS, which the server does not use or sees as callbacks in any order; the MySQL client
  library and the system calls (parameters), of
  jsoncpp the comments kept for values, the texts of errors, paths, iterators and the styled
  writers, doubles (a type parameter with the operations of the C library), the constants of
  the socket set-up, what is printed on the
  console, \<open>src/client_test.cpp\<close> (socket input and output only) and \<open>src/main.cpp\<close>, which
  uses a class that is not in the repository.
\<close>

end
